(* ===== verification/Prelude.thy ===== *)
theory Prelude
  imports Main "HOL-Library.Word" "HOL-Library.Monad_Syntax"
begin

text \<open>
  Shared vocabulary of the development: the collections of rewrite rules the component
  theories fill, unsigned machine subtraction, generic facts on lists, options and maps,
  reachable states of a step relation, and the interface locale through which every
  state machine of the library gets its invariant theorem.
\<close>

section \<open>Collections\<close>

named_theorems inv_defs \<open>definitions of the components' well-formedness invariants\<close>
named_theorems op_defs \<open>definitions of the components' operations\<close>

section \<open>Machine words\<close>

text \<open>
  C++ \<open>size_t\<close> values are modelled as \<^typ>\<open>nat\<close>; the one operation where this differs from
  the machine, subtraction, is written out with its wrap-around modulo \<open>2 ^ 64\<close>.
\<close>

definition size_sub :: "nat \<Rightarrow> nat \<Rightarrow> nat" where
  "size_sub a b = (if b \<le> a then a - b else a + 2 ^ 64 - b)"

lemma size_sub_le [simp]: "b \<le> a \<Longrightarrow> size_sub a b = a - b"
  by (simp add: size_sub_def)

lemma size_sub_self [simp]: "size_sub a a = 0"
  by simp

section \<open>Errors as values\<close>

text \<open>Sequencing of computations that may throw: \<open>Inl\<close> is the exception.\<close>

definition bindE :: "'e + 'a \<Rightarrow> ('a \<Rightarrow> 'e + 'b) \<Rightarrow> 'e + 'b" where
  "bindE x f = (case x of Inl e \<Rightarrow> Inl e | Inr a \<Rightarrow> f a)"

lemma bindE_simps [simp]: "bindE (Inl e) f = Inl e" "bindE (Inr a) f = f a"
  by (simp_all add: bindE_def)

lemma bindE_Inr_iff: "bindE x f = Inr b \<longleftrightarrow> (\<exists>a. x = Inr a \<and> f a = Inr b)"
  by (cases x) auto

lemma bindE_assoc_Inl: "bindE x f = Inl e \<Longrightarrow> bindE x (\<lambda>y. bindE (f y) g) = Inl e"
  by (cases x) auto

lemma bindE_not_Inl: "x \<noteq> Inl e \<Longrightarrow> (\<And>a. x = Inr a \<Longrightarrow> f a \<noteq> Inl e) \<Longrightarrow> bindE x f \<noteq> Inl e"
  by (cases x) auto

lemma bindE_cong [fundef_cong]:
  "x = y \<Longrightarrow> (\<And>a. y = Inr a \<Longrightarrow> f a = g a) \<Longrightarrow> bindE x f = bindE y g"
  by (cases y) auto

section \<open>Lists\<close>

lemma dropWhile_eq_ConsD: "dropWhile P xs = y # ys \<Longrightarrow> \<not> P y"
  by (metis hd_dropWhile list.distinct(1) list.sel(1))

lemma takeWhile_then:
  "\<forall>x \<in> set xs. P x \<Longrightarrow> \<not> P y \<Longrightarrow>
    takeWhile P (xs @ y # ys) = xs \<and> dropWhile P (xs @ y # ys) = y # ys"
  by (simp add: takeWhile_append2 dropWhile_append2)

lemma nth_append_Suc [simp]: "(xs @ [x]) ! length xs = x"
  by simp

lemma find_SomeD: "find P xs = Some x \<Longrightarrow> x \<in> set xs \<and> P x"
  by (auto simp: find_Some_iff)

lemma length_concat_map: "\<forall>x \<in> set xs. f x \<noteq> [] \<Longrightarrow> length xs \<le> length (concat (map f xs))"
proof (induction xs)
  case (Cons x xs)
  then show ?case by (cases "f x") auto
qed simp

lemma zip_take_left: "zip (take (length ys) xs) ys = zip xs ys"
  using take_zip [of "length ys" xs ys] by simp

lemma sorted_wrt_less_distinct:
  fixes xs :: "'a :: linorder list"
  shows "sorted_wrt (<) xs \<Longrightarrow> distinct xs"
  by (simp add: strict_sorted_iff)

lemma sum_list_drop_nth:
  fixes xs :: "nat list"
  shows "i < length xs \<Longrightarrow> sum_list (drop i xs) = xs ! i + sum_list (drop (Suc i) xs)"
  by (simp add: Cons_nth_drop_Suc [symmetric])

section \<open>Reachable states and invariants\<close>

inductive reach :: "('s \<Rightarrow> bool) \<Rightarrow> ('s \<Rightarrow> 's \<Rightarrow> bool) \<Rightarrow> 's \<Rightarrow> bool"
  for start :: "'s \<Rightarrow> bool" and step :: "'s \<Rightarrow> 's \<Rightarrow> bool" where
  reach_start: "start s \<Longrightarrow> reach start step s"
| reach_step: "reach start step s \<Longrightarrow> step s t \<Longrightarrow> reach start step t"

text \<open>
  The contract of a state machine: its start states satisfy the invariant and every step
  keeps it. What a client gets is that the invariant holds in every reachable state, and
  that whatever the invariant implies does too.
\<close>

locale transition_system =
  fixes start :: "'s \<Rightarrow> bool"
    and step :: "'s \<Rightarrow> 's \<Rightarrow> bool"
    and invar :: "'s \<Rightarrow> bool"
  assumes start_invar: "start s \<Longrightarrow> invar s"
    and step_invar: "step s t \<Longrightarrow> invar s \<Longrightarrow> invar t"
begin

lemma reach_invar: "reach start step s \<Longrightarrow> invar s"
  by (induction rule: reach.induct) (auto intro: start_invar step_invar)

lemma reach_implies: "reach start step s \<Longrightarrow> (\<And>t. invar t \<Longrightarrow> P t) \<Longrightarrow> P s"
  using reach_invar by blast

lemma steps_invar: "step\<^sup>*\<^sup>* s t \<Longrightarrow> invar s \<Longrightarrow> invar t"
  by (induction rule: rtranclp_induct) (auto intro: step_invar)

end

lemma reach_rtranclp: "start s \<Longrightarrow> step\<^sup>*\<^sup>* s t \<Longrightarrow> reach start step t"
proof -
  assume "start s" and "step\<^sup>*\<^sup>* s t"
  from this(2) show "reach start step t"
    by (induction rule: rtranclp_induct) (auto intro: reach.intros \<open>start s\<close>)
qed

section \<open>Bounded queues\<close>

text \<open>Reading \<open>n\<close> elements in a row.\<close>

fun drain :: "('q \<Rightarrow> 'a \<times> 'q) \<Rightarrow> nat \<Rightarrow> 'q \<Rightarrow> 'a list \<times> 'q" where
  "drain rd 0 q = ([], q)"
| "drain rd (Suc n) q =
     (case rd q of (x, q') \<Rightarrow> case drain rd n q' of (xs, q'') \<Rightarrow> (x # xs, q''))"

text \<open>
  The contract of a first-in first-out buffer of bounded capacity that overwrites its
  oldest element when full. \<open>items\<close> is the abstraction to a list.
\<close>

locale overwriting_queue =
  fixes put :: "'a \<Rightarrow> 'q \<Rightarrow> 'q"
    and get :: "'q \<Rightarrow> 'a \<times> 'q"
    and capacity :: "'q \<Rightarrow> nat"
    and items :: "'q \<Rightarrow> 'a list"
    and invar :: "'q \<Rightarrow> bool"
  assumes put_invar: "invar q \<Longrightarrow> invar (put x q)"
    and put_capacity: "invar q \<Longrightarrow> capacity (put x q) = capacity q"
    and put_items: "invar q \<Longrightarrow>
      items (put x q) = drop (Suc (length (items q)) - capacity q) (items q @ [x])"
    and items_bound: "invar q \<Longrightarrow> length (items q) \<le> capacity q"
    and capacity_pos: "invar q \<Longrightarrow> 0 < capacity q"
    and get_items: "invar q \<Longrightarrow> items q \<noteq> [] \<Longrightarrow>
      get q = (x, q') \<Longrightarrow> x = hd (items q) \<and> items q' = tl (items q)"
    and get_invar: "invar q \<Longrightarrow> items q \<noteq> [] \<Longrightarrow> get q = (x, q') \<Longrightarrow> invar q'"
begin

lemma fold_put_invar: "invar q \<Longrightarrow> invar (fold put xs q)"
  by (induction xs arbitrary: q) (auto intro: put_invar)

lemma fold_put_capacity: "invar q \<Longrightarrow> capacity (fold put xs q) = capacity q"
  by (induction xs arbitrary: q) (auto simp: put_invar put_capacity)

lemma fold_put_items:
  "invar q \<Longrightarrow>
    items (fold put xs q) =
      drop (length (items q) + length xs - capacity q) (items q @ xs)"
proof (induction xs arbitrary: q)
  case Nil
  then show ?case by (simp add: items_bound)
next
  case (Cons x xs)
  let ?d = "Suc (length (items q)) - capacity q"
  have inv: "invar (put x q)" using Cons.prems by (rule put_invar)
  have d: "?d \<le> length (items q) + 1" by simp
  have len: "length (items (put x q)) = Suc (length (items q)) - ?d"
    using Cons.prems by (simp add: put_items)
  have idx: "length (items (put x q)) + length xs - capacity q + ?d =
      length (items q) + length (x # xs) - capacity q"
    using len items_bound [OF Cons.prems] by simp
  have "items (fold put xs (put x q)) =
      drop (length (items (put x q)) + length xs - capacity q) (items (put x q) @ xs)"
    using Cons.IH [OF inv] Cons.prems by (simp add: put_capacity)
  also have "items (put x q) @ xs = drop ?d (items q @ x # xs)"
    using Cons.prems d capacity_pos [OF Cons.prems] by (simp add: put_items)
  also have "drop (length (items (put x q)) + length xs - capacity q) \<dots>
      = drop (length (items q) + length (x # xs) - capacity q) (items q @ x # xs)"
    unfolding drop_drop idx ..
  finally show ?case by simp
qed

lemma drain_items:
  "invar q \<Longrightarrow> n \<le> length (items q) \<Longrightarrow> fst (drain get n q) = take n (items q)"
proof (induction n arbitrary: q)
  case 0
  then show ?case by simp
next
  case (Suc n)
  then have ne: "items q \<noteq> []" by auto
  obtain x q' where g: "get q = (x, q')" by fastforce
  have "fst (drain get n q') = take n (items q')"
    using Suc ne g get_items [OF Suc.prems(1) ne g] get_invar [OF Suc.prems(1) ne g] by auto
  then show ?case
    using get_items [OF Suc.prems(1) ne g] ne g
    by (cases "items q") (auto split: prod.splits)
qed

end

section \<open>Sets\<close>

text \<open>
  A sequence of calls on a set, each made by some thread, run against an implementation whose
  operations may be undefined (\<open>None\<close>: a bad memory access, or a loop that does not end), and
  against the mathematical set.
\<close>

datatype 'k set_call = InsCall 'k | RemCall 'k | MemCall 'k

type_synonym ('a, 'k, 's) set_op = "'a \<Rightarrow> 'k \<Rightarrow> 's \<Rightarrow> (bool \<times> 's) option"

fun set_run :: "('a, 'k, 's) set_op \<Rightarrow> ('a, 'k, 's) set_op \<Rightarrow> ('a, 'k, 's) set_op \<Rightarrow>
    ('a \<times> 'k set_call) list \<Rightarrow> 's \<Rightarrow> (bool list \<times> 's) option" where
  "set_run ins rem mem [] s = Some ([], s)"
| "set_run ins rem mem ((t, c) # cs) s =
     do {
       (r, s1) \<leftarrow> (case c of InsCall k \<Rightarrow> ins t k s | RemCall k \<Rightarrow> rem t k s | MemCall k \<Rightarrow> mem t k s);
       (rs, s2) \<leftarrow> set_run ins rem mem cs s1;
       Some (r # rs, s2)
     }"

fun set_spec :: "('a \<times> 'k set_call) list \<Rightarrow> 'k set \<Rightarrow> bool list \<times> 'k set" where
  "set_spec [] A = ([], A)"
| "set_spec ((t, c) # cs) A =
     (case c of
        InsCall k \<Rightarrow> (case set_spec cs (insert k A) of (rs, B) \<Rightarrow> ((k \<notin> A) # rs, B))
      | RemCall k \<Rightarrow> (case set_spec cs (A - {k}) of (rs, B) \<Rightarrow> ((k \<in> A) # rs, B))
      | MemCall k \<Rightarrow> (case set_spec cs A of (rs, B) \<Rightarrow> ((k \<in> A) # rs, B)))"

locale set_adt =
  fixes ins rem mem :: "('a, 'k, 's) set_op"
    and content :: "'s \<Rightarrow> 'k set"
    and invar :: "'s \<Rightarrow> bool"
    and agent :: "'a \<Rightarrow> bool"
  assumes ins_law: "invar s \<Longrightarrow> agent t \<Longrightarrow>
      \<exists>s'. ins t k s = Some (k \<notin> content s, s') \<and> invar s' \<and> content s' = insert k (content s)"
    and rem_law: "invar s \<Longrightarrow> agent t \<Longrightarrow>
      \<exists>s'. rem t k s = Some (k \<in> content s, s') \<and> invar s' \<and> content s' = content s - {k}"
    and mem_law: "invar s \<Longrightarrow> agent t \<Longrightarrow>
      \<exists>s'. mem t k s = Some (k \<in> content s, s') \<and> invar s' \<and> content s' = content s"
begin

lemma run_spec:
  "invar s \<Longrightarrow> \<forall>(t, c) \<in> set cs. agent t \<Longrightarrow>
    \<exists>s'. set_run ins rem mem cs s = Some (fst (set_spec cs (content s)), s') \<and>
     invar s' \<and> content s' = snd (set_spec cs (content s))"
proof (induction cs arbitrary: s)
  case Nil
  then show ?case by simp
next
  case (Cons tc cs)
  obtain t c where tc: "tc = (t, c)" and t: "agent t" using Cons.prems(2) by (cases tc) auto
  have cs: "\<forall>(t, c) \<in> set cs. agent t" using Cons.prems(2) by simp
  show ?case
  proof (cases c)
    case (InsCall k)
    obtain s1 where s1: "ins t k s = Some (k \<notin> content s, s1)" "invar s1"
      "content s1 = insert k (content s)"
      using ins_law [OF Cons.prems(1) t] by blast
    then show ?thesis using Cons.IH [OF s1(2) cs] InsCall tc by (auto split: prod.split)
  next
    case (RemCall k)
    obtain s1 where s1: "rem t k s = Some (k \<in> content s, s1)" "invar s1"
      "content s1 = content s - {k}"
      using rem_law [OF Cons.prems(1) t] by blast
    then show ?thesis using Cons.IH [OF s1(2) cs] RemCall tc by (auto split: prod.split)
  next
    case (MemCall k)
    obtain s1 where s1: "mem t k s = Some (k \<in> content s, s1)" "invar s1"
      "content s1 = content s"
      using mem_law [OF Cons.prems(1) t] by blast
    then show ?thesis using Cons.IH [OF s1(2) cs] MemCall tc by (auto split: prod.split)
  qed
qed

end

end
