(* ===== verification/Circular_Buffer.thy ===== *)
theory Circular_Buffer
  imports Prelude
begin

text \<open>
  \<^verbatim>\<open>src/circular_buffer.hpp\<close>, \<^verbatim>\<open>src/circular_buffer.cpp\<close>: the fixed-size circular buffer
  of integers. The pointers \<open>readPtr\<close> and \<open>writePtr\<close> are indices into \<open>elements\<close>, so
  \<open>readPtr - elements\<close> of the source is the index itself. The theory shows that, as long as
  the reader never reads an empty buffer, the class is a bounded queue that overwrites its
  oldest value, and what a read of the empty buffer does instead.
\<close>

section \<open>State and operations\<close>

datatype readOrNot = isread | unread

record bufferElement =
  el_value :: int
  readstatus :: readOrNot

record circular_buffer =
  bufferSlots :: nat
  elements :: "bufferElement list"
  readPtr :: nat
  writePtr :: nat

text \<open>
  \<open>new bufferElement[n]\<close> leaves the \<open>value\<close> fields indeterminate: the contents the memory
  happens to have are the argument \<open>junk\<close>.
\<close>

definition CircularBuffer_new :: "(nat \<Rightarrow> int) \<Rightarrow> int \<Rightarrow> circular_buffer" where
  "CircularBuffer_new junk slots =
     (let n = (if slots > 0 then nat slots else 10)
      in \<lparr>bufferSlots = n,
          elements = map (\<lambda>i. \<lparr>el_value = junk i, readstatus = isread\<rparr>) [0..<n],
          readPtr = 0, writePtr = 0\<rparr>)"

definition next_slot :: "circular_buffer \<Rightarrow> nat \<Rightarrow> nat" where
  "next_slot cb p = (if p = bufferSlots cb - 1 then 0 else p + 1)"

definition CircularBuffer_write :: "int \<Rightarrow> circular_buffer \<Rightarrow> circular_buffer" where
  "CircularBuffer_write v cb =
     (let tempPtr = next_slot cb (writePtr cb);
          cb1 = (if readstatus (elements cb ! tempPtr) = unread \<and> writePtr cb = readPtr cb
                 then cb\<lparr>readPtr := next_slot cb (readPtr cb)\<rparr> else cb)
      in cb1\<lparr>elements := (elements cb1)[writePtr cb1 := \<lparr>el_value = v, readstatus = unread\<rparr>],
             writePtr := tempPtr\<rparr>)"

definition CircularBuffer_read :: "circular_buffer \<Rightarrow> int \<times> circular_buffer" where
  "CircularBuffer_read cb =
     (let e = elements cb ! readPtr cb;
          temp = (if readstatus e = unread then el_value e else -1)
      in (temp,
          cb\<lparr>elements := (elements cb)[readPtr cb := e\<lparr>readstatus := isread\<rparr>],
             readPtr := next_slot cb (readPtr cb)\<rparr>))"

definition CircularBuffer_clear :: "circular_buffer \<Rightarrow> circular_buffer" where
  "CircularBuffer_clear cb =
     cb\<lparr>elements := map (\<lambda>e. e\<lparr>readstatus := isread\<rparr>) (elements cb),
        readPtr := writePtr cb\<rparr>"

section \<open>Abstraction and invariant\<close>

text \<open>
  Seen from the read pointer, the ring is a run of unread slots, the queue, followed by the
  slots already read; the write pointer is where the first run ends.
\<close>

definition cb_ring :: "circular_buffer \<Rightarrow> bufferElement list" where
  "cb_ring cb = rotate (readPtr cb) (elements cb)"

definition cb_unread :: "circular_buffer \<Rightarrow> bufferElement list" where
  "cb_unread cb = takeWhile (\<lambda>e. readstatus e = unread) (cb_ring cb)"

definition cb_items :: "circular_buffer \<Rightarrow> int list" where
  "cb_items cb = map el_value (cb_unread cb)"

definition cb_inv :: "circular_buffer \<Rightarrow> bool" where
  "cb_inv cb \<longleftrightarrow>
     0 < bufferSlots cb \<and> length (elements cb) = bufferSlots cb \<and>
     readPtr cb < bufferSlots cb \<and>
     writePtr cb = (readPtr cb + length (cb_unread cb)) mod bufferSlots cb \<and>
     (\<forall>e \<in> set (drop (length (cb_unread cb)) (cb_ring cb)). readstatus e = isread)"

declare cb_inv_def [inv_defs]
declare CircularBuffer_write_def [op_defs] CircularBuffer_read_def [op_defs]
  CircularBuffer_clear_def [op_defs]

lemma next_slot_mod: "p < bufferSlots cb \<Longrightarrow> next_slot cb p = Suc p mod bufferSlots cb"
  by (auto simp: next_slot_def mod_Suc)

lemma not_unread [simp]: "x \<noteq> unread \<longleftrightarrow> x = isread"
  by (cases x) auto

text \<open>Positions relative to the read pointer are distinct on one turn of the ring.\<close>

lemma ring_inj:
  fixes r n i j :: nat
  assumes "i < n" "j < n" "(r + i) mod n = (r + j) mod n"
  shows "i = j"
proof -
  have *: "i = j" if "i \<le> j" "j < n" "(r + i) mod n = (r + j) mod n" for i j
  proof -
    have "n dvd (r + j) - (r + i)"
      using that by (metis add_le_cancel_left mod_eq_dvd_iff_nat)
    then have "n dvd j - i" by simp
    moreover have "j - i < n" using that by simp
    ultimately show ?thesis using that by (metis diff_is_0_eq' le_antisym nat_dvd_not_less
        neq0_conv diff_is_0_eq)
  qed
  show ?thesis using * [of i j] * [of j i] assms by (metis nat_le_linear)
qed

lemma rotate_update:
  assumes "i < length xs"
  shows "rotate r (xs[(r + i) mod length xs := e]) = (rotate r xs)[i := e]"
proof (rule nth_equalityI)
  fix j assume "j < length (rotate r (xs[(r + i) mod length xs := e]))"
  then have j: "j < length xs" by simp
  then show "rotate r (xs[(r + i) mod length xs := e]) ! j = (rotate r xs)[i := e] ! j"
    using assms ring_inj [OF assms j, of r]
    by (cases "i = j") (auto simp: nth_rotate intro!: nth_list_update_eq nth_list_update_neq
        mod_less_divisor)
qed simp

lemma rotate_Suc_mod:
  "length xs = n \<Longrightarrow> rotate (Suc r mod n) xs = rotate1 (rotate r xs)"
  by (metis rotate_conv_mod rotate_Suc)

text \<open>
  The invariant in one equation: the ring splits into the unread and the read slots.
\<close>

lemma cb_ring_split:
  assumes "cb_inv cb"
  obtains R where "cb_ring cb = cb_unread cb @ R"
    and "\<forall>e \<in> set (cb_unread cb). readstatus e = unread"
    and "\<forall>e \<in> set R. readstatus e = isread"
    and "length (cb_unread cb) + length R = bufferSlots cb"
proof
  let ?R = "drop (length (cb_unread cb)) (cb_ring cb)"
  show ring: "cb_ring cb = cb_unread cb @ ?R"
    unfolding cb_unread_def by (metis append_take_drop_id takeWhile_eq_take)
  show "\<forall>e \<in> set (cb_unread cb). readstatus e = unread"
    unfolding cb_unread_def by (auto dest: set_takeWhileD)
  show "\<forall>e \<in> set ?R. readstatus e = isread"
    using assms by (simp add: cb_inv_def)
  have "length (cb_ring cb) = bufferSlots cb"
    using assms by (simp add: cb_inv_def cb_ring_def)
  then show "length (cb_unread cb) + length ?R = bufferSlots cb"
    by (metis ring length_append)
qed

lemma cb_unreadI:
  assumes "cb_ring cb = U @ R" "\<forall>e \<in> set U. readstatus e = unread"
    "\<forall>e \<in> set R. readstatus e = isread"
  shows "cb_unread cb = U"
proof -
  have "takeWhile (\<lambda>e. readstatus e = unread) R = []"
    using assms(3) by (cases R) auto
  then show ?thesis
    using assms by (simp add: cb_unread_def takeWhile_append2)
qed

lemma cb_invI:
  assumes "0 < bufferSlots cb" "length (elements cb) = bufferSlots cb"
    "readPtr cb < bufferSlots cb" "cb_ring cb = U @ R"
    "\<forall>e \<in> set U. readstatus e = unread" "\<forall>e \<in> set R. readstatus e = isread"
    "writePtr cb = (readPtr cb + length U) mod bufferSlots cb"
  shows "cb_inv cb \<and> cb_items cb = map el_value U"
  using assms cb_unreadI [OF assms(4-6)] by (simp add: cb_inv_def cb_items_def)

section \<open>The operations are a bounded queue\<close>

lemma CircularBuffer_new_inv:
  "cb_inv (CircularBuffer_new junk slots) \<and> cb_items (CircularBuffer_new junk slots) = []"
proof -
  let ?cb = "CircularBuffer_new junk slots"
  have "cb_inv ?cb \<and> cb_items ?cb = map el_value ([] :: bufferElement list)"
    by (rule cb_invI [where R = "elements ?cb"])
      (auto simp: CircularBuffer_new_def cb_ring_def Let_def)
  then show ?thesis by simp
qed

lemma CircularBuffer_clear_inv:
  assumes "0 < bufferSlots cb" "length (elements cb) = bufferSlots cb"
    "writePtr cb < bufferSlots cb"
  shows "cb_inv (CircularBuffer_clear cb) \<and> cb_items (CircularBuffer_clear cb) = []"
proof -
  let ?cb = "CircularBuffer_clear cb"
  have "cb_inv ?cb \<and> cb_items ?cb = map el_value ([] :: bufferElement list)"
    by (rule cb_invI [where R = "cb_ring ?cb"])
      (use assms in \<open>auto simp: CircularBuffer_clear_def cb_ring_def\<close>)
  then show ?thesis by simp
qed

text \<open>A write into a buffer that has room appends; a write into a full one drops the oldest.\<close>

lemma CircularBuffer_write_room:
  assumes inv: "cb_inv cb" and ring: "cb_ring cb = cb_unread cb @ d # R"
    and u: "\<forall>e \<in> set (cb_unread cb). readstatus e = unread"
    and r: "\<forall>e \<in> set (d # R). readstatus e = isread"
  shows "cb_inv (CircularBuffer_write v cb) \<and>
    cb_items (CircularBuffer_write v cb) = cb_items cb @ [v]"
proof -
  let ?U = "cb_unread cb" and ?n = "bufferSlots cb" and ?e = "\<lparr>el_value = v, readstatus = unread\<rparr>"
  let ?cb = "CircularBuffer_write v cb"
  have len: "length (cb_ring cb) = ?n" "length (elements cb) = ?n" "readPtr cb < ?n"
    and w: "writePtr cb = (readPtr cb + length ?U) mod ?n"
    using inv by (auto simp: cb_inv_def cb_ring_def)
  have lu: "length ?U < ?n" using ring len(1) by simp
  have w_lt: "writePtr cb < ?n" using w len by simp
  have not_full: "\<not> (readstatus (elements cb ! next_slot cb (writePtr cb)) = unread
      \<and> writePtr cb = readPtr cb)"
  proof
    assume a: "readstatus (elements cb ! next_slot cb (writePtr cb)) = unread
      \<and> writePtr cb = readPtr cb"
    have "length ?U = 0"
      using a w len(3) lu ring_inj [of "length ?U" ?n 0 "readPtr cb"] by simp
    then have "\<forall>e \<in> set (elements cb). readstatus e = isread"
      using r ring unfolding cb_ring_def by (metis append_Nil length_0_conv set_rotate)
    moreover have "next_slot cb (writePtr cb) < length (elements cb)"
      using w_lt len by (simp add: next_slot_mod)
    ultimately show False using a nth_mem by force
  qed
  have eq: "?cb = cb\<lparr>elements := (elements cb)[writePtr cb := ?e],
      writePtr := Suc (writePtr cb) mod ?n\<rparr>"
    using not_full w_lt by (auto simp: CircularBuffer_write_def Let_def next_slot_mod)
  have "cb_ring ?cb = (?U @ [?e]) @ R"
    using eq ring rotate_update [of "length ?U" "elements cb" "readPtr cb" ?e] lu len w
    by (simp add: cb_ring_def)
  then have "cb_inv ?cb \<and> cb_items ?cb = map el_value (?U @ [?e])"
    by (rule cb_invI [rotated 3])
      (use eq u r w len in \<open>auto simp: mod_Suc_eq\<close>)
  then show ?thesis by (simp add: cb_items_def)
qed

lemma CircularBuffer_write_full:
  assumes inv: "cb_inv cb" and ring: "cb_ring cb = cb_unread cb"
    and u: "\<forall>e \<in> set (cb_unread cb). readstatus e = unread"
  shows "cb_inv (CircularBuffer_write v cb) \<and>
    cb_items (CircularBuffer_write v cb) = tl (cb_items cb) @ [v]"
proof -
  let ?n = "bufferSlots cb" and ?e = "\<lparr>el_value = v, readstatus = unread\<rparr>"
  let ?cb = "CircularBuffer_write v cb"
  have len: "length (cb_ring cb) = ?n" "length (elements cb) = ?n" "readPtr cb < ?n"
    using inv by (auto simp: cb_inv_def cb_ring_def)
  have w: "writePtr cb = readPtr cb"
    using inv ring len by (simp add: cb_inv_def)
  obtain a U where aU: "cb_ring cb = a # U" using len by (cases "cb_ring cb") auto
  have "next_slot cb (writePtr cb) < length (elements cb)"
    using w len by (simp add: next_slot_mod)
  then have "readstatus (elements cb ! next_slot cb (writePtr cb)) = unread"
    using u ring unfolding cb_ring_def by (metis nth_mem set_rotate)
  then have eq: "?cb = cb\<lparr>elements := (elements cb)[readPtr cb := ?e],
      readPtr := Suc (readPtr cb) mod ?n, writePtr := Suc (readPtr cb) mod ?n\<rparr>"
    using w len by (simp add: CircularBuffer_write_def Let_def next_slot_mod)
  have rot: "rotate (readPtr cb) ((elements cb)[readPtr cb := ?e]) = ?e # U"
    using rotate_update [of 0 "elements cb" "readPtr cb" ?e] len aU by (simp add: cb_ring_def)
  have "cb_ring ?cb = (U @ [?e]) @ []"
    using eq rot len by (simp add: cb_ring_def rotate_Suc_mod)
  moreover have "(Suc (readPtr cb) mod ?n + length (U @ [?e])) mod ?n = Suc (readPtr cb) mod ?n"
    using aU len by simp
  ultimately have "cb_inv ?cb \<and> cb_items ?cb = map el_value (U @ [?e])"
    by (intro cb_invI) (use eq u [folded ring, unfolded aU] len in auto)
  then show ?thesis using aU ring by (simp add: cb_items_def)
qed

lemma CircularBuffer_write_items:
  assumes inv: "cb_inv cb"
  shows "cb_inv (CircularBuffer_write v cb) \<and>
    cb_items (CircularBuffer_write v cb) =
      drop (Suc (length (cb_items cb)) - bufferSlots cb) (cb_items cb @ [v])"
proof -
  obtain R where R: "cb_ring cb = cb_unread cb @ R"
    "\<forall>e \<in> set (cb_unread cb). readstatus e = unread"
    "\<forall>e \<in> set R. readstatus e = isread" "length (cb_unread cb) + length R = bufferSlots cb"
    using inv by (rule cb_ring_split)
  show ?thesis
  proof (cases R)
    case Nil
    moreover have "cb_items cb \<noteq> []"
      using R(4) Nil inv by (auto simp: cb_items_def cb_inv_def)
    ultimately show ?thesis
      using R CircularBuffer_write_full [OF inv, of v]
      by (cases "cb_items cb") (auto simp: cb_items_def)
  next
    case (Cons d R')
    then show ?thesis
      using R CircularBuffer_write_room [OF inv, of d R' v] by (auto simp: cb_items_def)
  qed
qed

lemma CircularBuffer_read_items:
  assumes inv: "cb_inv cb" and ne: "cb_items cb \<noteq> []"
  shows "fst (CircularBuffer_read cb) = hd (cb_items cb) \<and>
    cb_inv (snd (CircularBuffer_read cb)) \<and>
    cb_items (snd (CircularBuffer_read cb)) = tl (cb_items cb)"
proof -
  obtain R where R: "cb_ring cb = cb_unread cb @ R"
    "\<forall>e \<in> set (cb_unread cb). readstatus e = unread"
    "\<forall>e \<in> set R. readstatus e = isread" "length (cb_unread cb) + length R = bufferSlots cb"
    using inv by (rule cb_ring_split)
  obtain a U where aU: "cb_unread cb = a # U" using ne by (cases "cb_unread cb") (auto simp: cb_items_def)
  let ?n = "bufferSlots cb" and ?cb = "snd (CircularBuffer_read cb)"
  have len: "length (elements cb) = ?n" "readPtr cb < ?n"
    and w: "writePtr cb = (readPtr cb + length (a # U)) mod ?n"
    using inv aU by (auto simp: cb_inv_def)
  have a: "elements cb ! readPtr cb = a"
    using R(1) aU nth_rotate [of 0 "elements cb" "readPtr cb"] len by (simp add: cb_ring_def)
  have rot: "rotate (readPtr cb) ((elements cb)[readPtr cb := a\<lparr>readstatus := isread\<rparr>])
      = a\<lparr>readstatus := isread\<rparr> # U @ R"
    using rotate_update [of 0 "elements cb" "readPtr cb" "a\<lparr>readstatus := isread\<rparr>"] len R(1) aU
    by (simp add: cb_ring_def)
  have eq: "?cb = cb\<lparr>elements := (elements cb)[readPtr cb := a\<lparr>readstatus := isread\<rparr>],
      readPtr := Suc (readPtr cb) mod ?n\<rparr>"
    using len a by (simp add: CircularBuffer_read_def Let_def next_slot_mod)
  have "cb_ring ?cb = U @ R @ [a\<lparr>readstatus := isread\<rparr>]"
    using eq rot len by (simp add: cb_ring_def rotate_Suc_mod)
  then have "cb_inv ?cb \<and> cb_items ?cb = map el_value U"
    by (rule cb_invI [rotated 3])
      (use eq R aU w len in \<open>auto simp: mod_add_left_eq\<close>)
  moreover have "fst (CircularBuffer_read cb) = el_value a"
    using a R(2) aU by (simp add: CircularBuffer_read_def Let_def)
  ultimately show ?thesis using aU by (simp add: cb_items_def)
qed

lemma CircularBuffer_write_slots: "bufferSlots (CircularBuffer_write v cb) = bufferSlots cb"
  by (simp add: CircularBuffer_write_def Let_def)

lemma cb_items_bound: "cb_inv cb \<Longrightarrow> length (cb_items cb) \<le> bufferSlots cb"
  by (erule cb_ring_split) (simp add: cb_items_def)

lemma cb_inv_pos: "cb_inv cb \<Longrightarrow> 0 < bufferSlots cb"
  by (simp add: cb_inv_def)

interpretation cb: overwriting_queue CircularBuffer_write CircularBuffer_read bufferSlots
  cb_items cb_inv
proof unfold_locales
  fix q x q'
  assume "cb_inv q" "cb_items q \<noteq> []" "CircularBuffer_read q = (x, q')"
  then show "x = hd (cb_items q) \<and> cb_items q' = tl (cb_items q)" and "cb_inv q'"
    using CircularBuffer_read_items [of q] by auto
qed (auto simp: CircularBuffer_write_items CircularBuffer_write_slots cb_items_bound
    cb_inv_pos)

section \<open>Properties\<close>

text \<open>
  Any sequence of calls, against the queue it should implement. \<open>queue_run\<close> is \<open>None\<close> when
  a read finds the queue empty.
\<close>

datatype cb_call = WriteCall int | ReadCall | ClearCall

fun cb_run :: "cb_call list \<Rightarrow> circular_buffer \<Rightarrow> int list" where
  "cb_run [] cb = []"
| "cb_run (WriteCall v # cs) cb = cb_run cs (CircularBuffer_write v cb)"
| "cb_run (ReadCall # cs) cb =
     (case CircularBuffer_read cb of (v, cb') \<Rightarrow> v # cb_run cs cb')"
| "cb_run (ClearCall # cs) cb = cb_run cs (CircularBuffer_clear cb)"

fun queue_run :: "nat \<Rightarrow> cb_call list \<Rightarrow> int list \<Rightarrow> int list option" where
  "queue_run n [] q = Some []"
| "queue_run n (WriteCall v # cs) q = queue_run n cs (drop (Suc (length q) - n) (q @ [v]))"
| "queue_run n (ReadCall # cs) q =
     (case q of [] \<Rightarrow> None | v # q' \<Rightarrow> map_option ((#) v) (queue_run n cs q'))"
| "queue_run n (ClearCall # cs) q = queue_run n cs []"

lemma cb_run_queue_run:
  "cb_inv cb \<Longrightarrow> queue_run (bufferSlots cb) cs (cb_items cb) = Some out \<Longrightarrow> cb_run cs cb = out"
proof (induction cs arbitrary: cb out)
  case Nil
  then show ?case by simp
next
  case (Cons c cs)
  show ?case
  proof (cases c)
    case (WriteCall v)
    then show ?thesis
      using Cons.IH [of "CircularBuffer_write v cb" out] Cons.prems
        CircularBuffer_write_items [OF Cons.prems(1), of v]
      by (simp add: CircularBuffer_write_slots)
  next
    case ReadCall
    then obtain v q out' where q: "cb_items cb = v # q" and out: "out = v # out'"
      and run: "queue_run (bufferSlots cb) cs q = Some out'"
      using Cons.prems(2) by (cases "cb_items cb") auto
    have "bufferSlots (snd (CircularBuffer_read cb)) = bufferSlots cb"
      by (simp add: CircularBuffer_read_def Let_def)
    then show ?thesis
      using ReadCall Cons.IH [of "snd (CircularBuffer_read cb)" out'] q out run
        CircularBuffer_read_items [OF Cons.prems(1)] by (auto split: prod.split)
  next
    case ClearCall
    then show ?thesis
      using Cons.IH [of "CircularBuffer_clear cb" out] Cons.prems
        CircularBuffer_clear_inv [of cb] by (simp add: cb_inv_def CircularBuffer_clear_def)
  qed
qed

text \<open>
  C14. Any sequence of \<open>write\<close>, \<open>read\<close> and \<open>clear\<close> calls on a new \<open>CircularBuffer\<close>
  returns what a first-in first-out queue of the same capacity returns that drops its oldest
  value when it is full, provided no read finds the queue empty.
\<close>

theorem CircularBuffer_refines_queue:
  assumes "queue_run (if slots > 0 then nat slots else 10) cs [] = Some out"
  shows "cb_run cs (CircularBuffer_new junk slots) = out"
proof -
  have "bufferSlots (CircularBuffer_new junk slots) = (if slots > 0 then nat slots else 10)"
    by (simp add: CircularBuffer_new_def Let_def)
  then show ?thesis
    using assms CircularBuffer_new_inv [of junk slots]
      cb_run_queue_run [of "CircularBuffer_new junk slots" cs out] by simp
qed

theorem CircularBuffer_refines_queue_witness:
  "cb_run [WriteCall 7, WriteCall 8, WriteCall 9, ReadCall, ReadCall]
     (CircularBuffer_new (\<lambda>_. 0) 2) = [8, 9]"
  by (rule CircularBuffer_refines_queue) simp

text \<open>
  After any sequence of writes the buffer delivers, in order, the last
  \<open>bufferSlots\<close> values written: earlier ones were overwritten, no other is lost.
\<close>

theorem CircularBuffer_keeps_last:
  assumes "k \<le> min (length vs) (bufferSlots (CircularBuffer_new junk slots))"
  shows "fst (drain CircularBuffer_read k
      (fold CircularBuffer_write vs (CircularBuffer_new junk slots))) =
    take k (drop (length vs - bufferSlots (CircularBuffer_new junk slots)) vs)"
proof -
  let ?cb = "CircularBuffer_new junk slots"
  have inv: "cb_inv ?cb" "cb_items ?cb = []" using CircularBuffer_new_inv by auto
  have items: "cb_items (fold CircularBuffer_write vs ?cb) = drop (length vs - bufferSlots ?cb) vs"
    using cb.fold_put_items [OF inv(1), of vs] inv(2) by simp
  have "k \<le> length (drop (length vs - bufferSlots ?cb) vs)" using assms by auto
  then show ?thesis
    using cb.drain_items [OF cb.fold_put_invar [OF inv(1)], of k vs] items by simp
qed

theorem CircularBuffer_keeps_last_witness:
  "fst (drain CircularBuffer_read 2
      (fold CircularBuffer_write [7, 8, 9, 10] (CircularBuffer_new (\<lambda>_. 0) 3))) = [8, 9]"
  using CircularBuffer_keeps_last [of 2 "[7, 8, 9, 10]" "\<lambda>_. 0" 3]
  by (simp add: CircularBuffer_new_def)

text \<open>
  A read of an empty buffer returns \<open>-1\<close> but moves the read pointer past the
  write pointer. With two or more slots the next value written is then not the next value
  read: the following read returns \<open>-1\<close> again although a value was written.
\<close>

theorem CircularBuffer_empty_read_skips:
  assumes "2 \<le> slots"
  shows "cb_run [ReadCall, WriteCall v, ReadCall] (CircularBuffer_new junk slots) = [-1, -1]"
proof -
  have "1 < nat slots" "0 < nat slots" using assms by auto
  then show ?thesis
    using assms by (simp add: CircularBuffer_new_def CircularBuffer_read_def
        CircularBuffer_write_def Let_def next_slot_def)
qed

theorem CircularBuffer_empty_read_skips_witness:
  "cb_run [ReadCall, WriteCall 5, ReadCall] (CircularBuffer_new (\<lambda>_. 0) 3) = [-1, -1]"
  by (rule CircularBuffer_empty_read_skips) simp

end
