(* ===== verification/Buffer.thy ===== *)
theory Buffer
  imports Prelude
begin

text \<open>
  \<^verbatim>\<open>src/buffer.hpp\<close>, \<^verbatim>\<open>src/buffer.cpp\<close>, \<^verbatim>\<open>src/mem_piece.hpp\<close>: the streaming buffer between
  the sockets, the file cache and the protocol parsers. A chunk is the \<open>char[BlockSize]\<close>
  array it points to; a cell is \<open>None\<close> while its byte is indeterminate, as after
  \<open>new char[BlockSize]\<close>. Deque accesses out of range, which are undefined in C++, are
  unspecified here too; the invariant \<open>buf_wf\<close> rules them out. A \<open>MemPiece\<close> is the byte
  string it points to.
\<close>

section \<open>State\<close>

type_synonym cell = "char option"
type_synonym chunk = "cell list"
type_synonym mem_piece = "char list"

record position =
  pos_idx :: nat
  pos_off :: nat

record buffer =
  chunks :: "chunk list"
  sizes :: "nat list"
  wpos :: position
  rpos :: position

datatype buffer_error = FatalLog

definition BlockSize :: nat where
  "BlockSize = 4096"

lemma BlockSize_pos [simp]: "0 < BlockSize" "BlockSize \<noteq> 0"
  by (simp_all add: BlockSize_def)

section \<open>Operations\<close>

definition addChunk :: "buffer \<Rightarrow> position \<times> buffer" where
  "addChunk b =
     (let b' = b\<lparr>chunks := chunks b @ [replicate BlockSize None], sizes := sizes b @ [0]\<rparr>
      in (\<lparr>pos_idx = length (chunks b') - 1, pos_off = 0\<rparr>, b'))"

definition add_write_chunk :: "buffer \<Rightarrow> buffer" where
  "add_write_chunk b = (case addChunk b of (p, b') \<Rightarrow> b'\<lparr>wpos := p\<rparr>)"

definition Buffer_new :: buffer where
  "Buffer_new =
     (case addChunk \<lparr>chunks = [], sizes = [], wpos = \<lparr>pos_idx = 0, pos_off = 0\<rparr>,
        rpos = \<lparr>pos_idx = 0, pos_off = 0\<rparr>\<rparr> of (p, b) \<Rightarrow> b\<lparr>wpos := p, rpos := p\<rparr>)"

definition dropChunks :: "nat \<Rightarrow> buffer \<Rightarrow> buffer" where
  "dropChunks n b =
     (if n = 0 then b
      else b\<lparr>wpos := (wpos b)\<lparr>pos_idx := size_sub (pos_idx (wpos b)) n\<rparr>,
             rpos := (rpos b)\<lparr>pos_idx := size_sub (pos_idx (rpos b)) n\<rparr>,
             chunks := drop n (chunks b), sizes := drop n (sizes b)\<rparr>)"

definition writeSize :: "buffer \<Rightarrow> nat" where
  "writeSize b = size_sub BlockSize (pos_off (wpos b))"

definition readSize :: "buffer \<Rightarrow> nat" where
  "readSize b = size_sub (sizes b ! pos_idx (rpos b)) (pos_off (rpos b))"

text \<open>The bytes a consumer finds at \<open>readPtr()\<close>, \<open>readSize()\<close> of them.\<close>

definition read_area :: "buffer \<Rightarrow> cell list" where
  "read_area b = take (readSize b) (drop (pos_off (rpos b)) (chunks b ! pos_idx (rpos b)))"

definition reserve :: "nat \<Rightarrow> buffer \<Rightarrow> bool \<times> buffer" where
  "reserve bytes b =
     (if bytes > BlockSize then (False, b)
      else if size_sub BlockSize (pos_off (wpos b)) \<ge> bytes then (True, b)
      else let should_advance = (rpos b = wpos b);
               b1 = add_write_chunk b
           in (True, if should_advance then dropChunks 1 (b1\<lparr>rpos := wpos b1\<rparr>) else b1))"

text \<open>Storing at \<open>writePtr()\<close>, without moving it.\<close>

definition poke :: "nat \<Rightarrow> cell list \<Rightarrow> chunk \<Rightarrow> chunk" where
  "poke k cs c = take k c @ cs @ drop (k + length cs) c"

definition store :: "cell list \<Rightarrow> buffer \<Rightarrow> buffer" where
  "store cs b =
     b\<lparr>chunks := (chunks b)[pos_idx (wpos b) :=
         poke (pos_off (wpos b)) cs (chunks b ! pos_idx (wpos b))]\<rparr>"

definition move_wpos :: "nat \<Rightarrow> buffer \<Rightarrow> buffer" where
  "move_wpos n b =
     b\<lparr>wpos := (wpos b)\<lparr>pos_off := pos_off (wpos b) + n\<rparr>,
       sizes := (sizes b)[pos_idx (wpos b) := sizes b ! pos_idx (wpos b) + n]\<rparr>"

definition advance :: "nat \<Rightarrow> buffer \<Rightarrow> bool \<times> buffer" where
  "advance bytes b =
     (if bytes \<le> 0 then (False, b)
      else if bytes \<le> writeSize b then (True, move_wpos bytes b)
      else (False, b))"

lemma writeSize_add_write_chunk [simp]: "writeSize (add_write_chunk b) = BlockSize"
  by (simp add: writeSize_def add_write_chunk_def addChunk_def Let_def)

text \<open>
  The loop of \<open>write\<close>: it fills the current chunk, and adds a chunk when bytes are left or
  the chunk is full.
\<close>

function Buffer_write :: "mem_piece \<Rightarrow> buffer \<Rightarrow> buffer" where
  "Buffer_write src b =
     (if src = [] then b
      else let bytes_in_chunk = min (writeSize b) (length src);
               b1 = move_wpos bytes_in_chunk (store (map Some (take bytes_in_chunk src)) b);
               src' = drop bytes_in_chunk src;
               b2 = (if length src' > 0 \<or> pos_off (wpos b1) = BlockSize
                     then add_write_chunk b1 else b1)
           in Buffer_write src' b2)"
  by pat_completeness auto
termination
proof (relation "measure (\<lambda>(src, b). 2 * length src + (if writeSize b = 0 then 1 else 0))",
    goal_cases)
  case 1
  then show ?case by simp
next
  case (2 src b n b1 src' b2)
  show ?case
  proof (cases "writeSize b = 0")
    case True
    then have "b2 = add_write_chunk b1" and "length src' = length src" using 2 by auto
    then show ?thesis using True by simp
  next
    case False
    then have "length src' < length src" using 2 by auto
    then show ?thesis using False by simp
  qed
qed

declare Buffer_write.simps [simp del]

definition maybeRemoveLastChunk :: "buffer \<Rightarrow> chunk option \<times> buffer" where
  "maybeRemoveLastChunk b =
     (if sizes b ! pos_idx (wpos b) = 0
      then (Some (chunks b ! pos_idx (wpos b)),
            b\<lparr>chunks := butlast (chunks b), sizes := butlast (sizes b)\<rparr>)
      else (None, b))"

definition isConsumed :: "buffer \<Rightarrow> bool" where
  "isConsumed b \<longleftrightarrow> pos_idx (rpos b) \<noteq> 0 \<or> pos_off (rpos b) \<noteq> 0"

definition append_chunks :: "buffer \<Rightarrow> chunk option \<Rightarrow> buffer \<Rightarrow> buffer" where
  "append_chunks b last_chunk src =
     (let b1 = b\<lparr>chunks := chunks b @ chunks src, sizes := sizes b @ sizes src\<rparr>;
          b2 = (if last (sizes b1) = BlockSize
                then (case last_chunk of
                        None \<Rightarrow> snd (addChunk b1)
                      | Some c \<Rightarrow> b1\<lparr>chunks := chunks b1 @ [c], sizes := sizes b1 @ [0]\<rparr>)
                else b1);
          b3 = (if readSize b2 = 0
                then b2\<lparr>rpos := \<lparr>pos_idx = pos_idx (rpos b2) + 1, pos_off = 0\<rparr>\<rparr> else b2)
      in b3\<lparr>wpos := \<lparr>pos_idx = length (chunks b3) - 1, pos_off = last (sizes b3)\<rparr>\<rparr>)"

definition reset_source :: "chunk option \<Rightarrow> buffer \<Rightarrow> buffer" where
  "reset_source last_chunk src =
     (let s1 = src\<lparr>chunks := [], sizes := []\<rparr>;
          s2 = (case last_chunk of
                  None \<Rightarrow> add_write_chunk s1
                | Some c \<Rightarrow> s1\<lparr>chunks := [c], sizes := [0]\<rparr>)
      in s2\<lparr>rpos := wpos s2\<rparr>)"

definition appendFrom :: "buffer \<Rightarrow> buffer \<Rightarrow> buffer_error + buffer \<times> buffer" where
  "appendFrom b src =
     (if isConsumed src then Inl FatalLog
      else if readSize src = 0 then Inr (b, src)
      else case maybeRemoveLastChunk b of (last_chunk, b1) \<Rightarrow>
           case maybeRemoveLastChunk src of (other_last_chunk, src1) \<Rightarrow>
             Inr (append_chunks b1 last_chunk src1, reset_source other_last_chunk src1))"

fun copy_chunks :: "bool \<Rightarrow> nat list \<Rightarrow> chunk list \<Rightarrow> buffer \<Rightarrow> buffer" where
  "copy_chunks first (len # lens) (c # cs) b =
     (let b1 = (if \<not> first \<or> len > writeSize b then add_write_chunk b else b)
      in copy_chunks False lens cs (move_wpos len (store (take len c) b1)))"
| "copy_chunks first _ _ b = b"

definition copyFrom :: "buffer \<Rightarrow> buffer \<Rightarrow> buffer_error + buffer" where
  "copyFrom b src =
     (if isConsumed src then Inl FatalLog
      else if readSize src = 0 then Inr b
      else let b1 = copy_chunks True (sizes src) (chunks src) b
           in Inr (if pos_off (wpos b1) = BlockSize then add_write_chunk b1 else b1))"

function consume_loop :: "nat \<Rightarrow> nat \<Rightarrow> buffer \<Rightarrow> nat \<times> nat \<times> buffer" where
  "consume_loop bytes_to_consume chunks_to_drop b =
     (if bytes_to_consume > 0 \<and> pos_idx (rpos b) < pos_idx (wpos b)
      then let bytes_in_chunk = min bytes_to_consume (readSize b);
               b1 = b\<lparr>rpos := (rpos b)\<lparr>pos_off := pos_off (rpos b) + bytes_in_chunk\<rparr>\<rparr>
           in if readSize b1 = 0
              then consume_loop (bytes_to_consume - bytes_in_chunk) (chunks_to_drop + 1)
                     (b1\<lparr>rpos := \<lparr>pos_idx = pos_idx (rpos b1) + 1, pos_off = 0\<rparr>\<rparr>)
              else consume_loop (bytes_to_consume - bytes_in_chunk) chunks_to_drop b1
      else (bytes_to_consume, chunks_to_drop, b))"
  by pat_completeness auto
termination
proof (relation "measure (\<lambda>(n, k, b). n + (pos_idx (wpos b) - pos_idx (rpos b)))", goal_cases)
  case 1
  then show ?case by simp
next
  case (2 n k b m b1)
  then show ?case by auto
next
  case (3 n k b m b1)
  have "0 < readSize b"
  proof (rule ccontr)
    assume "\<not> 0 < readSize b"
    then have "b1 = b" using 3 by simp
    then show False using 3 \<open>\<not> 0 < readSize b\<close> by simp
  qed
  then show ?case using 3 by auto
qed

declare consume_loop.simps [simp del]

definition consume :: "nat \<Rightarrow> buffer \<Rightarrow> buffer" where
  "consume n b =
     (case consume_loop n 0 b of
        (bytes_to_consume, chunks_to_drop, b1) \<Rightarrow>
          dropChunks chunks_to_drop
            (if bytes_to_consume > 0
             then b1\<lparr>rpos := (rpos b1)\<lparr>pos_off :=
                    pos_off (rpos b1) + min bytes_to_consume (readSize b1)\<rparr>\<rparr>
             else b1))"

definition byteCount :: "buffer \<Rightarrow> nat" where
  "byteCount b = readSize b + sum_list (drop 1 (sizes b))"

definition numChunks :: "buffer \<Rightarrow> nat" where
  "numChunks b = length (chunks b)"

end
