(* ===== verification/Buffer_Stream.thy ===== *)
theory Buffer_Stream
  imports Buffer
begin

text \<open>
  The buffer as a stream of bytes: the abstraction \<open>buf_bytes\<close> to the unread bytes, the
  invariant \<open>buf_wf\<close>, and what every operation of the class does to both. The interface
  \<open>byte_stream\<close> is what the connections and the HTTP layer use of a buffer.
\<close>

section \<open>Abstraction and invariant\<close>

text \<open>The filled part of every chunk, and the unread cells from the read pointer on.\<close>

definition filled :: "buffer \<Rightarrow> cell list list" where
  "filled b = map2 take (sizes b) (chunks b)"

definition buf_cells :: "buffer \<Rightarrow> cell list" where
  "buf_cells b = drop (pos_off (rpos b)) (concat (drop (pos_idx (rpos b)) (filled b)))"

definition buf_bytes :: "buffer \<Rightarrow> char list" where
  "buf_bytes b = map the (buf_cells b)"

definition buf_wf :: "buffer \<Rightarrow> bool" where
  "buf_wf b \<longleftrightarrow>
     chunks b \<noteq> [] \<and> length (sizes b) = length (chunks b) \<and>
     (\<forall>c \<in> set (chunks b). length c = BlockSize) \<and> (\<forall>k \<in> set (sizes b). k \<le> BlockSize) \<and>
     wpos b = \<lparr>pos_idx = length (chunks b) - 1, pos_off = last (sizes b)\<rparr> \<and>
     pos_idx (rpos b) < length (chunks b) \<and>
     pos_off (rpos b) \<le> sizes b ! pos_idx (rpos b) \<and>
     None \<notin> set (concat (filled b))"

text \<open>
  No chunk before the last is empty or fully read, so that \<open>readSize() = 0\<close> means that
  there is nothing left to read; and the reader is on the first chunk.
\<close>

definition buf_flow :: "buffer \<Rightarrow> bool" where
  "buf_flow b \<longleftrightarrow>
     (\<forall>i < pos_idx (wpos b). 0 < sizes b ! i) \<and>
     (pos_idx (rpos b) < pos_idx (wpos b) \<longrightarrow> pos_off (rpos b) < sizes b ! pos_idx (rpos b))"

definition at_front :: "buffer \<Rightarrow> bool" where
  "at_front b \<longleftrightarrow> pos_idx (rpos b) = 0"

declare buf_wf_def [inv_defs] buf_flow_def [inv_defs] at_front_def [inv_defs]

lemma length_filled [simp]: "length (sizes b) = length (chunks b) \<Longrightarrow> length (filled b) = length (chunks b)"
  by (simp add: filled_def)

lemma filled_nth:
  "buf_wf b \<Longrightarrow> i < length (chunks b) \<Longrightarrow> filled b ! i = take (sizes b ! i) (chunks b ! i)"
  by (simp add: filled_def buf_wf_def)

lemma length_filled_nth:
  "buf_wf b \<Longrightarrow> i < length (chunks b) \<Longrightarrow> length (filled b ! i) = sizes b ! i"
  by (simp add: filled_nth buf_wf_def)

lemma buf_wf_last:
  assumes "buf_wf b"
  obtains cs c ss k where "chunks b = cs @ [c]" "sizes b = ss @ [k]" "length ss = length cs"
    "wpos b = \<lparr>pos_idx = length cs, pos_off = k\<rparr>" "length c = BlockSize" "k \<le> BlockSize"
    "filled b = map2 take ss cs @ [take k c]"
proof -
  obtain cs c where c: "chunks b = cs @ [c]"
    using assms by (metis buf_wf_def rev_exhaust)
  obtain ss k where k: "sizes b = ss @ [k]"
    using assms c by (metis buf_wf_def length_0_conv rev_exhaust)
  show ?thesis
    by (rule that [OF c k]) (use assms c k in \<open>auto simp: buf_wf_def filled_def\<close>)
qed

text \<open>The read offset lies within the unread chunks.\<close>

lemma rpos_within:
  assumes "buf_wf b"
  shows "pos_off (rpos b) \<le> length (concat (drop (pos_idx (rpos b)) (filled b)))"
proof -
  let ?i = "pos_idx (rpos b)"
  have i: "?i < length (filled b)" using assms by (simp add: buf_wf_def)
  then have "drop ?i (filled b) = filled b ! ?i # drop (Suc ?i) (filled b)"
    by (simp add: Cons_nth_drop_Suc)
  moreover have "length (filled b ! ?i) = sizes b ! ?i"
    using assms by (intro length_filled_nth) (simp_all add: buf_wf_def)
  ultimately show ?thesis using assms by (simp add: buf_wf_def)
qed

lemma buf_cells_Some: "buf_wf b \<Longrightarrow> None \<notin> set (buf_cells b)"
  unfolding buf_cells_def buf_wf_def
  by (metis (no_types, lifting) UN_iff in_set_dropD set_concat)

lemma buf_cells_bytes: "buf_wf b \<Longrightarrow> buf_cells b = map Some (buf_bytes b)"
  using buf_cells_Some [of b] unfolding buf_bytes_def
  by (auto simp: map_idI comp_def intro!: map_idI [symmetric])
     (metis option.collapse)

lemma buf_bytesI: "buf_cells b' = buf_cells b @ map Some d \<Longrightarrow> buf_bytes b' = buf_bytes b @ d"
  by (simp add: buf_bytes_def comp_def)

section \<open>The primitive writes\<close>

text \<open>
  Storing cells at the write pointer and moving it past them appends the cells.
\<close>

lemma store_move_eq:
  assumes "chunks b = cs @ [c]" "sizes b = ss @ [k]" "length ss = length cs"
    "wpos b = \<lparr>pos_idx = length cs, pos_off = k\<rparr>"
  shows "move_wpos (length xs) (store xs b) =
    b\<lparr>chunks := cs @ [poke k xs c], sizes := ss @ [k + length xs],
      wpos := \<lparr>pos_idx = length cs, pos_off = k + length xs\<rparr>\<rparr>"
  using assms by (simp add: move_wpos_def store_def nth_append list_update_append)

lemma store_move:
  assumes wf: "buf_wf b" and room: "length xs \<le> writeSize b" and init: "None \<notin> set xs"
  defines "b' \<equiv> move_wpos (length xs) (store xs b)"
  shows "buf_wf b'" and "buf_cells b' = buf_cells b @ xs" and "rpos b' = rpos b"
    and "pos_off (wpos b') = pos_off (wpos b) + length xs"
    and "pos_idx (wpos b') = pos_idx (wpos b)"
    and "sizes b' = (sizes b)[pos_idx (wpos b) := sizes b ! pos_idx (wpos b) + length xs]"
proof -
  obtain cs c ss k where v: "chunks b = cs @ [c]" "sizes b = ss @ [k]" "length ss = length cs"
    "wpos b = \<lparr>pos_idx = length cs, pos_off = k\<rparr>" "length c = BlockSize" "k \<le> BlockSize"
    "filled b = map2 take ss cs @ [take k c]"
    using wf by (rule buf_wf_last)
  have room': "k + length xs \<le> BlockSize" using room v by (simp add: writeSize_def)
  have eq: "b' = b\<lparr>chunks := cs @ [poke k xs c], sizes := ss @ [k + length xs],
      wpos := \<lparr>pos_idx = length cs, pos_off = k + length xs\<rparr>\<rparr>"
    unfolding b'_def using v(1-4) by (rule store_move_eq)
  have poke: "length (poke k xs c) = BlockSize" "take (k + length xs) (poke k xs c) = take k c @ xs"
    using v room' by (auto simp: poke_def)
  have fill: "filled b' = map2 take ss cs @ [take k c @ xs]"
    using eq v(3) poke by (simp add: filled_def)
  have idx: "pos_idx (rpos b) \<le> length cs" using wf v by (simp add: buf_wf_def)
  show "buf_cells b' = buf_cells b @ xs"
    using idx rpos_within [OF wf] fill v(3,7) eq
    by (simp add: buf_cells_def)
  show "buf_wf b'"
    using wf v(1-4,6,7) room' poke eq fill init
    by (auto simp: buf_wf_def nth_append)
  show "rpos b' = rpos b" "pos_off (wpos b') = pos_off (wpos b) + length xs"
    "pos_idx (wpos b') = pos_idx (wpos b)"
    "sizes b' = (sizes b)[pos_idx (wpos b) := sizes b ! pos_idx (wpos b) + length xs]"
    using eq v by (simp_all add: list_update_append nth_append)
qed

lemma add_write_chunk_eq:
  "add_write_chunk b = b\<lparr>chunks := chunks b @ [replicate BlockSize None], sizes := sizes b @ [0],
     wpos := \<lparr>pos_idx = length (chunks b), pos_off = 0\<rparr>\<rparr>"
  by (simp add: add_write_chunk_def addChunk_def Let_def)

lemma add_write_chunk_wf:
  assumes "buf_wf b"
  shows "buf_wf (add_write_chunk b)" and "buf_cells (add_write_chunk b) = buf_cells b"
    and "rpos (add_write_chunk b) = rpos b"
proof -
  have f: "filled (add_write_chunk b) = filled b @ [[]]"
    using assms by (simp add: filled_def add_write_chunk_eq buf_wf_def)
  show "buf_wf (add_write_chunk b)"
    using assms f by (auto simp: buf_wf_def add_write_chunk_eq nth_append)
  show "buf_cells (add_write_chunk b) = buf_cells b"
    using assms f by (simp add: buf_cells_def add_write_chunk_eq buf_wf_def)
  show "rpos (add_write_chunk b) = rpos b" by (simp add: add_write_chunk_eq)
qed

lemma store_move_flow:
  assumes "buf_wf b" "buf_flow b" "length xs \<le> writeSize b" "None \<notin> set xs"
  shows "buf_flow (move_wpos (length xs) (store xs b))"
  using assms store_move [OF assms(1,3,4)]
  by (auto simp: buf_flow_def nth_list_update)

lemma store_move_rpos_ne:
  assumes "buf_wf b" "length xs \<le> writeSize b" "None \<notin> set xs" "xs \<noteq> []"
  shows "rpos (move_wpos (length xs) (store xs b)) \<noteq> wpos (move_wpos (length xs) (store xs b))"
proof
  let ?b = "move_wpos (length xs) (store xs b)"
  note m = store_move [OF assms(1-3)]
  assume eq: "rpos ?b = wpos ?b"
  have "pos_off (rpos b) \<le> sizes b ! pos_idx (rpos b)" "pos_off (wpos b) = last (sizes b)"
    "pos_idx (wpos b) = length (sizes b) - 1" "sizes b \<noteq> []"
    using assms(1) by (auto simp: buf_wf_def)
  then show False using eq m(3-5) assms(4) by (simp add: last_conv_nth)
qed

lemma add_write_chunk_flow:
  assumes wf: "buf_wf b" and flow: "buf_flow b" and off: "0 < pos_off (wpos b)"
    and ne: "rpos b \<noteq> wpos b"
  shows "buf_flow (add_write_chunk b)"
proof -
  obtain cs c ss k where v: "chunks b = cs @ [c]" "sizes b = ss @ [k]" "length ss = length cs"
    "wpos b = \<lparr>pos_idx = length cs, pos_off = k\<rparr>"
    using wf by (rule buf_wf_last)
  have pos: "0 < (ss @ [k]) ! i" if "i < Suc (length cs)" for i
    using that flow off v by (auto simp: buf_flow_def nth_append less_Suc_eq)
  moreover have "pos_off (rpos b) < (ss @ [k]) ! pos_idx (rpos b)"
    if "pos_idx (rpos b) < Suc (length cs)"
  proof (cases "pos_idx (rpos b) = length cs")
    case True
    moreover have "pos_off (rpos b) \<noteq> k" using ne v True by auto
    ultimately show ?thesis using wf v by (auto simp: buf_wf_def nth_append)
  next
    case False
    then show ?thesis using that flow v by (auto simp: buf_flow_def)
  qed
  moreover have "sizes (add_write_chunk b) ! i = (ss @ [k]) ! i" if "i < Suc (length cs)" for i
    using that v by (auto simp: add_write_chunk_eq nth_append)
  moreover have "pos_idx (wpos (add_write_chunk b)) = Suc (length cs)"
    "rpos (add_write_chunk b) = rpos b"
    using v by (simp_all add: add_write_chunk_eq)
  ultimately show ?thesis
    unfolding buf_flow_def by simp
qed

section \<open>Writing\<close>

lemma Buffer_write_step:
  assumes "src \<noteq> []" and "n = min (writeSize b) (length src)"
    and "b1 = move_wpos n (store (map Some (take n src)) b)"
    and "b2 = (if length (drop n src) > 0 \<or> pos_off (wpos b1) = BlockSize
      then add_write_chunk b1 else b1)"
  shows "Buffer_write src b = Buffer_write (drop n src) b2"
  unfolding assms(2-4) by (subst Buffer_write.simps) (simp only: Let_def assms(1) if_False)

lemma Buffer_write_wf:
  "buf_wf b \<Longrightarrow> buf_wf (Buffer_write d b) \<and>
     buf_cells (Buffer_write d b) = buf_cells b @ map Some d \<and>
     rpos (Buffer_write d b) = rpos b"
proof (induction d b rule: Buffer_write.induct)
  case (1 src b)
  show ?case
  proof (cases "src = []")
    case True
    then show ?thesis using "1.prems" by (simp add: Buffer_write.simps)
  next
    case False
    define n where "n = min (writeSize b) (length src)"
    define b1 where "b1 = move_wpos n (store (map Some (take n src)) b)"
    define b2 where "b2 = (if length (drop n src) > 0 \<or> pos_off (wpos b1) = BlockSize
      then add_write_chunk b1 else b1)"
    have eq: "Buffer_write src b = Buffer_write (drop n src) b2"
      using False n_def b1_def b2_def by (rule Buffer_write_step)
    have len: "length (map Some (take n src)) = n" by (simp add: n_def)
    have b1: "buf_wf b1 \<and> buf_cells b1 = buf_cells b @ map Some (take n src) \<and> rpos b1 = rpos b"
      using store_move [OF "1.prems", of "map Some (take n src)"] len
      by (auto simp: b1_def n_def)
    then have b2: "buf_wf b2 \<and> buf_cells b2 = buf_cells b @ map Some (take n src) \<and> rpos b2 = rpos b"
      using add_write_chunk_wf [of b1] by (simp add: b2_def)
    have "buf_wf (Buffer_write (drop n src) b2) \<and>
        buf_cells (Buffer_write (drop n src) b2) = buf_cells b2 @ map Some (drop n src) \<and>
        rpos (Buffer_write (drop n src) b2) = rpos b2"
      using "1.IH" [OF False n_def b1_def refl, of b2] b2 by (simp add: b2_def)
    then show ?thesis
      using eq b2 by (simp flip: map_append)
  qed
qed

lemma Buffer_write_flow:
  "buf_wf b \<Longrightarrow> buf_flow b \<Longrightarrow> pos_off (wpos b) < BlockSize \<Longrightarrow>
     buf_flow (Buffer_write d b) \<and> pos_off (wpos (Buffer_write d b)) < BlockSize"
proof (induction d b rule: Buffer_write.induct)
  case (1 src b)
  show ?case
  proof (cases "src = []")
    case True
    then show ?thesis using "1.prems" by (simp add: Buffer_write.simps)
  next
    case False
    define n where "n = min (writeSize b) (length src)"
    let ?xs = "map Some (take n src)"
    define b1 where "b1 = move_wpos n (store ?xs b)"
    define b2 where "b2 = (if length (drop n src) > 0 \<or> pos_off (wpos b1) = BlockSize
      then add_write_chunk b1 else b1)"
    have eq: "Buffer_write src b = Buffer_write (drop n src) b2"
      using False n_def b1_def b2_def by (rule Buffer_write_step)
    have len: "length ?xs = n" "?xs \<noteq> []" "n \<le> writeSize b" "None \<notin> set ?xs"
      using False "1.prems"(3) by (auto simp: n_def writeSize_def)
    have b1: "buf_wf b1" "buf_flow b1" "rpos b1 \<noteq> wpos b1" "0 < pos_off (wpos b1)"
      "pos_off (wpos b1) \<le> BlockSize"
      using store_move [OF "1.prems"(1), of ?xs] store_move_flow [OF "1.prems"(1,2), of ?xs]
        store_move_rpos_ne [OF "1.prems"(1), of ?xs] len "1.prems"(3)
      by (auto simp: b1_def writeSize_def)
    have b2: "buf_wf b2" "buf_flow b2" "pos_off (wpos b2) < BlockSize"
      using b1 add_write_chunk_wf(1) [of b1] add_write_chunk_flow [of b1]
      by (auto simp: b2_def add_write_chunk_eq)
    show ?thesis
      using "1.IH" [OF False n_def b1_def refl, of b2] b2 eq by (simp add: b2_def)
  qed
qed

lemma Buffer_write_bytes:
  "buf_wf b \<Longrightarrow> buf_wf (Buffer_write d b)"
  "buf_wf b \<Longrightarrow> buf_bytes (Buffer_write d b) = buf_bytes b @ d"
  using Buffer_write_wf by (auto intro: buf_bytesI)

section \<open>Reading\<close>

lemma readSize_eq: "buf_wf b \<Longrightarrow> readSize b = sizes b ! pos_idx (rpos b) - pos_off (rpos b)"
  by (simp add: readSize_def buf_wf_def)

lemma buf_cells_split:
  assumes "buf_wf b"
  shows "buf_cells b = read_area b @ concat (drop (Suc (pos_idx (rpos b))) (filled b))"
    and "length (read_area b) = readSize b"
proof -
  let ?i = "pos_idx (rpos b)"
  have i: "?i < length (chunks b)" "pos_off (rpos b) \<le> sizes b ! ?i"
    "sizes b ! ?i \<le> BlockSize" "length (chunks b ! ?i) = BlockSize" "?i < length (filled b)"
    using assms by (auto simp: buf_wf_def)
  have area: "read_area b = drop (pos_off (rpos b)) (filled b ! ?i)"
    using assms i by (simp add: read_area_def readSize_eq filled_nth drop_take)
  then show "length (read_area b) = readSize b"
    using assms i by (simp add: length_filled_nth readSize_eq)
  have "drop ?i (filled b) = filled b ! ?i # drop (Suc ?i) (filled b)"
    using i by (simp add: Cons_nth_drop_Suc)
  then show "buf_cells b = read_area b @ concat (drop (Suc ?i) (filled b))"
    using assms i area by (simp add: buf_cells_def length_filled_nth)
qed

text \<open>Moving the read pointer inside its chunk, and on to the next chunk.\<close>

lemma read_move:
  assumes wf: "buf_wf b" and n: "n \<le> readSize b"
  defines "b' \<equiv> b\<lparr>rpos := (rpos b)\<lparr>pos_off := pos_off (rpos b) + n\<rparr>\<rparr>"
  shows "buf_wf b'" and "buf_cells b' = drop n (buf_cells b)" and "readSize b' = readSize b - n"
proof -
  show wf': "buf_wf b'"
    using wf n readSize_eq [OF wf] by (auto simp: buf_wf_def b'_def filled_def)
  show "readSize b' = readSize b - n"
    using readSize_eq [OF wf] readSize_eq [OF wf'] by (simp add: b'_def)
  show "buf_cells b' = drop n (buf_cells b)"
    by (simp add: buf_cells_def b'_def filled_def add.commute)
qed

lemma read_next_chunk:
  assumes wf: "buf_wf b" and z: "readSize b = 0" and i: "pos_idx (rpos b) < pos_idx (wpos b)"
  defines "b' \<equiv> b\<lparr>rpos := \<lparr>pos_idx = pos_idx (rpos b) + 1, pos_off = 0\<rparr>\<rparr>"
  shows "buf_wf b'" and "buf_cells b' = buf_cells b"
proof -
  show wf': "buf_wf b'"
    using wf i by (auto simp: buf_wf_def b'_def filled_def)
  show "buf_cells b' = buf_cells b"
    using buf_cells_split [OF wf] z
    by (simp add: buf_cells_def b'_def filled_def)
qed

lemma consume_loop_stop:
  "\<not> (n > 0 \<and> pos_idx (rpos b) < pos_idx (wpos b)) \<Longrightarrow> consume_loop n k b = (n, k, b)"
  by (subst consume_loop.simps) (simp only: if_False)

lemma consume_loop_step:
  assumes "n > 0 \<and> pos_idx (rpos b) < pos_idx (wpos b)" and "m = min n (readSize b)"
    and "b1 = b\<lparr>rpos := (rpos b)\<lparr>pos_off := pos_off (rpos b) + m\<rparr>\<rparr>"
  shows "consume_loop n k b =
    (if readSize b1 = 0
     then consume_loop (n - m) (k + 1) (b1\<lparr>rpos := \<lparr>pos_idx = pos_idx (rpos b1) + 1, pos_off = 0\<rparr>\<rparr>)
     else consume_loop (n - m) k b1)"
  unfolding assms(2,3) by (subst consume_loop.simps) (simp only: Let_def assms(1) if_True simp_thms)

text \<open>
  The loop of \<open>consume\<close> only moves the read pointer; it stops when the request is satisfied
  or the reader is on the last chunk.
\<close>

lemma consume_loop_wf:
  "buf_wf b \<Longrightarrow> consume_loop n k b = (n', k', b') \<Longrightarrow>
     buf_wf b' \<and> n' \<le> n \<and> buf_cells b' = drop (n - n') (buf_cells b) \<and> k \<le> k' \<and>
     pos_idx (rpos b') = pos_idx (rpos b) + (k' - k) \<and> wpos b' = wpos b \<and> sizes b' = sizes b \<and>
     (n' > 0 \<longrightarrow> pos_idx (rpos b') = pos_idx (wpos b')) \<and> (buf_flow b \<longrightarrow> buf_flow b')"
proof (induction n k b arbitrary: n' k' b' rule: consume_loop.induct)
  case (1 n k b)
  show ?case
  proof (cases "n > 0 \<and> pos_idx (rpos b) < pos_idx (wpos b)")
    case False
    then have "n' = n" "k' = k" "b' = b"
      using "1.prems"(2) by (auto simp: consume_loop_stop)
    moreover have "pos_idx (rpos b) \<le> pos_idx (wpos b)"
      using "1.prems"(1) by (auto simp: buf_wf_def)
    ultimately show ?thesis using "1.prems" False by auto
  next
    case True
    define m where "m = min n (readSize b)"
    define b1 where "b1 = b\<lparr>rpos := (rpos b)\<lparr>pos_off := pos_off (rpos b) + m\<rparr>\<rparr>"
    have b1: "buf_wf b1" "buf_cells b1 = drop m (buf_cells b)" "readSize b1 = readSize b - m"
      "wpos b1 = wpos b" "pos_idx (rpos b1) = pos_idx (rpos b)" "sizes b1 = sizes b"
      using read_move [OF "1.prems"(1), of m] by (auto simp: m_def b1_def)
    have i: "pos_idx (rpos b1) < pos_idx (wpos b1)" using True b1 by simp
    show ?thesis
    proof (cases "readSize b1 = 0")
      case z: True
      define b2 where "b2 = b1\<lparr>rpos := \<lparr>pos_idx = pos_idx (rpos b1) + 1, pos_off = 0\<rparr>\<rparr>"
      have b2: "buf_wf b2" "buf_cells b2 = buf_cells b1"
        using read_next_chunk [OF b1(1) z i] by (auto simp: b2_def)
      have "consume_loop (n - m) (k + 1) b2 = (n', k', b')"
        using "1.prems"(2) consume_loop_step [OF True m_def b1_def, of k] z by (simp add: b2_def)
      then have IH: "buf_wf b' \<and> n' \<le> n - m \<and> buf_cells b' = drop (n - m - n') (buf_cells b2) \<and>
          k + 1 \<le> k' \<and> pos_idx (rpos b') = pos_idx (rpos b2) + (k' - (k + 1)) \<and>
          wpos b' = wpos b2 \<and> sizes b' = sizes b2 \<and>
          (n' > 0 \<longrightarrow> pos_idx (rpos b') = pos_idx (wpos b')) \<and> (buf_flow b2 \<longrightarrow> buf_flow b')"
        by (rule "1.IH"(1) [OF True m_def b1_def z, folded b2_def, OF b2(1)])
      have "m \<le> n" by (simp add: m_def)
      moreover have "buf_flow b2" if "buf_flow b"
        using that b1 by (auto simp: buf_flow_def b2_def)
      ultimately show ?thesis
        using IH b1 b2 by (auto simp: b2_def add.commute)
    next
      case nz: False
      have "consume_loop (n - m) k b1 = (n', k', b')"
        using "1.prems"(2) consume_loop_step [OF True m_def b1_def, of k] nz by simp
      then have IH: "buf_wf b' \<and> n' \<le> n - m \<and> buf_cells b' = drop (n - m - n') (buf_cells b1) \<and>
          k \<le> k' \<and> pos_idx (rpos b') = pos_idx (rpos b1) + (k' - k) \<and>
          wpos b' = wpos b1 \<and> sizes b' = sizes b1 \<and>
          (n' > 0 \<longrightarrow> pos_idx (rpos b') = pos_idx (wpos b')) \<and> (buf_flow b1 \<longrightarrow> buf_flow b')"
        by (rule "1.IH"(2) [OF True m_def b1_def nz, OF b1(1)])
      have "m \<le> n" by (simp add: m_def)
      moreover have "buf_flow b1" if "buf_flow b"
        using that nz readSize_eq [OF b1(1)] b1 by (auto simp: buf_flow_def)
      ultimately show ?thesis
        using IH b1 by (auto simp: add.commute)
    qed
  qed
qed

lemma consume_loop_chunks: "consume_loop n k b = (n', k', b') \<Longrightarrow> chunks b' = chunks b"
proof (induction n k b arbitrary: n' k' b' rule: consume_loop.induct)
  case (1 n k b)
  show ?case
  proof (cases "n > 0 \<and> pos_idx (rpos b) < pos_idx (wpos b)")
    case False
    then show ?thesis using "1.prems" by (auto simp: consume_loop_stop)
  next
    case True
    define m where "m = min n (readSize b)"
    define b1 where "b1 = b\<lparr>rpos := (rpos b)\<lparr>pos_off := pos_off (rpos b) + m\<rparr>\<rparr>"
    have c: "chunks b1 = chunks b" by (simp add: b1_def)
    show ?thesis
    proof (cases "readSize b1 = 0")
      case z: True
      define b2 where "b2 = b1\<lparr>rpos := \<lparr>pos_idx = pos_idx (rpos b1) + 1, pos_off = 0\<rparr>\<rparr>"
      have "consume_loop (n - m) (k + 1) b2 = (n', k', b')"
        using "1.prems" consume_loop_step [OF True m_def b1_def, of k] z by (simp add: b2_def)
      then have "chunks b' = chunks b2" by (rule "1.IH"(1) [OF True m_def b1_def z, folded b2_def])
      then show ?thesis using c by (simp add: b2_def)
    next
      case nz: False
      have "consume_loop (n - m) k b1 = (n', k', b')"
        using "1.prems" consume_loop_step [OF True m_def b1_def, of k] nz by simp
      then have "chunks b' = chunks b1" by (rule "1.IH"(2) [OF True m_def b1_def nz])
      then show ?thesis using c by simp
    qed
  qed
qed

lemma dropChunks_wf:
  assumes wf: "buf_wf b" and n: "n \<le> pos_idx (rpos b)"
  shows "buf_wf (dropChunks n b)" and "buf_cells (dropChunks n b) = buf_cells b"
    and "pos_idx (rpos (dropChunks n b)) = pos_idx (rpos b) - n"
    and "buf_flow b \<Longrightarrow> buf_flow (dropChunks n b)"
    and "pos_off (wpos (dropChunks n b)) = pos_off (wpos b)"
proof -
  have i: "pos_idx (rpos b) < length (chunks b)" using wf by (simp add: buf_wf_def)
  have f: "filled (dropChunks n b) = drop n (filled b)"
    by (simp add: dropChunks_def filled_def drop_zip drop_map)
  have le: "n \<le> pos_idx (wpos b)" "n < length (chunks b)"
    using n i wf by (auto simp: buf_wf_def)
  show "buf_wf (dropChunks n b)"
    using wf n i f
    by (auto simp: buf_wf_def dropChunks_def dest: in_set_dropD)
  show "pos_idx (rpos (dropChunks n b)) = pos_idx (rpos b) - n"
    "pos_off (wpos (dropChunks n b)) = pos_off (wpos b)"
    using n by (auto simp: dropChunks_def)
  then show "buf_cells (dropChunks n b) = buf_cells b"
    using f n by (simp add: buf_cells_def dropChunks_def)
  show "buf_flow (dropChunks n b)" if "buf_flow b"
  proof (cases "n = 0")
    case True
    then show ?thesis using that by (simp add: dropChunks_def)
  next
    case False
    have len: "n < length (sizes b)" using wf n i by (auto simp: buf_wf_def)
    have "0 < sizes b ! (n + i)" if "i < pos_idx (wpos b) - n" for i
      using \<open>buf_flow b\<close> that by (auto simp: buf_flow_def)
    then show ?thesis
      using \<open>buf_flow b\<close> n le len False
      by (auto simp: buf_flow_def dropChunks_def)
  qed
qed

lemma consume_wf:
  assumes wf: "buf_wf b"
  shows "buf_wf (consume n b) \<and> buf_cells (consume n b) = drop n (buf_cells b) \<and>
    pos_idx (rpos (consume n b)) = pos_idx (rpos b) \<and>
    pos_off (wpos (consume n b)) = pos_off (wpos b) \<and>
    (buf_flow b \<longrightarrow> buf_flow (consume n b))"
proof -
  obtain n' k' b1 where l: "consume_loop n 0 b = (n', k', b1)" by (metis prod_cases3)
  define b2 where "b2 = (if n' > 0 then b1\<lparr>rpos := (rpos b1)\<lparr>pos_off :=
      pos_off (rpos b1) + min n' (readSize b1)\<rparr>\<rparr> else b1)"
  note loop = consume_loop_wf [OF wf l]
  have eq: "consume n b = dropChunks k' b2" using l by (simp add: consume_def b2_def)
  have idx: "pos_idx (rpos b2) = pos_idx (rpos b) + k'" "wpos b2 = wpos b"
    using loop by (auto simp: b2_def)
  have "buf_wf b2 \<and> buf_cells b2 = drop n (buf_cells b) \<and> (buf_flow b \<longrightarrow> buf_flow b2)"
  proof (cases "n' > 0")
    case False
    then show ?thesis using loop by (simp add: b2_def)
  next
    case True
    have last: "pos_idx (rpos b1) = length (chunks b1) - 1" "buf_wf b1"
      using loop True by (auto simp: buf_wf_def)
    have len: "length (buf_cells b1) = readSize b1"
      using buf_cells_split [OF last(2)] last by (simp add: buf_wf_def)
    have "drop (min n' (readSize b1)) (buf_cells b1) = drop n' (buf_cells b1)"
      using len by (simp add: min_def)
    then show ?thesis
      using read_move [OF last(2), of "min n' (readSize b1)"] True loop
      by (auto simp: b2_def buf_flow_def)
  qed
  then show ?thesis
    using eq idx dropChunks_wf [of b2 k'] by auto
qed

lemma consume_bytes:
  "buf_wf b \<Longrightarrow> buf_bytes (consume n b) = drop n (buf_bytes b)"
  by (simp add: consume_wf buf_bytes_def drop_map)

lemma readSize_zero_iff:
  assumes wf: "buf_wf b" and flow: "buf_flow b"
  shows "readSize b = 0 \<longleftrightarrow> buf_bytes b = []"
proof -
  have i: "pos_idx (rpos b) \<le> pos_idx (wpos b)" using wf by (auto simp: buf_wf_def)
  have "readSize b = 0 \<Longrightarrow> pos_idx (rpos b) = length (chunks b) - 1"
    using flow readSize_eq [OF wf] wf i by (auto simp: buf_flow_def buf_wf_def)
  then show ?thesis
    using buf_cells_split [OF wf] wf by (auto simp: buf_bytes_def buf_wf_def)
qed

lemma read_area_prefix:
  assumes "buf_wf b"
  shows "read_area b = map Some (take (readSize b) (buf_bytes b))"
  using buf_cells_split [OF assms] buf_cells_bytes [OF assms]
  by (metis append_eq_conv_conj take_map)

section \<open>Reserving and advancing\<close>

lemma reserve_wf:
  assumes wf: "buf_wf b" and n: "n \<le> BlockSize"
  shows "fst (reserve n b) \<and> buf_wf (snd (reserve n b)) \<and>
    buf_cells (snd (reserve n b)) = buf_cells b \<and> n \<le> writeSize (snd (reserve n b)) \<and>
    pos_idx (rpos (snd (reserve n b))) = pos_idx (rpos b) \<and>
    (buf_flow b \<longrightarrow> buf_flow (snd (reserve n b)))"
proof (cases "size_sub BlockSize (pos_off (wpos b)) \<ge> n")
  case True
  then show ?thesis using assms by (simp add: reserve_def writeSize_def)
next
  case False
  obtain cs c ss k where v: "chunks b = cs @ [c]" "sizes b = ss @ [k]" "length ss = length cs"
    "wpos b = \<lparr>pos_idx = length cs, pos_off = k\<rparr>" "length c = BlockSize" "k \<le> BlockSize"
    "filled b = map2 take ss cs @ [take k c]"
    using wf by (rule buf_wf_last)
  have k: "0 < k" using False v n by simp
  define b1 where "b1 = add_write_chunk b"
  note a = add_write_chunk_wf [OF wf, folded b1_def]
  have ws: "writeSize b1 = BlockSize" by (simp add: b1_def)
  show ?thesis
  proof (cases "rpos b = wpos b")
    case ne: False
    then show ?thesis
      using False n a ws add_write_chunk_flow [OF wf _ _ ne] k v(4)
      by (auto simp: reserve_def Let_def b1_def)
  next
    case eq: True
    define b2 where "b2 = b1\<lparr>rpos := wpos b1\<rparr>"
    have w1: "wpos b1 = \<lparr>pos_idx = Suc (length cs), pos_off = 0\<rparr>" "sizes b1 = ss @ [k, 0]"
      "length (chunks b1) = length cs + 2"
      using v by (simp_all add: b1_def add_write_chunk_eq)
    have b2: "buf_wf b2" using a(1) w1 by (auto simp: buf_wf_def b2_def filled_def)
    have cells: "buf_cells b2 = buf_cells b"
      using a(2) v eq wf add_write_chunk_wf(1) [OF wf]
      by (simp add: buf_cells_def b2_def b1_def add_write_chunk_eq filled_def)
    have flow: "buf_flow b2" if "buf_flow b"
      using that w1 v k by (auto simp: buf_flow_def b2_def nth_append less_Suc_eq)
    have res: "reserve n b = (True, dropChunks 1 b2)"
      using False n eq by (simp add: reserve_def Let_def b1_def b2_def)
    have "writeSize (dropChunks 1 b2) = BlockSize"
      using ws by (simp add: writeSize_def dropChunks_def b2_def)
    then show ?thesis
      using res dropChunks_wf [OF b2, of 1] cells flow n w1 eq v
      by (auto simp: b2_def)
  qed
qed

lemma reserve_too_big: "BlockSize < n \<Longrightarrow> reserve n b = (False, b)"
  by (simp add: reserve_def)

lemma advance_stored:
  assumes wf: "buf_wf b" and room: "length xs \<le> writeSize b" and ne: "xs \<noteq> []"
  shows "fst (advance (length xs) (store (map Some xs) b)) \<and>
    buf_wf (snd (advance (length xs) (store (map Some xs) b))) \<and>
    buf_bytes (snd (advance (length xs) (store (map Some xs) b))) = buf_bytes b @ xs"
proof -
  have "writeSize (store (map Some xs) b) = writeSize b" by (simp add: writeSize_def store_def)
  then have eq: "advance (length xs) (store (map Some xs) b) =
      (True, move_wpos (length (map Some xs)) (store (map Some xs) b))"
    using room ne by (simp add: advance_def)
  have "buf_wf (move_wpos (length (map Some xs)) (store (map Some xs) b)) \<and>
      buf_cells (move_wpos (length (map Some xs)) (store (map Some xs) b)) = buf_cells b @ map Some xs"
    using store_move [OF wf, of "map Some xs"] room by auto
  then show ?thesis using eq by (auto intro: buf_bytesI)
qed

lemma advance_fails: "n = 0 \<or> writeSize b < n \<Longrightarrow> advance n b = (False, b)"
  by (auto simp: advance_def)

lemma sum_list_filled:
  assumes "buf_wf b"
  shows "length (concat (drop j (filled b))) = sum_list (drop j (sizes b))"
proof -
  have "map length (filled b) = sizes b"
    using assms length_filled_nth [OF assms]
    by (intro nth_equalityI) (auto simp: buf_wf_def)
  then show ?thesis by (simp add: length_concat flip: drop_map)
qed

lemma byteCount_at_front:
  assumes "buf_wf b" "at_front b"
  shows "byteCount b = length (buf_bytes b)"
  using assms buf_cells_split [OF assms(1)] sum_list_filled [OF assms(1), of 1]
  by (simp add: byteCount_def at_front_def buf_bytes_def)

section \<open>A new buffer\<close>

lemma Buffer_new_eq:
  "Buffer_new = \<lparr>chunks = [replicate BlockSize None], sizes = [0],
     wpos = \<lparr>pos_idx = 0, pos_off = 0\<rparr>, rpos = \<lparr>pos_idx = 0, pos_off = 0\<rparr>\<rparr>"
  by (simp add: Buffer_new_def addChunk_def Let_def)

lemma Buffer_new_wf:
  "buf_wf Buffer_new" "buf_flow Buffer_new" "at_front Buffer_new" "buf_bytes Buffer_new = []"
  "writeSize Buffer_new = BlockSize" "pos_off (wpos Buffer_new) = 0"
  by (simp_all add: Buffer_new_eq buf_wf_def buf_flow_def at_front_def buf_bytes_def buf_cells_def
      filled_def writeSize_def)

section \<open>The interface of a byte stream\<close>

text \<open>
  What the producers and consumers of the program use of a buffer. A stream with these laws
  behaves as one byte string, however its storage is split up.
\<close>

locale byte_stream =
  fixes put :: "'a list \<Rightarrow> 's \<Rightarrow> 's"
    and skip :: "nat \<Rightarrow> 's \<Rightarrow> 's"
    and content :: "'s \<Rightarrow> 'a list"
    and invar :: "'s \<Rightarrow> bool"
  assumes put_invar: "invar s \<Longrightarrow> invar (put d s)"
    and put_content: "invar s \<Longrightarrow> content (put d s) = content s @ d"
    and skip_invar: "invar s \<Longrightarrow> invar (skip n s)"
    and skip_content: "invar s \<Longrightarrow> content (skip n s) = drop n (content s)"
begin

lemma puts: "invar s \<Longrightarrow> invar (fold put ds s) \<and> content (fold put ds s) = content s @ concat ds"
  by (induction ds arbitrary: s) (auto simp: put_invar put_content)

lemma skip_put:
  "invar s \<Longrightarrow> content (skip (length (content s)) (put d s)) = d"
  by (simp add: put_invar put_content skip_content)

lemma put_skip_swap:
  "invar s \<Longrightarrow> n \<le> length (content s) \<Longrightarrow> content (skip n (put d s)) = content (put d (skip n s))"
  by (simp add: put_invar skip_invar put_content skip_content)

end

definition buf_ok :: "buffer \<Rightarrow> bool" where
  "buf_ok b \<longleftrightarrow> buf_wf b \<and> buf_flow b \<and> at_front b \<and> pos_off (wpos b) < BlockSize"

lemma Buffer_new_ok: "buf_ok Buffer_new"
  by (simp add: buf_ok_def Buffer_new_wf)

lemma Buffer_write_ok: "buf_ok b \<Longrightarrow> buf_ok (Buffer_write d b)"
  using Buffer_write_wf [of b d] Buffer_write_flow [of b d]
  by (simp add: buf_ok_def at_front_def)

lemma consume_ok: "buf_ok b \<Longrightarrow> buf_ok (consume n b)"
  using consume_wf [of b n] by (simp add: buf_ok_def at_front_def)

interpretation buf: byte_stream Buffer_write consume buf_bytes buf_ok
  by unfold_locales
    (simp_all add: Buffer_write_ok consume_ok Buffer_write_bytes consume_bytes, simp_all add: buf_ok_def
      Buffer_write_bytes consume_bytes)

lemma buf_ok_readout:
  assumes "buf_ok b"
  shows "byteCount b = length (buf_bytes b)" and "readSize b = 0 \<longleftrightarrow> buf_bytes b = []"
    and "read_area b = map Some (take (readSize b) (buf_bytes b))"
    and "readSize b \<le> length (buf_bytes b)"
proof -
  have b: "buf_wf b" "buf_flow b" "at_front b" using assms by (auto simp: buf_ok_def)
  show "byteCount b = length (buf_bytes b)" using b by (simp add: byteCount_at_front)
  show "readSize b = 0 \<longleftrightarrow> buf_bytes b = []" using b by (simp add: readSize_zero_iff)
  show "read_area b = map Some (take (readSize b) (buf_bytes b))"
    using b by (simp add: read_area_prefix)
  show "readSize b \<le> length (buf_bytes b)"
    using buf_cells_split [OF b(1)] by (simp add: buf_bytes_def)
qed

section \<open>Properties\<close>

datatype stream_call = WriteBytes "char list" | ConsumeBytes nat

fun stream_step :: "stream_call \<Rightarrow> buffer \<Rightarrow> buffer" where
  "stream_step (WriteBytes d) b = Buffer_write d b"
| "stream_step (ConsumeBytes n) b = consume n b"

fun stream_spec :: "stream_call \<Rightarrow> char list \<Rightarrow> char list" where
  "stream_spec (WriteBytes d) q = q @ d"
| "stream_spec (ConsumeBytes n) q = drop n q"

lemma stream_run:
  "buf_ok b \<Longrightarrow> buf_ok (fold stream_step cs b) \<and>
     buf_bytes (fold stream_step cs b) = fold stream_spec cs (buf_bytes b)"
proof (induction cs arbitrary: b)
  case (Cons c cs)
  have "buf_ok (stream_step c b) \<and> buf_bytes (stream_step c b) = stream_spec c (buf_bytes b)"
    using Cons.prems buf.put_invar buf.put_content buf.skip_invar buf.skip_content
    by (cases c) auto
  then show ?case using Cons.IH by simp
qed simp

text \<open>
  C6. Any sequence of \<open>write\<close> and \<open>consume\<close> calls on a new buffer, of any sizes, leaves the
  buffer holding exactly the byte string that appending and dropping would leave, whatever
  the chunk boundaries. \<open>byteCount\<close> is its length, the area at \<open>readPtr\<close> is a prefix of it,
  and \<open>readSize\<close> is zero only when the string is empty, so a consumer never stalls.
\<close>

theorem Buffer_is_byte_queue:
  "let b = fold stream_step cs Buffer_new; q = fold stream_spec cs []
   in buf_wf b \<and> buf_bytes b = q \<and> byteCount b = length q \<and>
      read_area b = map Some (take (readSize b) q) \<and> (readSize b = 0 \<longleftrightarrow> q = [])"
  using stream_run [OF Buffer_new_ok, of cs] buf_ok_readout [of "fold stream_step cs Buffer_new"]
  by (simp add: Let_def Buffer_new_wf buf_ok_def)

text \<open>
  \<open>reserve\<close> fails exactly for requests larger than a chunk. Otherwise it changes no
  unread byte and afterwards the requested number of bytes fits at \<open>writePtr\<close>; bytes stored
  there become part of the stream with \<open>advance\<close>.
\<close>

theorem reserve_store_advance:
  assumes "buf_wf b" "length xs \<le> n" "xs \<noteq> []"
  shows "(fst (reserve n b) \<longleftrightarrow> n \<le> BlockSize) \<and>
    (let b1 = snd (reserve n b); b2 = advance (length xs) (store (map Some xs) b1)
     in if n \<le> BlockSize
        then buf_bytes b1 = buf_bytes b \<and> n \<le> writeSize b1 \<and>
             fst b2 \<and> buf_wf (snd b2) \<and> buf_bytes (snd b2) = buf_bytes b @ xs
        else b1 = b)"
proof (cases "n \<le> BlockSize")
  case True
  note r = reserve_wf [OF assms(1) True]
  have "length xs \<le> writeSize (snd (reserve n b))" using r assms(2) by simp
  then show ?thesis
    using True r advance_stored [of "snd (reserve n b)" xs] assms(3)
    by (simp add: Let_def buf_bytes_def)
next
  case False
  then show ?thesis by (simp add: reserve_too_big Let_def)
qed

theorem reserve_store_advance_witness:
  "fst (reserve 4 Buffer_new) \<and>
   buf_bytes (snd (advance 2 (store (map Some ''hi'') (snd (reserve 4 Buffer_new))))) = ''hi''"
  using reserve_store_advance [OF Buffer_new_wf(1), of "''hi''" 4]
  by (simp add: Let_def Buffer_new_wf BlockSize_def numeral_2_eq_2)

end
