(* ===== verification/Buffer_Transfer.thy ===== *)
theory Buffer_Transfer
  imports Buffer_Stream
begin

text \<open>
  \<open>Buffer::appendFrom\<close> and \<open>Buffer::copyFrom\<close> (\<^verbatim>\<open>src/buffer.cpp\<close>): moving and copying
  the chunks of one buffer behind those of another.
\<close>

section \<open>Copying\<close>

lemma copy_chunks_wf:
  "buf_wf b \<Longrightarrow> length lens = length cs \<Longrightarrow> \<forall>k \<in> set lens. k \<le> BlockSize \<Longrightarrow>
    \<forall>c \<in> set cs. length c = BlockSize \<Longrightarrow> None \<notin> set (concat (map2 take lens cs)) \<Longrightarrow>
    buf_wf (copy_chunks first lens cs b) \<and>
    buf_cells (copy_chunks first lens cs b) = buf_cells b @ concat (map2 take lens cs) \<and>
    rpos (copy_chunks first lens cs b) = rpos b"
proof (induction first lens cs b rule: copy_chunks.induct)
  case (1 first len lens c cs b)
  define b1 where "b1 = (if \<not> first \<or> len > writeSize b then add_write_chunk b else b)"
  have b1: "buf_wf b1" "buf_cells b1 = buf_cells b" "rpos b1 = rpos b" "len \<le> writeSize b1"
    using add_write_chunk_wf [OF "1.prems"(1)] "1.prems"(1,3) by (auto simp: b1_def)
  define b2 where "b2 = move_wpos len (store (take len c) b1)"
  have xs: "length (take len c) = len" "None \<notin> set (take len c)"
    using "1.prems"(3-5) by auto
  have b2: "buf_wf b2" "buf_cells b2 = buf_cells b @ take len c" "rpos b2 = rpos b"
    using store_move [OF b1(1), of "take len c"] xs b1 by (auto simp: b2_def)
  have eq: "copy_chunks first (len # lens) (c # cs) b = copy_chunks False lens cs b2"
    by (simp add: Let_def b1_def b2_def)
  show ?case
    using "1.IH" [OF b1_def] b2 "1.prems" eq by (auto simp: b2_def)
qed auto

lemma not_consumed_cells:
  "\<not> isConsumed b \<Longrightarrow> buf_cells b = concat (filled b)"
  by (simp add: isConsumed_def buf_cells_def)

lemma copyFrom_wf:
  assumes "buf_wf b" "buf_wf src" "\<not> isConsumed src"
  obtains b' where "copyFrom b src = Inr b'" "buf_wf b'"
    "readSize src \<noteq> 0 \<Longrightarrow> buf_bytes b' = buf_bytes b @ buf_bytes src"
    "readSize src = 0 \<Longrightarrow> b' = b"
proof (cases "readSize src = 0")
  case True
  then show ?thesis using assms that [of b] by (simp add: copyFrom_def)
next
  case False
  define b1 where "b1 = copy_chunks True (sizes src) (chunks src) b"
  have b1: "buf_wf b1" "buf_cells b1 = buf_cells b @ concat (filled src)"
    using copy_chunks_wf [OF assms(1), of "sizes src" "chunks src" True] assms(2)
    by (auto simp: b1_def buf_wf_def filled_def)
  define b' where "b' = (if pos_off (wpos b1) = BlockSize then add_write_chunk b1 else b1)"
  have "copyFrom b src = Inr b'"
    using assms(3) False by (simp add: copyFrom_def Let_def b1_def b'_def)
  moreover have "buf_wf b'" "buf_cells b' = buf_cells b @ buf_cells src"
    using b1 add_write_chunk_wf [OF b1(1)] assms(3) by (simp_all add: b'_def not_consumed_cells)
  ultimately show ?thesis
    using that [of b'] False by (simp add: buf_bytes_def)
qed

section \<open>Appending\<close>

text \<open>
  Removing an empty last chunk takes nothing away from what is filled.
\<close>

lemma maybeRemoveLastChunk_split:
  assumes "buf_wf b" "maybeRemoveLastChunk b = (lc, b1)"
  shows "chunks b = chunks b1 @ (case lc of None \<Rightarrow> [] | Some c \<Rightarrow> [c])"
    and "sizes b = sizes b1 @ (case lc of None \<Rightarrow> [] | Some c \<Rightarrow> [0])"
    and "length (sizes b1) = length (chunks b1)"
    and "rpos b1 = rpos b" and "wpos b1 = wpos b"
    and "lc = None \<longleftrightarrow> last (sizes b) \<noteq> 0"
proof -
  obtain cs c ss k where v: "chunks b = cs @ [c]" "sizes b = ss @ [k]" "length ss = length cs"
    "wpos b = \<lparr>pos_idx = length cs, pos_off = k\<rparr>"
    using assms(1) by (rule buf_wf_last)
  show "chunks b = chunks b1 @ (case lc of None \<Rightarrow> [] | Some c \<Rightarrow> [c])"
    "sizes b = sizes b1 @ (case lc of None \<Rightarrow> [] | Some c \<Rightarrow> [0])"
    "length (sizes b1) = length (chunks b1)" "rpos b1 = rpos b" "wpos b1 = wpos b"
    "lc = None \<longleftrightarrow> last (sizes b) \<noteq> 0"
    using assms(2) v by (auto simp: maybeRemoveLastChunk_def nth_append split: if_splits)
qed

lemma filled_split:
  assumes "chunks b = cs @ ds" "sizes b = ss @ ts" "length ss = length cs"
  shows "filled b = map2 take ss cs @ map2 take ts ds"
  using assms by (simp add: filled_def)

lemma append_chunks_wf:
  assumes wf: "buf_wf b" and src: "buf_wf src" and nc: "\<not> isConsumed src"
    and rs: "readSize src \<noteq> 0" and r1: "maybeRemoveLastChunk b = (lc, b1)"
    and r2: "maybeRemoveLastChunk src = (oc, src1)"
  shows "buf_wf (append_chunks b1 lc src1) \<and>
    buf_cells (append_chunks b1 lc src1) = buf_cells b @ buf_cells src"
proof -
  note s1 = maybeRemoveLastChunk_split [OF wf r1] and s2 = maybeRemoveLastChunk_split [OF src r2]
  have pos0: "sizes src ! 0 \<noteq> 0" "rpos src = \<lparr>pos_idx = 0, pos_off = 0\<rparr>"
    using rs nc readSize_eq [OF src] by (auto simp: isConsumed_def)
  have ne: "sizes src1 \<noteq> []" "sizes src1 ! 0 = sizes src ! 0"
    using pos0 s2(2,3) src by (auto simp: buf_wf_def nth_append split: option.splits)
  define E where "E = (if last (sizes b1 @ sizes src1) = BlockSize
    then [case lc of None \<Rightarrow> replicate BlockSize None | Some c \<Rightarrow> c] else [])"
  define b2 where "b2 = b1\<lparr>chunks := chunks b1 @ chunks src1 @ E,
    sizes := sizes b1 @ sizes src1 @ map (\<lambda>_. 0) E,
    wpos := \<lparr>pos_idx = length (chunks b1 @ chunks src1 @ E) - 1,
      pos_off = last (sizes b1 @ sizes src1 @ map (\<lambda>_. 0) E)\<rparr>\<rparr>"
  have app: "append_chunks b1 lc src1 =
      (if readSize b2 = 0 then b2\<lparr>rpos := \<lparr>pos_idx = pos_idx (rpos b2) + 1, pos_off = 0\<rparr>\<rparr> else b2)"
    by (auto simp: append_chunks_def Let_def b2_def E_def addChunk_def readSize_def
        split: option.splits)
  let ?f1 = "map2 take (sizes b1) (chunks b1)" and ?f2 = "map2 take (sizes src1) (chunks src1)"
  have fb: "concat (drop i (filled b)) = concat (drop i ?f1)" if "i \<le> length (chunks b1)" for i
    using filled_split [OF s1(1-3)] that s1(3) by (simp split: option.splits)
  have fs: "concat (filled src) = concat ?f2"
    using filled_split [OF s2(1-3)] by (simp split: option.splits)
  have f2: "filled b2 = ?f1 @ ?f2 @ map (\<lambda>_. []) E"
    using s1(3) s2(3) by (simp add: filled_def b2_def E_def)
  have i: "pos_idx (rpos b) \<le> length (chunks b1)"
    using wf s1(1,3) by (auto simp: buf_wf_def split: option.splits)
  have off: "pos_off (rpos b) \<le> length (concat (drop (pos_idx (rpos b)) ?f1))"
    using rpos_within [OF wf] fb [OF i] by simp
  have cells: "buf_cells b2 = buf_cells b @ buf_cells src"
    using i off fb [OF i] fs f2 s1(3,4) nc
    by (simp add: buf_cells_def b2_def not_consumed_cells isConsumed_def)
  have "pos_idx (rpos b) < length (chunks b1) \<Longrightarrow> pos_off (rpos b) \<le> sizes b1 ! pos_idx (rpos b)"
    using wf s1(2,3) by (auto simp: buf_wf_def nth_append)
  moreover have z: "pos_idx (rpos b) = length (chunks b1) \<Longrightarrow> pos_off (rpos b) = 0"
    using off s1(3) by simp
  moreover have pos: "0 < length (chunks src1)" using ne s2(3) by auto
  ultimately have wf2: "buf_wf b2"
    using wf src s1(1-4) s2(1-3) i f2 ne filled_split [OF s1(1-3)] filled_split [OF s2(1-3)]
    by (auto simp: buf_wf_def b2_def E_def nth_append le_less split: option.splits)
  have "pos_idx (rpos b2) < pos_idx (wpos b2)" if "readSize b2 = 0"
  proof -
    have "pos_idx (rpos b) \<noteq> length (chunks b1)"
    proof
      assume a: "pos_idx (rpos b) = length (chunks b1)"
      then have "readSize b2 = sizes src1 ! 0"
        using z s1(3,4) ne by (simp add: readSize_def b2_def nth_append)
      then show False using that ne pos0 by simp
    qed
    then have "pos_idx (rpos b) < length (chunks b1)" using i by linarith
    then show ?thesis
      using s1(4) pos unfolding b2_def by (simp del: length_greater_0_conv)
  qed
  then show ?thesis
    using app wf2 cells read_next_chunk [OF wf2] by auto
qed

lemma reset_source_None:
  "buf_wf (reset_source None src1) \<and> buf_bytes (reset_source None src1) = [] \<and>
   numChunks (reset_source None src1) = 1"
  by (simp add: reset_source_def Let_def add_write_chunk_eq buf_wf_def buf_bytes_def
      buf_cells_def filled_def numChunks_def)

lemma reset_source_Some:
  "pos_idx (wpos (reset_source (Some c) src1)) = pos_idx (wpos src1) \<and>
   numChunks (reset_source (Some c) src1) = 1"
  by (simp add: reset_source_def Let_def numChunks_def)

section \<open>Properties\<close>

text \<open>
  \<open>appendFrom\<close> on a source that was not consumed moves all of its unread bytes behind
  those of the destination, keeps the destination well formed, and leaves a source whose last
  chunk holds data empty and well formed with a single chunk.
\<close>

theorem appendFrom_moves:
  assumes "buf_wf b" "buf_wf src" "\<not> isConsumed src" "readSize src \<noteq> 0" "last (sizes src) \<noteq> 0"
  shows "\<exists>b' src'. appendFrom b src = Inr (b', src') \<and>
    buf_wf b' \<and> buf_bytes b' = buf_bytes b @ buf_bytes src \<and>
    buf_wf src' \<and> buf_bytes src' = [] \<and> numChunks src' = 1"
proof -
  obtain lc b1 oc src1 where r: "maybeRemoveLastChunk b = (lc, b1)"
    "maybeRemoveLastChunk src = (oc, src1)" by fastforce
  have "oc = None" using maybeRemoveLastChunk_split(6) [OF assms(2) r(2)] assms(5) by simp
  then show ?thesis
    using assms(3,4) r append_chunks_wf [OF assms(1-4) r] reset_source_None [of src1]
    by (simp add: appendFrom_def buf_bytes_def)
qed

theorem appendFrom_moves_witness:
  "\<exists>b' src'. appendFrom (Buffer_write ''ab'' Buffer_new) (Buffer_write ''cd'' Buffer_new) = Inr (b', src') \<and>
    buf_wf b' \<and> buf_bytes b' = ''abcd'' \<and> buf_wf src' \<and> buf_bytes src' = [] \<and> numChunks src' = 1"
proof -
  let ?b = "Buffer_write ''ab'' Buffer_new" and ?s = "Buffer_write ''cd'' Buffer_new"
  have w: "buf_wf ?b" "buf_wf ?s" "buf_bytes ?b = ''ab''" "buf_bytes ?s = ''cd''"
    using Buffer_write_bytes Buffer_new_wf by auto
  have f: "buf_flow ?s" and r: "rpos ?s = rpos Buffer_new"
    using Buffer_write_flow Buffer_write_wf Buffer_new_wf by auto
  have nc: "\<not> isConsumed ?s" using r by (simp add: isConsumed_def Buffer_new_eq)
  have rs: "readSize ?s \<noteq> 0" using readSize_zero_iff [OF w(2) f] w(4) by simp
  have "sizes ?s = [2]"
    by (simp add: Buffer_write.simps Buffer_new_eq writeSize_def store_def move_wpos_def
        BlockSize_def Let_def)
  then show ?thesis
    using appendFrom_moves [OF w(1,2) nc rs] w(3,4) by simp
qed

text \<open>
  When the source's last chunk is empty, as it is after a write that filled a chunk
  exactly, \<open>appendFrom\<close> keeps one chunk in the source but not its write pointer: the
  pointer still names the old last chunk, so it is out of range and the source is no longer
  well formed.
\<close>

theorem appendFrom_breaks_source:
  assumes "buf_wf b" "buf_wf src" "\<not> isConsumed src" "readSize src \<noteq> 0" "last (sizes src) = 0"
  shows "\<exists>b' src'. appendFrom b src = Inr (b', src') \<and>
    numChunks src' = 1 \<and> pos_idx (wpos src') \<ge> numChunks src' \<and> \<not> buf_wf src'"
proof -
  obtain lc b1 oc src1 where r: "maybeRemoveLastChunk b = (lc, b1)"
    "maybeRemoveLastChunk src = (oc, src1)" by fastforce
  note s = maybeRemoveLastChunk_split [OF assms(2) r(2)]
  obtain c where c: "oc = Some c" using s(6) assms(5) by auto
  have "sizes src ! 0 \<noteq> 0" using assms(3,4) readSize_eq [OF assms(2)] by (auto simp: isConsumed_def)
  then have "sizes src1 \<noteq> []" using s(2) c by auto
  then have "1 \<le> length (chunks src1)" using s(3) by (cases "sizes src1") auto
  then have "1 \<le> pos_idx (wpos src)" using assms(2) s(1) c by (auto simp: buf_wf_def)
  then have "pos_idx (wpos (reset_source oc src1)) \<ge> 1 \<and> numChunks (reset_source oc src1) = 1"
    using reset_source_Some [of c src1] s(5) c by simp
  moreover from this have "\<not> buf_wf (reset_source oc src1)"
    by (auto simp: buf_wf_def numChunks_def)
  ultimately show ?thesis
    using assms(3,4) r by (simp add: appendFrom_def)
qed

text \<open>A buffer after a write of exactly one block: a full chunk and an empty one.\<close>

lemma Buffer_write_block:
  assumes "length d = BlockSize"
  shows "sizes (Buffer_write d Buffer_new) = [BlockSize, 0]"
proof -
  define b1 where "b1 = move_wpos BlockSize (store (map Some (take BlockSize d)) Buffer_new)"
  have off: "pos_off (wpos b1) = BlockSize" "sizes b1 = [BlockSize]"
    by (simp_all add: b1_def move_wpos_def store_def Buffer_new_eq)
  have "Buffer_write d Buffer_new = Buffer_write (drop BlockSize d) (add_write_chunk b1)"
    by (rule Buffer_write_step [OF _ _ b1_def])
      (use assms off Buffer_new_wf BlockSize_pos in \<open>auto simp del: BlockSize_pos\<close>)
  then show ?thesis
    using assms off by (simp add: Buffer_write.simps add_write_chunk_eq)
qed

theorem appendFrom_breaks_source_witness:
  "\<exists>b' src'. appendFrom Buffer_new (Buffer_write (replicate BlockSize CHR ''x'') Buffer_new)
      = Inr (b', src') \<and>
    numChunks src' = 1 \<and> pos_idx (wpos src') \<ge> numChunks src' \<and> \<not> buf_wf src'"
proof (rule appendFrom_breaks_source)
  let ?s = "Buffer_write (replicate BlockSize CHR ''x'') Buffer_new"
  have sz: "sizes ?s = [BlockSize, 0]" by (rule Buffer_write_block) simp
  have r: "rpos ?s = rpos Buffer_new" using Buffer_write_wf Buffer_new_wf(1) by auto
  show "buf_wf Buffer_new" "buf_wf ?s" using Buffer_write_bytes Buffer_new_wf by auto
  show "\<not> isConsumed ?s" using r by (simp add: isConsumed_def Buffer_new_eq)
  show "last (sizes ?s) = 0" by (simp add: sz)
  show "readSize ?s \<noteq> 0" using sz r by (simp add: readSize_def Buffer_new_eq)
qed

text \<open>
  \<open>copyFrom\<close> appends the unread bytes of a source that was not consumed and holds data,
  whatever chunk boundaries the two buffers have; a consumed source ends the program with a
  fatal log message.
\<close>

theorem copyFrom_copies:
  assumes "buf_wf b" "buf_wf src"
  shows "(isConsumed src \<longrightarrow> copyFrom b src = Inl FatalLog) \<and>
    (\<not> isConsumed src \<and> readSize src \<noteq> 0 \<longrightarrow>
      (\<exists>b'. copyFrom b src = Inr b' \<and> buf_wf b' \<and> buf_bytes b' = buf_bytes b @ buf_bytes src))"
proof -
  have "\<exists>b'. copyFrom b src = Inr b' \<and> buf_wf b' \<and> buf_bytes b' = buf_bytes b @ buf_bytes src"
    if "\<not> isConsumed src" "readSize src \<noteq> 0"
    using that by (metis copyFrom_wf [OF assms])
  then show ?thesis by (auto simp: copyFrom_def)
qed

theorem copyFrom_copies_witness:
  "\<exists>b'. copyFrom Buffer_new (Buffer_write ''xyz'' Buffer_new) = Inr b' \<and> buf_bytes b' = ''xyz''"
proof -
  let ?s = "Buffer_write ''xyz'' Buffer_new"
  have w: "buf_wf ?s" "buf_bytes ?s = ''xyz''" "buf_flow ?s" "rpos ?s = rpos Buffer_new"
    using Buffer_write_bytes Buffer_write_flow Buffer_write_wf Buffer_new_wf by auto
  have "\<not> isConsumed ?s" using w(4) by (simp add: isConsumed_def Buffer_new_eq)
  moreover have "readSize ?s \<noteq> 0" using readSize_zero_iff w by simp
  ultimately show ?thesis
    using copyFrom_copies [OF Buffer_new_wf(1) w(1)] w(2) Buffer_new_wf(4) by auto
qed

text \<open>
  \<open>byteCount\<close> is the number of unread bytes plus the sizes of the chunks between the
  first chunk and the one being read: it is exact as long as the reader is on the first
  chunk, and too large afterwards.
\<close>

theorem byteCount_exact:
  assumes "buf_wf b"
  shows "byteCount b =
    length (buf_bytes b) + sum_list (take (pos_idx (rpos b)) (drop 1 (sizes b)))"
proof -
  let ?i = "pos_idx (rpos b)"
  have "length (buf_bytes b) = readSize b + sum_list (drop (Suc ?i) (sizes b))"
    using buf_cells_split [OF assms] sum_list_filled [OF assms, of "Suc ?i"]
    by (simp add: buf_bytes_def)
  moreover have "sum_list (drop 1 (sizes b)) =
      sum_list (take ?i (drop 1 (sizes b))) + sum_list (drop (Suc ?i) (sizes b))"
    by (metis append_take_drop_id drop_drop plus_1_eq_Suc add.commute sum_list.append)
  ultimately show ?thesis by (simp add: byteCount_def)
qed

theorem byteCount_exact_witness:
  "byteCount (Buffer_write ''abc'' Buffer_new) = 3"
proof -
  let ?b = "Buffer_write ''abc'' Buffer_new"
  have "buf_wf ?b" "buf_bytes ?b = ''abc''" "rpos ?b = rpos Buffer_new"
    using Buffer_write_bytes Buffer_write_wf Buffer_new_wf by auto
  then show ?thesis using byteCount_exact [of ?b] by (simp add: Buffer_new_eq)
qed

text \<open>
  Appending to a buffer whose single chunk was read to its end (and is not empty) makes
  the reader step to the next chunk without dropping the first; \<open>byteCount\<close> then counts the
  appended first chunk twice.
\<close>

theorem appendFrom_overcounts:
  assumes "buf_wf b" "buf_wf src" "\<not> isConsumed src" "readSize src \<noteq> 0"
    "numChunks b = 1" "readSize b = 0" "last (sizes b) \<noteq> 0"
    "numChunks src = 1" "last (sizes src) < BlockSize"
  shows "\<exists>b' src'. appendFrom b src = Inr (b', src') \<and> buf_bytes b' = buf_bytes src \<and>
    byteCount b' = 2 * length (buf_bytes src)"
proof -
  obtain lc b1 oc src1 where r: "maybeRemoveLastChunk b = (lc, b1)"
    "maybeRemoveLastChunk src = (oc, src1)" by fastforce
  have sb: "\<exists>c k. chunks b = [c] \<and> sizes b = [k] \<and> rpos b = \<lparr>pos_idx = 0, pos_off = k\<rparr>"
    using assms(1,5,6) readSize_eq [OF assms(1)]
    by (auto simp: buf_wf_def numChunks_def length_Suc_conv)
  then obtain c k where b: "chunks b = [c]" "sizes b = [k]" "rpos b = \<lparr>pos_idx = 0, pos_off = k\<rparr>"
    by blast
  have ss: "\<exists>d m. chunks src = [d] \<and> sizes src = [m] \<and> rpos src = \<lparr>pos_idx = 0, pos_off = 0\<rparr> \<and> m \<noteq> 0"
    using assms(2,3,4,8) readSize_eq [OF assms(2)]
    by (auto simp: buf_wf_def numChunks_def length_Suc_conv isConsumed_def)
  then obtain d m where s: "chunks src = [d]" "sizes src = [m]" "m \<noteq> 0" by blast
  have lc: "lc = None" "b1 = b" "oc = None" "src1 = src"
    using r b s assms(1,2,7) by (auto simp: maybeRemoveLastChunk_def buf_wf_def)
  have app: "append_chunks b1 lc src1 = b\<lparr>chunks := [c, d], sizes := [k, m],
      rpos := \<lparr>pos_idx = 1, pos_off = 0\<rparr>, wpos := \<lparr>pos_idx = 1, pos_off = m\<rparr>\<rparr>"
    using lc b s assms(9) by (simp add: append_chunks_def Let_def readSize_def)
  have wf: "buf_wf (append_chunks b1 lc src1)" "buf_cells (append_chunks b1 lc src1) = buf_cells b @ buf_cells src"
    using append_chunks_wf [OF assms(1-4) r] by auto
  have "buf_cells b = []"
    using buf_cells_split [OF assms(1)] assms(6) b by (simp add: filled_def)
  then have bytes: "buf_bytes (append_chunks b1 lc src1) = buf_bytes src"
    using wf by (simp add: buf_bytes_def)
  have "length (buf_bytes src) = m"
    using byteCount_at_front [OF assms(2)] s ss
    by (simp add: byteCount_def readSize_def at_front_def)
  then have "byteCount (append_chunks b1 lc src1) = 2 * length (buf_bytes src)"
    using app by (simp add: byteCount_def readSize_def)
  then show ?thesis
    using assms(3,4) r bytes by (simp add: appendFrom_def)
qed

theorem appendFrom_overcounts_witness:
  "\<exists>b' src'. appendFrom (consume 1 (Buffer_write ''X'' Buffer_new)) (Buffer_write ''Y'' Buffer_new)
      = Inr (b', src') \<and> buf_bytes b' = ''Y'' \<and> byteCount b' = 2"
proof -
  let ?x = "Buffer_write ''X'' Buffer_new" and ?b = "consume 1 (Buffer_write ''X'' Buffer_new)"
  let ?s = "Buffer_write ''Y'' Buffer_new"
  have ok: "buf_ok ?b" "buf_ok ?s" "buf_bytes ?b = []" "buf_bytes ?s = ''Y''"
    using Buffer_new_ok Buffer_new_wf
    by (auto simp: Buffer_write_ok consume_ok buf.put_content buf.skip_content)
  have sz: "sizes ?x = [1]" "length (chunks ?x) = 1" "sizes ?s = [1]" "length (chunks ?s) = 1"
    "wpos ?x = \<lparr>pos_idx = 0, pos_off = 1\<rparr>" "rpos ?x = \<lparr>pos_idx = 0, pos_off = 0\<rparr>"
    by (simp_all add: Buffer_write.simps Buffer_new_eq writeSize_def store_def move_wpos_def
        BlockSize_def Let_def)
  have "?b = ?x\<lparr>rpos := \<lparr>pos_idx = 0, pos_off = 1\<rparr>\<rparr>"
    using sz by (simp add: consume_def consume_loop_stop dropChunks_def readSize_def)
  then have b: "sizes ?b = [1]" "numChunks ?b = 1" using sz by (simp_all add: numChunks_def)
  have "\<not> isConsumed ?s"
    using Buffer_write_wf [OF Buffer_new_wf(1)] by (simp add: isConsumed_def Buffer_new_eq)
  moreover have "readSize ?s \<noteq> 0" "readSize ?b = 0" using ok buf_ok_readout(2) by auto
  ultimately show ?thesis
    using appendFrom_overcounts [of ?b ?s] ok b sz by (simp add: buf_ok_def numChunks_def BlockSize_def)
qed

end
