(* ===== verification/List_Set.thy ===== *)
theory List_Set
  imports Prelude
begin

text \<open>
  \<^verbatim>\<open>src/list_set.hpp\<close>, \<^verbatim>\<open>src/list_set.cpp\<close>: the mutex-protected sorted linked list. Nodes
  live on an explicit heap; a pointer is an address or \<open>None\<close> for \<open>NULL\<close>. Dereferencing
  \<open>NULL\<close>, a deleted node or an unset variable, and a loop that does not end, are \<open>None\<close>, so a
  theorem that an operation returns \<open>Some\<close> shows that it ends and touches only live nodes.
  Every operation holds the mutex from its first to its last access (\<open>clear\<close> and the
  destructor apart), so the executions of several threads are the sequences of calls.
\<close>

section \<open>State and operations\<close>

type_synonym addr = nat

record ls_node =
  node_value :: int
  node_next :: "addr option"

type_synonym ls_heap = "addr \<rightharpoonup> ls_node"

text \<open>\<open>next_addr\<close> is the allocator: \<open>new\<close> returns an address that was never in use.\<close>

record list_set =
  Head :: "addr option"
  nodes :: ls_heap
  next_addr :: addr

definition deref :: "('a \<rightharpoonup> 'b) \<Rightarrow> 'a option \<Rightarrow> 'b option" where
  "deref h p = Option.bind p h"

definition set_next :: "addr option \<Rightarrow> addr option \<Rightarrow> ls_heap \<Rightarrow> ls_heap option" where
  "set_next p q h =
     do { a \<leftarrow> p; n \<leftarrow> h a; Some (h(a \<mapsto> n\<lparr>node_next := q\<rparr>)) }"

definition free_node :: "addr option \<Rightarrow> ls_heap \<Rightarrow> ls_heap option" where
  "free_node p h = do { a \<leftarrow> p; _ \<leftarrow> h a; Some (h(a := None)) }"

definition ListBasedSet_new :: list_set where
  "ListBasedSet_new = \<lparr>Head = None, nodes = Map.empty, next_addr = 0\<rparr>"

text \<open>
  The traversals: from \<open>cur\<close> on, as long as the value satisfies \<open>go\<close>; \<open>prev\<close> follows one
  node behind.
\<close>

partial_function (option) walk ::
  "(int \<Rightarrow> bool) \<Rightarrow> ls_heap \<Rightarrow> addr option \<Rightarrow> addr option \<Rightarrow> (addr option \<times> addr option) option" where
  "walk go h prev cur =
     (if cur = None then Some (prev, None)
      else do {
        a \<leftarrow> cur;
        n \<leftarrow> h a;
        if go (node_value n) then walk go h (Some a) (node_next n) else Some (prev, Some a) })"

declare walk.simps [simp del]

definition ListBasedSet_insert :: "int \<Rightarrow> list_set \<Rightarrow> (bool \<times> list_set) option" where
  "ListBasedSet_insert value ls =
     (let newNode = next_addr ls;
          h = (nodes ls)(newNode \<mapsto> \<lparr>node_value = value, node_next = None\<rparr>);
          ls1 = ls\<lparr>nodes := h, next_addr := Suc newNode\<rparr>
      in case Head ls of
           None \<Rightarrow> Some (True, ls1\<lparr>Head := Some newNode\<rparr>)
         | Some c \<Rightarrow>
             do {
               n \<leftarrow> h c;
               if node_value n > value
               then do {
                 h' \<leftarrow> set_next (Some newNode) (Some c) h;
                 Some (True, ls1\<lparr>Head := Some newNode, nodes := h'\<rparr>) }
               else do {
                 (prev, cur) \<leftarrow> walk (\<lambda>v. v < value) h None (Head ls);
                 (case cur of
                    None \<Rightarrow> do {
                      h' \<leftarrow> set_next prev (Some newNode) h;
                      Some (True, ls1\<lparr>nodes := h'\<rparr>) }
                  | Some d \<Rightarrow> do {
                      m \<leftarrow> h d;
                      if node_value m = value
                      then do {
                        h' \<leftarrow> free_node (Some newNode) h;
                        Some (False, ls1\<lparr>nodes := h'\<rparr>) }
                      else do {
                        h1 \<leftarrow> set_next prev (Some newNode) h;
                        h2 \<leftarrow> set_next (Some newNode) cur h1;
                        Some (True, ls1\<lparr>nodes := h2\<rparr>) } }) } })"

definition ListBasedSet_remove :: "int \<Rightarrow> list_set \<Rightarrow> (bool \<times> list_set) option" where
  "ListBasedSet_remove value ls =
     (if Head ls = None then Some (False, ls)
      else do {
        (prev, cur) \<leftarrow> walk (\<lambda>v. v \<noteq> value) (nodes ls) None (Head ls);
        if cur = Head ls
        then do {
          n \<leftarrow> deref (nodes ls) (Head ls);
          h \<leftarrow> free_node cur (nodes ls);
          Some (True, ls\<lparr>Head := node_next n, nodes := h\<rparr>) }
        else if cur = None then Some (False, ls)
        else do {
          n \<leftarrow> deref (nodes ls) cur;
          h1 \<leftarrow> set_next prev (node_next n) (nodes ls);
          h2 \<leftarrow> free_node cur h1;
          Some (True, ls\<lparr>nodes := h2\<rparr>) } })"

definition ListBasedSet_lookup :: "int \<Rightarrow> list_set \<Rightarrow> bool option" where
  "ListBasedSet_lookup value ls =
     (if Head ls = None then Some False
      else do {
        (_, cur) \<leftarrow> walk (\<lambda>v. v < value) (nodes ls) None (Head ls);
        if cur = None then Some False
        else do {
          n \<leftarrow> deref (nodes ls) cur;
          Some (\<not> node_value n > value) } })"

text \<open>The loop of the destructor and of \<open>clear\<close>.\<close>

partial_function (option) free_all :: "addr option \<Rightarrow> ls_heap \<Rightarrow> ls_heap option" where
  "free_all cur h =
     (if cur = None then Some h
      else do { a \<leftarrow> cur; n \<leftarrow> h a; free_all (node_next n) (h(a := None)) })"

declare free_all.simps [simp del]

definition ListBasedSet_clear :: "list_set \<Rightarrow> list_set option" where
  "ListBasedSet_clear ls =
     do { h \<leftarrow> free_all (Head ls) (nodes ls); Some (ls\<lparr>nodes := h, Head := None\<rparr>) }"

definition ListBasedSet_destroy :: "list_set \<Rightarrow> ls_heap option" where
  "ListBasedSet_destroy ls = free_all (Head ls) (nodes ls)"

partial_function (option) integrity_loop ::
  "ls_heap \<Rightarrow> addr option \<Rightarrow> addr option \<Rightarrow> bool option" where
  "integrity_loop h prev cur =
     (if cur = None then Some True
      else do {
        m \<leftarrow> deref h prev;
        n \<leftarrow> deref h cur;
        if node_value m < node_value n then integrity_loop h cur (node_next n)
        else Some False })"

declare integrity_loop.simps [simp del]

definition ListBasedSet_checkIntegrity :: "list_set \<Rightarrow> bool option" where
  "ListBasedSet_checkIntegrity ls =
     (if Head ls = None then Some True
      else do {
        n \<leftarrow> deref (nodes ls) (Head ls);
        if node_next n = None then Some True
        else integrity_loop (nodes ls) (Head ls) (node_next n) })"

section \<open>Lists on the heap\<close>

text \<open>The list from \<open>p\<close> up to \<open>q\<close>, as its addresses with their values.\<close>

fun lseg :: "ls_heap \<Rightarrow> addr option \<Rightarrow> (addr \<times> int) list \<Rightarrow> addr option \<Rightarrow> bool" where
  "lseg h p [] q \<longleftrightarrow> p = q"
| "lseg h p ((a, v) # r) q \<longleftrightarrow>
     p = Some a \<and> (case h a of None \<Rightarrow> False | Some n \<Rightarrow> node_value n = v \<and> lseg h (node_next n) r q)"

definition ls_rep :: "list_set \<Rightarrow> (addr \<times> int) list \<Rightarrow> bool" where
  "ls_rep ls ps \<longleftrightarrow>
     lseg (nodes ls) (Head ls) ps None \<and> distinct (map fst ps) \<and>
     sorted_wrt (<) (map snd ps) \<and> dom (nodes ls) = set (map fst ps) \<and>
     (\<forall>a \<in> set (map fst ps). a < next_addr ls)"

definition ls_inv :: "list_set \<Rightarrow> bool" where
  "ls_inv ls \<longleftrightarrow> (\<exists>ps. ls_rep ls ps)"

text \<open>The set it stands for: the values of all live nodes.\<close>

definition ls_elems :: "list_set \<Rightarrow> int set" where
  "ls_elems ls = node_value ` ran (nodes ls)"

lemma lseg_append: "lseg h p (xs @ ys) q \<longleftrightarrow> (\<exists>r. lseg h p xs r \<and> lseg h r ys q)"
  by (induction h p xs q rule: lseg.induct) (auto split: option.split)

lemma lseg_upd: "a \<notin> set (map fst ps) \<Longrightarrow> lseg (h(a := x)) p ps q = lseg h p ps q"
  by (induction h p ps q rule: lseg.induct) (auto split: option.split)

lemma lseg_value: "lseg h p ps q \<Longrightarrow> (a, v) \<in> set ps \<Longrightarrow> \<exists>n. h a = Some n \<and> node_value n = v"
  by (induction h p ps q rule: lseg.induct) (auto split: option.splits)

lemma ls_elems_rep: "ls_rep ls ps \<Longrightarrow> ls_elems ls = set (map snd ps)"
proof -
  assume r: "ls_rep ls ps"
  have "v \<in> ls_elems ls \<longleftrightarrow> v \<in> set (map snd ps)" for v
  proof
    assume "v \<in> ls_elems ls"
    then obtain a n where n: "nodes ls a = Some n" "node_value n = v"
      by (auto simp: ls_elems_def ran_def)
    then obtain w where "(a, w) \<in> set ps" using r by (fastforce simp: ls_rep_def)
    then show "v \<in> set (map snd ps)" using r n lseg_value [of "nodes ls" "Head ls" ps None a w]
      by (force simp: ls_rep_def)
  next
    assume "v \<in> set (map snd ps)"
    then obtain a where "(a, v) \<in> set ps" by auto
    then show "v \<in> ls_elems ls" using r lseg_value [of "nodes ls" "Head ls" ps None a v]
      by (force simp: ls_rep_def ls_elems_def ran_def)
  qed
  then show ?thesis by blast
qed

text \<open>A traversal stops at the first node that does not satisfy \<open>go\<close>, or at the end.\<close>

lemma walk_lseg:
  "lseg h p ps None \<Longrightarrow>
    walk go h prev p =
      Some (case takeWhile (\<lambda>(a, v). go v) ps of [] \<Rightarrow> prev | xs \<Rightarrow> Some (fst (last xs)),
            case dropWhile (\<lambda>(a, v). go v) ps of [] \<Rightarrow> None | (a, v) # _ \<Rightarrow> Some a)"
proof (induction ps arbitrary: p prev)
  case Nil
  then show ?case by (simp add: walk.simps)
next
  case (Cons q ps)
  obtain a v where q: "q = (a, v)" by force
  then obtain n where n: "p = Some a" "h a = Some n" "node_value n = v" "lseg h (node_next n) ps None"
    using Cons.prems by (auto split: option.splits)
  then show ?case
    using Cons.IH [OF n(4), of "Some a"] q
    by (subst walk.simps) (auto split: list.splits)
qed

lemma walk_lseg_end:
  "lseg h p ps None \<Longrightarrow> \<forall>(a, v) \<in> set ps. go v \<Longrightarrow> \<exists>prev'. walk go h prev p = Some (prev', None)"
proof -
  assume "lseg h p ps None" "\<forall>(a, v) \<in> set ps. go v"
  then have "dropWhile (\<lambda>(a, v). go v) ps = []" by simp
  from walk_lseg [OF \<open>lseg h p ps None\<close>, of go prev, unfolded this] show ?thesis by simp
qed

lemma walk_lseg_at:
  "lseg h p ps None \<Longrightarrow> dropWhile (\<lambda>(a, v). go v) ps = (a, v) # ys \<Longrightarrow>
    \<exists>prev'. walk go h prev p = Some (prev', Some a)"
  using walk_lseg [of h p ps go prev] by simp

lemma lseg_splice:
  assumes "lseg h p (xs @ (a, w) # ys) q" "a \<notin> set (map fst xs)" "h a = Some n"
    and "lseg (h(a \<mapsto> n\<lparr>node_next := r\<rparr>)) r zs q"
  shows "lseg (h(a \<mapsto> n\<lparr>node_next := r\<rparr>)) p (xs @ (a, w) # zs) q"
  using assms by (auto simp: lseg_append lseg_upd)

lemma lseg_head: "lseg h p ((a, v) # ps) q \<Longrightarrow>
    p = Some a \<and> (\<exists>n. h a = Some n \<and> node_value n = v \<and> lseg h (node_next n) ps q)"
  by (auto split: option.splits)

lemma ls_rep_head_None: "ls_rep ls ps \<Longrightarrow> Head ls = None \<longleftrightarrow> ps = []"
  by (cases ps) (auto simp: ls_rep_def dest: lseg_head)

text \<open>In a sorted list the values below \<open>v\<close> come first, and \<open>v\<close> can only be right behind.\<close>

lemma sorted_split:
  fixes v :: int
  assumes "sorted_wrt (<) (map snd ps)"
    and "xs = takeWhile (\<lambda>(a, w). w < v) ps" "ys = dropWhile (\<lambda>(a, w). w < v) ps"
  shows "ps = xs @ ys" and "\<forall>w \<in> set (map snd xs). w < v"
    and "\<forall>w \<in> set (map snd (tl ys)). v < w"
    and "v \<in> set (map snd ps) \<longleftrightarrow> ys \<noteq> [] \<and> snd (hd ys) = v"
    and "ys \<noteq> [] \<Longrightarrow> v \<le> snd (hd ys)"
    and "v \<notin> set (map snd ps) \<Longrightarrow> \<forall>w \<in> set (map snd ys). v < w"
proof -
  show ps: "ps = xs @ ys" using assms by simp
  show xs: "\<forall>w \<in> set (map snd xs). w < v" using assms(2) by (auto dest: set_takeWhileD)
  show hd: "v \<le> snd (hd ys)" if "ys \<noteq> []"
    using that hd_dropWhile [of "\<lambda>(a, w). w < v" ps] assms(3) by (auto simp: split_beta)
  have tl: "\<forall>w \<in> set (map snd (tl ys)). snd (hd ys) < w"
    using assms(1) unfolding ps by (cases ys) (auto simp: sorted_wrt_append)
  then show tl': "\<forall>w \<in> set (map snd (tl ys)). v < w"
    using hd by (cases ys) fastforce+
  show "\<forall>w \<in> set (map snd ys). v < w" if "v \<notin> set (map snd ps)"
    using that hd tl' unfolding ps by (cases ys) auto
  from tl' show "v \<in> set (map snd ps) \<longleftrightarrow> ys \<noteq> [] \<and> snd (hd ys) = v"
    using xs unfolding ps by (cases ys) force+
qed

section \<open>What the operations do to the list\<close>

lemma ListBasedSet_insert_inner:
  assumes "h = (nodes ls)(next_addr ls \<mapsto> \<lparr>node_value = v, node_next = None\<rparr>)"
    and "Head ls = Some c" "h c = Some k" "\<not> v < node_value k"
    and "walk (\<lambda>w. w < v) h None (Head ls) = Some (prev, cur)"
  shows "ListBasedSet_insert v ls =
    (let new = Some (next_addr ls); ls1 = ls\<lparr>nodes := h, next_addr := Suc (next_addr ls)\<rparr>
     in case cur of
          None \<Rightarrow> map_option (\<lambda>h'. (True, ls1\<lparr>nodes := h'\<rparr>)) (set_next prev new h)
        | Some d \<Rightarrow>
            do {
              m \<leftarrow> h d;
              if node_value m = v
              then map_option (\<lambda>h'. (False, ls1\<lparr>nodes := h'\<rparr>)) (free_node new h)
              else do {
                h1 \<leftarrow> set_next prev new h;
                h2 \<leftarrow> set_next new cur h1;
                Some (True, ls1\<lparr>nodes := h2\<rparr>) } })"
  using assms(2-5) unfolding assms(1)
  by (simp add: ListBasedSet_insert_def Let_def split: option.split) (auto split: option.split bind_splits)

lemma ListBasedSet_insert_rep:
  assumes rep: "ls_rep ls ps" and xs: "xs = takeWhile (\<lambda>(a, w). w < v) ps"
    and ys: "ys = dropWhile (\<lambda>(a, w). w < v) ps" and new: "v \<notin> set (map snd ps)"
  shows "\<exists>ls'. ListBasedSet_insert v ls = Some (True, ls') \<and> ls_rep ls' (xs @ (next_addr ls, v) # ys)"
proof -
  let ?new = "next_addr ls"
  note R = rep [unfolded ls_rep_def]
  have sorted: "sorted_wrt (<) (map snd ps)" using R by blast
  note S = sorted_split [OF sorted xs ys]
  have fresh: "?new \<notin> set (map fst ps)" using R by blast
  define r where "r = (case ys of [] \<Rightarrow> None | (a, w) # _ \<Rightarrow> Some a)"
  define h where "h = (nodes ls)(?new \<mapsto> \<lparr>node_value = v, node_next = None\<rparr>)"
  define h0 where "h0 = (nodes ls)(?new \<mapsto> \<lparr>node_value = v, node_next = r\<rparr>)"
  have seg: "lseg h (Head ls) ps None" "lseg h0 (Head ls) ps None"
    using R fresh by (simp_all add: h_def h0_def lseg_upd)
  have ysr: "lseg (nodes ls) r ys None"
    using R S(1) by (cases ys) (auto simp: r_def lseg_append dest: lseg_head)
  then have tail: "lseg h0 (Some ?new) ((?new, v) # ys) None"
    using fresh S(1) by (simp add: h0_def lseg_upd)
  have rest: "distinct (map fst (xs @ (?new, v) # ys))"
      "sorted_wrt (<) (map snd (xs @ (?new, v) # ys))"
      "set (map fst (xs @ (?new, v) # ys)) = insert ?new (dom (nodes ls))"
      "\<forall>a \<in> set (map fst (xs @ (?new, v) # ys)). a < Suc ?new"
    using R fresh S(1,2) S(6) [OF new] by (auto simp: sorted_wrt_append less_Suc_eq)
  have walk: "walk (\<lambda>w. w < v) h None (Head ls) =
      Some (case xs of [] \<Rightarrow> None | _ \<Rightarrow> Some (fst (last xs)), r)"
    using walk_lseg [OF seg(1), of "\<lambda>w. w < v" None] unfolding xs [symmetric] ys [symmetric] r_def
    by (simp add: case_prod_unfold split: list.split)
  show ?thesis
  proof (cases xs rule: rev_cases)
    case Nil
    let ?ls = "ls\<lparr>Head := Some ?new, nodes := h0, next_addr := Suc ?new\<rparr>"
    have "ListBasedSet_insert v ls = Some (True, ?ls)"
    proof (cases ys)
      case N: Nil
      then have "Head ls = None" using ls_rep_head_None [OF rep] Nil S(1) by simp
      then show ?thesis by (simp add: ListBasedSet_insert_def h0_def r_def N Let_def)
    next
      case C: (Cons y ys')
      obtain c w where y: "y = (c, w)" by force
      then obtain n where "Head ls = Some c" "h c = Some n" "node_value n = w" "w > v"
        using seg(1) S(1) S(6) [OF new] Nil C by (auto split: option.splits)
      then show ?thesis
        by (simp add: ListBasedSet_insert_def h0_def h_def r_def C y set_next_def Let_def)
    qed
    moreover have "ls_rep ?ls ((?new, v) # ys)"
      using tail rest Nil by (auto simp: ls_rep_def h0_def)
    ultimately show ?thesis using Nil by simp
  next
    case (snoc xs' y)
    obtain p w where y: "y = (p, w)" by force
    obtain n where n: "h p = Some n" "h0 p = Some n" "p \<noteq> ?new" "p \<notin> set (map fst xs')"
      using seg(1) R fresh S(1) snoc y lseg_value [OF R [THEN conjunct1], of p w]
      by (auto simp: h_def h0_def)
    let ?h = "h0(p \<mapsto> n\<lparr>node_next := Some ?new\<rparr>)"
    let ?ls = "ls\<lparr>nodes := ?h, next_addr := Suc ?new\<rparr>"
    have "lseg ?h (Some ?new) ((?new, v) # ys) None"
      using tail n R S(1) snoc y by (subst lseg_upd) auto
    then have seg': "lseg ?h (Head ls) (xs @ (?new, v) # ys) None"
      using lseg_splice [of h0 "Head ls" xs' p w ys None n "Some ?new" "(?new, v) # ys"] n seg(2) S(1) snoc y
      by simp
    obtain c k where c: "Head ls = Some c" "h c = Some k" "\<not> v < node_value k"
      using seg(1) S(1,2) snoc y by (cases xs'; fastforce split: option.splits)
    have w: "walk (\<lambda>w. w < v) h None (Head ls) = Some (Some p, r)"
      using walk snoc y by (cases xs') simp_all
    note inner = ListBasedSet_insert_inner [OF h_def c w]
    have h_new: "h ?new = Some \<lparr>node_value = v, node_next = None\<rparr>" by (simp add: h_def)
    have code: "ListBasedSet_insert v ls = Some (True, ?ls)"
    proof (cases ys)
      case Nil
      then have "h0 = h" by (simp add: h0_def h_def r_def)
      then show ?thesis
        using inner n Nil by (simp add: Let_def set_next_def r_def)
    next
      case (Cons z ys')
      obtain d u where z: "z = (d, u)" by force
      obtain m where m: "h d = Some m" "node_value m = u"
        using lseg_value [OF seg(1), of d u] S(1) Cons z by auto
      have "u \<noteq> v" using S(1) Cons z new by auto
      moreover have "?h = h(p \<mapsto> n\<lparr>node_next := Some ?new\<rparr>, ?new \<mapsto> \<lparr>node_value = v, node_next = Some d\<rparr>)"
        using n(3) Cons z by (auto simp: h0_def h_def r_def)
      ultimately show ?thesis
        using inner n m Cons z h_new by (simp add: Let_def set_next_def r_def)
    qed
    have "dom ?h = insert ?new (dom (nodes ls))" using n by (auto simp: h0_def)
    then have "ls_rep ?ls (xs @ (?new, v) # ys)"
      using seg' rest by (simp add: ls_rep_def)
    then show ?thesis using code by blast
  qed
qed

lemma ListBasedSet_insert_present:
  assumes rep: "ls_rep ls ps" and old: "v \<in> set (map snd ps)"
  shows "ListBasedSet_insert v ls = Some (False, ls\<lparr>next_addr := Suc (next_addr ls)\<rparr>)"
proof -
  let ?new = "next_addr ls"
  note R = rep [unfolded ls_rep_def]
  have sorted: "sorted_wrt (<) (map snd ps)" using R by blast
  note S = sorted_split [OF sorted refl refl]
  have fresh: "?new \<notin> set (map fst ps)" using R by blast
  define h where "h = (nodes ls)(?new \<mapsto> \<lparr>node_value = v, node_next = None\<rparr>)"
  have seg: "lseg h (Head ls) ps None" using R fresh by (simp add: h_def lseg_upd)
  obtain d ys where y: "dropWhile (\<lambda>(a, w). w < v) ps = (d, v) # ys"
    using S(4) old by (cases "dropWhile (\<lambda>(a, w). w < v) ps") auto
  obtain prev where walk: "walk (\<lambda>w. w < v) h None (Head ls) = Some (prev, Some d)"
    using walk_lseg_at [OF seg y] by blast
  have "(d, v) \<in> set ps" using y by (metis list.set_intros(1) set_dropWhileD)
  then obtain m where m: "h d = Some m" "node_value m = v" using lseg_value [OF seg] by blast
  obtain c w ps' where c: "ps = (c, w) # ps'" using old by (cases ps) auto
  then obtain k where k: "Head ls = Some c" "h c = Some k" "node_value k = w"
    using seg by (auto split: option.splits)
  have "\<not> w > v" using c old sorted by auto
  moreover have "h(?new := None) = nodes ls"
    using R fresh by (auto simp: h_def fun_eq_iff dom_def)
  ultimately show ?thesis
    using k m walk ListBasedSet_insert_inner [OF h_def k(1,2) _ walk]
    by (simp add: free_node_def h_def)
qed

lemma ListBasedSet_remove_absent:
  assumes rep: "ls_rep ls ps" and new: "v \<notin> set (map snd ps)"
  shows "ListBasedSet_remove v ls = Some (False, ls)"
proof -
  have all: "\<forall>(a, w) \<in> set ps. w \<noteq> v" using new by force
  have "lseg (nodes ls) (Head ls) ps None" using rep by (simp add: ls_rep_def)
  then show ?thesis
    using walk_lseg_end [OF _ all, of "nodes ls" "Head ls" None] by (auto simp: ListBasedSet_remove_def)
qed

lemma ListBasedSet_remove_rep:
  assumes rep: "ls_rep ls (xs @ (d, v) # ys)"
  shows "\<exists>ls'. ListBasedSet_remove v ls = Some (True, ls') \<and> ls_rep ls' (xs @ ys)"
proof -
  note R = rep [unfolded ls_rep_def]
  have seg: "lseg (nodes ls) (Head ls) (xs @ (d, v) # ys) None" using R by blast
  have xs: "\<forall>p \<in> set xs. (\<lambda>(a, w). w \<noteq> v) p" using R by (auto simp: sorted_wrt_append)
  note tw = takeWhile_then [OF xs, of "(d, v)" ys, simplified]
  obtain n where n: "nodes ls d = Some n" "lseg (nodes ls) (node_next n) ys None"
    using seg by (auto simp: lseg_append split: option.splits)
  have d: "d \<notin> set (map fst (xs @ ys))" using R by auto
  have walk: "walk (\<lambda>w. w \<noteq> v) (nodes ls) None (Head ls) =
      Some (case xs of [] \<Rightarrow> None | _ \<Rightarrow> Some (fst (last xs)), Some d)"
    using walk_lseg [OF seg, of "\<lambda>w. w \<noteq> v" None] tw by (simp split: list.split)
  show ?thesis
  proof (cases xs rule: rev_cases)
    case Nil
    let ?ls = "ls\<lparr>Head := node_next n, nodes := (nodes ls)(d := None)\<rparr>"
    have "Head ls = Some d" using seg Nil by (auto dest: lseg_head)
    then have "ListBasedSet_remove v ls = Some (True, ?ls)"
      using walk n Nil by (simp add: ListBasedSet_remove_def deref_def free_node_def)
    moreover have "ls_rep ?ls ys"
      using R n(2) d Nil by (auto simp: ls_rep_def lseg_upd)
    ultimately show ?thesis using Nil by simp
  next
    case (snoc xs' y)
    obtain p w where y: "y = (p, w)" by force
    have dist: "p \<notin> set (map fst xs')" "p \<notin> set (map fst ys)" "p \<noteq> d" using R snoc y by auto
    obtain k where k: "nodes ls p = Some k"
      using lseg_value [OF seg, of p w] snoc y by auto
    let ?h = "(nodes ls)(p \<mapsto> k\<lparr>node_next := node_next n\<rparr>)"
    let ?ls = "ls\<lparr>nodes := ?h(d := None)\<rparr>"
    have "Head ls \<noteq> Some d" using seg d snoc y by (cases xs') (auto dest: lseg_head)
    then have code: "ListBasedSet_remove v ls = Some (True, ?ls)"
      using walk n k snoc y dist
      by (auto simp: ListBasedSet_remove_def deref_def set_next_def free_node_def split: list.split)
        (use seg in \<open>cases xs'; auto dest: lseg_head\<close>)+
    have "lseg ?h (Head ls) (xs' @ (p, w) # ys) None"
      using lseg_splice [of "nodes ls" "Head ls" xs' p w "(d, v) # ys" None k "node_next n" ys]
        seg snoc y dist k n(2) by (simp add: lseg_upd)
    then have "ls_rep ?ls (xs @ ys)"
      using R d snoc y k by (auto simp: ls_rep_def lseg_upd sorted_wrt_append)
    then show ?thesis using code by blast
  qed
qed

lemma ListBasedSet_lookup_rep:
  assumes rep: "ls_rep ls ps"
  shows "ListBasedSet_lookup v ls = Some (v \<in> set (map snd ps))"
proof -
  note R = rep [unfolded ls_rep_def]
  have sorted: "sorted_wrt (<) (map snd ps)" and seg: "lseg (nodes ls) (Head ls) ps None"
    using R by auto
  note S = sorted_split [OF sorted refl refl, where v = v]
  show ?thesis
  proof (cases "dropWhile (\<lambda>(a, w). w < v) ps")
    case Nil
    then have "v \<notin> set (map snd ps)" "\<forall>(a, w) \<in> set ps. w < v" using S(4) by simp_all
    then show ?thesis using walk_lseg_end [OF seg, of "\<lambda>w. w < v" None]
      by (auto simp: ListBasedSet_lookup_def)
  next
    case (Cons y ys)
    obtain d u where y: "y = (d, u)" by force
    have "(d, u) \<in> set ps" using Cons y by (metis list.set_intros(1) set_dropWhileD)
    then obtain m where m: "nodes ls d = Some m" "node_value m = u" "Head ls \<noteq> None"
      using lseg_value [OF seg] ls_rep_head_None [OF rep] by auto
    then show ?thesis
      using walk_lseg_at [OF seg, of "\<lambda>w. w < v" d u ys None] S(4,5) Cons y
      by (auto simp: ListBasedSet_lookup_def deref_def)
  qed
qed

lemma free_all_lseg:
  "lseg h p ps None \<Longrightarrow> distinct (map fst ps) \<Longrightarrow>
    free_all p h = Some (\<lambda>a. if a \<in> set (map fst ps) then None else h a)"
proof (induction ps arbitrary: p h)
  case Nil
  then show ?case by (simp add: free_all.simps)
next
  case (Cons q ps)
  obtain a v where q: "q = (a, v)" by force
  then obtain n where n: "p = Some a" "h a = Some n" "lseg h (node_next n) ps None"
    using Cons.prems by (auto split: option.splits)
  have a: "a \<notin> set (map fst ps)" "distinct (map fst ps)" using Cons.prems q by auto
  then have "free_all (node_next n) (h(a := None)) =
      Some (\<lambda>b. if b \<in> set (map fst ps) then None else (h(a := None)) b)"
    using n(3) by (intro Cons.IH) (simp_all only: lseg_upd [OF a(1)])
  also have "(\<lambda>b. if b \<in> set (map fst ps) then None else (h(a := None)) b) =
      (\<lambda>b. if b \<in> set (map fst (q # ps)) then None else h b)"
    using q by auto
  finally show ?case
    by (subst free_all.simps)
      (simp only: n option.distinct if_False Option.bind.bind_lunit simp_thms)
qed

lemma free_all_rep: "ls_rep ls ps \<Longrightarrow> free_all (Head ls) (nodes ls) = Some Map.empty"
  using free_all_lseg [of "nodes ls" "Head ls" ps] by (auto simp: ls_rep_def fun_eq_iff dom_def)

lemma integrity_loop_lseg:
  "lseg h p ps None \<Longrightarrow> deref h prev = Some m \<Longrightarrow>
    integrity_loop h prev p = Some (sorted_wrt (<) (node_value m # map snd ps))"
proof (induction ps arbitrary: p prev m)
  case Nil
  then show ?case by (simp add: integrity_loop.simps)
next
  case (Cons q ps)
  obtain a v where q: "q = (a, v)" by force
  then obtain n where n: "p = Some a" "h a = Some n" "node_value n = v" "lseg h (node_next n) ps None"
    using Cons.prems by (auto split: option.splits)
  have step: "integrity_loop h prev p =
      (if node_value m < v then integrity_loop h (Some a) (node_next n) else Some False)"
    using n Cons.prems(2) by (subst integrity_loop.simps) (simp add: deref_def)
  have IH: "integrity_loop h (Some a) (node_next n) = Some (sorted_wrt (<) (v # map snd ps))"
    using Cons.IH [OF n(4), of "Some a" n] n by (simp add: deref_def)
  show ?case unfolding step IH using q by fastforce
qed

text \<open>\<open>checkIntegrity\<close> decides sortedness of any list, not only of those the class builds.\<close>

lemma ListBasedSet_checkIntegrity_lseg:
  assumes "lseg (nodes ls) (Head ls) ps None"
  shows "ListBasedSet_checkIntegrity ls = Some (sorted_wrt (<) (map snd ps))"
proof (cases ps)
  case Nil
  then show ?thesis using assms by (simp add: ListBasedSet_checkIntegrity_def)
next
  case (Cons q ps')
  obtain a v where q: "q = (a, v)" by force
  then obtain n where n: "Head ls = Some a" "nodes ls a = Some n" "node_value n = v"
    "lseg (nodes ls) (node_next n) ps' None"
    using assms Cons by (auto split: option.splits)
  have last: "node_next n = None \<Longrightarrow> ps' = []" using n(4) by (cases ps') auto
  show ?thesis
    using n q Cons last integrity_loop_lseg [OF n(4), of "Some a" n]
    by (auto simp: ListBasedSet_checkIntegrity_def deref_def)
qed

section \<open>The class implements a set\<close>

definition lookup_op :: "int \<Rightarrow> list_set \<Rightarrow> (bool \<times> list_set) option" where
  "lookup_op v ls = map_option (\<lambda>r. (r, ls)) (ListBasedSet_lookup v ls)"

lemma ListBasedSet_insert_law:
  assumes "ls_inv ls"
  shows "\<exists>ls'. ListBasedSet_insert v ls = Some (v \<notin> ls_elems ls, ls') \<and> ls_inv ls' \<and>
    ls_elems ls' = insert v (ls_elems ls)"
proof -
  obtain ps where rep: "ls_rep ls ps" using assms by (auto simp: ls_inv_def)
  note el = ls_elems_rep [OF rep]
  show ?thesis
  proof (cases "v \<in> ls_elems ls")
    case True
    have "ls_rep (ls\<lparr>next_addr := Suc (next_addr ls)\<rparr>) ps"
      using rep by (auto simp: ls_rep_def less_Suc_eq)
    then show ?thesis
      using ListBasedSet_insert_present [OF rep] True el ls_elems_rep by (auto simp: ls_inv_def)
  next
    case False
    let ?qs = "takeWhile (\<lambda>(a, w). w < v) ps @ (next_addr ls, v) # dropWhile (\<lambda>(a, w). w < v) ps"
    obtain ls' where ls': "ListBasedSet_insert v ls = Some (True, ls')" "ls_rep ls' ?qs"
      using ListBasedSet_insert_rep [OF rep refl refl, of v] False el by auto
    have "set (map snd ?qs) = insert v (set (map snd (takeWhile (\<lambda>(a, w). w < v) ps @
        dropWhile (\<lambda>(a, w). w < v) ps)))"
      by (simp only: map_append set_append list.map set_simps) auto
    then have "set (map snd ?qs) = insert v (set (map snd ps))" by (simp only: takeWhile_dropWhile_id)
    then show ?thesis using ls' False el ls_elems_rep [OF ls'(2)] by (auto simp: ls_inv_def)
  qed
qed

lemma ListBasedSet_remove_law:
  assumes "ls_inv ls"
  shows "\<exists>ls'. ListBasedSet_remove v ls = Some (v \<in> ls_elems ls, ls') \<and> ls_inv ls' \<and>
    ls_elems ls' = ls_elems ls - {v}"
proof -
  obtain ps where rep: "ls_rep ls ps" using assms by (auto simp: ls_inv_def)
  note el = ls_elems_rep [OF rep]
  show ?thesis
  proof (cases "v \<in> ls_elems ls")
    case False
    then show ?thesis using ListBasedSet_remove_absent [OF rep] el assms by auto
  next
    case True
    then obtain a xs ys where ps: "ps = xs @ (a, v) # ys" using el by (auto dest: split_list)
    obtain ls' where ls': "ListBasedSet_remove v ls = Some (True, ls')" "ls_rep ls' (xs @ ys)"
      using ListBasedSet_remove_rep rep ps by blast
    have "v \<notin> set (map snd (xs @ ys))" using rep ps by (auto simp: ls_rep_def sorted_wrt_append)
    then show ?thesis using ls' True el ps ls_elems_rep [OF ls'(2)] by (auto simp: ls_inv_def)
  qed
qed

interpretation lbs: set_adt "\<lambda>t. ListBasedSet_insert" "\<lambda>t. ListBasedSet_remove" "\<lambda>t. lookup_op"
  ls_elems ls_inv "\<lambda>t. True"
proof unfold_locales
  fix ls :: list_set and v
  assume inv: "ls_inv ls"
  then obtain ps where "ls_rep ls ps" by (auto simp: ls_inv_def)
  then show "\<exists>s'. lookup_op v ls = Some (v \<in> ls_elems ls, s') \<and> ls_inv s' \<and> ls_elems s' = ls_elems ls"
    using inv by (simp add: lookup_op_def ListBasedSet_lookup_rep ls_elems_rep)
qed (use ListBasedSet_insert_law ListBasedSet_remove_law in blast)+

lemma ls_new_inv: "ls_inv ListBasedSet_new" "ls_elems ListBasedSet_new = {}"
proof -
  have "ls_rep ListBasedSet_new []" by (simp add: ls_rep_def ListBasedSet_new_def)
  then show "ls_inv ListBasedSet_new" "ls_elems ListBasedSet_new = {}"
    using ls_elems_rep by (fastforce simp: ls_inv_def)+
qed

lemma ls_inv_nodes:
  assumes "ls_inv ls"
  shows "card (dom (nodes ls)) = card (ls_elems ls)"
    and "ListBasedSet_checkIntegrity ls = Some True"
    and "ListBasedSet_destroy ls = Some Map.empty"
proof -
  obtain ps where rep: "ls_rep ls ps" using assms by (auto simp: ls_inv_def)
  note R = rep [unfolded ls_rep_def]
  have "distinct (map snd ps)" using R by (simp add: sorted_wrt_less_distinct)
  then show "card (dom (nodes ls)) = card (ls_elems ls)"
    using distinct_card [of "map fst ps"] distinct_card [of "map snd ps"] R ls_elems_rep [OF rep]
    by simp
  show "ListBasedSet_checkIntegrity ls = Some True"
    using ListBasedSet_checkIntegrity_lseg [of ls ps] R by simp
  show "ListBasedSet_destroy ls = Some Map.empty"
    using free_all_rep [OF rep] by (simp add: ListBasedSet_destroy_def)
qed

section \<open>Properties\<close>

text \<open>
  C11. Any sequence of \<open>insert\<close>, \<open>remove\<close> and \<open>lookup\<close> calls, by any threads, on a new
  \<open>ListBasedSet\<close> ends, never touches a deleted node, and answers as the mathematical set does.
  Afterwards \<open>checkIntegrity\<close> is true, there is exactly one live node per element, so nothing
  leaked, and the destructor frees every node exactly once.
\<close>

theorem ListBasedSet_is_set:
  "\<exists>ls. set_run (\<lambda>t. ListBasedSet_insert) (\<lambda>t. ListBasedSet_remove) (\<lambda>t. lookup_op) cs ListBasedSet_new =
       Some (fst (set_spec cs {}), ls) \<and>
     ls_elems ls = snd (set_spec cs {}) \<and> card (dom (nodes ls)) = card (ls_elems ls) \<and>
     ListBasedSet_checkIntegrity ls = Some True \<and> ListBasedSet_destroy ls = Some Map.empty"
  using lbs.run_spec [OF ls_new_inv(1), of cs] ls_inv_nodes by (auto simp: ls_new_inv(2))

text \<open>
  \<open>checkIntegrity\<close> is exact: on any null-terminated list, sorted or not, it ends and
  returns whether the values are strictly increasing.
\<close>

theorem checkIntegrity_exact:
  assumes "lseg (nodes ls) (Head ls) ps None"
  shows "ListBasedSet_checkIntegrity ls = Some (sorted_wrt (<) (map snd ps))"
  using assms by (rule ListBasedSet_checkIntegrity_lseg)

theorem checkIntegrity_exact_witness:
  "ListBasedSet_checkIntegrity
     \<lparr>Head = Some 0, nodes = [0 \<mapsto> \<lparr>node_value = 2, node_next = Some 1\<rparr>,
        1 \<mapsto> \<lparr>node_value = 1, node_next = None\<rparr>], next_addr = 2\<rparr> = Some False"
  using checkIntegrity_exact [of "\<lparr>Head = Some 0, nodes = [0 \<mapsto> \<lparr>node_value = 2, node_next = Some 1\<rparr>,
        1 \<mapsto> \<lparr>node_value = 1, node_next = None\<rparr>], next_addr = 2\<rparr>" "[(0, 2), (1, 1)]"] by simp

end
