(* ===== verification/Hazard_Pointers.thy ===== *)
theory Hazard_Pointers
  imports Prelude
begin

text \<open>
  \<^verbatim>\<open>src/hazard_pointers.hpp\<close>: safe memory reclamation. A node is its address, 0 is \<open>NULL\<close>.
  The deletions of a call are returned as the set of addresses deleted; the order in which the
  hash set of the source is traversed does not matter to it. The constructor leaves the
  hazard pointers as the allocated memory has them: they are the argument \<open>junk\<close>.
\<close>

section \<open>State and operations\<close>

definition MAX_RETIRED_NODES_PER_THREAD :: nat where
  "MAX_RETIRED_NODES_PER_THREAD = 10"

record hazard =
  num_ptrs :: nat
  num_threads :: nat
  hp_recs :: "nat list list"
  retired_lists :: "nat set list"

definition HazardPointers_new :: "nat \<Rightarrow> (nat \<Rightarrow> nat \<Rightarrow> nat) \<Rightarrow> nat \<Rightarrow> hazard" where
  "HazardPointers_new k junk n =
     \<lparr>num_ptrs = k, num_threads = n, hp_recs = map (\<lambda>i. map (junk i) [0..<k]) [0..<n],
      retired_lists = replicate n {}\<rparr>"

text \<open>Reading and writing through the array that \<open>getHPRec\<close> returns.\<close>

definition getHPRec :: "nat \<Rightarrow> hazard \<Rightarrow> nat list" where
  "getHPRec t hz = hp_recs hz ! t"

definition set_hp :: "nat \<Rightarrow> nat \<Rightarrow> nat \<Rightarrow> hazard \<Rightarrow> hazard" where
  "set_hp t j p hz = hz\<lparr>hp_recs := (hp_recs hz)[t := (getHPRec t hz)[j := p]]\<rparr>"

definition active_list :: "hazard \<Rightarrow> nat set" where
  "active_list hz = {p \<in> set (concat (hp_recs hz)). p \<noteq> 0}"

definition maybeFreeNodes :: "nat \<Rightarrow> hazard \<Rightarrow> nat set \<times> hazard" where
  "maybeFreeNodes t hz =
     (let l = retired_lists hz ! t
      in (l - active_list hz,
          hz\<lparr>retired_lists := (retired_lists hz)[t := l \<inter> active_list hz]\<rparr>))"

definition retireNode :: "nat \<Rightarrow> nat \<Rightarrow> hazard \<Rightarrow> nat set \<times> hazard" where
  "retireNode t node hz =
     (let hz1 = hz\<lparr>retired_lists := (retired_lists hz)[t := insert node (retired_lists hz ! t)]\<rparr>
      in if card (retired_lists hz1 ! t) > MAX_RETIRED_NODES_PER_THREAD
         then maybeFreeNodes t hz1 else ({}, hz1))"

text \<open>The nodes the destructor deletes, in the order of the retired lists.\<close>

definition HazardPointers_destroy :: "hazard \<Rightarrow> nat set" where
  "HazardPointers_destroy hz = \<Union> (set (retired_lists hz))"

section \<open>Calls one after the other\<close>

text \<open>
  The class as the sequential list drives it: each call of \<open>retireNode\<close> and \<open>maybeFreeNodes\<close> runs to its end before
  another access. (The accesses of overlapping calls are the steps of \<open>Hazard_Machine\<close>, which also shows that a
  call that runs alone is the one here.) \<open>handed\<close> is the set of nodes handed over so far and \<open>freed\<close> counts the deletions
  of each node. The documented duty of the callers, that a node is retired only once, is the guard of \<open>step_retire\<close>.
\<close>

record hp_run =
  run_hz :: hazard
  handed :: "nat set"
  freed :: "nat \<Rightarrow> nat"

definition log_frees :: "nat set \<Rightarrow> (nat \<Rightarrow> nat) \<Rightarrow> nat \<Rightarrow> nat" where
  "log_frees F f p = f p + of_bool (p \<in> F)"

inductive hp_step :: "hp_run \<Rightarrow> hp_run \<Rightarrow> bool" where
  step_publish: "t < num_threads (run_hz s) \<Longrightarrow> j < num_ptrs (run_hz s) \<Longrightarrow>
    hp_step s (s\<lparr>run_hz := set_hp t j p (run_hz s)\<rparr>)"
| step_retire: "t < num_threads (run_hz s) \<Longrightarrow> p \<notin> handed s \<Longrightarrow>
    retireNode t p (run_hz s) = (F, hz) \<Longrightarrow>
    hp_step s \<lparr>run_hz = hz, handed = insert p (handed s), freed = log_frees F (freed s)\<rparr>"
| step_scan: "t < num_threads (run_hz s) \<Longrightarrow> maybeFreeNodes t (run_hz s) = (F, hz) \<Longrightarrow>
    hp_step s \<lparr>run_hz = hz, handed = handed s, freed = log_frees F (freed s)\<rparr>"

definition hp_start :: "nat \<Rightarrow> nat \<Rightarrow> hp_run \<Rightarrow> bool" where
  "hp_start k n s \<longleftrightarrow> (\<exists>junk. s = \<lparr>run_hz = HazardPointers_new k junk n, handed = {}, freed = (\<lambda>_. 0)\<rparr>)"

definition hz_shape :: "nat \<Rightarrow> nat \<Rightarrow> hazard \<Rightarrow> bool" where
  "hz_shape k n hz \<longleftrightarrow> num_ptrs hz = k \<and> num_threads hz = n \<and> length (hp_recs hz) = n \<and>
     (\<forall>r \<in> set (hp_recs hz). length r = k) \<and> length (retired_lists hz) = n"

definition hp_inv :: "nat \<Rightarrow> nat \<Rightarrow> hp_run \<Rightarrow> bool" where
  "hp_inv k n s \<longleftrightarrow>
     (let hz = run_hz s
      in hz_shape k n hz \<and>
         (\<forall>t < n. finite (retired_lists hz ! t) \<and>
            card (retired_lists hz ! t) \<le> max MAX_RETIRED_NODES_PER_THREAD (n * k)) \<and>
         (\<forall>t < n. \<forall>u < n. t \<noteq> u \<longrightarrow> retired_lists hz ! t \<inter> retired_lists hz ! u = {}) \<and>
         (\<forall>p. freed s p = of_bool (p \<in> handed s \<and> p \<notin> HazardPointers_destroy hz)) \<and>
         HazardPointers_destroy hz \<subseteq> handed s)"

declare hp_inv_def [inv_defs] hz_shape_def [inv_defs]

section \<open>Scanning\<close>

lemma active_bound:
  assumes "hz_shape k n hz"
  shows "finite (active_list hz)" "card (active_list hz) \<le> n * k"
proof -
  have "card (active_list hz) \<le> card (set (concat (hp_recs hz)))"
    by (rule card_mono) (auto simp: active_list_def)
  also have "\<dots> \<le> length (concat (hp_recs hz))" by (rule card_length)
  also have "\<dots> = n * k"
    using assms by (simp add: hz_shape_def length_concat sum_list_triv
        cong: map_cong)
  finally show "card (active_list hz) \<le> n * k" .
qed (simp add: active_list_def)

text \<open>
  What a scan does to the retired list of its thread: exactly the nodes no thread has published
  are deleted, the others stay.
\<close>

lemma scan_facts:
  assumes "maybeFreeNodes t hz = (F, hz')" "hz_shape k n hz" "t < n"
  shows "F = retired_lists hz ! t - active_list hz"
    and "retired_lists hz' ! t = retired_lists hz ! t \<inter> active_list hz"
    and "\<And>u. u \<noteq> t \<Longrightarrow> retired_lists hz' ! u = retired_lists hz ! u"
    and "hz_shape k n hz'" and "card (retired_lists hz' ! t) \<le> n * k"
    and "finite (retired_lists hz' ! t)"
proof -
  show "F = retired_lists hz ! t - active_list hz"
    "retired_lists hz' ! t = retired_lists hz ! t \<inter> active_list hz" "hz_shape k n hz'"
    "\<And>u. u \<noteq> t \<Longrightarrow> retired_lists hz' ! u = retired_lists hz ! u"
    using assms by (auto simp: maybeFreeNodes_def Let_def hz_shape_def)
  then show "card (retired_lists hz' ! t) \<le> n * k" "finite (retired_lists hz' ! t)"
    using active_bound [OF assms(2)] by (auto intro: le_trans [OF card_mono])
qed

text \<open>A scan keeps the books: what leaves the retired list of its thread was deleted now.\<close>

lemma scan_inv:
  assumes scan: "maybeFreeNodes t hz = (F, hz')" and t: "t < n" and shape: "hz_shape k n hz"
    and fin: "\<And>u. u < n \<Longrightarrow> u \<noteq> t \<Longrightarrow> finite (retired_lists hz ! u) \<and>
      card (retired_lists hz ! u) \<le> max MAX_RETIRED_NODES_PER_THREAD (n * k)"
    and disj: "\<forall>t < n. \<forall>u < n. t \<noteq> u \<longrightarrow> retired_lists hz ! t \<inter> retired_lists hz ! u = {}"
    and log: "\<forall>p. f p = of_bool (p \<in> H \<and> p \<notin> HazardPointers_destroy hz)"
    and sub: "HazardPointers_destroy hz \<subseteq> H"
  shows "hp_inv k n \<lparr>run_hz = hz', handed = H, freed = log_frees F f\<rparr>"
proof -
  note S = scan_facts [OF scan shape t]
  have len: "length (retired_lists hz) = n" "length (retired_lists hz') = n"
    using shape S(4) by (auto simp: hz_shape_def)
  have pend: "p \<in> HazardPointers_destroy hz'' \<longleftrightarrow> (\<exists>u < n. p \<in> retired_lists hz'' ! u)"
    if "length (retired_lists hz'') = n" for p hz''
    using that by (fastforce simp: HazardPointers_destroy_def in_set_conv_nth)
  have d': "p \<in> HazardPointers_destroy hz' \<longleftrightarrow> p \<in> HazardPointers_destroy hz \<and> p \<notin> F" for p
  proof
    assume "p \<in> HazardPointers_destroy hz'"
    then obtain u where u: "u < n" "p \<in> retired_lists hz' ! u" using pend [OF len(2)] by blast
    then show "p \<in> HazardPointers_destroy hz \<and> p \<notin> F"
      using S(1-3) t disj pend [OF len(1)] by (cases "u = t") (auto, blast)
  next
    assume "p \<in> HazardPointers_destroy hz \<and> p \<notin> F"
    then obtain u where u: "u < n" "p \<in> retired_lists hz ! u" "p \<notin> F" using pend [OF len(1)] by blast
    then show "p \<in> HazardPointers_destroy hz'"
      using S(1-3) pend [OF len(2)] by (cases "u = t") auto
  qed
  have "\<forall>p. log_frees F f p = of_bool (p \<in> H \<and> p \<notin> HazardPointers_destroy hz')"
  proof
    fix p
    have "p \<in> F \<Longrightarrow> p \<in> HazardPointers_destroy hz" using S(1) t pend [OF len(1)] by auto
    then show "log_frees F f p = of_bool (p \<in> H \<and> p \<notin> HazardPointers_destroy hz')"
      using log d' sub by (auto simp: log_frees_def)
  qed
  moreover have "\<forall>u < n. finite (retired_lists hz' ! u) \<and>
      card (retired_lists hz' ! u) \<le> max MAX_RETIRED_NODES_PER_THREAD (n * k)"
  proof (intro allI impI)
    fix u assume "u < n"
    then show "finite (retired_lists hz' ! u) \<and>
        card (retired_lists hz' ! u) \<le> max MAX_RETIRED_NODES_PER_THREAD (n * k)"
      using S(3,5,6) fin [of u] by (cases "u = t") (auto intro: max.coboundedI2)
  qed
  moreover have "\<forall>u < n. \<forall>v < n. u \<noteq> v \<longrightarrow> retired_lists hz' ! u \<inter> retired_lists hz' ! v = {}"
  proof (intro allI impI)
    fix u v assume uv: "u < n" "v < n" "u \<noteq> v"
    have sub: "retired_lists hz' ! w \<subseteq> retired_lists hz ! w" for w
      using S(2) S(3) [of w] by (cases "w = t") auto
    show "retired_lists hz' ! u \<inter> retired_lists hz' ! v = {}"
      using uv disj sub [of u] sub [of v] by blast
  qed
  ultimately show ?thesis
    using S(4) d' sub by (auto simp: hp_inv_def Let_def)
qed

section \<open>The invariant of sequences of calls\<close>

lemma hp_start_inv: "hp_start k n s \<Longrightarrow> hp_inv k n s"
  by (auto simp: hp_start_def hp_inv_def HazardPointers_new_def hz_shape_def
      HazardPointers_destroy_def set_replicate_conv_if split: if_splits)

lemma hp_step_inv:
  assumes "hp_step s s'" "hp_inv k n s"
  shows "hp_inv k n s'"
  using assms(1)
proof cases
  case (step_publish t j p)
  have "hz_shape k n (set_hp t j p (run_hz s))"
    using assms(2) step_publish by (auto simp: hp_inv_def Let_def hz_shape_def set_hp_def getHPRec_def
        dest!: subsetD [OF set_update_subset_insert])
  then show ?thesis
    using assms(2) step_publish
    by (simp add: hp_inv_def Let_def HazardPointers_destroy_def) (simp add: set_hp_def)
next
  case (step_scan t F hz)
  then show ?thesis
    using assms(2) scan_inv [of t "run_hz s" F hz n k "freed s" "handed s"]
    by (auto simp: hp_inv_def Let_def hz_shape_def)
next
  case (step_retire t p F hz)
  let ?hz = "run_hz s"
  define hz1 where "hz1 = ?hz\<lparr>retired_lists := (retired_lists ?hz)[t := insert p (retired_lists ?hz ! t)]\<rparr>"
  note I = assms(2) [unfolded hp_inv_def Let_def]
  have t: "t < n" and len: "length (retired_lists ?hz) = n"
    using step_retire(2) I by (auto simp: hz_shape_def)
  have shape: "hz_shape k n hz1" using I by (simp add: hz1_def hz_shape_def)
  have "q \<in> HazardPointers_destroy hz1 \<longleftrightarrow> q = p \<or> q \<in> HazardPointers_destroy ?hz" for q
    unfolding HazardPointers_destroy_def Union_iff in_set_conv_nth Bex_def
    using t len by (auto simp: hz1_def nth_list_update split: if_splits)
  then have pend: "HazardPointers_destroy hz1 = insert p (HazardPointers_destroy ?hz)" by blast
  have p: "p \<notin> retired_lists ?hz ! u" if "u < n" for u
    using that len I step_retire(3) by (fastforce simp: HazardPointers_destroy_def)
  have fin: "finite (retired_lists hz1 ! u) \<and>
      card (retired_lists hz1 ! u) \<le> max MAX_RETIRED_NODES_PER_THREAD (n * k)" if "u < n" "u \<noteq> t" for u
    using I that by (simp add: hz1_def)
  have disj: "\<forall>t < n. \<forall>u < n. t \<noteq> u \<longrightarrow> retired_lists hz1 ! t \<inter> retired_lists hz1 ! u = {}"
    using I p t len by (auto simp: hz1_def nth_list_update)
  have log: "\<forall>q. freed s q = of_bool (q \<in> insert p (handed s) \<and> q \<notin> HazardPointers_destroy hz1)"
    and sub: "HazardPointers_destroy hz1 \<subseteq> insert p (handed s)"
    using I pend step_retire(3) by auto
  show ?thesis
  proof (cases "card (retired_lists hz1 ! t) > MAX_RETIRED_NODES_PER_THREAD")
    case True
    then have "maybeFreeNodes t hz1 = (F, hz)"
      using step_retire(4) by (simp add: retireNode_def hz1_def Let_def)
    then show ?thesis
      using scan_inv [OF _ t shape fin disj log sub, of F hz] step_retire(1) by simp
  next
    case False
    then have eq: "F = {}" "hz = hz1"
      using step_retire(4) by (auto simp: retireNode_def hz1_def Let_def)
    have "finite (retired_lists hz1 ! t)" using I t len by (simp add: hz1_def)
    then have "\<forall>u < n. finite (retired_lists hz1 ! u) \<and>
        card (retired_lists hz1 ! u) \<le> max MAX_RETIRED_NODES_PER_THREAD (n * k)"
      using fin False by (metis leI max.coboundedI1)
    then show ?thesis
      using eq shape disj log sub step_retire(1) by (simp add: hp_inv_def Let_def log_frees_def)
  qed
qed

end
