(* ===== verification/Markable_Pointer.thy ===== *)
theory Markable_Pointer
  imports Prelude
begin

text \<open>
  \<^verbatim>\<open>src/markable_pointer.hpp\<close>: a pointer whose least significant bit is used as the logical
  deletion mark. The union of the source overlays a one-bit field on the pointer, so writing
  the field sets or clears bit 0 (little-endian layout). The operations are stated for any type
  of bit strings: 64-bit words are the machine's pointers, natural numbers the addresses of the
  list models.
\<close>

unbundle bit_operations_syntax

definition mp_mark :: "'a :: semiring_bit_operations \<Rightarrow> 'a" where
  "mp_mark p = set_bit 0 p"

definition mp_unmark :: "'a :: semiring_bit_operations \<Rightarrow> 'a" where
  "mp_unmark p = unset_bit 0 p"

definition mp_isMarked :: "'a :: semiring_bit_operations \<Rightarrow> bool" where
  "mp_isMarked p = bit p 0"

lemma mp_nat:
  fixes p :: nat
  shows "mp_isMarked p \<longleftrightarrow> odd p" "mp_mark p = p + of_bool (even p)" "mp_unmark p = p - of_bool (odd p)"
  by (simp_all add: mp_isMarked_def mp_mark_def mp_unmark_def bit_0 set_bit_eq unset_bit_0)

lemma mp_mark_nat [simp]: "even (p :: nat) \<Longrightarrow> mp_mark p = Suc p"
  by (simp add: mp_nat)

lemma mp_isMarked_nat [simp]: "mp_isMarked (p :: nat) \<longleftrightarrow> odd p"
  by (simp add: mp_nat)

lemma mp_unmark_nat [simp]: "mp_unmark (p :: nat) = (if odd p then p - 1 else p)"
  by (simp add: mp_nat)

section \<open>Properties\<close>

text \<open>
  For 64-bit pointers: \<open>mark\<close> and \<open>unmark\<close> set and clear the mark and no other bit,
  and on the pointers to nodes, which are aligned and thus unmarked, \<open>unmark\<close> takes \<open>mark\<close>
  back; \<open>mark\<close> never maps two such pointers to one.
\<close>

theorem MarkablePointer_steals_one_bit:
  fixes p q :: "64 word"
  shows "mp_isMarked (mp_mark p) \<and> \<not> mp_isMarked (mp_unmark p) \<and>
    (\<forall>n. n \<noteq> 0 \<longrightarrow> bit (mp_mark p) n = bit p n \<and> bit (mp_unmark p) n = bit p n) \<and>
    (\<not> mp_isMarked p \<longrightarrow> mp_unmark (mp_mark p) = p \<and> mp_unmark p = p) \<and>
    (\<not> mp_isMarked p \<and> \<not> mp_isMarked q \<and> mp_mark p = mp_mark q \<longrightarrow> p = q)"
proof -
  have bits: "bit (mp_mark p) n \<longleftrightarrow> n = 0 \<or> bit p n" "bit (mp_unmark p) n \<longleftrightarrow> n \<noteq> 0 \<and> bit p n"
    for p :: "64 word" and n
    by (auto simp: mp_mark_def mp_unmark_def bit_set_bit_iff bit_unset_bit_iff possible_bit_word)
  have undo: "mp_unmark (mp_mark p) = p" "mp_unmark p = p" if "\<not> mp_isMarked p" for p :: "64 word"
    using that by (auto intro!: bit_eqI gr0I simp: bits mp_isMarked_def)
  have "p = q" if "\<not> mp_isMarked p" "\<not> mp_isMarked q" "mp_mark p = mp_mark q"
    using that undo(1) by metis
  moreover have "mp_isMarked (mp_mark p)" "\<not> mp_isMarked (mp_unmark p)"
    by (simp_all only: mp_isMarked_def bits simp_thms)
  ultimately show ?thesis
    using undo [of p] by (simp add: bits)
qed

theorem MarkablePointer_steals_one_bit_witness:
  "mp_unmark (mp_mark (0x1000 :: 64 word)) = 0x1000 \<and> mp_isMarked (mp_mark (0x1000 :: 64 word))"
proof -
  have "\<not> mp_isMarked (0x1000 :: 64 word)" by (simp add: mp_isMarked_def bit_0)
  then show ?thesis using MarkablePointer_steals_one_bit [of "0x1000" "0x1000"] by blast
qed

end
