(* ===== verification/Lock_Free_List.thy ===== *)
theory Lock_Free_List
  imports Hazard_Pointers Markable_Pointer
begin

text \<open>
  \<^verbatim>\<open>src/lock_free_list.hpp\<close>: the list-based set with logical deletion and hazard pointers.
  Nodes live on an explicit heap at even, non-zero addresses; a pointer is a number whose bit 0
  is the mark, 0 is \<open>NULL\<close>. A \<open>Node**\<close> is a cell: the member \<open>head_\<close>, the parameter \<open>start\<close> of
  the overloads the hash table calls (a variable on the stack of the call), or the \<open>next\<close> field
  of a node. Access to a node that was deleted, and a loop that never ends, are \<open>None\<close>. This
  theory runs each call to its end before the next one starts; a failed compare-and-swap and the
  \<open>goto try_again\<close> paths are part of the definitions.
\<close>

section \<open>State\<close>

record ('k, 'v) lf_node =
  lf_data :: 'k
  lf_next :: nat
  lf_value :: 'v

record ('k, 'v) lf_list =
  lf_heap :: "nat \<rightharpoonup> ('k, 'v) lf_node"
  lf_head :: nat
  lf_start :: nat
  lf_hps :: hazard
  lf_brk :: nat

datatype cell_ref = HeadCell | StartCell | NextOf nat

record lookup_context =
  ctx_prev :: cell_ref
  ctx_cur :: nat
  ctx_next :: nat

section \<open>Memory\<close>

fun read_cell :: "cell_ref \<Rightarrow> ('k, 'v) lf_list \<Rightarrow> nat option" where
  "read_cell HeadCell s = Some (lf_head s)"
| "read_cell StartCell s = Some (lf_start s)"
| "read_cell (NextOf a) s = map_option lf_next (lf_heap s a)"

fun write_cell :: "cell_ref \<Rightarrow> nat \<Rightarrow> ('k, 'v) lf_list \<Rightarrow> ('k, 'v) lf_list option" where
  "write_cell HeadCell p s = Some (s\<lparr>lf_head := p\<rparr>)"
| "write_cell StartCell p s = Some (s\<lparr>lf_start := p\<rparr>)"
| "write_cell (NextOf a) p s =
     map_option (\<lambda>n. s\<lparr>lf_heap := (lf_heap s)(a \<mapsto> n\<lparr>lf_next := p\<rparr>)\<rparr>) (lf_heap s a)"

definition cas_cell :: "cell_ref \<Rightarrow> nat \<Rightarrow> nat \<Rightarrow> ('k, 'v) lf_list \<Rightarrow> (bool \<times> ('k, 'v) lf_list) option" where
  "cas_cell c old new s =
     do {
       v \<leftarrow> read_cell c s;
       if v = old then map_option (\<lambda>s'. (True, s')) (write_cell c new s) else Some (False, s) }"

definition new_node :: "('k, 'v) lf_node \<Rightarrow> ('k, 'v) lf_list \<Rightarrow> nat \<times> ('k, 'v) lf_list" where
  "new_node n s =
     (let a = 2 * lf_brk s + 2
      in (a, s\<lparr>lf_heap := (lf_heap s)(a \<mapsto> n), lf_brk := lf_brk s + 1\<rparr>))"

definition delete_nodes :: "nat set \<Rightarrow> ('k, 'v) lf_list \<Rightarrow> ('k, 'v) lf_list option" where
  "delete_nodes F s =
     (if \<forall>p \<in> F. lf_heap s p \<noteq> None then Some (s\<lparr>lf_heap := lf_heap s |` (- F)\<rparr>) else None)"

definition retire :: "nat \<Rightarrow> nat \<Rightarrow> ('k, 'v) lf_list \<Rightarrow> ('k, 'v) lf_list option" where
  "retire t p s =
     (case retireNode t p (lf_hps s) of (F, hz) \<Rightarrow> delete_nodes F (s\<lparr>lf_hps := hz\<rparr>))"

definition swap_hp :: "nat \<Rightarrow> hazard \<Rightarrow> hazard" where
  "swap_hp t hz = (let hp = getHPRec t hz in set_hp t 1 (hp ! 0) (set_hp t 0 (hp ! 1) hz))"

section \<open>Operations\<close>

definition LockFreeList_new :: "(nat \<Rightarrow> nat \<Rightarrow> nat) \<Rightarrow> nat \<Rightarrow> ('k, 'v) lf_list" where
  "LockFreeList_new junk n =
     \<lparr>lf_heap = Map.empty, lf_head = 0, lf_start = 0, lf_hps = HazardPointers_new 2 junk n, lf_brk = 0\<rparr>"

text \<open>The loop of \<open>lookupInternal\<close>, entered with \<open>prev\<close>, \<open>cur\<close> and \<open>next\<close>.\<close>

partial_function (option) lookup_loop ::
  "nat \<Rightarrow> cell_ref \<Rightarrow> 'k :: linorder \<Rightarrow> cell_ref \<Rightarrow> nat \<Rightarrow> nat \<Rightarrow> ('k, 'v) lf_list \<Rightarrow>
    (bool \<times> lookup_context \<times> ('k, 'v) lf_list) option" where
  "lookup_loop t start key prev cur nxt s =
     (if cur = 0 then Some (False, \<lparr>ctx_prev = prev, ctx_cur = cur, ctx_next = nxt\<rparr>, s)
      else do {
        s1 \<leftarrow> Some (s\<lparr>lf_hps := set_hp t 0 cur (lf_hps s)\<rparr>);
        p \<leftarrow> read_cell prev s1;
        if p \<noteq> cur
        then do { c \<leftarrow> read_cell start s1; lookup_loop t start key start c nxt s1 }
        else do {
          n \<leftarrow> lf_heap s1 cur;
          if mp_isMarked (lf_next n)
          then do {
            (ok, s2) \<leftarrow> cas_cell prev cur (mp_unmark (lf_next n)) s1;
            if \<not> ok
            then do { c \<leftarrow> read_cell start s2; lookup_loop t start key start c (lf_next n) s2 }
            else do {
              s3 \<leftarrow> retire t cur s2;
              lookup_loop t start key prev (mp_unmark (lf_next n)) (lf_next n) s3 } }
          else do {
            p' \<leftarrow> read_cell prev s1;
            if p' \<noteq> cur
            then do { c \<leftarrow> read_cell start s1; lookup_loop t start key start c (lf_next n) s1 }
            else if lf_data n \<ge> key
            then Some (lf_data n = key, \<lparr>ctx_prev = prev, ctx_cur = cur, ctx_next = lf_next n\<rparr>, s1)
            else lookup_loop t start key (NextOf cur) (lf_next n) (lf_next n)
                   (s1\<lparr>lf_hps := swap_hp t (lf_hps s1)\<rparr>) } } })"

declare lookup_loop.simps [simp del]

definition lookupInternal ::
  "nat \<Rightarrow> cell_ref \<Rightarrow> 'k :: linorder \<Rightarrow> ('k, 'v) lf_list \<Rightarrow>
    (bool \<times> lookup_context \<times> ('k, 'v) lf_list) option" where
  "lookupInternal t start key s =
     do { c \<leftarrow> read_cell start s; lookup_loop t start key start c 0 s }"

text \<open>
  The \<open>while (true)\<close> loop of the two \<open>insert\<close> overloads: the node that holds the key
  afterwards, and whether it is the new one.
\<close>

partial_function (option) insert_loop ::
  "nat \<Rightarrow> cell_ref \<Rightarrow> 'k :: linorder \<Rightarrow> nat \<Rightarrow> ('k, 'v) lf_list \<Rightarrow>
    (bool \<times> nat \<times> ('k, 'v) lf_list) option" where
  "insert_loop t start key new s =
     do {
       (found, ctx, s1) \<leftarrow> lookupInternal t start key s;
       if found
       then do { s2 \<leftarrow> delete_nodes {new} s1; Some (False, ctx_cur ctx, s2) }
       else do {
         s2 \<leftarrow> write_cell (NextOf new) (ctx_cur ctx) s1;
         (ok, s3) \<leftarrow> cas_cell (ctx_prev ctx) (ctx_cur ctx) new s2;
         if ok then Some (True, new, s3) else insert_loop t start key new s3 } }"

declare insert_loop.simps [simp del]

definition LockFreeList_insert ::
  "nat \<Rightarrow> 'k :: linorder \<Rightarrow> ('k, 'v :: zero) lf_list \<Rightarrow> (bool \<times> ('k, 'v) lf_list) option" where
  "LockFreeList_insert t key s =
     (case new_node \<lparr>lf_data = key, lf_next = 0, lf_value = 0\<rparr> s of (new, s1) \<Rightarrow>
        map_option (\<lambda>(ins, _, s2). (ins, s2)) (insert_loop t HeadCell key new s1))"

definition LockFreeList_insert_at ::
  "nat \<Rightarrow> nat \<Rightarrow> 'k :: linorder \<Rightarrow> 'v \<Rightarrow> bool \<Rightarrow> ('k, 'v) lf_list \<Rightarrow> (nat \<times> ('k, 'v) lf_list) option" where
  "LockFreeList_insert_at t start key val flag s =
     (case new_node \<lparr>lf_data = key, lf_next = 0, lf_value = val\<rparr> (s\<lparr>lf_start := start\<rparr>) of (new, s1) \<Rightarrow>
        map_option (\<lambda>(ins, a, s2). (if ins \<or> flag then a else 0, s2))
          (insert_loop t StartCell key new s1))"

partial_function (option) remove_loop ::
  "nat \<Rightarrow> cell_ref \<Rightarrow> 'k :: linorder \<Rightarrow> ('k, 'v) lf_list \<Rightarrow> (bool \<times> ('k, 'v) lf_list) option" where
  "remove_loop t start key s =
     do {
       (found, ctx, s1) \<leftarrow> lookupInternal t start key s;
       if \<not> found then Some (False, s1)
       else do {
         (marked, s2) \<leftarrow> cas_cell (NextOf (ctx_cur ctx)) (ctx_next ctx) (mp_mark (ctx_next ctx)) s1;
         if \<not> marked then remove_loop t start key s2
         else do {
           (unlinked, s3) \<leftarrow> cas_cell (ctx_prev ctx) (ctx_cur ctx) (ctx_next ctx) s2;
           if unlinked
           then do { s4 \<leftarrow> retire t (ctx_cur ctx) s3; Some (True, s4) }
           else do { (_, _, s4) \<leftarrow> lookupInternal t start key s3; Some (True, s4) } } } }"

declare remove_loop.simps [simp del]

definition LockFreeList_remove ::
  "nat \<Rightarrow> 'k :: linorder \<Rightarrow> ('k, 'v) lf_list \<Rightarrow> (bool \<times> ('k, 'v) lf_list) option" where
  "LockFreeList_remove t key s = remove_loop t HeadCell key s"

definition LockFreeList_remove_at ::
  "nat \<Rightarrow> nat \<Rightarrow> 'k :: linorder \<Rightarrow> ('k, 'v) lf_list \<Rightarrow> (bool \<times> ('k, 'v) lf_list) option" where
  "LockFreeList_remove_at t start key s = remove_loop t StartCell key (s\<lparr>lf_start := start\<rparr>)"

definition LockFreeList_lookup ::
  "nat \<Rightarrow> 'k :: linorder \<Rightarrow> ('k, 'v) lf_list \<Rightarrow> (bool \<times> ('k, 'v) lf_list) option" where
  "LockFreeList_lookup t key s =
     map_option (\<lambda>(found, _, s1). (found, s1)) (lookupInternal t HeadCell key s)"

text \<open>The value is written only when the key is found: \<open>None\<close> leaves the caller's variable.\<close>

definition LockFreeList_lookup_at ::
  "nat \<Rightarrow> nat \<Rightarrow> 'k :: linorder \<Rightarrow> ('k, 'v) lf_list \<Rightarrow> ('v option \<times> ('k, 'v) lf_list) option" where
  "LockFreeList_lookup_at t start key s =
     do {
       (found, ctx, s1) \<leftarrow> lookupInternal t StartCell key (s\<lparr>lf_start := start\<rparr>);
       if found then do { n \<leftarrow> lf_heap s1 (ctx_cur ctx); Some (Some (lf_value n), s1) }
       else Some (None, s1) }"

definition LockFreeList_contains_at ::
  "nat \<Rightarrow> nat \<Rightarrow> 'k :: linorder \<Rightarrow> ('k, 'v) lf_list \<Rightarrow> (bool \<times> ('k, 'v) lf_list) option" where
  "LockFreeList_contains_at t start key s =
     map_option (\<lambda>(found, _, s1). (found, s1)) (lookupInternal t StartCell key (s\<lparr>lf_start := start\<rparr>))"

partial_function (option) lf_integrity_loop ::
  "'k :: linorder \<Rightarrow> nat \<Rightarrow> ('k, 'v) lf_list \<Rightarrow> bool option" where
  "lf_integrity_loop prev_element cur s =
     (if cur = 0 then Some True
      else do {
        n \<leftarrow> lf_heap s cur;
        if prev_element \<ge> lf_data n then Some False
        else lf_integrity_loop (lf_data n) (lf_next n) s })"

declare lf_integrity_loop.simps [simp del]

definition LockFreeList_checkIntegrity :: "('k :: linorder, 'v) lf_list \<Rightarrow> bool option" where
  "LockFreeList_checkIntegrity s =
     (if lf_head s = 0 then Some True
      else do { n \<leftarrow> lf_heap s (lf_head s); lf_integrity_loop (lf_data n) (lf_next n) s })"

partial_function (option) lf_free_all :: "nat \<Rightarrow> (nat \<rightharpoonup> ('k, 'v) lf_node) \<Rightarrow> (nat \<rightharpoonup> ('k, 'v) lf_node) option" where
  "lf_free_all p h =
     (if p = 0 then Some h
      else do { n \<leftarrow> h p; lf_free_all (lf_next n) (h(p := None)) })"

declare lf_free_all.simps [simp del]

text \<open>The destructor: the list's own nodes, then the members, of which \<open>hps_\<close> deletes the rest.\<close>

definition LockFreeList_destroy :: "('k, 'v) lf_list \<Rightarrow> (nat \<rightharpoonup> ('k, 'v) lf_node) option" where
  "LockFreeList_destroy s =
     do {
       h \<leftarrow> lf_free_all (lf_head s) (lf_heap s);
       map_option lf_heap (delete_nodes (HazardPointers_destroy (lf_hps s)) (s\<lparr>lf_heap := h\<rparr>)) }"

section \<open>Lists on the heap\<close>

type_synonym ('k, 'v) entry = "nat \<times> 'k \<times> 'v"

abbreviation entry_key :: "('k, 'v) entry \<Rightarrow> 'k" where
  "entry_key e \<equiv> fst (snd e)"

abbreviation entry_value :: "('k, 'v) entry \<Rightarrow> 'v" where
  "entry_value e \<equiv> snd (snd e)"

text \<open>A list without marked nodes from \<open>p\<close> to \<open>q\<close>.\<close>

fun lfseg :: "(nat \<rightharpoonup> ('k, 'v) lf_node) \<Rightarrow> nat \<Rightarrow> ('k, 'v) entry list \<Rightarrow> nat \<Rightarrow> bool" where
  "lfseg h p [] q \<longleftrightarrow> p = q"
| "lfseg h p ((a, k, v) # r) q \<longleftrightarrow>
     p = a \<and> a \<noteq> 0 \<and> even a \<and>
     (case h a of None \<Rightarrow> False
      | Some n \<Rightarrow> lf_data n = k \<and> lf_value n = v \<and> even (lf_next n) \<and> lfseg h (lf_next n) r q)"

lemma lfseg_append: "lfseg h p (xs @ ys) q \<longleftrightarrow> (\<exists>r. lfseg h p xs r \<and> lfseg h r ys q)"
  by (induction h p xs q rule: lfseg.induct) (auto split: option.split)

lemma lfseg_cong:
  "(\<And>a. a \<in> set (map fst ps) \<Longrightarrow> h' a = h a) \<Longrightarrow> lfseg h' p ps q = lfseg h p ps q"
  by (induction h p ps q rule: lfseg.induct) (auto split: option.split)

lemma lfseg_upd: "a \<notin> set (map fst ps) \<Longrightarrow> lfseg (h(a := x)) p ps q = lfseg h p ps q"
  by (rule lfseg_cong) auto

lemma lfseg_node: "lfseg h p ps q \<Longrightarrow> (a, k, v) \<in> set ps \<Longrightarrow>
    \<exists>n. h a = Some n \<and> lf_data n = k \<and> lf_value n = v \<and> a \<noteq> 0 \<and> even a"
  by (induction h p ps q rule: lfseg.induct) (auto split: option.splits)

lemma lfseg_dom: "lfseg h p ps q \<Longrightarrow> set (map fst ps) \<subseteq> dom h"
  by (fastforce dest: lfseg_node)

lemma lfseg_zero: "lfseg h 0 ps q \<Longrightarrow> ps = []"
  by (cases ps) auto

text \<open>Changes of the hazard pointers alone.\<close>

definition hz_rel :: "hazard \<Rightarrow> hazard \<Rightarrow> bool" where
  "hz_rel hz hz' \<longleftrightarrow> retired_lists hz' = retired_lists hz \<and> num_threads hz' = num_threads hz \<and>
     num_ptrs hz' = num_ptrs hz \<and> (\<forall>k n. hz_shape k n hz \<longrightarrow> hz_shape k n hz')"

lemma hz_rel_refl [simp]: "hz_rel hz hz"
  by (simp add: hz_rel_def)

lemma hz_rel_trans: "hz_rel a b \<Longrightarrow> hz_rel b c \<Longrightarrow> hz_rel a c"
  by (simp add: hz_rel_def)

lemma hz_rel_set_hp: "hz_rel hz (set_hp t j p hz)"
proof -
  have "\<forall>r \<in> set ((hp_recs hz)[t := (hp_recs hz ! t)[j := p]]). length r = k"
    if "\<forall>r \<in> set (hp_recs hz). length r = k" for k
    using that by (cases "t < length (hp_recs hz)")
      (auto simp: list_update_beyond not_less dest!: subsetD [OF set_update_subset_insert])
  then show ?thesis by (simp add: hz_rel_def set_hp_def getHPRec_def hz_shape_def)
qed

lemma hz_rel_swap: "hz_rel hz (swap_hp t hz)"
  unfolding swap_hp_def Let_def by (rule hz_rel_trans [OF hz_rel_set_hp hz_rel_set_hp])

section \<open>The search\<close>

text \<open>
  From a cell that points to an unmarked list, the search ends at the first key that is not
  smaller, with \<open>prev\<close> the cell that points to it, and changes hazard pointers only.
\<close>

definition search_ctx :: "'k :: linorder \<Rightarrow> cell_ref \<Rightarrow> ('k, 'v) entry list \<Rightarrow> nat \<Rightarrow> lookup_context" where
  "search_ctx key prev ps nxt =
     (let xs = takeWhile (\<lambda>e. entry_key e < key) ps; ys = dropWhile (\<lambda>e. entry_key e < key) ps
      in \<lparr>ctx_prev = (if xs = [] then prev else NextOf (fst (last xs))),
          ctx_cur = (case ys of [] \<Rightarrow> 0 | e # _ \<Rightarrow> fst e), ctx_next = nxt\<rparr>)"

definition search_found :: "'k :: linorder \<Rightarrow> ('k, 'v) entry list \<Rightarrow> bool" where
  "search_found key ps =
     (case dropWhile (\<lambda>e. entry_key e < key) ps of [] \<Rightarrow> False | e # _ \<Rightarrow> entry_key e = key)"

lemma search_ctx_Cons:
  "k < key \<Longrightarrow> search_ctx key prev ((a, k, v) # ps) nxt = search_ctx key (NextOf a) ps nxt"
  by (simp add: search_ctx_def Let_def)

lemma read_cell_hps [simp]: "read_cell c (s\<lparr>lf_hps := hz\<rparr>) = read_cell c s"
  by (cases c) auto

text \<open>One turn of the loop on an unmarked node that is still linked.\<close>

lemma lookup_loop_turn:
  assumes "cur \<noteq> 0" "read_cell prev s = Some cur" "lf_heap s cur = Some n" "even (lf_next n)"
    and "hz = set_hp t 0 cur (lf_hps s)"
  shows "lookup_loop t start key prev cur nxt s =
    (if lf_data n \<ge> key
     then Some (lf_data n = key, \<lparr>ctx_prev = prev, ctx_cur = cur, ctx_next = lf_next n\<rparr>, s\<lparr>lf_hps := hz\<rparr>)
     else lookup_loop t start key (NextOf cur) (lf_next n) (lf_next n) (s\<lparr>lf_hps := swap_hp t hz\<rparr>))"
  using assms by (subst lookup_loop.simps) simp

lemma lookup_loop_seg:
  "lfseg (lf_heap s) cur ps 0 \<Longrightarrow> read_cell prev s = Some cur \<Longrightarrow>
    \<exists>hz nxt'. lookup_loop t start key prev cur nxt s =
        Some (search_found key ps, search_ctx key prev ps nxt', s\<lparr>lf_hps := hz\<rparr>) \<and>
      hz_rel (lf_hps s) hz \<and>
      (\<forall>n. ctx_cur (search_ctx key prev ps nxt') \<noteq> 0 \<longrightarrow>
        lf_heap s (ctx_cur (search_ctx key prev ps nxt')) = Some n \<longrightarrow> nxt' = lf_next n)"
proof (induction ps arbitrary: prev cur nxt s)
  case Nil
  then have "lookup_loop t start key prev cur nxt s =
      Some (search_found key [], search_ctx key prev [] nxt, s\<lparr>lf_hps := lf_hps s\<rparr>)"
    by (subst lookup_loop.simps) (simp add: search_found_def search_ctx_def)
  then show ?case
    by (intro exI [of _ "lf_hps s"] exI [of _ nxt]) (auto simp: search_ctx_def Let_def)
next
  case (Cons e ps)
  obtain a k v where e: "e = (a, k, v)" by (cases e)
  obtain n where n: "cur = a" "a \<noteq> 0" "lf_heap s a = Some n" "lf_data n = k" "even (lf_next n)"
    "lfseg (lf_heap s) (lf_next n) ps 0"
    using Cons.prems(1) e by (auto split: option.splits)
  define hz1 where "hz1 = set_hp t 0 cur (lf_hps s)"
  have turn: "lookup_loop t start key prev cur nxt s =
      (if k \<ge> key
       then Some (k = key, \<lparr>ctx_prev = prev, ctx_cur = cur, ctx_next = lf_next n\<rparr>, s\<lparr>lf_hps := hz1\<rparr>)
       else lookup_loop t start key (NextOf cur) (lf_next n) (lf_next n) (s\<lparr>lf_hps := swap_hp t hz1\<rparr>))"
    using lookup_loop_turn [OF _ Cons.prems(2) _ _ hz1_def] n by simp
  show ?case
  proof (cases "k < key")
    case False
    then have "lookup_loop t start key prev cur nxt s =
        Some (search_found key (e # ps), search_ctx key prev (e # ps) (lf_next n), s\<lparr>lf_hps := hz1\<rparr>)"
      using n turn e False leI [OF False] by (simp add: search_found_def search_ctx_def)
    then show ?thesis
      using n e False hz_rel_set_hp [of "lf_hps s" t 0 cur]
      by (intro exI [of _ hz1] exI [of _ "lf_next n"]) (auto simp: search_ctx_def Let_def hz1_def)
  next
    case True
    define s' where "s' = s\<lparr>lf_hps := swap_hp t hz1\<rparr>"
    have step: "lookup_loop t start key prev cur nxt s =
        lookup_loop t start key (NextOf a) (lf_next n) (lf_next n) s'"
      using n turn True [folded not_le] by (simp add: s'_def)
    have "lfseg (lf_heap s') (lf_next n) ps 0" "read_cell (NextOf a) s' = Some (lf_next n)"
      using n by (simp_all add: s'_def)
    from Cons.IH [OF this, of "lf_next n"] obtain hz nxt' where IH:
      "lookup_loop t start key (NextOf a) (lf_next n) (lf_next n) s' =
        Some (search_found key ps, search_ctx key (NextOf a) ps nxt', s'\<lparr>lf_hps := hz\<rparr>)"
      "hz_rel (lf_hps s') hz"
      "\<forall>n. ctx_cur (search_ctx key (NextOf a) ps nxt') \<noteq> 0 \<longrightarrow>
        lf_heap s' (ctx_cur (search_ctx key (NextOf a) ps nxt')) = Some n \<longrightarrow> nxt' = lf_next n"
      by blast
    have "hz_rel (lf_hps s) hz"
      using IH(2) hz_rel_set_hp [of "lf_hps s" t 0 cur] hz_rel_swap [of hz1 t]
      by (auto simp: s'_def hz1_def intro: hz_rel_trans)
    then show ?thesis
      using IH step True e
      by (intro exI [of _ hz] exI [of _ nxt'])
        (simp add: search_ctx_Cons search_found_def s'_def)
  qed
qed

lemma lookupInternal_seg:
  assumes "read_cell start s = Some p" "lfseg (lf_heap s) p ps 0"
  obtains hz nxt where
    "lookupInternal t start key s = Some (search_found key ps, search_ctx key start ps nxt, s\<lparr>lf_hps := hz\<rparr>)"
    "hz_rel (lf_hps s) hz"
    "\<And>n. ctx_cur (search_ctx key start ps nxt) \<noteq> 0 \<Longrightarrow>
       lf_heap s (ctx_cur (search_ctx key start ps nxt)) = Some n \<Longrightarrow> nxt = lf_next n"
  using lookup_loop_seg [OF assms(2,1), of t start key 0] assms(1)
  unfolding lookupInternal_def by auto

section \<open>Relinking\<close>

text \<open>The cell the search stops at, when it starts from the cell \<open>c\<close>.\<close>

definition last_cell :: "cell_ref \<Rightarrow> ('k, 'v) entry list \<Rightarrow> cell_ref" where
  "last_cell c xs = (if xs = [] then c else NextOf (fst (last xs)))"

definition first_addr :: "('k, 'v) entry list \<Rightarrow> nat" where
  "first_addr ys = (case ys of [] \<Rightarrow> 0 | e # _ \<Rightarrow> fst e)"

lemma lfseg_first: "lfseg h p ys 0 \<Longrightarrow> p = first_addr ys"
  by (cases ys) (auto simp: first_addr_def)

lemma lfseg_first_even: "lfseg h p ys 0 \<Longrightarrow> even p"
  by (cases ys) auto

lemma lfseg_split: "lfseg h p (xs @ ys) 0 \<Longrightarrow> lfseg h p xs (first_addr ys) \<and> lfseg h (first_addr ys) ys 0"
  using lfseg_first by (fastforce simp: lfseg_append)

lemma read_last_cell:
  assumes "read_cell c s = Some p" "lfseg (lf_heap s) p xs r"
  shows "read_cell (last_cell c xs) s = Some r"
proof (cases xs rule: rev_cases)
  case Nil
  then show ?thesis using assms by (simp add: last_cell_def)
next
  case (snoc xs' e)
  obtain a k v where "e = (a, k, v)" by (cases e)
  then show ?thesis
    using assms(2) snoc by (auto simp: last_cell_def lfseg_append split: option.splits)
qed

text \<open>Writing a cell of a list replaces what follows it.\<close>

lemma write_cell_splice:
  assumes read: "read_cell c s = Some p" and c: "c = HeadCell \<or> c = StartCell"
    and seg: "lfseg (lf_heap s) p xs r" and zs: "lfseg (lf_heap s) q zs 0"
    and dist: "distinct (map fst (xs @ zs))"
  obtains s' where "write_cell (last_cell c xs) q s = Some s'"
    "read_cell c s' = Some (if xs = [] then q else p)"
    "lfseg (lf_heap s') (if xs = [] then q else p) (xs @ zs) 0"
    "\<And>a. xs = [] \<or> a \<noteq> fst (last xs) \<Longrightarrow> lf_heap s' a = lf_heap s a"
    "dom (lf_heap s') = dom (lf_heap s)"
    "lf_hps s' = lf_hps s" "lf_brk s' = lf_brk s" "c = StartCell \<or> xs \<noteq> [] \<Longrightarrow> lf_head s' = lf_head s"
proof (cases xs rule: rev_cases)
  case Nil
  then show ?thesis
    using that [of "if c = HeadCell then s\<lparr>lf_head := q\<rparr> else s\<lparr>lf_start := q\<rparr>"] c zs
    by (auto simp: last_cell_def)
next
  case (snoc xs' e)
  obtain a k v where e: "e = (a, k, v)" by (cases e)
  obtain n where n: "lfseg (lf_heap s) p xs' a" "a \<noteq> 0" "even a" "lf_heap s a = Some n"
      "lf_data n = k" "lf_value n = v"
    using seg snoc e by (auto simp: lfseg_append split: option.splits)
  have a: "a \<notin> set (map fst xs')" "a \<notin> set (map fst zs)" using dist snoc e by auto
  let ?h = "(lf_heap s)(a \<mapsto> n\<lparr>lf_next := q\<rparr>)"
  have "lfseg ?h p (xs @ zs) 0"
    using snoc e n a zs lfseg_first_even [OF zs] by (simp add: lfseg_append lfseg_upd)
  moreover have "insert a (dom (lf_heap s)) = dom (lf_heap s)" using n(4) by auto
  ultimately show ?thesis
    using that [of "s\<lparr>lf_heap := ?h\<rparr>"] n snoc e c read by (auto simp: last_cell_def)
qed

lemma hz_rel_inv:
  "hz_rel hz hz' \<Longrightarrow> hp_inv k n \<lparr>run_hz = hz, handed = H, freed = f\<rparr> \<Longrightarrow>
    hp_inv k n \<lparr>run_hz = hz', handed = H, freed = f\<rparr>"
  by (auto simp: hz_rel_def hp_inv_def Let_def HazardPointers_destroy_def)

lemma hz_rel_pending: "hz_rel hz hz' \<Longrightarrow> HazardPointers_destroy hz' = HazardPointers_destroy hz"
  by (simp add: hz_rel_def HazardPointers_destroy_def)

lemma retireNode_pending:
  assumes inv: "hp_inv k n \<lparr>run_hz = hz, handed = H, freed = f\<rparr>" and "t < n" "d \<notin> H"
    and ret: "retireNode t d hz = (F, hz')"
  shows "hp_inv k n \<lparr>run_hz = hz', handed = insert d H, freed = log_frees F f\<rparr>"
    and "HazardPointers_destroy hz' = insert d (HazardPointers_destroy hz) - F"
    and "F \<subseteq> insert d (HazardPointers_destroy hz)"
proof -
  have step: "hp_step \<lparr>run_hz = hz, handed = H, freed = f\<rparr>
      \<lparr>run_hz = hz', handed = insert d H, freed = log_frees F f\<rparr>"
    using step_retire [of t "\<lparr>run_hz = hz, handed = H, freed = f\<rparr>" d F hz'] assms
    by (simp add: hp_inv_def Let_def hz_shape_def)
  show inv': "hp_inv k n \<lparr>run_hz = hz', handed = insert d H, freed = log_frees F f\<rparr>"
    using hp_step_inv [OF step inv] .
  have "f p = of_bool (p \<in> H \<and> p \<notin> HazardPointers_destroy hz)"
      "log_frees F f p = of_bool (p \<in> insert d H \<and> p \<notin> HazardPointers_destroy hz')"
      "HazardPointers_destroy hz \<subseteq> H" "HazardPointers_destroy hz' \<subseteq> insert d H" for p
    using inv inv' by (simp_all add: hp_inv_def Let_def)
  note facts = this
  have "p \<in> HazardPointers_destroy hz' \<longleftrightarrow> p \<in> insert d (HazardPointers_destroy hz) - F"
      "p \<in> F \<longrightarrow> p \<in> insert d (HazardPointers_destroy hz)" for p
    using facts(1,2) [of p] facts(3,4) assms(3)
    by (auto simp: log_frees_def of_bool_def split: if_splits)
  then show "HazardPointers_destroy hz' = insert d (HazardPointers_destroy hz) - F"
    "F \<subseteq> insert d (HazardPointers_destroy hz)" by blast+
qed

section \<open>The state between calls\<close>

text \<open>
  With \<open>n\<close> threads and the list rooted at \<open>p\<close>: sorted, unmarked, its nodes disjoint from the
  retired ones, and no other node is live.
\<close>

definition lf_core :: "nat \<Rightarrow> ('k :: linorder, 'v) lf_list \<Rightarrow> nat \<Rightarrow> ('k, 'v) entry list \<Rightarrow> bool" where
  "lf_core n s p ps \<longleftrightarrow>
     lfseg (lf_heap s) p ps 0 \<and> distinct (map fst ps) \<and> sorted_wrt (<) (map entry_key ps) \<and>
     (\<exists>H f. hp_inv 2 n \<lparr>run_hz = lf_hps s, handed = H, freed = f\<rparr> \<and>
        H \<inter> set (map fst ps) = {} \<and> (\<forall>a \<in> H. a \<le> 2 * lf_brk s)) \<and>
     dom (lf_heap s) = set (map fst ps) \<union> HazardPointers_destroy (lf_hps s) \<and>
     (\<forall>a \<in> dom (lf_heap s). a \<le> 2 * lf_brk s)"

text \<open>
  A call that starts from the cell \<open>c\<close>, which points into the list: either \<open>c\<close> is \<open>head_\<close>
  and the whole list follows, or the list behind \<open>c\<close> begins with a smaller key, so that \<open>c\<close>
  itself is not written.
\<close>

definition anchored :: "cell_ref \<Rightarrow> 'k :: linorder \<Rightarrow> ('k, 'v) lf_list \<Rightarrow> nat \<Rightarrow>
    ('k, 'v) entry list \<Rightarrow> ('k, 'v) entry list \<Rightarrow> bool" where
  "anchored c key s p pre suf \<longleftrightarrow>
     (\<exists>q. read_cell c s = Some q \<and> lfseg (lf_heap s) q suf 0) \<and>
     (c = HeadCell \<and> pre = [] \<and> p = lf_head s \<or>
      c = StartCell \<and> (\<exists>e r. suf = e # r \<and> entry_key e < key))"

definition root :: "cell_ref \<Rightarrow> ('k, 'v) lf_list \<Rightarrow> nat \<Rightarrow> nat" where
  "root c s p = (if c = HeadCell then lf_head s else p)"

lemma search_found_sorted:
  "sorted_wrt (<) (map entry_key ps) \<Longrightarrow> search_found key ps \<longleftrightarrow> key \<in> entry_key ` set ps"
proof (induction ps)
  case (Cons e ps)
  consider "entry_key e < key" | "entry_key e = key" | "key < entry_key e" by (rule linorder_cases)
  then show ?case
    using Cons by cases (auto simp: search_found_def)
qed (simp add: search_found_def)

lemma lf_core_suffix:
  "lf_core n s p (pre @ suf) \<Longrightarrow> sorted_wrt (<) (map entry_key suf) \<and> distinct (map fst suf)"
  by (simp add: lf_core_def sorted_wrt_append)

lemma search_ctx_cells:
  "ctx_prev (search_ctx key c ps nxt) = last_cell c (takeWhile (\<lambda>e. entry_key e < key) ps)"
  "ctx_cur (search_ctx key c ps nxt) = first_addr (dropWhile (\<lambda>e. entry_key e < key) ps)"
  "ctx_next (search_ctx key c ps nxt) = nxt"
  by (simp_all add: search_ctx_def last_cell_def first_addr_def Let_def)

lemma lookupInternal_core:
  assumes core: "lf_core n s p (pre @ suf)" and anch: "anchored c key s p pre suf"
  obtains hz nxt where
    "lookupInternal t c key s = Some (key \<in> entry_key ` set suf, search_ctx key c suf nxt, s\<lparr>lf_hps := hz\<rparr>)"
    "hz_rel (lf_hps s) hz"
    "\<And>n. ctx_cur (search_ctx key c suf nxt) \<noteq> 0 \<Longrightarrow>
       lf_heap s (ctx_cur (search_ctx key c suf nxt)) = Some n \<Longrightarrow> nxt = lf_next n"
proof -
  obtain q where q: "read_cell c s = Some q" "lfseg (lf_heap s) q suf 0"
    using anch by (auto simp: anchored_def)
  have sorted: "sorted_wrt (<) (map entry_key suf)" using lf_core_suffix [OF core] by blast
  show ?thesis
    by (rule lookupInternal_seg [OF q, of t key], rule that)
      (simp_all add: search_found_sorted [OF sorted])
qed

lemma lf_core_hps:
  assumes "lf_core n s p ps" "hz_rel (lf_hps s) hz"
  shows "lf_core n (s\<lparr>lf_hps := hz\<rparr>) p ps"
proof -
  obtain H f where "hp_inv 2 n \<lparr>run_hz = lf_hps s, handed = H, freed = f\<rparr>"
    "H \<inter> set (map fst ps) = {}" "\<forall>a \<in> H. a \<le> 2 * lf_brk s"
    using assms(1) unfolding lf_core_def by blast
  then have "\<exists>H f. hp_inv 2 n \<lparr>run_hz = hz, handed = H, freed = f\<rparr> \<and>
      H \<inter> set (map fst ps) = {} \<and> (\<forall>a \<in> H. a \<le> 2 * lf_brk s)"
    using hz_rel_inv [OF assms(2)] by blast
  then show ?thesis
    using assms by (simp add: lf_core_def hz_rel_pending)
qed

lemma lf_core_start: "lf_core n s p ps \<Longrightarrow> lf_core n (s\<lparr>lf_start := q\<rparr>) p ps"
  by (simp add: lf_core_def)

section \<open>Insertion\<close>

text \<open>
  The whole list after a change behind the cell \<open>c\<close>: its part before \<open>c\<close> is untouched.
\<close>

lemma whole_list:
  assumes "lf_core n s p (pre @ suf)" "anchored c key s p pre suf"
    and "read_cell c s' = Some q'" "lfseg (lf_heap s') q' qs 0"
    and "\<And>b. b \<in> set (map fst pre) \<Longrightarrow> lf_heap s' b = lf_heap s b"
    and "read_cell c s = Some q" "c = StartCell \<Longrightarrow> q' = q"
  shows "lfseg (lf_heap s') (root c s' p) (pre @ qs) 0"
proof (cases "c = HeadCell")
  case True
  then show ?thesis using assms(2-4) by (auto simp: anchored_def root_def)
next
  case False
  then have c: "c = StartCell" using assms(2) by (auto simp: anchored_def)
  have "lfseg (lf_heap s) q suf 0" using assms(2,6) by (auto simp: anchored_def)
  then have "q = first_addr suf" by (rule lfseg_first)
  moreover obtain r where r: "lfseg (lf_heap s) p pre r" "lfseg (lf_heap s) r suf 0"
    using assms(1) by (auto simp: lf_core_def lfseg_append)
  ultimately have "lfseg (lf_heap s) p pre q" using lfseg_first by metis
  then have "lfseg (lf_heap s') p pre q"
    using lfseg_cong [of pre "lf_heap s'" "lf_heap s" p q] assms(5) by simp
  then show ?thesis using assms(4,7) c by (auto simp: root_def lfseg_append)
qed

text \<open>A key that belongs between \<open>xs\<close> and \<open>ys\<close> of a sorted list.\<close>

lemma sorted_insert:
  fixes key :: "'k :: linorder"
  assumes "sorted_wrt (<) (map entry_key (pre @ suf))" "key \<notin> entry_key ` set suf"
    and "xs = takeWhile (\<lambda>e. entry_key e < key) suf" "ys = dropWhile (\<lambda>e. entry_key e < key) suf"
    and "pre = [] \<or> (\<exists>e r. suf = e # r \<and> entry_key e < key)"
  shows "sorted_wrt (<) (map entry_key (pre @ xs @ (a, key, v) # ys))"
proof -
  have suf: "suf = xs @ ys" using assms(3,4) by simp
  have xs: "\<forall>e \<in> set xs. entry_key e < key" using assms(3) by (auto dest: set_takeWhileD)
  have pre: "\<forall>e \<in> set pre. entry_key e < key"
  proof (cases "pre = []")
    case False
    then obtain e r where e: "suf = e # r" "entry_key e < key" using assms(5) by blast
    then have "\<forall>x \<in> set pre. entry_key x < entry_key e" using assms(1) by (simp add: sorted_wrt_append)
    then show ?thesis using e(2) less_trans by blast
  qed simp
  have hd: "ys \<noteq> [] \<Longrightarrow> key < entry_key (hd ys)"
  proof -
    assume "ys \<noteq> []"
    then have "\<not> entry_key (hd ys) < key"
      using hd_dropWhile [of "\<lambda>e. entry_key e < key" suf] unfolding assms(4) by blast
    moreover have "hd ys \<in> set suf" using \<open>ys \<noteq> []\<close> unfolding suf by simp
    ultimately show "key < entry_key (hd ys)" using assms(2) by (metis image_eqI linorder_cases)
  qed
  then have ys: "\<forall>e \<in> set ys. key < entry_key e"
  proof (cases ys)
    case (Cons e r)
    then have "\<forall>x \<in> set r. entry_key e < entry_key x"
      using assms(1) unfolding suf by (simp add: sorted_wrt_append)
    then show ?thesis using hd Cons less_trans by auto
  qed simp
  show ?thesis using assms(1) xs pre ys unfolding suf by (auto simp: sorted_wrt_append)
qed

lemma insert_loop_absent:
  assumes core: "lf_core n s p (pre @ suf)" and anch: "anchored c key s p pre suf"
    and absent: "key \<notin> entry_key ` set suf"
    and new: "new_node \<lparr>lf_data = key, lf_next = 0, lf_value = v\<rparr> s = (a, s1)"
    and xs: "xs = takeWhile (\<lambda>e. entry_key e < key) suf"
    and ys: "ys = dropWhile (\<lambda>e. entry_key e < key) suf"
  obtains s' where "insert_loop t c key a s1 = Some (True, a, s')"
    "lf_core n s' (root c s' p) (pre @ xs @ (a, key, v) # ys)"
    "c = StartCell \<Longrightarrow> lf_head s' = lf_head s"
proof -
  let ?nn = "\<lparr>lf_data = key, lf_next = 0, lf_value = v\<rparr>"
  note C = core [unfolded lf_core_def]
  have s1: "s1 = s\<lparr>lf_heap := (lf_heap s)(a \<mapsto> ?nn), lf_brk := lf_brk s + 1\<rparr>" "a = 2 * lf_brk s + 2"
    using new by (auto simp: new_node_def Let_def)
  have bound: "\<forall>b \<in> dom (lf_heap s). b \<le> 2 * lf_brk s" "set (map fst (pre @ suf)) \<subseteq> dom (lf_heap s)"
    using C by blast+
  moreover have "\<not> a \<le> 2 * lf_brk s" using s1(2) by simp
  ultimately have fresh: "a \<notin> dom (lf_heap s)" "a \<notin> set (map fst (pre @ suf))" by blast+
  obtain q where q: "read_cell c s = Some q" "lfseg (lf_heap s) q suf 0"
    using anch by (auto simp: anchored_def)
  have "read_cell c s1 = Some q" "lfseg (lf_heap s1) q suf 0"
    using q fresh anch s1 by (auto simp: anchored_def lfseg_upd)
  note q1 = this
  have suf: "suf = xs @ ys" "sorted_wrt (<) (map entry_key suf)"
    using xs ys lf_core_suffix [OF core] by auto
  obtain hz nxt where look: "lookupInternal t c key s1 =
      Some (search_found key suf, search_ctx key c suf nxt, s1\<lparr>lf_hps := hz\<rparr>)" "hz_rel (lf_hps s1) hz"
    by (rule lookupInternal_seg [OF q1, of t key])
  have nf: "\<not> search_found key suf" using absent search_found_sorted [OF suf(2)] by simp
  define s2 where "s2 = s1\<lparr>lf_hps := hz, lf_heap := (lf_heap s)(a \<mapsto> ?nn\<lparr>lf_next := first_addr ys\<rparr>)\<rparr>"
  have wr: "write_cell (NextOf a) (first_addr ys) (s1\<lparr>lf_hps := hz\<rparr>) = Some s2"
    using s1 by (simp add: s2_def)
  have ys_seg: "lfseg (lf_heap s) (first_addr ys) ys 0" "lfseg (lf_heap s) q xs (first_addr ys)"
    using q(2) lfseg_split unfolding suf(1) by blast+
  then have q2: "read_cell c s2 = Some q" "lfseg (lf_heap s2) q xs (first_addr ys)"
    using q fresh anch s1 suf(1) by (auto simp: anchored_def lfseg_upd s2_def)
  have zs: "lfseg (lf_heap s2) a ((a, key, v) # ys) 0"
    using fresh s1(2) suf(1) lfseg_first_even [OF ys_seg(1)] ys_seg(1) by (simp add: s2_def lfseg_upd)
  have dist: "distinct (map fst (xs @ (a, key, v) # ys))"
    using C fresh suf(1) by auto
  have c: "c = HeadCell \<or> c = StartCell" using anch by (auto simp: anchored_def)
  from write_cell_splice [OF q2(1) c q2(2) zs dist]
  obtain s' where s': "write_cell (last_cell c xs) a s2 = Some s'"
    "read_cell c s' = Some (if xs = [] then a else q)"
    "lfseg (lf_heap s') (if xs = [] then a else q) (xs @ (a, key, v) # ys) 0"
    "\<And>b. xs = [] \<or> b \<noteq> fst (last xs) \<Longrightarrow> lf_heap s' b = lf_heap s2 b"
    "dom (lf_heap s') = dom (lf_heap s2)"
    "lf_hps s' = lf_hps s2" "lf_brk s' = lf_brk s2" "c = StartCell \<or> xs \<noteq> [] \<Longrightarrow> lf_head s' = lf_head s2"
    by blast
  have code: "insert_loop t c key a s1 = Some (True, a, s')"
    using look(1) nf wr s'(1) read_last_cell [OF q2]
    by (subst insert_loop.simps) (simp add: search_ctx_cells xs [symmetric] ys [symmetric] cas_cell_def
        del: write_cell.simps)
  have seg: "lfseg (lf_heap s') (root c s' p) (pre @ xs @ (a, key, v) # ys) 0"
  proof (rule whole_list [OF core anch])
    show "read_cell c s' = Some (if xs = [] then a else q)" by (rule s'(2))
    show "lfseg (lf_heap s') (if xs = [] then a else q) (xs @ (a, key, v) # ys) 0" by (rule s'(3))
    show "lf_heap s' b = lf_heap s b" if "b \<in> set (map fst pre)" for b
    proof -
      have "b \<noteq> a" "xs \<noteq> [] \<Longrightarrow> b \<noteq> fst (last xs)"
        using that fresh(2) C suf(1) last_in_set [of xs] by auto
      then show ?thesis using s'(4) [of b] by (cases "xs = []") (auto simp: s2_def)
    qed
    show "read_cell c s = Some q" by (rule q(1))
    show "c = StartCell \<Longrightarrow> (if xs = [] then a else q) = q" using anch xs by (auto simp: anchored_def)
  qed
  have keys: "sorted_wrt (<) (map entry_key (pre @ xs @ (a, key, v) # ys))"
    using C sorted_insert [OF _ absent xs ys] anch by (auto simp: anchored_def)
  obtain H f where H: "hp_inv 2 n \<lparr>run_hz = lf_hps s, handed = H, freed = f\<rparr>"
    "H \<inter> set (map fst (pre @ suf)) = {}" "\<forall>a \<in> H. a \<le> 2 * lf_brk s"
    using C by blast
  have hz: "hz_rel (lf_hps s) (lf_hps s')" using look(2) s'(6) by (simp add: s1 s2_def)
  have "a \<notin> H" using H(3) s1(2) by auto
  then have H': "H \<inter> set (map fst (pre @ xs @ (a, key, v) # ys)) = {}" using H(2) suf(1) by auto
  have "lf_core n s' (root c s' p) (pre @ xs @ (a, key, v) # ys)"
    unfolding lf_core_def
  proof (intro conjI exI)
    show "hp_inv 2 n \<lparr>run_hz = lf_hps s', handed = H, freed = f\<rparr>" using hz_rel_inv [OF hz H(1)] .
    show "distinct (map fst (pre @ xs @ (a, key, v) # ys))" using C fresh(2) suf(1) by auto
    show "dom (lf_heap s') = set (map fst (pre @ xs @ (a, key, v) # ys)) \<union> HazardPointers_destroy (lf_hps s')"
      using C s'(5) suf(1) hz_rel_pending [OF hz] by (auto simp: s2_def)
    have "dom (lf_heap s') = insert a (dom (lf_heap s))" "lf_brk s' = Suc (lf_brk s)"
      using s'(5,7) s1 by (auto simp: s2_def)
    note eq = this
    show "\<forall>a \<in> dom (lf_heap s'). a \<le> 2 * lf_brk s'"
    proof
      fix b assume "b \<in> dom (lf_heap s')"
      then have "b = a \<or> b \<in> dom (lf_heap s)" unfolding eq by blast
      then have "b \<le> 2 * lf_brk s + 2" using bound(1) s1(2) by (metis le_refl trans_le_add1)
      then show "b \<le> 2 * lf_brk s'" unfolding eq by simp
    qed
    show "\<forall>a \<in> H. a \<le> 2 * lf_brk s'" using H(3) s'(7) s1 by (auto simp: s2_def)
  qed (fact seg keys H')+
  then show ?thesis using that code s'(8) by (simp add: s2_def s1)
qed

lemma insert_loop_present:
  assumes core: "lf_core n s p (pre @ suf)" and anch: "anchored c key s p pre suf"
    and present: "key \<in> entry_key ` set suf"
    and new: "new_node \<lparr>lf_data = key, lf_next = 0, lf_value = v\<rparr> s = (a, s1)"
  obtains s' where
    "insert_loop t c key a s1 =
      Some (False, first_addr (dropWhile (\<lambda>e. entry_key e < key) suf), s')"
    "lf_core n s' p (pre @ suf)" "lf_head s' = lf_head s"
proof -
  let ?nn = "\<lparr>lf_data = key, lf_next = 0, lf_value = v\<rparr>"
  note C = core [unfolded lf_core_def]
  have s1: "s1 = s\<lparr>lf_heap := (lf_heap s)(a \<mapsto> ?nn), lf_brk := lf_brk s + 1\<rparr>" "a = 2 * lf_brk s + 2"
    using new by (auto simp: new_node_def Let_def)
  have bound: "\<forall>b \<in> dom (lf_heap s). b \<le> 2 * lf_brk s" "set (map fst (pre @ suf)) \<subseteq> dom (lf_heap s)"
    using C by blast+
  moreover have "\<not> a \<le> 2 * lf_brk s" using s1(2) by simp
  ultimately have fresh: "a \<notin> dom (lf_heap s)" "a \<notin> set (map fst (pre @ suf))" by blast+
  obtain q where q: "read_cell c s = Some q" "lfseg (lf_heap s) q suf 0"
    using anch by (auto simp: anchored_def)
  have q1: "read_cell c s1 = Some q" "lfseg (lf_heap s1) q suf 0"
    using q fresh anch s1 by (auto simp: anchored_def lfseg_upd)
  obtain hz nxt where look: "lookupInternal t c key s1 =
      Some (search_found key suf, search_ctx key c suf nxt, s1\<lparr>lf_hps := hz\<rparr>)" "hz_rel (lf_hps s1) hz"
    by (rule lookupInternal_seg [OF q1, of t key])
  have found: "search_found key suf"
    using present search_found_sorted lf_core_suffix [OF core] by blast
  define s' where "s' = s\<lparr>lf_hps := hz, lf_brk := lf_brk s + 1\<rparr>"
  have "((lf_heap s)(a \<mapsto> ?nn)) |` (- {a}) = lf_heap s"
    using fresh(1) by (auto simp: restrict_map_def fun_eq_iff domIff)
  then have code: "insert_loop t c key a s1 =
      Some (False, first_addr (dropWhile (\<lambda>e. entry_key e < key) suf), s')"
    using look(1) found s1
    by (subst insert_loop.simps) (simp add: search_ctx_cells delete_nodes_def s'_def)
  have "lf_core n (s\<lparr>lf_brk := lf_brk s + 1\<rparr>) p (pre @ suf)"
  proof -
    have "\<forall>b \<in> dom (lf_heap s). b \<le> 2 * (lf_brk s + 1)" 
    proof
      fix b assume "b \<in> dom (lf_heap s)"
      with bound(1) have "b \<le> 2 * lf_brk s" by blast
      then show "b \<le> 2 * (lf_brk s + 1)" by simp
    qed
    moreover obtain H f where H: "hp_inv 2 n \<lparr>run_hz = lf_hps s, handed = H, freed = f\<rparr>"
      "H \<inter> set (map fst (pre @ suf)) = {}" "\<forall>a \<in> H. a \<le> 2 * lf_brk s"
      using C by blast
    moreover from H(3) have "\<forall>a \<in> H. a \<le> 2 * (lf_brk s + 1)" by auto
    ultimately have "\<exists>H f. hp_inv 2 n \<lparr>run_hz = lf_hps s, handed = H, freed = f\<rparr> \<and>
        H \<inter> set (map fst (pre @ suf)) = {} \<and> (\<forall>a \<in> H. a \<le> 2 * (lf_brk s + 1))"
      "\<forall>b \<in> dom (lf_heap s). b \<le> 2 * (lf_brk s + 1)" by blast+
    moreover have sel: "lf_heap (s\<lparr>lf_brk := lf_brk s + 1\<rparr>) = lf_heap s"
      "lf_hps (s\<lparr>lf_brk := lf_brk s + 1\<rparr>) = lf_hps s"
      "lf_brk (s\<lparr>lf_brk := lf_brk s + 1\<rparr>) = lf_brk s + 1"
      by simp_all
    ultimately show ?thesis using C unfolding lf_core_def sel by blast
  qed
  moreover have "s' = (s\<lparr>lf_brk := lf_brk s + 1\<rparr>)\<lparr>lf_hps := hz\<rparr>"
    unfolding s'_def by (rule lf_list.equality) simp_all
  ultimately have "lf_core n s' p (pre @ suf)"
    using lf_core_hps [of n "s\<lparr>lf_brk := lf_brk s + 1\<rparr>" p "pre @ suf" hz] look(2) s1 by simp
  then show ?thesis using that code by (simp add: s'_def)
qed

section \<open>Removal\<close>

lemma remove_loop_absent:
  assumes core: "lf_core n s p (pre @ suf)" and anch: "anchored c key s p pre suf"
    and absent: "key \<notin> entry_key ` set suf"
  obtains s' where "remove_loop t c key s = Some (False, s')" "lf_core n s' p (pre @ suf)"
    "lf_head s' = lf_head s"
proof (rule lookupInternal_core [OF core anch, of t])
  fix hz nxt
  assume "lookupInternal t c key s =
      Some (key \<in> entry_key ` set suf, search_ctx key c suf nxt, s\<lparr>lf_hps := hz\<rparr>)"
    and hz: "hz_rel (lf_hps s) hz"
  then have "remove_loop t c key s = Some (False, s\<lparr>lf_hps := hz\<rparr>)"
    using absent by (subst remove_loop.simps) simp
  then show thesis using that lf_core_hps [OF core hz] by simp
qed

text \<open>
  The removed node is marked, unlinked and handed to the hazard pointers, which may delete
  it or other retired nodes, but none of the list.
\<close>

lemma retire_core:
  assumes seg: "lfseg (lf_heap s) p ps 0" "distinct (map fst ps)" "sorted_wrt (<) (map entry_key ps)"
    and inv: "hp_inv 2 n \<lparr>run_hz = lf_hps s, handed = H, freed = f\<rparr>"
    and H: "H \<inter> set (map fst ps) = {}" "\<forall>a \<in> H. a \<le> 2 * lf_brk s"
    and d: "d \<notin> H" "d \<notin> set (map fst ps)" and t: "t < n"
    and dom: "dom (lf_heap s) = insert d (set (map fst ps) \<union> HazardPointers_destroy (lf_hps s))"
    and bound: "\<forall>a \<in> dom (lf_heap s). a \<le> 2 * lf_brk s"
  obtains s' where "retire t d s = Some s'" "lf_core n s' p ps" "lf_head s' = lf_head s"
proof -
  obtain F hz where ret: "retireNode t d (lf_hps s) = (F, hz)" by fastforce
  note R = retireNode_pending [OF inv t d(1) ret]
  define s' where "s' = s\<lparr>lf_hps := hz, lf_heap := lf_heap s |` (- F)\<rparr>"
  have pend: "HazardPointers_destroy (lf_hps s) \<subseteq> H" using inv by (simp add: hp_inv_def Let_def)
  have F: "F \<subseteq> dom (lf_heap s)" "F \<inter> set (map fst ps) = {}"
    using R(3) dom pend H(1) d(2) by blast+
  have "retire t d s = Some s'"
    using ret F(1) by (auto simp: retire_def delete_nodes_def s'_def)
  moreover have "lf_core n s' p ps"
    unfolding lf_core_def
  proof (intro conjI exI)
    show "hp_inv 2 n \<lparr>run_hz = lf_hps s', handed = insert d H, freed = log_frees F f\<rparr>"
      using R(1) by (simp add: s'_def)
    have "lf_heap s' a = lf_heap s a" if "a \<in> set (map fst ps)" for a
      using that F(2) by (auto simp: s'_def restrict_map_def)
    then show "lfseg (lf_heap s') p ps 0"
      using seg(1) lfseg_cong [of ps "lf_heap s'" "lf_heap s" p 0] by blast
    show "dom (lf_heap s') = set (map fst ps) \<union> HazardPointers_destroy (lf_hps s')"
      using dom R(2) F(2) by (auto simp: s'_def)
    show "insert d H \<inter> set (map fst ps) = {}" using H(1) d(2) by auto
    show "\<forall>a \<in> insert d H. a \<le> 2 * lf_brk s'" using H(2) bound dom by (auto simp: s'_def)
    show "\<forall>a \<in> dom (lf_heap s'). a \<le> 2 * lf_brk s'" using bound by (auto simp: s'_def)
  qed (fact seg)+
  ultimately show ?thesis using that by (simp add: s'_def)
qed

lemma remove_loop_present:
  assumes core: "lf_core n s p (pre @ xs @ (d, key, v) # ys)"
    and anch: "anchored c key s p pre (xs @ (d, key, v) # ys)" and t: "t < n"
    and xs: "\<forall>e \<in> set xs. entry_key e < key"
  obtains s' where "remove_loop t c key s = Some (True, s')" "lf_core n s' (root c s' p) (pre @ xs @ ys)"
    "c = StartCell \<Longrightarrow> lf_head s' = lf_head s"
proof -
  let ?suf = "xs @ (d, key, v) # ys"
  note C = core [unfolded lf_core_def]
  obtain q where q: "read_cell c s = Some q" "lfseg (lf_heap s) q ?suf 0"
    using anch by (auto simp: anchored_def)
  have c: "c = HeadCell \<or> c = StartCell" using anch by (auto simp: anchored_def)
  have tw: "takeWhile (\<lambda>e. entry_key e < key) ?suf = xs"
    "dropWhile (\<lambda>e. entry_key e < key) ?suf = (d, key, v) # ys"
    using takeWhile_then [OF xs, of "(d, key, v)" ys] by simp_all
  obtain m where m: "lf_heap s d = Some m" "even (lf_next m)" "lfseg (lf_heap s) (lf_next m) ys 0" "d \<noteq> 0"
    using q(2) by (auto simp: lfseg_append split: option.splits)
  have dist: "distinct (map fst (pre @ xs @ ys))" "d \<notin> set (map fst (pre @ xs @ ys))" using C by auto
  obtain hz nxt where look: "lookupInternal t c key s = Some (True, search_ctx key c ?suf nxt, s\<lparr>lf_hps := hz\<rparr>)"
    "hz_rel (lf_hps s) hz" "nxt = lf_next m"
    by (rule lookupInternal_core [OF core anch, of t])
      (use m tw in \<open>auto simp: search_ctx_cells first_addr_def\<close>)
  define s2 where "s2 = s\<lparr>lf_hps := hz, lf_heap := (lf_heap s)(d \<mapsto> m\<lparr>lf_next := Suc (lf_next m)\<rparr>)\<rparr>"
  have cas1: "cas_cell (NextOf d) (lf_next m) (mp_mark (lf_next m)) (s\<lparr>lf_hps := hz\<rparr>) = Some (True, s2)"
    using m by (simp add: cas_cell_def s2_def)
  have xs_seg: "lfseg (lf_heap s) q xs d" using lfseg_split [OF q(2)] by (simp add: first_addr_def)
  then have q2: "lfseg (lf_heap s2) q xs d" "read_cell c s2 = Some q" "lfseg (lf_heap s2) (lf_next m) ys 0"
    using q(1) m c dist(2) by (auto simp: s2_def lfseg_upd)
  have dxy: "distinct (map fst (xs @ ys))" using dist(1) by auto
  from write_cell_splice [OF q2(2) c q2(1,3) dxy]
  obtain s3 where s3: "write_cell (last_cell c xs) (lf_next m) s2 = Some s3"
    "read_cell c s3 = Some (if xs = [] then lf_next m else q)"
    "lfseg (lf_heap s3) (if xs = [] then lf_next m else q) (xs @ ys) 0"
    "\<And>b. xs = [] \<or> b \<noteq> fst (last xs) \<Longrightarrow> lf_heap s3 b = lf_heap s2 b"
    "dom (lf_heap s3) = dom (lf_heap s2)"
    "lf_hps s3 = lf_hps s2" "lf_brk s3 = lf_brk s2" "c = StartCell \<or> xs \<noteq> [] \<Longrightarrow> lf_head s3 = lf_head s2"
    by blast
  have cas2: "cas_cell (last_cell c xs) d (lf_next m) s2 = Some (True, s3)"
    using s3(1) read_last_cell [OF q2(2,1)] by (simp add: cas_cell_def)
  have seg: "lfseg (lf_heap s3) (root c s3 p) (pre @ xs @ ys) 0"
  proof (rule whole_list [OF core anch s3(2,3) _ q(1)])
    show "lf_heap s3 b = lf_heap s b" if "b \<in> set (map fst pre)" for b
    proof -
      have "b \<noteq> d" "xs \<noteq> [] \<Longrightarrow> b \<noteq> fst (last xs)"
        using that C last_in_set [of xs] by auto
      then show ?thesis using s3(4) [of b] by (cases "xs = []") (auto simp: s2_def)
    qed
    show "c = StartCell \<Longrightarrow> (if xs = [] then lf_next m else q) = q" using anch by (auto simp: anchored_def)
  qed
  obtain H f where H: "hp_inv 2 n \<lparr>run_hz = lf_hps s, handed = H, freed = f\<rparr>"
    "H \<inter> set (map fst (pre @ ?suf)) = {}" "\<forall>a \<in> H. a \<le> 2 * lf_brk s"
    using C by blast
  have hz: "hz_rel (lf_hps s) (lf_hps s3)" using look(2) s3(6) by (simp add: s2_def)
  have dom3: "dom (lf_heap s3) = dom (lf_heap s)" "lf_brk s3 = lf_brk s" using s3(5,7) m(1) by (auto simp: s2_def)
  have sorted: "sorted_wrt (<) (map entry_key (pre @ xs @ ys))" using C by (auto simp: sorted_wrt_append)
  obtain s4 where s4: "retire t d s3 = Some s4" "lf_core n s4 (root c s3 p) (pre @ xs @ ys)"
    "lf_head s4 = lf_head s3"
  proof (rule retire_core [OF seg dist(1) sorted hz_rel_inv [OF hz H(1)] _ _ _ dist(2) t])
    show "H \<inter> set (map fst (pre @ xs @ ys)) = {}" "d \<notin> H" using H(2) by auto
    show "\<forall>a \<in> H. a \<le> 2 * lf_brk s3" using H(3) dom3 by simp
    show "dom (lf_heap s3) = insert d (set (map fst (pre @ xs @ ys)) \<union> HazardPointers_destroy (lf_hps s3))"
      using C dom3 hz_rel_pending [OF hz] by auto
    show "\<forall>a \<in> dom (lf_heap s3). a \<le> 2 * lf_brk s3" unfolding dom3 using C by blast
  qed
  have "remove_loop t c key s = Some (True, s4)"
    using look(1) cas1 cas2 s4(1)
    by (subst remove_loop.simps) (simp add: search_ctx_cells tw first_addr_def look(3))
  moreover have "root c s3 p = root c s4 p" using s4(3) by (simp add: root_def)
  moreover have "c = StartCell \<Longrightarrow> lf_head s4 = lf_head s" using s4(3) s3(8) by (simp add: s2_def)
  ultimately show ?thesis using that s4(2) by simp
qed

section \<open>The class implements a set\<close>

definition lf_inv :: "nat \<Rightarrow> ('k :: linorder, 'v) lf_list \<Rightarrow> bool" where
  "lf_inv n s \<longleftrightarrow> (\<exists>ps. lf_core n s (lf_head s) ps)"

text \<open>The keys of the live nodes that are not retired.\<close>

definition lf_keys :: "('k, 'v) lf_list \<Rightarrow> 'k set" where
  "lf_keys s = {lf_data m | a m. lf_heap s a = Some m \<and> a \<notin> HazardPointers_destroy (lf_hps s)}"

lemma lf_core_disjoint:
  "lf_core n s p ps \<Longrightarrow> HazardPointers_destroy (lf_hps s) \<inter> set (map fst ps) = {}"
proof -
  assume c: "lf_core n s p ps"
  then obtain H f where "hp_inv 2 n \<lparr>run_hz = lf_hps s, handed = H, freed = f\<rparr>"
    "H \<inter> set (map fst ps) = {}"
    unfolding lf_core_def by blast
  then show ?thesis by (auto simp: hp_inv_def Let_def)
qed

lemma lf_keys_core:
  assumes c: "lf_core n s p ps"
  shows "lf_keys s = entry_key ` set ps"
proof -
  have seg: "lfseg (lf_heap s) p ps 0" and dom: "dom (lf_heap s) = set (map fst ps) \<union> HazardPointers_destroy (lf_hps s)"
    using c by (auto simp: lf_core_def)
  note disj = lf_core_disjoint [OF c]
  show ?thesis
  proof (intro equalityI subsetI)
    fix k assume "k \<in> lf_keys s"
    then obtain a m where m: "lf_heap s a = Some m" "lf_data m = k" "a \<notin> HazardPointers_destroy (lf_hps s)"
      by (auto simp: lf_keys_def)
    then have "a \<in> set (map fst ps)" using dom by auto
    then obtain k' v where e: "(a, k', v) \<in> set ps" by auto
    then show "k \<in> entry_key ` set ps" using m lfseg_node [OF seg e] by force
  next
    fix k assume "k \<in> entry_key ` set ps"
    then obtain a v where e: "(a, k, v) \<in> set ps" by auto
    then have "a \<notin> HazardPointers_destroy (lf_hps s)" using disj by force
    then show "k \<in> lf_keys s" using lfseg_node [OF seg e] by (auto simp: lf_keys_def)
  qed
qed

lemma anchored_head: "lf_core n s (lf_head s) ps \<Longrightarrow> anchored HeadCell key s (lf_head s) [] ps"
  by (simp add: anchored_def lf_core_def)

lemma set_parts:
  "set (takeWhile P ps @ e # dropWhile P ps) = insert e (set ps)"
  by (metis Un_insert_right list.simps(15) set_append takeWhile_dropWhile_id)

lemma LockFreeList_insert_law:
  assumes "lf_inv n s"
  shows "\<exists>s'. LockFreeList_insert t k s = Some (k \<notin> lf_keys s, s') \<and> lf_inv n s' \<and>
    lf_keys s' = insert k (lf_keys s)"
proof -
  obtain ps where core: "lf_core n s (lf_head s) ([] @ ps)" using assms by (auto simp: lf_inv_def)
  then have anch: "anchored HeadCell k s (lf_head s) [] ps" using anchored_head by simp
  obtain a s1 where new: "new_node \<lparr>lf_data = k, lf_next = 0, lf_value = 0\<rparr> s = (a, s1)" by fastforce
  have keys: "lf_keys s = entry_key ` set ps" using lf_keys_core [OF core] by simp
  show ?thesis
  proof (cases "k \<in> lf_keys s")
    case True
    obtain s' where "insert_loop t HeadCell k a s1 =
        Some (False, first_addr (dropWhile (\<lambda>e. entry_key e < k) ps), s')"
      "lf_core n s' (lf_head s) ([] @ ps)" "lf_head s' = lf_head s"
      by (rule insert_loop_present [OF core anch True [unfolded keys] new, of t])
    note s' = this
    have "lf_keys s' = lf_keys s" using lf_keys_core [OF s'(2)] keys by simp
    moreover have "lf_inv n s'" using s'(2,3) by (auto simp: lf_inv_def)
    ultimately show ?thesis using True new s'(1) by (auto simp: LockFreeList_insert_def)
  next
    case False
    let ?ps = "takeWhile (\<lambda>e. entry_key e < k) ps @ (a, k, 0) # dropWhile (\<lambda>e. entry_key e < k) ps"
    obtain s' where s': "insert_loop t HeadCell k a s1 = Some (True, a, s')"
      "lf_core n s' (root HeadCell s' (lf_head s)) ([] @ ?ps)"
      by (rule insert_loop_absent [OF core anch False [unfolded keys] new refl refl, of t])
    from lf_keys_core [OF s'(2)] have "lf_keys s' = entry_key ` set ?ps" by simp
    also have "\<dots> = insert k (lf_keys s)" unfolding set_parts keys by simp
    finally show ?thesis
      using s' False new by (auto simp: LockFreeList_insert_def lf_inv_def root_def)
  qed
qed

lemma LockFreeList_remove_law:
  assumes "lf_inv n s" "t < n"
  shows "\<exists>s'. LockFreeList_remove t k s = Some (k \<in> lf_keys s, s') \<and> lf_inv n s' \<and>
    lf_keys s' = lf_keys s - {k}"
proof -
  obtain ps where core: "lf_core n s (lf_head s) ([] @ ps)" using assms by (auto simp: lf_inv_def)
  then have anch: "anchored HeadCell k s (lf_head s) [] ps" using anchored_head by simp
  have keys: "lf_keys s = entry_key ` set ps" using lf_keys_core [OF core] by simp
  show ?thesis
  proof (cases "k \<in> lf_keys s")
    case False
    obtain s' where "remove_loop t HeadCell k s = Some (False, s')" "lf_core n s' (lf_head s) ([] @ ps)"
      "lf_head s' = lf_head s"
      by (rule remove_loop_absent [OF core anch False [unfolded keys], of t])
    note s' = this
    have "lf_keys s' = lf_keys s" using lf_keys_core [OF s'(2)] keys by simp
    moreover have "lf_inv n s'" using s'(2,3) by (auto simp: lf_inv_def)
    ultimately show ?thesis using False s'(1) by (auto simp: LockFreeList_remove_def)
  next
    case True
    then obtain d v xs ys where ps: "ps = xs @ (d, k, v) # ys" unfolding keys by (auto dest: split_list)
    have sorted: "sorted_wrt (<) (map entry_key ps)" using core by (simp add: lf_core_def)
    then have xs: "\<forall>e \<in> set xs. entry_key e < k" and nk: "k \<notin> entry_key ` set (xs @ ys)"
      unfolding ps by (auto simp: sorted_wrt_append)
    obtain s' where s': "remove_loop t HeadCell k s = Some (True, s')"
      "lf_core n s' (root HeadCell s' (lf_head s)) ([] @ xs @ ys)"
      by (rule remove_loop_present [OF core [unfolded ps] anch [unfolded ps] assms(2) xs])
    from lf_keys_core [OF s'(2)] have "lf_keys s' = entry_key ` set (xs @ ys)" by simp
    also have "\<dots> = lf_keys s - {k}" using nk unfolding keys ps by auto
    finally show ?thesis using s' True by (auto simp: LockFreeList_remove_def lf_inv_def root_def)
  qed
qed

lemma LockFreeList_lookup_law:
  assumes "lf_inv n s"
  shows "\<exists>s'. LockFreeList_lookup t k s = Some (k \<in> lf_keys s, s') \<and> lf_inv n s' \<and> lf_keys s' = lf_keys s"
proof -
  obtain ps where core: "lf_core n s (lf_head s) ([] @ ps)" using assms by (auto simp: lf_inv_def)
  then have anch: "anchored HeadCell k s (lf_head s) [] ps" using anchored_head by simp
  have keys: "lf_keys s = entry_key ` set ps" using lf_keys_core [OF core] by simp
  show ?thesis
  proof (rule lookupInternal_core [OF core anch, of t])
    fix hz nxt
    assume l: "lookupInternal t HeadCell k s =
        Some (k \<in> entry_key ` set ps, search_ctx k HeadCell ps nxt, s\<lparr>lf_hps := hz\<rparr>)"
      and "hz_rel (lf_hps s) hz"
    from lf_core_hps [OF core this(2)] show ?thesis
      using l keys lf_keys_core [of n "s\<lparr>lf_hps := hz\<rparr>" "lf_head s" ps]
      by (auto simp: LockFreeList_lookup_def lf_inv_def)
  qed
qed

interpretation lfl: set_adt LockFreeList_insert LockFreeList_remove LockFreeList_lookup lf_keys
  "lf_inv n" "\<lambda>t. t < n" for n
proof (unfold_locales, goal_cases)
  case (1 s t k)
  show ?case by (rule LockFreeList_insert_law [OF 1(1)])
next
  case (2 s t k)
  show ?case by (rule LockFreeList_remove_law [OF 2])
next
  case (3 s t k)
  show ?case by (rule LockFreeList_lookup_law [OF 3(1)])
qed

lemma lf_free_all_seg:
  "lfseg h p ps 0 \<Longrightarrow> distinct (map fst ps) \<Longrightarrow> lf_free_all p h = Some (h |` (- set (map fst ps)))"
proof (induction ps arbitrary: p h)
  case Nil
  then show ?case by (simp add: lf_free_all.simps)
next
  case (Cons e ps)
  obtain a k v where e: "e = (a, k, v)" by (cases e)
  then obtain n where n: "p = a" "a \<noteq> 0" "h a = Some n" "lfseg h (lf_next n) ps 0"
    using Cons.prems by (auto split: option.splits)
  have a: "a \<notin> set (map fst ps)" "distinct (map fst ps)" using Cons.prems e by auto
  then have "lf_free_all (lf_next n) (h(a := None)) = Some ((h(a := None)) |` (- set (map fst ps)))"
    using n(4) by (intro Cons.IH) (simp_all only: lfseg_upd [OF a(1)])
  also have "(h(a := None)) |` (- set (map fst ps)) = h |` (- set (map fst (e # ps)))"
    using e by (auto simp: restrict_map_def fun_eq_iff)
  finally show ?case
    by (subst lf_free_all.simps) (simp only: n if_False Option.bind.bind_lunit simp_thms)
qed

lemma LockFreeList_destroy_all:
  assumes "lf_inv n s"
  shows "LockFreeList_destroy s = Some Map.empty"
proof -
  obtain ps where core: "lf_core n s (lf_head s) ps" using assms by (auto simp: lf_inv_def)
  note C = core [unfolded lf_core_def] and disj = lf_core_disjoint [OF core]
  define h where "h = lf_heap s |` (- set (map fst ps))"
  have free: "lf_free_all (lf_head s) (lf_heap s) = Some h"
    unfolding h_def using C by (intro lf_free_all_seg) blast+
  have dom: "dom h = HazardPointers_destroy (lf_hps s)"
    using C disj by (auto simp: h_def)
  then have "\<forall>p \<in> HazardPointers_destroy (lf_hps s). h p \<noteq> None" by auto
  moreover have "h |` (- HazardPointers_destroy (lf_hps s)) = Map.empty"
    using dom by (auto simp: restrict_map_def fun_eq_iff domIff)
  ultimately show ?thesis
    using free by (simp add: LockFreeList_destroy_def delete_nodes_def)
qed

lemma lf_integrity_loop_seg:
  "lfseg (lf_heap s) p ps 0 \<Longrightarrow>
    lf_integrity_loop k p s = Some (sorted_wrt (<) (k # map entry_key ps))"
proof (induction ps arbitrary: p k)
  case Nil
  then show ?case by (simp add: lf_integrity_loop.simps)
next
  case (Cons e ps)
  obtain a k' v where e: "e = (a, k', v)" by (cases e)
  then obtain n where n: "p = a" "a \<noteq> 0" "lf_heap s a = Some n" "lf_data n = k'"
    "lfseg (lf_heap s) (lf_next n) ps 0"
    using Cons.prems by (auto split: option.splits)
  have step: "lf_integrity_loop k p s =
      (if k \<ge> k' then Some False else lf_integrity_loop k' (lf_next n) s)"
    using n by (subst lf_integrity_loop.simps) simp
  show ?case
    unfolding step Cons.IH [OF n(5)] using e by (auto simp: not_le dest: less_trans)
qed

lemma LockFreeList_checkIntegrity_inv:
  assumes "lf_inv n s"
  shows "LockFreeList_checkIntegrity s = Some True"
proof -
  obtain ps where C: "lfseg (lf_heap s) (lf_head s) ps 0" "sorted_wrt (<) (map entry_key ps)"
    using assms by (auto simp: lf_inv_def lf_core_def)
  show ?thesis
  proof (cases ps)
    case Nil
    then show ?thesis using C by (simp add: LockFreeList_checkIntegrity_def)
  next
    case (Cons e ps')
    obtain a k v where e: "e = (a, k, v)" by (cases e)
    then obtain m where m: "lf_head s = a" "a \<noteq> 0" "lf_heap s a = Some m" "lf_data m = k"
      "lfseg (lf_heap s) (lf_next m) ps' 0"
      using C Cons by (auto split: option.splits)
    have "sorted_wrt (<) (k # map entry_key ps')" using C(2) Cons e by simp
    then show ?thesis
      using m lf_integrity_loop_seg [OF m(5), of k] by (simp add: LockFreeList_checkIntegrity_def)
  qed
qed

lemma LockFreeList_new_inv:
  "lf_inv n (LockFreeList_new junk n :: ('k :: linorder, 'v) lf_list)"
  "lf_keys (LockFreeList_new junk n :: ('k, 'v) lf_list) = {}"
proof -
  have inv: "hp_inv 2 n \<lparr>run_hz = HazardPointers_new 2 junk n, handed = {}, freed = (\<lambda>_. 0)\<rparr>"
    by (rule hp_start_inv) (auto simp: hp_start_def)
  then have "HazardPointers_destroy (HazardPointers_new 2 junk n) = {}"
    by (simp add: hp_inv_def Let_def)
  then have "lf_core n (LockFreeList_new junk n :: ('k, 'v) lf_list) 0 []"
    using inv unfolding lf_core_def by (auto simp: LockFreeList_new_def)
  note core = this
  have "lf_head (LockFreeList_new junk n :: ('k, 'v) lf_list) = 0" by (simp add: LockFreeList_new_def)
  then show "lf_inv n (LockFreeList_new junk n :: ('k, 'v) lf_list)"
    unfolding lf_inv_def using core by metis
  show "lf_keys (LockFreeList_new junk n :: ('k, 'v) lf_list) = {}" using lf_keys_core [OF core] by simp
qed

section \<open>Properties\<close>

text \<open>
  C3. Calls by \<open>n\<close> threads, each run to its end, on a new \<open>LockFreeList\<close>: every call ends,
  no deleted node is ever touched, and the answers are those of the mathematical set, whatever
  the hazard pointers hold at the start. Then \<open>checkIntegrity\<close> is true and the destructor
  deletes every node that was allocated, retired ones included, leaving none.
\<close>

theorem LockFreeList_is_set:
  fixes cs :: "(nat \<times> 'k :: linorder set_call) list"
  assumes "\<forall>(t, c) \<in> set cs. t < n"
  shows "\<exists>s :: ('k, 'v :: zero) lf_list.
    set_run LockFreeList_insert LockFreeList_remove LockFreeList_lookup cs (LockFreeList_new junk n) =
      Some (fst (set_spec cs {}), s) \<and>
    lf_keys s = snd (set_spec cs {}) \<and> LockFreeList_checkIntegrity s = Some True \<and>
    LockFreeList_destroy s = Some Map.empty"
  using lfl.run_spec [OF LockFreeList_new_inv(1) assms] LockFreeList_destroy_all
    LockFreeList_checkIntegrity_inv
  unfolding LockFreeList_new_inv(2) by blast

theorem LockFreeList_is_set_witness:
  "\<exists>s :: (nat, nat) lf_list.
    set_run LockFreeList_insert LockFreeList_remove LockFreeList_lookup
      [(0, InsCall 5), (1, InsCall 3), (1, InsCall 5), (0, RemCall 3), (1, MemCall 3)]
      (LockFreeList_new (\<lambda>_ _. 0) 2) = Some ([True, True, False, True, False], s) \<and> lf_keys s = {5}"
  using LockFreeList_is_set [of "[(0, InsCall (5 :: nat)), (1, InsCall 3), (1, InsCall 5),
    (0, RemCall 3), (1, MemCall 3)]" 2 "\<lambda>_ _. 0", where ?'v = nat]
  by auto

end
