(* ===== verification/Split_Order.thy ===== *)
theory Split_Order
  imports Prelude
begin

text \<open>
  The key arithmetic of \<^verbatim>\<open>src/lock_free_hash_table.cpp\<close>: bit reversal, the split-order keys of
  entries and bucket sentinels, and the parent of a bucket.
\<close>

unbundle bit_operations_syntax

type_synonym key = "32 word"

fun reverse_loop :: "nat \<Rightarrow> key \<Rightarrow> key \<Rightarrow> key" where
  "reverse_loop 0 ret num = ret"
| "reverse_loop (Suc i) ret num = reverse_loop i (push_bit 1 ret OR (num AND 1)) (drop_bit 1 num)"

definition reverse :: "key \<Rightarrow> key" where
  "reverse num = reverse_loop 32 0 num"

definition so_regularkey :: "key \<Rightarrow> key" where
  "so_regularkey k = reverse (k OR 0x80000000)"

definition so_dummykey :: "key \<Rightarrow> key" where
  "so_dummykey k = reverse k"

function shift_count :: "nat \<Rightarrow> nat" where
  "shift_count temp = (if drop_bit 1 temp \<noteq> 0 then Suc (shift_count (drop_bit 1 temp)) else 0)"
  by pat_completeness auto
termination by (relation "measure id") (auto simp: drop_bit_eq_div)

declare shift_count.simps [simp del]

definition GET_PARENT :: "nat \<Rightarrow> nat" where
  "GET_PARENT index = index AND (2 ^ shift_count index - 1)"

section \<open>Split ordering\<close>

lemma bit_shift_in:
  fixes ret num :: key
  shows "bit (push_bit 1 ret OR (num AND 1)) j \<longleftrightarrow> j < 32 \<and> (if j = 0 then bit num 0 else bit ret (j - 1))"
proof -
  have "bit (push_bit 1 ret) j \<longleftrightarrow> 1 \<le> j \<and> j < 32 \<and> bit ret (j - 1)"
    by (simp only: bit_push_bit_iff possible_bit_word) auto
  moreover have "bit (num AND 1) j \<longleftrightarrow> j = 0 \<and> bit num 0"
    by (simp add: bit_and_iff bit_1_iff) auto
  ultimately show ?thesis by (auto simp only: bit_or_iff split: if_splits)
qed

lemma bit_reverse_loop:
  "n \<le> 32 \<Longrightarrow> bit (reverse_loop n ret num) i \<longleftrightarrow>
    i < 32 \<and> (if i < n then bit num (n - 1 - i) else bit ret (i - n))"
proof (induction n arbitrary: ret num)
  case 0
  then show ?case by (auto dest: bit_imp_le_length)
next
  case (Suc n)
  then have "bit (reverse_loop (Suc n) ret num) i \<longleftrightarrow>
      i < 32 \<and> (if i < n then bit num (n - i) else bit (push_bit 1 ret OR (num AND 1)) (i - n))"
    by (auto simp only: reverse_loop.simps Suc.IH bit_drop_bit_eq comp_def Suc_diff_Suc add_Suc
        add_0 One_nat_def diff_Suc_1 diff_diff_left split: if_splits)
  then show ?case by (simp only: bit_shift_in) auto
qed

lemma bit_reverse: "bit (reverse x) i \<longleftrightarrow> i < 32 \<and> bit x (31 - i)"
  by (simp add: reverse_def bit_reverse_loop)

lemma reverse_inj: "reverse x = reverse y \<longleftrightarrow> x = y"
proof
  assume eq: "reverse x = reverse y"
  show "x = y"
  proof (rule bit_word_eqI)
    fix n assume "n < LENGTH(32)"
    then have "31 - n < 32" "31 - (31 - n) = n" by simp_all
    then have "bit (reverse x) (31 - n) \<longleftrightarrow> bit x n" "bit (reverse y) (31 - n) \<longleftrightarrow> bit y n"
      by (simp_all only: bit_reverse simp_thms)
    then show "bit x n \<longleftrightarrow> bit y n" using eq by simp
  qed
qed simp

text \<open>Clearing bits of a key puts it earlier in the split order.\<close>

lemma reverse_mono:
  assumes "\<And>i. bit x i \<Longrightarrow> bit y i" "x \<noteq> y"
  shows "reverse x < reverse y"
proof -
  have "reverse x = reverse y AND reverse x"
    by (rule bit_word_eqI) (auto simp: bit_and_iff bit_reverse assms(1))
  then have "reverse x \<le> reverse y" by (metis word_and_le2)
  then show ?thesis using assms(2) reverse_inj by (simp add: order.strict_iff_order)
qed

lemma bit_top: "bit (0x80000000 :: key) i \<longleftrightarrow> i = 31"
proof -
  have "(0x80000000 :: key) = 2 ^ 31" by simp
  then show ?thesis by (simp only: bit_2_iff bit_exp_iff) auto
qed

lemma regular_odd: "bit (so_regularkey k) 0"
  by (simp add: so_regularkey_def bit_reverse bit_or_iff bit_top)

lemma below_top: "k < (0x80000000 :: key) \<Longrightarrow> \<not> bit k 31"
proof
  assume k: "k < (0x80000000 :: key)" and b: "bit k 31"
  have "0x80000000 = k AND 0x80000000"
    by (rule bit_word_eqI) (simp only: bit_and_iff bit_top, use b in auto)
  then have "0x80000000 \<le> k" by (metis word_and_le2)
  then show False using k by simp
qed

lemma regular_inj:
  assumes "k < 0x80000000" "k' < 0x80000000"
  shows "so_regularkey k = so_regularkey k' \<longleftrightarrow> k = k'"
proof
  assume "so_regularkey k = so_regularkey k'"
  then have eq: "k OR 0x80000000 = k' OR 0x80000000" by (simp add: so_regularkey_def reverse_inj)
  show "k = k'"
  proof (rule bit_word_eqI)
    fix n assume "n < LENGTH(32)"
    have "bit (k OR 0x80000000) n \<longleftrightarrow> bit (k' OR 0x80000000) n" using eq by simp
    then show "bit k n \<longleftrightarrow> bit k' n"
      using below_top [OF assms(1)] below_top [OF assms(2)]
      by (cases "n = 31") (simp_all only: bit_or_iff bit_top, simp_all)
  qed
qed simp

section \<open>Buckets and their parents\<close>

lemma shift_count_bounds:
  "index \<noteq> 0 \<Longrightarrow> 2 ^ shift_count index \<le> index \<and> index < 2 * 2 ^ shift_count index"
proof (induction index rule: shift_count.induct)
  case (1 index)
  show ?case
  proof (cases "index div 2 = 0")
    case True
    then have "index = 1" using "1.prems" by (simp add: div_eq_0_iff)
    then show ?thesis by (simp add: shift_count.simps)
  next
    case False
    then have "2 ^ shift_count (index div 2) \<le> index div 2 \<and> index div 2 < 2 * 2 ^ shift_count (index div 2)"
      using 1 by (simp add: drop_bit_eq_div)
    moreover have "shift_count index = Suc (shift_count (index div 2))"
      using False by (subst shift_count.simps) (simp add: drop_bit_eq_div)
    ultimately show ?thesis by auto
  qed
qed

lemma GET_PARENT_mod: "GET_PARENT index = index mod 2 ^ shift_count index"
  unfolding GET_PARENT_def mask_eq_exp_minus_1 [symmetric] take_bit_eq_mask [symmetric]
  by (rule take_bit_eq_mod)

lemma GET_PARENT_less: "index \<noteq> 0 \<Longrightarrow> GET_PARENT index < index"
  using shift_count_bounds [of index] mod_less_divisor [of "2 ^ shift_count index" index]
  unfolding GET_PARENT_mod by linarith

lemma bit_GET_PARENT: "bit (GET_PARENT index) i \<Longrightarrow> bit index i"
  by (simp add: GET_PARENT_def bit_and_iff)

lemma bit_key_of_nat: "bit (of_nat n :: key) i \<longleftrightarrow> i < 32 \<and> bit n i"
  by (simp add: bit_of_nat_iff)

lemma key_of_nat_inj: "m < 2 ^ 32 \<Longrightarrow> n < 2 ^ 32 \<Longrightarrow> (of_nat m :: key) = of_nat n \<longleftrightarrow> m = n"
  by (simp add: word_of_nat_eq_iff take_bit_nat_eq_self)

lemma dummy_parent_less:
  assumes "index \<noteq> 0" "index < 2 ^ 32"
  shows "so_dummykey (of_nat (GET_PARENT index)) < so_dummykey (of_nat index)"
  unfolding so_dummykey_def
proof (rule reverse_mono)
  show "bit (of_nat (GET_PARENT index) :: key) i \<Longrightarrow> bit (of_nat index :: key) i" for i
    using bit_GET_PARENT [of index i] by (simp only: bit_key_of_nat)
  show "(of_nat (GET_PARENT index) :: key) \<noteq> of_nat index"
    using GET_PARENT_less [OF assms(1)] assms(2) key_of_nat_inj [of "GET_PARENT index" index] by simp
qed

lemma dummy_even: "index < 2 ^ 31 \<Longrightarrow> \<not> bit (so_dummykey (of_nat index)) 0"
proof
  assume i: "index < 2 ^ 31" and b: "bit (so_dummykey (of_nat index)) 0"
  from b have "bit (of_nat index :: key) 31" by (simp add: so_dummykey_def bit_reverse)
  then have "bit index 31" by (simp only: bit_key_of_nat)
  then show False using i by (simp add: bit_iff_odd)
qed

text \<open>
  The keys whose bucket's sentinel precedes them, so that a search from the sentinel can find
  them. With 10000 buckets, which is not a power of two, that is not every key.
\<close>

definition well_bucketed :: "key \<Rightarrow> bool" where
  "well_bucketed k \<longleftrightarrow> so_dummykey (of_nat (unat k mod 10000)) < so_regularkey k"

lemma well_bucketed_small: "k < 10000 \<Longrightarrow> well_bucketed k"
proof -
  assume k: "k < 10000"
  then have "unat k mod 10000 = unat k" by (simp add: word_less_nat_alt)
  then have eq: "(of_nat (unat k mod 10000) :: key) = k" by simp
  have "k < 0x80000000" using k by (rule less_trans) simp
  then have "k \<noteq> k OR 0x80000000"
    using below_top [of k] bit_top [of 31] bit_or_iff [of k "0x80000000" 31] by auto
  then show ?thesis
    unfolding well_bucketed_def eq so_dummykey_def so_regularkey_def
    by (intro reverse_mono) (auto simp: bit_or_iff)
qed

end
