(* ===== verification/Lock_Free_Hash_Table.thy ===== *)
theory Lock_Free_Hash_Table
  imports Lock_Free_List Split_Order
begin

text \<open>
  \<^verbatim>\<open>src/lock_free_hash_table.hpp\<close>, \<^verbatim>\<open>src/lock_free_hash_table.cpp\<close>: the split-ordered hash
  table over the lock-free list. Keys, values and list keys are 32-bit words; indices and
  counters are natural numbers. The segments are maps from offsets to node addresses; an access
  beyond the segment table is \<open>None\<close>. Calls are run one after the other.
\<close>

type_synonym so_list = "(key, key) lf_list"

record hash_table =
  segment_table :: "nat \<Rightarrow> (nat \<Rightarrow> nat) option"
  ht_list :: so_list
  counter :: nat
  buckets_size :: nat

definition segment_size :: nat where "segment_size = 10000"
definition table_size :: nat where "table_size = 10000"
definition MAX_LOAD :: nat where "MAX_LOAD = 10"

definition LockFreeHashTable_new :: "(nat \<Rightarrow> nat \<Rightarrow> nat) \<Rightarrow> nat \<Rightarrow> hash_table" where
  "LockFreeHashTable_new junk n =
     \<lparr>segment_table = (\<lambda>_. None), ht_list = LockFreeList_new junk n, counter = 0, buckets_size = 10000\<rparr>"

definition get_bucket :: "nat \<Rightarrow> hash_table \<Rightarrow> nat option" where
  "get_bucket index ht =
     (let segment = index div segment_size
      in if segment < table_size
         then Some (case segment_table ht segment of None \<Rightarrow> 0 | Some seg \<Rightarrow> seg (index mod segment_size))
         else None)"

definition set_bucket :: "nat \<Rightarrow> nat \<Rightarrow> hash_table \<Rightarrow> hash_table option" where
  "set_bucket index node ht =
     (let segment = index div segment_size
      in if segment < table_size
         then let seg = (case segment_table ht segment of None \<Rightarrow> \<lambda>_. 0 | Some seg \<Rightarrow> seg)
              in Some (ht\<lparr>segment_table := (segment_table ht)(segment \<mapsto> seg(index mod segment_size := node))\<rparr>)
         else None)"

partial_function (option) initialize_bucket :: "nat \<Rightarrow> nat \<Rightarrow> hash_table \<Rightarrow> hash_table option" where
  "initialize_bucket t index ht =
     (if index \<noteq> 0
      then do {
        p \<leftarrow> get_bucket (GET_PARENT index) ht;
        ht1 \<leftarrow> (if p = 0 then initialize_bucket t (GET_PARENT index) ht else Some ht);
        start \<leftarrow> get_bucket (GET_PARENT index) ht1;
        (node, l) \<leftarrow> LockFreeList_insert_at t start (so_dummykey (of_nat index)) 0 True (ht_list ht1);
        set_bucket index node (ht1\<lparr>ht_list := l\<rparr>) }
      else do {
        start \<leftarrow> get_bucket index ht;
        (node, l) \<leftarrow> LockFreeList_insert_at t start (so_dummykey (of_nat index)) 0 True (ht_list ht);
        set_bucket index node (ht\<lparr>ht_list := l\<rparr>) })"

declare initialize_bucket.simps [simp del]

definition ensure_bucket :: "nat \<Rightarrow> nat \<Rightarrow> hash_table \<Rightarrow> (nat \<times> hash_table) option" where
  "ensure_bucket t index ht =
     do {
       b \<leftarrow> get_bucket index ht;
       ht1 \<leftarrow> (if b = 0 then initialize_bucket t index ht else Some ht);
       b1 \<leftarrow> get_bucket index ht1;
       Some (b1, ht1) }"

definition LockFreeHashTable_insert :: "nat \<Rightarrow> key \<Rightarrow> key \<Rightarrow> hash_table \<Rightarrow> (bool \<times> hash_table) option" where
  "LockFreeHashTable_insert t k v ht =
     do {
       (start, ht1) \<leftarrow> ensure_bucket t (unat k mod buckets_size ht) ht;
       (node, l) \<leftarrow> LockFreeList_insert_at t start (so_regularkey k) v False (ht_list ht1);
       if node = 0 then Some (False, ht1\<lparr>ht_list := l\<rparr>)
       else let csize = buckets_size ht1; c = counter ht1 + 1
            in Some (True, ht1\<lparr>ht_list := l, counter := c,
                 buckets_size := (if c div csize > MAX_LOAD then 2 * csize else csize)\<rparr>) }"

definition LockFreeHashTable_remove :: "nat \<Rightarrow> key \<Rightarrow> hash_table \<Rightarrow> (bool \<times> hash_table) option" where
  "LockFreeHashTable_remove t k ht =
     do {
       (start, ht1) \<leftarrow> ensure_bucket t (unat k mod table_size) ht;
       (found, l) \<leftarrow> LockFreeList_remove_at t start (so_regularkey k) (ht_list ht1);
       Some (found, ht1\<lparr>ht_list := l, counter := (if found then size_sub (counter ht1) 1 else counter ht1)\<rparr>) }"

text \<open>The reference parameter \<open>value\<close> is written only when the key is found.\<close>

definition LockFreeHashTable_lookup :: "nat \<Rightarrow> key \<Rightarrow> hash_table \<Rightarrow> (key option \<times> hash_table) option" where
  "LockFreeHashTable_lookup t k ht =
     do {
       (start, ht1) \<leftarrow> ensure_bucket t (unat k mod table_size) ht;
       (v, l) \<leftarrow> LockFreeList_lookup_at t start (so_regularkey k) (ht_list ht1);
       Some (v, ht1\<lparr>ht_list := l\<rparr>) }"

section \<open>Calls that start inside the list\<close>

text \<open>
  A call that starts at the node \<open>b\<close> of the list, whose key is smaller than the key in
  question.
\<close>

lemma anchored_inside:
  assumes core: "lf_core n s p ps" and b: "(b, k0, v0) \<in> set ps" and k: "k0 < key"
  obtains pre suf where "ps = pre @ suf" "lf_core n (s\<lparr>lf_start := b\<rparr>) p (pre @ suf)"
    "anchored StartCell key (s\<lparr>lf_start := b\<rparr>) p pre suf"
    "key \<in> entry_key ` set suf \<longleftrightarrow> key \<in> entry_key ` set ps"
proof -
  obtain pre r where ps: "ps = pre @ (b, k0, v0) # r" using b by (meson split_list)
  let ?suf = "(b, k0, v0) # r"
  have seg: "lfseg (lf_heap s) p (pre @ ?suf) 0" and sorted: "sorted_wrt (<) (map entry_key (pre @ ?suf))"
    using core ps by (simp_all add: lf_core_def)
  have "lfseg (lf_heap s) b ?suf 0" using lfseg_split [OF seg] by (simp add: first_addr_def)
  then have "anchored StartCell key (s\<lparr>lf_start := b\<rparr>) p pre ?suf"
    using k by (auto simp: anchored_def)
  moreover have "\<forall>e \<in> set pre. entry_key e < k0" using sorted by (simp add: sorted_wrt_append)
  then have "key \<notin> entry_key ` set pre" using k by fastforce
  ultimately show ?thesis
    using that [of pre ?suf] ps lf_core_start [OF core [unfolded ps]] by auto
qed

lemma entry_unique:
  assumes "lf_core n s p ps" "(a, k, v) \<in> set ps" "(a', k, v') \<in> set ps"
  shows "a = a' \<and> v = v'"
proof -
  have "distinct (map entry_key ps)"
    using assms(1) by (simp add: lf_core_def sorted_wrt_less_distinct)
  then have "inj_on entry_key (set ps)" by (simp add: distinct_map)
  from inj_onD [OF this _ assms(2,3)] show ?thesis by simp
qed

lemma first_of_key:
  fixes suf :: "('k :: linorder, 'v) entry list"
  assumes "sorted_wrt (<) (map entry_key suf)" "(a, key, v) \<in> set suf"
  shows "first_addr (dropWhile (\<lambda>e. entry_key e < key) suf) = a"
proof -
  obtain xs ys where suf: "suf = xs @ (a, key, v) # ys" using assms(2) by (meson split_list)
  have "\<forall>e \<in> set xs. entry_key e < key" using assms(1) unfolding suf by (simp add: sorted_wrt_append)
  then show ?thesis unfolding suf by (simp add: takeWhile_then first_addr_def)
qed

lemma lf_core_addr: "lf_core n s p ps \<Longrightarrow> (a, k, v) \<in> set ps \<Longrightarrow> a \<noteq> 0"
  using lfseg_node [of "lf_heap s" p ps 0 a k v] by (auto simp: lf_core_def)

lemma insert_at_core:
  assumes core: "lf_core n s p ps" and b: "(b, k0, v0) \<in> set ps" and k: "k0 < key"
  shows "\<exists>a w s' ps'. LockFreeList_insert_at t b key v flag s =
      Some (if key \<notin> entry_key ` set ps \<or> flag then a else 0, s') \<and>
    lf_core n s' p ps' \<and> (a, key, w) \<in> set ps' \<and>
    set ps' = (if key \<in> entry_key ` set ps then set ps else insert (a, key, v) (set ps))"
proof (rule anchored_inside [OF core b k])
  fix pre suf
  let ?s = "s\<lparr>lf_start := b\<rparr>"
  assume ps: "ps = pre @ suf" and core': "lf_core n ?s p (pre @ suf)"
    and anch: "anchored StartCell key ?s p pre suf"
    and mem: "key \<in> entry_key ` set suf \<longleftrightarrow> key \<in> entry_key ` set ps"
  obtain new s1 where new: "new_node \<lparr>lf_data = key, lf_next = 0, lf_value = v\<rparr> ?s = (new, s1)" by fastforce
  show ?thesis
  proof (cases "key \<in> entry_key ` set ps")
    case True
    then obtain a w where a: "(a, key, w) \<in> set suf" using mem by auto
    have first: "first_addr (dropWhile (\<lambda>e. entry_key e < key) suf) = a"
      by (rule first_of_key [OF conjunct1 [OF lf_core_suffix [OF core']] a])
    obtain s' where s': "insert_loop t StartCell key new s1 = Some (False, a, s')" "lf_core n s' p (pre @ suf)"
      by (rule insert_loop_present [OF core' anch True [folded mem] new, of t]) (use first in auto)
    then show ?thesis
      using True new a ps by (auto simp: LockFreeList_insert_at_def intro!: exI [of _ a] exI [of _ w] exI [of _ ps])
  next
    case False
    let ?ps = "pre @ takeWhile (\<lambda>e. entry_key e < key) suf @ (new, key, v) # dropWhile (\<lambda>e. entry_key e < key) suf"
    obtain s' where s': "insert_loop t StartCell key new s1 = Some (True, new, s')"
      "lf_core n s' (root StartCell s' p) ?ps"
      by (rule insert_loop_absent [OF core' anch False [folded mem] new refl refl, of t])
    have set: "set ?ps = insert (new, key, v) (set ps)"
      unfolding ps set_append [of pre] set_parts by auto
    show ?thesis
      using False new s' set
      by (intro exI [of _ new] exI [of _ v] exI [of _ s'] exI [of _ ?ps])
        (simp add: LockFreeList_insert_at_def root_def)
  qed
qed

lemma remove_at_core:
  assumes core: "lf_core n s p ps" and b: "(b, k0, v0) \<in> set ps" and k: "k0 < key" and t: "t < n"
  shows "\<exists>s' ps'. LockFreeList_remove_at t b key s = Some (key \<in> entry_key ` set ps, s') \<and>
    lf_core n s' p ps' \<and> set ps' = {e \<in> set ps. entry_key e \<noteq> key}"
proof (rule anchored_inside [OF core b k])
  fix pre suf
  let ?s = "s\<lparr>lf_start := b\<rparr>"
  assume ps: "ps = pre @ suf" and core': "lf_core n ?s p (pre @ suf)"
    and anch: "anchored StartCell key ?s p pre suf"
    and mem: "key \<in> entry_key ` set suf \<longleftrightarrow> key \<in> entry_key ` set ps"
  show ?thesis
  proof (cases "key \<in> entry_key ` set ps")
    case False
    obtain s' where s': "remove_loop t StartCell key ?s = Some (False, s')" "lf_core n s' p (pre @ suf)"
      by (rule remove_loop_absent [OF core' anch False [folded mem], of t])
    then show ?thesis
      using False ps by (intro exI [of _ s'] exI [of _ ps]) (auto simp: LockFreeList_remove_at_def)
  next
    case True
    then obtain d v xs ys where suf: "suf = xs @ (d, key, v) # ys"
      unfolding mem [symmetric] by (auto dest: split_list)
    have sorted: "sorted_wrt (<) (map entry_key (pre @ suf))" using core' by (simp add: lf_core_def)
    then have xs: "\<forall>e \<in> set xs. entry_key e < key"
      and set: "set (pre @ xs @ ys) = {e \<in> set ps. entry_key e \<noteq> key}"
      unfolding ps suf by (auto simp: sorted_wrt_append)
    obtain s' where s': "remove_loop t StartCell key ?s = Some (True, s')"
      "lf_core n s' (root StartCell s' p) (pre @ xs @ ys)"
      by (rule remove_loop_present [OF core' [unfolded suf] anch [unfolded suf] t xs])
    then show ?thesis
      using True set by (intro exI [of _ s'] exI [of _ "pre @ xs @ ys"])
        (simp add: LockFreeList_remove_at_def root_def)
  qed
qed

lemma lookup_at_core:
  assumes core: "lf_core n s p ps" and b: "(b, k0, v0) \<in> set ps" and k: "k0 < key"
  shows "\<exists>r s'. LockFreeList_lookup_at t b key s = Some (r, s') \<and> lf_core n s' p ps \<and>
    (case r of None \<Rightarrow> key \<notin> entry_key ` set ps | Some v \<Rightarrow> (\<exists>a. (a, key, v) \<in> set ps))"
proof (rule anchored_inside [OF core b k])
  fix pre suf
  let ?s = "s\<lparr>lf_start := b\<rparr>"
  assume ps: "ps = pre @ suf" and core': "lf_core n ?s p (pre @ suf)"
    and anch: "anchored StartCell key ?s p pre suf"
    and mem: "key \<in> entry_key ` set suf \<longleftrightarrow> key \<in> entry_key ` set ps"
  show ?thesis
  proof (rule lookupInternal_core [OF core' anch, of t])
    fix hz nxt
    let ?s' = "?s\<lparr>lf_hps := hz\<rparr>"
    assume look: "lookupInternal t StartCell key ?s =
        Some (key \<in> entry_key ` set suf, search_ctx key StartCell suf nxt, ?s')"
      and hz: "hz_rel (lf_hps ?s) hz"
    have core2: "lf_core n ?s' p ps" using lf_core_hps [OF core' hz] ps by simp
    show ?thesis
    proof (cases "key \<in> entry_key ` set ps")
      case False
      then show ?thesis
        using look mem core2 by (intro exI [of _ None] exI [of _ ?s']) (simp add: LockFreeList_lookup_at_def)
    next
      case True
      then obtain a v where a: "(a, key, v) \<in> set suf" using mem by auto
      have "first_addr (dropWhile (\<lambda>e. entry_key e < key) suf) = a"
        by (rule first_of_key [OF conjunct1 [OF lf_core_suffix [OF core']] a])
      moreover obtain m where "lf_heap s a = Some m" "lf_value m = v"
        using core lfseg_node [of "lf_heap s" p ps 0 a key v] a ps by (auto simp: lf_core_def)
      ultimately show ?thesis
        using look mem True core2 a ps
        by (intro exI [of _ "Some v"] exI [of _ ?s']) (auto simp: LockFreeList_lookup_at_def search_ctx_cells)
    qed
  qed
qed

section \<open>The table between calls\<close>

definition bucket :: "hash_table \<Rightarrow> nat \<Rightarrow> nat" where
  "bucket ht i = (case segment_table ht 0 of None \<Rightarrow> 0 | Some seg \<Rightarrow> seg i)"

lemma bucket_update [simp]:
  "bucket (ht\<lparr>ht_list := l\<rparr>) = bucket ht" "bucket (ht\<lparr>counter := c\<rparr>) = bucket ht"
  "bucket (ht\<lparr>buckets_size := z\<rparr>) = bucket ht"
  by (simp_all add: bucket_def fun_eq_iff)

lemma get_bucket_small: "i < 10000 \<Longrightarrow> get_bucket i ht = Some (bucket ht i)"
  by (simp add: get_bucket_def bucket_def segment_size_def table_size_def split: option.split)

lemma set_bucket_small:
  assumes "i < 10000"
  obtains ht' where "set_bucket i node ht = Some ht'" "bucket ht' = (bucket ht)(i := node)"
    "ht_list ht' = ht_list ht" "counter ht' = counter ht" "buckets_size ht' = buckets_size ht"
  using assms that
  by (auto simp: set_bucket_def bucket_def segment_size_def table_size_def Let_def fun_eq_iff
      split: option.split)

definition ht_rep :: "nat \<Rightarrow> hash_table \<Rightarrow> (key, key) entry list \<Rightarrow> bool" where
  "ht_rep n ht ps \<longleftrightarrow>
     lf_core n (ht_list ht) (bucket ht 0) ps \<and> buckets_size ht = 10000 \<and>
     (\<forall>i < 10000. bucket ht i \<noteq> 0 \<longrightarrow> (\<exists>v. (bucket ht i, so_dummykey (of_nat i), v) \<in> set ps))"

text \<open>The entries of the table proper, without the sentinels of the buckets.\<close>

definition regulars :: "(key, key) entry list \<Rightarrow> (key, key) entry set" where
  "regulars ps = {e \<in> set ps. bit (entry_key e) 0}"

lemma regulars_dummy:
  "i < 10000 \<Longrightarrow> set ps' = insert (a, so_dummykey (of_nat i), v) (set ps) \<Longrightarrow> regulars ps' = regulars ps"
  using dummy_even [of i] by (auto simp: regulars_def)

lemma ht_rep_empty:
  assumes "ht_rep n ht ps" "bucket ht 0 = 0"
  shows "ps = []" "i < 10000 \<Longrightarrow> bucket ht i = 0"
proof -
  show "ps = []" using assms lfseg_zero by (auto simp: ht_rep_def lf_core_def)
  then show "i < 10000 \<Longrightarrow> bucket ht i = 0" using assms by (auto simp: ht_rep_def)
qed

text \<open>The first call creates the list: the sentinel of bucket 0.\<close>

lemma insert_at_empty:
  assumes core: "lf_core n s 0 []"
  shows "\<exists>a s'. LockFreeList_insert_at t 0 key v True s = Some (a, s') \<and> a \<noteq> 0 \<and>
    lf_core n s' a [(a, key, v)]"
proof -
  let ?nn = "\<lparr>lf_data = key, lf_next = 0, lf_value = v\<rparr>"
  define a where "a = 2 * lf_brk s + 2"
  define s1 where "s1 = s\<lparr>lf_start := 0, lf_heap := (lf_heap s)(a \<mapsto> ?nn), lf_brk := lf_brk s + 1\<rparr>"
  define s' where "s' = s1\<lparr>lf_start := a\<rparr>"
  have new: "new_node ?nn (s\<lparr>lf_start := 0\<rparr>) = (a, s1)" by (simp add: new_node_def s1_def a_def)
  have look: "lookupInternal t StartCell key s1 =
      Some (False, \<lparr>ctx_prev = StartCell, ctx_cur = 0, ctx_next = 0\<rparr>, s1)"
    by (simp add: lookupInternal_def s1_def) (subst lookup_loop.simps, simp)
  have "write_cell (NextOf a) 0 s1 = Some s1" "read_cell StartCell s1 = Some 0" by (simp_all add: s1_def)
  then have "insert_loop t StartCell key a s1 = Some (True, a, s')"
    by (subst insert_loop.simps)
      (simp add: look cas_cell_def s'_def del: write_cell.simps(3) read_cell.simps)
  then have "LockFreeList_insert_at t 0 key v True s = Some (a, s')"
    unfolding LockFreeList_insert_at_def new by simp
  moreover have "lf_core n s' a [(a, key, v)]"
  proof -
    obtain H f where H: "hp_inv 2 n \<lparr>run_hz = lf_hps s, handed = H, freed = f\<rparr>" "\<forall>a \<in> H. a \<le> 2 * lf_brk s"
      using core unfolding lf_core_def by blast
    have "\<forall>a \<in> dom (lf_heap s). a \<le> 2 * lf_brk s" "dom (lf_heap s) = HazardPointers_destroy (lf_hps s)"
      using core by (auto simp: lf_core_def)
    note C = this
    have ex: "\<exists>H f. hp_inv 2 n \<lparr>run_hz = lf_hps s, handed = H, freed = f\<rparr> \<and> H \<inter> {a} = {} \<and>
        (\<forall>b \<in> H. b \<le> 2 * lf_brk s + 2)"
      using H by (intro exI [of _ H] exI [of _ f]) (fastforce simp: a_def)
    have "\<forall>b \<in> insert a (dom (lf_heap s)). b \<le> 2 * lf_brk s + 2"
    proof
      fix b assume "b \<in> insert a (dom (lf_heap s))"
      then have "b = a \<or> b \<le> 2 * lf_brk s" using C(1) by blast
      then show "b \<le> 2 * lf_brk s + 2" by (auto simp: a_def)
    qed
    then show ?thesis using ex C(2) by (simp add: lf_core_def s'_def s1_def a_def)
  qed
  ultimately show ?thesis by (auto simp: a_def)
qed

text \<open>Setting up a bucket, and those it descends from.\<close>

lemma ht_rep_set_bucket:
  assumes "lf_core n l (bucket ht' 0) ps" "ht_list ht' = l" "buckets_size ht' = 10000"
    and "\<And>j. j < 10000 \<Longrightarrow> j \<noteq> i \<Longrightarrow> bucket ht' j \<noteq> 0 \<Longrightarrow>
      \<exists>v. (bucket ht' j, so_dummykey (of_nat j), v) \<in> set ps"
    and "(bucket ht' i, so_dummykey (of_nat i), w) \<in> set ps"
  shows "ht_rep n ht' ps"
  using assms unfolding ht_rep_def by metis

lemma initialize_bucket_rep:
  assumes "ht_rep n ht ps" "index < 10000" "bucket ht index = 0"
  shows "\<exists>ht' ps'. initialize_bucket t index ht = Some ht' \<and> ht_rep n ht' ps' \<and>
    bucket ht' index \<noteq> 0 \<and> regulars ps' = regulars ps \<and> counter ht' = counter ht"
  using assms
proof (induction index arbitrary: ht ps rule: less_induct)
  case (less index)
  show ?case
  proof (cases "index = 0")
    case True
    then have b0: "bucket ht 0 = 0" and ps: "ps = []" using ht_rep_empty less.prems by auto
    have "lf_core n (ht_list ht) 0 []" using less.prems(1) b0 ps by (simp add: ht_rep_def)
    from insert_at_empty [OF this] obtain a l where ins:
      "LockFreeList_insert_at t 0 (so_dummykey (of_nat 0)) 0 True (ht_list ht) = Some (a, l)" "a \<noteq> 0"
      "lf_core n l a [(a, so_dummykey (of_nat 0), 0)]" by blast
    obtain ht' where ht': "set_bucket 0 a (ht\<lparr>ht_list := l\<rparr>) = Some ht'"
      "bucket ht' = (bucket ht)(0 := a)" "ht_list ht' = l" "counter ht' = counter ht"
      "buckets_size ht' = buckets_size ht"
      by (rule set_bucket_small [of 0 a "ht\<lparr>ht_list := l\<rparr>"]) auto
    have "ht_rep n ht' [(a, so_dummykey (of_nat 0), 0)]"
      using ins(3) ht' less.prems(1) ht_rep_empty(2) [OF less.prems(1) b0]
      by (auto simp: ht_rep_def)
    moreover have "initialize_bucket t 0 ht = Some ht'"
      using ht'(1) ins(1) b0 by (subst initialize_bucket.simps) (simp add: get_bucket_small)
    moreover have "regulars [(a, so_dummykey (of_nat 0), 0)] = regulars ps"
      using regulars_dummy [of 0 "[(a, so_dummykey (of_nat 0), 0)]" a 0 "[]"] ps by simp
    ultimately show ?thesis
      using True ht' ins(2) by (metis fun_upd_same)
  next
    case False
    let ?p = "GET_PARENT index" and ?key = "so_dummykey (of_nat index)"
    have p: "?p < index" "?p < 10000" using GET_PARENT_less [OF False] less.prems(2) by auto
    obtain ht1 ps1 where h1: "(if bucket ht ?p = 0 then initialize_bucket t ?p ht else Some ht) = Some ht1"
      "ht_rep n ht1 ps1" "bucket ht1 ?p \<noteq> 0" "regulars ps1 = regulars ps" "counter ht1 = counter ht"
    proof (cases "bucket ht ?p = 0")
      case True
      then show ?thesis using less.IH [OF p(1) less.prems(1) p(2)] that by auto
    next
      case False
      then show ?thesis using that less.prems(1) by auto
    qed
    obtain v0 where e: "(bucket ht1 ?p, so_dummykey (of_nat ?p), v0) \<in> set ps1"
      using h1(2,3) p(2) by (auto simp: ht_rep_def)
    have core: "lf_core n (ht_list ht1) (bucket ht1 0) ps1" using h1(2) by (simp add: ht_rep_def)
    have lt: "so_dummykey (of_nat ?p) < ?key" using dummy_parent_less [OF False] less.prems(2) by simp
    from insert_at_core [OF core e lt, of t 0 True] obtain a w l ps2 where ins:
      "LockFreeList_insert_at t (bucket ht1 ?p) ?key 0 True (ht_list ht1) = Some (a, l)"
      "lf_core n l (bucket ht1 0) ps2" "(a, ?key, w) \<in> set ps2"
      "set ps2 = (if ?key \<in> entry_key ` set ps1 then set ps1 else insert (a, ?key, 0) (set ps1))"
      by auto
    obtain ht' where ht': "set_bucket index a (ht1\<lparr>ht_list := l\<rparr>) = Some ht'"
      "bucket ht' = (bucket ht1)(index := a)" "ht_list ht' = l" "counter ht' = counter ht1"
      "buckets_size ht' = buckets_size ht1"
      by (rule set_bucket_small [OF less.prems(2), of a "ht1\<lparr>ht_list := l\<rparr>"]) auto
    have "ht_rep n ht' ps2"
    proof (rule ht_rep_set_bucket [where i = index and w = w])
      show "lf_core n l (bucket ht' 0) ps2" using ins(2) ht'(2) False by simp
      show "buckets_size ht' = 10000" using h1(2) ht'(5) by (simp add: ht_rep_def)
      show "\<exists>v. (bucket ht' j, so_dummykey (of_nat j), v) \<in> set ps2"
        if "j < 10000" "j \<noteq> index" "bucket ht' j \<noteq> 0" for j
        using that h1(2) ht'(2) ins(4) by (auto simp: ht_rep_def)
      show "(bucket ht' index, ?key, w) \<in> set ps2" using ht'(2) ins(3) by simp
    qed (rule ht'(3))
    moreover have "initialize_bucket t index ht = Some ht'"
      using False h1(1) ht'(1) ins(1) p(2)
      by (subst initialize_bucket.simps) (simp add: get_bucket_small)
    moreover have "regulars ps2 = regulars ps"
      using ins(4) h1(4) regulars_dummy [OF less.prems(2), of ps2 a 0 ps1]
      by (auto simp: regulars_def split: if_splits)
    moreover have "bucket ht' index \<noteq> 0" using ht'(2) lf_core_addr [OF ins(2,3)] by simp
    ultimately show ?thesis using ht'(4) h1(5) by auto
  qed
qed

lemma ensure_bucket_rep:
  assumes "ht_rep n ht ps" "index < 10000"
  shows "\<exists>b ht' ps' v. ensure_bucket t index ht = Some (b, ht') \<and> ht_rep n ht' ps' \<and>
    (b, so_dummykey (of_nat index), v) \<in> set ps' \<and> regulars ps' = regulars ps \<and> counter ht' = counter ht"
proof (cases "bucket ht index = 0")
  case True
  from initialize_bucket_rep [OF assms True, of t] obtain ht' ps' where
    "initialize_bucket t index ht = Some ht'" "ht_rep n ht' ps'" "bucket ht' index \<noteq> 0"
    "regulars ps' = regulars ps" "counter ht' = counter ht" by blast
  then show ?thesis
    using True assms(2) by (auto simp: ensure_bucket_def get_bucket_small ht_rep_def)
next
  case False
  then show ?thesis
    using assms by (auto simp: ensure_bucket_def get_bucket_small ht_rep_def)
qed

section \<open>The table as a map\<close>

text \<open>The keys the table handles: below \<open>2 ^ 31\<close> and behind the sentinel of their bucket.\<close>

definition ht_key :: "key \<Rightarrow> bool" where
  "ht_key k \<longleftrightarrow> k < 0x80000000 \<and> well_bucketed k"

definition tracks :: "(key \<rightharpoonup> key) \<Rightarrow> (key, key) entry list \<Rightarrow> bool" where
  "tracks M ps \<longleftrightarrow>
     (\<forall>k v. k < 0x80000000 \<longrightarrow> (M k = Some v \<longleftrightarrow> (\<exists>a. (a, so_regularkey k, v) \<in> regulars ps)))"

definition ht_abs :: "nat \<Rightarrow> hash_table \<Rightarrow> (key \<rightharpoonup> key) \<Rightarrow> bool" where
  "ht_abs n ht M \<longleftrightarrow>
     (\<exists>ps. ht_rep n ht ps \<and> tracks M ps)"

lemma regular_mem: "(a, so_regularkey k, v) \<in> regulars ps \<longleftrightarrow> (a, so_regularkey k, v) \<in> set ps"
  by (simp add: regulars_def regular_odd)

lemma M_dom:
  assumes "tracks M ps"
    and "k < 0x80000000"
  shows "M k \<noteq> None \<longleftrightarrow> so_regularkey k \<in> entry_key ` set ps"
proof -
  have "M k \<noteq> None \<longleftrightarrow> (\<exists>a v. (a, so_regularkey k, v) \<in> set ps)"
    using assms by (auto simp: regular_mem tracks_def)
  then show ?thesis by force
qed

text \<open>Each call first makes sure of its bucket, from which its key is in reach.\<close>

lemma reach_bucket:
  assumes "ht_abs n ht M" "ht_key k"
  obtains b ht1 ps v0 where "ensure_bucket t (unat k mod 10000) ht = Some (b, ht1)" "ht_rep n ht1 ps"
    "(b, so_dummykey (of_nat (unat k mod 10000)), v0) \<in> set ps"
    "so_dummykey (of_nat (unat k mod 10000)) < so_regularkey k" "counter ht1 = counter ht"
    "tracks M ps"
proof -
  obtain ps where "ht_rep n ht ps"
    "tracks M ps"
    using assms(1) by (auto simp: ht_abs_def)
  then show ?thesis
    using ensure_bucket_rep [of n ht ps "unat k mod 10000" t] assms(2) that
    by (auto simp: ht_key_def well_bucketed_def tracks_def)
qed

lemma ht_rep_list:
  assumes "ht_rep n ht ps" "lf_core n l (bucket ht 0) ps'"
    "\<And>e. e \<in> set ps \<Longrightarrow> \<not> bit (entry_key e) 0 \<Longrightarrow> e \<in> set ps'"
  shows "ht_rep n (ht\<lparr>ht_list := l\<rparr>) ps'"
proof -
  have "\<exists>v. (bucket ht i, so_dummykey (of_nat i), v) \<in> set ps'" if i: "i < 10000" "bucket ht i \<noteq> 0" for i
  proof -
    obtain v where "(bucket ht i, so_dummykey (of_nat i), v) \<in> set ps"
      using assms(1) i by (auto simp: ht_rep_def)
    then show ?thesis using assms(3) dummy_even [of i] i(1) by fastforce
  qed
  then show ?thesis using assms(1,2) by (simp add: ht_rep_def)
qed

lemma LockFreeHashTable_insert_abs:
  assumes abs: "ht_abs n ht M" and k: "ht_key k" and room: "Suc (counter ht) < 110000"
  shows "\<exists>ht'. LockFreeHashTable_insert t k v ht = Some (M k = None, ht') \<and>
    ht_abs n ht' (if M k = None then M(k \<mapsto> v) else M) \<and> counter ht' = (if M k = None then Suc (counter ht) else counter ht)"
proof -
  let ?key = "so_regularkey k"
  have k31: "k < 0x80000000" using k by (simp add: ht_key_def)
  obtain b ht1 ps v0 where e: "ensure_bucket t (unat k mod 10000) ht = Some (b, ht1)" "ht_rep n ht1 ps"
    "(b, so_dummykey (of_nat (unat k mod 10000)), v0) \<in> set ps"
    "so_dummykey (of_nat (unat k mod 10000)) < ?key" "counter ht1 = counter ht"
    and M: "tracks M ps"
    by (rule reach_bucket [OF abs k, of t])
  have sz: "buckets_size ht = 10000" "buckets_size ht1 = 10000" using abs e(2) by (auto simp: ht_abs_def ht_rep_def)
  have core: "lf_core n (ht_list ht1) (bucket ht1 0) ps" using e(2) by (simp add: ht_rep_def)
  from insert_at_core [OF core e(3,4), of t v False] obtain a w l ps' where ins:
    "LockFreeList_insert_at t b ?key v False (ht_list ht1) =
      Some (if ?key \<notin> entry_key ` set ps \<or> False then a else 0, l)"
    "lf_core n l (bucket ht1 0) ps'" "(a, ?key, w) \<in> set ps'"
    "set ps' = (if ?key \<in> entry_key ` set ps then set ps else insert (a, ?key, v) (set ps))" by blast
  have a: "a \<noteq> 0" using lf_core_addr [OF ins(2,3)] .
  have rep': "ht_rep n (ht1\<lparr>ht_list := l\<rparr>) ps'"
    using ht_rep_list [OF e(2) ins(2)] ins(4) by auto
  show ?thesis
  proof (cases "M k")
    case (Some u)
    then have "?key \<in> entry_key ` set ps" using M_dom [OF M k31] by simp
    then have "LockFreeHashTable_insert t k v ht = Some (False, ht1\<lparr>ht_list := l\<rparr>)" "set ps' = set ps"
      using e(1) ins(1,4) sz by (simp_all add: LockFreeHashTable_insert_def)
    moreover have "regulars ps' = regulars ps" using calculation(2) by (simp add: regulars_def)
    ultimately show ?thesis using Some rep' M e(5) by (auto simp: ht_abs_def tracks_def)
  next
    case None
    then have nk: "?key \<notin> entry_key ` set ps" using M_dom [OF M k31] by simp
    define ht' where "ht' = ht1\<lparr>ht_list := l, counter := counter ht1 + 1, buckets_size := 10000\<rparr>"
    have "(counter ht + 1) div 10000 \<le> 10" using room by auto
    then have code: "LockFreeHashTable_insert t k v ht = Some (True, ht')"
      using e(1,5) ins(1) sz nk a
      by (simp add: LockFreeHashTable_insert_def Let_def ht'_def MAX_LOAD_def)
    have reg: "regulars ps' = insert (a, ?key, v) (regulars ps)"
      using ins(4) nk by (auto simp: regulars_def regular_odd)
    have "tracks (M(k \<mapsto> v)) ps'"
      unfolding tracks_def
    proof (intro allI impI)
      fix k' v' assume k': "k' < (0x80000000 :: key)"
      then show "(M(k \<mapsto> v)) k' = Some v' \<longleftrightarrow> (\<exists>c. (c, so_regularkey k', v') \<in> regulars ps')"
        using M [unfolded tracks_def] k31 regular_inj [OF k' k31] nk
        unfolding reg by (auto simp: regulars_def image_iff)
    qed
    moreover have "ht_rep n ht' ps'" using rep' by (simp add: ht'_def ht_rep_def)
    ultimately have "ht_abs n ht' (M(k \<mapsto> v))" by (auto simp: ht_abs_def)
    then show ?thesis using code None e(5) by (auto simp: ht'_def)
  qed
qed

lemma LockFreeHashTable_remove_abs:
  assumes abs: "ht_abs n ht M" and k: "ht_key k" and t: "t < n"
    and pos: "M k \<noteq> None \<Longrightarrow> 0 < counter ht"
  shows "\<exists>ht'. LockFreeHashTable_remove t k ht = Some (M k \<noteq> None, ht') \<and>
    ht_abs n ht' (M(k := None)) \<and> counter ht' = (if M k = None then counter ht else counter ht - 1)"
proof -
  let ?key = "so_regularkey k"
  have k31: "k < 0x80000000" using k by (simp add: ht_key_def)
  obtain b ht1 ps v0 where e: "ensure_bucket t (unat k mod 10000) ht = Some (b, ht1)" "ht_rep n ht1 ps"
    "(b, so_dummykey (of_nat (unat k mod 10000)), v0) \<in> set ps"
    "so_dummykey (of_nat (unat k mod 10000)) < ?key" "counter ht1 = counter ht"
    and M: "tracks M ps"
    by (rule reach_bucket [OF abs k, of t])
  have core: "lf_core n (ht_list ht1) (bucket ht1 0) ps" using e(2) by (simp add: ht_rep_def)
  from remove_at_core [OF core e(3,4) t] obtain l ps' where rem:
    "LockFreeList_remove_at t b ?key (ht_list ht1) = Some (?key \<in> entry_key ` set ps, l)"
    "lf_core n l (bucket ht1 0) ps'" "set ps' = {e \<in> set ps. entry_key e \<noteq> ?key}" by blast
  have rep': "ht_rep n (ht1\<lparr>ht_list := l\<rparr>) ps'"
    using ht_rep_list [OF e(2) rem(2)] rem(3) regular_odd by fastforce
  define c' where "c' = (if M k \<noteq> None then size_sub (counter ht1) 1 else counter ht1)"
  have code: "LockFreeHashTable_remove t k ht = Some (M k \<noteq> None, ht1\<lparr>ht_list := l, counter := c'\<rparr>)"
    using e(1) rem(1) M_dom [OF M k31]
    by (simp add: LockFreeHashTable_remove_def table_size_def c'_def)
  have "c' = (if M k = None then counter ht else counter ht - 1)" using pos e(5) by (auto simp: c'_def)
  moreover have "tracks (M(k := None)) ps'"
    unfolding tracks_def
  proof (intro allI impI)
    fix k' v' assume k': "k' < (0x80000000 :: key)"
    then show "(M(k := None)) k' = Some v' \<longleftrightarrow> (\<exists>c. (c, so_regularkey k', v') \<in> regulars ps')"
      using M [unfolded tracks_def] k31 regular_inj [OF k' k31] rem(3) by (auto simp: regulars_def)
  qed
  moreover have "ht_rep n (ht1\<lparr>ht_list := l, counter := c'\<rparr>) ps'" using rep' by (simp add: ht_rep_def)
  ultimately show ?thesis using code by (auto simp: ht_abs_def)
qed

lemma LockFreeHashTable_lookup_abs:
  assumes abs: "ht_abs n ht M" and k: "ht_key k"
  shows "\<exists>ht'. LockFreeHashTable_lookup t k ht = Some (M k, ht') \<and> ht_abs n ht' M \<and> counter ht' = counter ht"
proof -
  let ?key = "so_regularkey k"
  have k31: "k < 0x80000000" using k by (simp add: ht_key_def)
  obtain b ht1 ps v0 where e: "ensure_bucket t (unat k mod 10000) ht = Some (b, ht1)" "ht_rep n ht1 ps"
    "(b, so_dummykey (of_nat (unat k mod 10000)), v0) \<in> set ps"
    "so_dummykey (of_nat (unat k mod 10000)) < ?key" "counter ht1 = counter ht"
    and M: "tracks M ps"
    by (rule reach_bucket [OF abs k, of t])
  have core: "lf_core n (ht_list ht1) (bucket ht1 0) ps" using e(2) by (simp add: ht_rep_def)
  from lookup_at_core [OF core e(3,4), of t] obtain r l where look:
    "LockFreeList_lookup_at t b ?key (ht_list ht1) = Some (r, l)" "lf_core n l (bucket ht1 0) ps"
    "case r of None \<Rightarrow> ?key \<notin> entry_key ` set ps | Some v \<Rightarrow> (\<exists>a. (a, ?key, v) \<in> set ps)" by blast
  have "r = M k"
  proof (cases r)
    case None
    then show ?thesis using look(3) M_dom [OF M k31] by simp
  next
    case (Some v)
    then have "M k = Some v" using look(3) M k31 by (auto simp: tracks_def regular_mem)
    then show ?thesis using Some by simp
  qed
  then have "LockFreeHashTable_lookup t k ht = Some (M k, ht1\<lparr>ht_list := l\<rparr>)"
    using e(1) look(1) by (simp add: LockFreeHashTable_lookup_def table_size_def)
  moreover have "ht_rep n (ht1\<lparr>ht_list := l\<rparr>) ps" using ht_rep_list [OF e(2) look(2)] by blast
  ultimately show ?thesis using M e(5) by (auto simp: ht_abs_def)
qed

section \<open>Properties\<close>

datatype map_call = PutCall key key | DelCall key | GetCall key
datatype map_result = BoolResult bool | ValueResult "key option"

fun call_key :: "map_call \<Rightarrow> key" where
  "call_key (PutCall k v) = k"
| "call_key (DelCall k) = k"
| "call_key (GetCall k) = k"

fun ht_run :: "(nat \<times> map_call) list \<Rightarrow> hash_table \<Rightarrow> (map_result list \<times> hash_table) option" where
  "ht_run [] ht = Some ([], ht)"
| "ht_run ((t, c) # cs) ht =
     do {
       (r, ht1) \<leftarrow> (case c of
          PutCall k v \<Rightarrow> map_option (map_prod BoolResult id) (LockFreeHashTable_insert t k v ht)
        | DelCall k \<Rightarrow> map_option (map_prod BoolResult id) (LockFreeHashTable_remove t k ht)
        | GetCall k \<Rightarrow> map_option (map_prod ValueResult id) (LockFreeHashTable_lookup t k ht));
       (rs, ht2) \<leftarrow> ht_run cs ht1;
       Some (r # rs, ht2) }"

fun map_step :: "map_call \<Rightarrow> (key \<rightharpoonup> key) \<Rightarrow> map_result \<times> (key \<rightharpoonup> key)" where
  "map_step (PutCall k v) M = (BoolResult (M k = None), if M k = None then M(k \<mapsto> v) else M)"
| "map_step (DelCall k) M = (BoolResult (M k \<noteq> None), M(k := None))"
| "map_step (GetCall k) M = (ValueResult (M k), M)"

fun map_spec :: "(nat \<times> map_call) list \<Rightarrow> (key \<rightharpoonup> key) \<Rightarrow> map_result list" where
  "map_spec [] M = []"
| "map_spec ((t, c) # cs) M = (case map_step c M of (r, M') \<Rightarrow> r # map_spec cs M')"

lemma ht_run_spec:
  "ht_abs n ht M \<Longrightarrow> finite (dom M) \<Longrightarrow> counter ht = card (dom M) \<Longrightarrow>
    counter ht + length cs < 110000 \<Longrightarrow> \<forall>(t, c) \<in> set cs. t < n \<and> ht_key (call_key c) \<Longrightarrow>
    \<exists>ht'. ht_run cs ht = Some (map_spec cs M, ht')"
proof (induction cs arbitrary: ht M)
  case Nil
  then show ?case by simp
next
  case (Cons tc cs)
  obtain t c where tc: "tc = (t, c)" by force
  have t: "t < n" and k: "ht_key (call_key c)" and cs: "\<forall>(t, c) \<in> set cs. t < n \<and> ht_key (call_key c)"
    and room: "Suc (counter ht) < 110000" "counter ht + length cs < 110000" "Suc (counter ht) + length cs < 110000"
    using Cons.prems(4,5) tc by auto
  show ?case
  proof (cases c)
    case (PutCall k v)
    define M' where "M' = (if M k = None then M(k \<mapsto> v) else M)"
    from LockFreeHashTable_insert_abs [OF Cons.prems(1) _ room(1), of k t v] k PutCall obtain ht1 where h:
      "LockFreeHashTable_insert t k v ht = Some (M k = None, ht1)" "ht_abs n ht1 M'"
      "counter ht1 = (if M k = None then Suc (counter ht) else counter ht)" by (auto simp: M'_def)
    have "finite (dom M')" "counter ht1 = card (dom M')" "counter ht1 + length cs < 110000"
      using h(3) Cons.prems(2,3) room by (auto simp: M'_def domIff)
    from Cons.IH [OF h(2) this cs] have "\<exists>ht'. ht_run cs ht1 = Some (map_spec cs M', ht')" .
    moreover have "map_step c M = (BoolResult (M k = None), M')" using PutCall by (simp only: M'_def map_step.simps)
    ultimately show ?thesis using h(1) PutCall tc by (auto simp del: map_step.simps)
  next
    case (DelCall k)
    have "M k \<noteq> None \<Longrightarrow> 0 < counter ht"
      using Cons.prems(2,3) by (auto simp: card_gt_0_iff dom_def)
    define M' where "M' = M(k := None)"
    from LockFreeHashTable_remove_abs [OF Cons.prems(1) _ t \<open>M k \<noteq> None \<Longrightarrow> 0 < counter ht\<close>] k DelCall
    obtain ht1 where h: "LockFreeHashTable_remove t k ht = Some (M k \<noteq> None, ht1)" "ht_abs n ht1 M'"
      "counter ht1 = (if M k = None then counter ht else counter ht - 1)" by (auto simp: M'_def)
    have "finite (dom M')" "counter ht1 = card (dom M')" "counter ht1 + length cs < 110000"
      using h(3) Cons.prems(2,3) room by (auto simp: M'_def domIff)
    from Cons.IH [OF h(2) this cs] have "\<exists>ht'. ht_run cs ht1 = Some (map_spec cs M', ht')" .
    moreover have "map_step c M = (BoolResult (M k \<noteq> None), M')" using DelCall by (simp only: M'_def map_step.simps)
    ultimately show ?thesis using h(1) DelCall tc by (auto simp del: map_step.simps)
  next
    case (GetCall k)
    from LockFreeHashTable_lookup_abs [OF Cons.prems(1), of k t] k GetCall obtain ht1 where h:
      "LockFreeHashTable_lookup t k ht = Some (M k, ht1)" "ht_abs n ht1 M" "counter ht1 = counter ht" by auto
    have "counter ht1 = card (dom M)" "counter ht1 + length cs < 110000"
      using h(3) Cons.prems(3) room by auto
    from Cons.IH [OF h(2) Cons.prems(2) this cs] show ?thesis using h(1) GetCall tc by auto
  qed
qed

lemma ht_new_abs: "ht_abs n (LockFreeHashTable_new junk n) Map.empty"
proof -
  have "lf_inv n (LockFreeList_new junk n :: so_list)" by (rule LockFreeList_new_inv)
  moreover have "lf_head (LockFreeList_new junk n :: so_list) = 0" by (simp add: LockFreeList_new_def)
  ultimately have "lf_core n (LockFreeList_new junk n :: so_list) 0 []"
    unfolding lf_inv_def using lfseg_zero by (metis lf_core_def)
  then have "ht_rep n (LockFreeHashTable_new junk n) []"
    by (simp add: ht_rep_def LockFreeHashTable_new_def bucket_def)
  then show ?thesis by (auto simp: ht_abs_def tracks_def regulars_def)
qed

text \<open>
  C26. On a new table, any sequence of fewer than 110000 \<open>insert\<close>, \<open>remove\<close> and \<open>lookup\<close>
  calls by \<open>n\<close> threads, with keys below \<open>2 ^ 31\<close> that lie behind the sentinel of their
  bucket in the split order, ends, is memory safe, and answers as a map that keeps the first
  value inserted for a key.
\<close>

theorem LockFreeHashTable_is_map:
  assumes "length cs < 110000" "\<forall>(t, c) \<in> set cs. t < n \<and> ht_key (call_key c)"
  shows "\<exists>ht. ht_run cs (LockFreeHashTable_new junk n) = Some (map_spec cs Map.empty, ht)"
  using ht_run_spec [OF ht_new_abs [of n junk], of cs] assms by (simp add: LockFreeHashTable_new_def)

theorem LockFreeHashTable_is_map_witness:
  "\<exists>ht. ht_run [(0, PutCall 16 1), (1, PutCall 16 2), (0, GetCall 16), (1, DelCall 16), (0, GetCall 16)]
      (LockFreeHashTable_new (\<lambda>_ _. 0) 2) =
    Some ([BoolResult True, BoolResult False, ValueResult (Some 1), BoolResult True, ValueResult None], ht)"
proof -
  have "ht_key 16" using well_bucketed_small [of 16] by (simp add: ht_key_def)
  then show ?thesis
    using LockFreeHashTable_is_map [of "[(0, PutCall 16 1), (1, PutCall 16 2), (0, GetCall 16),
        (1, DelCall 16), (0, GetCall 16)]" 2 "\<lambda>_ _. 0"] by simp
qed

text \<open>
  What happens to a key that precedes the node a call starts from: the search stops at once,
  with \<open>prev\<close> the parameter \<open>start\<close> of the call itself, and it is that variable the
  compare-and-swap of \<open>insert\<close> changes.
\<close>

definition behind :: "so_list \<Rightarrow> nat \<Rightarrow> key \<Rightarrow> bool" where
  "behind s b key \<longleftrightarrow> (\<exists>k v r. lfseg (lf_heap s) b ((b, k, v) # r) 0 \<and> key < k \<and>
     (\<forall>e \<in> set ((b, k, v) # r). fst e \<le> 2 * lf_brk s))"

lemma behind_hps: "behind (s\<lparr>lf_hps := hz\<rparr>) b key = behind s b key"
  "behind (s\<lparr>lf_start := q\<rparr>) b key = behind s b key"
  by (simp_all add: behind_def)

lemma lookupInternal_behind:
  assumes "behind s b key" "lf_start s = b"
  obtains hz nxt where "lookupInternal t StartCell key s =
    Some (False, \<lparr>ctx_prev = StartCell, ctx_cur = b, ctx_next = nxt\<rparr>, s\<lparr>lf_hps := hz\<rparr>)"
proof -
  obtain k v r where seg: "lfseg (lf_heap s) b ((b, k, v) # r) 0" "key < k"
    using assms(1) by (auto simp: behind_def)
  then have "\<not> search_found key ((b, k, v) # r)"
      "search_ctx key StartCell ((b, k, v) # r) nxt = \<lparr>ctx_prev = StartCell, ctx_cur = b, ctx_next = nxt\<rparr>" for nxt
    by (auto simp: search_found_def search_ctx_def)
  then show ?thesis
    using lookupInternal_seg [OF _ seg(1), of StartCell t key] assms(2) that by (metis read_cell.simps(2))
qed

lemma insert_at_behind:
  assumes "behind s b key"
  shows "\<exists>a s'. LockFreeList_insert_at t b key v False s = Some (a, s') \<and> a \<noteq> 0 \<and> behind s' b key"
proof -
  let ?nn = "\<lparr>lf_data = key, lf_next = 0, lf_value = v\<rparr>"
  define a where "a = 2 * lf_brk s + 2"
  define s1 where "s1 = s\<lparr>lf_start := b, lf_heap := (lf_heap s)(a \<mapsto> ?nn), lf_brk := lf_brk s + 1\<rparr>"
  obtain k v' r where seg: "lfseg (lf_heap s) b ((b, k, v') # r) 0" "key < k"
    "\<forall>e \<in> set ((b, k, v') # r). fst e \<le> 2 * lf_brk s"
    using assms(1) by (auto simp: behind_def)
  have fresh: "a \<notin> set (map fst ((b, k, v') # r))" using seg(3) by (fastforce simp: a_def)
  have bound: "\<forall>e \<in> set ((b, k, v') # r). fst e \<le> 2 * (lf_brk s + 1)" using seg(3) by fastforce
  have upd: "lfseg ((lf_heap s)(a \<mapsto> x)) b ((b, k, v') # r) 0" for x
    using seg(1) lfseg_upd [OF fresh] by blast
  have "behind s1 b key"
    unfolding behind_def s1_def using upd seg(2) bound by (intro exI [of _ k] exI [of _ v'] exI [of _ r]) simp
  then obtain hz nxt where look: "lookupInternal t StartCell key s1 =
      Some (False, \<lparr>ctx_prev = StartCell, ctx_cur = b, ctx_next = nxt\<rparr>, s1\<lparr>lf_hps := hz\<rparr>)"
    by (rule lookupInternal_behind [of s1 b key t]) (simp add: s1_def)
  define s2 where "s2 = s1\<lparr>lf_hps := hz, lf_heap := (lf_heap s)(a \<mapsto> ?nn\<lparr>lf_next := b\<rparr>)\<rparr>"
  have w: "write_cell (NextOf a) b (s1\<lparr>lf_hps := hz\<rparr>) = Some s2" "read_cell StartCell s2 = Some b"
    by (simp_all add: s1_def s2_def)
  have "insert_loop t StartCell key a s1 = Some (True, a, s2\<lparr>lf_start := a\<rparr>)"
    using w by (subst insert_loop.simps)
      (simp add: look cas_cell_def del: write_cell.simps(3) read_cell.simps)
  moreover have "new_node ?nn (s\<lparr>lf_start := b\<rparr>) = (a, s1)" by (simp add: new_node_def s1_def a_def)
  ultimately have "LockFreeList_insert_at t b key v False s = Some (a, s2\<lparr>lf_start := a\<rparr>)"
    by (simp add: LockFreeList_insert_at_def)
  moreover have "behind (s2\<lparr>lf_start := a\<rparr>) b key"
    unfolding behind_def s2_def s1_def using upd seg(2) bound
    by (intro exI [of _ k] exI [of _ v'] exI [of _ r]) simp
  ultimately show ?thesis by (auto simp: a_def)
qed

lemma lookup_at_behind:
  assumes "behind s b key"
  shows "\<exists>s'. LockFreeList_lookup_at t b key s = Some (None, s')"
proof (rule lookupInternal_behind [of "s\<lparr>lf_start := b\<rparr>" b key t])
  show "behind (s\<lparr>lf_start := b\<rparr>) b key" using assms by (simp add: behind_hps)
qed (auto simp: LockFreeList_lookup_at_def)

lemma new_bucket:
  assumes "i < 10000"
  obtains b ht where "ensure_bucket t i (LockFreeHashTable_new junk n) = Some (b, ht)" "bucket ht i = b" "b \<noteq> 0"
    "\<And>key. key < so_dummykey (of_nat i) \<Longrightarrow> behind (ht_list ht) b key"
    "buckets_size ht = 10000" "counter ht = 0"
proof -
  obtain ps where "ht_rep n (LockFreeHashTable_new junk n) ps" using ht_new_abs by (auto simp: ht_abs_def)
  from ensure_bucket_rep [OF this assms, of t] obtain b ht ps' v where h:
    "ensure_bucket t i (LockFreeHashTable_new junk n) = Some (b, ht)" "ht_rep n ht ps'"
    "(b, so_dummykey (of_nat i), v) \<in> set ps'" "counter ht = counter (LockFreeHashTable_new junk n)" by blast
  have core: "lf_core n (ht_list ht) (bucket ht 0) ps'" using h(2) by (simp add: ht_rep_def)
  obtain pre r where ps: "ps' = pre @ (b, so_dummykey (of_nat i), v) # r" using h(3) by (meson split_list)
  have "lfseg (lf_heap (ht_list ht)) (bucket ht 0) ps' 0" "set (map fst ps') \<subseteq> dom (lf_heap (ht_list ht))"
      "\<forall>a \<in> dom (lf_heap (ht_list ht)). a \<le> 2 * lf_brk (ht_list ht)"
    using core by (auto simp: lf_core_def)
  note C = this
  have "fst e \<le> 2 * lf_brk (ht_list ht)" if "e \<in> set ps'" for e
  proof -
    have "fst e \<in> set (map fst ps')" using that by simp
    then show ?thesis using C(2,3) by blast
  qed
  moreover have "set ((b, so_dummykey (of_nat i), v) # r) \<subseteq> set ps'" unfolding ps by auto
  ultimately have "\<forall>e \<in> set ((b, so_dummykey (of_nat i), v) # r). fst e \<le> 2 * lf_brk (ht_list ht)"
    by blast
  moreover have "lfseg (lf_heap (ht_list ht)) b ((b, so_dummykey (of_nat i), v) # r) 0"
    using lfseg_split [OF C(1) [unfolded ps]] by (simp add: first_addr_def del: lfseg.simps)
  ultimately have "behind (ht_list ht) b key" if "key < so_dummykey (of_nat i)" for key
    using that unfolding behind_def by blast
  moreover have "bucket ht i = b"
    using h(1) assms by (auto simp: ensure_bucket_def get_bucket_small bind_eq_Some_conv)
  ultimately show ?thesis
    using that h lf_core_addr [OF core h(3)] by (simp add: ht_rep_def LockFreeHashTable_new_def)
qed

text \<open>With a power of two of buckets every key follows the sentinel of its bucket.\<close>

lemma power_of_two_buckets:
  assumes "m \<le> 31"
  shows "so_dummykey (of_nat (unat k mod 2 ^ m)) < so_regularkey k"
  unfolding so_dummykey_def so_regularkey_def
proof (rule reverse_mono)
  have b: "bit (of_nat (unat k mod 2 ^ m) :: key) i \<longleftrightarrow> i < m \<and> bit k i" for i
  proof -
    have "(of_nat (unat k mod 2 ^ m) :: key) = take_bit m k" by (simp add: take_bit_eq_mod [symmetric] take_bit_of_nat [symmetric])
    then show ?thesis using bit_take_bit_iff [of m k i] by simp
  qed
  show "bit (of_nat (unat k mod 2 ^ m) :: key) i \<Longrightarrow> bit (k OR 0x80000000) i" for i
    unfolding b by (simp add: bit_or_iff)
  have "\<not> bit (of_nat (unat k mod 2 ^ m) :: key) 31" using assms by (simp add: b)
  moreover have "bit (k OR 0x80000000) 31" by (simp add: bit_or_iff bit_top)
  ultimately show "(of_nat (unat k mod 2 ^ m) :: key) \<noteq> k OR 0x80000000" by metis
qed

text \<open>
  C37. A key that precedes the sentinel of its bucket in the split order is lost: on a new
  table \<open>insert\<close> of such a key returns \<open>true\<close>, inserting it again returns \<open>true\<close> as well, and
  \<open>lookup\<close> does not find it. There are such keys because the table has 10000 buckets: with any
  power of two of buckets (up to \<open>2 ^ 31\<close>) the same key would follow its bucket's sentinel.
\<close>

theorem LockFreeHashTable_loses_keys:
  assumes "\<not> so_dummykey (of_nat (unat k mod table_size)) < so_regularkey k"
  shows "(\<exists>ht. ht_run [(t, PutCall k v), (t, PutCall k v), (t, GetCall k)] (LockFreeHashTable_new junk n) =
      Some ([BoolResult True, BoolResult True, ValueResult None], ht)) \<and>
    (\<forall>m \<le> 31. so_dummykey (of_nat (unat k mod 2 ^ m)) < so_regularkey k)"
proof -
  let ?i = "unat k mod 10000" and ?key = "so_regularkey k"
  have i: "?i < 10000" by simp
  have "so_dummykey (of_nat ?i) \<noteq> ?key" using dummy_even [of ?i] regular_odd [of k] i by auto
  then have lt: "?key < so_dummykey (of_nat ?i)" using assms by (simp add: table_size_def)
  obtain b h0 where h0: "ensure_bucket t ?i (LockFreeHashTable_new junk n) = Some (b, h0)" "bucket h0 ?i = b" "b \<noteq> 0"
    "behind (ht_list h0) b ?key" "buckets_size h0 = 10000" "counter h0 = 0"
    by (rule new_bucket [OF i, of t junk n]) (use lt in auto)
  have again: "ensure_bucket t ?i h = Some (b, h)" if "bucket h ?i = b" for h
    using that h0(3) i by (simp add: ensure_bucket_def get_bucket_small)
  obtain a1 l1 where l1: "LockFreeList_insert_at t b ?key v False (ht_list h0) = Some (a1, l1)" "a1 \<noteq> 0"
    "behind l1 b ?key" using insert_at_behind [OF h0(4)] by blast
  obtain a2 l2 where l2: "LockFreeList_insert_at t b ?key v False l1 = Some (a2, l2)" "a2 \<noteq> 0"
    "behind l2 b ?key" using insert_at_behind [OF l1(3)] by blast
  obtain l3 where l3: "LockFreeList_lookup_at t b ?key l2 = Some (None, l3)"
    using lookup_at_behind [OF l2(3)] by blast
  define h1 where "h1 = h0\<lparr>ht_list := l1, counter := 1, buckets_size := 10000\<rparr>"
  define h2 where "h2 = h1\<lparr>ht_list := l2, counter := 2, buckets_size := 10000\<rparr>"
  have "LockFreeHashTable_insert t k v (LockFreeHashTable_new junk n) = Some (True, h1)"
    using h0 l1 by (simp add: LockFreeHashTable_insert_def LockFreeHashTable_new_def h1_def MAX_LOAD_def Let_def)
  moreover have "LockFreeHashTable_insert t k v h1 = Some (True, h2)"
    using again [of h1] h0(2) l2 by (simp add: LockFreeHashTable_insert_def h1_def h2_def MAX_LOAD_def Let_def)
  moreover have "LockFreeHashTable_lookup t k h2 = Some (None, h2\<lparr>ht_list := l3\<rparr>)"
    using again [of h2] h0(2) l3 by (simp add: LockFreeHashTable_lookup_def h1_def h2_def table_size_def)
  ultimately show ?thesis using power_of_two_buckets by simp
qed

theorem LockFreeHashTable_loses_keys_witness:
  "\<exists>ht. ht_run [(0, PutCall 10016 7), (0, PutCall 10016 7), (0, GetCall 10016)]
      (LockFreeHashTable_new (\<lambda>_ _. 0) 1) = Some ([BoolResult True, BoolResult True, ValueResult None], ht)"
proof -
  have "\<not> so_dummykey (of_nat (unat (10016 :: key) mod table_size)) < so_regularkey 10016"
    unfolding table_size_def so_dummykey_def so_regularkey_def reverse_def by code_simp
  from LockFreeHashTable_loses_keys [OF this] show ?thesis by blast
qed

end
