(* ===== verification/Buffer_Iterator.thy ===== *)
theory Buffer_Iterator
  imports Buffer_Stream
begin

text \<open>
  \<open>Buffer::Iterator\<close> (\<^verbatim>\<open>src/buffer.hpp\<close> lines 184-236, \<^verbatim>\<open>src/buffer.cpp\<close> lines 250-308):
  peeking at the unread bytes as if they were contiguous. The buffer the iterator points to
  is an explicit argument; \<open>chunk_start\<close> is the index of the chunk the pointer refers to.
  Reading a byte past the end of the array or an indeterminate byte is \<open>None\<close>.
\<close>

section \<open>State and operations\<close>

record iterator =
  it_pos :: position
  bytes_read :: nat
  bytes_total :: nat
  budget :: nat
  chunk_start :: nat

definition getBudget :: "buffer \<Rightarrow> position \<Rightarrow> nat" where
  "getBudget b p = size_sub (sizes b ! pos_idx p) (pos_off p)"

definition Iterator_new :: "buffer \<Rightarrow> iterator" where
  "Iterator_new b =
     \<lparr>it_pos = rpos b, bytes_read = 0, bytes_total = byteCount b,
      budget = getBudget b (rpos b), chunk_start = pos_idx (rpos b)\<rparr>"

definition Buffer_begin :: "buffer \<Rightarrow> iterator" where
  "Buffer_begin b = (Iterator_new b)\<lparr>it_pos := rpos b\<rparr>"

definition Buffer_end :: "buffer \<Rightarrow> iterator" where
  "Buffer_end b = (Iterator_new b)\<lparr>it_pos := wpos b\<rparr>"

definition eob :: "buffer \<Rightarrow> iterator \<Rightarrow> bool" where
  "eob b it =
     (if budget it \<noteq> 0 then False
      else pos_idx (it_pos it) = pos_idx (wpos b) \<and> pos_off (it_pos it) = pos_off (wpos b))"

definition slowNext :: "buffer \<Rightarrow> iterator \<Rightarrow> iterator" where
  "slowNext b it =
     (let p = it_pos it in
      if pos_off p < sizes b ! pos_idx p
      then let p1 = p\<lparr>pos_off := pos_off p + 1\<rparr>;
               it1 = it\<lparr>it_pos := p1, bytes_read := bytes_read it + 1\<rparr>;
               it2 = (if pos_off p1 = sizes b ! pos_idx p1 \<and> pos_idx p1 < pos_idx (wpos b)
                      then it1\<lparr>it_pos := \<lparr>pos_idx = pos_idx p1 + 1, pos_off = 0\<rparr>,
                               chunk_start := pos_idx p1 + 1\<rparr>
                      else it1)
           in it2\<lparr>budget := getBudget b (it_pos it2)\<rparr>
      else it)"

definition Iterator_next :: "buffer \<Rightarrow> iterator \<Rightarrow> iterator" where
  "Iterator_next b it =
     (if budget it > 1
      then it\<lparr>budget := budget it - 1,
              it_pos := (it_pos it)\<lparr>pos_off := pos_off (it_pos it) + 1\<rparr>,
              bytes_read := bytes_read it + 1\<rparr>
      else slowNext b it)"

definition getChar :: "buffer \<Rightarrow> iterator \<Rightarrow> char option" where
  "getChar b it =
     (let c = chunks b ! chunk_start it in
      if pos_off (it_pos it) < length c then c ! pos_off (it_pos it) else None)"

definition Iterator_eq :: "iterator \<Rightarrow> iterator \<Rightarrow> bool" where
  "Iterator_eq i j \<longleftrightarrow> it_pos i = it_pos j"

section \<open>The iterator at the n-th unread byte\<close>

text \<open>
  An iterator over \<open>b\<close> stands where the read pointer of \<open>b\<close> would stand after reading
  \<open>n\<close> bytes; so the lemmas on moving the read pointer apply to it.
\<close>

definition it_view :: "buffer \<Rightarrow> iterator \<Rightarrow> buffer" where
  "it_view b it = b\<lparr>rpos := it_pos it\<rparr>"

definition it_at :: "buffer \<Rightarrow> iterator \<Rightarrow> nat \<Rightarrow> bool" where
  "it_at b it n \<longleftrightarrow>
     buf_wf (it_view b it) \<and> buf_flow (it_view b it) \<and> chunk_start it = pos_idx (it_pos it) \<and>
     budget it = readSize (it_view b it) \<and> bytes_read it = n \<and> bytes_total it = byteCount b \<and>
     n \<le> length (buf_bytes b) \<and> buf_bytes (it_view b it) = drop n (buf_bytes b)"

lemma it_view_simps [simp]:
  "rpos (it_view b it) = it_pos it" "wpos (it_view b it) = wpos b" "sizes (it_view b it) = sizes b"
  "chunks (it_view b it) = chunks b"
  by (simp_all add: it_view_def)

lemma getBudget_view: "getBudget b (it_pos it) = readSize (it_view b it)"
  by (simp add: getBudget_def readSize_def)

lemma it_at_begin: "buf_wf b \<Longrightarrow> buf_flow b \<Longrightarrow> it_at b (Buffer_begin b) 0"
  by (simp add: it_at_def Buffer_begin_def Iterator_new_def it_view_def getBudget_def readSize_def)

lemma it_at_eob:
  assumes "it_at b it n"
  shows "eob b it \<longleftrightarrow> n = length (buf_bytes b)"
proof -
  let ?v = "it_view b it"
  have v: "buf_wf ?v" "buf_flow ?v" "budget it = readSize ?v" "n \<le> length (buf_bytes b)"
    "buf_bytes ?v = drop n (buf_bytes b)"
    using assms by (auto simp: it_at_def)
  have z: "readSize ?v = 0 \<longleftrightarrow> n = length (buf_bytes b)"
    using readSize_zero_iff [OF v(1,2)] v(4,5) by auto
  have "it_pos it = wpos b" if "readSize ?v = 0"
  proof (rule position.equality)
    have i: "pos_idx (it_pos it) = length (chunks b) - 1"
      using that v(1,2) readSize_eq [OF v(1)] by (auto simp: buf_wf_def buf_flow_def)
    then show "pos_idx (it_pos it) = pos_idx (wpos b)" using v(1) by (simp add: buf_wf_def)
    have "pos_off (it_pos it) = sizes b ! pos_idx (it_pos it)"
      using that v(1) readSize_eq [OF v(1)] by (simp add: buf_wf_def)
    also have "\<dots> = last (sizes b)"
    proof -
      have "sizes b \<noteq> []" "length (sizes b) = length (chunks b)" using v(1) by (auto simp: buf_wf_def)
      then show ?thesis using i by (simp add: last_conv_nth)
    qed
    finally show "pos_off (it_pos it) = pos_off (wpos b)" using v(1) by (simp add: buf_wf_def)
  qed simp
  then show ?thesis using v(3) z by (auto simp: eob_def)
qed

lemma it_at_getChar:
  assumes at: "it_at b it n" and n: "n < length (buf_bytes b)"
  shows "getChar b it = Some (buf_bytes b ! n)"
proof -
  let ?v = "it_view b it"
  have v: "buf_wf ?v" "buf_flow ?v" "buf_bytes ?v = drop n (buf_bytes b)"
    "chunk_start it = pos_idx (it_pos it)"
    using at by (auto simp: it_at_def)
  have rs: "readSize ?v \<noteq> 0" using readSize_zero_iff [OF v(1,2)] v(3) n by auto
  have "read_area ?v = map Some (take (readSize ?v) (drop n (buf_bytes b)))"
    using read_area_prefix [OF v(1)] v(3) by simp
  then have hd: "hd (read_area ?v) = Some (buf_bytes b ! n)"
    using rs n by (simp add: hd_map hd_drop_conv_nth)
  have "pos_off (it_pos it) < length (chunks b ! pos_idx (it_pos it))"
  proof -
    have "pos_off (it_pos it) < sizes b ! pos_idx (it_pos it)" using rs readSize_eq [OF v(1)] by simp
    also have "\<dots> \<le> BlockSize" using v(1) by (simp add: buf_wf_def)
    also have "BlockSize = length (chunks b ! pos_idx (it_pos it))" using v(1) by (simp add: buf_wf_def)
    finally show ?thesis .
  qed
  then show ?thesis
    using hd rs v(4) by (simp add: getChar_def read_area_def hd_drop_conv_nth)
qed

lemma it_at_next:
  assumes at: "it_at b it n" and n: "n < length (buf_bytes b)"
  shows "it_at b (Iterator_next b it) (Suc n)"
proof -
  let ?v = "it_view b it"
  define p1 where "p1 = (it_pos it)\<lparr>pos_off := pos_off (it_pos it) + 1\<rparr>"
  define v1 where "v1 = b\<lparr>rpos := p1\<rparr>"
  have v: "buf_wf ?v" "buf_flow ?v" "budget it = readSize ?v" "chunk_start it = pos_idx (it_pos it)"
    "buf_bytes ?v = drop n (buf_bytes b)" "bytes_read it = n" "bytes_total it = byteCount b"
    using at by (auto simp: it_at_def)
  have rs: "1 \<le> readSize ?v" using readSize_zero_iff [OF v(1,2)] v(5) n by (cases "readSize ?v") auto
  have v1: "buf_wf v1" "buf_cells v1 = drop 1 (buf_cells ?v)" "readSize v1 = readSize ?v - 1"
    using read_move [OF v(1) rs] by (auto simp: v1_def p1_def it_view_def)
  have bytes: "buf_bytes v1 = drop (Suc n) (buf_bytes b)"
  proof -
    have "buf_bytes v1 = drop 1 (buf_bytes ?v)" using v1(2) by (simp add: buf_bytes_def drop_map)
    then show ?thesis using v(5) by simp
  qed
  have idx: "pos_idx p1 = pos_idx (it_pos it)" by (simp add: p1_def)
  show ?thesis
  proof (cases "budget it > 1")
    case True
    then have "buf_flow v1"
      using v(2,3) v1 readSize_eq [OF v1(1)] by (auto simp: buf_flow_def v1_def p1_def)
    then show ?thesis
      using True v v1 bytes n idx
      by (simp add: it_at_def Iterator_next_def it_view_def p1_def v1_def)
  next
    case False
    have z: "readSize v1 = 0" using False v(3) rs v1(3) by simp
    have in_chunk: "pos_off (it_pos it) < sizes b ! pos_idx (it_pos it)"
      using rs readSize_eq [OF v(1)] by simp
    have full: "pos_off p1 = sizes b ! pos_idx p1"
      using z readSize_eq [OF v1(1)] v1(1) by (auto simp: v1_def buf_wf_def)
    show ?thesis
    proof (cases "pos_idx p1 < pos_idx (wpos b)")
      case last: False
      then have "buf_flow v1" using v(2) by (auto simp: buf_flow_def v1_def)
      then show ?thesis
        using False in_chunk last v v1 bytes n idx getBudget_view [of b it]
        by (simp add: it_at_def Iterator_next_def slowNext_def Let_def it_view_def p1_def v1_def
            getBudget_def readSize_def)
    next
      case i: True
      define v2 where "v2 = v1\<lparr>rpos := \<lparr>pos_idx = pos_idx p1 + 1, pos_off = 0\<rparr>\<rparr>"
      have v2: "buf_wf v2" "buf_cells v2 = buf_cells v1"
        using read_next_chunk [OF v1(1) z] i by (auto simp: v2_def v1_def)
      have "buf_flow v2" using v(2) by (auto simp: buf_flow_def v2_def v1_def)
      then show ?thesis
        using False in_chunk full i v v2 bytes n idx
        by (simp add: it_at_def Iterator_next_def slowNext_def Let_def it_view_def p1_def v1_def
            v2_def getBudget_def readSize_def buf_bytes_def)
    qed
  qed
qed

lemma it_at_next_end:
  assumes at: "it_at b it n" and n: "n = length (buf_bytes b)"
  shows "Iterator_next b it = it"
proof -
  have "readSize (it_view b it) = 0" "budget it = readSize (it_view b it)"
    using at n readSize_zero_iff [of "it_view b it"] by (auto simp: it_at_def)
  moreover have "buf_wf (it_view b it)" using at by (simp add: it_at_def)
  ultimately show ?thesis
    using readSize_eq [of "it_view b it"] by (simp add: Iterator_next_def slowNext_def Let_def)
qed

section \<open>Bytes that were never written\<close>

text \<open>
  What lies behind the write pointer in the last chunk is indeterminate: every operation of
  the class keeps it so.
\<close>

definition buf_clean :: "buffer \<Rightarrow> bool" where
  "buf_clean b \<longleftrightarrow> set (drop (pos_off (wpos b)) (last (chunks b))) \<subseteq> {None}"

lemma Buffer_new_clean: "buf_clean Buffer_new"
  by (auto simp: buf_clean_def Buffer_new_eq)

lemma add_write_chunk_clean: "buf_clean (add_write_chunk b)"
  by (auto simp: buf_clean_def add_write_chunk_eq)

lemma store_move_clean:
  assumes wf: "buf_wf b" and clean: "buf_clean b" and room: "length xs \<le> writeSize b"
  shows "buf_clean (move_wpos (length xs) (store xs b))"
proof -
  obtain cs c ss k where v: "chunks b = cs @ [c]" "sizes b = ss @ [k]" "length ss = length cs"
    "wpos b = \<lparr>pos_idx = length cs, pos_off = k\<rparr>" "length c = BlockSize" "k \<le> BlockSize"
    using wf by (rule buf_wf_last)
  have "k + length xs \<le> BlockSize" using room v by (simp add: writeSize_def)
  then have "drop (k + length xs) (poke k xs c) = drop (k + length xs) c"
    using v by (simp add: poke_def)
  moreover have "set (drop (k + length xs) c) \<subseteq> set (drop k c)"
    by (simp add: set_drop_subset_set_drop)
  ultimately show ?thesis
    using clean v store_move_eq [OF v(1-4), of xs] by (auto simp: buf_clean_def)
qed

lemma Buffer_write_clean: "buf_wf b \<Longrightarrow> buf_clean b \<Longrightarrow> buf_clean (Buffer_write d b)"
proof (induction d b rule: Buffer_write.induct)
  case (1 src b)
  show ?case
  proof (cases "src = []")
    case True
    then show ?thesis using "1.prems" by (simp add: Buffer_write.simps)
  next
    case False
    define n where "n = min (writeSize b) (length src)"
    let ?xs = "map Some (take n src)"
    define b1 where "b1 = move_wpos n (store ?xs b)"
    define b2 where "b2 = (if length (drop n src) > 0 \<or> pos_off (wpos b1) = BlockSize
      then add_write_chunk b1 else b1)"
    have xs: "length ?xs = n" "n \<le> writeSize b" "None \<notin> set ?xs" by (auto simp: n_def)
    have b1: "buf_wf b1" "buf_clean b1"
      using store_move(1) [OF "1.prems"(1), of ?xs] store_move_clean [OF "1.prems", of ?xs] xs
      by (auto simp: b1_def)
    have b2: "buf_wf b2" "buf_clean b2"
      using b1 add_write_chunk_wf(1) [OF b1(1)] add_write_chunk_clean by (auto simp: b2_def)
    show ?thesis
      using "1.IH" [OF False n_def b1_def refl, of b2] b2
        Buffer_write_step [OF False n_def b1_def b2_def] by (simp add: b2_def)
  qed
qed

lemma consume_clean:
  assumes wf: "buf_wf b" and clean: "buf_clean b"
  shows "buf_clean (consume n b)"
proof -
  obtain n' k' b1 where l: "consume_loop n 0 b = (n', k', b1)" by (metis prod_cases3)
  note loop = consume_loop_wf [OF wf l]
  have "chunks b1 = chunks b" using consume_loop_chunks [OF l] .
  moreover have "k' \<le> pos_idx (rpos b1)" "pos_idx (rpos b1) < length (chunks b1)"
    using loop by (auto simp: buf_wf_def)
  ultimately show ?thesis
    using clean loop l by (auto simp: consume_def dropChunks_def buf_clean_def)
qed

lemma it_at_end_getChar:
  assumes at: "it_at b it n" and n: "n = length (buf_bytes b)" and clean: "buf_clean b"
  shows "getChar b it = None"
proof -
  have "eob b it" using it_at_eob [OF at] n by simp
  then have p: "it_pos it = wpos b"
    by (auto simp: eob_def split: if_splits intro: position.equality)
  have v: "buf_wf (it_view b it)" "chunk_start it = pos_idx (wpos b)"
    using at p by (auto simp: it_at_def)
  then have c: "chunks b ! chunk_start it = last (chunks b)"
    by (auto simp: buf_wf_def last_conv_nth)
  have "last (chunks b) ! pos_off (wpos b) \<in> set (drop (pos_off (wpos b)) (last (chunks b)))"
    if "pos_off (wpos b) < length (last (chunks b))"
    using that by (metis Cons_nth_drop_Suc list.set_intros(1))
  then show ?thesis using clean c p by (auto simp: getChar_def Let_def buf_clean_def)
qed

section \<open>The unread rest\<close>

text \<open>
  What a client of the iterator sees: the string of bytes still ahead of it.
\<close>

definition it_rest :: "buffer \<Rightarrow> iterator \<Rightarrow> string \<Rightarrow> bool" where
  "it_rest b it s \<longleftrightarrow> (\<exists>n. it_at b it n \<and> s = drop n (buf_bytes b))"

lemma it_rest_eob: "it_rest b it s \<Longrightarrow> eob b it \<longleftrightarrow> s = []"
  by (auto simp: it_rest_def it_at_eob) (auto simp: it_at_def)

lemma it_rest_getChar: "it_rest b it (c # s) \<Longrightarrow> getChar b it = Some c"
proof -
  assume "it_rest b it (c # s)"
  then obtain n where n: "it_at b it n" "c # s = drop n (buf_bytes b)" by (auto simp: it_rest_def)
  then have "n < length (buf_bytes b)" by (metis drop_eq_Nil list.distinct(1) not_le)
  then show ?thesis using n it_at_getChar by (metis Cons_nth_drop_Suc list.inject)
qed

lemma it_rest_next: "it_rest b it (c # s) \<Longrightarrow> it_rest b (Iterator_next b it) s"
proof -
  assume "it_rest b it (c # s)"
  then obtain n where n: "it_at b it n" "c # s = drop n (buf_bytes b)" by (auto simp: it_rest_def)
  then have "n < length (buf_bytes b)" by (metis drop_eq_Nil list.distinct(1) not_le)
  then show ?thesis
    using n it_at_next unfolding it_rest_def by (metis Cons_nth_drop_Suc list.inject)
qed

lemma it_rest_end: "it_rest b it [] \<Longrightarrow> buf_clean b \<Longrightarrow> getChar b it = None"
proof -
  assume a: "it_rest b it []" and c: "buf_clean b"
  from a obtain n where n: "it_at b it n" "drop n (buf_bytes b) = []" by (auto simp: it_rest_def)
  then have "n = length (buf_bytes b)" by (simp add: it_at_def)
  then show ?thesis using it_at_end_getChar [OF n(1) _ c] by simp
qed

lemma it_rest_begin: "buf_wf b \<Longrightarrow> buf_flow b \<Longrightarrow> it_rest b (Buffer_begin b) (buf_bytes b)"
  using it_at_begin unfolding it_rest_def by fastforce

lemma it_rest_length: "it_rest b it s \<Longrightarrow> length s \<le> length (buf_bytes b)"
  by (auto simp: it_rest_def)

lemma it_rest_read:
  "it_rest b it s \<Longrightarrow> bytes_read it = length (buf_bytes b) - length s \<and> bytes_total it = byteCount b"
  by (auto simp: it_rest_def it_at_def)

lemma it_rest_Cons:
  "it_rest b it (c # s) \<Longrightarrow>
    \<not> eob b it \<and> getChar b it = Some c \<and> it_rest b (Iterator_next b it) s"
  by (simp add: it_rest_eob it_rest_getChar it_rest_next)

lemmas it_rest_facts = it_rest_eob it_rest_getChar it_rest_next it_rest_end

section \<open>Properties\<close>

text \<open>
  On a well-formed, stall-free buffer, the \<open>k\<close>-th \<open>next\<close> of an iterator started at
  \<open>begin()\<close> stands on the \<open>k\<close>-th unread byte, across chunk boundaries: \<open>getChar\<close> returns it,
  \<open>bytesRead\<close> is \<open>k\<close>, and \<open>eob\<close> is reached after exactly as many steps as there are
  unread bytes; stepping further changes nothing.
\<close>

theorem Iterator_enumerates:
  assumes "buf_wf b" "buf_flow b"
  shows "let it = (Iterator_next b ^^ k) (Buffer_begin b); n = length (buf_bytes b)
    in bytes_read it = min k n \<and> (eob b it \<longleftrightarrow> n \<le> k) \<and>
       (k < n \<longrightarrow> getChar b it = Some (buf_bytes b ! k))"
proof -
  let ?n = "length (buf_bytes b)"
  have "it_at b ((Iterator_next b ^^ k) (Buffer_begin b)) (min k ?n)"
  proof (induction k)
    case 0
    then show ?case using it_at_begin [OF assms] by simp
  next
    case (Suc k)
    show ?case
    proof (cases "k < ?n")
      case True
      then show ?thesis using it_at_next [OF Suc] by simp
    next
      case False
      then show ?thesis using Suc it_at_next_end [OF Suc] by simp
    qed
  qed
  then show ?thesis
    using it_at_eob it_at_getChar by (auto simp: Let_def it_at_def min_def)
qed

theorem Iterator_enumerates_witness:
  "getChar (Buffer_write ''abc'' Buffer_new)
     ((Iterator_next (Buffer_write ''abc'' Buffer_new) ^^ 2) (Buffer_begin (Buffer_write ''abc'' Buffer_new)))
   = Some CHR ''c''"
proof -
  let ?b = "Buffer_write ''abc'' Buffer_new"
  have "buf_wf ?b" "buf_flow ?b" "buf_bytes ?b = ''abc''"
    using Buffer_write_bytes Buffer_write_flow Buffer_new_wf by auto
  then show ?thesis using Iterator_enumerates [of ?b 2] by (simp add: Let_def)
qed

end
