(* ===== verification/Http_Parser.thy ===== *)
theory Http_Parser
  imports Buffer_Iterator "HOL-Library.Sublist"
begin

text \<open>
  \<^verbatim>\<open>src/http_parser.cpp\<close>, \<^verbatim>\<open>src/http_request.cpp\<close>, \<^verbatim>\<open>src/http_response.hpp\<close>: the HTTP
  parser over a buffer iterator. The exceptions \<open>IncompleteInput\<close> and \<open>ErrorInRequest\<close> are
  values; so are the two ways a run can have no defined result: a byte is used that is
  indeterminate or past its array, and a loop that has not ended (the fuel argument bounds the
  iterations of each loop). After an exception the callers look at the return code only, so the
  partially filled request is not part of the result.
\<close>

section \<open>Data\<close>

record request =
  req_method :: string
  req_address :: string
  req_version :: string

record response =
  statusLine :: string
  headerRemainder :: string
  resp_body :: string

datatype parse_exn = IncompleteInput | ErrorInRequest | IndeterminateByte | OutOfFuel
  | OutOfRange

text \<open>
  The integer \<open>parseRequest\<close> and \<open>parseResponse\<close> return: 0 parsed, 1 insufficient input,
  -1 error; or no defined return.
\<close>

datatype 'a parse_outcome = RcParsed 'a iterator | RcIncomplete | RcError | NoReturn parse_exn

definition SP :: char where "SP = CHR '' ''"
definition CR :: char where "CR = CHR 0x0D"
definition LF :: char where "LF = CHR 0x0A"

lemma crlf_distinct [simp]: "SP \<noteq> CR" "CR \<noteq> SP" "CR \<noteq> LF" "LF \<noteq> CR" "SP \<noteq> LF" "LF \<noteq> SP"
  "CHR ''/'' \<noteq> SP" "SP \<noteq> CHR ''/''" "CHR ''/'' \<noteq> CR" "CR \<noteq> CHR ''/''"
  by (simp_all add: SP_def CR_def LF_def)

section \<open>The parser\<close>

fun parseString_loop :: "nat \<Rightarrow> buffer \<Rightarrow> iterator \<Rightarrow> string \<Rightarrow> parse_exn + string \<times> iterator" where
  "parseString_loop 0 b it res = Inl OutOfFuel"
| "parseString_loop (Suc fuel) b it res =
     (if eob b it then Inr (res, it)
      else case getChar b it of
        None \<Rightarrow> Inl IndeterminateByte
      | Some c \<Rightarrow>
          if c = SP then Inr (res, it)
          else if c = CR then Inr (res, it)
          else parseString_loop fuel b (Iterator_next b it) (res @ [c]))"

definition parseString :: "nat \<Rightarrow> buffer \<Rightarrow> iterator \<Rightarrow> string \<Rightarrow> parse_exn + string \<times> iterator" where
  "parseString fuel b it res =
     (if eob b it then Inl IncompleteInput
      else bindE (parseString_loop fuel b it res) (\<lambda>(res', it').
        if eob b it' then Inl IncompleteInput else Inr (res', it')))"

fun parseLine_loop :: "nat \<Rightarrow> buffer \<Rightarrow> iterator \<Rightarrow> string \<Rightarrow> parse_exn + string \<times> iterator" where
  "parseLine_loop 0 b it res = Inl OutOfFuel"
| "parseLine_loop (Suc fuel) b it res =
     (if eob b it then Inl IncompleteInput
      else case getChar b it of
        None \<Rightarrow> Inl IndeterminateByte
      | Some c \<Rightarrow>
          if c = CR
          then let it1 = Iterator_next b it in
               case getChar b it1 of
                 None \<Rightarrow> Inl IndeterminateByte
               | Some d \<Rightarrow>
                   if d = LF then Inr (res, Iterator_next b it1) else Inl ErrorInRequest
          else parseLine_loop fuel b (Iterator_next b it) (res @ [c]))"

definition parseLine :: "nat \<Rightarrow> buffer \<Rightarrow> iterator \<Rightarrow> string \<Rightarrow> parse_exn + string \<times> iterator" where
  "parseLine fuel b it res =
     (if eob b it then Inl IncompleteInput else parseLine_loop fuel b it res)"

definition skipChar :: "buffer \<Rightarrow> iterator \<Rightarrow> char \<Rightarrow> parse_exn + iterator" where
  "skipChar b it skip =
     (if eob b it then Inl IncompleteInput
      else case getChar b it of
        None \<Rightarrow> Inl IndeterminateByte
      | Some c \<Rightarrow> if c \<noteq> skip then Inl ErrorInRequest else Inr (Iterator_next b it))"

definition skipNewLine :: "buffer \<Rightarrow> iterator \<Rightarrow> parse_exn + iterator" where
  "skipNewLine b it =
     (if eob b it then Inl IncompleteInput
      else case getChar b it of
        None \<Rightarrow> Inl IndeterminateByte
      | Some first \<Rightarrow>
          let it1 = Iterator_next b it in
          if eob b it1 then Inl IncompleteInput
          else case getChar b it1 of
            None \<Rightarrow> Inl IndeterminateByte
          | Some second \<Rightarrow>
              if first \<noteq> CR \<or> second \<noteq> LF then Inl ErrorInRequest
              else Inr (Iterator_next b it1))"

text \<open>The \<open>while (true)\<close> loop of \<open>parseRequest\<close> over the header lines.\<close>

fun skipHeaders :: "nat \<Rightarrow> buffer \<Rightarrow> iterator \<Rightarrow> parse_exn + iterator" where
  "skipHeaders 0 b it = Inl OutOfFuel"
| "skipHeaders (Suc fuel) b it =
     bindE (parseLine (Suc fuel) b it []) (\<lambda>(line, it').
       if length line = 0 then Inr it' else skipHeaders fuel b it')"

definition parseRequest_body :: "nat \<Rightarrow> buffer \<Rightarrow> iterator \<Rightarrow> parse_exn + request \<times> iterator" where
  "parseRequest_body fuel b it =
     bindE (parseString fuel b it []) (\<lambda>(method, it).
     bindE (skipChar b it SP) (\<lambda>it.
     bindE (skipChar b it CHR ''/'') (\<lambda>it.
     bindE (parseString fuel b it []) (\<lambda>(address, it).
     bindE (skipChar b it SP) (\<lambda>it.
     bindE (parseString fuel b it []) (\<lambda>(version, it).
     bindE (skipNewLine b it) (\<lambda>it.
     bindE (skipHeaders fuel b it) (\<lambda>it.
       Inr (\<lparr>req_method = method, req_address = address, req_version = version\<rparr>, it)))))))))"

definition outcome :: "parse_exn + 'a \<times> iterator \<Rightarrow> 'a parse_outcome" where
  "outcome r =
     (case r of
        Inr (a, it) \<Rightarrow> RcParsed a it
      | Inl IncompleteInput \<Rightarrow> RcIncomplete
      | Inl ErrorInRequest \<Rightarrow> RcError
      | Inl e \<Rightarrow> NoReturn e)"

definition parseRequest :: "nat \<Rightarrow> buffer \<Rightarrow> iterator \<Rightarrow> request parse_outcome" where
  "parseRequest fuel b it = outcome (parseRequest_body fuel b it)"

text \<open>
  \<open>Request::toBuffer\<close> writes the fields as C strings: a field ends at its first NUL.
\<close>

definition c_str :: "string \<Rightarrow> string" where
  "c_str s = takeWhile (\<lambda>c. c \<noteq> CHR 0x00) s"

definition Request_toBuffer :: "request \<Rightarrow> buffer \<Rightarrow> buffer" where
  "Request_toBuffer r out =
     fold Buffer_write
       [c_str (req_method r), [SP], c_str (req_address r), [SP], c_str (req_version r),
        [CR, LF, CR, LF]] out"

definition Request_clear :: "request \<Rightarrow> request" where
  "Request_clear r = r\<lparr>req_method := [], req_address := [], req_version := []\<rparr>"

definition Request_cloneFrom :: "request \<Rightarrow> request \<Rightarrow> request" where
  "Request_cloneFrom r other =
     r\<lparr>req_method := req_method other, req_address := req_address other,
       req_version := req_version other\<rparr>"

section \<open>The grammar on byte strings\<close>

text \<open>
  The same grammar as functions of the byte string that is left, which return what they
  recognise and what follows it.
\<close>

definition word_char :: "char \<Rightarrow> bool" where
  "word_char c \<longleftrightarrow> c \<noteq> SP \<and> c \<noteq> CR"

definition gr_word :: "string \<Rightarrow> parse_exn + string \<times> string" where
  "gr_word s = (if dropWhile word_char s = [] then Inl IncompleteInput
     else Inr (takeWhile word_char s, dropWhile word_char s))"

definition gr_char :: "char \<Rightarrow> string \<Rightarrow> parse_exn + string" where
  "gr_char c s = (case s of [] \<Rightarrow> Inl IncompleteInput
     | d # r \<Rightarrow> if d = c then Inr r else Inl ErrorInRequest)"

definition gr_newline :: "string \<Rightarrow> parse_exn + string" where
  "gr_newline s = (case s of c # d # r \<Rightarrow> if c = CR \<and> d = LF then Inr r else Inl ErrorInRequest
     | _ \<Rightarrow> Inl IncompleteInput)"

definition gr_line :: "string \<Rightarrow> parse_exn + string \<times> string" where
  "gr_line s = (case dropWhile (\<lambda>c. c \<noteq> CR) s of
       [] \<Rightarrow> Inl IncompleteInput
     | [_] \<Rightarrow> Inl IndeterminateByte
     | _ # d # r \<Rightarrow> if d = LF then Inr (takeWhile (\<lambda>c. c \<noteq> CR) s, r) else Inl ErrorInRequest)"

lemma gr_line_shorter: "gr_line s = Inr (l, r) \<Longrightarrow> length r < length s"
  using length_dropWhile_le [of "\<lambda>c. c \<noteq> CR" s]
  by (auto simp: gr_line_def split: list.splits if_splits)

function gr_headers :: "string \<Rightarrow> parse_exn + string" where
  "gr_headers s = bindE (gr_line s) (\<lambda>(l, r). if l = [] then Inr r else gr_headers r)"
  by pat_completeness auto
termination
  by (relation "measure length") (auto dest: gr_line_shorter)

declare gr_headers.simps [simp del]

definition gr_request :: "string \<Rightarrow> parse_exn + request \<times> string" where
  "gr_request s =
     bindE (gr_word s) (\<lambda>(method, s).
     bindE (gr_char SP s) (\<lambda>s.
     bindE (gr_char CHR ''/'' s) (\<lambda>s.
     bindE (gr_word s) (\<lambda>(address, s).
     bindE (gr_char SP s) (\<lambda>s.
     bindE (gr_word s) (\<lambda>(version, s).
     bindE (gr_newline s) (\<lambda>s.
     bindE (gr_headers s) (\<lambda>s.
       Inr (\<lparr>req_method = method, req_address = address, req_version = version\<rparr>, s)))))))))"

section \<open>The parser recognises the grammar\<close>

lemma rel_sum_bindE:
  assumes "rel_sum (=) R x y" and "\<And>a c. R a c \<Longrightarrow> rel_sum (=) S (f a) (g c)"
  shows "rel_sum (=) S (bindE x f) (bindE y g)"
  using assms(1) by cases (auto simp: assms(2))

text \<open>A parser step and a grammar step that agree, where the rest is \<open>s\<close>.\<close>

abbreviation sim_it :: "buffer \<Rightarrow> parse_exn + iterator \<Rightarrow> parse_exn + string \<Rightarrow> bool" where
  "sim_it b \<equiv> rel_sum (=) (it_rest b)"

abbreviation sim_val :: "buffer \<Rightarrow> parse_exn + 'a \<times> iterator \<Rightarrow> parse_exn + 'a \<times> string \<Rightarrow> bool" where
  "sim_val b \<equiv> rel_sum (=) (rel_prod (=) (it_rest b))"

lemma parseString_loop_sim:
  "it_rest b it s \<Longrightarrow> length s < fuel \<Longrightarrow>
    \<exists>it'. parseString_loop fuel b it res = Inr (res @ takeWhile word_char s, it') \<and>
      it_rest b it' (dropWhile word_char s)"
proof (induction s arbitrary: it fuel res)
  case Nil
  then show ?case by (cases fuel) (auto simp: it_rest_eob)
next
  case (Cons c s)
  then obtain f where f: "fuel = Suc f" by (cases fuel) auto
  have c: "\<not> eob b it" "getChar b it = Some c" "it_rest b (Iterator_next b it) s"
    using Cons.prems(1) by (auto simp: it_rest_eob dest: it_rest_facts)
  then show ?case
    using Cons.IH [OF c(3), of f "res @ [c]"] Cons.prems f by (auto simp: word_char_def)
qed

lemma parseString_sim:
  assumes "it_rest b it s" "length s < fuel"
  shows "sim_val b (parseString fuel b it []) (gr_word s)"
proof -
  obtain it' where p: "parseString_loop fuel b it [] = Inr (takeWhile word_char s, it')"
    "it_rest b it' (dropWhile word_char s)"
    using parseString_loop_sim [OF assms, of "[]"] by auto
  then show ?thesis
    using assms(1) by (auto simp: parseString_def gr_word_def it_rest_eob)
qed

lemma parseLine_loop_sim:
  "it_rest b it s \<Longrightarrow> length s < fuel \<Longrightarrow> buf_clean b \<Longrightarrow>
    sim_val b (parseLine_loop fuel b it res)
      (bindE (gr_line s) (\<lambda>(l, r). Inr (res @ l, r)))"
proof (induction s arbitrary: it fuel res)
  case Nil
  then show ?case by (cases fuel) (auto simp: it_rest_eob gr_line_def)
next
  case (Cons c s)
  then obtain f where f: "fuel = Suc f" by (cases fuel) auto
  have c: "\<not> eob b it" "getChar b it = Some c" and n: "it_rest b (Iterator_next b it) s"
    using Cons.prems(1) by (auto simp: it_rest_eob dest: it_rest_facts)
  show ?case
  proof (cases "c = CR")
    case True
    then show ?thesis
      using c n f Cons.prems(3)
      by (cases s) (auto simp: gr_line_def Let_def it_rest_end dest!: it_rest_Cons)
  next
    case False
    have "gr_line (c # s) = bindE (gr_line s) (\<lambda>(l, r). Inr (c # l, r))"
      using False by (auto simp: gr_line_def simp del: dropWhile_eq_Nil_conv split: list.splits)
    then have "bindE (gr_line (c # s)) (\<lambda>(l, r). Inr (res @ l, r)) =
        bindE (gr_line s) (\<lambda>(l, r). Inr ((res @ [c]) @ l, r))"
      by (cases "gr_line s") auto
    then show ?thesis
      using Cons.IH [OF n, of f "res @ [c]"] Cons.prems False c f by simp
  qed
qed

lemma parseLine_sim:
  assumes "it_rest b it s" "length s < fuel" "buf_clean b"
  shows "sim_val b (parseLine fuel b it []) (gr_line s)"
proof -
  have "bindE (gr_line s) (\<lambda>(l, r). Inr (l, r)) = gr_line s" by (cases "gr_line s") auto
  then show ?thesis
    using parseLine_loop_sim [OF assms, of "[]"] assms(1)
    by (auto simp: parseLine_def it_rest_eob gr_line_def)
qed

lemma skipChar_sim: "it_rest b it s \<Longrightarrow> sim_it b (skipChar b it c) (gr_char c s)"
  by (cases s) (auto simp: skipChar_def gr_char_def it_rest_eob dest!: it_rest_Cons)

lemma skipNewLine_sim:
  assumes "it_rest b it s"
  shows "sim_it b (skipNewLine b it) (gr_newline s)"
proof (cases s)
  case Nil
  then show ?thesis using assms by (auto simp: skipNewLine_def gr_newline_def it_rest_eob)
next
  case (Cons c r)
  then have c: "\<not> eob b it" "getChar b it = Some c" and n: "it_rest b (Iterator_next b it) r"
    using assms by (auto simp: it_rest_eob dest: it_rest_facts)
  then show ?thesis
    using Cons by (cases r)
      (auto simp: skipNewLine_def gr_newline_def it_rest_eob Let_def dest!: it_rest_Cons)
qed

lemma skipHeaders_sim:
  "it_rest b it s \<Longrightarrow> length s < fuel \<Longrightarrow> buf_clean b \<Longrightarrow>
    sim_it b (skipHeaders fuel b it) (gr_headers s)"
proof (induction s arbitrary: it fuel rule: gr_headers.induct)
  case (1 s)
  then obtain f where f: "fuel = Suc f" by (cases fuel) auto
  note p = parseLine_sim [OF "1.prems"]
  show ?case
  proof (cases "gr_line s")
    case (Inl e)
    then show ?thesis using p f by (auto simp: gr_headers.simps [of s] rel_sum.simps)
  next
    case (Inr lr)
    then obtain l r it' where lr: "gr_line s = Inr (l, r)"
      "parseLine fuel b it [] = Inr (l, it')" "it_rest b it' r"
      using p by (cases lr) (auto simp: rel_sum.simps)
    show ?thesis
      using "1.IH" [OF lr(1) refl _ lr(3), of f] "1.prems" gr_line_shorter [OF lr(1)] lr f
      by (auto simp: gr_headers.simps [of s])
  qed
qed

lemma parseRequest_body_sim:
  assumes "it_rest b it s" "length (buf_bytes b) < fuel" "buf_clean b"
  shows "sim_val b (parseRequest_body fuel b it) (gr_request s)"
proof -
  have fuel: "length r < fuel" if "it_rest b i r" for i r
    using it_rest_length [OF that] assms(2) by simp
  note steps = parseString_sim [OF _ fuel] skipChar_sim skipNewLine_sim
    skipHeaders_sim [OF _ fuel assms(3)]
  show ?thesis
    unfolding parseRequest_body_def gr_request_def using assms(1)
    by (fastforce intro!: rel_sum_bindE intro: steps)
qed

lemma gr_line_no_fuel: "gr_line s \<noteq> Inl OutOfFuel"
  by (auto simp: gr_line_def split: list.splits)

lemma gr_headers_no_fuel: "gr_headers s \<noteq> Inl OutOfFuel"
proof (induction s rule: gr_headers.induct)
  case (1 s)
  have "gr_headers r \<noteq> Inl OutOfFuel" if "gr_line s = Inr (l, r)" "l \<noteq> []" for l r
    using 1 that by blast
  then show ?case
    using gr_line_no_fuel [of s]
    by (subst gr_headers.simps) (cases "gr_line s", auto split: if_splits)
qed

lemma gr_request_no_fuel: "gr_request s \<noteq> Inl OutOfFuel"
proof -
  have w: "gr_word s \<noteq> Inl OutOfFuel" and c: "gr_char c s \<noteq> Inl OutOfFuel"
    and n: "gr_newline s \<noteq> Inl OutOfFuel" for s c
    by (auto simp: gr_word_def gr_char_def gr_newline_def split: list.splits)
  show ?thesis
    unfolding gr_request_def
    by (intro bindE_not_Inl w c n gr_headers_no_fuel | simp add: split_beta)+
qed

section \<open>Printing and reading back\<close>

text \<open>A request that can be printed: no field holds a separator or a NUL.\<close>

definition field_ok :: "string \<Rightarrow> bool" where
  "field_ok s \<longleftrightarrow> (\<forall>c \<in> set s. word_char c \<and> c \<noteq> CHR 0x00)"

definition request_ok :: "request \<Rightarrow> bool" where
  "request_ok r \<longleftrightarrow> field_ok (req_method r) \<and> field_ok (req_address r) \<and>
     field_ok (req_version r) \<and> take 1 (req_address r) = ''/''"

definition request_text :: "request \<Rightarrow> string" where
  "request_text r =
     req_method r @ [SP] @ req_address r @ [SP] @ req_version r @ [CR, LF, CR, LF]"

definition parsed_form :: "request \<Rightarrow> request" where
  "parsed_form r = r\<lparr>req_address := tl (req_address r)\<rparr>"

lemma word_char_simps [simp]: "\<not> word_char SP" "\<not> word_char CR"
  by (simp_all add: word_char_def)

lemma field_ok_word: "field_ok s \<Longrightarrow> \<forall>c \<in> set s. word_char c"
  by (simp add: field_ok_def)

lemma c_str_ok: "field_ok s \<Longrightarrow> c_str s = s"
  by (simp add: c_str_def field_ok_def takeWhile_eq_all_conv)

lemma gr_word_then:
  "\<forall>c \<in> set w. word_char c \<Longrightarrow> \<not> word_char d \<Longrightarrow> gr_word (w @ d # t) = Inr (w, d # t)"
  by (simp add: gr_word_def takeWhile_then)

lemma gr_empty_line: "gr_headers (CR # LF # t) = Inr t"
  by (simp add: gr_headers.simps gr_line_def)

text \<open>A request as a browser sends it: the request line, any number of header lines, and the empty line.\<close>

definition header_ok :: "string \<Rightarrow> bool" where
  "header_ok h \<longleftrightarrow> h \<noteq> [] \<and> CR \<notin> set h"

definition request_line :: "request \<Rightarrow> string" where
  "request_line r = req_method r @ [SP] @ req_address r @ [SP] @ req_version r @ [CR, LF]"

definition header_text :: "string list \<Rightarrow> string" where
  "header_text hs = concat (map (\<lambda>h. h @ [CR, LF]) hs) @ [CR, LF]"

definition full_request :: "request \<Rightarrow> string list \<Rightarrow> string" where
  "full_request r hs = request_line r @ header_text hs"

lemma full_request_plain: "full_request r [] = request_text r"
  by (simp add: full_request_def request_line_def header_text_def request_text_def)

lemma until_CR: "CR \<notin> set h \<Longrightarrow> takeWhile (\<lambda>c. c \<noteq> CR) (h @ CR # t) = h \<and> dropWhile (\<lambda>c. c \<noteq> CR) (h @ CR # t) = CR # t"
  by (rule takeWhile_then) auto

lemma gr_line_then: "CR \<notin> set h \<Longrightarrow> gr_line (h @ CR # LF # t) = Inr (h, t)"
  using until_CR [of h "LF # t"] by (simp add: gr_line_def)

lemma gr_header_text: "\<forall>h \<in> set hs. header_ok h \<Longrightarrow> gr_headers (header_text hs @ t) = Inr t"
proof (induction hs)
  case Nil
  then show ?case by (simp add: header_text_def gr_empty_line)
next
  case (Cons h hs)
  then show ?case
    using gr_line_then [of h "header_text hs @ t"] by (subst gr_headers.simps) (simp add: header_ok_def header_text_def)
qed

lemma gr_full_request:
  assumes "request_ok r" "\<forall>h \<in> set hs. header_ok h"
  shows "gr_request (full_request r hs @ t) = Inr (parsed_form r, t)"
proof -
  obtain a where a: "req_address r = CHR ''/'' # a"
    using assms by (cases "req_address r") (auto simp: request_ok_def)
  have "\<forall>c \<in> set (req_method r). word_char c" "\<forall>c \<in> set a. word_char c"
    "\<forall>c \<in> set (req_version r). word_char c"
    using assms a by (auto simp: request_ok_def field_ok_def)
  then show ?thesis
    using a by (simp add: full_request_def request_line_def gr_request_def gr_word_then gr_char_def gr_newline_def
        gr_header_text [OF assms(2)] parsed_form_def)
qed

lemma gr_request_text: "request_ok r \<Longrightarrow> gr_request (request_text r @ t) = Inr (parsed_form r, t)"
  using gr_full_request [of r "[]"] by (simp add: full_request_plain)

lemma Request_toBuffer_bytes:
  assumes "request_ok r" "buf_ok b"
  shows "buf_bytes (Request_toBuffer r b) = buf_bytes b @ request_text r"
    and "buf_ok (Request_toBuffer r b)"
proof -
  have eq: "Request_toBuffer r b = fold Buffer_write
      [req_method r, [SP], req_address r, [SP], req_version r, [CR, LF, CR, LF]] b"
    using assms(1) by (simp only: Request_toBuffer_def c_str_ok request_ok_def)
  show "buf_bytes (Request_toBuffer r b) = buf_bytes b @ request_text r"
    "buf_ok (Request_toBuffer r b)"
    unfolding eq using buf.puts [OF assms(2)] by (simp_all only: request_text_def) simp
qed

lemma Request_toBuffer_clean: "buf_clean (Request_toBuffer r Buffer_new)"
proof -
  have "buf_ok b \<Longrightarrow> buf_clean b \<Longrightarrow> buf_clean (fold Buffer_write ds b)" for ds b
  proof (induction ds arbitrary: b)
    case (Cons d ds)
    then have "buf_clean (Buffer_write d b)" by (simp add: Buffer_write_clean buf_ok_def)
    then show ?case using Cons by (simp add: Buffer_write_ok)
  qed simp
  then show ?thesis using Buffer_new_ok Buffer_new_clean by (simp only: Request_toBuffer_def)
qed

section \<open>Incomplete requests\<close>

lemma gr_word_prefix:
  assumes "prefix s (w @ d # t)" "\<forall>c \<in> set w. word_char c" "\<not> word_char d"
  obtains "gr_word s = Inl IncompleteInput" "length s \<le> length w"
  | s' where "s = w @ d # s'" "prefix s' t" "gr_word s = Inr (w, d # s')"
proof (cases "prefix s w")
  case True
  then have "\<forall>c \<in> set s. word_char c" using assms(2) by (auto dest: set_mono_prefix)
  then show ?thesis using True that(1) by (simp add: gr_word_def prefix_length_le)
next
  case False
  then obtain s' where "s = w @ d # s'" "prefix s' t"
    using assms(1) by (auto simp: prefix_append prefix_Cons)
  then show ?thesis using that(2) assms gr_word_then by blast
qed

lemma gr_char_prefix:
  assumes "prefix s (c # t)"
  obtains "s = []" "gr_char c s = Inl IncompleteInput"
  | s' where "s = c # s'" "prefix s' t" "gr_char c s = Inr s'"
  using assms that by (cases s) (auto simp: gr_char_def)

text \<open>
  A header line that ends in the carriage return makes \<open>parseLine\<close> look at the byte after it.
\<close>

definition cut_error :: "string \<Rightarrow> parse_exn" where
  "cut_error s = (if s \<noteq> [] \<and> last s = CR then IndeterminateByte else IncompleteInput)"

lemma gr_line_cut:
  assumes "prefix s (h @ [CR])" "CR \<notin> set h"
  shows "gr_line s = Inl (cut_error s)"
proof (cases "s = h @ [CR]")
  case True
  have "dropWhile (\<lambda>c. c \<noteq> CR) (h @ [CR]) = [CR]" using until_CR [OF assms(2), of "[]"] by simp
  then show ?thesis using True by (simp add: gr_line_def cut_error_def)
next
  case False
  then have "prefix s h" using assms(1) by (auto simp: prefix_snoc)
  then have no: "CR \<notin> set s" using assms(2) set_mono_prefix by fastforce
  then have "dropWhile (\<lambda>c. c \<noteq> CR) s = []" "s \<noteq> [] \<Longrightarrow> last s \<noteq> CR" by (auto dest: last_in_set)
  then show ?thesis by (simp only: gr_line_def cut_error_def list.case) auto
qed

lemma gr_headers_cut:
  "prefix s (header_text hs) \<Longrightarrow> length s < length (header_text hs) \<Longrightarrow> \<forall>h \<in> set hs. header_ok h \<Longrightarrow>
    gr_headers s = Inl (cut_error s)"
proof (induction hs arbitrary: s)
  case Nil
  then have "s = [] \<or> s = [CR]" by (auto simp: header_text_def prefix_Cons)
  then show ?case by (auto simp: gr_headers.simps gr_line_def cut_error_def)
next
  case (Cons h hs)
  have h: "header_ok h" "CR \<notin> set h" "h \<noteq> []" using Cons.prems(3) by (auto simp: header_ok_def)
  have t: "header_text (h # hs) = (h @ [CR]) @ LF # header_text hs" by (simp add: header_text_def)
  show ?case
  proof (cases "prefix s (h @ [CR])")
    case True
    then show ?thesis using gr_line_cut [OF True h(2)] by (subst gr_headers.simps) simp
  next
    case False
    then obtain s' where s': "s = h @ CR # LF # s'" "prefix s' (header_text hs)"
      using Cons.prems(1) by (auto simp: t prefix_append prefix_Cons)
    have "gr_headers s' = Inl (cut_error s')" using Cons s' t by simp
    moreover have "cut_error s = cut_error s'" by (auto simp: cut_error_def s'(1))
    ultimately show ?thesis using gr_line_then [OF h(2), of s'] h(3) s'(1) by (subst gr_headers.simps) simp
  qed
qed

lemma gr_end_cut:
  assumes "prefix s (CR # LF # header_text hs)" "length s < length (CR # LF # header_text hs)" "\<forall>h \<in> set hs. header_ok h"
  shows "bindE (gr_newline s) gr_headers = Inl (if 2 < length s then cut_error s else IncompleteInput)"
proof -
  consider "s = []" | "s = [CR]" | s' where "s = CR # LF # s'" "prefix s' (header_text hs)"
    using assms(1) by (auto simp: prefix_Cons)
  then show ?thesis
  proof cases
    case 3
    then have "gr_headers s' = Inl (cut_error s')" using assms(2,3) gr_headers_cut by simp
    moreover have "cut_error s' = (if 2 < length s then cut_error s else IncompleteInput)" using 3(1) by (auto simp: cut_error_def)
    ultimately show ?thesis using 3(1) by (simp add: gr_newline_def)
  qed (auto simp: gr_newline_def)
qed

lemma gr_request_cut:
  assumes ok: "request_ok r" "\<forall>h \<in> set hs. header_ok h" and pre: "prefix s (full_request r hs)"
    and len: "length s < length (full_request r hs)"
  shows "gr_request s = Inl (if length (request_line r) < length s then cut_error s else IncompleteInput)"
proof -
  obtain a where a: "req_address r = CHR ''/'' # a"
    using ok by (cases "req_address r") (auto simp: request_ok_def)
  have w: "\<forall>c \<in> set (req_method r). word_char c" "\<forall>c \<in> set a. word_char c"
    "\<forall>c \<in> set (req_version r). word_char c"
    using ok a by (auto simp: request_ok_def field_ok_def)
  have t: "full_request r hs = req_method r @ SP # CHR ''/'' # a @ SP # req_version r @ CR # LF # header_text hs"
    and l: "length (request_line r) = length (req_method r) + length a + length (req_version r) + 5"
    using a by (simp_all add: full_request_def request_line_def)
  show ?thesis
  proof (rule gr_word_prefix [OF pre [unfolded t] w(1)], simp, goal_cases)
    case 1
    then show ?thesis by (simp add: gr_request_def l)
  next
    case (2 s1)
    from 2(2) show ?thesis
    proof (rule gr_char_prefix, goal_cases)
      case 1
      then show ?thesis using 2 by (simp add: gr_request_def l gr_char_def)
    next
      case slash: (2 s2)
      from slash(2) w(2) show ?thesis
      proof (rule gr_word_prefix, simp, goal_cases)
        case 1
        then show ?thesis using 2 slash by (simp add: gr_request_def l gr_char_def)
      next
        case addr: (2 s3)
        from addr(2) w(3) show ?thesis
        proof (rule gr_word_prefix, simp, goal_cases)
          case 1
          then show ?thesis using 2 slash addr by (simp add: gr_request_def l gr_char_def)
        next
          case vers: (2 s4)
          have "bindE (gr_newline (CR # s4)) gr_headers = Inl (if 2 < length (CR # s4) then cut_error (CR # s4) else IncompleteInput)"
            using vers 2 slash addr len by (intro gr_end_cut [OF _ _ ok(2)]) (auto simp: t)
          note e = bindE_assoc_Inl [OF this]
          have "cut_error s = cut_error (CR # s4)" using 2 slash addr vers by (simp add: cut_error_def)
          then show ?thesis
            using 2 slash addr vers by (simp add: gr_request_def l gr_char_def e)
        qed
      qed
    qed
  qed
qed

section \<open>Parsing a buffer\<close>

lemma parseRequest_parsed:
  assumes "buf_wf b" "buf_flow b" "buf_clean b" "length (buf_bytes b) < fuel"
    "gr_request (buf_bytes b) = Inr (r, rest)"
  shows "\<exists>it. parseRequest fuel b (Buffer_begin b) = RcParsed r it \<and>
    bytes_read it = length (buf_bytes b) - length rest \<and> it_rest b it rest"
proof -
  have "sim_val b (parseRequest_body fuel b (Buffer_begin b)) (Inr (r, rest))"
    using assms parseRequest_body_sim [OF it_rest_begin] by metis
  then show ?thesis
    by cases (auto simp: parseRequest_def outcome_def it_rest_read)
qed

lemma parseRequest_fails:
  assumes "buf_wf b" "buf_flow b" "buf_clean b" "length (buf_bytes b) < fuel"
    "gr_request (buf_bytes b) = Inl e"
  shows "parseRequest fuel b (Buffer_begin b) = outcome (Inl e)"
proof -
  have "sim_val b (parseRequest_body fuel b (Buffer_begin b)) (Inl e :: parse_exn + request \<times> string)"
    using assms parseRequest_body_sim [OF it_rest_begin] by metis
  then show ?thesis by cases (auto simp: parseRequest_def)
qed

text \<open>A buffer a test or a client filled with one string.\<close>

definition buffer_of :: "string \<Rightarrow> buffer" where
  "buffer_of s = Buffer_write s Buffer_new"

lemma buffer_of_props [simp]:
  "buf_ok (buffer_of s)" "buf_wf (buffer_of s)" "buf_flow (buffer_of s)" "buf_clean (buffer_of s)"
  "buf_bytes (buffer_of s) = s"
  using Buffer_write_ok [OF Buffer_new_ok, of s] Buffer_write_clean [OF Buffer_new_wf(1) Buffer_new_clean]
    buf.put_content [OF Buffer_new_ok, of s]
  by (auto simp: buffer_of_def buf_ok_def Buffer_new_wf)

section \<open>Properties\<close>

text \<open>
  C27. On every well-formed, stall-free buffer \<open>parseRequest\<close> returns what the request
  grammar says of the unread bytes: the same request, leaving the iterator after the bytes the
  grammar consumed, or the same error. No loop runs more often than there are unread bytes.
\<close>

theorem parseRequest_recognises_grammar:
  assumes "buf_wf b" "buf_flow b" "buf_clean b" "length (buf_bytes b) < fuel"
  shows "parseRequest fuel b (Buffer_begin b) \<noteq> NoReturn OutOfFuel \<and>
    (case gr_request (buf_bytes b) of
       Inr (r, rest) \<Rightarrow> (\<exists>it. parseRequest fuel b (Buffer_begin b) = RcParsed r it \<and>
         bytes_read it = length (buf_bytes b) - length rest \<and> it_rest b it rest)
     | Inl e \<Rightarrow> parseRequest fuel b (Buffer_begin b) = outcome (Inl e))"
proof (cases "gr_request (buf_bytes b)")
  case (Inl e)
  then show ?thesis
    using parseRequest_fails [OF assms Inl] gr_request_no_fuel [of "buf_bytes b"]
    by (auto simp: outcome_def split: parse_exn.splits)
next
  case (Inr p)
  then show ?thesis using parseRequest_parsed [OF assms] by (cases p) fastforce
qed

theorem parseRequest_recognises_grammar_witness:
  "parseRequest 20 (buffer_of ''GET x'') (Buffer_begin (buffer_of ''GET x'')) = RcError"
proof -
  have "gr_request ''GET x'' = Inl ErrorInRequest"
    by (simp add: gr_request_def gr_word_def gr_char_def word_char_def SP_def CR_def)
  then show ?thesis
    using parseRequest_recognises_grammar [of "buffer_of ''GET x''" 20] by (simp add: outcome_def)
qed

text \<open>
  C29. A request whose fields hold no space, carriage return or null byte and whose address begins with a slash, printed by
  \<open>Request::toBuffer\<close> and followed by any bytes, is read back: the parser returns the method, the address without its leading slash,
  and the version, and has read exactly the bytes that were printed.
\<close>

theorem parseRequest_toBuffer:
  assumes "request_ok r" "b = Buffer_write rest (Request_toBuffer r Buffer_new)"
    "length (request_text r @ rest) < fuel"
  shows "\<exists>it. parseRequest fuel b (Buffer_begin b) = RcParsed (parsed_form r) it \<and>
    bytes_read it = length (request_text r)"
proof -
  note r = Request_toBuffer_bytes [OF assms(1) Buffer_new_ok]
  have b: "buf_ok b" "buf_bytes b = request_text r @ rest"
    using assms(2) r buf.put_invar buf.put_content by (auto simp: Buffer_new_wf)
  have "buf_clean b"
    using Request_toBuffer_clean assms(2) r(2) by (simp add: Buffer_write_clean buf_ok_def)
  then show ?thesis
    using parseRequest_parsed [of b fuel "parsed_form r" rest] b assms gr_request_text [OF assms(1)]
    by (auto simp: buf_ok_def)
qed

definition get_index :: request where
  "get_index = \<lparr>req_method = ''GET'', req_address = ''/index.html'', req_version = ''HTTP/1.1''\<rparr>"

lemma get_index_ok [simp]: "request_ok get_index"
  by (simp add: get_index_def request_ok_def field_ok_def word_char_def SP_def CR_def)

lemma get_index_text [simp]: "length (request_text get_index) = 28"
  by (simp add: request_text_def get_index_def)

theorem parseRequest_toBuffer_witness:
  "\<exists>it. parseRequest 40 (Buffer_write [] (Request_toBuffer get_index Buffer_new))
      (Buffer_begin (Buffer_write [] (Request_toBuffer get_index Buffer_new)))
    = RcParsed \<lparr>req_method = ''GET'', req_address = ''index.html'', req_version = ''HTTP/1.1''\<rparr> it \<and>
    bytes_read it = 28"
  using parseRequest_toBuffer [OF get_index_ok refl, of "[]" 40]
  by (simp add: parsed_form_def) (simp add: get_index_def)

text \<open>
  C36. A request that has arrived only in part (a request line with valid fields, any header lines, the empty line, cut anywhere) is
  reported as incomplete, except when the cut falls behind the request line and the last byte received is a carriage return,
  of a header line or of the empty line: then \<open>parseLine\<close> compares a byte the buffer does not hold yet.
\<close>

theorem parseRequest_partial:
  assumes "request_ok r" "\<forall>h \<in> set hs. header_ok h" "k < length (full_request r hs)" "length (full_request r hs) \<le> fuel"
  shows "parseRequest fuel (buffer_of (take k (full_request r hs)))
      (Buffer_begin (buffer_of (take k (full_request r hs)))) =
    (if length (request_line r) < k \<and> full_request r hs ! (k - 1) = CR then NoReturn IndeterminateByte else RcIncomplete)"
proof -
  let ?b = "buffer_of (take k (full_request r hs))"
  have "last (take k (full_request r hs)) = full_request r hs ! (k - 1)" if "0 < k"
    using that assms(3) by (subst last_conv_nth) auto
  then have "gr_request (buf_bytes ?b) =
      Inl (if length (request_line r) < k \<and> full_request r hs ! (k - 1) = CR then IndeterminateByte else IncompleteInput)"
    using gr_request_cut [OF assms(1,2), of "take k (full_request r hs)"] assms(3)
    by (auto simp: take_is_prefix cut_error_def)
  from parseRequest_fails [OF _ _ _ _ this, of fuel] show ?thesis
    using assms by (auto simp: outcome_def)
qed

theorem parseRequest_partial_witness:
  "parseRequest 60 (buffer_of (take 30 (full_request get_index [''Host: x''])))
      (Buffer_begin (buffer_of (take 30 (full_request get_index [''Host: x''])))) = RcIncomplete \<and>
   parseRequest 60 (buffer_of (take 34 (full_request get_index [''Host: x''])))
      (Buffer_begin (buffer_of (take 34 (full_request get_index [''Host: x''])))) = NoReturn IndeterminateByte"
proof -
  have t: "full_request get_index [''Host: x''] = ''GET /index.html HTTP/1.1'' @ [CR, LF] @ ''Host: x'' @ [CR, LF, CR, LF]"
    "length (request_line get_index) = 26"
    by (simp_all add: full_request_def request_line_def header_text_def get_index_def SP_def)
  have "header_ok ''Host: x''" by (simp add: header_ok_def CR_def)
  then show ?thesis
    using parseRequest_partial [OF get_index_ok, of "[''Host: x'']" 30 60] parseRequest_partial [OF get_index_ok, of "[''Host: x'']" 34 60]
    by (simp add: t) (simp add: CR_def)
qed

end
