(* ===== verification/Http_Response.thy ===== *)
theory Http_Response
  imports Http_Parser
begin

text \<open>
  The response side of \<^verbatim>\<open>src/http_parser.cpp\<close> and the parts of the standard streams it uses:
  decimal output, and extraction of an unsigned number, which skips white space, takes an
  optional sign and digits, stores 0 when there is no digit and the largest value on overflow,
  and leaves the variable alone when the stream is at its end.
\<close>

section \<open>Numbers in streams\<close>

definition digit_char :: "nat \<Rightarrow> char" where
  "digit_char d = char_of (48 + d)"

function show_nat :: "nat \<Rightarrow> string" where
  "show_nat n = (if n < 10 then [digit_char n] else show_nat (n div 10) @ [digit_char (n mod 10)])"
  by pat_completeness auto
termination by (relation "measure id") auto

declare show_nat.simps [simp del]

definition is_digit :: "char \<Rightarrow> bool" where
  "is_digit c \<longleftrightarrow> 48 \<le> (of_char c :: nat) \<and> (of_char c :: nat) \<le> 57"

definition is_space :: "char \<Rightarrow> bool" where
  "is_space c \<longleftrightarrow> c = SP \<or> (9 \<le> (of_char c :: nat) \<and> (of_char c :: nat) \<le> 13)"

definition digits_value :: "string \<Rightarrow> nat" where
  "digits_value ds = foldl (\<lambda>v c. v * 10 + (of_char c - 48)) 0 ds"

text \<open>Extraction into an unsigned variable of \<open>w\<close> bits that holds \<open>old\<close>.\<close>

definition extract_unsigned :: "nat \<Rightarrow> nat \<Rightarrow> string \<Rightarrow> nat" where
  "extract_unsigned w old s =
     (let s1 = dropWhile is_space s
      in if s1 = [] then old
         else let neg = (hd s1 = CHR ''-'');
                  s2 = (if neg \<or> hd s1 = CHR ''+'' then tl s1 else s1);
                  ds = takeWhile is_digit s2;
                  v = digits_value ds
              in if ds = [] then 0
                 else if v \<ge> 2 ^ w then 2 ^ w - 1
                 else if neg then (2 ^ w - v) mod 2 ^ w else v)"

lemma digit_char_value: "d < 10 \<Longrightarrow> of_char (digit_char d) = 48 + d"
  by (simp add: digit_char_def)

lemma show_nat_digits: "\<forall>c \<in> set (show_nat n). is_digit c" "show_nat n \<noteq> []"
proof (induction n rule: show_nat.induct)
  case (1 n)
  have d: "is_digit (digit_char k)" if "k < 10" for k using that by (simp add: is_digit_def digit_char_value)
  show "\<forall>c \<in> set (show_nat n). is_digit c"
    using 1 d by (subst show_nat.simps) (auto split: if_splits)
  show "show_nat n \<noteq> []" by (subst show_nat.simps) simp
qed

lemma digits_value_show: "digits_value (show_nat n) = n"
proof (induction n rule: show_nat.induct)
  case (1 n)
  have app: "digits_value (s @ [c]) = digits_value s * 10 + (of_char c - 48)" for s c
    by (simp add: digits_value_def)
  have d: "of_char (digit_char (n mod 10)) = 48 + n mod 10" by (rule digit_char_value) simp
  show ?case
  proof (cases "n < 10")
    case True
    then show ?thesis by (subst show_nat.simps) (simp add: digits_value_def digit_char_value)
  next
    case False
    then have "digits_value (show_nat n) = n div 10 * 10 + (of_char (digit_char (n mod 10)) - 48)"
      using 1 by (subst show_nat.simps) (simp add: app)
    then show ?thesis using d by simp
  qed
qed

lemma digit_facts:
  assumes "is_digit c"
  shows "\<not> is_space c" "c \<noteq> CHR ''-''" "c \<noteq> CHR ''+''" "word_char c" "c \<noteq> CHR 0x00" "c \<noteq> CR"
  using assms by (auto simp: is_digit_def is_space_def SP_def CR_def word_char_def)

lemma extract_show:
  assumes "n < 2 ^ w" "rest = [] \<or> \<not> is_digit (hd rest)"
  shows "extract_unsigned w old (show_nat n @ rest) = n"
proof -
  obtain c cs where c: "show_nat n = c # cs" using show_nat_digits(2) [of n] by (cases "show_nat n") auto
  then have d: "is_digit c" "\<forall>x \<in> set (show_nat n). is_digit x" using show_nat_digits(1) [of n] by auto
  have tw: "takeWhile is_digit (show_nat n @ rest) = show_nat n"
    using d(2) assms(2) by (cases rest) (auto simp: takeWhile_append2)
  show ?thesis
    using c d(1) tw assms(1) digits_value_show [of n] digit_facts [OF d(1)]
    by (simp add: extract_unsigned_def Let_def)
qed

section \<open>parseResponse\<close>

definition Response_clear :: response where
  "Response_clear = \<lparr>statusLine = [], headerRemainder = [], resp_body = []\<rparr>"

definition lengthString :: string where
  "lengthString = ''Content-Length:''"

fun find_sub :: "string \<Rightarrow> string \<Rightarrow> bool" where
  "find_sub pat [] = (pat = [])"
| "find_sub pat (c # s) = (take (length pat) (c # s) = pat \<or> find_sub pat s)"

text \<open>
  One header line: the value is taken from index \<open>sizeof(lengthString)\<close>, 16, of the line,
  wherever the name was found; a shorter line makes the string constructor throw
  \<open>out_of_range\<close>, which no caller catches.
\<close>

definition header_line :: "string \<Rightarrow> nat \<Rightarrow> parse_exn + nat" where
  "header_line line contentSize =
     (if find_sub lengthString line
      then if length line < 16 then Inl OutOfRange
           else Inr (extract_unsigned 64 contentSize (drop 16 line))
      else Inr contentSize)"

fun parseHeaders :: "nat \<Rightarrow> buffer \<Rightarrow> iterator \<Rightarrow> nat \<Rightarrow> string \<Rightarrow> parse_exn + (nat \<times> string) \<times> iterator" where
  "parseHeaders 0 b it contentSize acc = Inl OutOfFuel"
| "parseHeaders (Suc fuel) b it contentSize acc =
     bindE (parseLine (Suc fuel) b it []) (\<lambda>(line, it').
       if line = [] then Inr ((contentSize, acc), it')
       else bindE (header_line line contentSize) (\<lambda>n. parseHeaders fuel b it' n (acc @ line)))"

fun readBody :: "nat \<Rightarrow> buffer \<Rightarrow> iterator \<Rightarrow> string \<Rightarrow> parse_exn + string \<times> iterator" where
  "readBody 0 b it acc = Inr (acc, it)"
| "readBody (Suc n) b it acc =
     (case getChar b it of
        None \<Rightarrow> Inl IndeterminateByte
      | Some c \<Rightarrow> readBody n b (Iterator_next b it) (acc @ [c]))"

definition parseResponse_body :: "nat \<Rightarrow> buffer \<Rightarrow> iterator \<Rightarrow> parse_exn + response \<times> iterator" where
  "parseResponse_body fuel b it =
     bindE (parseLine fuel b it []) (\<lambda>(status, it).
     bindE (parseHeaders fuel b it 0 []) (\<lambda>((contentSize, hdr), it).
       if size_sub (bytes_total it) (bytes_read it) < contentSize then Inl IncompleteInput
       else bindE (readBody contentSize b it []) (\<lambda>(bdy, it).
         Inr (\<lparr>statusLine = status, headerRemainder = hdr, resp_body = bdy\<rparr>, it))))"

definition parseResponse :: "nat \<Rightarrow> buffer \<Rightarrow> iterator \<Rightarrow> response parse_outcome" where
  "parseResponse fuel b it = outcome (parseResponse_body fuel b it)"

section \<open>The response grammar\<close>

function gr_fields :: "nat \<Rightarrow> string \<Rightarrow> string \<Rightarrow> parse_exn + (nat \<times> string) \<times> string" where
  "gr_fields n acc s = bindE (gr_line s) (\<lambda>(l, r).
     if l = [] then Inr ((n, acc), r)
     else bindE (header_line l n) (\<lambda>m. gr_fields m (acc @ l) r))"
  by pat_completeness auto
termination
  by (relation "measure (\<lambda>(n, acc, s). length s)") (auto dest: gr_line_shorter)

declare gr_fields.simps [simp del]

definition gr_response :: "string \<Rightarrow> parse_exn + response \<times> string" where
  "gr_response s =
     bindE (gr_line s) (\<lambda>(status, s).
     bindE (gr_fields 0 [] s) (\<lambda>((n, hdr), s).
       if length s < n then Inl IncompleteInput
       else Inr (\<lparr>statusLine = status, headerRemainder = hdr, resp_body = take n s\<rparr>, drop n s)))"

lemma parseHeaders_sim:
  "it_rest b it s \<Longrightarrow> length s < fuel \<Longrightarrow> buf_clean b \<Longrightarrow>
    sim_val b (parseHeaders fuel b it n acc) (gr_fields n acc s)"
proof (induction n acc s arbitrary: it fuel rule: gr_fields.induct)
  case (1 n acc s)
  then obtain f where f: "fuel = Suc f" by (cases fuel) auto
  note p = parseLine_sim [OF "1.prems"]
  show ?case
  proof (cases "gr_line s")
    case (Inl e)
    then show ?thesis using p f by (auto simp: gr_fields.simps [of n acc s] rel_sum.simps)
  next
    case (Inr lr)
    then obtain l r it' where lr: "gr_line s = Inr (l, r)"
      "parseLine fuel b it [] = Inr (l, it')" "it_rest b it' r"
      using p by (cases lr) (auto simp: rel_sum.simps)
    have len: "length r < f" using gr_line_shorter [OF lr(1)] "1.prems"(2) f by simp
    show ?thesis
    proof (cases "l = []")
      case True
      then show ?thesis using lr f by (simp add: gr_fields.simps [of n acc s])
    next
      case ne: False
      show ?thesis
      proof (cases "header_line l n")
        case (Inl e)
        then show ?thesis using lr f ne by (simp add: gr_fields.simps [of n acc s])
      next
        case (Inr m)
        have "sim_val b (parseHeaders f b it' m (acc @ l)) (gr_fields m (acc @ l) r)"
          by (rule "1.IH" [OF lr(1) refl ne Inr lr(3) len "1.prems"(3)])
        then show ?thesis using lr f ne Inr by (simp add: gr_fields.simps [of n acc s])
      qed
    qed
  qed
qed

lemma readBody_sim:
  "it_rest b it s \<Longrightarrow> n \<le> length s \<Longrightarrow>
    \<exists>it'. readBody n b it acc = Inr (acc @ take n s, it') \<and> it_rest b it' (drop n s)"
proof (induction n arbitrary: it s acc)
  case (Suc n)
  then obtain c r where s: "s = c # r" by (cases s) auto
  then have "getChar b it = Some c" "it_rest b (Iterator_next b it) r"
    using Suc.prems(1) by (auto dest: it_rest_Cons)
  then show ?case using Suc.IH [of "Iterator_next b it" r "acc @ [c]"] Suc.prems(2) s by simp
qed simp

lemma bytes_left:
  assumes "it_rest b it s" "buf_ok b"
  shows "size_sub (bytes_total it) (bytes_read it) = length s"
  using it_rest_read [OF assms(1)] it_rest_length [OF assms(1)] buf_ok_readout(1) [OF assms(2)]
  by (simp add: size_sub_def)

lemma parseResponse_body_sim:
  assumes "it_rest b it s" "length (buf_bytes b) < fuel" "buf_clean b" "buf_ok b"
  shows "sim_val b (parseResponse_body fuel b it) (gr_response s)"
proof -
  have fuel: "length r < fuel" if "it_rest b i r" for i r
    using it_rest_length [OF that] assms(2) by simp
  have tail: "sim_val b
      (if size_sub (bytes_total i) (bytes_read i) < n then Inl IncompleteInput
       else bindE (readBody n b i []) (\<lambda>(bdy, it).
         Inr (\<lparr>statusLine = st, headerRemainder = hdr, resp_body = bdy\<rparr>, it)))
      (if length r < n then Inl IncompleteInput
       else Inr (\<lparr>statusLine = st, headerRemainder = hdr, resp_body = take n r\<rparr>, drop n r))"
    if r: "it_rest b i r" for i r n st hdr
  proof (cases "length r < n")
    case False
    then obtain i' where "readBody n b i [] = Inr (take n r, i')" "it_rest b i' (drop n r)"
      using readBody_sim [OF r, of n "[]"] by auto
    then show ?thesis using False bytes_left [OF r assms(4)] by simp
  qed (use bytes_left [OF r assms(4)] in simp)
  show ?thesis
    unfolding parseResponse_body_def gr_response_def
    by (rule rel_sum_bindE [OF parseLine_sim [OF assms(1) fuel [OF assms(1)] assms(3)]],
        clarsimp split del: if_split,
        rule rel_sum_bindE [OF parseHeaders_sim [OF _ fuel assms(3)]], assumption, assumption)
      (auto simp del: split_paired_All split del: if_split intro!: tail)
qed

section \<open>Messages\<close>

text \<open>
  The bytes a server writes for a document of a given length: the status line, the headers, an
  empty line. Every handler of \<^verbatim>\<open>src/http_connection.cpp\<close> and \<^verbatim>\<open>src/kv_connection.cpp\<close> that
  answers \<open>200 OK\<close> writes these lines.
\<close>

definition crlf :: "string \<Rightarrow> string" where
  "crlf l = l @ [CR, LF]"

definition ok_headers :: "nat \<Rightarrow> string list" where
  "ok_headers n =
     [''Date: Wed, 28 Oct 2009 15:24:11 GMT'', ''Server: Lab02a'', ''Accept-Ranges: bytes'',
      ''Content-Length: '' @ show_nat n, ''Content-Type: text/html'']"

definition ok_lines :: "nat \<Rightarrow> string list" where
  "ok_lines n = map crlf (''HTTP/1.1 200 OK'' # ok_headers n @ [[]])"

definition bad_body :: string where
  "bad_body = concat (map crlf [''<HTML>'', ''<HEAD><TITLE>400 Bad Request</TITLE></HEAD>'',
     ''<BODY>Bad Request</BODY>'', ''</HTML>'', []])"

definition bad_headers :: "string list" where
  "bad_headers =
     [''Date: Wed, 28 Oct 2009 15:24:11 GMT'', ''Server: MyServer'', ''Connection: close'',
      ''Transfer-Encoding: chunked'', ''Content-Length: '' @ show_nat (length bad_body),
      ''Content-Type: text/html; charset=iso-8859-1'']"

definition bad_lines :: "string list" where
  "bad_lines = map crlf (''HTTP/1.1 503 Bad Request'' # bad_headers @ [[]])"

lemma gr_line_crlf: "CR \<notin> set l \<Longrightarrow> gr_line (crlf l @ t) = Inr (l, t)"
proof -
  assume "CR \<notin> set l"
  then have "\<forall>c \<in> set l. c \<noteq> CR" by auto
  then show ?thesis by (simp add: gr_line_def crlf_def takeWhile_then)
qed

lemma gr_fields_end: "gr_fields n acc (crlf [] @ t) = Inr ((n, acc), t)"
  using gr_line_crlf [of "[]" t] by (subst gr_fields.simps) simp

lemma gr_fields_line:
  assumes "CR \<notin> set l" "l \<noteq> []" "header_line l n = Inr m"
  shows "gr_fields n acc (crlf l @ t) = gr_fields m (acc @ l) t"
  using assms by (subst gr_fields.simps) (simp add: gr_line_crlf)

lemma gr_fields_other:
  "\<forall>l \<in> set ls. CR \<notin> set l \<and> l \<noteq> [] \<and> \<not> find_sub lengthString l \<Longrightarrow>
    gr_fields n acc (concat (map crlf ls) @ t) = gr_fields n (acc @ concat ls) t"
  by (induction ls arbitrary: acc) (simp_all add: gr_fields_line header_line_def)

lemma digits_no_CR: "CR \<notin> set (show_nat n)"
  using show_nat_digits(1) [of n] digit_facts(6) by blast

lemma length_field:
  assumes "n < 2 ^ 64"
  shows "gr_fields m acc (crlf (''Content-Length: '' @ show_nat n) @ t) =
    gr_fields n (acc @ ''Content-Length: '' @ show_nat n) t"
proof (rule gr_fields_line)
  show "CR \<notin> set (''Content-Length: '' @ show_nat n)"
    using digits_no_CR [of n] by (auto simp: CR_def)
  show "''Content-Length: '' @ show_nat n \<noteq> []" by simp
  show "header_line (''Content-Length: '' @ show_nat n) m = Inr n"
    using extract_show [OF assms, of "[]" m] by (simp add: header_line_def lengthString_def)
qed

text \<open>A message of a status line, headers of which one is the length, and a body.\<close>

lemma gr_message:
  assumes "CR \<notin> set st" "n < 2 ^ 64"
    and "\<forall>l \<in> set hs \<union> set hs'. CR \<notin> set l \<and> l \<noteq> [] \<and> \<not> find_sub lengthString l"
  shows "gr_response (concat (map crlf (st # hs @ (''Content-Length: '' @ show_nat n) # hs' @ [[]])) @ s) =
    (if length s < n then Inl IncompleteInput
     else Inr (\<lparr>statusLine = st, headerRemainder = concat hs @ (''Content-Length: '' @ show_nat n) @ concat hs',
         resp_body = take n s\<rparr>, drop n s))"
proof -
  define cl where "cl = ''Content-Length: '' @ show_nat n"
  have h: "\<forall>l \<in> set hs. CR \<notin> set l \<and> l \<noteq> [] \<and> \<not> find_sub lengthString l"
    "\<forall>l \<in> set hs'. CR \<notin> set l \<and> l \<noteq> [] \<and> \<not> find_sub lengthString l"
    using assms(3) by blast+
  have "gr_fields 0 [] (concat (map crlf hs) @ crlf cl @ concat (map crlf hs') @ crlf [] @ s) =
      Inr ((n, concat hs @ cl @ concat hs'), s)"
    by (simp only: gr_fields_other [OF h(1)] gr_fields_other [OF h(2)] cl_def length_field [OF assms(2)]
        gr_fields_end append_assoc append_Nil)
  then have "gr_response (concat (map crlf (st # hs @ cl # hs' @ [[]])) @ s) =
    (if length s < n then Inl IncompleteInput
     else Inr (\<lparr>statusLine = st, headerRemainder = concat hs @ cl @ concat hs',
         resp_body = take n s\<rparr>, drop n s))"
    using gr_line_crlf [OF assms(1)] by (simp add: gr_response_def)
  then show ?thesis by (simp only: cl_def)
qed

lemma gr_ok:
  assumes "n < 2 ^ 64"
  shows "gr_response (concat (ok_lines n) @ s) =
    (if length s < n then Inl IncompleteInput
     else Inr (\<lparr>statusLine = ''HTTP/1.1 200 OK'', headerRemainder = concat (ok_headers n),
         resp_body = take n s\<rparr>, drop n s))"
  using gr_message [of "''HTTP/1.1 200 OK''" n "take 3 (ok_headers n)" "drop 4 (ok_headers n)" s] assms
  by (simp add: ok_lines_def ok_headers_def CR_def lengthString_def)

lemma gr_bad:
  "gr_response (concat bad_lines @ bad_body @ s) =
    Inr (\<lparr>statusLine = ''HTTP/1.1 503 Bad Request'', headerRemainder = concat bad_headers,
      resp_body = bad_body\<rparr>, s)"
proof -
  have "length bad_body < 2 ^ 64" by (simp add: bad_body_def crlf_def)
  from gr_message [OF _ this, of "''HTTP/1.1 503 Bad Request''" "take 4 bad_headers" "drop 5 bad_headers" "bad_body @ s"]
  show ?thesis by (simp add: bad_lines_def bad_headers_def CR_def lengthString_def)
qed

section \<open>Parsing a buffer\<close>

lemma parseResponse_parsed:
  assumes "buf_ok b" "buf_clean b" "length (buf_bytes b) < fuel"
    "gr_response (buf_bytes b) = Inr (r, rest)"
  shows "\<exists>it. parseResponse fuel b (Buffer_begin b) = RcParsed r it \<and>
    bytes_read it = length (buf_bytes b) - length rest \<and> it_rest b it rest"
proof -
  have "it_rest b (Buffer_begin b) (buf_bytes b)" using assms(1) it_rest_begin by (simp add: buf_ok_def)
  from parseResponse_body_sim [OF this assms(3,2,1)]
  have "sim_val b (parseResponse_body fuel b (Buffer_begin b)) (Inr (r, rest))"
    by (simp only: assms(4))
  then show ?thesis
    by cases (auto simp: parseResponse_def outcome_def it_rest_read)
qed

lemma parseResponse_fails:
  assumes "buf_ok b" "buf_clean b" "length (buf_bytes b) < fuel"
    "gr_response (buf_bytes b) = Inl e"
  shows "parseResponse fuel b (Buffer_begin b) = outcome (Inl e)"
proof -
  have "it_rest b (Buffer_begin b) (buf_bytes b)" using assms(1) it_rest_begin by (simp add: buf_ok_def)
  from parseResponse_body_sim [OF this assms(3,2,1)]
  have "sim_val b (parseResponse_body fuel b (Buffer_begin b)) (Inl e :: parse_exn + response \<times> string)"
    by (simp only: assms(4))
  then show ?thesis by cases (auto simp: parseResponse_def)
qed

lemma gr_fields_no_fuel: "gr_fields n acc s \<noteq> Inl OutOfFuel"
proof (induction n acc s rule: gr_fields.induct)
  case (1 n acc s)
  have h: "header_line l n \<noteq> Inl OutOfFuel" for l by (simp add: header_line_def)
  have "(if l = [] then Inr ((n, acc), r) else bindE (header_line l n) (\<lambda>m. gr_fields m (acc @ l) r))
      \<noteq> Inl OutOfFuel" if "gr_line s = Inr (l, r)" for l r
    using bindE_not_Inl [OF h "1.IH" [OF that refl]] by simp
  then show ?case
    by (subst gr_fields.simps) (rule bindE_not_Inl [OF gr_line_no_fuel], simp add: split_beta)
qed

lemma gr_response_no_fuel: "gr_response s \<noteq> Inl OutOfFuel"
  unfolding gr_response_def
  by (intro bindE_not_Inl gr_line_no_fuel gr_fields_no_fuel | simp add: split_beta)+

section \<open>Properties\<close>

text \<open>
  C28. On every buffer filled by writes and emptied by \<open>consume\<close>, \<open>parseResponse\<close> returns what
  the response grammar says of the unread bytes: the status line, the headers run together, a
  body of exactly the announced length with the iterator after it, or the same error; and it
  ends. Incomplete bodies are reported as incomplete.
\<close>

theorem parseResponse_recognises_grammar:
  assumes "buf_ok b" "buf_clean b" "length (buf_bytes b) < fuel"
  shows "parseResponse fuel b (Buffer_begin b) \<noteq> NoReturn OutOfFuel \<and>
    (case gr_response (buf_bytes b) of
       Inr (r, rest) \<Rightarrow> (\<exists>it. parseResponse fuel b (Buffer_begin b) = RcParsed r it \<and>
         bytes_read it = length (buf_bytes b) - length rest \<and> it_rest b it rest)
     | Inl e \<Rightarrow> parseResponse fuel b (Buffer_begin b) = outcome (Inl e))"
proof (cases "gr_response (buf_bytes b)")
  case (Inl e)
  then show ?thesis
    using parseResponse_fails [OF assms Inl] gr_response_no_fuel [of "buf_bytes b"]
    by (auto simp: outcome_def split: parse_exn.splits)
next
  case (Inr p)
  then show ?thesis using parseResponse_parsed [OF assms] by (cases p) fastforce
qed

theorem parseResponse_recognises_grammar_witness:
  "\<exists>it. parseResponse 300 (buffer_of (concat (ok_lines 2) @ ''hiHTTP''))
      (Buffer_begin (buffer_of (concat (ok_lines 2) @ ''hiHTTP''))) =
    RcParsed \<lparr>statusLine = ''HTTP/1.1 200 OK'', headerRemainder = concat (ok_headers 2), resp_body = ''hi''\<rparr> it \<and>
    it_rest (buffer_of (concat (ok_lines 2) @ ''hiHTTP'')) it ''HTTP''"
proof -
  have "length (concat (ok_lines 2)) < 200"
    by (simp add: ok_lines_def ok_headers_def crlf_def show_nat.simps)
  then show ?thesis
    using parseResponse_recognises_grammar [of "buffer_of (concat (ok_lines 2) @ ''hiHTTP'')" 300]
      gr_ok [of 2 "''hiHTTP''"] by auto
qed

text \<open>
  A response with a header line that is exactly \<open>Content-Length:\<close>, with no value, makes
  \<open>parseResponse\<close> leave by a \<open>std::out_of_range\<close> exception that no caller catches: the value is
  taken from index 16 of the line, one past its end.
\<close>

theorem parseResponse_out_of_range:
  assumes "CR \<notin> set status"
    and "\<forall>l \<in> set hs. CR \<notin> set l \<and> l \<noteq> [] \<and> \<not> find_sub lengthString l"
    and "s = concat (map crlf (status # hs @ [lengthString])) @ rest" "length s < fuel"
  shows "parseResponse fuel (buffer_of s) (Buffer_begin (buffer_of s)) = NoReturn OutOfRange"
proof -
  have "gr_fields 0 [] (concat (map crlf hs) @ crlf lengthString @ rest) = Inl OutOfRange"
    using assms(2) gr_line_crlf [of lengthString rest]
    by (subst gr_fields_other) (simp_all add: gr_fields.simps header_line_def lengthString_def CR_def)
  then have "gr_response s = Inl OutOfRange"
    using assms(1,3) gr_line_crlf by (simp add: gr_response_def)
  then show ?thesis
    using parseResponse_fails [of "buffer_of s" fuel OutOfRange] assms(4) by (simp add: outcome_def)
qed

theorem parseResponse_out_of_range_witness:
  "parseResponse 50 (buffer_of (concat (map crlf [''HTTP/1.1 200 OK'', lengthString])))
     (Buffer_begin (buffer_of (concat (map crlf [''HTTP/1.1 200 OK'', lengthString])))) = NoReturn OutOfRange"
  using parseResponse_out_of_range [of "''HTTP/1.1 200 OK''" "[]" _ "[]" 50, OF _ _ refl]
  by (simp add: CR_def crlf_def lengthString_def)

end
