(* ===== verification/Connection.thy ===== *)
theory Connection
  imports Buffer_Stream
begin

text \<open>
  \<^verbatim>\<open>src/connection.hpp\<close>, \<^verbatim>\<open>src/connection.cpp\<close>: the reference-counted connection between a
  socket and a protocol. The operating system is an argument: the results its \<open>read\<close> and
  \<open>write\<close> calls will have, as lists that the calls consume; an exhausted list means that the
  call would block. The descriptor's \<open>readWhenReady\<close> and \<open>writeWhenReady\<close> are counted: each
  stands for one later run of \<open>doRead\<close> or \<open>doWrite\<close>. \<open>io_desc\<close> says that \<open>io_desc_\<close> is not null. A call through a null descriptor, or on a
  connection that is already deleted, sets \<open>faulted\<close>; what the model does after that has no meaning. The virtual \<open>readDone\<close> and \<open>connDone\<close> are
  arguments.
\<close>

section \<open>The socket\<close>

datatype errno = EAGAIN | EINTR | EINPROGRESS | EOTHER

datatype io_read = RData string | RErr errno
datatype io_write = WDone nat | WErr errno

text \<open>
  \<open>socketRead\<close> and \<open>socketWrite\<close> repeat an interrupted call. A call never transfers more than
  it was asked for; what a read leaves is there for the next one.
\<close>

fun socketRead :: "nat \<Rightarrow> io_read list \<Rightarrow> io_read \<times> io_read list" where
  "socketRead len [] = (RErr EAGAIN, [])"
| "socketRead len (RErr e # rs) = (if e = EINTR then socketRead len rs else (RErr e, rs))"
| "socketRead len (RData d # rs) =
     (RData (take len d), if length d \<le> len then rs else RData (drop len d) # rs)"

fun socketWrite :: "nat \<Rightarrow> io_write list \<Rightarrow> io_write \<times> io_write list" where
  "socketWrite len [] = (WErr EAGAIN, [])"
| "socketWrite len (WErr e # ws) = (if e = EINTR then socketWrite len ws else (WErr e, ws))"
| "socketWrite len (WDone n # ws) = (WDone (min n len), ws)"

section \<open>State\<close>

record connection =
  in_buf :: buffer
  writing :: bool
  out_buf :: buffer
  client_fd :: int
  io_desc :: bool
  closed :: bool
  in_error :: bool
  refs :: int
  read_waits :: nat
  write_waits :: nat
  sock_writes :: "io_write list"
  sock_sent :: string
  deleted :: bool
  faulted :: bool

definition Connection_server :: "int \<Rightarrow> io_write list \<Rightarrow> connection" where
  "Connection_server fd ws =
     \<lparr>in_buf = Buffer_new, writing = False, out_buf = Buffer_new, client_fd = fd, io_desc = True, closed = False,
      in_error = False, refs = 0, read_waits = 0, write_waits = 0, sock_writes = ws, sock_sent = [],
      deleted = False, faulted = False\<rparr>"

definition Connection_client :: "io_write list \<Rightarrow> connection" where
  "Connection_client ws =
     \<lparr>in_buf = Buffer_new, writing = False, out_buf = Buffer_new, client_fd = -1, io_desc = False, closed = True,
      in_error = False, refs = 0, read_waits = 0, write_waits = 0, sock_writes = ws, sock_sent = [],
      deleted = False, faulted = False\<rparr>"

section \<open>Operations\<close>

text \<open>An access to a member of the connection.\<close>

definition touch :: "connection \<Rightarrow> connection" where
  "touch c = c\<lparr>faulted := (faulted c \<or> deleted c)\<rparr>"

definition acquire :: "connection \<Rightarrow> connection" where
  "acquire c = (touch c)\<lparr>refs := refs c + 1\<rparr>"

text \<open>The destructor closes the socket and gives the descriptor back.\<close>

definition Connection_destroy :: "connection \<Rightarrow> connection" where
  "Connection_destroy c = c\<lparr>deleted := True, io_desc := False\<rparr>"

definition release :: "connection \<Rightarrow> connection" where
  "release c =
     (let count = refs c - 1;
          c1 = (touch c)\<lparr>refs := count\<rparr>
      in if count = 0 then Connection_destroy c1 else c1)"

definition conn_ok :: "connection \<Rightarrow> bool" where
  "conn_ok c \<longleftrightarrow> \<not> in_error c"

definition readWhenReady :: "connection \<Rightarrow> connection" where
  "readWhenReady c = c\<lparr>read_waits := read_waits c + 1, faulted := (faulted c \<or> \<not> io_desc c)\<rparr>"

definition writeWhenReady :: "connection \<Rightarrow> connection" where
  "writeWhenReady c = c\<lparr>write_waits := write_waits c + 1, faulted := (faulted c \<or> \<not> io_desc c)\<rparr>"

lemma socketWrite_shorter: "socketWrite n ws = (WDone k, ws') \<Longrightarrow> length ws' < length ws"
proof (induction n ws rule: socketWrite.induct)
  case (2 len e ws)
  then show ?case by (auto split: if_splits)
qed auto

text \<open>The loop of \<open>doWrite\<close>, up to the final \<open>release\<close>.\<close>

function doWrite_loop :: "connection \<Rightarrow> connection" where
  "doWrite_loop c =
     (let len = readSize (out_buf c);
          data = read_area (out_buf c);
          (res, ws) = socketWrite len (sock_writes c);
          c1 = c\<lparr>sock_writes := ws\<rparr>
      in case res of
             WErr e \<Rightarrow> if e = EAGAIN then writeWhenReady (acquire c1) else c1
           | WDone n \<Rightarrow>
               if n = 0 then c1
               else let c2 = c1\<lparr>sock_sent := sock_sent c1 @ map the (take n data),
                                out_buf := consume n (out_buf c1)\<rparr>
                    in if len = n \<and> readSize (out_buf c2) = 0 then c2\<lparr>writing := False\<rparr>
                       else doWrite_loop c2)"
  by pat_completeness auto
termination
proof (relation "measure (\<lambda>c. length (sock_writes c))", goal_cases)
  case (2 c)
  then show ?case by (auto dest: socketWrite_shorter [OF sym])
qed simp

declare doWrite_loop.simps [simp del]

definition doWrite :: "connection \<Rightarrow> connection" where
  "doWrite c = release (doWrite_loop c)"

definition startWrite :: "connection \<Rightarrow> connection" where
  "startWrite c = (if writing c then touch c else doWrite (acquire ((touch c)\<lparr>writing := True\<rparr>)))"

definition startRead :: "connection \<Rightarrow> connection" where
  "startRead c = readWhenReady (acquire c)"

text \<open>
  How much the socket still has to deliver; each read that delivers something uses some of it
  up, so the loop of \<open>doRead\<close> ends.
\<close>

definition io_weight :: "io_read list \<Rightarrow> nat" where
  "io_weight rs = sum_list (map (\<lambda>x. case x of RData d \<Rightarrow> Suc (length d) | RErr e \<Rightarrow> 1) rs)"

lemma io_weight_simps [simp]: "io_weight [] = 0" "io_weight (RErr e # rs) = Suc (io_weight rs)"
  "io_weight (RData d # rs) = Suc (length d) + io_weight rs"
  by (simp_all add: io_weight_def)

lemma socketRead_less: "socketRead n rs = (RData d, rs') \<Longrightarrow> d \<noteq> [] \<Longrightarrow> io_weight rs' < io_weight rs"
proof (induction n rs rule: socketRead.induct)
  case (2 len e rs)
  then show ?case by (auto split: if_splits)
next
  case (3 len d' rs)
  then show ?case by (cases len) (auto split: if_splits)
qed auto

text \<open>
  \<open>doRead\<close>, with the subclass's \<open>readDone\<close> as an argument. The bytes are stored at \<open>writePtr\<close>
  by the read itself.
\<close>

function doRead_loop :: "(connection \<Rightarrow> bool \<times> connection) \<Rightarrow> io_read list \<Rightarrow> connection \<Rightarrow>
    io_read list \<times> connection" where
  "doRead_loop readDone rs c =
     (let c1 = c\<lparr>in_buf := snd (reserve 1024 (in_buf c))\<rparr>;
          (res, rs1) = socketRead (writeSize (in_buf c1)) rs
      in case res of
           RErr e \<Rightarrow> (rs1, if e = EAGAIN then readWhenReady (acquire c1) else c1)
         | RData d \<Rightarrow>
             if d = [] then (rs1, c1)
             else let c2 = c1\<lparr>in_buf := snd (advance (length d) (store (map Some d) (in_buf c1)))\<rparr>
                  in case readDone c2 of
                       (again, c3) \<Rightarrow> if again then doRead_loop readDone rs1 c3 else (rs1, c3))"
  by pat_completeness auto
termination
proof (relation "measure (\<lambda>(rd, rs, c). io_weight rs)", goal_cases)
  case (2 readDone rs c)
  then show ?case by (auto dest: socketRead_less [OF sym])
qed simp

declare doRead_loop.simps [simp del]

definition doRead :: "(connection \<Rightarrow> bool \<times> connection) \<Rightarrow> io_read list \<Rightarrow> connection \<Rightarrow>
    io_read list \<times> connection" where
  "doRead readDone rs c = (case doRead_loop readDone rs c of (rs', c') \<Rightarrow> (rs', release c'))"

text \<open>
  \<open>doConnect\<close>, with what \<open>getsockopt\<close> reports, the subclass's \<open>connDone\<close> and its state as arguments, and
  \<open>startConnect\<close>, with the results of \<open>socket\<close> and \<open>connect\<close>. \<open>None\<close> is the call of \<open>setUpCalls\<close>
  through a null descriptor.
\<close>

definition doConnect :: "bool \<Rightarrow> (connection \<Rightarrow> 'u \<Rightarrow> connection \<times> 'u) \<Rightarrow> connection \<Rightarrow> 'u \<Rightarrow>
    (connection \<times> 'u) option" where
  "doConnect so_error connDone c u =
     map_option (\<lambda>c1. case connDone c1 u of (c2, u') \<Rightarrow> (release c2, u'))
       (if in_error c then Some c
        else if so_error then Some (c\<lparr>in_error := True\<rparr>)
        else if io_desc c then Some (c\<lparr>closed := False\<rparr>) else None)"

definition startConnect :: "int \<Rightarrow> errno option \<Rightarrow> bool \<Rightarrow> (connection \<Rightarrow> 'u \<Rightarrow> connection \<times> 'u) \<Rightarrow>
    connection \<Rightarrow> 'u \<Rightarrow> (connection \<times> 'u) option" where
  "startConnect fd res so_error connDone c u =
     (if fd < 0 then Some (c\<lparr>client_fd := fd, in_error := True\<rparr>, u)
      else let c1 = acquire (c\<lparr>client_fd := fd\<rparr>)
           in case res of
                None \<Rightarrow> doConnect so_error connDone c1 u
              | Some e \<Rightarrow>
                  if e \<noteq> EINPROGRESS \<and> e \<noteq> EINTR
                  then doConnect so_error connDone (c1\<lparr>client_fd := -1, in_error := True\<rparr>) u
                  else Some (writeWhenReady (c1\<lparr>io_desc := True\<rparr>), u))"

definition Connection_close :: "connection \<Rightarrow> connection" where
  "Connection_close c = c\<lparr>closed := True\<rparr>"

section \<open>The output stream\<close>

text \<open>
  What the peer will have received when everything is sent, and the invariant of the
  output side.
\<close>

definition out_stream :: "connection \<Rightarrow> string" where
  "out_stream c = sock_sent c @ buf_bytes (out_buf c)"

text \<open>A connection that is in use: its descriptor is set, somebody holds a reference, and nothing went wrong before.\<close>

definition conn_live :: "connection \<Rightarrow> bool" where
  "conn_live c \<longleftrightarrow> io_desc c \<and> \<not> deleted c \<and> \<not> faulted c \<and> 1 \<le> refs c"

definition conn_inv :: "connection \<Rightarrow> bool" where
  "conn_inv c \<longleftrightarrow> buf_ok (in_buf c) \<and> buf_ok (out_buf c)"

text \<open>Two connections that differ in the output side only.\<close>

definition same_input :: "connection \<Rightarrow> connection \<Rightarrow> bool" where
  "same_input c c' \<longleftrightarrow> in_buf c' = in_buf c \<and> read_waits c' = read_waits c \<and>
     in_error c' = in_error c \<and> closed c' = closed c"

lemma same_input_refl [simp]: "same_input c c"
  by (simp add: same_input_def)

lemma same_input_trans: "same_input a b \<Longrightarrow> same_input b c \<Longrightarrow> same_input a c"
  by (simp add: same_input_def)

lemma doWrite_loop_turn:
  assumes "socketWrite (readSize (out_buf c)) (sock_writes c) = (WDone n, ws)" "n \<noteq> 0"
    and "c2 = c\<lparr>sock_writes := ws, sock_sent := sock_sent c @ map the (take n (read_area (out_buf c))),
      out_buf := consume n (out_buf c)\<rparr>"
  shows "doWrite_loop c =
    (if readSize (out_buf c) = n \<and> readSize (out_buf c2) = 0 then c2\<lparr>writing := False\<rparr> else doWrite_loop c2)"
  unfolding assms(3)
  by (subst doWrite_loop.simps) (simp only: Let_def assms(1) case_prod_conv io_write.case assms(2) if_False,
      simp)

lemma doWrite_loop_stop:
  assumes "socketWrite (readSize (out_buf c)) (sock_writes c) = (r, ws)" "r = WDone 0 \<or> (\<exists>e. r = WErr e)"
  shows "doWrite_loop c =
    (if r = WErr EAGAIN then writeWhenReady (acquire (c\<lparr>sock_writes := ws\<rparr>)) else c\<lparr>sock_writes := ws\<rparr>)"
  using assms by (subst doWrite_loop.simps) (auto simp: Let_def split: if_splits)

lemma socketWrite_bound: "socketWrite n ws = (WDone k, ws') \<Longrightarrow> k \<le> n"
  by (induction n ws rule: socketWrite.induct) (auto split: if_splits)

lemma sent_take:
  assumes "buf_ok b" "n \<le> readSize b"
  shows "map the (take n (read_area b)) @ buf_bytes (consume n b) = buf_bytes b"
proof -
  have "take n (read_area b) = map Some (take n (buf_bytes b))"
    using assms by (simp add: buf_ok_readout(3) take_map min_def)
  then show ?thesis
    using assms by (simp add: buf.skip_content comp_def)
qed

lemma doWrite_loop_inv:
  "conn_inv c \<Longrightarrow> conn_inv (doWrite_loop c) \<and> out_stream (doWrite_loop c) = out_stream c \<and>
    same_input c (doWrite_loop c) \<and>
    refs (doWrite_loop c) - int (write_waits (doWrite_loop c)) = refs c - int (write_waits c) \<and>
    deleted (doWrite_loop c) = deleted c \<and> write_waits c \<le> write_waits (doWrite_loop c) \<and>
    io_desc (doWrite_loop c) = io_desc c \<and> (conn_live c \<longrightarrow> faulted (doWrite_loop c) = faulted c)"
proof (induction "length (sock_writes c)" arbitrary: c rule: less_induct)
  case less
  obtain r ws where sw: "socketWrite (readSize (out_buf c)) (sock_writes c) = (r, ws)" by force
  show ?case
  proof (cases "\<exists>n. r = WDone n \<and> n \<noteq> 0")
    case False
    then have "r = WDone 0 \<or> (\<exists>e. r = WErr e)" by (cases r) auto
    from doWrite_loop_stop [OF sw this] show ?thesis
      using less.prems
      by (auto simp: conn_inv_def out_stream_def same_input_def writeWhenReady_def acquire_def touch_def conn_live_def)
  next
    case True
    then obtain n where n: "r = WDone n" "n \<noteq> 0" by blast
    define c2 where "c2 = c\<lparr>sock_writes := ws, sock_sent := sock_sent c @ map the (take n (read_area (out_buf c))),
      out_buf := consume n (out_buf c)\<rparr>"
    note turn = doWrite_loop_turn [OF sw [unfolded n(1)] n(2) c2_def]
    have ok: "buf_ok (out_buf c)" using less.prems by (simp add: conn_inv_def)
    have le: "n \<le> readSize (out_buf c)" using socketWrite_bound sw n(1) by blast
    have c2: "conn_inv c2" "out_stream c2 = out_stream c" "same_input c c2" "refs c2 = refs c"
      "write_waits c2 = write_waits c" "deleted c2 = deleted c" "io_desc c2 = io_desc c" "faulted c2 = faulted c"
      using less.prems sent_take [OF ok le] consume_ok [OF ok]
      by (auto simp: c2_def conn_inv_def out_stream_def same_input_def)
    show ?thesis
    proof (cases "readSize (out_buf c) = n \<and> readSize (out_buf c2) = 0")
      case True
      then show ?thesis using turn c2 by (auto simp: conn_inv_def out_stream_def same_input_def conn_live_def)
    next
      case False
      have "conn_inv (doWrite_loop c2) \<and> out_stream (doWrite_loop c2) = out_stream c2 \<and>
          same_input c2 (doWrite_loop c2) \<and>
          refs (doWrite_loop c2) - int (write_waits (doWrite_loop c2)) = refs c2 - int (write_waits c2) \<and>
          deleted (doWrite_loop c2) = deleted c2 \<and> write_waits c2 \<le> write_waits (doWrite_loop c2) \<and>
          io_desc (doWrite_loop c2) = io_desc c2 \<and> (conn_live c2 \<longrightarrow> faulted (doWrite_loop c2) = faulted c2)"
        using less.hyps [of c2] c2(1) socketWrite_shorter sw n(1) by (simp add: c2_def)
      then show ?thesis using turn False c2 same_input_trans by (auto simp: conn_live_def)
    qed
  qed
qed

text \<open>
  \<open>doWrite\<close> and \<open>startWrite\<close> move bytes from the buffer to the socket, in order, and nothing
  else; the reference count follows the writes that are still to come.
\<close>

lemma release_facts:
  "conn_inv (release c) = conn_inv c" "out_stream (release c) = out_stream c" "same_input c (release c)"
  "refs (release c) = refs c - 1" "write_waits (release c) = write_waits c" "writing (release c) = writing c"
  "out_buf (release c) = out_buf c" "sock_sent (release c) = sock_sent c" "sock_writes (release c) = sock_writes c"
  by (simp_all add: release_def touch_def Connection_destroy_def conn_inv_def out_stream_def same_input_def Let_def)

lemma touch_facts:
  "conn_inv (touch c) = conn_inv c" "out_stream (touch c) = out_stream c" "same_input c (touch c)"
  "refs (touch c) = refs c" "write_waits (touch c) = write_waits c" "conn_live (touch c) \<longleftrightarrow> conn_live c"
  "conn_live c \<Longrightarrow> touch c = c"
  by (simp_all add: touch_def conn_inv_def out_stream_def same_input_def conn_live_def) auto

lemma startWrite_inv:
  assumes "conn_inv c"
  shows "conn_inv (startWrite c) \<and> out_stream (startWrite c) = out_stream c \<and> same_input c (startWrite c) \<and>
    refs (startWrite c) - int (write_waits (startWrite c)) = refs c - int (write_waits c)"
proof (cases "writing c")
  case True
  then show ?thesis using assms by (simp add: startWrite_def touch_facts)
next
  case False
  define c1 where "c1 = acquire ((touch c)\<lparr>writing := True\<rparr>)"
  have c1: "conn_inv c1" "out_stream c1 = out_stream c" "same_input c c1" "refs c1 = refs c + 1"
    "write_waits c1 = write_waits c"
    using assms by (auto simp: c1_def acquire_def touch_def conn_inv_def out_stream_def same_input_def)
  have "startWrite c = release (doWrite_loop c1)" using False by (simp add: startWrite_def doWrite_def c1_def)
  then show ?thesis
    using doWrite_loop_inv [OF c1(1)] c1 release_facts [of "doWrite_loop c1"]
    by (auto intro: same_input_trans)
qed

text \<open>A write on a connection in use leaves it in use: the reference \<open>startWrite\<close> takes and drops is never the last one.\<close>

lemma startWrite_live:
  assumes inv: "conn_inv c" and live: "conn_live c"
  shows "conn_live (startWrite c)"
proof (cases "writing c")
  case True
  then show ?thesis using live by (simp add: startWrite_def touch_facts)
next
  case False
  define c1 where "c1 = acquire ((touch c)\<lparr>writing := True\<rparr>)"
  have c1: "conn_inv c1" "conn_live c1" "refs c1 = refs c + 1"
    using inv live by (auto simp: c1_def acquire_def touch_def conn_inv_def conn_live_def)
  have "startWrite c = release (doWrite_loop c1)" using False by (simp add: startWrite_def doWrite_def c1_def)
  moreover have "conn_live (doWrite_loop c1)" "refs (doWrite_loop c1) \<ge> 2"
    using doWrite_loop_inv [OF c1(1)] c1(2,3) live by (auto simp: conn_live_def)
  ultimately show ?thesis by (simp add: release_def touch_def conn_live_def Let_def)
qed

text \<open>When the socket keeps accepting bytes the whole buffer is sent.\<close>

text \<open>A socket that takes at least one byte in each of its next \<open>k\<close> calls.\<close>

definition accepting :: "nat \<Rightarrow> io_write list \<Rightarrow> bool" where
  "accepting k ws \<longleftrightarrow> (\<forall>w \<in> set ws. \<exists>n > 0. w = WDone n) \<and> k \<le> length ws"

lemma doWrite_loop_flushes:
  "conn_inv c \<Longrightarrow> buf_bytes (out_buf c) \<noteq> [] \<Longrightarrow> accepting (length (buf_bytes (out_buf c)) + k) (sock_writes c) \<Longrightarrow>
    buf_bytes (out_buf (doWrite_loop c)) = [] \<and> \<not> writing (doWrite_loop c) \<and> accepting k (sock_writes (doWrite_loop c))"
proof (induction "length (sock_writes c)" arbitrary: c rule: less_induct)
  case less
  have ok: "buf_ok (out_buf c)" using less.prems(1) by (simp add: conn_inv_def)
  have pos: "readSize (out_buf c) \<noteq> 0" "readSize (out_buf c) \<le> length (buf_bytes (out_buf c))"
    using buf_ok_readout [OF ok] less.prems(2) by auto
  obtain w ws where ws: "sock_writes c = w # ws" using less.prems(2,3) by (cases "sock_writes c") (auto simp: accepting_def)
  then obtain j where j: "w = WDone j" "j > 0" using less.prems(3) by (auto simp: accepting_def)
  define n where "n = min j (readSize (out_buf c))"
  have sw: "socketWrite (readSize (out_buf c)) (sock_writes c) = (WDone n, ws)" and n: "n \<noteq> 0" "n \<le> length (buf_bytes (out_buf c))"
    using ws j pos by (auto simp: n_def)
  define c2 where "c2 = c\<lparr>sock_writes := ws, sock_sent := sock_sent c @ map the (take n (read_area (out_buf c))),
      out_buf := consume n (out_buf c)\<rparr>"
  note turn = doWrite_loop_turn [OF sw n(1) c2_def]
  have c2: "conn_inv c2" "buf_bytes (out_buf c2) = drop n (buf_bytes (out_buf c))"
    using less.prems(1) consume_ok [OF ok] buf.skip_content [OF ok] by (auto simp: c2_def conn_inv_def)
  have acc: "accepting (length (buf_bytes (out_buf c2)) + k) (sock_writes c2)"
    using less.prems(3) ws n by (auto simp: accepting_def c2_def [THEN arg_cong, of sock_writes] c2(2))
  have rs: "readSize (out_buf c2) = 0 \<longleftrightarrow> buf_bytes (out_buf c2) = []"
    using c2(1) buf_ok_readout(2) by (simp add: conn_inv_def)
  show ?case
  proof (cases "buf_bytes (out_buf c2) = []")
    case True
    then have "n = readSize (out_buf c)" using c2(2) pos by (auto simp: n_def)
    then show ?thesis using turn rs True acc by (auto simp: accepting_def)
  next
    case False
    have "length (sock_writes c2) < length (sock_writes c)" using ws by (simp add: c2_def)
    from less.hyps [OF this c2(1) False acc] show ?thesis using turn rs False by simp
  qed
qed

lemma startWrite_flushes:
  assumes "conn_inv c" "\<not> writing c" "buf_bytes (out_buf c) \<noteq> []" "accepting (length (buf_bytes (out_buf c)) + k) (sock_writes c)"
  shows "sock_sent (startWrite c) = sock_sent c @ buf_bytes (out_buf c)" "\<not> writing (startWrite c)"
    "buf_bytes (out_buf (startWrite c)) = []" "accepting k (sock_writes (startWrite c))"
proof -
  let ?c1 = "acquire ((touch c)\<lparr>writing := True\<rparr>)"
  have "buf_bytes (out_buf (doWrite_loop ?c1)) = [] \<and> \<not> writing (doWrite_loop ?c1) \<and> accepting k (sock_writes (doWrite_loop ?c1))"
    using doWrite_loop_flushes [of ?c1 k] assms by (simp add: acquire_def touch_def conn_inv_def)
  then show rest: "buf_bytes (out_buf (startWrite c)) = []" "\<not> writing (startWrite c)" "accepting k (sock_writes (startWrite c))"
    using assms(2) release_facts [of "doWrite_loop ?c1"] by (simp_all add: startWrite_def doWrite_def)
  show "sock_sent (startWrite c) = sock_sent c @ buf_bytes (out_buf c)"
    using startWrite_inv [OF assms(1)] rest(1) by (simp add: out_stream_def)
qed

section \<open>Properties\<close>

text \<open>
  C15. A write sends bytes of the output buffer in order: after \<open>startWrite\<close>, whatever the
  socket does (partial writes, would-block, interruptions, errors), the bytes sent followed by
  the bytes still buffered are what they were, and the reference count has grown by exactly the
  number of writes that were scheduled for later. If the connection is in use (its descriptor is set and somebody holds a reference), it still is
  afterwards: no null descriptor was used and the reference taken for the write was not the last one. When the socket accepts at least one byte per
  call, everything is sent and the connection is ready for the next \<open>startWrite\<close>.
\<close>

theorem startWrite_sends:
  assumes "conn_inv c"
  shows "out_stream (startWrite c) = out_stream c \<and> conn_inv (startWrite c) \<and>
    refs (startWrite c) - refs c = int (write_waits (startWrite c)) - int (write_waits c) \<and>
    (conn_live c \<longrightarrow> conn_live (startWrite c)) \<and>
    (\<not> writing c \<and> buf_bytes (out_buf c) \<noteq> [] \<and> (\<forall>w \<in> set (sock_writes c). \<exists>n > 0. w = WDone n) \<and>
       length (buf_bytes (out_buf c)) \<le> length (sock_writes c) \<longrightarrow>
     sock_sent (startWrite c) = sock_sent c @ buf_bytes (out_buf c) \<and> \<not> writing (startWrite c))"
  using startWrite_inv [OF assms] startWrite_live [OF assms] startWrite_flushes [OF assms, of 0] by (auto simp: accepting_def)

theorem startWrite_sends_witness:
  "sock_sent (startWrite ((startRead (Connection_server 5 [WDone 2, WDone 9, WDone 9]))\<lparr>out_buf := Buffer_write ''hey'' Buffer_new\<rparr>)) = ''hey'' \<and>
   conn_live (startWrite ((startRead (Connection_server 5 [WDone 2, WDone 9, WDone 9]))\<lparr>out_buf := Buffer_write ''hey'' Buffer_new\<rparr>))"
proof -
  let ?c = "(startRead (Connection_server 5 [WDone 2, WDone 9, WDone 9]))\<lparr>out_buf := Buffer_write ''hey'' Buffer_new\<rparr>"
  have "conn_live ?c" by (simp add: conn_live_def startRead_def readWhenReady_def acquire_def touch_def Connection_server_def)
  moreover have "conn_inv ?c" "buf_bytes (out_buf ?c) = ''hey''"
    using Buffer_new_ok Buffer_write_ok [OF Buffer_new_ok] buf.put_content [OF Buffer_new_ok]
    by (auto simp: conn_inv_def Connection_server_def Buffer_new_wf startRead_def readWhenReady_def acquire_def touch_def)
  ultimately show ?thesis
    using startWrite_sends [of ?c] by (simp add: Connection_server_def startRead_def readWhenReady_def acquire_def touch_def)
qed

text \<open>
  \<open>startWrite\<close> with nothing to send (as when a concurrent \<open>doWrite\<close> has just flushed the
  response) asks the socket to write zero bytes, takes the answer for a closed peer and leaves
  \<open>writing_\<close> set: every later \<open>startWrite\<close> then returns at once and no response is ever sent.
\<close>

theorem startWrite_empty_stalls:
  assumes "conn_inv c" "\<not> writing c" "buf_bytes (out_buf c) = []" "sock_writes c = WDone n # ws" "conn_live c"
  shows "write_waits (startWrite c) = write_waits c \<and> writing (startWrite c) \<and>
    startWrite ((startWrite c)\<lparr>out_buf := b\<rparr>) = (startWrite c)\<lparr>out_buf := b\<rparr>"
proof -
  let ?c1 = "acquire ((touch c)\<lparr>writing := True\<rparr>)"
  have "readSize (out_buf c) = 0" using assms(1,3) buf_ok_readout(2) by (simp add: conn_inv_def)
  then have "socketWrite (readSize (out_buf ?c1)) (sock_writes ?c1) = (WDone 0, ws)"
    using assms(4) by (simp add: acquire_def touch_def)
  from doWrite_loop_stop [OF this] have "doWrite_loop ?c1 = ?c1\<lparr>sock_writes := ws\<rparr>" by simp
  then have "startWrite c = release (?c1\<lparr>sock_writes := ws\<rparr>)"
    using assms(2) by (simp add: startWrite_def doWrite_def)
  then have "writing (startWrite c)" "write_waits (startWrite c) = write_waits c"
    by (simp_all add: release_facts acquire_def touch_def)
  moreover have "conn_live (startWrite c\<lparr>out_buf := b\<rparr>)" using startWrite_live [OF assms(1,5)] by (simp add: conn_live_def)
  ultimately show ?thesis by (simp add: startWrite_def [of "startWrite c\<lparr>out_buf := b\<rparr>"] touch_facts(7))
qed

theorem startWrite_empty_stalls_witness:
  "writing (startWrite (startRead (Connection_server 5 [WDone 7]))) \<and>
   startWrite ((startWrite (startRead (Connection_server 5 [WDone 7])))\<lparr>out_buf := Buffer_write ''x'' Buffer_new\<rparr>) =
     (startWrite (startRead (Connection_server 5 [WDone 7])))\<lparr>out_buf := Buffer_write ''x'' Buffer_new\<rparr>"
  using startWrite_empty_stalls [of "startRead (Connection_server 5 [WDone 7])" 7 "[]"]
  by (simp add: conn_inv_def conn_live_def Connection_server_def Buffer_new_ok Buffer_new_wf startRead_def readWhenReady_def acquire_def touch_def)

end
