(* ===== verification/Request_Stats.thy ===== *)
theory Request_Stats
  imports Prelude
begin

text \<open>
  \<^verbatim>\<open>src/request_stats.cpp\<close>: requests per second, kept as twenty slots of a twentieth of a second
  for each thread. Ticks are 64-bit counters; \<open>ticks_per_second\<close> is a double that holds a whole
  number, and the arithmetic with it is done in doubles, that is rounded to 53 bits.
\<close>

section \<open>Doubles\<close>

fun bit_length :: "nat \<Rightarrow> nat" where
  "bit_length n = (if n = 0 then 0 else Suc (bit_length (n div 2)))"

declare bit_length.simps [simp del]

definition round_half_even :: "nat \<Rightarrow> nat \<Rightarrow> nat" where
  "round_half_even a q =
     (let d = a div q; r = a mod q
      in if 2 * r < q then d else if 2 * r > q then d + 1 else if even d then d else d + 1)"

text \<open>An unsigned integer converted to double, and a quotient of doubles truncated to an integer.\<close>

definition to_double :: "nat \<Rightarrow> nat" where
  "to_double n =
     (if n < 2 ^ 53 then n
      else let e = bit_length n - 53 in round_half_even n (2 ^ e) * 2 ^ e)"

definition double_quot :: "nat \<Rightarrow> nat \<Rightarrow> nat" where
  "double_quot p q =
     (if p < q then 0
      else let b = bit_length (p div q)
           in if b \<le> 53 then round_half_even (p * 2 ^ (53 - b)) q div 2 ^ (53 - b)
              else round_half_even p (q * 2 ^ (b - 53)) * 2 ^ (b - 53))"

lemma bit_length_bounds: "n > 0 \<Longrightarrow> 2 ^ (bit_length n - 1) \<le> n \<and> n < 2 ^ bit_length n"
proof (induction n rule: bit_length.induct)
  case (1 n)
  show ?case
  proof (cases "n div 2 = 0")
    case True
    then have "n = 1" using 1 by simp
    then show ?thesis by (simp add: bit_length.simps)
  next
    case False
    define m where "m = bit_length (n div 2)"
    have m: "2 ^ (m - 1) \<le> n div 2" "n div 2 < 2 ^ m" "m > 0"
      using 1 False by (auto simp: m_def bit_length.simps [of "n div 2"])
    have "bit_length n = Suc m" using 1(2) by (subst bit_length.simps) (simp add: m_def)
    moreover have "2 ^ m \<le> n"
    proof -
      have "(2::nat) ^ m = 2 * 2 ^ (m - 1)" using m(3) by (cases m) simp_all
      then show ?thesis using m(1) by linarith
    qed
    moreover have "n < 2 * 2 ^ m" using m(2) by linarith
    ultimately show ?thesis by simp
  qed
qed

lemma round_half_even_bounds:
  "q > 0 \<Longrightarrow> a div q \<le> round_half_even a q \<and> (2 * a < q * (2 * N - 1) \<longrightarrow> round_half_even a q < N)"
proof -
  assume q: "q > 0"
  define d where "d = a div q"
  define r where "r = a mod q"
  have a: "a = q * d + r" "r < q" using q by (simp_all add: d_def r_def)
  have "round_half_even a q < N" if s: "2 * a < q * (2 * N - 1)"
  proof -
    have N: "N > 0" using s by (cases N) auto
    show ?thesis
    proof (cases "d + 1 < N")
      case True
      then show ?thesis by (auto simp: round_half_even_def Let_def d_def)
    next
      case False
      have "q * (2 * N - 1) + q = q * (2 * N)" using N by (simp add: algebra_simps diff_mult_distrib2)
      then have s': "2 * a + q < q * (2 * N)" using s by linarith
      have "d < N"
      proof (rule ccontr)
        assume "\<not> d < N"
        then have "2 * (q * N) \<le> 2 * (q * d)" by simp
        moreover have "q * (2 * N) = 2 * (q * N)" by simp
        ultimately show False using s' a by linarith
      qed
      then have "N = d + 1" using False by simp
      then have "2 * r < q" using s' a by (simp add: algebra_simps)
      then show ?thesis using \<open>d < N\<close> by (simp add: round_half_even_def Let_def d_def r_def)
    qed
  qed
  then show ?thesis by (auto simp: round_half_even_def Let_def)
qed

lemma to_double_exact [simp]: "n < 2 ^ 53 \<Longrightarrow> to_double n = n"
  by (simp add: to_double_def)

lemma double_quot_exact:
  assumes "p < 2 ^ 53" "q > 0"
  shows "double_quot p q = p div q"
proof (cases "p < q")
  case True
  then show ?thesis by (simp add: double_quot_def)
next
  case False
  define d where "d = p div q"
  have d: "d > 0" using False assms(2) by (simp add: d_def div_greater_zero_iff)
  define b where "b = bit_length d"
  define k where "k = 53 - b"
  note bl = bit_length_bounds [OF d, folded b_def]
  have qd: "q * d \<le> p" "p < q * (d + 1)" using assms(2) by (simp_all add: d_def dividend_less_times_div)
  have "d < 2 ^ 53" using qd(1) assms by (metis div_le_dividend d_def le_less_trans)
  then have "(2::nat) ^ (b - 1) < 2 ^ 53" using bl by linarith
  then have "b - 1 < 53" by (rule power_less_imp_less_exp [rotated]) simp
  then have b: "b \<le> 53" by simp
  have b1: "b > 0" using d by (simp add: b_def bit_length.simps)
  have qk: "q < 2 ^ (k + 1)"
  proof -
    have "q * 2 ^ (b - 1) \<le> q * d" using bl by simp
    moreover have "(2::nat) ^ 53 = 2 ^ (k + 1) * 2 ^ (b - 1)"
      unfolding power_add [symmetric] using b b1 by (simp add: k_def)
    ultimately have "q * 2 ^ (b - 1) < 2 ^ (k + 1) * 2 ^ (b - 1)"
      using qd(1) assms(1) by linarith
    then show ?thesis by (simp only: mult_less_cancel2)
  qed
  define m where "m = round_half_even (p * 2 ^ k) q"
  have lo: "d * 2 ^ k \<le> m"
  proof -
    have "d * 2 ^ k = (q * d * 2 ^ k) div q" using assms(2) by (simp add: mult.assoc)
    also have "\<dots> \<le> (p * 2 ^ k) div q" using qd(1) by (intro div_le_mono mult_right_mono) simp_all
    also have "\<dots> \<le> m" using round_half_even_bounds [OF assms(2), of "p * 2 ^ k" 0] by (simp add: m_def)
    finally show ?thesis .
  qed
  have hi: "m < (d + 1) * 2 ^ k"
  proof -
    have "p + 1 \<le> q * (d + 1)" using qd(2) by linarith
    then have "(p + 1) * 2 ^ k \<le> q * (d + 1) * 2 ^ k" by (rule mult_right_mono) simp
    then have "2 * (p * 2 ^ k) + q < q * (2 * ((d + 1) * 2 ^ k))" using qk by (simp add: algebra_simps)
    moreover have "q * (2 * ((d + 1) * 2 ^ k) - 1) = q * (2 * ((d + 1) * 2 ^ k)) - q"
      by (simp only: diff_mult_distrib2 mult_1_right)
    ultimately have "2 * (p * 2 ^ k) < q * (2 * ((d + 1) * 2 ^ k) - 1)" by linarith
    then show ?thesis using round_half_even_bounds [OF assms(2), of "p * 2 ^ k" "(d + 1) * 2 ^ k"] by (simp add: m_def)
  qed
  have "m div 2 ^ k = d"
    using lo hi by (intro div_nat_eqI) (simp_all add: mult.commute)
  then show ?thesis using False b by (simp add: double_quot_def m_def k_def b_def d_def)
qed

section \<open>The counters\<close>

text \<open>\<open>num_req\<close> and the sum in \<open>getStats\<close> are 32-bit integers: both are kept modulo \<open>2 ^ 32\<close>.\<close>

record slot =
  num_req :: nat
  last_update :: nat

record request_stats =
  req_counter :: "slot list list"

definition num_slots :: nat where "num_slots = 20"

definition wrap64 :: "nat \<Rightarrow> nat" where "wrap64 n = n mod 2 ^ 64"

text \<open>
  The constructor, with the clock values its slots are created at; a request finished by a
  thread (\<open>None\<close> for a thread number that has no row); and the query.
\<close>

definition RequestStats_new :: "nat \<Rightarrow> (nat \<Rightarrow> nat \<Rightarrow> nat) \<Rightarrow> request_stats" where
  "RequestStats_new num_threads clock =
     \<lparr>req_counter = map (\<lambda>i. map (\<lambda>j. \<lparr>num_req = 0, last_update = clock i j\<rparr>) [0..<num_slots]) [0..<num_threads]\<rparr>"

definition slot_of :: "nat \<Rightarrow> nat \<Rightarrow> nat" where
  "slot_of tps now = double_quot (to_double (wrap64 (now * num_slots))) tps mod num_slots"

definition slot_update :: "nat \<Rightarrow> nat \<Rightarrow> slot \<Rightarrow> slot" where
  "slot_update tps now s =
     (if to_double (wrap64 (size_sub now (last_update s) * num_slots)) < tps
      then s\<lparr>num_req := (num_req s + 1) mod 2 ^ 32\<rparr>
      else s\<lparr>num_req := 1, last_update := now\<rparr>)"

definition finishedRequest :: "nat \<Rightarrow> nat \<Rightarrow> nat \<Rightarrow> request_stats \<Rightarrow> request_stats option" where
  "finishedRequest tps thread_num now rs =
     (let c = req_counter rs; j = slot_of tps now
      in if thread_num < length c
         then Some (rs\<lparr>req_counter := c[thread_num := (c ! thread_num)[j := slot_update tps now (c ! thread_num ! j)]]\<rparr>)
         else None)"

definition getStats :: "nat \<Rightarrow> nat \<Rightarrow> request_stats \<Rightarrow> nat" where
  "getStats tps now rs =
     sum_list (map (\<lambda>row. sum_list (map (\<lambda>s. if to_double (size_sub now (last_update s)) < tps then num_req s else 0) row))
       (req_counter rs)) mod 2 ^ 32"

section \<open>What a slot knows\<close>

text \<open>
  An execution: threads finish requests one after the other (the counters of different threads
  do not interfere). The times are below the point where \<open>now * 20\<close> leaves the exact range of a
  double.
\<close>

type_synonym finish = "nat \<times> nat"

fun stats_run :: "nat \<Rightarrow> request_stats \<Rightarrow> finish list \<Rightarrow> request_stats option" where
  "stats_run tps rs [] = Some rs"
| "stats_run tps rs ((i, t) # es) = Option.bind (finishedRequest tps i t rs) (\<lambda>rs'. stats_run tps rs' es)"

definition tick_ok :: "nat \<Rightarrow> bool" where
  "tick_ok t \<longleftrightarrow> t * num_slots < 2 ^ 53"

definition times_in :: "nat \<Rightarrow> nat \<Rightarrow> nat \<Rightarrow> finish list \<Rightarrow> nat list" where
  "times_in tps i j es = map snd (filter (\<lambda>(k, t). k = i \<and> slot_of tps t = j) es)"

text \<open>
  The requests of a slot so far, split into those it has dropped and those it counts. The
  counted ones follow its time stamp. Those dropped are at least nineteen twentieths of a second
  older than the stamp, provided the counting began a twentieth after the slot was created.
\<close>

definition slot_view :: "nat \<Rightarrow> nat \<Rightarrow> nat list \<Rightarrow> slot \<Rightarrow> bool" where
  "slot_view tps start ts s \<longleftrightarrow>
     (\<exists>old cur. ts = old @ cur \<and> num_req s = length cur mod 2 ^ 32 \<and>
       (\<forall>t \<in> set cur. last_update s \<le> t \<and> (t - last_update s) * num_slots < tps) \<and>
       ((\<forall>t \<in> set ts. start * num_slots + tps \<le> t * num_slots) \<longrightarrow>
          (if cur = [] then old = [] \<and> last_update s \<le> start else hd cur = last_update s) \<and>
          (\<forall>t \<in> set old. t * num_slots + 19 * tps < last_update s * num_slots)))"

lemma slot_of_exact: "tick_ok t \<Longrightarrow> tps > 0 \<Longrightarrow> slot_of tps t = t * num_slots div tps mod num_slots"
  by (simp add: slot_of_def wrap64_def tick_ok_def double_quot_exact)

lemma slot_of_less: "slot_of tps t < num_slots"
  by (simp add: slot_of_def num_slots_def)

lemma slot_update_exact:
  "tick_ok now \<Longrightarrow> last_update s \<le> now \<Longrightarrow> slot_update tps now s =
    (if (now - last_update s) * num_slots < tps then s\<lparr>num_req := (num_req s + 1) mod 2 ^ 32\<rparr>
     else s\<lparr>num_req := 1, last_update := now\<rparr>)"
proof -
  assume a: "tick_ok now" "last_update s \<le> now"
  have "(now - last_update s) * num_slots \<le> now * num_slots" by simp
  then have "(now - last_update s) * num_slots < 2 ^ 53"
    using a(1) unfolding tick_ok_def by (rule le_less_trans)
  then show ?thesis using a(2) by (simp add: slot_update_def wrap64_def)
qed

text \<open>Two times in the same slot, at least a twentieth apart: the later is in a later round.\<close>

lemma next_multiple:
  fixes a c m :: nat
  assumes "a + 1 \<le> c" "a mod m = c mod m"
  shows "a + m \<le> c"
proof -
  define k where "k = c - a"
  have k: "c = a + k" "k > 0" using assms(1) by (simp_all add: k_def)
  have "m dvd k" using assms mod_eq_dvd_iff_nat [of a c m] by (simp add: k_def)
  then show ?thesis using k by (simp add: dvd_imp_le)
qed

lemma later_round:
  fixes tps u t now :: nat
  assumes tps: "tps > 0" and slots: "u div tps mod 20 = j" "t div tps mod 20 = j" "now div tps mod 20 = j"
    and t: "u \<le> t" "t < u + tps" and now: "u + tps \<le> now"
  shows "t + 19 * tps < now"
proof -
  define a where "a = u div tps"
  have ua: "a * tps \<le> u" "u < (a + 1) * tps"
    using tps by (simp_all add: a_def div_times_less_eq_dividend dividend_less_div_times)
  have at: "t div tps = a"
  proof -
    have "a \<le> t div tps" using t(1) by (simp add: a_def div_le_mono)
    moreover have "t div tps < a + 2" using ua t(2) by (intro less_mult_imp_div_less) simp
    ultimately have "t div tps = a \<or> t div tps = a + 1" by linarith
    then show ?thesis using slots(1,2) mod_Suc [of a 20] by (auto simp: a_def split: if_splits)
  qed
  have "a + 1 \<le> now div tps"
    using now div_le_mono [of "u + tps" now tps] tps by (simp add: a_def div_add_self2)
  moreover have "a mod 20 = now div tps mod 20" using slots by (simp add: a_def)
  ultimately have "a + 20 \<le> now div tps" by (rule next_multiple)
  then have "(a + 20) * tps \<le> now" using tps by (simp add: less_eq_div_iff_mult_less_eq)
  moreover have "t < (a + 1) * tps" using at tps by (metis dividend_less_div_times add.commute mult.commute mult_Suc_right plus_1_eq_Suc)
  ultimately show ?thesis by (simp add: algebra_simps)
qed

lemma slot_view_step:
  assumes v: "slot_view tps start ts s" and tps: "tps > 0" and now: "tick_ok now" "\<forall>t \<in> set ts. t \<le> now"
    and lu: "last_update s \<le> now"
    and slot: "\<forall>t \<in> set ts. tick_ok t \<and> slot_of tps t = slot_of tps now"
  shows "slot_view tps start (ts @ [now]) (slot_update tps now s)"
proof -
  obtain old cur where d: "ts = old @ cur" "num_req s = length cur mod 2 ^ 32"
      "\<forall>t \<in> set cur. last_update s \<le> t \<and> (t - last_update s) * num_slots < tps"
    and late: "(\<forall>t \<in> set ts. start * num_slots + tps \<le> t * num_slots) \<longrightarrow>
          (if cur = [] then old = [] \<and> last_update s \<le> start else hd cur = last_update s) \<and>
          (\<forall>t \<in> set old. t * num_slots + 19 * tps < last_update s * num_slots)"
    using v unfolding slot_view_def by blast
  show ?thesis
  proof (cases "(now - last_update s) * num_slots < tps")
    case True
    have e: "slot_update tps now s = s\<lparr>num_req := (num_req s + 1) mod 2 ^ 32\<rparr>"
      using slot_update_exact [OF now(1) lu] True by simp
    have ne: "cur \<noteq> [] \<and> hd cur = last_update s"
      if a: "\<forall>t \<in> set (ts @ [now]). start * num_slots + tps \<le> t * num_slots"
    proof -
      have "cur \<noteq> []"
      proof
        assume "cur = []"
        then have "last_update s \<le> start" using late a by simp
        then have "now * num_slots < start * num_slots + tps"
          using True by (simp add: num_slots_def)
        then show False using a by simp
      qed
      then show ?thesis using late a by simp
    qed
    show ?thesis
      unfolding slot_view_def e
      by (rule exI [of _ old], rule exI [of _ "cur @ [now]"]) (use d late ne True lu in \<open>auto simp: mod_simps\<close>)
  next
    case False
    have e: "slot_update tps now s = s\<lparr>num_req := 1, last_update := now\<rparr>"
      using slot_update_exact [OF now(1) lu] False by simp
    have far: "t * num_slots + 19 * tps < now * num_slots"
      if a: "\<forall>t \<in> set (ts @ [now]). start * num_slots + tps \<le> t * num_slots" and t: "t \<in> set ts" for t
    proof (cases "t \<in> set old")
      case True
      then have "t * num_slots + 19 * tps < last_update s * num_slots" using late a by simp
      also have "\<dots> \<le> now * num_slots" using lu by simp
      finally show ?thesis .
    next
      case False
      then have tc: "t \<in> set cur" using t d(1) by simp
      then have u: "last_update s \<in> set ts" using late a d(1) by (cases cur) auto
      have sl: "x * num_slots div tps mod 20 = slot_of tps now" if "x = now \<or> x \<in> set ts" for x
        using slot_of_exact [OF _ tps, of x] that now(1) slot by (auto simp: num_slots_def)
      show ?thesis
      proof (rule later_round [OF tps sl sl sl])
        show "last_update s * num_slots \<le> t * num_slots" using d(3) tc by simp
        show "t * num_slots < last_update s * num_slots + tps"
          using bspec [OF d(3) tc] by (auto simp: num_slots_def)
        show "last_update s * num_slots + tps \<le> now * num_slots"
          using \<open>\<not> (now - last_update s) * num_slots < tps\<close> lu by (simp add: diff_mult_distrib num_slots_def)
      qed (use u t in auto)
    qed
    show ?thesis
      unfolding slot_view_def e
      by (rule exI [of _ ts], rule exI [of _ "[now]"]) (use tps far in auto)
  qed
qed

section \<open>All slots\<close>

definition stats_view :: "nat \<Rightarrow> nat \<Rightarrow> nat \<Rightarrow> finish list \<Rightarrow> request_stats \<Rightarrow> bool" where
  "stats_view tps start n es rs \<longleftrightarrow>
     length (req_counter rs) = n \<and> (\<forall>i < n. length (req_counter rs ! i) = num_slots) \<and>
     (\<forall>i < n. \<forall>j < num_slots. slot_view tps start (times_in tps i j es) (req_counter rs ! i ! j) \<and>
        (last_update (req_counter rs ! i ! j) \<le> start \<or> last_update (req_counter rs ! i ! j) \<in> snd ` set es))"

lemma times_in_simps [simp]:
  "times_in tps i j [] = []"
  "times_in tps i j (es @ [(k, t)]) =
     times_in tps i j es @ (if k = i \<and> slot_of tps t = j then [t] else [])"
  by (simp_all add: times_in_def)

lemma set_times_in: "t \<in> set (times_in tps i j es) \<Longrightarrow> (i, t) \<in> set es \<and> slot_of tps t = j"
  by (auto simp: times_in_def)

lemma stats_view_new:
  "\<forall>i j. clock i j \<le> start \<Longrightarrow> stats_view tps start n [] (RequestStats_new n clock)"
  by (auto simp: stats_view_def RequestStats_new_def slot_view_def)

lemma stats_view_step:
  assumes v: "stats_view tps start n es rs" and i: "i < n" and tps: "tps > 0"
    and now: "tick_ok now" "start \<le> now" "\<forall>(k, t) \<in> set es. t \<le> now \<and> tick_ok t"
  shows "\<exists>rs'. finishedRequest tps i now rs = Some rs' \<and> stats_view tps start n (es @ [(i, now)]) rs'"
proof -
  let ?j = "slot_of tps now" and ?c = "req_counter rs"
  define s' where "s' = slot_update tps now (?c ! i ! ?j)"
  define rs' where "rs' = rs\<lparr>req_counter := ?c[i := (?c ! i)[?j := s']]\<rparr>"
  have len: "length ?c = n" "\<forall>k < n. length (?c ! k) = num_slots" and j: "?j < num_slots"
    using v slot_of_less by (auto simp: stats_view_def)
  have old: "slot_view tps start (times_in tps k l es) (?c ! k ! l)"
    "last_update (?c ! k ! l) \<le> start \<or> last_update (?c ! k ! l) \<in> snd ` set es"
    if "k < n" "l < num_slots" for k l
    using v that by (auto simp: stats_view_def)
  have le: "last_update (?c ! i ! ?j) \<le> now" using old(2) [OF i j] now by fastforce
  have new: "slot_view tps start (times_in tps i ?j es @ [now]) s'"
    unfolding s'_def
    by (rule slot_view_step [OF old(1) [OF i j] tps now(1) _ le]) (use now(3) in \<open>auto dest!: set_times_in\<close>)
  have lu: "last_update s' = last_update (?c ! i ! ?j) \<or> last_update s' = now"
    by (simp add: s'_def slot_update_def)
  have at: "req_counter rs' ! k ! l = (if k = i \<and> l = ?j then s' else ?c ! k ! l)" if "k < n" "l < num_slots" for k l
    using that len i by (auto simp: rs'_def nth_list_update)
  have "stats_view tps start n (es @ [(i, now)]) rs'"
    unfolding stats_view_def
  proof (intro conjI allI impI)
    fix k l assume kl: "k < n" "l < num_slots"
    show "slot_view tps start (times_in tps k l (es @ [(i, now)])) (req_counter rs' ! k ! l)"
      using at [OF kl] new old(1) [OF kl] by auto
    show "last_update (req_counter rs' ! k ! l) \<le> start \<or>
        last_update (req_counter rs' ! k ! l) \<in> snd ` set (es @ [(i, now)])"
      using at [OF kl] lu old(2) [OF kl] by (force split: if_splits)
  qed (use len i in \<open>auto simp: rs'_def nth_list_update\<close>)
  moreover have "finishedRequest tps i now rs = Some rs'"
    using len i by (simp add: finishedRequest_def Let_def rs'_def s'_def)
  ultimately show ?thesis by blast
qed

lemma stats_run_append:
  "stats_run tps rs (es @ fs) = Option.bind (stats_run tps rs es) (\<lambda>rs'. stats_run tps rs' fs)"
  by (induction tps rs es rule: stats_run.induct) (auto split: bind_split)

lemma stats_run_view:
  assumes "tps > 0" "\<forall>i j. clock i j \<le> start" "\<forall>(i, t) \<in> set es. i < n \<and> tick_ok t \<and> start \<le> t" "sorted (map snd es)"
  shows "\<exists>rs. stats_run tps (RequestStats_new n clock) es = Some rs \<and> stats_view tps start n es rs"
  using assms(3,4)
proof (induction es rule: rev_induct)
  case Nil
  then show ?case using stats_view_new [OF assms(2)] by simp
next
  case (snoc e es)
  obtain i t where e: "e = (i, t)" by force
  obtain rs where rs: "stats_run tps (RequestStats_new n clock) es = Some rs" "stats_view tps start n es rs"
    using snoc by (auto simp: sorted_append)
  have "\<forall>(k, u) \<in> set es. u \<le> t \<and> tick_ok u" using snoc.prems e by (auto simp: sorted_append)
  then show ?case
    using stats_view_step [OF rs(2), of i t] snoc.prems e assms(1) rs(1) by (auto simp: stats_run_append)
qed

lemma sum_times_in:
  "\<forall>(i, t) \<in> set es. i < n \<Longrightarrow>
    (\<Sum>i < n. \<Sum>j < num_slots. length (filter P (times_in tps i j es))) = length (filter (\<lambda>(i, t). P t) es)"
proof (induction es rule: rev_induct)
  case (snoc e es)
  obtain k t where e: "e = (k, t)" by force
  have "(\<Sum>i < n. \<Sum>j < num_slots. length (filter P (times_in tps i j (es @ [e])))) =
      (\<Sum>i < n. \<Sum>j < num_slots. length (filter P (times_in tps i j es))) +
      (\<Sum>i < n. \<Sum>j < num_slots. if i = k then if j = slot_of tps t then if P t then 1 else 0 else 0 else 0)"
    unfolding sum.distrib [symmetric] by (intro sum.cong refl) (simp add: e)
  also have "(\<Sum>i < n. \<Sum>j < num_slots. if i = k then if j = slot_of tps t then if P t then 1 else 0 else 0 else 0) =
      (\<Sum>i < n. if i = k then \<Sum>j < num_slots. if j = slot_of tps t then if P t then 1 else 0 else 0 else 0 :: nat)"
    by (intro sum.cong refl) simp
  also have "\<dots> = (if P t then 1 else 0)"
    using snoc.prems e slot_of_less [of tps t] by (simp add: sum.delta)
  finally show ?case using snoc e by simp
qed simp

definition slot_count :: "nat \<Rightarrow> nat \<Rightarrow> slot \<Rightarrow> nat" where
  "slot_count tps now s = (if to_double (size_sub now (last_update s)) < tps then num_req s else 0)"

lemma slot_count_bounds:
  assumes v: "slot_view tps start ts s" and "tick_ok now" "last_update s \<le> now" "\<forall>t \<in> set ts. t \<le> now"
  shows "slot_count tps now s \<le> length (filter (\<lambda>t. now - t < tps) ts)"
    and "\<forall>t \<in> set ts. start * num_slots + tps \<le> t * num_slots \<Longrightarrow> length ts < 2 ^ 32 \<Longrightarrow>
      length (filter (\<lambda>t. (now - t) * num_slots \<le> 19 * tps) ts) \<le> slot_count tps now s"
proof -
  have "(now - last_update s) * num_slots \<le> now * num_slots" by simp
  then have "now - last_update s < 2 ^ 53"
    using assms(2) unfolding tick_ok_def num_slots_def by linarith
  then have c: "slot_count tps now s = (if now - last_update s < tps then num_req s else 0)"
    using assms(3) by (simp add: slot_count_def)
  obtain old cur where d: "ts = old @ cur" "num_req s = length cur mod 2 ^ 32"
      "\<forall>t \<in> set cur. last_update s \<le> t \<and> (t - last_update s) * num_slots < tps"
    and late: "(\<forall>t \<in> set ts. start * num_slots + tps \<le> t * num_slots) \<longrightarrow>
          (\<forall>t \<in> set old. t * num_slots + 19 * tps < last_update s * num_slots)"
    using v unfolding slot_view_def by blast
  show "slot_count tps now s \<le> length (filter (\<lambda>t. now - t < tps) ts)"
  proof (cases "now - last_update s < tps")
    case True
    then have "filter (\<lambda>t. now - t < tps) cur = cur" using d(3) by (force intro: filter_True)
    then have "length cur \<le> length (filter (\<lambda>t. now - t < tps) ts)" using d(1) by simp
    moreover have "slot_count tps now s \<le> length cur" using c d(2) by simp
    ultimately show ?thesis by linarith
  qed (use c in simp)
  assume few: "length ts < 2 ^ 32" and "\<forall>t \<in> set ts. start * num_slots + tps \<le> t * num_slots"
  then have o: "\<forall>t \<in> set old. t * num_slots + 19 * tps < last_update s * num_slots" using late by blast
  have none: "filter (\<lambda>t. (now - t) * num_slots \<le> 19 * tps) old = []"
    using o assms(3) by (fastforce simp: filter_empty_conv num_slots_def)
  show "length (filter (\<lambda>t. (now - t) * num_slots \<le> 19 * tps) ts) \<le> slot_count tps now s"
  proof (cases "now - last_update s < tps")
    case True
    then have "slot_count tps now s = length cur" using c d few by simp
    then show ?thesis using d none by simp
  next
    case False
    then have "filter (\<lambda>t. (now - t) * num_slots \<le> 19 * tps) cur = []"
      using d(3) assms(3) by (fastforce simp: filter_empty_conv num_slots_def)
    then show ?thesis using d(1) none by simp
  qed
qed

lemma getStats_sum:
  assumes "length (req_counter rs) = n" "\<forall>i < n. length (req_counter rs ! i) = num_slots"
  shows "getStats tps now rs = (\<Sum>i < n. \<Sum>j < num_slots. slot_count tps now (req_counter rs ! i ! j)) mod 2 ^ 32"
proof -
  have "sum_list (map (slot_count tps now) (req_counter rs ! i)) =
      (\<Sum>j < num_slots. slot_count tps now (req_counter rs ! i ! j))" if "i < n" for i
    using that assms by (simp add: sum_list_sum_nth atLeast0LessThan)
  then show ?thesis
    using assms(1) unfolding getStats_def slot_count_def [symmetric]
    by (simp add: sum_list_sum_nth atLeast0LessThan)
qed

section \<open>Properties\<close>

text \<open>
  C35. The statistics are accurate to a twentieth of a second, for clock values \<open>t\<close> with
  \<open>t * 20 < 2 ^ 53\<close> and fewer than \<open>2 ^ 31\<close> requests. After any requests of any threads, in the
  order of their times, \<open>getStats\<close> at a later time reports at most the requests that finished
  within the last second; and if no request at all finished in the first 0.05 seconds after
  the construction, at least those that finished within the last 0.95 seconds.
\<close>

theorem getStats_accurate:
  assumes tps: "tps > 0" and clock: "\<forall>i j. clock i j \<le> start"
    and es: "\<forall>(i, t) \<in> set es. i < n \<and> tick_ok t \<and> start \<le> t \<and> t \<le> now" "sorted (map snd es)"
    and now: "tick_ok now" "start \<le> now" and len: "length es < 2 ^ 31"
  shows "\<exists>rs. stats_run tps (RequestStats_new n clock) es = Some rs \<and>
    getStats tps now rs \<le> length (filter (\<lambda>(i, t). now - t < tps) es) \<and>
    ((\<forall>(i, t) \<in> set es. start * num_slots + tps \<le> t * num_slots) \<longrightarrow>
      length (filter (\<lambda>(i, t). (now - t) * num_slots \<le> 19 * tps) es) \<le> getStats tps now rs)"
proof -
  obtain rs where rs: "stats_run tps (RequestStats_new n clock) es = Some rs" and v: "stats_view tps start n es rs"
    using stats_run_view [OF tps clock _ es(2), of n] es(1) by fastforce
  let ?s = "\<lambda>i j. req_counter rs ! i ! j"
  let ?sum = "\<Sum>i < n. \<Sum>j < num_slots. slot_count tps now (?s i j)"
  have n: "\<forall>(i, t) \<in> set es. i < n" using es(1) by auto
  have sl: "slot_view tps start (times_in tps i j es) (?s i j)" "last_update (?s i j) \<le> now"
    "t \<in> set (times_in tps i j es) \<Longrightarrow> t \<le> now" if "i < n" "j < num_slots" for i j t
    using v that es(1) now(2) by (fastforce simp: stats_view_def dest: set_times_in)+
  have up: "?sum \<le> length (filter (\<lambda>(i, t). now - t < tps) es)"
    unfolding sum_times_in [OF n, where P = "\<lambda>t. now - t < tps" and tps = tps, symmetric]
    by (intro sum_mono slot_count_bounds(1)) (auto intro: sl now(1))
  have few: "length (times_in tps i j es) < 2 ^ 32" for i j
  proof -
    have "length (times_in tps i j es) \<le> length es" by (simp add: times_in_def)
    then have "length (times_in tps i j es) < 2 ^ 31" using len by (rule le_less_trans)
    then show ?thesis by simp
  qed
  have lo: "length (filter (\<lambda>(i, t). (now - t) * num_slots \<le> 19 * tps) es) \<le> ?sum"
    if "\<forall>(i, t) \<in> set es. start * num_slots + tps \<le> t * num_slots"
    unfolding sum_times_in [OF n, where P = "\<lambda>t. (now - t) * num_slots \<le> 19 * tps" and tps = tps, symmetric]
    by (intro sum_mono slot_count_bounds(2) few) (use that in \<open>auto intro: sl now(1) dest: set_times_in\<close>)
  have "?sum < 2 ^ 31"
    using up len length_filter_le [of "\<lambda>(i, t). now - t < tps" es] by linarith
  then have "?sum < 2 ^ 32" by simp
  then have "getStats tps now rs = ?sum"
    using v by (subst getStats_sum [of rs n]) (auto simp: stats_view_def)
  then show ?thesis using rs up lo by auto
qed

theorem getStats_accurate_witness:
  "\<exists>rs. stats_run 1000 (RequestStats_new 2 (\<lambda>i j. 0)) [(0, 100), (1, 500), (1, 510)] = Some rs \<and>
    getStats 1000 1200 rs = 2"
proof -
  have a: "\<forall>(i, t) \<in> set [(0, 100), (1, 500), (1, 510)]. i < (2::nat) \<and> tick_ok t \<and> (0::nat) \<le> t \<and> t \<le> 1200"
    "tick_ok 1200" by (simp_all add: tick_ok_def num_slots_def)
  show ?thesis
    using getStats_accurate [of 1000 "\<lambda>i j. 0" 0 "[(0, 100), (1, 500), (1, 510)]" 2 1200, OF _ _ a(1) _ a(2)]
    by (force simp: num_slots_def)
qed

end
