(* ===== verification/Message_Loop.thy ===== *)
theory Message_Loop
  imports Http_Response
begin

text \<open>
  The loop that the four protocol connections have in their \<open>readDone\<close>: parse a message from the
  front of the input buffer, consume it, handle it, repeat. The contract says what such a
  connection provides; its clients get that the loop over buffer iterators does what the
  function \<open>serve\<close> does on the plain string of unread bytes.
\<close>

section \<open>The loop on byte strings\<close>

fun serve :: "nat \<Rightarrow> (string \<Rightarrow> parse_exn + 'r \<times> string) \<Rightarrow> ('r \<Rightarrow> 's \<Rightarrow> (bool \<times> 's) option) \<Rightarrow> string \<Rightarrow> 's \<Rightarrow>
    (bool \<times> string \<times> 's) option" where
  "serve 0 gr handle str s = None"
| "serve (Suc n) gr handle str s =
     (case gr str of
        Inl IncompleteInput \<Rightarrow> Some (True, str, s)
      | Inl ErrorInRequest \<Rightarrow> Some (False, str, s)
      | Inl _ \<Rightarrow> None
      | Inr (r, rest) \<Rightarrow>
          Option.bind (handle r s) (\<lambda>(go, s'). if go then serve n gr handle rest s' else Some (False, rest, s')))"

text \<open>More fuel than there are bytes does not change the result.\<close>

definition consuming :: "(string \<Rightarrow> parse_exn + 'r \<times> string) \<Rightarrow> bool" where
  "consuming gr \<longleftrightarrow> (\<forall>s r rest. gr s = Inr (r, rest) \<longrightarrow> (\<exists>p. p \<noteq> [] \<and> s = p @ rest))"

lemma consuming_less: "consuming gr \<Longrightarrow> gr s = Inr (r, rest) \<Longrightarrow> length rest < length s"
  unfolding consuming_def by fastforce

lemma serve_fuel:
  "consuming gr \<Longrightarrow> length str < n \<Longrightarrow> length str < m \<Longrightarrow> serve n gr handle str s = serve m gr handle str s"
proof (induction n gr handle str s arbitrary: m rule: serve.induct)
  case (2 n gr handle str s)
  then obtain k where m: "m = Suc k" by (cases m) auto
  show ?case
  proof (cases "gr str")
    case (Inr p)
    then obtain r rest where r: "gr str = Inr (r, rest)" by (cases p) auto
    then have "length rest < length str" by (rule consuming_less [OF "2.prems"(1)])
    then have len: "length rest < n" "length rest < k" using "2.prems"(2,3) m by simp_all
    have "serve n gr handle rest s' = serve k gr handle rest s'"
      if "handle r s = Some (True, s')" for s'
      by (rule "2.IH" [OF r refl that refl _ "2.prems"(1) len]) simp
    then show ?thesis using r m by (cases "handle r s") auto
  qed (simp add: m)
qed simp

section \<open>The contract\<close>

lemma eob_consumed:
  assumes "it_rest b it rest" "eob b' it"
  shows "rest = []"
proof -
  obtain n where at: "it_at b it n" and rest: "rest = drop n (buf_bytes b)"
    using assms(1) by (auto simp: it_rest_def)
  have "budget it = 0" using assms(2) by (auto simp: eob_def split: if_splits)
  then have "readSize (it_view b it) = 0" using at by (simp add: it_at_def)
  then have "buf_bytes (it_view b it) = []" using at readSize_zero_iff by (auto simp: it_at_def)
  then show ?thesis using at rest by (simp add: it_at_def)
qed

locale message_loop =
  fixes parse :: "nat \<Rightarrow> buffer \<Rightarrow> iterator \<Rightarrow> 'r parse_outcome"
    and gr :: "string \<Rightarrow> parse_exn + 'r \<times> string"
    and handle :: "'r \<Rightarrow> 's \<Rightarrow> (bool \<times> 's) option"
    and in_of :: "'s \<Rightarrow> buffer"
    and set_in :: "buffer \<Rightarrow> 's \<Rightarrow> 's"
    and check :: bool
    and loop :: "nat \<Rightarrow> 's \<Rightarrow> (bool \<times> 's) option"
  assumes parse_message: "buf_ok b \<Longrightarrow> buf_clean b \<Longrightarrow> length (buf_bytes b) < fuel \<Longrightarrow>
      gr (buf_bytes b) = Inr (r, rest) \<Longrightarrow>
      \<exists>it. parse fuel b (Buffer_begin b) = RcParsed r it \<and>
        bytes_read it = length (buf_bytes b) - length rest \<and> it_rest b it rest"
    and parse_error: "buf_ok b \<Longrightarrow> buf_clean b \<Longrightarrow> length (buf_bytes b) < fuel \<Longrightarrow>
      gr (buf_bytes b) = Inl e \<Longrightarrow> parse fuel b (Buffer_begin b) = outcome (Inl e)"
    and gr_consuming: "consuming gr"
    and gr_nil: "gr [] = Inl IncompleteInput"
    and handle_in: "handle r (set_in b s) = map_option (\<lambda>(go, t). (go, set_in b t)) (handle r s)"
    and in_set: "in_of (set_in b s) = b"
    and set_set: "set_in b (set_in b' s) = set_in b s"
    and set_in_of: "set_in (in_of s) s = s"
    and loop_0: "loop 0 s = None"
    and loop_Suc: "loop (Suc f) s =
      (case parse (Suc f) (in_of s) (Buffer_begin (in_of s)) of
         RcError \<Rightarrow> Some (False, s)
       | RcIncomplete \<Rightarrow> Some (True, s)
       | NoReturn e \<Rightarrow> None
       | RcParsed r it \<Rightarrow>
           Option.bind (handle r (set_in (consume (bytes_read it) (in_of s)) s)) (\<lambda>(go, s').
             if \<not> go then Some (False, s')
             else if check \<and> eob (in_of s') it then Some (True, s')
             else loop f s'))"
begin

text \<open>One message, taken from the front of the buffer.\<close>

lemma front:
  assumes "buf_ok b" "buf_clean b" "length (buf_bytes b) < fuel" "gr (buf_bytes b) = Inr (r, rest)"
  shows "\<exists>it b'. parse fuel b (Buffer_begin b) = RcParsed r it \<and> b' = consume (bytes_read it) b \<and>
    buf_ok b' \<and> buf_clean b' \<and> buf_bytes b' = rest \<and> (\<forall>c. eob c it \<longrightarrow> rest = [])"
proof -
  obtain it where it: "parse fuel b (Buffer_begin b) = RcParsed r it"
    "bytes_read it = length (buf_bytes b) - length rest" "it_rest b it rest"
    using parse_message [OF assms] by blast
  obtain p where "buf_bytes b = p @ rest" using gr_consuming assms(4) unfolding consuming_def by blast
  then have "drop (bytes_read it) (buf_bytes b) = rest" using it(2) by simp
  then show ?thesis
    using it assms(1,2) consume_ok consume_clean buf.skip_content eob_consumed [OF it(3)] by (auto simp: buf_ok_def)
qed

lemma loop_serves:
  "buf_ok b \<Longrightarrow> buf_clean b \<Longrightarrow> length (buf_bytes b) < fuel \<Longrightarrow>
    (case serve fuel gr handle (buf_bytes b) s of
       None \<Rightarrow> loop fuel (set_in b s) = None
     | Some (go, rest, s') \<Rightarrow>
         \<exists>b'. loop fuel (set_in b s) = Some (go, set_in b' s') \<and> buf_ok b' \<and> buf_clean b' \<and> buf_bytes b' = rest)"
proof (induction fuel arbitrary: b s)
  case (Suc f)
  note b = Suc.prems
  show ?case
  proof (cases "gr (buf_bytes b)")
    case (Inl e)
    then show ?thesis
      using parse_error [OF b Inl] b by (cases e) (auto simp: loop_Suc in_set outcome_def)
  next
    case (Inr p)
    then obtain r rest where r: "gr (buf_bytes b) = Inr (r, rest)" by (cases p) auto
    obtain it b' where it: "parse (Suc f) b (Buffer_begin b) = RcParsed r it" "b' = consume (bytes_read it) b"
      and b': "buf_ok b'" "buf_clean b'" "buf_bytes b' = rest" "eob b' it \<longrightarrow> rest = []"
      using front [OF b r] by blast
    have len: "length (buf_bytes b') < f" using b(3) consuming_less [OF gr_consuming r] b'(3) by simp
    show ?thesis
    proof (cases "handle r s")
      case None
      then show ?thesis using r it by (simp add: loop_Suc in_set set_set handle_in)
    next
      case (Some q)
      then obtain go t where q: "handle r s = Some (go, t)" by (cases q) auto
      have l: "loop (Suc f) (set_in b s) =
          (if \<not> go then Some (False, set_in b' t) else if check \<and> eob b' it then Some (True, set_in b' t)
           else loop f (set_in b' t))"
        using q it by (simp add: loop_Suc in_set set_set handle_in)
      have sv: "serve (Suc f) gr handle (buf_bytes b) s = (if go then serve f gr handle rest t else Some (False, rest, t))"
        using r q by simp
      show ?thesis
      proof (cases "go \<and> check \<and> eob b' it")
        case True
        then have "rest = []" using b'(4) by blast
        then have "serve f gr handle rest t = Some (True, rest, t)" using len b'(3) gr_nil by (cases f) auto
        then show ?thesis unfolding l sv using True b' by auto
      next
        case False
        then show ?thesis unfolding l sv using Suc.IH [OF b'(1,2) len, of t] b' by auto
      qed
    qed
  qed
qed (simp add: loop_0)

end

section \<open>The two grammars\<close>

lemma consuming_bindE:
  assumes "\<And>s a t. x s = Inr (a, t) \<Longrightarrow> \<exists>p. p \<noteq> [] \<and> s = p @ t"
    and "\<And>a s b t. f a s = Inr (b, t) \<Longrightarrow> \<exists>p. s = p @ t"
  shows "consuming (\<lambda>s. bindE (x s) (\<lambda>(a, t). f a t))"
  unfolding consuming_def
proof (intro allI impI)
  fix s r rest assume "bindE (x s) (\<lambda>(a, t). f a t) = Inr (r, rest)"
  then obtain a t where "x s = Inr (a, t)" "f a t = Inr (r, rest)" by (auto simp: bindE_Inr_iff)
  note at = this
  obtain p where p: "p \<noteq> []" "s = p @ t" using assms(1) [OF at(1)] by (elim exE conjE)
  obtain q where "t = q @ rest" using assms(2) [OF at(2)] by (elim exE)
  with p show "\<exists>p. p \<noteq> [] \<and> s = p @ rest" by (intro exI [of _ "p @ q"]) simp
qed

lemma gr_line_end: "gr_line s = Inr (l, t) \<Longrightarrow> \<exists>p. p \<noteq> [] \<and> s = p @ t"
proof -
  assume a: "gr_line s = Inr (l, t)"
  then have "dropWhile (\<lambda>c. c \<noteq> CR) s = CR # LF # t"
    by (auto simp: gr_line_def split: list.splits if_splits dest: dropWhile_eq_ConsD)
  then have "s = (takeWhile (\<lambda>c. c \<noteq> CR) s @ [CR, LF]) @ t"
    using takeWhile_dropWhile_id [of "\<lambda>c. c \<noteq> CR" s] by simp
  then show ?thesis by (intro exI [of _ "takeWhile (\<lambda>c. c \<noteq> CR) s @ [CR, LF]"]) simp
qed

lemma gr_headers_end: "gr_headers s = Inr t \<Longrightarrow> \<exists>p. s = p @ t"
proof (induction s rule: gr_headers.induct)
  case (1 s)
  then obtain l r where l: "gr_line s = Inr (l, r)" "(if l = [] then Inr r else gr_headers r) = Inr t"
    by (subst (asm) (3) gr_headers.simps) (auto simp: bindE_Inr_iff)
  obtain p where p: "s = p @ r" using gr_line_end [OF l(1)] by blast
  then show ?case using 1 l by (cases "l = []") fastforce+
qed

lemma gr_fields_end': "gr_fields n acc s = Inr (x, t) \<Longrightarrow> \<exists>p. s = p @ t"
proof (induction n acc s rule: gr_fields.induct)
  case (1 n acc s)
  then obtain l r where l: "gr_line s = Inr (l, r)"
    "(if l = [] then Inr ((n, acc), r) else bindE (header_line l n) (\<lambda>m. gr_fields m (acc @ l) r)) = Inr (x, t)"
    by (subst (asm) (3) gr_fields.simps) (auto simp: bindE_Inr_iff)
  obtain p where p: "s = p @ r" using gr_line_end [OF l(1)] by blast
  show ?case
  proof (cases "l = []")
    case False
    then obtain m where "header_line l n = Inr m" "gr_fields m (acc @ l) r = Inr (x, t)"
      using l(2) by (auto simp: bindE_Inr_iff)
    then show ?thesis using "1.IH" [OF l(1) refl False] p by fastforce
  qed (use l p in auto)
qed

lemma gr_word_end: "gr_word s = Inr (w, t) \<Longrightarrow> \<exists>p. s = p @ t"
  using takeWhile_dropWhile_id [of word_char s] by (metis gr_word_def Inr_inject prod.inject sum.distinct(1))

lemma gr_char_end: "gr_char c s = Inr t \<Longrightarrow> s = [c] @ t"
  by (auto simp: gr_char_def split: list.splits if_splits)

lemma gr_newline_end: "gr_newline s = Inr t \<Longrightarrow> s = [CR, LF] @ t"
  by (auto simp: gr_newline_def split: list.splits if_splits)

lemma gr_request_consuming: "consuming gr_request"
  unfolding consuming_def
proof (intro allI impI)
  fix s r rest assume "gr_request s = Inr (r, rest)"
  then obtain m s1 s2 s3 a s4 s5 v s6 s7 where g: "gr_word s = Inr (m, s1)" "gr_char SP s1 = Inr s2"
    "gr_char CHR ''/'' s2 = Inr s3" "gr_word s3 = Inr (a, s4)" "gr_char SP s4 = Inr s5" "gr_word s5 = Inr (v, s6)"
    "gr_newline s6 = Inr s7" "gr_headers s7 = Inr rest"
    by (auto simp: gr_request_def bindE_Inr_iff)
  obtain p q u where p: "s = p @ s1" "s3 = q @ s4" "s5 = u @ s6"
    using gr_word_end g(1,4,6) by metis
  obtain w where w: "s7 = w @ rest" using gr_headers_end [OF g(8)] by blast
  note step = gr_char_end [OF g(2)] gr_char_end [OF g(3)] gr_char_end [OF g(5)] gr_newline_end [OF g(7)]
  have "s = p @ [SP] @ [CHR ''/''] @ q @ [SP] @ u @ [CR, LF] @ w @ rest"
    unfolding p(1) step(1) step(2) p(2) step(3) p(3) step(4) w ..
  then show "\<exists>p. p \<noteq> [] \<and> s = p @ rest"
    by (intro exI [of _ "p @ [SP] @ [CHR ''/''] @ q @ [SP] @ u @ [CR, LF] @ w"]) simp
qed

lemma gr_response_consuming: "consuming gr_response"
  unfolding gr_response_def
proof (rule consuming_bindE [OF gr_line_end])
  fix a s b t
  assume "bindE (gr_fields 0 [] s) (\<lambda>((n, hdr), s).
      if length s < n then Inl IncompleteInput
      else Inr (\<lparr>statusLine = a, headerRemainder = hdr, resp_body = take n s\<rparr>, drop n s)) = Inr (b, t)"
  then obtain x u n where x: "gr_fields 0 [] s = Inr (x, u)" "t = drop n u"
    by (auto simp: bindE_Inr_iff split: if_splits)
  obtain p where p: "s = p @ u" using gr_fields_end' [OF x(1)] by blast
  then have "s = (p @ take n u) @ t" using x(2) by simp
  then show "\<exists>p. s = p @ t" by blast
qed

lemma gr_nils: "gr_request [] = Inl IncompleteInput" "gr_response [] = Inl IncompleteInput"
  by (simp_all add: gr_request_def gr_word_def gr_response_def gr_line_def)

end
