(* ===== verification/Server_Base.thy ===== *)
theory Server_Base
  imports Message_Loop Connection Request_Stats
begin

text \<open>
  What the server connections share: the thread and the clock they run with, the counters of
  their service, and answering through the output buffer of the connection.
\<close>

section \<open>Environment\<close>

record server_env =
  env_tps :: nat
  env_me :: nat
  env_ticks :: "nat \<Rightarrow> nat"

text \<open>
  The service a connection belongs to: its statistics, whether it was asked to stop, and how
  often the clock has been read.
\<close>

record service =
  srv_stats :: request_stats
  stop_requested :: bool
  clock_reads :: nat

definition getTicks :: "server_env \<Rightarrow> service \<Rightarrow> nat \<times> service" where
  "getTicks e v = (env_ticks e (clock_reads v), v\<lparr>clock_reads := clock_reads v + 1\<rparr>)"

definition count_request :: "server_env \<Rightarrow> service \<Rightarrow> service option" where
  "count_request e v =
     (case getTicks e v of (now, v1) \<Rightarrow>
        map_option (\<lambda>rs. v1\<lparr>srv_stats := rs\<rparr>) (finishedRequest (env_tps e) (env_me e) now (srv_stats v1)))"

definition service_stop :: "service \<Rightarrow> service" where
  "service_stop v = v\<lparr>stop_requested := True\<rparr>"

definition write_lines :: "string list \<Rightarrow> connection \<Rightarrow> connection" where
  "write_lines ls c = c\<lparr>out_buf := fold Buffer_write ls (out_buf c)\<rparr>"

text \<open>The \<open>/stats\<close> document, the same in both servers.\<close>

definition stats_reply :: "server_env \<Rightarrow> service \<Rightarrow> string list \<times> service" where
  "stats_reply e v =
     (case getTicks e v of (now, v1) \<Rightarrow>
        let stats_string = show_nat (getStats (env_tps e) now (srv_stats v1))
        in (ok_lines (length stats_string) @ [stats_string], v1))"

lemma count_request_total:
  "env_me e < length (req_counter (srv_stats v)) \<Longrightarrow>
    \<exists>v'. count_request e v = Some v' \<and> length (req_counter (srv_stats v')) = length (req_counter (srv_stats v)) \<and>
      stop_requested v' = stop_requested v"
  by (simp add: count_request_def getTicks_def finishedRequest_def Let_def)

section \<open>Answering\<close>

definition answer :: "string list \<Rightarrow> connection \<Rightarrow> connection" where
  "answer ls c = startWrite (write_lines ls c)"

lemma write_lines_facts:
  assumes "conn_inv c"
  shows "conn_inv (write_lines ls c)" "out_stream (write_lines ls c) = out_stream c @ concat ls"
    "same_input c (write_lines ls c)"
  using assms buf.puts [of "out_buf c" ls] by (auto simp: write_lines_def conn_inv_def out_stream_def same_input_def)

lemma answer_facts:
  assumes "conn_inv c"
  shows "conn_inv (answer ls c)" "out_stream (answer ls c) = out_stream c @ concat ls" "same_input c (answer ls c)"
  using write_lines_facts [OF assms, of ls] startWrite_inv [of "write_lines ls c"]
  by (auto simp: answer_def intro: same_input_trans)

text \<open>Writing does not look at the input buffer.\<close>

definition set_in_buf :: "buffer \<Rightarrow> connection \<Rightarrow> connection" where
  "set_in_buf b c = c\<lparr>in_buf := b\<rparr>"

lemma doWrite_loop_in: "doWrite_loop (set_in_buf b c) = set_in_buf b (doWrite_loop c)"
proof (induction "length (sock_writes c)" arbitrary: c rule: less_induct)
  case less
  let ?d = "set_in_buf b c"
  have eq: "out_buf ?d = out_buf c" "sock_writes ?d = sock_writes c" "sock_sent ?d = sock_sent c"
    by (simp_all add: set_in_buf_def)
  obtain r ws where sw: "socketWrite (readSize (out_buf c)) (sock_writes c) = (r, ws)" by force
  show ?case
  proof (cases "\<exists>n. r = WDone n \<and> n \<noteq> 0")
    case False
    then have r: "r = WDone 0 \<or> (\<exists>e. r = WErr e)" by (cases r) auto
    show ?thesis
      using doWrite_loop_stop [OF sw r] doWrite_loop_stop [of ?d r ws, unfolded eq, OF sw r]
      by (auto simp: set_in_buf_def writeWhenReady_def acquire_def touch_def)
  next
    case True
    then obtain n where n: "r = WDone n" "n \<noteq> 0" by blast
    define c2 where "c2 = c\<lparr>sock_writes := ws, sock_sent := sock_sent c @ map the (take n (read_area (out_buf c))),
      out_buf := consume n (out_buf c)\<rparr>"
    have d2: "set_in_buf b c2 = ?d\<lparr>sock_writes := ws, sock_sent := sock_sent ?d @ map the (take n (read_area (out_buf ?d))),
      out_buf := consume n (out_buf ?d)\<rparr>"
      by (simp add: c2_def set_in_buf_def)
    have "length (sock_writes c2) < length (sock_writes c)"
      using socketWrite_shorter sw n(1) by (simp add: c2_def)
    from less.hyps [OF this] have IH: "doWrite_loop (set_in_buf b c2) = set_in_buf b (doWrite_loop c2)" .
    have "out_buf (set_in_buf b c2) = out_buf c2" by (simp add: set_in_buf_def)
    then show ?thesis
      using doWrite_loop_turn [OF sw [unfolded n(1)] n(2) c2_def]
        doWrite_loop_turn [of ?d n ws, unfolded eq, OF sw [unfolded n(1)] n(2) d2 [unfolded eq]] IH
      by (simp add: set_in_buf_def)
  qed
qed

lemma startWrite_in: "startWrite (set_in_buf b c) = set_in_buf b (startWrite c)"
proof (cases "writing c")
  case True
  then show ?thesis by (simp add: startWrite_def touch_def set_in_buf_def)
next
  case False
  have "acquire ((touch (set_in_buf b c))\<lparr>writing := True\<rparr>) = set_in_buf b (acquire ((touch c)\<lparr>writing := True\<rparr>))"
    by (simp add: acquire_def touch_def set_in_buf_def)
  then show ?thesis
    using False by (simp add: startWrite_def doWrite_def doWrite_loop_in)
      (simp add: set_in_buf_def release_def touch_def Connection_destroy_def Let_def)
qed

lemma answer_in: "answer ls (set_in_buf b c) = set_in_buf b (answer ls c)"
proof -
  have "write_lines ls (set_in_buf b c) = set_in_buf b (write_lines ls c)"
    by (simp add: write_lines_def set_in_buf_def)
  then show ?thesis by (simp add: answer_def startWrite_in)
qed

lemma set_in_buf_laws [simp]: "in_buf (set_in_buf b c) = b" "set_in_buf b (set_in_buf b' c) = set_in_buf b c"
  "set_in_buf (in_buf c) c = c" "out_stream (set_in_buf b c) = out_stream c"
  "conn_inv (set_in_buf b c) \<longleftrightarrow> buf_ok b \<and> buf_ok (out_buf c)"
  by (simp_all add: set_in_buf_def out_stream_def conn_inv_def)

section \<open>A sequence of answers\<close>

lemma answers_facts:
  "conn_inv c \<Longrightarrow> conn_inv (fold answer lss c) \<and> out_stream (fold answer lss c) = out_stream c @ concat (map concat lss) \<and>
    same_input c (fold answer lss c)"
proof (induction lss arbitrary: c)
  case (Cons ls lss)
  show ?case using Cons.IH [OF answer_facts(1) [OF Cons.prems]] answer_facts [OF Cons.prems, of ls] by (auto intro: same_input_trans)
qed simp

lemma answers_live: "conn_inv c \<Longrightarrow> conn_live c \<Longrightarrow> conn_live (fold answer lss c)"
proof (induction lss arbitrary: c)
  case (Cons ls lss)
  have "conn_live (answer ls c)"
    using startWrite_live [OF write_lines_facts(1) [OF Cons.prems(1)], of ls] Cons.prems(2)
    by (simp add: answer_def conn_live_def write_lines_def)
  then show ?case using Cons.IH [OF answer_facts(1) [OF Cons.prems(1)]] by simp
qed simp

text \<open>A connection that has sent all it was given, and whose socket goes on accepting bytes.\<close>

definition drained :: "nat \<Rightarrow> connection \<Rightarrow> bool" where
  "drained k c \<longleftrightarrow> conn_inv c \<and> \<not> writing c \<and> buf_bytes (out_buf c) = [] \<and> accepting k (sock_writes c)"

lemma drained_write:
  assumes "drained (length t + k) c" "t \<noteq> []" "buf_ok b" "buf_bytes b = t"
  shows "drained k (startWrite (c\<lparr>out_buf := b\<rparr>))" "sock_sent (startWrite (c\<lparr>out_buf := b\<rparr>)) = sock_sent c @ t"
proof -
  have c: "conn_inv (c\<lparr>out_buf := b\<rparr>)" "\<not> writing (c\<lparr>out_buf := b\<rparr>)" "buf_bytes (out_buf (c\<lparr>out_buf := b\<rparr>)) \<noteq> []"
    "accepting (length (buf_bytes (out_buf (c\<lparr>out_buf := b\<rparr>))) + k) (sock_writes (c\<lparr>out_buf := b\<rparr>))"
    using assms by (auto simp: drained_def conn_inv_def)
  show "drained k (startWrite (c\<lparr>out_buf := b\<rparr>))" "sock_sent (startWrite (c\<lparr>out_buf := b\<rparr>)) = sock_sent c @ t"
    using startWrite_flushes [OF c] startWrite_inv [OF c(1)] assms(4) by (auto simp: drained_def)
qed

lemma answers_drained:
  "drained (length (concat (map concat lss)) + k) c \<Longrightarrow> \<forall>ls \<in> set lss. concat ls \<noteq> [] \<Longrightarrow>
    drained k (fold answer lss c) \<and> sock_sent (fold answer lss c) = sock_sent c @ concat (map concat lss)"
proof (induction lss arbitrary: c)
  case (Cons ls lss)
  let ?b = "fold Buffer_write ls (out_buf c)"
  have inv: "conn_inv c" "buf_bytes (out_buf c) = []" using Cons.prems(1) by (auto simp: drained_def)
  have b: "buf_ok ?b" "buf_bytes ?b = concat ls" using buf.puts [of "out_buf c" ls] inv by (auto simp: conn_inv_def)
  have "drained (length (concat ls) + (length (concat (map concat lss)) + k)) c" using Cons.prems(1) by (simp add: add.assoc)
  note w = drained_write [OF this _ b]
  have "answer ls c = startWrite (c\<lparr>out_buf := ?b\<rparr>)" by (simp add: answer_def write_lines_def)
  then show ?case using Cons.IH [of "answer ls c"] Cons.prems(2) w by simp
qed simp

end
