(* ===== verification/Kv_Server.thy ===== *)
theory Kv_Server
  imports Server_Base Lock_Free_Hash_Table
begin

text \<open>
  The server side of \<^verbatim>\<open>src/kv_connection.cpp\<close>: a request for a number is answered with the
  value the hash table holds under it. The member \<open>request_\<close> is the request that is passed on.
  The number read from an empty address is indeterminate (\<open>junk\<close>). \<open>None\<close> is a run without a
  defined result: the parser's, the table's, or a thread without statistics.
\<close>

section \<open>The connection\<close>

record kv_server =
  kv_conn :: connection
  kv_table :: hash_table
  kv_srv :: service

definition KVServerConnection_new :: "int \<Rightarrow> io_write list \<Rightarrow> hash_table \<Rightarrow> service \<Rightarrow> kv_server" where
  "KVServerConnection_new fd ws t v = \<lparr>kv_conn = startRead (Connection_server fd ws), kv_table = t, kv_srv = v\<rparr>"

definition kv_reply :: "key option \<Rightarrow> string list" where
  "kv_reply r =
     (case r of
        Some value \<Rightarrow> let value_stream = show_nat (unat value) in ok_lines (length value_stream) @ [value_stream]
      | None \<Rightarrow> ok_lines 0 @ [crlf ''value corresponding to the key not found''])"

definition KV_handleRequest :: "server_env \<Rightarrow> nat \<Rightarrow> request \<Rightarrow> kv_server \<Rightarrow> (bool \<times> kv_server) option" where
  "KV_handleRequest e junk r s =
     (if req_address r = ''quit'' then Some (False, s\<lparr>kv_srv := service_stop (kv_srv s)\<rparr>)
      else if req_address r = ''stats''
      then case stats_reply e (kv_srv s) of
             (ls, v) \<Rightarrow> Some (True, s\<lparr>kv_conn := answer ls (kv_conn s), kv_srv := v\<rparr>)
      else let k = extract_unsigned 32 junk (req_address r)
           in Option.bind (LockFreeHashTable_lookup (env_me e) (of_nat k) (kv_table s)) (\<lambda>(value, t).
              let c1 = write_lines (kv_reply value) (kv_conn s)
              in Option.bind (count_request e (kv_srv s)) (\<lambda>v.
                 Some (True, s\<lparr>kv_conn := startWrite c1, kv_table := t, kv_srv := v\<rparr>))))"

fun KV_readDone :: "server_env \<Rightarrow> nat \<Rightarrow> nat \<Rightarrow> kv_server \<Rightarrow> (bool \<times> kv_server) option" where
  "KV_readDone e junk 0 s = None"
| "KV_readDone e junk (Suc f) s =
     (let i = in_buf (kv_conn s)
      in case parseRequest (Suc f) i (Buffer_begin i) of
           RcError \<Rightarrow> Some (False, s)
         | RcIncomplete \<Rightarrow> Some (True, s)
         | NoReturn _ \<Rightarrow> None
         | RcParsed r it \<Rightarrow>
             Option.bind
               (KV_handleRequest e junk r (s\<lparr>kv_conn := (kv_conn s)\<lparr>in_buf := consume (bytes_read it) i\<rparr>\<rparr>)) (\<lambda>(go, s').
               if \<not> go then Some (False, s')
               else if eob (in_buf (kv_conn s')) it then Some (True, s')
               else KV_readDone e junk f s'))"

section \<open>The loop of the connection\<close>

abbreviation kv_set_in :: "buffer \<Rightarrow> kv_server \<Rightarrow> kv_server" where
  "kv_set_in b s \<equiv> s\<lparr>kv_conn := set_in_buf b (kv_conn s)\<rparr>"

interpretation kv: message_loop parseRequest gr_request "KV_handleRequest e junk" "\<lambda>s. in_buf (kv_conn s)" kv_set_in
  True "KV_readDone e junk" for e junk
proof unfold_locales
  fix r b s
  have w: "startWrite (write_lines ls (set_in_buf b c)) = set_in_buf b (startWrite (write_lines ls c))" for ls c
    using answer_in [of ls b c] by (simp add: answer_def)
  show "KV_handleRequest e junk r (kv_set_in b s) =
      map_option (\<lambda>(go, t). (go, kv_set_in b t)) (KV_handleRequest e junk r s)"
    by (auto simp: KV_handleRequest_def Let_def answer_in w split: prod.splits bind_splits)
next
  fix f s
  show "KV_readDone e junk (Suc f) s =
    (case parseRequest (Suc f) (in_buf (kv_conn s)) (Buffer_begin (in_buf (kv_conn s))) of
       RcError \<Rightarrow> Some (False, s) | RcIncomplete \<Rightarrow> Some (True, s) | NoReturn e \<Rightarrow> None
     | RcParsed r it \<Rightarrow>
         Option.bind (KV_handleRequest e junk r (kv_set_in (consume (bytes_read it) (in_buf (kv_conn s))) s)) (\<lambda>(go, s').
           if \<not> go then Some (False, s')
           else if True \<and> eob (in_buf (kv_conn s')) it then Some (True, s')
           else KV_readDone e junk f s'))"
    by (subst KV_readDone.simps) (simp only: Let_def set_in_buf_def simp_thms)
qed (auto simp: gr_request_consuming gr_nils buf_ok_def intro: parseRequest_parsed parseRequest_fails)

section \<open>Answers\<close>

text \<open>A connection whose table holds the map \<open>M\<close>, served by a thread the service knows.\<close>

definition kv_inv :: "server_env \<Rightarrow> nat \<Rightarrow> (key \<rightharpoonup> key) \<Rightarrow> kv_server \<Rightarrow> bool" where
  "kv_inv e n M s \<longleftrightarrow> ht_abs n (kv_table s) M \<and> conn_inv (kv_conn s) \<and>
     env_me e < length (req_counter (srv_stats (kv_srv s)))"

text \<open>The request for the value of a key.\<close>

definition kv_get :: "key \<Rightarrow> request" where
  "kv_get k = \<lparr>req_method = ''GET'', req_address = ''/'' @ show_nat (unat k), req_version = ''HTTP/1.1''\<rparr>"

lemma kv_get_ok: "request_ok (kv_get k)"
proof -
  have "field_ok (show_nat n)" for n
    using show_nat_digits(1) [of n] digit_facts(4,5) by (auto simp: field_ok_def)
  moreover have "field_ok ''GET''" "field_ok ''HTTP/1.1''" "word_char CHR ''/''"
    by (simp_all add: field_ok_def word_char_def SP_def CR_def)
  ultimately show ?thesis by (simp add: request_ok_def kv_get_def field_ok_def)
qed

lemma show_not_word: "show_nat n \<noteq> ''quit''" "show_nat n \<noteq> ''stats''"
  using show_nat_digits(1) [of n] by (auto simp: is_digit_def)

text \<open>
  What a client can ask for, the messages that ask for it (with any method and version and any header lines), and what the server is to
  answer to a sequence of questions: the value in the table or the text for a missing key, which count as requests, or the statistics.
\<close>

datatype kv_query = KvGet key | KvStats

definition kv_address :: "kv_query \<Rightarrow> string" where
  "kv_address q = (case q of KvGet k \<Rightarrow> show_nat (unat k) | KvStats \<Rightarrow> ''stats'')"

type_synonym kv_message = "request \<times> string list \<times> kv_query"

definition kv_asks :: "kv_message \<Rightarrow> bool" where
  "kv_asks m = (case m of (r, hs, q) \<Rightarrow> request_ok r \<and> (\<forall>h \<in> set hs. header_ok h) \<and>
     req_address r = CHR ''/'' # kv_address q \<and> (\<forall>k. q = KvGet k \<longrightarrow> ht_key k))"

definition kv_text :: "kv_message \<Rightarrow> string" where
  "kv_text m = (case m of (r, hs, q) \<Rightarrow> full_request r hs)"

lemma kv_text_msg: "kv_text (r, hs, q) = full_request r hs"
  by (simp add: kv_text_def)

definition kv_answer :: "server_env \<Rightarrow> (key \<rightharpoonup> key) \<Rightarrow> kv_query \<Rightarrow> service \<Rightarrow> string list \<times> service" where
  "kv_answer e M q v = (case q of KvGet k \<Rightarrow> (kv_reply (M k), the (count_request e v)) | KvStats \<Rightarrow> stats_reply e v)"

fun kv_answers :: "server_env \<Rightarrow> (key \<rightharpoonup> key) \<Rightarrow> kv_query list \<Rightarrow> service \<Rightarrow> string list list \<times> service" where
  "kv_answers e M [] v = ([], v)"
| "kv_answers e M (q # qs) v =
     (case kv_answer e M q v of (ls, v1) \<Rightarrow> case kv_answers e M qs v1 of (lss, v2) \<Rightarrow> (ls # lss, v2))"

lemma KV_handle_query:
  assumes inv: "kv_inv e n M s" and q: "kv_asks (r, hs, q)" and a: "kv_answer e M q (kv_srv s) = (ls, v)"
  obtains t where "KV_handleRequest e junk (parsed_form r) s = Some (True, s\<lparr>kv_conn := answer ls (kv_conn s), kv_table := t, kv_srv := v\<rparr>)"
    "kv_inv e n M (s\<lparr>kv_conn := answer ls (kv_conn s), kv_table := t, kv_srv := v\<rparr>)"
proof -
  have c: "conn_inv (answer ls (kv_conn s))" and me: "env_me e < length (req_counter (srv_stats (kv_srv s)))"
    using inv answer_facts(1) by (auto simp: kv_inv_def)
  have addr: "req_address (parsed_form r) = kv_address q" using q by (simp add: kv_asks_def parsed_form_def)
  show ?thesis
  proof (cases q)
    case (KvGet k)
    then have k: "ht_key k" using q by (simp add: kv_asks_def)
    have "unat k < 2 ^ 32" using unsigned_less [of k, where 'a = nat] by simp
    from extract_show [OF this, of "[]" junk] have x: "extract_unsigned 32 junk (show_nat (unat k)) = unat k" by simp
    obtain t where t: "LockFreeHashTable_lookup (env_me e) k (kv_table s) = Some (M k, t)" "ht_abs n t M"
      using LockFreeHashTable_lookup_abs [OF _ k] inv unfolding kv_inv_def by blast
    obtain v' where v: "count_request e (kv_srv s) = Some v'" "length (req_counter (srv_stats v')) = length (req_counter (srv_stats (kv_srv s)))"
      using count_request_total [OF me] by blast
    have ls: "ls = kv_reply (M k)" "v = v'" using a v(1) KvGet by (auto simp: kv_answer_def)
    show ?thesis
      using that [of t] t v c me ls addr KvGet by (simp add: KV_handleRequest_def kv_address_def show_not_word x answer_def kv_inv_def)
  next
    case KvStats
    have "length (req_counter (srv_stats v)) = length (req_counter (srv_stats (kv_srv s)))"
      using a KvStats by (auto simp: kv_answer_def stats_reply_def getTicks_def Let_def)
    then show ?thesis
      using that [of "kv_table s"] a c me addr KvStats inv by (simp add: KV_handleRequest_def kv_address_def kv_answer_def kv_inv_def)
  qed
qed

lemma KV_serve_queries:
  assumes "kv_inv e n M s" "\<forall>m \<in> set ms. kv_asks m" "length ms \<le> fuel" "kv_answers e M (map (\<lambda>(r, hs, q). q) ms) (kv_srv s) = (lss, v)"
  shows "\<exists>t. kv_inv e n M (s\<lparr>kv_conn := fold answer lss (kv_conn s), kv_table := t, kv_srv := v\<rparr>) \<and>
    serve fuel gr_request (KV_handleRequest e junk) (concat (map kv_text ms) @ tail) s =
    serve (fuel - length ms) gr_request (KV_handleRequest e junk) tail (s\<lparr>kv_conn := fold answer lss (kv_conn s), kv_table := t, kv_srv := v\<rparr>)"
  using assms
proof (induction ms arbitrary: s fuel lss)
  case Nil
  then have "lss = []" "v = kv_srv s" by auto
  then show ?case using Nil.prems(1) by (intro exI [of _ "kv_table s"]) simp
next
  case (Cons m ms)
  obtain r hs q where m: "m = (r, hs, q)" by (cases m) auto
  obtain f where f: "fuel = Suc f" "length ms \<le> f" using Cons.prems(3) by (cases fuel) auto
  obtain ls v1 where a: "kv_answer e M q (kv_srv s) = (ls, v1)" by fastforce
  obtain lss' where as: "kv_answers e M (map (\<lambda>(r, hs, q). q) ms) v1 = (lss', v)" "lss = ls # lss'"
    using Cons.prems(4) m a by (auto split: prod.splits)
  have q: "kv_asks (r, hs, q)" using Cons.prems(2) m by simp
  obtain t where t: "KV_handleRequest e junk (parsed_form r) s = Some (True, s\<lparr>kv_conn := answer ls (kv_conn s), kv_table := t, kv_srv := v1\<rparr>)"
    "kv_inv e n M (s\<lparr>kv_conn := answer ls (kv_conn s), kv_table := t, kv_srv := v1\<rparr>)"
    using KV_handle_query [OF Cons.prems(1) q a] .
  have "gr_request (full_request r hs @ concat (map kv_text ms) @ tail) = Inr (parsed_form r, concat (map kv_text ms) @ tail)"
    using q by (intro gr_full_request) (auto simp: kv_asks_def)
  then show ?case using Cons.IH [OF t(2) _ f(2), of lss'] Cons.prems(2) as t(1) f(1) m by (simp add: kv_text_msg)
qed

text \<open>What \<open>readDone\<close> does with the messages of its buffer, up to what follows them.\<close>

lemma KV_readDone_queries:
  assumes "kv_inv e n M s" "buf_clean (in_buf (kv_conn s))" "\<forall>m \<in> set ms. kv_asks m"
    "buf_bytes (in_buf (kv_conn s)) = concat (map kv_text ms) @ tail" "length (buf_bytes (in_buf (kv_conn s))) < fuel"
    "kv_answers e M (map (\<lambda>(r, hs, q). q) ms) (kv_srv s) = (lss, v)"
  shows "\<exists>t f. kv_inv e n M (s\<lparr>kv_conn := fold answer lss (kv_conn s), kv_table := t, kv_srv := v\<rparr>) \<and>
    (\<forall>go rest s'. serve (Suc f) gr_request (KV_handleRequest e junk) tail
        (s\<lparr>kv_conn := fold answer lss (kv_conn s), kv_table := t, kv_srv := v\<rparr>) = Some (go, rest, s') \<longrightarrow>
      (\<exists>b. KV_readDone e junk fuel s = Some (go, kv_set_in b s') \<and> buf_ok b \<and> buf_bytes b = rest))"
proof -
  have "length ms \<le> length (concat (map kv_text ms))"
    by (rule length_concat_map) (auto simp: kv_text_def full_request_def header_text_def)
  then have len: "length ms < fuel" using assms(4,5) by simp
  then obtain f where f: "fuel - length ms = Suc f" by (cases "fuel - length ms") auto
  obtain t where t: "kv_inv e n M (s\<lparr>kv_conn := fold answer lss (kv_conn s), kv_table := t, kv_srv := v\<rparr>)"
    "serve fuel gr_request (KV_handleRequest e junk) (buf_bytes (in_buf (kv_conn s))) s =
      serve (Suc f) gr_request (KV_handleRequest e junk) tail (s\<lparr>kv_conn := fold answer lss (kv_conn s), kv_table := t, kv_srv := v\<rparr>)"
    using KV_serve_queries [OF assms(1,3) _ assms(6), of fuel junk tail] len assms(4) f by auto
  have ok: "buf_ok (in_buf (kv_conn s))" using assms(1) by (simp add: kv_inv_def conn_inv_def)
  have "\<exists>b. KV_readDone e junk fuel s = Some (go, kv_set_in b s') \<and> buf_ok b \<and> buf_bytes b = rest"
    if "serve (Suc f) gr_request (KV_handleRequest e junk) tail
        (s\<lparr>kv_conn := fold answer lss (kv_conn s), kv_table := t, kv_srv := v\<rparr>) = Some (go, rest, s')" for go rest s'
    using kv.loop_serves [OF ok assms(2,5), of e junk s] t(2) that by auto
  then show ?thesis using t(1) by blast
qed

lemma KV_readDone_incomplete:
  assumes "kv_inv e n M s" "buf_clean (in_buf (kv_conn s))" "\<forall>m \<in> set ms. kv_asks m"
    "buf_bytes (in_buf (kv_conn s)) = concat (map kv_text ms) @ tail" "length (buf_bytes (in_buf (kv_conn s))) < fuel"
    "kv_answers e M (map (\<lambda>(r, hs, q). q) ms) (kv_srv s) = (lss, v)" "gr_request tail = Inl IncompleteInput"
  shows "\<exists>b t. KV_readDone e junk fuel s =
      Some (True, kv_set_in b (s\<lparr>kv_conn := fold answer lss (kv_conn s), kv_table := t, kv_srv := v\<rparr>)) \<and> buf_ok b \<and> buf_bytes b = tail \<and>
    kv_inv e n M (s\<lparr>kv_conn := fold answer lss (kv_conn s), kv_table := t, kv_srv := v\<rparr>)"
proof -
  obtain t f where t: "kv_inv e n M (s\<lparr>kv_conn := fold answer lss (kv_conn s), kv_table := t, kv_srv := v\<rparr>)"
    "\<forall>go rest s'. serve (Suc f) gr_request (KV_handleRequest e junk) tail
        (s\<lparr>kv_conn := fold answer lss (kv_conn s), kv_table := t, kv_srv := v\<rparr>) = Some (go, rest, s') \<longrightarrow>
      (\<exists>b. KV_readDone e junk fuel s = Some (go, kv_set_in b s') \<and> buf_ok b \<and> buf_bytes b = rest)"
    using KV_readDone_queries [OF assms(1-6), of junk] by blast
  have "serve (Suc f) gr_request (KV_handleRequest e junk) tail (s\<lparr>kv_conn := fold answer lss (kv_conn s), kv_table := t, kv_srv := v\<rparr>) =
      Some (True, tail, s\<lparr>kv_conn := fold answer lss (kv_conn s), kv_table := t, kv_srv := v\<rparr>)"
    using assms(7) by simp
  then show ?thesis using t by blast
qed

lemma KV_readDone_quit:
  assumes "kv_inv e n M s" "buf_clean (in_buf (kv_conn s))" "\<forall>m \<in> set ms. kv_asks m"
    "buf_bytes (in_buf (kv_conn s)) = concat (map kv_text ms) @ tail" "length (buf_bytes (in_buf (kv_conn s))) < fuel"
    "kv_answers e M (map (\<lambda>(r, hs, q). q) ms) (kv_srv s) = (lss, v)" "tail = full_request r hs @ remains"
    "request_ok r" "\<forall>h \<in> set hs. header_ok h" "req_address r = ''/quit''"
  shows "\<exists>b t. KV_readDone e junk fuel s =
      Some (False, kv_set_in b (s\<lparr>kv_conn := fold answer lss (kv_conn s), kv_table := t, kv_srv := service_stop v\<rparr>)) \<and> buf_bytes b = remains"
proof -
  obtain t f where t: "\<forall>go rest s'. serve (Suc f) gr_request (KV_handleRequest e junk) tail
        (s\<lparr>kv_conn := fold answer lss (kv_conn s), kv_table := t, kv_srv := v\<rparr>) = Some (go, rest, s') \<longrightarrow>
      (\<exists>b. KV_readDone e junk fuel s = Some (go, kv_set_in b s') \<and> buf_ok b \<and> buf_bytes b = rest)"
    using KV_readDone_queries [OF assms(1-6), of junk] by blast
  have "gr_request tail = Inr (parsed_form r, remains)" "req_address (parsed_form r) = ''quit''"
    using gr_full_request [OF assms(8,9), of remains] assms(7,10) by (simp_all add: parsed_form_def)
  then have "serve (Suc f) gr_request (KV_handleRequest e junk) tail (s\<lparr>kv_conn := fold answer lss (kv_conn s), kv_table := t, kv_srv := v\<rparr>) =
      Some (False, remains, s\<lparr>kv_conn := fold answer lss (kv_conn s), kv_table := t, kv_srv := service_stop v\<rparr>)"
    by (simp add: KV_handleRequest_def)
  then show ?thesis using t by blast
qed

section \<open>Properties\<close>


lemma kv_demo_table:
  "\<exists>t. LockFreeHashTable_insert 0 7 42 (LockFreeHashTable_new (\<lambda>_ _. 0) 1) = Some (True, t) \<and> ht_abs 1 t [7 \<mapsto> 42]"
proof -
  have k: "ht_key 7" using well_bucketed_small [of 7] by (simp add: ht_key_def)
  have c: "Suc (counter (LockFreeHashTable_new (\<lambda>_ _. 0) 1)) < 110000" by (simp add: LockFreeHashTable_new_def)
  show ?thesis using LockFreeHashTable_insert_abs [OF ht_new_abs k c, of 0 42] by auto
qed


end
