(* ===== verification/File_Cache.thy ===== *)
theory File_Cache
  imports Buffer_Transfer "HOL-Library.Multiset"
begin

text \<open>
  \<^verbatim>\<open>src/file_cache.hpp\<close>, \<^verbatim>\<open>src/file_cache.cpp\<close>: the cache of file contents that the HTTP
  server answers from. The operating system is an argument: for each name a file that can be
  opened has a size and the results its \<open>read\<close> calls will have. The list \<open>cache_map\<close> holds the
  entries in the order the iterator of the unordered map visits them; where a new entry goes in
  that order is an argument. A handle, the address of the entry's name, is the identity of the
  entry.
\<close>

section \<open>Files\<close>

datatype file_res = FData string | FErr

record os_file =
  st_size :: nat
  file_reads :: "file_res list"

type_synonym file_system = "string \<Rightarrow> os_file option"

datatype load_result = Loaded buffer | LoadFailed | LoadHangs

definition getFileSize :: "file_system \<Rightarrow> string \<Rightarrow> nat" where
  "getFileSize fs name = (case fs name of None \<Rightarrow> 0 | Some f \<Rightarrow> st_size f)"

text \<open>
  The loop of \<open>loadFileToBuffer\<close>: every \<open>read\<close> stores at the same \<open>writePtr\<close>. At the end of the
  file \<open>read\<close> returns 0 and the loop goes on for ever.
\<close>

fun load_loop :: "file_res list \<Rightarrow> nat \<Rightarrow> buffer \<Rightarrow> load_result \<times> nat" where
  "load_loop rs 0 buf = (Loaded buf, 0)"
| "load_loop [] (Suc n) buf = (LoadHangs, Suc n)"
| "load_loop (FErr # rs) (Suc n) buf = (LoadFailed, Suc n)"
| "load_loop (FData d # rs) (Suc n) buf =
     (let b1 = snd (reserve BlockSize buf); d' = take (writeSize b1) d
      in load_loop rs (size_sub (Suc n) (length d')) (store (map Some d') b1))"

definition loadFileToBuffer :: "file_system \<Rightarrow> string \<Rightarrow> load_result" where
  "loadFileToBuffer fs name =
     (case fs name of
        None \<Rightarrow> LoadFailed
      | Some f \<Rightarrow>
          (case load_loop (file_reads f) (st_size f) Buffer_new of
             (Loaded buf, to_read) \<Rightarrow> Loaded (snd (advance (size_sub (st_size f) to_read) buf))
           | (r, _) \<Rightarrow> r))"

section \<open>The cache\<close>

record cache_node =
  node_id :: nat
  node_name :: string
  node_buf :: buffer
  stat :: nat

record file_cache =
  max_size :: nat
  bytes_used :: nat
  num_pins :: nat
  num_hits :: nat
  num_failed :: nat
  cache_map :: "cache_node list"
  next_node :: nat

datatype cache_exn = ProcessExit | DanglingHandle

text \<open>What \<open>pin\<close> leaves in \<open>*buf\<close>.\<close>

datatype buf_out = BufSet buffer | BufNull | BufUnset

definition FileCache_new :: "nat \<Rightarrow> file_cache" where
  "FileCache_new limit =
     \<lparr>max_size = limit, bytes_used = 0, num_pins = 0, num_hits = 0, num_failed = 0, cache_map = [], next_node = 0\<rparr>"

definition cache_find :: "string \<Rightarrow> file_cache \<Rightarrow> cache_node option" where
  "cache_find name c = find (\<lambda>n. node_name n = name) (cache_map c)"

definition set_stat :: "nat \<Rightarrow> (nat \<Rightarrow> nat) \<Rightarrow> file_cache \<Rightarrow> file_cache" where
  "set_stat h f c =
     c\<lparr>cache_map := map (\<lambda>n. if node_id n = h then n\<lparr>stat := f (stat n)\<rparr> else n) (cache_map c)\<rparr>"

text \<open>The section of \<open>pin\<close> under the read lock.\<close>

definition pin_hit :: "string \<Rightarrow> file_cache \<Rightarrow> (nat \<times> buffer) option \<times> file_cache" where
  "pin_hit name c =
     (let c1 = c\<lparr>num_pins := num_pins c + 1\<rparr>
      in case cache_find name c1 of
           Some n \<Rightarrow> (Some (node_id n, node_buf n), set_stat (node_id n) (\<lambda>k. k + 1) (c1\<lparr>num_hits := num_hits c1 + 1\<rparr>))
         | None \<Rightarrow> (None, c1))"

text \<open>The eviction loop of \<open>pin\<close>: the first entry with no pins goes.\<close>

function evict_loop :: "(string \<Rightarrow> nat) \<Rightarrow> nat \<Rightarrow> file_cache \<Rightarrow> file_cache" where
  "evict_loop fsize file_size c =
     (if bytes_used c + file_size > max_size c
      then case find (\<lambda>n. stat n = 0) (cache_map c) of
             Some n \<Rightarrow> evict_loop fsize file_size
               (c\<lparr>bytes_used := size_sub (bytes_used c) (fsize (node_name n)), cache_map := remove1 n (cache_map c)\<rparr>)
           | None \<Rightarrow> c
      else c)"
  by pat_completeness auto
termination
proof (relation "measure (\<lambda>(fsize, k, c). length (cache_map c))", goal_cases)
  case (2 fsize k c n)
  then have n: "n \<in> set (cache_map c)" by (auto dest: find_SomeD)
  then have "cache_map c \<noteq> []" by auto
  then show ?case using n by (simp add: length_remove1)
qed simp

declare evict_loop.simps [simp del]

text \<open>
  The section of \<open>pin\<close> under the write lock, for a loaded buffer. \<open>place\<close> puts the new entry into
  the order of the map. When another thread has cached the file meanwhile nothing is inserted
  and the node is lost.
\<close>

definition pin_miss :: "(cache_node \<Rightarrow> cache_node list \<Rightarrow> cache_node list) \<Rightarrow> (string \<Rightarrow> nat) \<Rightarrow> string \<Rightarrow> nat \<Rightarrow>
    buffer \<Rightarrow> file_cache \<Rightarrow> (nat option \<times> buf_out) \<times> file_cache" where
  "pin_miss place fsize name file_size new_buf c =
     (let node = \<lparr>node_id = next_node c, node_name = name, node_buf = new_buf, stat = 1\<rparr>;
          c1 = evict_loop fsize file_size (c\<lparr>next_node := next_node c + 1\<rparr>)
      in if bytes_used c1 + file_size \<le> max_size c1
         then if cache_find name c1 = None
              then ((Some (node_id node), BufSet new_buf),
                    c1\<lparr>cache_map := place node (cache_map c1), bytes_used := bytes_used c1 + file_size\<rparr>)
              else ((None, BufUnset), c1)
         else ((None, BufNull), c1\<lparr>num_failed := num_failed c1 + 1\<rparr>))"

text \<open>\<open>None\<close>: the load never returns.\<close>

definition pin :: "(cache_node \<Rightarrow> cache_node list \<Rightarrow> cache_node list) \<Rightarrow> file_system \<Rightarrow> string \<Rightarrow> file_cache \<Rightarrow>
    ((nat option \<times> buf_out) \<times> file_cache) option" where
  "pin place fs name c =
     (case pin_hit name c of
        (Some (h, buf), c1) \<Rightarrow> Some ((Some h, BufSet buf), c1)
      | (None, c1) \<Rightarrow>
          let file_size = getFileSize fs name
          in case loadFileToBuffer fs name of
               LoadHangs \<Rightarrow> None
             | LoadFailed \<Rightarrow> Some ((None, BufUnset), c1)
             | Loaded new_buf \<Rightarrow> Some (pin_miss place (getFileSize fs) name file_size new_buf c1))"

definition unpin :: "nat \<Rightarrow> file_cache \<Rightarrow> cache_exn + file_cache" where
  "unpin h c =
     (case find (\<lambda>n. node_id n = h) (cache_map c) of
        None \<Rightarrow> Inl DanglingHandle
      | Some n \<Rightarrow> if stat n \<noteq> 0 then Inr (set_stat h (\<lambda>k. k - 1) c) else Inl ProcessExit)"

text \<open>The destructor deletes the entries that are in the map.\<close>

definition FileCache_destroy :: "file_cache \<Rightarrow> nat list" where
  "FileCache_destroy c = map node_id (cache_map c)"

section \<open>Pins and evictions\<close>

text \<open>
  The entries and the handles that were returned and not yet unpinned: distinct files, room used
  as their sizes say and within the limit, every pin counted, no pinned entry gone.
\<close>

definition pins_ok :: "nat multiset \<Rightarrow> file_cache \<Rightarrow> bool" where
  "pins_ok hs c \<longleftrightarrow> distinct (map node_name (cache_map c)) \<and> distinct (map node_id (cache_map c)) \<and>
     (\<forall>n \<in> set (cache_map c). node_id n < next_node c \<and> stat n = count hs (node_id n)) \<and>
     (\<forall>h \<in># hs. \<exists>n \<in> set (cache_map c). node_id n = h)"

definition room_ok :: "(string \<Rightarrow> nat) \<Rightarrow> file_cache \<Rightarrow> bool" where
  "room_ok fsize c \<longleftrightarrow> bytes_used c = sum_list (map (\<lambda>n. fsize (node_name n)) (cache_map c)) \<and> bytes_used c \<le> max_size c"

declare pins_ok_def [inv_defs] room_ok_def [inv_defs]

lemma map_set_stat [simp]:
  "map node_name (cache_map (set_stat h f c)) = map node_name (cache_map c)"
  "map node_id (cache_map (set_stat h f c)) = map node_id (cache_map c)"
  "bytes_used (set_stat h f c) = bytes_used c" "max_size (set_stat h f c) = max_size c"
  "next_node (set_stat h f c) = next_node c"
  by (auto simp: set_stat_def comp_def)

lemma room_set_stat: "room_ok fsize (set_stat h f c) = room_ok fsize c"
  by (simp add: room_ok_def set_stat_def comp_def if_distrib [of node_name] cong: if_cong)

lemma evict_step:
  assumes "find (\<lambda>n. stat n = 0) (cache_map c) = Some n" and p: "pins_ok hs c" and r: "room_ok fsize c"
  defines "c' \<equiv> c\<lparr>bytes_used := size_sub (bytes_used c) (fsize (node_name n)), cache_map := remove1 n (cache_map c)\<rparr>"
  shows "pins_ok hs c'" "room_ok fsize c'"
proof -
  have n: "n \<in> set (cache_map c)" "stat n = 0" using find_SomeD [OF assms(1)] by auto
  have d: "distinct (cache_map c)" using p by (auto simp: pins_ok_def distinct_map)
  have s: "set (remove1 n (cache_map c)) = set (cache_map c) - {n}" using d by (rule set_remove1_eq)
  have sub: "distinct (map f (remove1 n (cache_map c)))" if "distinct (map f (cache_map c))" for f :: "cache_node \<Rightarrow> 'b"
    using that d by (auto simp: distinct_map s intro: inj_on_subset)
  have "count hs (node_id n) = 0" using n p by (auto simp: pins_ok_def)
  then have "h \<noteq> node_id n" if "h \<in># hs" for h using that by (auto simp: count_eq_zero_iff)
  then have "\<forall>h \<in># hs. \<exists>m \<in> set (cache_map c) - {n}. node_id m = h" using p unfolding pins_ok_def by blast
  then show "pins_ok hs c'" using p by (simp add: pins_ok_def c'_def s sub)
  have "sum_list (map (\<lambda>m. fsize (node_name m)) (cache_map c)) =
      fsize (node_name n) + sum_list (map (\<lambda>m. fsize (node_name m)) (remove1 n (cache_map c)))"
    using n(1) by (rule sum_list_map_remove1)
  then show "room_ok fsize c'" using r by (auto simp: room_ok_def c'_def)
qed

lemma evict_loop_ok:
  "pins_ok hs c \<Longrightarrow> room_ok fsize c \<Longrightarrow>
    pins_ok hs (evict_loop fsize k c) \<and> room_ok fsize (evict_loop fsize k c) \<and>
    next_node (evict_loop fsize k c) = next_node c \<and> max_size (evict_loop fsize k c) = max_size c \<and>
    set (cache_map (evict_loop fsize k c)) \<subseteq> set (cache_map c)"
proof (induction fsize k c rule: evict_loop.induct)
  case (1 fsize k c)
  show ?case
  proof (cases "bytes_used c + k > max_size c \<and> find (\<lambda>n. stat n = 0) (cache_map c) \<noteq> None")
    case True
    then obtain n where n: "find (\<lambda>n. stat n = 0) (cache_map c) = Some n" by auto
    note e = evict_step [OF n "1.prems"]
    have "set (remove1 n (cache_map c)) \<subseteq> set (cache_map c)" by (rule set_remove1_subset)
    then show ?thesis
      using "1.IH" [OF _ n e] True n by (auto simp: evict_loop.simps [of fsize k c])
  next
    case False
    then show ?thesis using "1.prems" by (auto simp: evict_loop.simps [of fsize k c] split: option.splits)
  qed
qed

text \<open>
  The threads of a server: pins and unpins, cut at the sections under the lock, in any
  interleaving. A thread unpins what it has pinned. The entry of a new node may go anywhere.
\<close>

definition placing :: "(cache_node \<Rightarrow> cache_node list \<Rightarrow> cache_node list) \<Rightarrow> bool" where
  "placing place \<longleftrightarrow> (\<forall>n m. mset (place n m) = add_mset n (mset m))"

inductive cache_step :: "(string \<Rightarrow> nat) \<Rightarrow> nat multiset \<times> file_cache \<Rightarrow> nat multiset \<times> file_cache \<Rightarrow> bool"
  for fsize :: "string \<Rightarrow> nat" where
  step_find: "pin_hit name c = (None, c') \<Longrightarrow> cache_step fsize (hs, c) (hs, c')"
| step_hit: "pin_hit name c = (Some (h, buf), c') \<Longrightarrow> cache_step fsize (hs, c) (add_mset h hs, c')"
| step_fail: "placing place \<Longrightarrow> pin_miss place fsize name (fsize name) b c = ((None, out), c') \<Longrightarrow>
    cache_step fsize (hs, c) (hs, c')"
| step_insert: "placing place \<Longrightarrow> pin_miss place fsize name (fsize name) b c = ((Some h, out), c') \<Longrightarrow>
    cache_step fsize (hs, c) (add_mset h hs, c')"
| step_unpin: "h \<in># hs \<Longrightarrow> unpin h c = Inr c' \<Longrightarrow> cache_step fsize (hs, c) (hs - {#h#}, c')"

inductive_cases cache_stepE: "cache_step fsize s t"

definition cache_start :: "nat multiset \<times> file_cache \<Rightarrow> bool" where
  "cache_start s \<longleftrightarrow> (\<exists>limit. s = ({#}, FileCache_new limit))"

definition cache_inv :: "(string \<Rightarrow> nat) \<Rightarrow> nat multiset \<times> file_cache \<Rightarrow> bool" where
  "cache_inv fsize s \<longleftrightarrow> pins_ok (fst s) (snd s) \<and> room_ok fsize (snd s)"

lemma pins_counters [simp]:
  "pins_ok hs (c\<lparr>num_pins := k\<rparr>) = pins_ok hs c" "pins_ok hs (c\<lparr>num_hits := k\<rparr>) = pins_ok hs c"
  "pins_ok hs (c\<lparr>num_failed := k\<rparr>) = pins_ok hs c" "room_ok fsize (c\<lparr>num_pins := k\<rparr>) = room_ok fsize c"
  "room_ok fsize (c\<lparr>num_hits := k\<rparr>) = room_ok fsize c" "room_ok fsize (c\<lparr>num_failed := k\<rparr>) = room_ok fsize c"
  "room_ok fsize (c\<lparr>next_node := k\<rparr>) = room_ok fsize c"
  by (simp_all add: pins_ok_def room_ok_def)

lemma pins_set_stat:
  assumes p: "pins_ok hs c" and n: "n \<in> set (cache_map c)" "node_id n = h"
    and f: "f (count hs h) = count hs' h" "\<And>g. g \<noteq> h \<Longrightarrow> count hs' g = count hs g"
  shows "pins_ok hs' (set_stat h f c)"
proof -
  have in_map: "(\<exists>m \<in> set (cache_map (set_stat h f c)). node_id m = g) \<longleftrightarrow> (\<exists>m \<in> set (cache_map c). node_id m = g)" for g
    using map_set_stat(2) [of h f c] by (metis (no_types, lifting) list.set_map image_iff)
  have "g \<in># hs \<or> g = h" if "g \<in># hs'" for g
    using that f(2) [of g] by (metis count_eq_zero_iff)
  then have "\<forall>g \<in># hs'. \<exists>m \<in> set (cache_map (set_stat h f c)). node_id m = g"
    unfolding in_map using p n by (auto simp: pins_ok_def)
  moreover have "\<forall>m \<in> set (cache_map (set_stat h f c)). node_id m < next_node c \<and> stat m = count hs' (node_id m)"
    using p f by (auto simp: pins_ok_def set_stat_def)
  ultimately show ?thesis using p unfolding pins_ok_def map_set_stat by blast
qed

lemma pin_hit_ok:
  assumes "cache_inv fsize (hs, c)"
  shows "pin_hit name c = (None, c') \<Longrightarrow> cache_inv fsize (hs, c')"
    and "pin_hit name c = (Some (h, buf), c') \<Longrightarrow> cache_inv fsize (add_mset h hs, c')"
proof -
  show "pin_hit name c = (None, c') \<Longrightarrow> cache_inv fsize (hs, c')"
    using assms by (auto simp: pin_hit_def Let_def cache_inv_def split: option.splits)
  assume a: "pin_hit name c = (Some (h, buf), c')"
  define c1 where "c1 = c\<lparr>num_pins := num_pins c + 1, num_hits := num_hits c + 1\<rparr>"
  obtain n where n: "n \<in> set (cache_map c1)" "node_id n = h" and c': "c' = set_stat h (\<lambda>k. k + 1) c1"
    using a by (auto simp: pin_hit_def Let_def cache_find_def c1_def dest!: find_SomeD split: option.splits)
  have "pins_ok hs c1" "room_ok fsize c1" using assms by (simp_all add: cache_inv_def c1_def)
  then show "cache_inv fsize (add_mset h hs, c')"
    using pins_set_stat [OF _ n, of hs "\<lambda>k. k + 1"] by (simp add: cache_inv_def c' room_set_stat)
qed

lemma pin_miss_ok:
  assumes inv: "cache_inv fsize (hs, c)" and place: "placing place"
    and miss: "pin_miss place fsize name (fsize name) b c = ((r, out), c')"
  shows "cache_inv fsize (case r of None \<Rightarrow> hs | Some h \<Rightarrow> add_mset h hs, c')"
proof -
  define c1 where "c1 = evict_loop fsize (fsize name) (c\<lparr>next_node := next_node c + 1\<rparr>)"
  note folds = pin_miss_def Let_def c1_def [symmetric, simplified]
  have "pins_ok hs (c\<lparr>next_node := next_node c + 1\<rparr>)" "room_ok fsize (c\<lparr>next_node := next_node c + 1\<rparr>)"
    using inv by (auto simp: cache_inv_def pins_ok_def)
  note e = evict_loop_ok [OF this, of "fsize name", folded c1_def]
  show ?thesis
  proof (cases "r = None")
    case True
    then show ?thesis
      using miss e by (auto simp: folds cache_inv_def split: if_splits)
  next
    case False
    let ?n = "\<lparr>node_id = next_node c, node_name = name, node_buf = b, stat = 1\<rparr>"
    have room: "bytes_used c1 + fsize name \<le> max_size c1" and new: "cache_find name c1 = None"
      and r: "r = Some (next_node c)"
      and c': "c' = c1\<lparr>cache_map := place ?n (cache_map c1), bytes_used := bytes_used c1 + fsize name\<rparr>"
      using miss False by (auto simp: folds split: if_splits)
    have m: "mset (cache_map c') = add_mset ?n (mset (cache_map c1))" using place c' by (simp add: placing_def)
    have dist: "distinct (map f (cache_map c'))" if "distinct (map f (cache_map c1))" "f ?n \<notin> f ` set (cache_map c1)"
      for f :: "cache_node \<Rightarrow> 'b"
    proof -
      have "mset (map f (cache_map c')) = mset (f ?n # map f (cache_map c1))" using m by simp
      moreover have "distinct (f ?n # map f (cache_map c1))" using that by simp
      ultimately show ?thesis by (metis mset_eq_imp_distinct_iff)
    qed
    have s: "set (cache_map c') = insert ?n (set (cache_map c1))"
      using m by (metis set_mset_add_mset_insert set_mset_mset)
    have old: "\<forall>n \<in> set (cache_map c1). node_id n < next_node c"
      using e inv by (auto simp: cache_inv_def pins_ok_def)
    have fresh: "count hs (next_node c) = 0"
      using inv by (force simp: cache_inv_def pins_ok_def count_eq_zero_iff)
    have names: "name \<notin> node_name ` set (cache_map c1)"
      using new by (auto simp: cache_find_def find_None_iff)
    have "pins_ok (add_mset (next_node c) hs) c'"
      unfolding pins_ok_def s
    proof (intro conjI)
      show "distinct (map node_name (cache_map c'))" using e names by (intro dist) (auto simp: pins_ok_def)
      show "distinct (map node_id (cache_map c'))" using e old by (intro dist) (auto simp: pins_ok_def)
      show "\<forall>n \<in> insert ?n (set (cache_map c1)). node_id n < next_node c' \<and> stat n = count (add_mset (next_node c) hs) (node_id n)"
        using e old fresh by (auto simp: pins_ok_def c')
      show "\<forall>h \<in># add_mset (next_node c) hs. \<exists>n \<in> insert ?n (set (cache_map c1)). node_id n = h"
        using e by (auto simp: pins_ok_def)
    qed
    moreover have "sum_list (map (\<lambda>n. fsize (node_name n)) (cache_map c')) =
        fsize name + sum_list (map (\<lambda>n. fsize (node_name n)) (cache_map c1))"
      using m by (metis (no_types, lifting) cache_node.select_convs(2) image_mset_add_mset mset_map sum_mset.insert sum_mset_sum_list)
    ultimately show ?thesis using e room r c' by (auto simp: cache_inv_def room_ok_def)
  qed
qed

lemma unpin_pinned:
  assumes "cache_inv fsize (hs, c)" "h \<in># hs"
  shows "\<exists>c'. unpin h c = Inr c' \<and> cache_inv fsize (hs - {#h#}, c')"
proof -
  obtain n where n: "n \<in> set (cache_map c)" "node_id n = h" "stat n = count hs h"
    using assms by (auto simp: cache_inv_def pins_ok_def)
  obtain m where m: "find (\<lambda>n. node_id n = h) (cache_map c) = Some m"
    using n by (cases "find (\<lambda>n. node_id n = h) (cache_map c)") (auto simp: find_None_iff)
  then have "m \<in> set (cache_map c)" "node_id m = h" by (auto dest: find_SomeD)
  then have "m = n" using n assms(1) by (auto simp: cache_inv_def pins_ok_def distinct_map dest: inj_onD)
  then have "unpin h c = Inr (set_stat h (\<lambda>k. k - 1) c)" using m n(3) assms(2) by (simp add: unpin_def)
  then show ?thesis
    using pins_set_stat [OF _ n(1,2), of hs "\<lambda>k. k - 1" "hs - {#h#}"] assms(1)
    by (simp add: cache_inv_def room_set_stat)
qed

interpretation fc: transition_system cache_start "cache_step fsize" "cache_inv fsize" for fsize
proof unfold_locales
  show "cache_inv fsize s" if "cache_start s" for s
    using that by (auto simp: cache_start_def cache_inv_def FileCache_new_def inv_defs)
  show "cache_inv fsize t" if "cache_step fsize s t" "cache_inv fsize s" for s t
    using that
  proof cases
    case (step_unpin h hs c c')
    then show ?thesis using unpin_pinned that(2) by fastforce
  qed (use that(2) pin_hit_ok pin_miss_ok in fastforce)+
qed

section \<open>Loading a file\<close>

text \<open>
  A regular file with contents \<open>d\<close>: a read delivers the next block. The buffer of a file that
  fits into one block holds the contents in its only chunk, unread.
\<close>

function blocks :: "string \<Rightarrow> file_res list" where
  "blocks d = (if d = [] then [] else FData (take BlockSize d) # blocks (drop BlockSize d))"
  by pat_completeness auto
termination by (relation "measure length") (auto simp: BlockSize_def)

declare blocks.simps [simp del]

definition regular_file :: "string \<Rightarrow> os_file" where
  "regular_file d = \<lparr>st_size = length d, file_reads = blocks d\<rparr>"

definition holds_file :: "buffer \<Rightarrow> string \<Rightarrow> bool" where
  "holds_file b d \<longleftrightarrow> buf_wf b \<and> buf_bytes b = d \<and> sizes b = [length d] \<and> \<not> isConsumed b"

lemma reserve_fresh:
  assumes "wpos b = \<lparr>pos_idx = 0, pos_off = 0\<rparr>"
  shows "reserve BlockSize b = (True, b)" "writeSize b = BlockSize"
  using assms by (simp_all add: reserve_def writeSize_def)

lemma load_loop_blocks:
  "wpos buf = \<lparr>pos_idx = 0, pos_off = 0\<rparr> \<Longrightarrow>
    \<exists>b. load_loop (blocks d) (length d) buf = (Loaded b, 0) \<and> wpos b = wpos buf \<and> sizes b = sizes buf \<and> rpos b = rpos buf \<and>
      length (chunks b) = length (chunks buf)"
proof (induction d arbitrary: buf rule: blocks.induct)
  case (1 d)
  show ?case
  proof (cases "d = []")
    case True
    then show ?thesis by (simp add: blocks.simps)
  next
    case False
    then obtain n where n: "length d = Suc n" by (cases d) auto
    define b1 where "b1 = store (map Some (take BlockSize d)) buf"
    have b1: "wpos b1 = wpos buf" "sizes b1 = sizes buf" "rpos b1 = rpos buf" "length (chunks b1) = length (chunks buf)"
      by (simp_all add: b1_def store_def)
    have "load_loop (blocks d) (length d) buf = load_loop (blocks (drop BlockSize d)) (length (drop BlockSize d)) b1"
      using False reserve_fresh [OF "1.prems"] n
      by (subst blocks.simps) (auto simp: b1_def Let_def min_def)
    then show ?thesis using "1.IH" [OF False, of b1] b1 "1.prems" by auto
  qed
qed

lemma load_loop_block:
  assumes "length d \<le> BlockSize" "d \<noteq> []"
  shows "load_loop (blocks d) (length d) Buffer_new = (Loaded (store (map Some d) Buffer_new), 0)"
proof -
  have "wpos Buffer_new = \<lparr>pos_idx = 0, pos_off = 0\<rparr>" by (simp add: Buffer_new_eq)
  note r = reserve_fresh [OF this]
  obtain n where n: "length d = Suc n" using assms(2) by (cases d) auto
  have "blocks d = [FData d]" using assms by (simp add: blocks.simps)
  then show ?thesis using n r assms(1) by (simp add: Let_def min_def)
qed

lemma holds_file_loaded:
  assumes "length d \<le> BlockSize" "fs name = Some (regular_file d)"
  shows "\<exists>b. loadFileToBuffer fs name = Loaded b \<and> holds_file b d"
proof (cases "d = []")
  case True
  then have "loadFileToBuffer fs name = Loaded Buffer_new"
    using assms by (simp add: loadFileToBuffer_def regular_file_def advance_fails)
  moreover have "holds_file Buffer_new []"
    by (simp add: holds_file_def Buffer_new_wf isConsumed_def) (simp add: Buffer_new_eq)
  ultimately show ?thesis using True by blast
next
  case False
  have room: "length d \<le> writeSize Buffer_new" using assms(1) by (simp add: Buffer_new_wf)
  define b where "b = snd (advance (length d) (store (map Some d) Buffer_new))"
  have "loadFileToBuffer fs name = Loaded b"
    using assms load_loop_block [OF assms(1) False] by (simp add: loadFileToBuffer_def regular_file_def b_def)
  moreover have "buf_wf b" "buf_bytes b = d"
    using advance_stored [OF Buffer_new_wf(1) room False] by (simp_all add: b_def Buffer_new_wf)
  moreover have "sizes b = [length d]" "rpos b = \<lparr>pos_idx = 0, pos_off = 0\<rparr>"
    using room False by (simp_all add: b_def advance_def move_wpos_def store_def writeSize_def Buffer_new_eq)
  ultimately show ?thesis by (auto simp: holds_file_def isConsumed_def)
qed

lemma load_loop_short:
  "\<forall>r \<in> set rs. r \<noteq> FErr \<Longrightarrow> sum_list (map (\<lambda>r. case r of FData d \<Rightarrow> length d | FErr \<Rightarrow> 0) rs) < n \<Longrightarrow>
    wpos buf = \<lparr>pos_idx = 0, pos_off = 0\<rparr> \<Longrightarrow> fst (load_loop rs n buf) = LoadHangs"
proof (induction rs arbitrary: n buf)
  case Nil
  then show ?case by (cases n) auto
next
  case (Cons r rs)
  then obtain d m where r: "r = FData d" and n: "n = Suc m" by (cases r; cases n) auto
  let ?d = "take BlockSize d"
  have "length ?d \<le> length d" by simp
  then have "sum_list (map (\<lambda>r. case r of FData d \<Rightarrow> length d | FErr \<Rightarrow> 0) rs) < size_sub n (length ?d)"
    using Cons.prems(2) r by (auto simp: size_sub_def)
  then show ?case
    using Cons.IH [of "size_sub n (length ?d)" "store (map Some ?d) buf"] Cons.prems r n reserve_fresh [of buf]
    by (simp add: Let_def store_def)
qed

section \<open>Properties\<close>

text \<open>
  C9. In every interleaving of pins and unpins by any threads, as long as the files keep their
  sizes: the bytes accounted for are the sizes of the cached files and never exceed the limit,
  no file is cached twice, an entry that is pinned is never evicted and its count is the number
  of its pins, and every handle that was returned can be unpinned.
\<close>

theorem FileCache_safe:
  assumes "reach cache_start (cache_step fsize) (hs, c)"
  shows "bytes_used c = sum_list (map (\<lambda>n. fsize (node_name n)) (cache_map c)) \<and> bytes_used c \<le> max_size c \<and>
    distinct (map node_name (cache_map c)) \<and>
    (\<forall>h \<in># hs. (\<exists>n \<in> set (cache_map c). node_id n = h \<and> stat n = count hs h) \<and> (\<exists>c'. unpin h c = Inr c'))"
proof -
  have inv: "cache_inv fsize (hs, c)" by (rule fc.reach_invar [OF assms])
  have "\<exists>n \<in> set (cache_map c). node_id n = h \<and> stat n = count hs h" if "h \<in># hs" for h
    using inv that by (auto simp: cache_inv_def pins_ok_def)
  moreover have "\<exists>c'. unpin h c = Inr c'" if "h \<in># hs" for h using unpin_pinned [OF inv that] by blast
  ultimately show ?thesis using inv by (auto simp: cache_inv_def inv_defs)
qed

theorem FileCache_safe_witness:
  "\<exists>c c'. reach cache_start (cache_step (\<lambda>f. 3)) ({#0#}, c) \<and> bytes_used c = 3 \<and> unpin 0 c = Inr c'"
proof -
  let ?p = "\<lambda>n m. n # m" and ?b = "Buffer_write ''abc'' Buffer_new"
  have "evict_loop (\<lambda>f. 3) 3 (FileCache_new 10\<lparr>next_node := 1\<rparr>) = FileCache_new 10\<lparr>next_node := 1\<rparr>"
    by (subst evict_loop.simps) (simp add: FileCache_new_def)
  then obtain c where c: "pin_miss ?p (\<lambda>f. 3) ''f'' 3 ?b (FileCache_new 10) = ((Some 0, BufSet ?b), c)" "bytes_used c = 3"
    by (simp add: pin_miss_def Let_def FileCache_new_def cache_find_def)
  have "reach cache_start (cache_step (\<lambda>f. 3)) ({#}, FileCache_new 10)"
    by (rule reach_start) (auto simp: cache_start_def)
  then have "reach cache_start (cache_step (\<lambda>f. 3)) ({#0#}, c)"
    by (rule reach_step) (rule step_insert [of ?p "\<lambda>f. 3" "''f''"], simp add: placing_def, rule c(1))
  then show ?thesis using FileCache_safe c(2) by fastforce
qed

text \<open>
  A regular file of at most \<open>BlockSize\<close> bytes is loaded completely: pinning it in a cache
  that does not hold it and has room returns a handle and a buffer with exactly the contents,
  and counts its size; pinning it again returns the same handle and buffer as a hit.
\<close>

theorem pin_loads_file:
  assumes "fs name = Some (regular_file d)" "length d \<le> BlockSize" "placing place"
    "cache_find name c = None" "bytes_used c + length d \<le> max_size c"
  shows "\<exists>b c'. pin place fs name c = Some ((Some (next_node c), BufSet b), c') \<and> buf_bytes b = d \<and>
    bytes_used c' = bytes_used c + length d \<and> num_failed c' = num_failed c \<and>
    (\<exists>c''. pin place fs name c' = Some ((Some (next_node c), BufSet b), c'') \<and> num_hits c'' = num_hits c + 1)"
proof -
  obtain b where b: "loadFileToBuffer fs name = Loaded b" "holds_file b d"
    using holds_file_loaded [where fs = fs and name = name, OF assms(2,1)] by blast
  let ?n = "\<lparr>node_id = next_node c, node_name = name, node_buf = b, stat = 1\<rparr>"
  let ?c1 = "c\<lparr>num_pins := num_pins c + 1\<rparr>"
  define c' where "c' = ?c1\<lparr>next_node := next_node c + 1, cache_map := place ?n (cache_map c), bytes_used := bytes_used c + length d\<rparr>"
  have sz: "getFileSize fs name = length d" using assms(1) by (simp add: getFileSize_def regular_file_def)
  have "evict_loop (getFileSize fs) (length d) (?c1\<lparr>next_node := next_node c + 1\<rparr>) = ?c1\<lparr>next_node := next_node c + 1\<rparr>"
    using assms(5) by (subst evict_loop.simps) simp
  moreover have "pin_hit name c = (None, ?c1)" using assms(4) by (simp add: pin_hit_def Let_def cache_find_def)
  ultimately have p: "pin place fs name c = Some ((Some (next_node c), BufSet b), c')"
    using b(1) sz assms(4,5) by (simp add: pin_def pin_miss_def Let_def c'_def cache_find_def)
  have m: "mset (cache_map c') = add_mset ?n (mset (cache_map c))" using assms(3) by (simp add: c'_def placing_def)
  then have s: "set (cache_map c') = insert ?n (set (cache_map c))"
    by (metis set_mset_add_mset_insert set_mset_mset)
  have "cache_find name c' = Some ?n"
  proof (cases "cache_find name c'")
    case None
    then show ?thesis using s by (auto simp: cache_find_def find_None_iff)
  next
    case (Some n)
    then have "n \<in> set (cache_map c')" "node_name n = name" by (auto simp: cache_find_def dest: find_SomeD)
    moreover have "\<forall>k \<in> set (cache_map c). node_name k \<noteq> name" using assms(4) by (auto simp: cache_find_def find_None_iff)
    ultimately show ?thesis using Some s by auto
  qed
  then have "\<exists>c''. pin place fs name c' = Some ((Some (next_node c), BufSet b), c'') \<and> num_hits c'' = num_hits c + 1"
    by (simp add: pin_def pin_hit_def Let_def cache_find_def set_stat_def c'_def)
  then show ?thesis using p b(2) by (auto simp: holds_file_def c'_def)
qed

theorem pin_loads_file_witness:
  "\<exists>b c'. pin (\<lambda>n m. n # m) (\<lambda>f. Some (regular_file ''hello'')) ''index.html'' (FileCache_new 100) = Some ((Some 0, BufSet b), c') \<and>
    buf_bytes b = ''hello'' \<and> bytes_used c' = 5"
  using pin_loads_file [of "\<lambda>f. Some (regular_file ''hello'')" "''index.html''" "''hello''" "\<lambda>n m. n # m" "FileCache_new 100"]
  by (force simp: FileCache_new_def cache_find_def placing_def BlockSize_def)

text \<open>
  C38. A larger file is loaded as an empty buffer: the loop reads every block over the previous
  one without advancing, and the final \<open>advance\<close> by the size of the file, more than one block,
  does nothing. A file that turns out shorter than its size makes the loop read at the end of
  the file for ever.
\<close>

theorem loadFileToBuffer_large:
  "(fs name = Some (regular_file d) \<and> BlockSize < length d \<longrightarrow>
      (\<exists>b. loadFileToBuffer fs name = Loaded b \<and> readSize b = 0 \<and> byteCount b = 0)) \<and>
   (fs name = Some f \<and> (\<forall>r \<in> set (file_reads f). r \<noteq> FErr) \<and>
      sum_list (map (\<lambda>r. case r of FData d \<Rightarrow> length d | FErr \<Rightarrow> 0) (file_reads f)) < st_size f \<longrightarrow>
      loadFileToBuffer fs name = LoadHangs)"
proof (intro conjI impI; elim conjE)
  have w: "wpos Buffer_new = \<lparr>pos_idx = 0, pos_off = 0\<rparr>" by (simp add: Buffer_new_eq)
  assume f: "fs name = Some (regular_file d)" "BlockSize < length d"
  obtain b where b: "load_loop (blocks d) (length d) Buffer_new = (Loaded b, 0)" "wpos b = wpos Buffer_new"
    "sizes b = sizes Buffer_new" "rpos b = rpos Buffer_new"
    using load_loop_blocks [OF w, of d] by blast
  have "advance (length d) b = (False, b)" using f(2) b(2) by (intro advance_fails) (simp add: writeSize_def Buffer_new_eq)
  then have "loadFileToBuffer fs name = Loaded b" using f(1) b(1) by (simp add: loadFileToBuffer_def regular_file_def)
  moreover have "readSize b = 0 \<and> byteCount b = 0"
    using b(2-4) by (simp add: readSize_def byteCount_def Buffer_new_eq)
  ultimately show "\<exists>b. loadFileToBuffer fs name = Loaded b \<and> readSize b = 0 \<and> byteCount b = 0" by blast
next
  assume "fs name = Some f" "\<forall>r \<in> set (file_reads f). r \<noteq> FErr"
    "sum_list (map (\<lambda>r. case r of FData d \<Rightarrow> length d | FErr \<Rightarrow> 0) (file_reads f)) < st_size f"
  then show "loadFileToBuffer fs name = LoadHangs"
    using load_loop_short [of "file_reads f" "st_size f" Buffer_new]
    by (cases "load_loop (file_reads f) (st_size f) Buffer_new") (simp add: loadFileToBuffer_def Buffer_new_eq)
qed

theorem loadFileToBuffer_large_witness:
  "\<exists>b. loadFileToBuffer (\<lambda>f. Some (regular_file (replicate 5000 CHR ''x''))) ''big'' = Loaded b \<and> byteCount b = 0"
  using loadFileToBuffer_large [of "\<lambda>f. Some (regular_file (replicate 5000 CHR ''x''))" "''big''" "replicate 5000 CHR ''x''"]
  by (auto simp: BlockSize_def)

end
