(* ===== verification/Http_Server.thy ===== *)
theory Http_Server
  imports Server_Base File_Cache
begin

text \<open>
  The server side of \<^verbatim>\<open>src/http_connection.cpp\<close>: documents from the file cache. \<open>None\<close> is a run
  without a defined result, or one that ends the process or never returns.
\<close>

section \<open>The connection\<close>

record http_server =
  hs_conn :: connection
  hs_cache :: file_cache
  hs_srv :: service

definition HTTPServerConnection_new :: "int \<Rightarrow> io_write list \<Rightarrow> file_cache \<Rightarrow> service \<Rightarrow> http_server" where
  "HTTPServerConnection_new fd ws fc v = \<lparr>hs_conn = startRead (Connection_server fd ws), hs_cache = fc, hs_srv = v\<rparr>"

text \<open>The document part of a reply: the cached file, or the error page.\<close>

definition write_document :: "nat option \<times> buf_out \<Rightarrow> connection \<Rightarrow> connection option" where
  "write_document p c =
     (case p of
        (Some _, BufSet buf) \<Rightarrow>
          let c1 = write_lines (ok_lines (readSize buf)) c
          in (case copyFrom (out_buf c1) buf of Inl _ \<Rightarrow> None | Inr b \<Rightarrow> Some (c1\<lparr>out_buf := b\<rparr>))
      | (Some _, _) \<Rightarrow> None
      | (None, _) \<Rightarrow> Some (write_lines (bad_lines @ [bad_body]) c))"

definition HTTP_handleRequest :: "server_env \<Rightarrow> (cache_node \<Rightarrow> cache_node list \<Rightarrow> cache_node list) \<Rightarrow> file_system \<Rightarrow>
    request \<Rightarrow> http_server \<Rightarrow> (bool \<times> http_server) option" where
  "HTTP_handleRequest e place fs r s =
     (if req_address r = ''quit'' then Some (False, s\<lparr>hs_srv := service_stop (hs_srv s)\<rparr>)
      else if req_address r = ''stats''
      then case stats_reply e (hs_srv s) of
             (ls, v) \<Rightarrow> Some (True, s\<lparr>hs_conn := answer ls (hs_conn s), hs_srv := v\<rparr>)
      else let address = (if req_address r = [] then ''index.html'' else req_address r)
           in Option.bind (pin place fs address (hs_cache s)) (\<lambda>(p, fc).
              Option.bind (write_document p (hs_conn s)) (\<lambda>c.
              Option.bind (count_request e (hs_srv s)) (\<lambda>v.
                Some (True, s\<lparr>hs_conn := startWrite c, hs_cache := fc, hs_srv := v\<rparr>)))))"

fun HTTP_readDone :: "server_env \<Rightarrow> (cache_node \<Rightarrow> cache_node list \<Rightarrow> cache_node list) \<Rightarrow> file_system \<Rightarrow>
    nat \<Rightarrow> http_server \<Rightarrow> (bool \<times> http_server) option" where
  "HTTP_readDone e place fs 0 s = None"
| "HTTP_readDone e place fs (Suc f) s =
     (let i = in_buf (hs_conn s)
      in case parseRequest (Suc f) i (Buffer_begin i) of
           RcError \<Rightarrow> Some (False, s)
         | RcIncomplete \<Rightarrow> Some (True, s)
         | NoReturn _ \<Rightarrow> None
         | RcParsed r it \<Rightarrow>
             Option.bind
               (HTTP_handleRequest e place fs r (s\<lparr>hs_conn := (hs_conn s)\<lparr>in_buf := consume (bytes_read it) i\<rparr>\<rparr>)) (\<lambda>(go, s').
               if \<not> go then Some (False, s') else HTTP_readDone e place fs f s'))"

section \<open>The loop of the connection\<close>

abbreviation hs_set_in :: "buffer \<Rightarrow> http_server \<Rightarrow> http_server" where
  "hs_set_in b s \<equiv> s\<lparr>hs_conn := set_in_buf b (hs_conn s)\<rparr>"

lemma write_document_in:
  "write_document p (set_in_buf b c) = map_option (set_in_buf b) (write_document p c)"
  by (auto simp: write_document_def write_lines_def set_in_buf_def Let_def
      split: option.splits buf_out.splits sum.splits prod.splits)

interpretation hs: message_loop parseRequest gr_request "HTTP_handleRequest e place fs" "\<lambda>s. in_buf (hs_conn s)" hs_set_in
  False "HTTP_readDone e place fs" for e place fs
proof unfold_locales
  fix r b s
  show "HTTP_handleRequest e place fs r (hs_set_in b s) =
      map_option (\<lambda>(go, t). (go, hs_set_in b t)) (HTTP_handleRequest e place fs r s)"
    by (auto simp: HTTP_handleRequest_def Let_def answer_in write_document_in startWrite_in
        split: prod.splits bind_splits option.splits)
next
  fix f s
  show "HTTP_readDone e place fs (Suc f) s =
    (case parseRequest (Suc f) (in_buf (hs_conn s)) (Buffer_begin (in_buf (hs_conn s))) of
       RcError \<Rightarrow> Some (False, s) | RcIncomplete \<Rightarrow> Some (True, s) | NoReturn e \<Rightarrow> None
     | RcParsed r it \<Rightarrow>
         Option.bind (HTTP_handleRequest e place fs r (hs_set_in (consume (bytes_read it) (in_buf (hs_conn s))) s)) (\<lambda>(go, s').
           if \<not> go then Some (False, s')
           else if False \<and> eob (in_buf (hs_conn s')) it then Some (True, s')
           else HTTP_readDone e place fs f s'))"
    by (subst HTTP_readDone.simps) (simp only: Let_def set_in_buf_def simp_thms if_False)
qed (auto simp: gr_request_consuming gr_nils buf_ok_def intro: parseRequest_parsed parseRequest_fails)

section \<open>A cached file behind the headers\<close>

lemma rpos_ne_wpos: "buf_wf b \<Longrightarrow> buf_flow b \<Longrightarrow> buf_bytes b \<noteq> [] \<Longrightarrow> rpos b \<noteq> wpos b"
proof
  assume b: "buf_wf b" "buf_flow b" "buf_bytes b \<noteq> []" and eq: "rpos b = wpos b"
  have "sizes b \<noteq> []" "length (sizes b) = length (chunks b)" using b(1) by (auto simp: buf_wf_def)
  then have "last (sizes b) = sizes b ! (length (chunks b) - 1)" by (simp add: last_conv_nth)
  then have "readSize b = 0" using b(1) eq by (simp add: readSize_def buf_wf_def)
  then show False using readSize_zero_iff [OF b(1,2)] b(3) by simp
qed

lemma copyFrom_file:
  assumes ok: "buf_ok b" and ne: "buf_bytes b \<noteq> []" and src: "holds_file src d"
  shows "\<exists>b'. copyFrom b src = Inr b' \<and> buf_ok b' \<and> buf_bytes b' = buf_bytes b @ d"
proof -
  have wf: "buf_wf b" "buf_flow b" "at_front b" using ok by (auto simp: buf_ok_def)
  have s: "buf_wf src" "buf_bytes src = d" "sizes src = [length d]" "\<not> isConsumed src"
    using src by (auto simp: holds_file_def)
  have rs: "readSize src = length d" using s by (simp add: readSize_def isConsumed_def)
  show ?thesis
  proof (cases "d = []")
    case True
    then show ?thesis using s(4) rs ok by (simp add: copyFrom_def)
  next
    case False
    have le: "length d \<le> BlockSize" using s(1,3) by (simp add: buf_wf_def)
    obtain c where c: "chunks src = [c]" using s(1,3) by (cases "chunks src") (auto simp: buf_wf_def)
    have cl: "length c = BlockSize" using s(1) c by (simp add: buf_wf_def)
    define xs where "xs = take (length d) c"
    have xs: "length xs = length d" using le cl by (simp add: xs_def)
    have init: "None \<notin> set xs" using s(1,3) c by (auto simp: buf_wf_def filled_def xs_def)
    define b1 where "b1 = (if length d > writeSize b then add_write_chunk b else b)"
    have b1: "buf_wf b1" "buf_flow b1" "at_front b1" "length xs \<le> writeSize b1"
    proof -
      have "0 < pos_off (wpos b)" if "length d > writeSize b"
        using that le by (cases "pos_off (wpos b)") (auto simp: writeSize_def)
      then show "buf_wf b1" "buf_flow b1" "at_front b1" "length xs \<le> writeSize b1"
        using add_write_chunk_wf [OF wf(1)] add_write_chunk_flow [OF wf(1,2) _ rpos_ne_wpos [OF wf(1,2) ne]] wf le xs
        by (auto simp: b1_def at_front_def)
    qed
    define b2 where "b2 = move_wpos (length xs) (store xs b1)"
    note m = store_move [OF b1(1,4) init, folded b2_def]
    have "xs \<noteq> []" using xs False by auto
    then have b2: "buf_wf b2" "buf_flow b2" "at_front b2" "rpos b2 \<noteq> wpos b2"
      using m(1,3) b1 store_move_flow [OF b1(1,2,4) init] store_move_rpos_ne [OF b1(1,4) init]
      by (simp_all add: b2_def at_front_def)
    have off: "pos_off (wpos b2) \<le> BlockSize" using b2(1) last_in_set [of "sizes b2"] by (cases "sizes b2 = []") (auto simp: buf_wf_def)
    define b' where "b' = (if pos_off (wpos b2) = BlockSize then add_write_chunk b2 else b2)"
    have "copyFrom b src = Inr b'"
      using s(3,4) rs False c xs by (simp add: copyFrom_def Let_def b'_def b2_def b1_def xs_def)
    moreover have "buf_ok b'"
      using b2 off add_write_chunk_wf [OF b2(1)] add_write_chunk_flow [OF b2(1,2) _ b2(4)]
      by (auto simp: b'_def buf_ok_def at_front_def add_write_chunk_eq BlockSize_def)
    moreover have "buf_bytes b' = buf_bytes b @ d"
      using copyFrom_wf [OF wf(1) s(1,4)] calculation(1) rs False s(2) by (metis Inr_inject length_0_conv)
    ultimately show ?thesis by blast
  qed
qed

section \<open>Answers\<close>

text \<open>
  A site of small documents: which names have a document, and the cache that holds some of them.
\<close>

definition site_fs :: "(string \<rightharpoonup> string) \<Rightarrow> file_system" where
  "site_fs site name = map_option regular_file (site name)"

definition site_ok :: "(string \<rightharpoonup> string) \<Rightarrow> bool" where
  "site_ok site \<longleftrightarrow> (\<forall>name d. site name = Some d \<longrightarrow> length d \<le> BlockSize)"

definition caches :: "(string \<rightharpoonup> string) \<Rightarrow> file_cache \<Rightarrow> bool" where
  "caches site c \<longleftrightarrow> (\<forall>n \<in> set (cache_map c). \<exists>d. site (node_name n) = Some d \<and> holds_file (node_buf n) d)"

definition http_inv :: "server_env \<Rightarrow> (string \<rightharpoonup> string) \<Rightarrow> http_server \<Rightarrow> bool" where
  "http_inv e site s \<longleftrightarrow> caches site (hs_cache s) \<and> conn_inv (hs_conn s) \<and>
     env_me e < length (req_counter (srv_stats (hs_srv s)))"

text \<open>The address a request asks for, what the reply to it is, and how much room it may take.\<close>

definition doc_name :: "string \<Rightarrow> string" where
  "doc_name address = (if address = [] then ''index.html'' else address)"

definition doc_reply :: "(string \<rightharpoonup> string) \<Rightarrow> string \<Rightarrow> string" where
  "doc_reply site address =
     (case site (doc_name address) of
        Some d \<Rightarrow> concat (ok_lines (length d)) @ d
      | None \<Rightarrow> concat bad_lines @ bad_body)"

definition doc_size :: "(string \<rightharpoonup> string) \<Rightarrow> string \<Rightarrow> nat" where
  "doc_size site address = (case site (doc_name address) of Some d \<Rightarrow> length d | None \<Rightarrow> 0)"

definition http_get :: "string \<Rightarrow> request" where
  "http_get address = \<lparr>req_method = ''GET'', req_address = CHR ''/'' # address, req_version = ''HTTP/1.1''\<rparr>"

definition doc_address :: "string \<Rightarrow> bool" where
  "doc_address a \<longleftrightarrow> field_ok a \<and> a \<noteq> ''quit'' \<and> a \<noteq> ''stats''"

lemma http_get_ok: "doc_address a \<Longrightarrow> request_ok (http_get a)"
  by (auto simp: request_ok_def http_get_def field_ok_def word_char_def SP_def CR_def doc_address_def)

lemma pin_document:
  assumes site: "site_ok site" and place: "placing place" and c: "caches site c"
    and room: "bytes_used c + doc_size site a \<le> max_size c"
  shows "\<exists>h out c'. pin place (site_fs site) (doc_name a) c = Some ((h, out), c') \<and> caches site c' \<and>
    bytes_used c' \<le> bytes_used c + doc_size site a \<and> max_size c' = max_size c \<and>
    (case site (doc_name a) of None \<Rightarrow> h = None | Some d \<Rightarrow> h \<noteq> None \<and> (\<exists>b. out = BufSet b \<and> holds_file b d))"
proof -
  let ?name = "doc_name a" and ?c1 = "c\<lparr>num_pins := num_pins c + 1\<rparr>"
  show ?thesis
  proof (cases "cache_find ?name c")
    case (Some n)
    then have n: "n \<in> set (cache_map c)" "node_name n = ?name" by (auto simp: cache_find_def dest: find_SomeD)
    then obtain d where d: "site ?name = Some d" "holds_file (node_buf n) d" using c by (auto simp: caches_def)
    have "pin_hit ?name c = (Some (node_id n, node_buf n), set_stat (node_id n) (\<lambda>k. k + 1) (?c1\<lparr>num_hits := num_hits c + 1\<rparr>))"
      using Some by (simp add: pin_hit_def cache_find_def)
    moreover have "caches site (set_stat h f c')" if "caches site c'" for h f c'
      using that by (auto simp: caches_def set_stat_def)
    moreover have "caches site (?c1\<lparr>num_hits := num_hits c + 1\<rparr>)" using c by (simp add: caches_def)
    ultimately show ?thesis using d by (simp add: pin_def)
  next
    case None
    then have hit: "pin_hit ?name c = (None, ?c1)" by (simp add: pin_hit_def cache_find_def)
    show ?thesis
    proof (cases "site ?name")
      case no: None
      then have "pin place (site_fs site) ?name c = Some ((None, BufUnset), ?c1)"
        using hit by (simp add: pin_def loadFileToBuffer_def site_fs_def)
      then show ?thesis using no c by (simp add: caches_def)
    next
      case (Some d)
      have fs: "site_fs site ?name = Some (regular_file d)" and le: "length d \<le> BlockSize"
        using Some site by (simp_all add: site_fs_def site_ok_def)
      obtain b where b: "loadFileToBuffer (site_fs site) ?name = Loaded b" "holds_file b d"
        using holds_file_loaded [where fs = "site_fs site" and name = ?name, OF le fs] by blast
      have sz: "getFileSize (site_fs site) ?name = length d" using fs by (simp add: getFileSize_def regular_file_def)
      have r: "bytes_used c + length d \<le> max_size c" using room Some by (simp add: doc_size_def)
      let ?n = "\<lparr>node_id = next_node c, node_name = ?name, node_buf = b, stat = 1\<rparr>"
      let ?c' = "?c1\<lparr>next_node := next_node c + 1, cache_map := place ?n (cache_map c), bytes_used := bytes_used c + length d\<rparr>"
      have "evict_loop (getFileSize (site_fs site)) (length d) (?c1\<lparr>next_node := next_node c + 1\<rparr>) = ?c1\<lparr>next_node := next_node c + 1\<rparr>"
        using r by (subst evict_loop.simps) simp
      then have "pin place (site_fs site) ?name c = Some ((Some (next_node c), BufSet b), ?c')"
        using hit b(1) sz r None by (simp add: pin_def pin_miss_def Let_def cache_find_def)
      moreover have "set (place ?n (cache_map c)) = insert ?n (set (cache_map c))"
        using place unfolding placing_def by (metis set_mset_add_mset_insert set_mset_mset)
      then have "caches site ?c'" using c Some b(2) by (simp add: caches_def)
      ultimately show ?thesis using Some b(2) by (simp add: doc_size_def)
    qed
  qed
qed

lemma write_document_facts:
  assumes "conn_inv c"
  shows "\<exists>c'. write_document (None, out) c = Some c' \<and> conn_inv c' \<and> out_stream c' = out_stream c @ concat bad_lines @ bad_body"
    and "holds_file buf d \<Longrightarrow> \<exists>c'. write_document (Some h, BufSet buf) c = Some c' \<and> conn_inv c' \<and>
      out_stream c' = out_stream c @ concat (ok_lines (length d)) @ d"
proof -
  show "\<exists>c'. write_document (None, out) c = Some c' \<and> conn_inv c' \<and> out_stream c' = out_stream c @ concat bad_lines @ bad_body"
    using write_lines_facts [OF assms, of "bad_lines @ [bad_body]"] by (simp add: write_document_def)
  assume h: "holds_file buf d"
  define c1 where "c1 = write_lines (ok_lines (length d)) c"
  note w = write_lines_facts [OF assms, of "ok_lines (length d)", folded c1_def]
  have o: "buf_ok (out_buf c1)" using w(1) by (simp add: conn_inv_def)
  have "buf_bytes (out_buf c1) = buf_bytes (out_buf c) @ concat (ok_lines (length d))"
    using assms buf.puts by (simp add: c1_def write_lines_def conn_inv_def)
  then have "buf_bytes (out_buf c1) \<noteq> []" by (simp add: ok_lines_def crlf_def)
  from copyFrom_file [OF o this h] obtain b where b: "copyFrom (out_buf c1) buf = Inr b" "buf_ok b"
    "buf_bytes b = buf_bytes (out_buf c1) @ d" by blast
  have "readSize buf = length d" using h by (simp add: holds_file_def readSize_def isConsumed_def)
  then have "write_document (Some h, BufSet buf) c = Some (c1\<lparr>out_buf := b\<rparr>)"
    using b(1) by (simp add: write_document_def c1_def)
  then show "\<exists>c'. write_document (Some h, BufSet buf) c = Some c' \<and> conn_inv c' \<and>
      out_stream c' = out_stream c @ concat (ok_lines (length d)) @ d"
    using w b by (simp add: conn_inv_def out_stream_def)
qed


lemma HTTP_handle_get:
  assumes inv: "http_inv e site s" and site: "site_ok site" and place: "placing place" and a: "doc_address a" "req_address r = CHR ''/'' # a"
    and room: "bytes_used (hs_cache s) + doc_size site a \<le> max_size (hs_cache s)"
  shows "\<exists>s'. HTTP_handleRequest e place (site_fs site) (parsed_form r) s = Some (True, s') \<and> http_inv e site s' \<and>
    hs_srv s' = the (count_request e (hs_srv s)) \<and> out_stream (hs_conn s') = out_stream (hs_conn s) @ doc_reply site a \<and>
    bytes_used (hs_cache s') \<le> bytes_used (hs_cache s) + doc_size site a \<and> max_size (hs_cache s') = max_size (hs_cache s)"
proof -
  have c: "conn_inv (hs_conn s)" "caches site (hs_cache s)" using inv by (simp_all add: http_inv_def)
  obtain h out fc where p: "pin place (site_fs site) (doc_name a) (hs_cache s) = Some ((h, out), fc)" "caches site fc"
    "bytes_used fc \<le> bytes_used (hs_cache s) + doc_size site a" "max_size fc = max_size (hs_cache s)"
    "case site (doc_name a) of None \<Rightarrow> h = None | Some d \<Rightarrow> h \<noteq> None \<and> (\<exists>b. out = BufSet b \<and> holds_file b d)"
    using pin_document [OF site place c(2) room] by blast
  obtain c' where c': "write_document (h, out) (hs_conn s) = Some c'" "conn_inv c'"
    "out_stream c' = out_stream (hs_conn s) @ doc_reply site a"
  proof (cases "site (doc_name a)")
    case None
    then show ?thesis using that p(5) write_document_facts(1) [OF c(1), of out] by (auto simp: doc_reply_def)
  next
    case (Some d)
    then show ?thesis using that p(5) write_document_facts(2) [OF c(1), of _ d] by (fastforce simp: doc_reply_def)
  qed
  obtain v where v: "count_request e (hs_srv s) = Some v" "length (req_counter (srv_stats v)) = length (req_counter (srv_stats (hs_srv s)))"
    using count_request_total inv unfolding http_inv_def by blast
  have "HTTP_handleRequest e place (site_fs site) (parsed_form r) s =
      Some (True, s\<lparr>hs_conn := startWrite c', hs_cache := fc, hs_srv := v\<rparr>)"
    using a p(1) c'(1) v(1) by (cases "a = []") (simp_all add: HTTP_handleRequest_def parsed_form_def doc_address_def doc_name_def)
  then show ?thesis
    using startWrite_inv [OF c'(2)] c'(3) p(2-4) v inv by (auto simp: http_inv_def)
qed

text \<open>
  What a browser can ask for, the messages that ask for it (with any method and version and any header lines), and what the server is to
  answer: documents and error pages, which count as requests, and the statistics.
\<close>

datatype http_query = HtDoc string | HtStats

definition http_address :: "http_query \<Rightarrow> string" where
  "http_address q = (case q of HtDoc a \<Rightarrow> a | HtStats \<Rightarrow> ''stats'')"

type_synonym http_message = "request \<times> string list \<times> http_query"

definition http_asks :: "http_message \<Rightarrow> bool" where
  "http_asks m = (case m of (r, hs, q) \<Rightarrow> request_ok r \<and> (\<forall>h \<in> set hs. header_ok h) \<and>
     req_address r = CHR ''/'' # http_address q \<and> (\<forall>a. q = HtDoc a \<longrightarrow> doc_address a))"

definition http_text :: "http_message \<Rightarrow> string" where
  "http_text m = (case m of (r, hs, q) \<Rightarrow> full_request r hs)"

lemma http_text_msg: "http_text (r, hs, q) = full_request r hs"
  by (simp add: http_text_def)

definition http_answer :: "server_env \<Rightarrow> (string \<rightharpoonup> string) \<Rightarrow> http_query \<Rightarrow> service \<Rightarrow> string \<times> service" where
  "http_answer e site q v =
     (case q of
        HtDoc a \<Rightarrow> (doc_reply site a, the (count_request e v))
      | HtStats \<Rightarrow> (case stats_reply e v of (ls, v1) \<Rightarrow> (concat ls, v1)))"

fun http_answers :: "server_env \<Rightarrow> (string \<rightharpoonup> string) \<Rightarrow> http_query list \<Rightarrow> service \<Rightarrow> string \<times> service" where
  "http_answers e site [] v = ([], v)"
| "http_answers e site (q # qs) v =
     (case http_answer e site q v of (t, v1) \<Rightarrow> case http_answers e site qs v1 of (ts, v2) \<Rightarrow> (t @ ts, v2))"

definition query_size :: "(string \<rightharpoonup> string) \<Rightarrow> http_query \<Rightarrow> nat" where
  "query_size site q = (case q of HtDoc a \<Rightarrow> doc_size site a | HtStats \<Rightarrow> 0)"

lemma HTTP_handle_query:
  assumes inv: "http_inv e site s" and site: "site_ok site" and place: "placing place" and q: "http_asks (r, hs, q)"
    and room: "bytes_used (hs_cache s) + query_size site q \<le> max_size (hs_cache s)" and a: "http_answer e site q (hs_srv s) = (t, v)"
  shows "\<exists>s'. HTTP_handleRequest e place (site_fs site) (parsed_form r) s = Some (True, s') \<and> http_inv e site s' \<and> hs_srv s' = v \<and>
    out_stream (hs_conn s') = out_stream (hs_conn s) @ t \<and>
    bytes_used (hs_cache s') \<le> bytes_used (hs_cache s) + query_size site q \<and> max_size (hs_cache s') = max_size (hs_cache s)"
proof (cases q)
  case (HtDoc d)
  have "doc_address d" "req_address r = CHR ''/'' # d" "bytes_used (hs_cache s) + doc_size site d \<le> max_size (hs_cache s)"
    using q room HtDoc by (simp_all add: http_asks_def http_address_def query_size_def)
  from HTTP_handle_get [OF inv site place this] show ?thesis using a HtDoc by (auto simp: http_answer_def query_size_def)
next
  case HtStats
  obtain ls where ls: "stats_reply e (hs_srv s) = (ls, v)" "t = concat ls" using a HtStats by (auto simp: http_answer_def split: prod.splits)
  have "length (req_counter (srv_stats v)) = length (req_counter (srv_stats (hs_srv s)))"
    using ls(1) by (auto simp: stats_reply_def getTicks_def Let_def)
  then show ?thesis
    using ls q HtStats inv answer_facts [of "hs_conn s" ls] by (simp add: HTTP_handleRequest_def http_asks_def http_address_def parsed_form_def http_inv_def)
qed

lemma HTTP_serve_queries:
  assumes "http_inv e site s" "site_ok site" "placing place" "\<forall>m \<in> set ms. http_asks m"
    "bytes_used (hs_cache s) + sum_list (map (\<lambda>(r, hs, q). query_size site q) ms) \<le> max_size (hs_cache s)"
    "length ms \<le> fuel" "http_answers e site (map (\<lambda>(r, hs, q). q) ms) (hs_srv s) = (ts, v)"
  shows "\<exists>s'. http_inv e site s' \<and> hs_srv s' = v \<and> out_stream (hs_conn s') = out_stream (hs_conn s) @ ts \<and>
    serve fuel gr_request (HTTP_handleRequest e place (site_fs site)) (concat (map http_text ms) @ tail) s =
    serve (fuel - length ms) gr_request (HTTP_handleRequest e place (site_fs site)) tail s'"
  using assms
proof (induction ms arbitrary: s fuel ts)
  case Nil
  then show ?case by auto
next
  case (Cons m ms)
  obtain r hs q where m: "m = (r, hs, q)" by (cases m) auto
  obtain f where f: "fuel = Suc f" "length ms \<le> f" using Cons.prems(6) by (cases fuel) auto
  obtain t v1 where a: "http_answer e site q (hs_srv s) = (t, v1)" by fastforce
  obtain ts' where as: "http_answers e site (map (\<lambda>(r, hs, q). q) ms) v1 = (ts', v)" "ts = t @ ts'"
    using Cons.prems(7) m a by (auto split: prod.splits)
  have q: "http_asks (r, hs, q)" and room: "bytes_used (hs_cache s) + query_size site q \<le> max_size (hs_cache s)"
    using Cons.prems(4,5) m by auto
  obtain s1 where s1: "HTTP_handleRequest e place (site_fs site) (parsed_form r) s = Some (True, s1)" "http_inv e site s1" "hs_srv s1 = v1"
    "out_stream (hs_conn s1) = out_stream (hs_conn s) @ t" "bytes_used (hs_cache s1) \<le> bytes_used (hs_cache s) + query_size site q"
    "max_size (hs_cache s1) = max_size (hs_cache s)"
    using HTTP_handle_query [OF Cons.prems(1-3) q room a] by blast
  have room1: "bytes_used (hs_cache s1) + sum_list (map (\<lambda>(r, hs, q). query_size site q) ms) \<le> max_size (hs_cache s1)"
    using Cons.prems(5) s1(5,6) m by simp
  have "gr_request (full_request r hs @ concat (map http_text ms) @ tail) = Inr (parsed_form r, concat (map http_text ms) @ tail)"
    using q by (intro gr_full_request) (auto simp: http_asks_def)
  then show ?case
    using Cons.IH [OF s1(2) Cons.prems(2,3) _ room1 f(2), of ts'] Cons.prems(4) as s1 f(1) m by (simp add: http_text_msg)
qed

section \<open>Properties\<close>



end
