(* ===== verification/Client_Connection.thy ===== *)
theory Client_Connection
  imports Server_Base
begin

text \<open>
  The client sides of \<^verbatim>\<open>src/http_connection.cpp\<close> and \<^verbatim>\<open>src/kv_connection.cpp\<close>. A callback is a
  value; calling one appends it to a log with what it was called with. The synchronous \<open>send\<close> is
  \<open>asyncSend\<close> with a callback that stores the response and notifies; it returns when that
  callback has run.
\<close>

section \<open>State\<close>

record 'cb client =
  cl_conn :: connection
  response_cbs :: "'cb list"
  delivered :: "('cb \<times> response) list"
  connect_calls :: "bool list"

definition Client_new :: "io_write list \<Rightarrow> 'cb client" where
  "Client_new ws = \<lparr>cl_conn = Connection_client ws, response_cbs = [], delivered = [], connect_calls = []\<rparr>"

section \<open>The HTTP client\<close>

text \<open>The connect callback is given the connection; what it can see of it is \<open>ok()\<close>.\<close>

definition HTTPClient_connDone :: "connection \<Rightarrow> bool list \<Rightarrow> connection \<times> bool list" where
  "HTTPClient_connDone c calls = (let c1 = (if conn_ok c then startRead c else c) in (c1, calls @ [conn_ok c1]))"

definition HTTPClient_connect :: "int \<Rightarrow> errno option \<Rightarrow> bool \<Rightarrow> 'cb client \<Rightarrow> 'cb client option" where
  "HTTPClient_connect fd res so_error s =
     map_option (\<lambda>(c, calls). s\<lparr>cl_conn := c, connect_calls := calls\<rparr>)
       (startConnect fd res so_error HTTPClient_connDone (cl_conn s) (connect_calls s))"

definition HTTPClient_doConnect :: "bool \<Rightarrow> 'cb client \<Rightarrow> 'cb client option" where
  "HTTPClient_doConnect so_error s =
     map_option (\<lambda>(c, calls). s\<lparr>cl_conn := c, connect_calls := calls\<rparr>)
       (doConnect so_error HTTPClient_connDone (cl_conn s) (connect_calls s))"

definition HTTPClient_handleResponse :: "response \<Rightarrow> 'cb client \<Rightarrow> bool \<times> 'cb client" where
  "HTTPClient_handleResponse r s =
     (case response_cbs s of
        [] \<Rightarrow> (True, s)
      | cb # cbs \<Rightarrow> (True, s\<lparr>response_cbs := cbs, delivered := delivered s @ [(cb, r)]\<rparr>))"

definition HTTPClient_asyncSend :: "request \<Rightarrow> 'cb \<Rightarrow> 'cb client \<Rightarrow> 'cb client" where
  "HTTPClient_asyncSend r cb s =
     (let s1 = s\<lparr>response_cbs := response_cbs s @ [cb]\<rparr>;
          c1 = (cl_conn s1)\<lparr>out_buf := Request_toBuffer r (out_buf (cl_conn s1))\<rparr>
      in s1\<lparr>cl_conn := startWrite c1\<rparr>)"

fun HTTPClient_readDone :: "nat \<Rightarrow> 'cb client \<Rightarrow> (bool \<times> 'cb client) option" where
  "HTTPClient_readDone 0 s = None"
| "HTTPClient_readDone (Suc f) s =
     (let i = in_buf (cl_conn s)
      in case parseResponse (Suc f) i (Buffer_begin i) of
           RcError \<Rightarrow> Some (False, s)
         | RcIncomplete \<Rightarrow> Some (True, s)
         | NoReturn _ \<Rightarrow> None
         | RcParsed r it \<Rightarrow>
             (case HTTPClient_handleResponse r (s\<lparr>cl_conn := (cl_conn s)\<lparr>in_buf := consume (bytes_read it) i\<rparr>\<rparr>) of
                (go, s') \<Rightarrow>
                  if \<not> go then Some (False, s')
                  else if eob (in_buf (cl_conn s')) it then Some (True, s')
                  else HTTPClient_readDone f s'))"

section \<open>The key-value client\<close>

definition KVClient_connDone :: "connection \<Rightarrow> bool list \<Rightarrow> connection \<times> bool list" where
  "KVClient_connDone c calls = (let c1 = (if conn_ok c then startRead c else c) in (c1, calls @ [conn_ok c1]))"

definition KVClient_connect :: "int \<Rightarrow> errno option \<Rightarrow> bool \<Rightarrow> 'cb client \<Rightarrow> 'cb client option" where
  "KVClient_connect fd res so_error s =
     map_option (\<lambda>(c, calls). s\<lparr>cl_conn := c, connect_calls := calls\<rparr>)
       (startConnect fd res so_error KVClient_connDone (cl_conn s) (connect_calls s))"

definition KVClient_handleResponse :: "response \<Rightarrow> 'cb client \<Rightarrow> bool \<times> 'cb client" where
  "KVClient_handleResponse r s =
     (if response_cbs s \<noteq> []
      then (True, s\<lparr>response_cbs := tl (response_cbs s), delivered := delivered s @ [(hd (response_cbs s), r)]\<rparr>)
      else (True, s))"

definition KVClient_asyncSend :: "request \<Rightarrow> 'cb \<Rightarrow> 'cb client \<Rightarrow> 'cb client" where
  "KVClient_asyncSend r cb s =
     (let s1 = s\<lparr>response_cbs := response_cbs s @ [cb]\<rparr>;
          c1 = (cl_conn s1)\<lparr>out_buf := Request_toBuffer r (out_buf (cl_conn s1))\<rparr>
      in s1\<lparr>cl_conn := startWrite c1\<rparr>)"

fun KVClient_readDone :: "nat \<Rightarrow> 'cb client \<Rightarrow> (bool \<times> 'cb client) option" where
  "KVClient_readDone 0 s = None"
| "KVClient_readDone (Suc f) s =
     (let i = in_buf (cl_conn s)
      in case parseResponse (Suc f) i (Buffer_begin i) of
           RcError \<Rightarrow> Some (False, s)
         | RcIncomplete \<Rightarrow> Some (True, s)
         | NoReturn _ \<Rightarrow> None
         | RcParsed r it \<Rightarrow>
             (case KVClient_handleResponse r (s\<lparr>cl_conn := (cl_conn s)\<lparr>in_buf := consume (bytes_read it) i\<rparr>\<rparr>) of
                (go, s') \<Rightarrow>
                  if \<not> go then Some (False, s')
                  else if eob (in_buf (cl_conn s')) it then Some (True, s')
                  else KVClient_readDone f s'))"

section \<open>Both clients run the message loop\<close>

abbreviation cl_set_in :: "buffer \<Rightarrow> 'cb client \<Rightarrow> 'cb client" where
  "cl_set_in b s \<equiv> s\<lparr>cl_conn := set_in_buf b (cl_conn s)\<rparr>"

lemma KV_is_HTTP_client:
  "KVClient_handleResponse r s = HTTPClient_handleResponse r s" "KVClient_asyncSend q cb s = HTTPClient_asyncSend q cb s"
  "KVClient_connDone c calls = HTTPClient_connDone c calls"
  by (auto simp: KVClient_handleResponse_def HTTPClient_handleResponse_def KVClient_asyncSend_def
      HTTPClient_asyncSend_def KVClient_connDone_def HTTPClient_connDone_def split: list.splits)

lemma handleResponse_in:
  "HTTPClient_handleResponse r (cl_set_in b s) = (case HTTPClient_handleResponse r s of (go, t) \<Rightarrow> (go, cl_set_in b t))"
  by (simp add: HTTPClient_handleResponse_def split: list.splits)

interpretation hc: message_loop parseResponse gr_response "\<lambda>r s. Some (HTTPClient_handleResponse r s)"
  "\<lambda>s. in_buf (cl_conn s)" cl_set_in True HTTPClient_readDone
proof unfold_locales
  fix r :: response and b :: buffer and s :: "'cb client"
  show "Some (HTTPClient_handleResponse r (cl_set_in b s)) =
      map_option (\<lambda>(go, t). (go, cl_set_in b t)) (Some (HTTPClient_handleResponse r s))"
    by (simp add: handleResponse_in)
qed (auto simp: gr_response_consuming gr_nils set_in_buf_def Let_def intro: parseResponse_parsed parseResponse_fails
    split: parse_outcome.splits prod.splits)

lemma KVClient_readDone_eq: "KVClient_readDone f s = HTTPClient_readDone f s"
  by (induction f arbitrary: s) (simp_all add: KV_is_HTTP_client Let_def split: parse_outcome.splits prod.splits)

section \<open>Responses reach their callbacks\<close>

definition ok_message :: "string \<Rightarrow> string" where
  "ok_message d = concat (ok_lines (length d)) @ d"

definition ok_response :: "string \<Rightarrow> response" where
  "ok_response d = \<lparr>statusLine = ''HTTP/1.1 200 OK'', headerRemainder = concat (ok_headers (length d)), resp_body = d\<rparr>"

lemma gr_ok_message: "length d < 2 ^ 64 \<Longrightarrow> gr_response (ok_message d @ s) = Inr (ok_response d, s)"
  using gr_ok [of "length d" "d @ s"] by (simp add: ok_message_def ok_response_def)

lemma ok_message_ne: "ok_message d \<noteq> []"
  by (simp add: ok_message_def ok_lines_def crlf_def)

lemma client_serves:
  "gr_response tail = Inl IncompleteInput \<Longrightarrow> \<forall>d \<in> set ds. length d < 2 ^ 64 \<Longrightarrow> length ds < fuel \<Longrightarrow>
    length ds \<le> length (response_cbs s) \<Longrightarrow>
    serve fuel gr_response (\<lambda>r s. Some (HTTPClient_handleResponse r s)) (concat (map ok_message ds) @ tail) s =
      Some (True, tail, s\<lparr>response_cbs := drop (length ds) (response_cbs s),
        delivered := delivered s @ zip (response_cbs s) (map ok_response ds)\<rparr>)"
proof (induction ds arbitrary: s fuel)
  case Nil
  then show ?case by (cases fuel) auto
next
  case (Cons d ds)
  then obtain f cb cbs where f: "fuel = Suc f" "length ds < f" and cb: "response_cbs s = cb # cbs"
    by (cases fuel; cases "response_cbs s") auto
  define s1 where "s1 = s\<lparr>response_cbs := cbs, delivered := delivered s @ [(cb, ok_response d)]\<rparr>"
  have "HTTPClient_handleResponse (ok_response d) s = (True, s1)" using cb by (simp add: HTTPClient_handleResponse_def s1_def)
  then show ?case
    using Cons.IH [OF Cons.prems(1) _ f(2), of s1] Cons.prems f(1) cb gr_ok_message [of d "concat (map ok_message ds) @ tail"]
    by (simp add: s1_def)
qed

lemma client_delivers:
  assumes "buf_ok (in_buf (cl_conn s))" "buf_clean (in_buf (cl_conn s))"
    "buf_bytes (in_buf (cl_conn s)) = concat (map ok_message ds) @ tail" "gr_response tail = Inl IncompleteInput"
    "\<forall>d \<in> set ds. length d < 2 ^ 64" "length ds \<le> length (response_cbs s)"
    "length (buf_bytes (in_buf (cl_conn s))) < fuel"
  shows "\<exists>s'. HTTPClient_readDone fuel s = Some (True, s') \<and>
    delivered s' = delivered s @ zip (response_cbs s) (map ok_response ds) \<and>
    response_cbs s' = drop (length ds) (response_cbs s) \<and> buf_bytes (in_buf (cl_conn s')) = tail \<and>
    (\<exists>b. cl_conn s' = set_in_buf b (cl_conn s))"
proof -
  have "length ds \<le> length (concat (map ok_message ds))"
    using ok_message_ne by (intro length_concat_map) simp
  then have "length ds < fuel" using assms(3,7) by simp
  from client_serves [OF assms(4,5) this assms(6)] assms(3)
  have "serve fuel gr_response (\<lambda>r s. Some (HTTPClient_handleResponse r s)) (buf_bytes (in_buf (cl_conn s))) s =
      Some (True, tail, s\<lparr>response_cbs := drop (length ds) (response_cbs s),
        delivered := delivered s @ zip (response_cbs s) (map ok_response ds)\<rparr>)" by simp
  then show ?thesis using hc.loop_serves [OF assms(1,2,7), of s] by auto
qed

section \<open>Properties\<close>

text \<open>
  Responses reach their callbacks in the order in which the requests were sent: when the
  input buffer of a client holds complete \<open>200 OK\<close> messages, no more than there are callbacks
  waiting, and the beginning of another, \<open>readDone\<close> calls the first callbacks of the queue, each
  once and in order, with the responses in the order of their arrival, keeps the other
  callbacks, and leaves the incomplete message unread. Both clients do the same.
\<close>

theorem readDone_delivers:
  assumes "buf_ok (in_buf (cl_conn s))" "buf_clean (in_buf (cl_conn s))"
    "buf_bytes (in_buf (cl_conn s)) = concat (map ok_message ds) @ tail" "gr_response tail = Inl IncompleteInput"
    "\<forall>d \<in> set ds. length d < 2 ^ 64" "length ds \<le> length (response_cbs s)"
    "length (buf_bytes (in_buf (cl_conn s))) < fuel"
  shows "KVClient_readDone fuel s = HTTPClient_readDone fuel s \<and>
    (\<exists>s'. HTTPClient_readDone fuel s = Some (True, s') \<and>
      delivered s' = delivered s @ zip (take (length ds) (response_cbs s)) (map ok_response ds) \<and>
      response_cbs s' = drop (length ds) (response_cbs s) \<and> buf_bytes (in_buf (cl_conn s')) = tail)"
  using client_delivers [OF assms] zip_take_left [of "map ok_response ds" "response_cbs s"]
  by (auto simp: KVClient_readDone_eq)

theorem readDone_delivers_witness:
  "\<exists>s'. HTTPClient_readDone 400
      \<lparr>cl_conn = set_in_buf (buffer_of (ok_message ''a'' @ ok_message ''b'')) (Connection_client []),
       response_cbs = ''first'' # [''second''], delivered = [], connect_calls = []\<rparr> = Some (True, s') \<and>
    delivered s' = [(''first'', ok_response ''a''), (''second'', ok_response ''b'')]"
proof -
  let ?s = "\<lparr>cl_conn = set_in_buf (buffer_of (ok_message ''a'' @ ok_message ''b'')) (Connection_client []),
       response_cbs = ''first'' # [''second''], delivered = [], connect_calls = []\<rparr>"
  have "length (buf_bytes (in_buf (cl_conn ?s))) < 400"
    by (simp add: ok_message_def ok_lines_def ok_headers_def crlf_def show_nat.simps)
  then show ?thesis using readDone_delivers [of ?s "[''a'', ''b'']" "[]" 400] gr_nils(2) by auto
qed

text \<open>
  The header says that the connect callback is always issued. It is issued exactly once when
  \<open>connect\<close> fails at once, and once by \<open>doConnect\<close> when the connection is being established. But it
  is never issued when no socket can be created (the synchronous \<open>connect\<close> then waits for ever),
  and a connection that is established at once is set up through a null descriptor.
\<close>

theorem HTTPClient_connect_callback:
  "(fd < 0 \<longrightarrow> (\<exists>s'. HTTPClient_connect fd res so_error s = Some s' \<and> connect_calls s' = connect_calls s \<and>
       write_waits (cl_conn s') = write_waits (cl_conn s))) \<and>
   (0 \<le> fd \<and> e \<noteq> EINPROGRESS \<and> e \<noteq> EINTR \<longrightarrow>
     (\<exists>s'. HTTPClient_connect fd (Some e) so_error s = Some s' \<and> connect_calls s' = connect_calls s @ [False])) \<and>
   (0 \<le> fd \<and> \<not> in_error (cl_conn s) \<longrightarrow>
     (\<exists>s' s''. HTTPClient_connect fd (Some EINPROGRESS) so_error s = Some s' \<and> connect_calls s' = connect_calls s \<and>
       write_waits (cl_conn s') = write_waits (cl_conn s) + 1 \<and>
       HTTPClient_doConnect so_error s' = Some s'' \<and> connect_calls s'' = connect_calls s @ [\<not> so_error])) \<and>
   (0 \<le> fd \<and> \<not> in_error (cl_conn s) \<and> \<not> io_desc (cl_conn s) \<longrightarrow> HTTPClient_connect fd None False s = None)"
  by (auto simp: HTTPClient_connect_def HTTPClient_doConnect_def startConnect_def doConnect_def HTTPClient_connDone_def
      Let_def conn_ok_def startRead_def readWhenReady_def writeWhenReady_def acquire_def touch_def)

theorem HTTPClient_connect_callback_witness:
  "\<exists>s'. HTTPClient_connect (-1) None False (Client_new [] :: string client) = Some s' \<and> connect_calls s' = []"
  using HTTPClient_connect_callback [of "-1" None False "Client_new [] :: string client" EOTHER] by (auto simp: Client_new_def)

end
