(* ===== verification/Spin_Lock.thy ===== *)
theory Spin_Lock
  imports Prelude
begin

text \<open>
  \<^verbatim>\<open>src/spinlock.hpp\<close>: the test-and-set lock with a fast path, a bounded spin and a sleeping
  loop. A thread is at the next access to \<open>locked_\<close> it will make; one step is one access, and
  any thread may take the next step. A thread in the critical section takes its next step when
  it calls \<open>unlock\<close>, an idle thread when it calls \<open>lock\<close>.
\<close>

section \<open>The interface of a lock\<close>

text \<open>
  The contract of a lock as a state machine: the invariant allows at most one thread in the
  critical section.
\<close>

locale mutual_exclusion = transition_system start step invar
  for start :: "'s \<Rightarrow> bool" and step :: "'s \<Rightarrow> 's \<Rightarrow> bool" and invar :: "'s \<Rightarrow> bool" +
  fixes critical :: "'s \<Rightarrow> 'thread \<Rightarrow> bool"
  assumes one_critical: "invar s \<Longrightarrow> critical s i \<Longrightarrow> critical s j \<Longrightarrow> i = j"
begin

lemma exclusive: "reach start step s \<Longrightarrow> critical s i \<Longrightarrow> critical s j \<Longrightarrow> i = j"
  using one_critical reach_invar by blast

end

section \<open>State and steps\<close>

datatype spin_pc = SlIdle | SlFastLoad | SlFastTas | SlSpin nat | SlSleepTas | SlCritical

record spinlock =
  locked :: bool
  sl_pc :: "nat \<Rightarrow> spin_pc"

definition Spinlock_new :: spinlock where
  "Spinlock_new = \<lparr>locked = False, sl_pc = (\<lambda>_. SlIdle)\<rparr>"

definition spin_wait :: nat where "spin_wait = 1000"

text \<open>
  \<open>__sync_lock_test_and_set\<close>: the thread goes on at \<open>next\<close> when the lock was taken already.
\<close>

definition test_and_set :: "nat \<Rightarrow> spin_pc \<Rightarrow> spinlock \<Rightarrow> spinlock" where
  "test_and_set i next s =
     s\<lparr>locked := True, sl_pc := (sl_pc s)(i := if locked s then next else SlCritical)\<rparr>"

definition Spinlock_step :: "nat \<Rightarrow> spinlock \<Rightarrow> spinlock" where
  "Spinlock_step i s =
     (case sl_pc s i of
        SlIdle \<Rightarrow> s\<lparr>sl_pc := (sl_pc s)(i := SlFastLoad)\<rparr>
      | SlFastLoad \<Rightarrow> s\<lparr>sl_pc := (sl_pc s)(i := if \<not> locked s then SlFastTas else SlSpin spin_wait)\<rparr>
      | SlFastTas \<Rightarrow> test_and_set i (SlSpin spin_wait) s
      | SlSpin w \<Rightarrow> s\<lparr>sl_pc := (sl_pc s)(i := if w > 0 \<and> locked s then SlSpin (w - 1) else SlSleepTas)\<rparr>
      | SlSleepTas \<Rightarrow> test_and_set i SlSleepTas s
      | SlCritical \<Rightarrow> s\<lparr>locked := False, sl_pc := (sl_pc s)(i := SlIdle)\<rparr>)"

definition spin_start :: "spinlock \<Rightarrow> bool" where
  "spin_start s \<longleftrightarrow> s = Spinlock_new"

definition spin_step :: "spinlock \<Rightarrow> spinlock \<Rightarrow> bool" where
  "spin_step s t \<longleftrightarrow> (\<exists>i. t = Spinlock_step i s)"

section \<open>Mutual exclusion and progress\<close>

definition spin_inv :: "spinlock \<Rightarrow> bool" where
  "spin_inv s \<longleftrightarrow> (\<forall>i. sl_pc s i = SlCritical \<longrightarrow> locked s) \<and>
     (\<forall>i j. sl_pc s i = SlCritical \<longrightarrow> sl_pc s j = SlCritical \<longrightarrow> i = j) \<and>
     (locked s \<longrightarrow> (\<exists>i. sl_pc s i = SlCritical)) \<and> (\<forall>i w. sl_pc s i = SlSpin w \<longrightarrow> w \<le> spin_wait)"

lemma test_and_set_inv:
  assumes "spin_inv s" "sl_pc s i \<noteq> SlCritical" "next = SlSpin spin_wait \<or> next = SlSleepTas"
  shows "spin_inv (test_and_set i next s)"
proof (cases "locked s")
  case True
  then obtain h where "sl_pc s h = SlCritical" "h \<noteq> i" using assms by (auto simp: spin_inv_def)
  then show ?thesis using True assms by (auto simp: spin_inv_def test_and_set_def)
next
  case False
  then show ?thesis using assms by (auto simp: spin_inv_def test_and_set_def)
qed

lemma pc_inv:
  assumes "spin_inv s" "sl_pc s i \<noteq> SlCritical" "p \<noteq> SlCritical" "\<And>w. p = SlSpin w \<Longrightarrow> w \<le> spin_wait"
  shows "spin_inv (s\<lparr>sl_pc := (sl_pc s)(i := p)\<rparr>)"
  using assms unfolding spin_inv_def by (auto split: if_splits) metis+

lemma Spinlock_step_inv:
  assumes "spin_inv s"
  shows "spin_inv (Spinlock_step i s)"
proof (cases "sl_pc s i")
  case SlCritical
  then show ?thesis using assms unfolding spin_inv_def Spinlock_step_def by (auto split: if_splits)
next
  case (SlSpin w)
  moreover have "w \<le> spin_wait" using assms SlSpin by (auto simp: spin_inv_def)
  ultimately show ?thesis using assms by (auto simp: Spinlock_step_def intro!: pc_inv)
qed (use assms in \<open>auto simp: Spinlock_step_def intro!: pc_inv test_and_set_inv\<close>)

interpretation spin: mutual_exclusion spin_start spin_step spin_inv "\<lambda>s i. sl_pc s i = SlCritical"
proof unfold_locales
  show "spin_inv s" if "spin_start s" for s using that by (auto simp: spin_start_def spin_inv_def Spinlock_new_def)
  show "spin_inv t" if "spin_step s t" "spin_inv s" for s t using that Spinlock_step_inv by (auto simp: spin_step_def)
  show "i = j" if "spin_inv s" "sl_pc s i = SlCritical" "sl_pc s j = SlCritical" for s i j
    using that by (auto simp: spin_inv_def)
qed

text \<open>A thread alone: it enters within the two accesses of the fast path or right after the spin.\<close>

lemma free_when_empty: "spin_inv s \<Longrightarrow> \<forall>j. sl_pc s j \<noteq> SlCritical \<Longrightarrow> \<not> locked s"
  by (auto simp: spin_inv_def)

lemma solo_enters:
  assumes "\<not> locked s" "sl_pc s i \<noteq> SlIdle" "sl_pc s i \<noteq> SlCritical"
  shows "\<exists>k \<le> 2. sl_pc ((Spinlock_step i ^^ k) s) i = SlCritical"
proof -
  have tas: "sl_pc (Spinlock_step i t) i = SlCritical" if "\<not> locked t" "sl_pc t i = SlFastTas \<or> sl_pc t i = SlSleepTas" for t
    using that by (auto simp: Spinlock_step_def test_and_set_def)
  consider "sl_pc s i = SlFastTas \<or> sl_pc s i = SlSleepTas" | "sl_pc s i = SlFastLoad" | w where "sl_pc s i = SlSpin w"
    using assms(2,3) by (cases "sl_pc s i") auto
  then show ?thesis
  proof cases
    case 1
    then show ?thesis using tas [OF assms(1)] by (intro exI [of _ 1]) simp
  next
    case 2
    then have "\<not> locked (Spinlock_step i s)" "sl_pc (Spinlock_step i s) i = SlFastTas" using assms(1) by (simp_all add: Spinlock_step_def)
    then show ?thesis using tas by (intro exI [of _ 2]) (simp add: numeral_2_eq_2)
  next
    case 3
    then have "\<not> locked (Spinlock_step i s)" "sl_pc (Spinlock_step i s) i = SlSleepTas" using assms(1) by (simp_all add: Spinlock_step_def)
    then show ?thesis using tas by (intro exI [of _ 2]) (simp add: numeral_2_eq_2)
  qed
qed

section \<open>Properties\<close>

text \<open>
  C17. The spin lock in every interleaving of any number of threads: at most one thread is in the
  critical section, and when there is none, every thread that is inside \<open>lock\<close> enters with at
  most two more accesses of its own.
\<close>

theorem Spinlock_correct:
  assumes "reach spin_start spin_step s"
  shows "(\<forall>i j. sl_pc s i = SlCritical \<and> sl_pc s j = SlCritical \<longrightarrow> i = j) \<and>
    ((\<forall>j. sl_pc s j \<noteq> SlCritical) \<longrightarrow> (\<forall>i. sl_pc s i \<noteq> SlIdle \<longrightarrow>
       (\<exists>k \<le> 2. sl_pc ((Spinlock_step i ^^ k) s) i = SlCritical)))"
  using spin.exclusive [OF assms] spin.reach_invar [OF assms] solo_enters free_when_empty by blast

theorem Spinlock_correct_witness:
  "\<exists>k \<le> 2. sl_pc ((Spinlock_step 1 ^^ k) (Spinlock_step 1 Spinlock_new)) 1 = SlCritical"
proof -
  have "reach spin_start spin_step Spinlock_new" by (rule reach_start) (simp add: spin_start_def)
  then have "reach spin_start spin_step (Spinlock_step 1 Spinlock_new)"
    by (rule reach_step) (auto simp: spin_step_def)
  from Spinlock_correct [OF this] show ?thesis by (auto simp: Spinlock_step_def Spinlock_new_def)
qed

end
