(* ===== verification/Mcs_Lock.thy ===== *)
theory Mcs_Lock
  imports Spin_Lock
begin

text \<open>
  \<^verbatim>\<open>src/spinlock_mcs.hpp\<close>: the queue lock of Mellor-Crummey and Scott. Each thread has one node,
  so nodes are named by threads. A step is one access to shared memory. A hand-over through a
  null \<open>next\<close> pointer would set \<open>mc_crashed\<close>.
\<close>

section \<open>State and steps\<close>

datatype mcs_pc = McIdle | McClearNext | McSwap | McSetLocked nat | McLink nat | McWait | McCritical
  | McReadNext | McCas | McAwaitNext | McHandOver

record mcs =
  mc_tail :: "nat option"
  mc_next :: "nat \<Rightarrow> nat option"
  mc_locked :: "nat \<Rightarrow> bool"
  mc_pc :: "nat \<Rightarrow> mcs_pc"
  mc_crashed :: bool

definition Spinlock_mcs_new :: mcs where
  "Spinlock_mcs_new =
     \<lparr>mc_tail = None, mc_next = (\<lambda>_. None), mc_locked = (\<lambda>_. False), mc_pc = (\<lambda>_. McIdle), mc_crashed = False\<rparr>"

definition goto :: "nat \<Rightarrow> mcs_pc \<Rightarrow> mcs \<Rightarrow> mcs" where
  "goto i p s = s\<lparr>mc_pc := (mc_pc s)(i := p)\<rparr>"

definition mcs_lock_step :: "nat \<Rightarrow> mcs \<Rightarrow> mcs" where
  "mcs_lock_step i s =
     (case mc_pc s i of
        McIdle \<Rightarrow> goto i McClearNext s
      | McClearNext \<Rightarrow> goto i McSwap (s\<lparr>mc_next := (mc_next s)(i := None)\<rparr>)
      | McSwap \<Rightarrow>
          goto i (case mc_tail s of None \<Rightarrow> McCritical | Some pred \<Rightarrow> McSetLocked pred) (s\<lparr>mc_tail := Some i\<rparr>)
      | McSetLocked pred \<Rightarrow> goto i (McLink pred) (s\<lparr>mc_locked := (mc_locked s)(i := True)\<rparr>)
      | McLink pred \<Rightarrow> goto i McWait (s\<lparr>mc_next := (mc_next s)(pred := Some i)\<rparr>)
      | McWait \<Rightarrow> if mc_locked s i then s else goto i McCritical s
      | _ \<Rightarrow> s)"

definition mcs_unlock_step :: "nat \<Rightarrow> mcs \<Rightarrow> mcs" where
  "mcs_unlock_step i s =
     (case mc_pc s i of
        McCritical \<Rightarrow> goto i McReadNext s
      | McReadNext \<Rightarrow> goto i (if mc_next s i = None then McCas else McHandOver) s
      | McCas \<Rightarrow> if mc_tail s = Some i then goto i McIdle (s\<lparr>mc_tail := None\<rparr>) else goto i McAwaitNext s
      | McAwaitNext \<Rightarrow> if mc_next s i = None then s else goto i McHandOver s
      | McHandOver \<Rightarrow>
          (case mc_next s i of
             None \<Rightarrow> s\<lparr>mc_crashed := True\<rparr>
           | Some succ \<Rightarrow> goto i McIdle (s\<lparr>mc_locked := (mc_locked s)(succ := False)\<rparr>))
      | _ \<Rightarrow> s)"

definition mcs_step :: "mcs \<Rightarrow> mcs \<Rightarrow> bool" where
  "mcs_step s t \<longleftrightarrow> (\<exists>i. t = mcs_lock_step i s \<or> t = mcs_unlock_step i s)"

section \<open>The queue the lock implements\<close>

text \<open>
  The specification is the queue of the threads that have asked: a thread joins at the end, the
  first one owns the lock, and when it leaves the next one owns it.
\<close>

inductive queue_step :: "nat list \<Rightarrow> nat list \<Rightarrow> bool" where
  queue_stay: "queue_step q q"
| queue_join: "i \<notin> set q \<Longrightarrow> queue_step q (q @ [i])"
| queue_leave: "queue_step (i # q) q"

definition follows :: "nat list \<Rightarrow> nat \<Rightarrow> nat \<Rightarrow> bool" where
  "follows q x y \<longleftrightarrow> (x, y) \<in> set (zip q (tl q))"

definition queued :: "mcs_pc \<Rightarrow> bool" where
  "queued p \<longleftrightarrow> p \<noteq> McIdle \<and> p \<noteq> McClearNext \<and> p \<noteq> McSwap"

definition owner :: "mcs \<Rightarrow> nat \<Rightarrow> bool" where
  "owner s i \<longleftrightarrow> mc_pc s i \<in> {McCritical, McReadNext, McCas, McAwaitNext, McHandOver} \<or>
     (mc_pc s i = McWait \<and> \<not> mc_locked s i)"

definition waits :: "mcs \<Rightarrow> nat \<Rightarrow> nat \<Rightarrow> bool" where
  "waits s x y \<longleftrightarrow> mc_pc s y = McSetLocked x \<or> (mc_locked s y \<and> (mc_pc s y = McLink x \<or> mc_pc s y = McWait))"

text \<open>The lock and the queue.\<close>

definition mcs_rel :: "mcs \<Rightarrow> nat list \<Rightarrow> bool" where
  "mcs_rel s q \<longleftrightarrow> distinct q \<and> mc_tail s = (if q = [] then None else Some (last q)) \<and>
     (\<forall>i. i \<in> set q \<longleftrightarrow> queued (mc_pc s i)) \<and> (q \<noteq> [] \<longrightarrow> owner s (hd q) \<and> mc_next s (last q) = None) \<and>
     (\<forall>x y. follows q x y \<longrightarrow> waits s x y \<and> mc_next s x = (if mc_pc s y = McWait then Some y else None)) \<and>
     (\<forall>i. mc_pc s i = McSwap \<longrightarrow> mc_next s i = None) \<and> (\<forall>i. mc_pc s i = McHandOver \<longrightarrow> mc_next s i \<noteq> None) \<and>
     \<not> mc_crashed s"

lemma follows_simps [simp]:
  "\<not> follows [] x y" "\<not> follows [a] x y"
  "follows (a # b # q) x y \<longleftrightarrow> (x = a \<and> y = b) \<or> follows (b # q) x y"
  by (auto simp: follows_def)

lemma follows_snoc: "follows (q @ [i]) x y \<longleftrightarrow> follows q x y \<or> (q \<noteq> [] \<and> x = last q \<and> y = i)"
proof (induction q)
  case (Cons a q)
  then show ?case by (cases q) auto
qed simp

lemma follows_in: "follows q x y \<Longrightarrow> x \<in> set q \<and> y \<in> set (tl q)"
  unfolding follows_def by (meson set_zip_leftD set_zip_rightD)

lemma follows_tl: "follows (tl q) x y \<Longrightarrow> follows q x y"
  by (cases q; cases "tl q") auto

lemma follows_facts:
  assumes "distinct q" "follows q x y"
  shows "x \<in> set q" "y \<in> set q" "x \<noteq> y" "y \<noteq> hd q" "x \<noteq> last q"
proof -
  have y: "y \<in> set (tl q)" "x \<in> set q" using follows_in assms(2) by blast+
  show "x \<in> set q" "y \<in> set q" using y by (cases q; auto)+
  show "y \<noteq> hd q" using y(1) assms(1) by (cases q) auto
  show "x \<noteq> last q"
    using assms
  proof (induction q)
    case (Cons a q)
    then show ?case using follows_in [of q x y] by (cases q) auto
  qed simp
  show "x \<noteq> y"
    using assms
  proof (induction q)
    case (Cons a q)
    then show ?case by (cases q) auto
  qed simp
qed

lemma follows_unique:
  assumes "distinct q"
  shows "follows q x y \<Longrightarrow> follows q x' y \<Longrightarrow> x = x'" "follows q x y \<Longrightarrow> follows q x y' \<Longrightarrow> y = y'"
  using assms
proof (induction q)
  case (Cons a q)
  { case 1
    then show ?case using Cons.IH(1) follows_in [of q] by (cases q) auto
  next
    case 2
    then show ?case using Cons.IH(2) follows_in [of q] by (cases q) auto }
qed simp_all

lemma in_queue: "i \<in> set q \<Longrightarrow> i = hd q \<or> (\<exists>x. follows q x i)"
proof (induction q)
  case (Cons a q)
  then show ?case by (cases q) auto
qed simp

lemma place_in_queue:
  assumes "mcs_rel s q" "queued (mc_pc s i)"
  obtains "q \<noteq> []" "i = hd q" "owner s i" | x where "follows q x i" "waits s x i"
proof -
  have i: "i \<in> set q" using assms by (simp add: mcs_rel_def)
  then have ne: "q \<noteq> []" by auto
  from in_queue [OF i] show ?thesis
  proof
    assume "i = hd q"
    then show ?thesis using that(1) ne assms(1) by (simp add: mcs_rel_def)
  next
    assume "\<exists>x. follows q x i"
    then show ?thesis using that(2) assms(1) by (auto simp: mcs_rel_def)
  qed
qed

lemma follows_waits:
  "mcs_rel s q \<Longrightarrow> follows q x y \<Longrightarrow> waits s x y"
  "mcs_rel s q \<Longrightarrow> follows q x y \<Longrightarrow> mc_next s x = (if mc_pc s y = McWait then Some y else None)"
  by (auto simp: mcs_rel_def)

section \<open>Simulation\<close>

text \<open>A step of a thread that is not queued and does not join.\<close>

lemma rel_outside:
  assumes "mcs_rel s q" "\<not> queued (mc_pc s i)" "\<not> queued p" "p = McSwap \<longrightarrow> n = None"
  shows "mcs_rel (goto i p (s\<lparr>mc_next := (mc_next s)(i := n)\<rparr>)) q"
proof -
  have i: "i \<notin> set q" using assms by (auto simp: mcs_rel_def)
  then have ne: "hd q \<noteq> i" "last q \<noteq> i" if "q \<noteq> []" using that by auto
  have f: "x \<noteq> i \<and> y \<noteq> i" if "follows q x y" for x y
    using follows_facts [OF _ that] assms(1) i by (auto simp: mcs_rel_def)
  show ?thesis
    using assms ne f unfolding mcs_rel_def goto_def by (auto simp: owner_def waits_def queued_def)
qed

text \<open>A step of a queued thread that stays at its place: only its own state changes.\<close>

lemma rel_owner:
  assumes "mcs_rel s q" "q \<noteq> []" "i = hd q" "p \<in> {McCritical, McReadNext, McCas, McAwaitNext, McHandOver}"
    "p = McHandOver \<longrightarrow> mc_next s i \<noteq> None"
  shows "mcs_rel (goto i p s) q"
proof -
  have f: "y \<noteq> i" if "follows q x y" for x y
    using follows_facts [OF _ that] assms(1,3) by (auto simp: mcs_rel_def)
  have i: "i \<in> set q" using assms(2,3) by simp
  show ?thesis
    using assms f i unfolding mcs_rel_def goto_def by (auto simp: owner_def waits_def queued_def)
qed

lemma rel_set_locked:
  assumes r: "mcs_rel s q" and pc: "mc_pc s i = McSetLocked p"
  shows "mcs_rel (goto i (McLink p) (s\<lparr>mc_locked := (mc_locked s)(i := True)\<rparr>)) q"
proof -
  have q: "queued (mc_pc s i)" "\<not> owner s i" using pc by (simp_all add: queued_def owner_def)
  obtain x where x: "follows q x i" "waits s x i" by (rule place_in_queue [OF r q(1)]) (use q(2) in auto)
  have p: "x = p" using x(2) pc by (simp add: waits_def)
  have d: "distinct q" using r by (simp add: mcs_rel_def)
  have i: "i \<in> set q" "hd q \<noteq> i" using follows_facts [OF d x(1)] by auto
  let ?t = "goto i (McLink p) (s\<lparr>mc_locked := (mc_locked s)(i := True)\<rparr>)"
  show ?thesis
    unfolding mcs_rel_def
  proof (intro conjI allI impI)
    fix a b assume ab: "follows q a b"
    have "a = p" if "b = i" using follows_unique(1) [OF d x(1)] ab that p by blast
    then show "waits ?t a b" using follows_waits(1) [OF r ab] by (auto simp: goto_def waits_def)
    show "mc_next ?t a = (if mc_pc ?t b = McWait then Some b else None)"
      using follows_waits(2) [OF r ab] pc by (auto simp: goto_def)
  qed (use r i pc in \<open>auto simp: mcs_rel_def goto_def owner_def queued_def split: if_splits\<close>)
qed

lemma rel_link:
  assumes r: "mcs_rel s q" and pc: "mc_pc s i = McLink p"
  shows "mcs_rel (goto i McWait (s\<lparr>mc_next := (mc_next s)(p := Some i)\<rparr>)) q"
proof -
  have q: "queued (mc_pc s i)" "\<not> owner s i" using pc by (simp_all add: queued_def owner_def)
  obtain x where x: "follows q x i" "waits s x i" by (rule place_in_queue [OF r q(1)]) (use q(2) in auto)
  have p: "x = p" using x(2) pc by (simp add: waits_def)
  have d: "distinct q" using r by (simp add: mcs_rel_def)
  note f = follows_facts [OF d x(1)]
  have u: "y = i" if "follows q p y" for y using follows_unique(2) [OF d _ x(1)] that p by blast
  have v: "y = p" if "follows q y i" for y using follows_unique(1) [OF d _ x(1)] that p by blast
  have sw: "mc_pc s p \<noteq> McSwap" using f(1) p r by (auto simp: mcs_rel_def queued_def)
  have lk: "mc_locked s i" using x(2) pc by (auto simp: waits_def)
  show ?thesis
    unfolding mcs_rel_def
  proof (intro conjI allI impI)
    fix a b assume ab: "follows q a b"
    show "waits (goto i McWait (s\<lparr>mc_next := (mc_next s)(p := Some i)\<rparr>)) a b"
      using follows_waits(1) [OF r ab] lk by (auto simp: goto_def waits_def)
    show "mc_next (goto i McWait (s\<lparr>mc_next := (mc_next s)(p := Some i)\<rparr>)) a =
        (if mc_pc (goto i McWait (s\<lparr>mc_next := (mc_next s)(p := Some i)\<rparr>)) b = McWait then Some b else None)"
      using follows_waits(2) [OF r ab] ab u v by (auto simp: goto_def)
  qed (use r f p sw lk pc in \<open>auto simp: mcs_rel_def goto_def owner_def queued_def split: if_splits\<close>)
qed

lemma rel_swap:
  assumes r: "mcs_rel s q" and pc: "mc_pc s i = McSwap"
  shows "i \<notin> set q" "mcs_rel (goto i (case mc_tail s of None \<Rightarrow> McCritical | Some p \<Rightarrow> McSetLocked p) (s\<lparr>mc_tail := Some i\<rparr>)) (q @ [i])"
proof -
  show i: "i \<notin> set q" using r pc by (auto simp: mcs_rel_def queued_def)
  have f: "x \<noteq> i \<and> y \<noteq> i" if "follows q x y" for x y
    using follows_facts [OF _ that] r i by (auto simp: mcs_rel_def)
  show "mcs_rel (goto i (case mc_tail s of None \<Rightarrow> McCritical | Some p \<Rightarrow> McSetLocked p) (s\<lparr>mc_tail := Some i\<rparr>)) (q @ [i])"
  proof (cases "q = []")
    case True
    then show ?thesis using r pc i by (auto simp: mcs_rel_def goto_def owner_def queued_def)
  next
    case False
    then have t: "mc_tail s = Some (last q)" and ne: "hd q \<noteq> i" "last q \<noteq> i" using r i by (auto simp: mcs_rel_def)
    show ?thesis
      using r pc i f False ne unfolding mcs_rel_def goto_def t
      by (auto simp: owner_def queued_def waits_def follows_snoc)
  qed
qed

lemma rel_leave_alone:
  assumes r: "mcs_rel s q" and q: "q \<noteq> []" "i = hd q" and t: "mc_tail s = Some i"
  shows "q = [i]" "mcs_rel (goto i McIdle (s\<lparr>mc_tail := None\<rparr>)) []"
proof -
  have "hd q = last q" "distinct q" using r q t by (simp_all add: mcs_rel_def)
  then show e: "q = [i]" using q by (cases q) (auto split: if_splits)
  have "queued (mc_pc s j) \<longleftrightarrow> j = i" for j using r e by (auto simp: mcs_rel_def)
  then show "mcs_rel (goto i McIdle (s\<lparr>mc_tail := None\<rparr>)) []"
    using r unfolding mcs_rel_def goto_def by (auto simp: queued_def)
qed

lemma rel_hand_over:
  assumes r: "mcs_rel s q" and q: "q \<noteq> []" "i = hd q" and n: "mc_next s i = Some j"
  shows "mcs_rel (goto i McIdle (s\<lparr>mc_locked := (mc_locked s)(j := False)\<rparr>)) (tl q)"
proof -
  have d: "distinct q" using r by (simp add: mcs_rel_def)
  have "tl q \<noteq> []"
  proof
    assume "tl q = []"
    then have "last q = i" using q by (cases q) auto
    then show False using r q(1) n by (simp add: mcs_rel_def)
  qed
  then obtain y q' where e: "q = i # y # q'" using q by (cases q; cases "tl q") auto
  have "mc_pc s y = McWait" "j = y" using r e n by (auto simp: mcs_rel_def split: if_splits)
  note y = this
  have f: "a \<noteq> i \<and> b \<noteq> i \<and> b \<noteq> y" if "follows (y # q') a b" for a b
    using follows_facts [OF _ that] d e by auto
  have m: "k \<in> set (y # q') \<longleftrightarrow> queued (mc_pc s k) \<and> k \<noteq> i" for k using r d e by (auto simp: mcs_rel_def)
  show ?thesis
    using r y d f m unfolding mcs_rel_def goto_def e by (auto simp: owner_def queued_def waits_def)
qed

text \<open>Every step of the lock is a step of the queue.\<close>

lemma mcs_lock_sim:
  assumes r: "mcs_rel s q"
  shows "\<exists>q'. queue_step q q' \<and> mcs_rel (mcs_lock_step i s) q'"
proof (cases "mc_pc s i")
  case McIdle
  then have "mcs_rel (goto i McClearNext s) q" using rel_outside [OF r, of i McClearNext "mc_next s i"] by (simp add: queued_def)
  then show ?thesis using McIdle by (auto simp: mcs_lock_step_def intro: queue_stay)
next
  case McClearNext
  then show ?thesis using rel_outside [OF r, of i McSwap None] by (auto simp: mcs_lock_step_def queued_def intro: queue_stay)
next
  case McSwap
  then show ?thesis using rel_swap [OF r McSwap] by (auto simp: mcs_lock_step_def intro: queue_join)
next
  case (McSetLocked p)
  then show ?thesis using rel_set_locked [OF r McSetLocked] by (auto simp: mcs_lock_step_def intro: queue_stay)
next
  case (McLink p)
  then show ?thesis using rel_link [OF r McLink] by (auto simp: mcs_lock_step_def intro: queue_stay)
next
  case McWait
  have "mcs_rel (goto i McCritical s) q" if nl: "\<not> mc_locked s i"
  proof (rule place_in_queue [OF r, of i])
    show "queued (mc_pc s i)" using McWait by (simp add: queued_def)
    show "mcs_rel (goto i McCritical s) q" if "q \<noteq> []" "i = hd q" using rel_owner [OF r that] by simp
    show "mcs_rel (goto i McCritical s) q" if "waits s x i" for x using that nl McWait by (simp add: waits_def)
  qed
  then show ?thesis using McWait r by (auto simp: mcs_lock_step_def intro: queue_stay)
qed (use r in \<open>auto simp: mcs_lock_step_def intro: queue_stay\<close>)

lemma owner_at_head:
  assumes "mcs_rel s q" "mc_pc s i \<in> {McCritical, McReadNext, McCas, McAwaitNext, McHandOver}"
  shows "q \<noteq> [] \<and> i = hd q"
  by (rule place_in_queue [OF assms(1), of i]) (use assms(2) in \<open>auto simp: queued_def waits_def\<close>)

lemma mcs_unlock_sim:
  assumes r: "mcs_rel s q"
  shows "\<exists>q'. queue_step q q' \<and> mcs_rel (mcs_unlock_step i s) q'"
proof (cases "mc_pc s i \<in> {McCritical, McReadNext, McCas, McAwaitNext, McHandOver}")
  case False
  then have "mcs_unlock_step i s = s" by (cases "mc_pc s i") (auto simp: mcs_unlock_step_def)
  then show ?thesis using r by (auto intro: queue_stay)
next
  case True
  then have h: "q \<noteq> []" "i = hd q" using owner_at_head [OF r] by auto
  note stay = rel_owner [OF r h]
  have leave: "queue_step q (tl q)" using h queue_leave [of "hd q" "tl q"] by simp
  have "mcs_rel (mcs_unlock_step i s) q \<or> mcs_rel (mcs_unlock_step i s) (tl q)"
    using True
  proof (elim insertE, goal_cases)
    case 3
    then show ?case
      using stay rel_leave_alone [OF r h] by (cases "mc_tail s = Some i") (auto simp: mcs_unlock_step_def)
  next
    case 5
    then obtain j where "mc_next s i = Some j" using r by (auto simp: mcs_rel_def)
    then show ?case using 5 rel_hand_over [OF r h] by (auto simp: mcs_unlock_step_def)
  qed (use stay r in \<open>auto simp: mcs_unlock_step_def\<close>)
  then show ?thesis using leave by (auto intro: queue_stay)
qed

definition mcs_start :: "mcs \<Rightarrow> bool" where
  "mcs_start s \<longleftrightarrow> s = Spinlock_mcs_new"

definition mcs_inv :: "mcs \<Rightarrow> bool" where
  "mcs_inv s \<longleftrightarrow> (\<exists>q. mcs_rel s q)"

interpretation mcs: mutual_exclusion mcs_start mcs_step mcs_inv "\<lambda>s i. mc_pc s i = McCritical"
proof unfold_locales
  show "mcs_inv s" if "mcs_start s" for s
  proof -
    have "mcs_rel Spinlock_mcs_new []" by (simp add: mcs_rel_def Spinlock_mcs_new_def queued_def)
    then show ?thesis using that by (auto simp: mcs_start_def mcs_inv_def)
  qed
  show "mcs_inv t" if "mcs_step s t" "mcs_inv s" for s t
    using that mcs_lock_sim mcs_unlock_sim unfolding mcs_step_def mcs_inv_def by metis
  show "i = j" if "mcs_inv s" "mc_pc s i = McCritical" "mc_pc s j = McCritical" for s i j
    using that owner_at_head unfolding mcs_inv_def by blast
qed

section \<open>Properties\<close>

text \<open>
  C8. The MCS lock implements the queue of its callers: from the state related to a queue,
  every step of every thread is a step of the queue (nothing, a thread joins at the end, the
  first leaves), the thread in the critical section is the first of the queue, and no thread
  hands the lock over through a null pointer. So at most one thread is in the critical section
  and the lock is granted in the order in which the threads exchanged the tail pointer.
\<close>

theorem Spinlock_mcs_is_queue:
  "mcs_rel Spinlock_mcs_new [] \<and>
   (\<forall>s q t. mcs_rel s q \<and> mcs_step s t \<longrightarrow> (\<exists>q'. queue_step q q' \<and> mcs_rel t q')) \<and>
   (\<forall>s q i. mcs_rel s q \<longrightarrow> (mc_pc s i = McCritical \<longrightarrow> q \<noteq> [] \<and> hd q = i) \<and> \<not> mc_crashed s) \<and>
   (\<forall>s i j. reach mcs_start mcs_step s \<and> mc_pc s i = McCritical \<and> mc_pc s j = McCritical \<longrightarrow> i = j)"
proof (intro conjI allI impI; (elim conjE)?)
  show "mcs_rel Spinlock_mcs_new []" by (simp add: mcs_rel_def Spinlock_mcs_new_def queued_def)
  show "\<exists>q'. queue_step q q' \<and> mcs_rel t q'" if "mcs_rel s q" "mcs_step s t" for s q t
    using that mcs_lock_sim mcs_unlock_sim unfolding mcs_step_def by metis
  show "q \<noteq> []" "hd q = i" if "mcs_rel s q" "mc_pc s i = McCritical" for s q i
    using owner_at_head [OF that(1), of i] that(2) by auto
  show "\<not> mc_crashed s" if "mcs_rel s q" for s q using that by (simp add: mcs_rel_def)
  show "i = j" if "reach mcs_start mcs_step s" "mc_pc s i = McCritical" "mc_pc s j = McCritical" for s i j
    using mcs.exclusive [OF that] .
qed

theorem Spinlock_mcs_is_queue_witness:
  "\<exists>q. queue_step [] q \<and> mcs_rel (mcs_lock_step 3 Spinlock_mcs_new) q"
  using Spinlock_mcs_is_queue unfolding mcs_step_def by blast

end
