(* ===== verification/Thread_Barrier.thy ===== *)
theory Thread_Barrier
  imports Prelude
begin

text \<open>
  \<^verbatim>\<open>src/thread_barrier.hpp\<close>: the reusable barrier of two semaphores. The \<open>n\<close> participants call
  \<open>wait\<close> again and again; a step is one semaphore operation or one access to \<open>counter_\<close>. A thread
  at a semaphore that is zero does not move. How often a thread has arrived and departed is
  counted along.
\<close>

section \<open>State and steps\<close>

datatype barrier_pc = BarArrive | BarCountUp | BarPostArrival | BarDepart | BarCountDown | BarPostDeparture

record barrier =
  arrival :: nat
  departure :: nat
  bar_counter :: nat
  bar_pc :: "nat \<Rightarrow> barrier_pc"
  arrived :: "nat \<Rightarrow> nat"
  departed :: "nat \<Rightarrow> nat"

definition Barrier_new :: barrier where
  "Barrier_new =
     \<lparr>arrival = 1, departure = 0, bar_counter = 0, bar_pc = (\<lambda>_. BarArrive), arrived = (\<lambda>_. 0), departed = (\<lambda>_. 0)\<rparr>"

definition Barrier_wait_step :: "nat \<Rightarrow> nat \<Rightarrow> barrier \<Rightarrow> barrier" where
  "Barrier_wait_step n i s =
     (case bar_pc s i of
        BarArrive \<Rightarrow>
          if arrival s > 0 then s\<lparr>arrival := arrival s - 1, bar_pc := (bar_pc s)(i := BarCountUp)\<rparr> else s
      | BarCountUp \<Rightarrow>
          s\<lparr>bar_counter := bar_counter s + 1, bar_pc := (bar_pc s)(i := BarPostArrival),
            arrived := (arrived s)(i := arrived s i + 1)\<rparr>
      | BarPostArrival \<Rightarrow>
          (if bar_counter s < n then s\<lparr>arrival := arrival s + 1\<rparr> else s\<lparr>departure := departure s + 1\<rparr>)
            \<lparr>bar_pc := (bar_pc s)(i := BarDepart)\<rparr>
      | BarDepart \<Rightarrow>
          if departure s > 0 then s\<lparr>departure := departure s - 1, bar_pc := (bar_pc s)(i := BarCountDown)\<rparr> else s
      | BarCountDown \<Rightarrow> s\<lparr>bar_counter := bar_counter s - 1, bar_pc := (bar_pc s)(i := BarPostDeparture)\<rparr>
      | BarPostDeparture \<Rightarrow>
          (if bar_counter s > 0 then s\<lparr>departure := departure s + 1\<rparr> else s\<lparr>arrival := arrival s + 1\<rparr>)
            \<lparr>bar_pc := (bar_pc s)(i := BarArrive), departed := (departed s)(i := departed s i + 1)\<rparr>)"

definition barrier_start :: "barrier \<Rightarrow> bool" where
  "barrier_start s \<longleftrightarrow> s = Barrier_new"

definition barrier_step :: "nat \<Rightarrow> barrier \<Rightarrow> barrier \<Rightarrow> bool" where
  "barrier_step n s t \<longleftrightarrow> (\<exists>i < n. t = Barrier_wait_step n i s)"

section \<open>The invariant\<close>

text \<open>The threads \<open>counter_\<close> counts, and those that hold the token of one of the semaphores.\<close>

definition counted :: "nat \<Rightarrow> barrier \<Rightarrow> nat set" where
  "counted n s = {i. i < n \<and> bar_pc s i \<in> {BarPostArrival, BarDepart, BarCountDown}}"

definition inside :: "barrier \<Rightarrow> nat \<Rightarrow> bool" where
  "inside s i \<longleftrightarrow> bar_pc s i \<noteq> BarArrive \<and> bar_pc s i \<noteq> BarDepart"

definition one_token :: "nat \<Rightarrow> barrier \<Rightarrow> bool" where
  "one_token n s \<longleftrightarrow>
     (arrival s + departure s = 1 \<and> (\<forall>i < n. \<not> inside s i)) \<or>
     (arrival s = 0 \<and> departure s = 0 \<and> (\<exists>i < n. \<forall>j < n. inside s j \<longleftrightarrow> j = i))"

text \<open>The round \<open>r\<close> is filling up, or emptying.\<close>

definition filling :: "nat \<Rightarrow> nat \<Rightarrow> barrier \<Rightarrow> bool" where
  "filling n r s \<longleftrightarrow> departure s = 0 \<and> (arrival s = 1 \<longrightarrow> card (counted n s) < n) \<and>
     (\<forall>i < n. departed s i = r \<and> bar_pc s i \<in> {BarArrive, BarCountUp, BarPostArrival, BarDepart} \<and>
        arrived s i = (if bar_pc s i \<in> {BarArrive, BarCountUp} then r else r + 1))"

definition emptying :: "nat \<Rightarrow> nat \<Rightarrow> barrier \<Rightarrow> bool" where
  "emptying n r s \<longleftrightarrow> arrival s = 0 \<and> (departure s = 1 \<longrightarrow> counted n s \<noteq> {}) \<and>
     (\<forall>i < n. arrived s i = r + 1 \<and> bar_pc s i \<in> {BarArrive, BarDepart, BarCountDown, BarPostDeparture} \<and>
        departed s i = (if bar_pc s i = BarArrive then r + 1 else r))"

definition barrier_inv :: "nat \<Rightarrow> barrier \<Rightarrow> bool" where
  "barrier_inv n s \<longleftrightarrow> n > 0 \<longrightarrow> one_token n s \<and> bar_counter s = card (counted n s) \<and> (\<exists>r. filling n r s \<or> emptying n r s)"

lemma finite_counted [simp]: "finite (counted n s)"
  by (simp add: counted_def)

lemma counted_le: "card (counted n s) \<le> n"
proof -
  have "counted n s \<subseteq> {..<n}" by (auto simp: counted_def)
  then show ?thesis using card_mono [of "{..<n}"] by simp
qed

lemma counted_full: "card (counted n s) = n \<longleftrightarrow> (\<forall>i < n. i \<in> counted n s)"
proof
  assume "card (counted n s) = n"
  moreover have "counted n s \<subseteq> {..<n}" by (auto simp: counted_def)
  ultimately have "counted n s = {..<n}" by (simp add: card_subset_eq)
  then show "\<forall>i < n. i \<in> counted n s" by auto
next
  assume "\<forall>i < n. i \<in> counted n s"
  then have "counted n s = {..<n}" by (auto simp: counted_def)
  then show "card (counted n s) = n" by simp
qed

lemma counted_pc:
  assumes "bar_pc t = (bar_pc s)(i := p)" "i < n"
  shows "counted n t = (if p \<in> {BarPostArrival, BarDepart, BarCountDown} then insert i (counted n s) else counted n s - {i})"
  using assms by (auto simp: counted_def)

lemma token_holder:
  assumes "one_token n s" "i < n" "inside s i"
  shows "arrival s = 0" "departure s = 0" "j < n \<Longrightarrow> inside s j \<longleftrightarrow> j = i"
  using assms by (auto simp: one_token_def)

text \<open>Taking the token of a semaphore, keeping it, giving it back.\<close>

lemma token_take:
  assumes "one_token n s" "i < n" "arrival s + departure s = 1" "arrival t = 0" "departure t = 0"
    "bar_pc t = (bar_pc s)(i := p)" "p \<noteq> BarArrive" "p \<noteq> BarDepart"
  shows "one_token n t"
  using assms by (auto simp: one_token_def inside_def)

lemma token_keep:
  assumes "one_token n s" "i < n" "inside s i" "arrival t = arrival s" "departure t = departure s"
    "bar_pc t = (bar_pc s)(i := p)" "p \<noteq> BarArrive" "p \<noteq> BarDepart"
  shows "one_token n t"
proof -
  have "\<forall>j < n. inside t j \<longleftrightarrow> j = i" using token_holder(3) [OF assms(1-3)] assms(6-8) by (auto simp: inside_def)
  then show ?thesis using token_holder(1,2) [OF assms(1-3)] assms(2,4,5) unfolding one_token_def by auto
qed

lemma token_give:
  assumes "one_token n s" "i < n" "inside s i" "arrival t + departure t = Suc (arrival s + departure s)"
    "bar_pc t = (bar_pc s)(i := p)" "p = BarArrive \<or> p = BarDepart"
  shows "one_token n t"
proof -
  have "\<forall>j < n. \<not> inside t j" using token_holder(3) [OF assms(1-3)] assms(5,6) by (auto simp: inside_def)
  then show ?thesis using token_holder(1,2) [OF assms(1-3)] assms(4) unfolding one_token_def by auto
qed

lemma inv_fill:
  assumes "one_token n t" "bar_counter t = card (counted n t)" "filling n r t"
  shows "barrier_inv n t"
  using assms by (auto simp: barrier_inv_def)

lemma inv_empty:
  assumes "one_token n t" "bar_counter t = card (counted n t)" "emptying n r t"
  shows "barrier_inv n t"
  using assms by (auto simp: barrier_inv_def)

lemma fill_step:
  assumes tok: "one_token n s" and cnt: "bar_counter s = card (counted n s)" and f: "filling n r s" and i: "i < n"
  shows "barrier_inv n (Barrier_wait_step n i s)"
proof -
  have i_pc: "bar_pc s i \<in> {BarArrive, BarCountUp, BarPostArrival, BarDepart}" and dep: "departure s = 0"
    using f i by (auto simp: filling_def)
  define t where "t = Barrier_wait_step n i s"
  consider (idle) "t = s"
    | (take) "bar_pc s i = BarArrive" "arrival s > 0"
    | (up) "bar_pc s i = BarCountUp" | (post) "bar_pc s i = BarPostArrival"
    using i_pc dep by (cases "arrival s > 0") (auto simp: t_def Barrier_wait_step_def)
  then have "barrier_inv n t"
  proof cases
    case idle
    then show ?thesis using inv_fill [OF tok cnt f] by simp
  next
    case take
    then have t: "t = s\<lparr>arrival := arrival s - 1, bar_pc := (bar_pc s)(i := BarCountUp)\<rparr>" and one: "arrival s = 1"
      using tok dep by (auto simp: t_def Barrier_wait_step_def one_token_def)
    have "i \<notin> counted n s" using take by (simp add: counted_def)
    then have c: "counted n t = counted n s" using counted_pc [of t s i BarCountUp n] i t by simp
    show ?thesis
      by (rule inv_fill [of n t r]) (use token_take [OF tok i, of t BarCountUp] t one dep cnt c f take in \<open>auto simp: filling_def\<close>)
  next
    case up
    then have t: "t = s\<lparr>bar_counter := bar_counter s + 1, bar_pc := (bar_pc s)(i := BarPostArrival), arrived := (arrived s)(i := arrived s i + 1)\<rparr>"
      by (simp add: t_def Barrier_wait_step_def)
    have ins: "inside s i" using up by (simp add: inside_def)
    have "i \<notin> counted n s" using up by (simp add: counted_def)
    then have c: "card (counted n t) = Suc (card (counted n s))" using counted_pc [of t s i BarPostArrival n] i t by simp
    show ?thesis
      by (rule inv_fill [of n t r])
        (use token_keep [OF tok i ins, of t BarPostArrival] token_holder [OF tok i ins] t cnt c f up in \<open>auto simp: filling_def\<close>)
  next
    case post
    have ins: "inside s i" using post by (simp add: inside_def)
    note h = token_holder [OF tok i ins]
    have ic: "i \<in> counted n s" using post i by (simp add: counted_def)
    show ?thesis
    proof (cases "bar_counter s < n")
      case True
      then have t: "t = s\<lparr>arrival := arrival s + 1, bar_pc := (bar_pc s)(i := BarDepart)\<rparr>"
        using post by (simp add: t_def Barrier_wait_step_def)
      have c: "counted n t = counted n s" using counted_pc [of t s i BarDepart n] i t ic by auto
      show ?thesis
        by (rule inv_fill [of n t r])
          (use token_give [OF tok i ins, of t BarDepart] h t cnt c f post True in \<open>auto simp: filling_def\<close>)
    next
      case False
      then have t: "t = s\<lparr>departure := departure s + 1, bar_pc := (bar_pc s)(i := BarDepart)\<rparr>"
        using post by (simp add: t_def Barrier_wait_step_def)
      have c: "counted n t = counted n s" using counted_pc [of t s i BarDepart n] i t ic by auto
      have "card (counted n s) = n" using False cnt counted_le [of n s] by simp
      then have all: "\<forall>j < n. j \<in> counted n s" by (simp add: counted_full)
      have other: "bar_pc s j = BarDepart" if "j < n" "j \<noteq> i" for j
        using all h(3) [OF that(1)] that f by (auto simp: counted_def inside_def filling_def)
      have arr: "arrived s j = r + 1 \<and> departed s j = r" if "j < n" for j
        using f that other [OF that] post by (cases "j = i") (auto simp: filling_def)
      show ?thesis
        by (rule inv_empty [of n t r])
          (use token_give [OF tok i ins, of t BarDepart] h t cnt c arr other ic in \<open>auto simp: emptying_def\<close>)
    qed
  qed
  then show ?thesis by (simp add: t_def)
qed

lemma empty_step:
  assumes tok: "one_token n s" and cnt: "bar_counter s = card (counted n s)" and e: "emptying n r s" and i: "i < n"
  shows "barrier_inv n (Barrier_wait_step n i s)"
proof -
  have i_pc: "bar_pc s i \<in> {BarArrive, BarDepart, BarCountDown, BarPostDeparture}" and arr0: "arrival s = 0"
    using e i by (auto simp: emptying_def)
  define t where "t = Barrier_wait_step n i s"
  consider (idle) "t = s"
    | (take) "bar_pc s i = BarDepart" "departure s > 0"
    | (down) "bar_pc s i = BarCountDown" | (post) "bar_pc s i = BarPostDeparture"
    using i_pc arr0 by (cases "departure s > 0") (auto simp: t_def Barrier_wait_step_def)
  then have "barrier_inv n t"
  proof cases
    case idle
    then show ?thesis using inv_empty [OF tok cnt e] by simp
  next
    case take
    then have t: "t = s\<lparr>departure := departure s - 1, bar_pc := (bar_pc s)(i := BarCountDown)\<rparr>" and one: "departure s = 1"
      using tok arr0 by (auto simp: t_def Barrier_wait_step_def one_token_def)
    have "i \<in> counted n s" using take i by (simp add: counted_def)
    then have c: "counted n t = counted n s" using counted_pc [of t s i BarCountDown n] i t by auto
    show ?thesis
      by (rule inv_empty [of n t r]) (use token_take [OF tok i, of t BarCountDown] t one arr0 cnt c e take in \<open>auto simp: emptying_def\<close>)
  next
    case down
    then have t: "t = s\<lparr>bar_counter := bar_counter s - 1, bar_pc := (bar_pc s)(i := BarPostDeparture)\<rparr>"
      by (simp add: t_def Barrier_wait_step_def)
    have ins: "inside s i" using down by (simp add: inside_def)
    have "i \<in> counted n s" using down i by (simp add: counted_def)
    then have c: "card (counted n t) = card (counted n s) - 1" using counted_pc [of t s i BarPostDeparture n] i t by simp
    show ?thesis
      by (rule inv_empty [of n t r])
        (use token_keep [OF tok i ins, of t BarPostDeparture] token_holder [OF tok i ins] t cnt c e down in \<open>auto simp: emptying_def\<close>)
  next
    case post
    have ins: "inside s i" using post by (simp add: inside_def)
    note h = token_holder [OF tok i ins]
    have ic: "i \<notin> counted n s" using post by (simp add: counted_def)
    show ?thesis
    proof (cases "bar_counter s > 0")
      case True
      then have t: "t = s\<lparr>departure := departure s + 1, bar_pc := (bar_pc s)(i := BarArrive), departed := (departed s)(i := departed s i + 1)\<rparr>"
        using post by (simp add: t_def Barrier_wait_step_def)
      have c: "counted n t = counted n s" using counted_pc [of t s i BarArrive n] i t ic by auto
      have "counted n s \<noteq> {}" using True cnt by auto
      then show ?thesis
        by (intro inv_empty [of n t r])
          (use token_give [OF tok i ins, of t BarArrive] h t cnt c e post in \<open>auto simp: emptying_def\<close>)
    next
      case False
      then have t: "t = s\<lparr>arrival := arrival s + 1, bar_pc := (bar_pc s)(i := BarArrive), departed := (departed s)(i := departed s i + 1)\<rparr>"
        using post by (simp add: t_def Barrier_wait_step_def)
      have c: "counted n t = counted n s" using counted_pc [of t s i BarArrive n] i t ic by auto
      have none: "counted n s = {}" using False cnt by simp
      have other: "bar_pc s j = BarArrive" if "j < n" "j \<noteq> i" for j
        using none h(3) [OF that(1)] that e by (auto simp: counted_def inside_def emptying_def)
      have arr: "arrived s j = r + 1" "departed s j = (if j = i then r else r + 1)" if "j < n" for j
        using e that other [OF that] post by (auto simp: emptying_def)
      show ?thesis
        by (rule inv_fill [of n t "r + 1"])
          (use token_give [OF tok i ins, of t BarArrive] h t cnt c arr other none i in \<open>auto simp: filling_def\<close>)
    qed
  qed
  then show ?thesis by (simp add: t_def)
qed

interpretation bar: transition_system barrier_start "barrier_step n" "barrier_inv n" for n
proof unfold_locales
  show "barrier_inv n s" if "barrier_start s" for s
    using that by (auto simp: barrier_start_def barrier_inv_def Barrier_new_def one_token_def inside_def filling_def counted_def)
  show "barrier_inv n t" if "barrier_step n s t" "barrier_inv n s" for s t
    using that fill_step empty_step unfolding barrier_step_def barrier_inv_def [of n s] by fastforce
qed

text \<open>Some thread can always move.\<close>

lemma barrier_moves:
  assumes "barrier_inv n s" "n > 0"
  shows "\<exists>i < n. Barrier_wait_step n i s \<noteq> s"
proof -
  have tok: "one_token n s" and ph: "\<exists>r. filling n r s \<or> emptying n r s" using assms by (auto simp: barrier_inv_def)
  have moves: "Barrier_wait_step n i s \<noteq> s" if "bar_pc (Barrier_wait_step n i s) i \<noteq> bar_pc s i" for i using that by auto
  show ?thesis
  proof (cases "\<exists>i < n. inside s i")
    case True
    then obtain i where i: "i < n" "inside s i" by blast
    then have "bar_pc (Barrier_wait_step n i s) i \<noteq> bar_pc s i"
      by (cases "bar_pc s i") (auto simp: Barrier_wait_step_def inside_def)
    then show ?thesis using moves i(1) by blast
  next
    case False
    then have one: "arrival s + departure s = 1" using tok by (auto simp: one_token_def)
    from ph show ?thesis
    proof (elim exE disjE)
      fix r assume f: "filling n r s"
      then have "arrival s = 1" "card (counted n s) \<noteq> n" using one by (auto simp: filling_def)
      then obtain i where i: "i < n" "i \<notin> counted n s" by (auto simp: counted_full)
      then have "bar_pc s i = BarArrive" using False f by (auto simp: counted_def filling_def inside_def)
      then have "bar_pc (Barrier_wait_step n i s) i \<noteq> bar_pc s i" using \<open>arrival s = 1\<close> by (simp add: Barrier_wait_step_def)
      then show ?thesis using moves i(1) by blast
    next
      fix r assume e: "emptying n r s"
      then have "departure s = 1" "counted n s \<noteq> {}" using one by (auto simp: emptying_def)
      then obtain i where i: "i < n" "i \<in> counted n s" by (auto simp: counted_def)
      then have "bar_pc s i = BarDepart" using False e by (auto simp: counted_def emptying_def inside_def)
      then have "bar_pc (Barrier_wait_step n i s) i \<noteq> bar_pc s i" using \<open>departure s = 1\<close> by (simp add: Barrier_wait_step_def)
      then show ?thesis using moves i(1) by blast
    qed
  qed
qed

section \<open>Properties\<close>

text \<open>
  C12. In every interleaving of \<open>n\<close> participants that use the barrier over and over: no thread
  has returned from its \<open>k\<close>-th \<open>wait\<close> before every thread has entered its \<open>k\<close>-th, no thread is
  more than one round ahead of another, and some thread can always make a step.
\<close>

theorem Barrier_separates_rounds:
  assumes "reach barrier_start (barrier_step n) s" "n > 0"
  shows "(\<forall>i < n. \<forall>j < n. departed s i \<le> arrived s j \<and> arrived s i \<le> arrived s j + 1) \<and>
    (\<exists>i < n. Barrier_wait_step n i s \<noteq> s)"
proof -
  have inv: "barrier_inv n s" by (rule bar.reach_invar [OF assms(1)])
  then obtain r where "filling n r s \<or> emptying n r s" using assms(2) by (auto simp: barrier_inv_def)
  then have "\<forall>i < n. \<forall>j < n. departed s i \<le> arrived s j \<and> arrived s i \<le> arrived s j + 1"
    by (auto simp: filling_def emptying_def)
  then show ?thesis using barrier_moves [OF inv assms(2)] by blast
qed

theorem Barrier_separates_rounds_witness:
  "\<exists>i < 2. Barrier_wait_step 2 i (Barrier_wait_step 2 0 Barrier_new) \<noteq> Barrier_wait_step 2 0 Barrier_new"
proof -
  have "reach barrier_start (barrier_step 2) Barrier_new" by (rule reach_start) (simp add: barrier_start_def)
  then have "reach barrier_start (barrier_step 2) (Barrier_wait_step 2 0 Barrier_new)"
    by (rule reach_step) (auto simp: barrier_step_def intro: exI [of _ 0])
  from Barrier_separates_rounds [OF this] show ?thesis by simp
qed

end
