(* ===== verification/Thread_Pool.thy ===== *)
theory Thread_Pool
  imports Prelude "HOL-Library.Multiset"
begin

text \<open>
  \<^verbatim>\<open>src/thread_pool_normal.cpp\<close> and \<^verbatim>\<open>src/thread_pool_fast.cpp\<close>. A step is one section under the
  pool's mutex, or the end of a task. The lists \<open>added\<close>, \<open>started\<close> (\<open>dispatched\<close>) and \<open>finished\<close>
  record the calls of \<open>addTask\<close>, the tasks given to workers and those that are done, in order.
\<close>

section \<open>The normal pool\<close>

datatype 't normal_pc = NwWait | NwRun 't | NwExit

record 't normal_pool =
  task_queue :: "'t list"
  be_stop :: bool
  nw_pc :: "nat \<Rightarrow> 't normal_pc"
  n_added :: "'t list"
  n_started :: "'t list"
  n_finished :: "'t list"

definition ThreadPoolNormal_new :: "'t normal_pool" where
  "ThreadPoolNormal_new =
     \<lparr>task_queue = [], be_stop = False, nw_pc = (\<lambda>_. NwWait), n_added = [], n_started = [], n_finished = []\<rparr>"

definition Normal_addTask :: "'t \<Rightarrow> 't normal_pool \<Rightarrow> 't normal_pool" where
  "Normal_addTask t s = s\<lparr>task_queue := task_queue s @ [t], n_added := n_added s @ [t]\<rparr>"

definition Normal_count :: "'t normal_pool \<Rightarrow> nat" where
  "Normal_count s = length (task_queue s)"

text \<open>The part of \<open>stop\<close> under the mutex; then it joins the workers.\<close>

definition Normal_stop :: "'t normal_pool \<Rightarrow> 't normal_pool" where
  "Normal_stop s = s\<lparr>be_stop := True\<rparr>"

text \<open>
  The destructor: \<open>stop\<close> unless that was done, then the queued tasks are dropped; those \<open>once\<close>
  tasks among them are deleted (returned here).
\<close>

definition Normal_destroy :: "('t \<Rightarrow> bool) \<Rightarrow> 't normal_pool \<Rightarrow> 't list \<times> 't normal_pool" where
  "Normal_destroy once s =
     (let s1 = (if be_stop s then s else Normal_stop s)
      in (filter once (task_queue s1), s1\<lparr>task_queue := []\<rparr>))"

definition Normal_worker :: "nat \<Rightarrow> 't normal_pool \<Rightarrow> 't normal_pool" where
  "Normal_worker i s =
     (case nw_pc s i of
        NwWait \<Rightarrow>
          if be_stop s then s\<lparr>nw_pc := (nw_pc s)(i := NwExit)\<rparr>
          else (case task_queue s of
                  [] \<Rightarrow> s
                | t # ts \<Rightarrow> s\<lparr>task_queue := ts, nw_pc := (nw_pc s)(i := NwRun t), n_started := n_started s @ [t]\<rparr>)
      | NwRun t \<Rightarrow> s\<lparr>nw_pc := (nw_pc s)(i := NwWait), n_finished := n_finished s @ [t]\<rparr>
      | NwExit \<Rightarrow> s)"

inductive normal_step :: "nat \<Rightarrow> 't normal_pool \<Rightarrow> 't normal_pool \<Rightarrow> bool" for n :: nat where
  normal_add: "normal_step n s (Normal_addTask t s)"
| normal_stop: "normal_step n s (Normal_stop s)"
| normal_work: "i < n \<Longrightarrow> normal_step n s (Normal_worker i s)"

definition normal_start :: "'t normal_pool \<Rightarrow> bool" where
  "normal_start s \<longleftrightarrow> s = ThreadPoolNormal_new"

definition normal_holds :: "'t normal_pool \<Rightarrow> nat \<Rightarrow> 't multiset" where
  "normal_holds s i = (case nw_pc s i of NwRun t \<Rightarrow> {#t#} | _ \<Rightarrow> {#})"

definition normal_inv :: "nat \<Rightarrow> 't normal_pool \<Rightarrow> bool" where
  "normal_inv n s \<longleftrightarrow> n_added s = n_started s @ task_queue s \<and>
     mset (n_started s) = mset (n_finished s) + (\<Sum>i < n. normal_holds s i) \<and>
     (\<forall>i. nw_pc s i = NwExit \<longrightarrow> be_stop s)"

text \<open>Changing what one worker holds.\<close>

lemma sum_update:
  fixes f g :: "nat \<Rightarrow> 'a::comm_monoid_add"
  assumes "i < n" "\<And>j. j \<noteq> i \<Longrightarrow> g j = f j"
  shows "(\<Sum>j < n. g j) + f i = (\<Sum>j < n. f j) + g i"
proof -
  have "(\<Sum>j < n. h j) = h i + (\<Sum>j \<in> {..<n} - {i}. h j)" for h :: "nat \<Rightarrow> 'a"
    using assms(1) by (intro sum.remove) auto
  moreover have "(\<Sum>j \<in> {..<n} - {i}. g j) = (\<Sum>j \<in> {..<n} - {i}. f j)"
    using assms(2) by (intro sum.cong) auto
  ultimately show ?thesis by (metis (no_types, lifting) add.assoc add.commute)
qed

lemma Normal_worker_inv:
  assumes inv: "normal_inv n s" and i: "i < n"
  shows "normal_inv n (Normal_worker i s)"
proof -
  define t where "t = Normal_worker i s"
  have other: "normal_holds t j = normal_holds s j" if "j \<noteq> i" for j
    using that by (auto simp: t_def Normal_worker_def normal_holds_def split: normal_pc.splits list.splits)
  have u: "(\<Sum>j < n. normal_holds t j) + normal_holds s i = (\<Sum>j < n. normal_holds s j) + normal_holds t i"
    by (rule sum_update [OF i other])
  show ?thesis
  proof (cases "nw_pc s i")
    case NwWait
    show ?thesis
    proof (cases "be_stop s \<or> task_queue s = []")
      case True
      then have "normal_holds t i = normal_holds s i" "n_started t = n_started s" "n_finished t = n_finished s"
        "n_added t = n_added s" "task_queue t = task_queue s" "be_stop t = be_stop s"
        "\<forall>j. nw_pc t j = NwExit \<longrightarrow> nw_pc s j = NwExit \<or> be_stop s"
        using NwWait by (auto simp: t_def Normal_worker_def normal_holds_def)
      then show ?thesis using inv u by (auto simp: normal_inv_def t_def [symmetric])
    next
      case False
      then obtain a as where q: "task_queue s = a # as" "\<not> be_stop s" by (cases "task_queue s") auto
      then have "normal_holds t i = {#a#}" "normal_holds s i = {#}" "n_started t = n_started s @ [a]" "n_finished t = n_finished s"
        "n_added t = n_added s" "task_queue t = as" "be_stop t = be_stop s" "\<forall>j. nw_pc t j = NwExit \<longrightarrow> nw_pc s j = NwExit"
        using NwWait by (auto simp: t_def Normal_worker_def normal_holds_def)
      then show ?thesis using inv u q by (auto simp: normal_inv_def t_def [symmetric])
    qed
  next
    case (NwRun a)
    then have "normal_holds t i = {#}" "normal_holds s i = {#a#}" "n_started t = n_started s" "n_finished t = n_finished s @ [a]"
        "n_added t = n_added s" "task_queue t = task_queue s" "be_stop t = be_stop s" "\<forall>j. nw_pc t j = NwExit \<longrightarrow> nw_pc s j = NwExit"
      by (auto simp: t_def Normal_worker_def normal_holds_def)
    then show ?thesis using inv u by (auto simp: normal_inv_def t_def [symmetric])
  next
    case NwExit
    then show ?thesis using inv by (simp add: Normal_worker_def)
  qed
qed

interpretation np: transition_system normal_start "normal_step n" "normal_inv n" for n
proof unfold_locales
  show "normal_inv n s" if "normal_start s" for s
    using that by (auto simp: normal_start_def normal_inv_def ThreadPoolNormal_new_def normal_holds_def)
  show "normal_inv n t" if "normal_step n s t" "normal_inv n s" for s t
    using that
  proof cases
    case (normal_work i)
    then show ?thesis using Normal_worker_inv that(2) by blast
  qed (auto simp: normal_inv_def Normal_addTask_def Normal_stop_def normal_holds_def)
qed

section \<open>The fast pool\<close>

text \<open>
  A task is \<open>Some t\<close>, or \<open>None\<close> for the null task that ends a worker. The member \<open>f_last\<close> is the
  thread-local \<open>last_worker_\<close>.
\<close>

datatype 't fast_pc = FwWait | FwRun 't | FwExit

record 't fast_pool =
  dispatch_queue :: "'t option list"
  free_workers :: "nat list"
  fw_has_task :: "nat \<Rightarrow> bool"
  fw_task :: "nat \<Rightarrow> 't option"
  fw_pc :: "nat \<Rightarrow> 't fast_pc"
  f_last :: "nat \<Rightarrow> bool"
  f_added :: "'t option list"
  f_dispatched :: "'t option list"
  f_finished :: "'t option list"

definition assignTask :: "nat \<Rightarrow> 't option \<Rightarrow> 't fast_pool \<Rightarrow> 't fast_pool" where
  "assignTask w t s =
     s\<lparr>fw_task := (fw_task s)(w := t), fw_has_task := (fw_has_task s)(w := True), f_dispatched := f_dispatched s @ [t]\<rparr>"

definition queueWorker :: "nat \<Rightarrow> 't fast_pool \<Rightarrow> 't fast_pool" where
  "queueWorker w s =
     (case dispatch_queue s of
        t # ts \<Rightarrow> assignTask w t (s\<lparr>dispatch_queue := ts\<rparr>)
      | [] \<Rightarrow> s\<lparr>free_workers := w # free_workers s\<rparr>)"

definition Fast_addTask :: "'t option \<Rightarrow> 't fast_pool \<Rightarrow> 't fast_pool" where
  "Fast_addTask t s =
     (let s1 = s\<lparr>f_added := f_added s @ [t]\<rparr>
      in case free_workers s1 of
           w # ws \<Rightarrow> assignTask w t (s1\<lparr>free_workers := ws\<rparr>)
         | [] \<Rightarrow> s1\<lparr>dispatch_queue := dispatch_queue s1 @ [t]\<rparr>)"

definition ThreadPoolFast_new :: "nat \<Rightarrow> 't fast_pool" where
  "ThreadPoolFast_new n =
     fold queueWorker [0..<n]
       \<lparr>dispatch_queue = [], free_workers = [], fw_has_task = (\<lambda>_. False), fw_task = (\<lambda>_. None), fw_pc = (\<lambda>_. FwWait),
        f_last = (\<lambda>_. False), f_added = [], f_dispatched = [], f_finished = []\<rparr>"

definition Fast_worker :: "nat \<Rightarrow> 't fast_pool \<Rightarrow> 't fast_pool" where
  "Fast_worker i s =
     (case fw_pc s i of
        FwWait \<Rightarrow>
          if \<not> fw_has_task s i then s
          else let s1 = s\<lparr>fw_has_task := (fw_has_task s)(i := False)\<rparr>
               in (case fw_task s i of
                     None \<Rightarrow> s1\<lparr>fw_pc := (fw_pc s1)(i := FwExit), f_finished := f_finished s1 @ [None]\<rparr>
                   | Some t \<Rightarrow> s1\<lparr>fw_pc := (fw_pc s1)(i := FwRun t)\<rparr>)
      | FwRun t \<Rightarrow>
          let s1 = s\<lparr>f_finished := f_finished s @ [Some t]\<rparr>
          in if f_last s i then s1\<lparr>fw_pc := (fw_pc s1)(i := FwExit)\<rparr>
             else queueWorker i (s1\<lparr>fw_pc := (fw_pc s1)(i := FwWait)\<rparr>)
      | FwExit \<Rightarrow> s)"

definition Fast_count :: "'t fast_pool \<Rightarrow> nat" where
  "Fast_count s = length (dispatch_queue s)"

text \<open>
  \<open>stop\<close>: one null task for each worker, then it joins the workers; called from a worker's own
  task it joins the others and marks that worker as the last.
\<close>

definition Fast_stop :: "nat \<Rightarrow> 't fast_pool \<Rightarrow> 't fast_pool" where
  "Fast_stop n s = (Fast_addTask None ^^ n) s"

definition Fast_stop_joined :: "nat \<Rightarrow> nat \<Rightarrow> 't fast_pool \<Rightarrow> 't fast_pool option" where
  "Fast_stop_joined n i s =
     (if \<forall>j < n. j \<noteq> i \<longrightarrow> fw_pc s j = FwExit then Some (s\<lparr>f_last := (f_last s)(i := True)\<rparr>) else None)"

definition Fast_destroy :: "('t \<Rightarrow> bool) \<Rightarrow> 't fast_pool \<Rightarrow> 't list \<times> 't fast_pool" where
  "Fast_destroy once s = (filter once (map the (filter (\<lambda>t. t \<noteq> None) (dispatch_queue s))), s\<lparr>dispatch_queue := []\<rparr>)"

lemma Fast_addTask_added [simp]: "f_added (Fast_addTask t s) = f_added s @ [t]"
  by (simp add: Fast_addTask_def assignTask_def Let_def split: list.split)

lemma Fast_addTask_finished [simp]: "f_finished (Fast_addTask t s) = f_finished s"
  by (simp add: Fast_addTask_def assignTask_def Let_def split: list.split)

lemma Fast_addTask_pc [simp]: "fw_pc (Fast_addTask t s) = fw_pc s"
  by (simp add: Fast_addTask_def assignTask_def Let_def split: list.split)

lemma Fast_stop_pc [simp]: "fw_pc (Fast_stop n s) = fw_pc s"
  by (induction n) (simp_all add: Fast_stop_def)

lemma Fast_worker_exit: "fw_pc s j = FwExit \<Longrightarrow> fw_pc (Fast_worker i s) j = FwExit"
  by (auto simp: Fast_worker_def Let_def queueWorker_def assignTask_def split: fast_pc.split option.split list.split)

lemma Fast_stop_adds: "f_added (Fast_stop n s) = f_added s @ replicate n None"
  by (induction n) (simp_all add: Fast_stop_def replicate_append_same)

inductive fast_step :: "nat \<Rightarrow> 't fast_pool \<Rightarrow> 't fast_pool \<Rightarrow> bool" for n :: nat where
  fast_add: "fast_step n s (Fast_addTask t s)"
| fast_work: "i < n \<Longrightarrow> fast_step n s (Fast_worker i s)"
| fast_last: "i < n \<Longrightarrow> fw_pc s i = FwRun t \<Longrightarrow> Fast_stop_joined n i s = Some s' \<Longrightarrow> fast_step n s s'"

definition fast_start :: "nat \<Rightarrow> 't fast_pool \<Rightarrow> bool" where
  "fast_start n s \<longleftrightarrow> s = ThreadPoolFast_new n"

definition fast_holds :: "'t fast_pool \<Rightarrow> nat \<Rightarrow> 't option multiset" where
  "fast_holds s w =
     (case fw_pc s w of FwRun t \<Rightarrow> {#Some t#} | FwWait \<Rightarrow> if fw_has_task s w then {#fw_task s w#} else {#} | FwExit \<Rightarrow> {#})"

text \<open>The free list: exactly the workers that wait without a task, and only when nothing is queued.\<close>

definition free_ok :: "nat \<Rightarrow> 't fast_pool \<Rightarrow> bool" where
  "free_ok n s \<longleftrightarrow> (dispatch_queue s \<noteq> [] \<longrightarrow> free_workers s = []) \<and> distinct (free_workers s) \<and>
     (\<forall>w. w \<in> set (free_workers s) \<longleftrightarrow> w < n \<and> fw_pc s w = FwWait \<and> \<not> fw_has_task s w) \<and>
     (\<forall>w. fw_has_task s w \<longrightarrow> fw_pc s w = FwWait) \<and> (\<forall>w. f_last s w \<longrightarrow> fw_pc s w \<noteq> FwWait)"

definition tasks_ok :: "nat \<Rightarrow> 't fast_pool \<Rightarrow> bool" where
  "tasks_ok n s \<longleftrightarrow> f_added s = f_dispatched s @ dispatch_queue s \<and>
     mset (f_dispatched s) = mset (f_finished s) + (\<Sum>w < n. fast_holds s w) \<and>
     count (mset (f_finished s)) None = card {w. w < n \<and> fw_pc s w = FwExit \<and> \<not> f_last s w}"

definition fast_inv :: "nat \<Rightarrow> 't fast_pool \<Rightarrow> bool" where
  "fast_inv n s \<longleftrightarrow> free_ok n s \<and> tasks_ok n s"

lemma assign_facts:
  assumes w: "w < n" "fw_pc s w = FwWait" "\<not> fw_has_task s w"
  shows "(\<Sum>j < n. fast_holds (assignTask w t s) j) = (\<Sum>j < n. fast_holds s j) + {#t#}"
proof -
  have other: "fast_holds (assignTask w t s) j = fast_holds s j" if "j \<noteq> w" for j
    using that by (simp add: fast_holds_def assignTask_def split: fast_pc.split)
  have "fast_holds (assignTask w t s) w = {#t#}" "fast_holds s w = {#}" using w by (simp_all add: fast_holds_def assignTask_def)
  then show ?thesis
    using sum_update [of w n "fast_holds (assignTask w t s)" "fast_holds s", OF w(1) other] by simp
qed

lemma fast_holds_cong:
  "fw_pc s = fw_pc t \<Longrightarrow> fw_has_task s = fw_has_task t \<Longrightarrow> fw_task s = fw_task t \<Longrightarrow> fast_holds s = fast_holds t"
  by (auto simp: fast_holds_def split: fast_pc.split)

lemma Fast_addTask_inv:
  assumes inv: "fast_inv n s"
  shows "fast_inv n (Fast_addTask t s)"
proof (cases "free_workers s")
  case Nil
  define u where "u = s\<lparr>f_added := f_added s @ [t], dispatch_queue := dispatch_queue s @ [t]\<rparr>"
  have "Fast_addTask t s = u" using Nil by (simp add: Fast_addTask_def u_def)
  moreover have "fast_holds u = fast_holds s" by (rule fast_holds_cong) (simp_all add: u_def)
  ultimately show ?thesis using inv Nil by (simp add: fast_inv_def free_ok_def tasks_ok_def u_def)
next
  case (Cons w ws)
  define s1 where "s1 = s\<lparr>f_added := f_added s @ [t], free_workers := ws\<rparr>"
  have "w \<in> set (free_workers s)" using Cons by simp
  then have w: "w < n" "fw_pc s1 w = FwWait" "\<not> fw_has_task s1 w"
    using inv unfolding fast_inv_def free_ok_def by (simp_all add: s1_def)
  have eq: "Fast_addTask t s = assignTask w t s1" using Cons by (simp add: Fast_addTask_def s1_def)
  have h: "fast_holds s1 = fast_holds s" by (rule fast_holds_cong) (simp_all add: s1_def)
  have "dispatch_queue s = []" using inv Cons by (auto simp: fast_inv_def free_ok_def)
  then have "tasks_ok n (assignTask w t s1)"
    using inv assign_facts [OF w, of t] unfolding fast_inv_def tasks_ok_def h
    by (simp add: assignTask_def s1_def)
  moreover have "free_ok n (assignTask w t s1)"
    using inv Cons w \<open>dispatch_queue s = []\<close> unfolding fast_inv_def free_ok_def assignTask_def s1_def by auto
  ultimately show ?thesis by (simp add: fast_inv_def eq)
qed

lemma queueWorker_inv:
  assumes f: "free_ok n (s\<lparr>fw_pc := (fw_pc s)(w := FwExit)\<rparr>)" and t: "tasks_ok n s" and w: "w < n" "fw_pc s w = FwWait"
    "\<not> fw_has_task s w" "\<not> f_last s w"
  shows "fast_inv n (queueWorker w s)"
proof (cases "dispatch_queue s")
  case Nil
  define u where "u = s\<lparr>free_workers := w # free_workers s\<rparr>"
  have "queueWorker w s = u" using Nil by (simp add: queueWorker_def u_def)
  moreover have "fast_holds u = fast_holds s" by (rule fast_holds_cong) (simp_all add: u_def)
  moreover have "free_ok n u" using f w Nil unfolding free_ok_def u_def by (auto split: if_splits)
  ultimately show ?thesis using t by (simp add: fast_inv_def tasks_ok_def u_def)
next
  case (Cons a as)
  define s1 where "s1 = s\<lparr>dispatch_queue := as\<rparr>"
  have eq: "queueWorker w s = assignTask w a s1" using Cons by (simp add: queueWorker_def s1_def)
  have w1: "w < n" "fw_pc s1 w = FwWait" "\<not> fw_has_task s1 w" using w by (simp_all add: s1_def)
  have h: "fast_holds s1 = fast_holds s" by (rule fast_holds_cong) (simp_all add: s1_def)
  have "tasks_ok n (assignTask w a s1)"
    using t assign_facts [OF w1, of a] Cons unfolding tasks_ok_def h by (simp add: assignTask_def s1_def)
  moreover have "free_ok n (assignTask w a s1)"
    using f w Cons unfolding free_ok_def assignTask_def s1_def by (auto split: if_splits)
  ultimately show ?thesis by (simp add: fast_inv_def eq)
qed

lemma card_insert_exit:
  assumes "i < n" "fw_pc s i \<noteq> FwExit" "\<not> f_last s i" "\<And>w. w \<noteq> i \<Longrightarrow> fw_pc t w = fw_pc s w" "fw_pc t i = FwExit" "f_last t = f_last s"
  shows "card {w. w < n \<and> fw_pc t w = FwExit \<and> \<not> f_last t w} = Suc (card {w. w < n \<and> fw_pc s w = FwExit \<and> \<not> f_last s w})"
proof -
  have "{w. w < n \<and> fw_pc t w = FwExit \<and> \<not> f_last t w} = insert i {w. w < n \<and> fw_pc s w = FwExit \<and> \<not> f_last s w}"
  proof (rule set_eqI)
    fix w
    show "w \<in> {w. w < n \<and> fw_pc t w = FwExit \<and> \<not> f_last t w} \<longleftrightarrow> w \<in> insert i {w. w < n \<and> fw_pc s w = FwExit \<and> \<not> f_last s w}"
      using assms by (cases "w = i") auto
  qed
  then show ?thesis using assms(2) by simp
qed

lemma Fast_worker_inv:
  assumes inv: "fast_inv n s" and i: "i < n"
  shows "fast_inv n (Fast_worker i s)"
proof (cases "fw_pc s i")
  case FwWait
  have nl: "\<not> f_last s i" using inv FwWait by (auto simp: fast_inv_def free_ok_def)
  show ?thesis
  proof (cases "fw_has_task s i")
    case False
    then show ?thesis using inv FwWait by (simp add: Fast_worker_def)
  next
    case True
    define t where "t = Fast_worker i s"
    have other: "fast_holds t j = fast_holds s j" if "j \<noteq> i" for j
      using that FwWait True by (auto simp: t_def Fast_worker_def fast_holds_def Let_def split: fast_pc.splits option.splits)
    note u = sum_update [of i n "fast_holds t" "fast_holds s", OF i other]
    have free: "free_ok n t"
      using inv FwWait True unfolding fast_inv_def free_ok_def t_def Fast_worker_def by (auto simp: Let_def split: option.splits if_splits)
    have same: "f_added t = f_added s" "f_dispatched t = f_dispatched s" "dispatch_queue t = dispatch_queue s"
      using FwWait True by (auto simp: t_def Fast_worker_def Let_def split: option.splits)
    have "tasks_ok n t"
    proof (cases "fw_task s i")
      case None
      then have "fast_holds t i = {#}" "fast_holds s i = {#None#}" "f_finished t = f_finished s @ [None]"
        using FwWait True by (auto simp: t_def Fast_worker_def fast_holds_def Let_def)
      moreover have "card {w. w < n \<and> fw_pc t w = FwExit \<and> \<not> f_last t w} = Suc (card {w. w < n \<and> fw_pc s w = FwExit \<and> \<not> f_last s w})"
        using FwWait True None nl by (intro card_insert_exit [OF i]) (auto simp: t_def Fast_worker_def Let_def)
      ultimately show ?thesis using inv u same by (simp add: fast_inv_def tasks_ok_def)
    next
      case (Some a)
      then have "fast_holds t i = {#Some a#}" "fast_holds s i = {#Some a#}" "f_finished t = f_finished s"
        using FwWait True by (auto simp: t_def Fast_worker_def fast_holds_def Let_def)
      moreover have "{w. w < n \<and> fw_pc t w = FwExit \<and> \<not> f_last t w} = {w. w < n \<and> fw_pc s w = FwExit \<and> \<not> f_last s w}"
        using FwWait True Some by (auto simp: t_def Fast_worker_def Let_def split: if_splits)
      ultimately show ?thesis using inv u same by (simp add: fast_inv_def tasks_ok_def)
    qed
    then show ?thesis using free by (simp add: fast_inv_def t_def)
  qed
next
  case (FwRun a)
  have nh: "\<not> fw_has_task s i" using inv FwRun by (auto simp: fast_inv_def free_ok_def)
  define p where "p = (if f_last s i then FwExit else (FwWait :: 'a fast_pc))"
  define t where "t = s\<lparr>f_finished := f_finished s @ [Some a], fw_pc := (fw_pc s)(i := p)\<rparr>"
  have other: "fast_holds t j = fast_holds s j" if "j \<noteq> i" for j
    using that by (auto simp: t_def fast_holds_def split: fast_pc.splits)
  note u = sum_update [of i n "fast_holds t" "fast_holds s", OF i other]
  have h: "fast_holds t i = {#}" "fast_holds s i = {#Some a#}" using FwRun nh by (auto simp: t_def p_def fast_holds_def)
  have "{w. w < n \<and> fw_pc t w = FwExit \<and> \<not> f_last t w} = {w. w < n \<and> fw_pc s w = FwExit \<and> \<not> f_last s w}"
    using FwRun by (auto simp: t_def p_def split: if_splits)
  then have tasks: "tasks_ok n t" using inv u h by (simp add: fast_inv_def tasks_ok_def t_def)
  have free: "free_ok n (t\<lparr>fw_pc := (fw_pc t)(i := FwExit)\<rparr>)"
    using inv FwRun nh unfolding fast_inv_def free_ok_def t_def by (auto split: if_splits)
  show ?thesis
  proof (cases "f_last s i")
    case True
    then have "Fast_worker i s = t" using FwRun by (simp add: Fast_worker_def t_def p_def Let_def)
    moreover have "t\<lparr>fw_pc := (fw_pc t)(i := FwExit)\<rparr> = t" using True by (simp add: t_def p_def)
    ultimately show ?thesis using tasks free by (simp add: fast_inv_def)
  next
    case False
    then have "Fast_worker i s = queueWorker i t" using FwRun by (simp add: Fast_worker_def t_def p_def Let_def)
    moreover have "fw_pc t i = FwWait" "\<not> fw_has_task t i" "\<not> f_last t i" using False nh by (simp_all add: t_def p_def)
    ultimately show ?thesis using queueWorker_inv [OF free tasks i] by simp
  qed
next
  case FwExit
  then show ?thesis using inv by (simp add: Fast_worker_def)
qed

lemma new_pool:
  "dispatch_queue s = [] \<Longrightarrow> fold queueWorker ws s = s\<lparr>free_workers := rev ws @ free_workers s\<rparr>"
  by (induction ws arbitrary: s) (simp_all add: queueWorker_def)

lemma ThreadPoolFast_new_inv: "fast_inv n (ThreadPoolFast_new n)"
  by (auto simp: ThreadPoolFast_new_def new_pool fast_inv_def free_ok_def tasks_ok_def fast_holds_def)

interpretation fp: transition_system "fast_start n" "fast_step n" "fast_inv n" for n
proof unfold_locales
  show "fast_inv n s" if "fast_start n s" for s using that ThreadPoolFast_new_inv by (simp add: fast_start_def)
  show "fast_inv n t" if st: "fast_step n s t" "fast_inv n s" for s t :: "'a fast_pool"
    using st
  proof cases
    case (fast_last i a)
    have t: "t = s\<lparr>f_last := (f_last s)(i := True)\<rparr>" using fast_last(3) by (simp add: Fast_stop_joined_def split: if_splits)
    have h: "fast_holds t = fast_holds s" by (rule fast_holds_cong) (simp_all add: t)
    have "{w. w < n \<and> fw_pc t w = FwExit \<and> \<not> f_last t w} = {w. w < n \<and> fw_pc s w = FwExit \<and> \<not> f_last s w}"
      using fast_last(2) by (auto simp: t)
    then have "tasks_ok n t" using st(2) h by (simp add: fast_inv_def tasks_ok_def) (simp add: t)
    moreover have "free_ok n t" using st(2) fast_last(2) unfolding fast_inv_def free_ok_def t by auto
    ultimately show ?thesis by (simp add: fast_inv_def)
  qed (use st(2) Fast_addTask_inv Fast_worker_inv in auto)
qed

lemma fast_accounting:
  "fast_inv n s \<Longrightarrow> mset (f_added s) = mset (f_finished s) + (\<Sum>w < n. fast_holds s w) + mset (dispatch_queue s)"
  by (simp add: fast_inv_def tasks_ok_def)

text \<open>A pool in which no worker can move, after \<open>stop\<close>.\<close>

lemma stuck_worker:
  assumes "Fast_worker i s = s"
  shows "fw_pc s i = FwExit \<or> (fw_pc s i = FwWait \<and> \<not> fw_has_task s i)"
proof (cases "fw_pc s i")
  case (FwRun a)
  then have "f_finished (Fast_worker i s) = f_finished s @ [Some a]"
    by (simp add: Fast_worker_def Let_def queueWorker_def assignTask_def split: list.splits)
  then show ?thesis using assms by simp
next
  case FwWait
  have "fw_has_task (Fast_worker i s) i = False"
    using FwWait by (simp add: Fast_worker_def Let_def split: option.splits)
  then show ?thesis using FwWait assms by simp
qed simp

lemma Fast_drains:
  assumes inv: "fast_inv n s" and n: "0 < n" and add: "f_added s = map Some ts @ replicate n None"
    and last: "\<forall>w. \<not> f_last s w" and stuck: "\<forall>i < n. Fast_worker i s = s"
  shows "(\<forall>i < n. fw_pc s i = FwExit) \<and> mset (f_finished s) = mset (f_added s)"
proof -
  have st: "fw_pc s i = FwExit \<or> (fw_pc s i = FwWait \<and> \<not> fw_has_task s i)" if "i < n" for i
    using stuck stuck_worker that by blast
  have "fast_holds s i = {#}" if "i < n" for i using st [OF that] by (auto simp: fast_holds_def)
  then have fin: "mset (f_dispatched s) = mset (f_finished s)" using inv by (simp add: fast_inv_def tasks_ok_def)
  have q: "f_added s = f_dispatched s @ dispatch_queue s" using inv by (simp add: fast_inv_def tasks_ok_def)
  have exits: "count (mset (f_finished s)) None = card {w. w < n \<and> fw_pc s w = FwExit}"
    using inv last by (simp add: fast_inv_def tasks_ok_def)
  have nones: "count (mset (f_added s)) None = n" by (simp add: add count_eq_zero_iff image_iff)
  have sub: "{w. w < n \<and> fw_pc s w = FwExit} \<subseteq> {..<n}" by auto
  have all: "fw_pc s i = FwExit" if i: "i < n" for i
  proof (rule ccontr)
    assume "fw_pc s i \<noteq> FwExit"
    then have w: "fw_pc s i = FwWait" "\<not> fw_has_task s i" using st [OF i] by auto
    then have "i \<in> set (free_workers s)" using i inv by (simp add: fast_inv_def free_ok_def)
    then have "dispatch_queue s = []" using inv by (auto simp: fast_inv_def free_ok_def)
    then have "f_added s = f_dispatched s" using q by simp
    then have "card {w. w < n \<and> fw_pc s w = FwExit} = n" using exits nones fin by metis
    then have "{w. w < n \<and> fw_pc s w = FwExit} = {..<n}" using sub by (intro card_subset_eq) simp_all
    then have "i \<in> {w. w < n \<and> fw_pc s w = FwExit}" using i by blast
    then show False using w(1) by simp
  qed
  then have "{w. w < n \<and> fw_pc s w = FwExit} = {..<n}" by auto
  then have c: "count (mset (f_dispatched s)) None = n" using exits fin by simp
  have "dispatch_queue s = []"
  proof (rule ccontr)
    assume ne: "dispatch_queue s \<noteq> []"
    have "last (f_added s) = None" using add n by simp
    then have "last (dispatch_queue s) = None" using ne q by (metis last_appendR)
    then have "None \<in> set (dispatch_queue s)" using ne by (metis last_in_set)
    then have "count (mset (dispatch_queue s)) None > 0" by (simp add: count_greater_zero_iff)
    then show False using nones q c by simp
  qed
  then show ?thesis using all q fin by simp
qed

text \<open>Every step of a worker that changes the pool uses up some of the work that is left.\<close>

definition pending :: "'t fast_pool \<Rightarrow> nat \<Rightarrow> nat" where
  "pending s w = (case fw_pc s w of FwRun t \<Rightarrow> 1 | FwWait \<Rightarrow> if fw_has_task s w then 2 else 0 | FwExit \<Rightarrow> 0)"

definition work_left :: "nat \<Rightarrow> 't fast_pool \<Rightarrow> nat" where
  "work_left n s = 3 * length (dispatch_queue s) + (\<Sum>w < n. pending s w)"

lemma work_left_step:
  assumes i: "i < n" and other: "\<And>j. j \<noteq> i \<Longrightarrow> pending t j = pending s j"
    and less: "3 * length (dispatch_queue t) + pending t i < 3 * length (dispatch_queue s) + pending s i"
  shows "work_left n t < work_left n s"
  using sum_update [of i n "pending t" "pending s", OF i other] less by (simp add: work_left_def)

lemma Fast_worker_progress:
  assumes inv: "fast_inv n s" and i: "i < n"
  shows "Fast_worker i s = s \<or> work_left n (Fast_worker i s) < work_left n s"
proof (cases "fw_pc s i")
  case FwWait
  show ?thesis
  proof (cases "fw_has_task s i")
    case True
    have "work_left n (Fast_worker i s) < work_left n s"
      by (rule work_left_step [OF i])
        (use FwWait True in \<open>auto simp: Fast_worker_def Let_def pending_def split: option.splits\<close>)
    then show ?thesis ..
  qed (simp add: Fast_worker_def FwWait)
next
  case (FwRun a)
  have "\<not> fw_has_task s i" using inv FwRun by (auto simp: fast_inv_def free_ok_def)
  show ?thesis
  proof (cases "Fast_worker i s = s")
    case False
    have "work_left n (Fast_worker i s) < work_left n s"
    proof (rule work_left_step [OF i])
      show "pending (Fast_worker i s) j = pending s j" if "j \<noteq> i" for j
        using FwRun that by (auto simp: Fast_worker_def Let_def pending_def queueWorker_def assignTask_def split: list.splits)
      show "3 * length (dispatch_queue (Fast_worker i s)) + pending (Fast_worker i s) i
        < 3 * length (dispatch_queue s) + pending s i"
        using FwRun \<open>\<not> fw_has_task s i\<close> by (cases "dispatch_queue s")
          (auto simp: Fast_worker_def Let_def pending_def queueWorker_def assignTask_def)
    qed
    then show ?thesis ..
  qed simp
qed (simp add: Fast_worker_def)

text \<open>The normal pool after \<open>stop\<close>.\<close>

lemma Normal_stopped_step:
  assumes "normal_step n s t" "be_stop s"
  shows "be_stop t \<and> n_started t = n_started s"
  using assms by cases (auto simp: Normal_addTask_def Normal_stop_def Normal_worker_def split: normal_pc.splits)

lemma Normal_stopped:
  assumes "(normal_step n)\<^sup>*\<^sup>* s t" "be_stop s"
  shows "be_stop t \<and> n_started t = n_started s"
  using assms by (induction rule: rtranclp_induct) (auto dest: Normal_stopped_step)

lemma Normal_worker_exits:
  assumes "be_stop s"
  shows "nw_pc ((Normal_worker i ^^ 2) s) i = NwExit"
  using assms by (cases "nw_pc s i") (simp_all add: Normal_worker_def numeral_2_eq_2)

section \<open>Properties\<close>

text \<open>
  C31. The normal pool in every interleaving of \<open>addTask\<close>, \<open>stop\<close> and its workers: tasks are
  started in the order they were added, each added task is queued, running or finished exactly
  once, a waiting worker of a pool that is not stopped starts the oldest queued task, and after
  \<open>stop\<close> no task is started and each worker leaves its loop after at most the task it runs.
\<close>

theorem ThreadPoolNormal_fifo:
  assumes "reach normal_start (normal_step n) s"
  shows "n_added s = n_started s @ task_queue s \<and>
    mset (n_added s) = mset (n_finished s) + (\<Sum>i < n. normal_holds s i) + mset (task_queue s) \<and>
    (\<forall>i. nw_pc s i = NwWait \<and> \<not> be_stop s \<and> task_queue s \<noteq> [] \<longrightarrow> nw_pc (Normal_worker i s) i = NwRun (hd (task_queue s))) \<and>
    (be_stop s \<longrightarrow> (\<forall>t. (normal_step n)\<^sup>*\<^sup>* s t \<longrightarrow> n_started t = n_started s) \<and>
       (\<forall>i. nw_pc ((Normal_worker i ^^ 2) s) i = NwExit))"
proof -
  have inv: "normal_inv n s" by (rule np.reach_invar [OF assms])
  have "nw_pc (Normal_worker i s) i = NwRun (hd (task_queue s))" if "nw_pc s i = NwWait" "\<not> be_stop s" "task_queue s \<noteq> []" for i
    using that by (cases "task_queue s") (simp_all add: Normal_worker_def)
  then show ?thesis using inv Normal_stopped Normal_worker_exits by (auto simp: normal_inv_def)
qed

theorem ThreadPoolNormal_fifo_witness:
  "n_added (Normal_worker 0 (Normal_addTask 5 ThreadPoolNormal_new)) = [5 :: int] \<and>
   n_started (Normal_worker 0 (Normal_addTask 5 ThreadPoolNormal_new)) = [5 :: int]"
proof -
  have "reach normal_start (normal_step 1) (ThreadPoolNormal_new :: int normal_pool)"
    by (rule reach_start) (simp add: normal_start_def)
  then have "reach normal_start (normal_step 1) (Normal_addTask (5 :: int) ThreadPoolNormal_new)"
    by (rule reach_step) (rule normal_add)
  then have "reach normal_start (normal_step 1) (Normal_worker 0 (Normal_addTask (5 :: int) ThreadPoolNormal_new))"
    by (rule reach_step) (simp add: normal_work)
  from ThreadPoolNormal_fifo [OF this] show ?thesis
    by (simp add: Normal_worker_def Normal_addTask_def ThreadPoolNormal_new_def)
qed

text \<open>
  C7. The fast pool in every interleaving of \<open>addTask\<close>, \<open>stop\<close> and its \<open>n\<close> workers: tasks
  are handed out in the order they were added, each is queued, held by one worker or finished,
  no worker idles while a task is queued, each effective step of a worker uses up work, and when
  no worker can move after tasks \<open>ts\<close> followed by the \<open>n\<close> null tasks of \<open>stop\<close>, all workers have
  exited and every task has been run.
\<close>

theorem ThreadPoolFast_drains:
  assumes "reach (fast_start n) (fast_step n) s" "0 < n"
  shows "f_added s = f_dispatched s @ dispatch_queue s \<and>
    mset (f_added s) = mset (f_finished s) + (\<Sum>w < n. fast_holds s w) + mset (dispatch_queue s) \<and>
    (dispatch_queue s \<noteq> [] \<longrightarrow> (\<forall>w < n. fw_pc s w = FwWait \<longrightarrow> fw_has_task s w)) \<and>
    (\<forall>i < n. Fast_worker i s = s \<or> work_left n (Fast_worker i s) < work_left n s) \<and>
    (\<forall>ts. f_added s = map Some ts @ replicate n None \<and> (\<forall>w. \<not> f_last s w) \<and> (\<forall>i < n. Fast_worker i s = s) \<longrightarrow>
       (\<forall>i < n. fw_pc s i = FwExit) \<and> mset (f_finished s) = mset (f_added s))"
proof -
  have inv: "fast_inv n s" by (rule fp.reach_invar [OF assms(1)])
  then have q: "f_added s = f_dispatched s @ dispatch_queue s" by (simp add: fast_inv_def tasks_ok_def)
  have f: "fw_has_task s w" if "dispatch_queue s \<noteq> []" "w < n" "fw_pc s w = FwWait" for w
  proof (rule ccontr)
    assume "\<not> fw_has_task s w"
    then have "w \<in> set (free_workers s)" using inv that(2,3) unfolding fast_inv_def free_ok_def by blast
    moreover have "free_workers s = []" using inv that(1) by (simp add: fast_inv_def free_ok_def)
    ultimately show False by simp
  qed
  have d: "(\<forall>i < n. fw_pc s i = FwExit) \<and> mset (f_finished s) = mset (f_added s)"
    if "f_added s = map Some ts @ replicate n None \<and> (\<forall>w. \<not> f_last s w) \<and> (\<forall>i < n. Fast_worker i s = s)" for ts
    using Fast_drains [OF inv assms(2)] that by blast
  show ?thesis using fast_accounting [OF inv] q f Fast_worker_progress [OF inv] d by blast
qed

theorem ThreadPoolFast_drains_witness:
  "f_added (Fast_addTask (Some 5) (ThreadPoolFast_new 1)) = [Some (5 :: int)] \<and>
   dispatch_queue (Fast_addTask (Some (5 :: int)) (ThreadPoolFast_new 1)) = [] \<and>
   f_dispatched (Fast_addTask (Some (5 :: int)) (ThreadPoolFast_new 1)) = [Some 5]"
proof -
  have "reach (fast_start 1) (fast_step 1) (ThreadPoolFast_new 1 :: int fast_pool)"
    by (rule reach_start) (simp add: fast_start_def)
  then have "reach (fast_start 1) (fast_step 1) (Fast_addTask (Some (5 :: int)) (ThreadPoolFast_new 1))"
    by (rule reach_step) (rule fast_add)
  from ThreadPoolFast_drains [OF this] show ?thesis
    by (simp add: Fast_addTask_def ThreadPoolFast_new_def queueWorker_def assignTask_def)
qed

end
