(* ===== verification/Io_Manager.thy ===== *)
theory Io_Manager
  imports Thread_Pool Request_Stats
begin

text \<open>
  \<^verbatim>\<open>src/io_manager.cpp\<close> and \<^verbatim>\<open>src/descriptor_poller_epoll.cpp\<close>: descriptors, timers and the
  polling thread on top of the fast thread pool. Descriptors are cells of a heap; a call on a
  deleted descriptor is \<open>None\<close>, and so is \<open>exit(1)\<close>. What \<open>epoll_wait\<close> returns and the
  clock are arguments. Each of a descriptor's four calls is one step: its section under \<open>m_\<close> and
  the \<open>addTask\<close> after it. \<open>cb_deleted\<close> records the callbacks that were deleted.
\<close>

section \<open>Descriptors and the manager's state\<close>

record 'cb descriptor =
  desc_fd :: int
  read_cb :: "'cb option"
  write_cb :: "'cb option"
  can_read :: bool
  can_write :: bool
  waiting_read :: bool
  waiting_write :: bool

record 'cb io_manager =
  descs :: "nat \<Rightarrow> 'cb descriptor option"
  next_desc :: nat
  poll_set :: "(int \<times> nat) list"
  deleted_desc :: "nat list"
  io_stopped :: bool
  polling :: bool
  timer_queue :: "(nat \<times> 'cb) list"
  worker_pool :: "'cb fast_pool"
  cb_deleted :: "'cb list"

definition IOManager_new :: "nat \<Rightarrow> 'cb io_manager" where
  "IOManager_new num_workers =
     \<lparr>descs = Map.empty, next_desc = 0, poll_set = [], deleted_desc = [], io_stopped = False, polling = False,
      timer_queue = [], worker_pool = ThreadPoolFast_new num_workers, cb_deleted = []\<rparr>"

definition Descriptor_new :: "int \<Rightarrow> 'cb option \<Rightarrow> 'cb option \<Rightarrow> 'cb descriptor" where
  "Descriptor_new fd rcb wcb =
     \<lparr>desc_fd = fd, read_cb = rcb, write_cb = wcb, can_read = False, can_write = False,
      waiting_read = False, waiting_write = False\<rparr>"

definition IOManager_addTask :: "'cb \<Rightarrow> 'cb io_manager \<Rightarrow> 'cb io_manager" where
  "IOManager_addTask task io = io\<lparr>worker_pool := Fast_addTask (Some task) (worker_pool io)\<rparr>"

text \<open>\<open>if (cb && now) workerPool()->addTask(cb)\<close>.\<close>

definition schedule :: "'cb option \<Rightarrow> bool \<Rightarrow> 'cb io_manager \<Rightarrow> 'cb io_manager" where
  "schedule cb now io = (case cb of Some task \<Rightarrow> if now then IOManager_addTask task io else io | None \<Rightarrow> io)"

definition Descriptor_readWhenReady :: "nat \<Rightarrow> 'cb io_manager \<Rightarrow> 'cb io_manager option" where
  "Descriptor_readWhenReady d io =
     map_option (\<lambda>ds.
       let ready_now = can_read ds;
           ds1 = (if can_read ds then ds\<lparr>can_read := False\<rparr> else ds\<lparr>waiting_read := True\<rparr>)
       in schedule (read_cb ds1) ready_now (io\<lparr>descs := (descs io)(d \<mapsto> ds1)\<rparr>)) (descs io d)"

definition Descriptor_writeWhenReady :: "nat \<Rightarrow> 'cb io_manager \<Rightarrow> 'cb io_manager option" where
  "Descriptor_writeWhenReady d io =
     map_option (\<lambda>ds.
       let ready_now = can_write ds;
           ds1 = (if can_write ds then ds\<lparr>can_write := False\<rparr> else ds\<lparr>waiting_write := True\<rparr>)
       in schedule (write_cb ds1) ready_now (io\<lparr>descs := (descs io)(d \<mapsto> ds1)\<rparr>)) (descs io d)"

definition Descriptor_readIfWaiting :: "nat \<Rightarrow> 'cb io_manager \<Rightarrow> 'cb io_manager option" where
  "Descriptor_readIfWaiting d io =
     map_option (\<lambda>ds.
       let schedule_now = waiting_read ds;
           ds1 = (if waiting_read ds then ds\<lparr>waiting_read := False\<rparr> else ds\<lparr>can_read := True\<rparr>)
       in schedule (read_cb ds1) schedule_now (io\<lparr>descs := (descs io)(d \<mapsto> ds1)\<rparr>)) (descs io d)"

definition Descriptor_writeIfWaiting :: "nat \<Rightarrow> 'cb io_manager \<Rightarrow> 'cb io_manager option" where
  "Descriptor_writeIfWaiting d io =
     map_option (\<lambda>ds.
       let schedule_now = waiting_write ds;
           ds1 = (if waiting_write ds then ds\<lparr>waiting_write := False\<rparr> else ds\<lparr>can_write := True\<rparr>)
       in schedule (write_cb ds1) schedule_now (io\<lparr>descs := (descs io)(d \<mapsto> ds1)\<rparr>)) (descs io d)"

text \<open>\<open>delete\<close> of a callback pointer, which may be null.\<close>

definition delete_cb :: "'cb option \<Rightarrow> 'cb io_manager \<Rightarrow> 'cb io_manager" where
  "delete_cb cb io = (case cb of Some c \<Rightarrow> io\<lparr>cb_deleted := cb_deleted io @ [c]\<rparr> | None \<Rightarrow> io)"

definition setUpCalls :: "nat \<Rightarrow> 'cb option \<Rightarrow> 'cb option \<Rightarrow> 'cb io_manager \<Rightarrow> 'cb io_manager option" where
  "setUpCalls d rcb wcb io =
     map_option (\<lambda>ds. delete_cb (write_cb ds) (delete_cb (read_cb ds)
       (io\<lparr>descs := (descs io)(d \<mapsto> ds\<lparr>read_cb := rcb, write_cb := wcb\<rparr>)\<rparr>))) (descs io d)"

definition Descriptor_destroy :: "nat \<Rightarrow> 'cb io_manager \<Rightarrow> 'cb io_manager option" where
  "Descriptor_destroy d io =
     map_option (\<lambda>ds. delete_cb (write_cb ds) (delete_cb (read_cb ds) (io\<lparr>descs := (descs io)(d := None)\<rparr>))) (descs io d)"

section \<open>The poller\<close>

text \<open>
  The bits of \<open>PollEvents\<close> and of \<^verbatim>\<open><sys/epoll.h>\<close>. \<open>epoll_ctl\<close> refuses a descriptor that is in the
  set already, and \<open>epoll_wait\<close> returns at most the \<open>MAX_FDS_PER_POLL\<close> events asked for.
\<close>

definition DP_ERROR :: "32 word" where "DP_ERROR = 1"

definition DP_READ_READY :: "32 word" where "DP_READ_READY = 2"

definition DP_WRITE_READY :: "32 word" where "DP_WRITE_READY = 4"

definition EPOLLIN :: "32 word" where "EPOLLIN = 1"

definition EPOLLOUT :: "32 word" where "EPOLLOUT = 4"

definition EPOLLERR :: "32 word" where "EPOLLERR = 8"

definition EPOLLHUP :: "32 word" where "EPOLLHUP = 16"

unbundle bit_operations_syntax

definition setEvent :: "int \<Rightarrow> nat \<Rightarrow> 'cb io_manager \<Rightarrow> 'cb io_manager option" where
  "setEvent fd d io = (if fd \<in> fst ` set (poll_set io) then None else Some (io\<lparr>poll_set := (fd, d) # poll_set io\<rparr>))"

definition getEvents :: "32 word \<Rightarrow> 32 word" where
  "getEvents ev =
     (if ev AND EPOLLERR \<noteq> 0 then DP_ERROR
      else (if ev AND (EPOLLHUP OR EPOLLIN) \<noteq> 0 then DP_READ_READY else 0)
         OR (if ev AND (EPOLLHUP OR EPOLLOUT) \<noteq> 0 then DP_WRITE_READY else 0))"

datatype epoll_result = EpollEvents "(32 word \<times> nat) list" | EpollInterrupted | EpollError

text \<open>
  The results of the coming calls of \<open>epoll_wait\<close>, each after at most 100 ms; a list that runs out
  stands for calls that time out.
\<close>

fun DescriptorPoller_poll :: "epoll_result list \<Rightarrow> (32 word \<times> nat) list option" where
  "DescriptorPoller_poll [] = Some []"
| "DescriptorPoller_poll (EpollEvents evs # rs) = Some evs"
| "DescriptorPoller_poll (EpollInterrupted # rs) = DescriptorPoller_poll rs"
| "DescriptorPoller_poll (EpollError # rs) = None"

text \<open>
  The life of the poller's own descriptor, over the list of the process's open descriptors: the
  constructor sets \<open>fd_\<close> to -1, \<open>create\<close> stores what \<open>epoll_create\<close> returns (\<open>None\<close> is its
  \<open>exit(1)\<close>), and the destructor closes \<open>fd_\<close> under the test the code has, \<open>fd_ == -1\<close>.
\<close>

definition DescriptorPoller_new :: int where "DescriptorPoller_new = -1"

definition DescriptorPoller_create :: "int \<Rightarrow> int list \<Rightarrow> (int \<times> int list) option" where
  "DescriptorPoller_create res fds = (if res < 0 then None else Some (res, res # fds))"

definition DescriptorPoller_destroy :: "int \<Rightarrow> int list \<Rightarrow> int list" where
  "DescriptorPoller_destroy fd fds = (if fd = -1 then removeAll fd fds else fds)"

lemma DescriptorPoller_leaks:
  assumes "DescriptorPoller_create res fds = Some (fd, fds1)"
  shows "fd \<in> set (DescriptorPoller_destroy fd fds1)"
    and "DescriptorPoller_destroy fd fds1 = fd # fds"
  using assms by (auto simp: DescriptorPoller_create_def DescriptorPoller_destroy_def split: if_splits)

lemma DescriptorPoller_unused:
  "\<forall>fd \<in> set fds. 0 \<le> fd \<Longrightarrow> DescriptorPoller_destroy DescriptorPoller_new fds = fds"
  by (force simp: DescriptorPoller_destroy_def DescriptorPoller_new_def intro!: removeAll_id)

section \<open>Operations of the manager\<close>

definition newDescriptor :: "int \<Rightarrow> 'cb option \<Rightarrow> 'cb option \<Rightarrow> 'cb io_manager \<Rightarrow> (nat \<times> 'cb io_manager) option" where
  "newDescriptor fd rcb wcb io =
     (let d = next_desc io;
          io1 = io\<lparr>descs := (descs io)(d \<mapsto> Descriptor_new fd rcb wcb), next_desc := Suc d\<rparr>
      in map_option (Pair d) (setEvent fd d io1))"

definition delDescriptor :: "nat option \<Rightarrow> 'cb io_manager \<Rightarrow> 'cb io_manager" where
  "delDescriptor desc io = (case desc of None \<Rightarrow> io | Some d \<Rightarrow> io\<lparr>deleted_desc := d # deleted_desc io\<rparr>)"

text \<open>
  \<open>getTicks() + delay * ticksPerSecond()\<close>, a double, for a \<open>delay\<close> of a whole number of ticks
  below \<open>2 ^ 53\<close>; the multimap inserts behind the entries with the same key.
\<close>

definition timer_due :: "nat \<Rightarrow> nat \<Rightarrow> nat" where
  "timer_due now delay_ticks = to_double (to_double now + delay_ticks)"

definition multimap_insert :: "nat \<times> 'cb \<Rightarrow> (nat \<times> 'cb) list \<Rightarrow> (nat \<times> 'cb) list" where
  "multimap_insert x q = takeWhile (\<lambda>y. fst y \<le> fst x) q @ x # dropWhile (\<lambda>y. fst y \<le> fst x) q"

definition addTimer :: "nat \<Rightarrow> nat \<Rightarrow> 'cb \<Rightarrow> 'cb io_manager \<Rightarrow> 'cb io_manager" where
  "addTimer now delay_ticks task io =
     io\<lparr>timer_queue := multimap_insert (timer_due now delay_ticks, task) (timer_queue io)\<rparr>"

text \<open>The sections of one iteration of \<open>pollBody\<close>, in their order.\<close>

fun fire_timers :: "nat \<Rightarrow> (nat \<times> 'cb) list \<Rightarrow> 'cb io_manager \<Rightarrow> 'cb io_manager" where
  "fire_timers now [] io = io\<lparr>timer_queue := []\<rparr>"
| "fire_timers now ((ts, task) # q) io =
     (if ts > now then io\<lparr>timer_queue := (ts, task) # q\<rparr> else fire_timers now q (IOManager_addTask task io))"

definition dispatch_event :: "32 word \<times> nat \<Rightarrow> 'cb io_manager \<Rightarrow> 'cb io_manager option" where
  "dispatch_event ev io =
     (let e = getEvents (fst ev)
      in do {
        io1 \<leftarrow> if e AND (DP_ERROR OR DP_READ_READY) \<noteq> 0 then Descriptor_readIfWaiting (snd ev) io else Some io;
        if e AND (DP_ERROR OR DP_WRITE_READY) \<noteq> 0 then Descriptor_writeIfWaiting (snd ev) io1 else Some io1 })"

fun dispatch_events :: "(32 word \<times> nat) list \<Rightarrow> 'cb io_manager \<Rightarrow> 'cb io_manager option" where
  "dispatch_events [] io = Some io"
| "dispatch_events (ev # evs) io = Option.bind (dispatch_event ev io) (dispatch_events evs)"

fun delete_all :: "nat list \<Rightarrow> 'cb io_manager \<Rightarrow> 'cb io_manager option" where
  "delete_all [] io = Some io"
| "delete_all (d # ds) io = Option.bind (Descriptor_destroy d io) (delete_all ds)"

definition collect :: "'cb io_manager \<Rightarrow> 'cb io_manager option" where
  "collect io = delete_all (deleted_desc io) (io\<lparr>deleted_desc := []\<rparr>)"

definition poll_round :: "epoll_result list \<Rightarrow> nat \<Rightarrow> 'cb io_manager \<Rightarrow> 'cb io_manager option" where
  "poll_round rs now io =
     do {
       evs \<leftarrow> DescriptorPoller_poll rs;
       io1 \<leftarrow> dispatch_events evs (fire_timers now (timer_queue io) io);
       collect io1 }"

definition poll_begin :: "'cb io_manager \<Rightarrow> 'cb io_manager" where
  "poll_begin io = io\<lparr>polling := True\<rparr>"

definition poll_end :: "'cb io_manager \<Rightarrow> 'cb io_manager" where
  "poll_end io = io\<lparr>polling := False\<rparr>"

text \<open>
  \<open>stop\<close>: the first section, which says whether to go on; then it waits until \<open>polling_\<close> is false,
  stops the pool of \<open>n\<close> workers, and disposes of the descriptors.
\<close>

definition IOManager_stop_begin :: "'cb io_manager \<Rightarrow> bool \<times> 'cb io_manager" where
  "IOManager_stop_begin io = (if io_stopped io then (False, io) else (True, io\<lparr>io_stopped := True\<rparr>))"

definition IOManager_stop_pool :: "nat \<Rightarrow> 'cb io_manager \<Rightarrow> 'cb io_manager" where
  "IOManager_stop_pool n io = (if polling io then io else io\<lparr>worker_pool := Fast_stop n (worker_pool io)\<rparr>)"

definition IOManager_stop_end :: "'cb io_manager \<Rightarrow> 'cb io_manager option" where
  "IOManager_stop_end io = collect io"

section \<open>Edge-triggered readiness\<close>

text \<open>
  The calls on one descriptor, in the order of their sections under \<open>m_\<close>. What they mean for the
  reads (and likewise for the writes) is a machine with two flags that counts the callbacks.
\<close>

datatype desc_op = ReadRequest | WriteRequest | ReadReady | WriteReady

fun desc_exec :: "desc_op \<Rightarrow> nat \<Rightarrow> 'cb io_manager \<Rightarrow> 'cb io_manager option" where
  "desc_exec ReadRequest d io = Descriptor_readWhenReady d io"
| "desc_exec WriteRequest d io = Descriptor_writeWhenReady d io"
| "desc_exec ReadReady d io = Descriptor_readIfWaiting d io"
| "desc_exec WriteReady d io = Descriptor_writeIfWaiting d io"

fun desc_run :: "desc_op list \<Rightarrow> nat \<Rightarrow> 'cb io_manager \<Rightarrow> 'cb io_manager option" where
  "desc_run [] d io = Some io"
| "desc_run (x # xs) d io = Option.bind (desc_exec x d io) (desc_run xs d)"

definition scheduled :: "'cb \<Rightarrow> 'cb io_manager \<Rightarrow> nat" where
  "scheduled cb io = count (mset (f_added (worker_pool io))) (Some cb)"

definition edge_step :: "desc_op \<Rightarrow> desc_op \<Rightarrow> desc_op \<Rightarrow> bool \<times> bool \<times> nat \<Rightarrow> bool \<times> bool \<times> nat" where
  "edge_step req rdy x = (\<lambda>(can, waiting, k).
     if x = req then (if can then (False, waiting, Suc k) else (False, True, k))
     else if x = rdy then (if waiting then (can, False, Suc k) else (True, False, k))
     else (can, waiting, k))"

abbreviation read_edges :: "desc_op list \<Rightarrow> bool \<times> bool \<times> nat \<Rightarrow> bool \<times> bool \<times> nat" where
  "read_edges \<equiv> fold (edge_step ReadRequest ReadReady)"

abbreviation write_edges :: "desc_op list \<Rightarrow> bool \<times> bool \<times> nat \<Rightarrow> bool \<times> bool \<times> nat" where
  "write_edges \<equiv> fold (edge_step WriteRequest WriteReady)"

lemma desc_op_edges:
  assumes "descs io d = Some ds" "read_cb ds = Some r" "write_cb ds = Some w" "r \<noteq> w"
  shows "\<exists>io1 ds1. desc_exec x d io = Some io1 \<and> descs io1 d = Some ds1 \<and> read_cb ds1 = Some r \<and> write_cb ds1 = Some w \<and>
    (can_read ds1, waiting_read ds1, scheduled r io1)
      = edge_step ReadRequest ReadReady x (can_read ds, waiting_read ds, scheduled r io) \<and>
    (can_write ds1, waiting_write ds1, scheduled w io1)
      = edge_step WriteRequest WriteReady x (can_write ds, waiting_write ds, scheduled w io)"
  using assms
  by (cases x) (auto simp: Descriptor_readWhenReady_def Descriptor_writeWhenReady_def Descriptor_readIfWaiting_def
      Descriptor_writeIfWaiting_def schedule_def IOManager_addTask_def scheduled_def edge_step_def Let_def)

lemma desc_run_edges:
  assumes "descs io d = Some ds" "read_cb ds = Some r" "write_cb ds = Some w" "r \<noteq> w"
  shows "\<exists>io1 ds1. desc_run xs d io = Some io1 \<and> descs io1 d = Some ds1 \<and> read_cb ds1 = Some r \<and> write_cb ds1 = Some w \<and>
    (can_read ds1, waiting_read ds1, scheduled r io1) = read_edges xs (can_read ds, waiting_read ds, scheduled r io) \<and>
    (can_write ds1, waiting_write ds1, scheduled w io1) = write_edges xs (can_write ds, waiting_write ds, scheduled w io)"
  using assms
proof (induction xs arbitrary: io ds)
  case (Cons x xs)
  obtain io1 ds1 where 1: "desc_exec x d io = Some io1" "descs io1 d = Some ds1" "read_cb ds1 = Some r" "write_cb ds1 = Some w"
    "(can_read ds1, waiting_read ds1, scheduled r io1)
      = edge_step ReadRequest ReadReady x (can_read ds, waiting_read ds, scheduled r io)"
    "(can_write ds1, waiting_write ds1, scheduled w io1)
      = edge_step WriteRequest WriteReady x (can_write ds, waiting_write ds, scheduled w io)"
    using desc_op_edges [OF Cons.prems, of x] by blast
  show ?case using Cons.IH [OF 1(2-4) Cons.prems(4)] by (simp add: 1(1) 1(5,6) [symmetric])
qed simp

lemma edges_bounds:
  assumes "req \<noteq> rdy" "fold (edge_step req rdy) xs (c, w, k) = (c', w', k')"
  shows "k' + of_bool w' \<le> k + of_bool w + count_list xs req \<and> k' + of_bool c' \<le> k + of_bool c + count_list xs rdy \<and> k \<le> k'"
  using assms(2)
proof (induction xs arbitrary: c w k)
  case (Cons x xs)
  obtain c1 w1 k1 where 1: "edge_step req rdy x (c, w, k) = (c1, w1, k1)" by (metis prod_cases3)
  have "k' + of_bool w' \<le> k1 + of_bool w1 + count_list xs req" "k' + of_bool c' \<le> k1 + of_bool c1 + count_list xs rdy" "k1 \<le> k'"
    using Cons.IH [of c1 w1 k1] Cons.prems 1 by simp_all
  then show ?case using 1 assms(1) by (auto simp: edge_step_def split: if_splits)
qed simp

lemma waiting_served:
  assumes "req \<noteq> rdy" "rdy \<in> set xs" "fold (edge_step req rdy) xs (c, True, k) = (c', w', k')"
  shows "k < k'"
  using assms(2,3)
proof (induction xs arbitrary: c k)
  case (Cons x xs)
  obtain c1 w1 k1 where 1: "edge_step req rdy x (c, True, k) = (c1, w1, k1)" by (metis prod_cases3)
  have mono: "k1 \<le> k'" using edges_bounds [OF assms(1), of xs c1 w1 k1] Cons.prems(2) 1 by simp
  show ?case
  proof (cases "k1 = k")
    case True
    then have "w1" "x \<noteq> rdy" using 1 assms(1) by (auto simp: edge_step_def split: if_splits)
    then show ?thesis using Cons.IH [of c1 k1] Cons.prems 1 True by simp
  next
    case False
    then have "k1 > k" using 1 by (auto simp: edge_step_def split: if_splits)
    then show ?thesis using mono by simp
  qed
qed simp

lemma ready_served:
  assumes "req \<noteq> rdy" "req \<in> set xs" "fold (edge_step req rdy) xs (True, w, k) = (c', w', k')"
  shows "k < k'"
  using assms(2,3)
proof (induction xs arbitrary: w k)
  case (Cons x xs)
  obtain c1 w1 k1 where 1: "edge_step req rdy x (True, w, k) = (c1, w1, k1)" by (metis prod_cases3)
  have mono: "k1 \<le> k'" using edges_bounds [OF assms(1), of xs c1 w1 k1] Cons.prems(2) 1 by simp
  show ?case
  proof (cases "k1 = k")
    case True
    then have "c1" "x \<noteq> req" using 1 assms(1) by (auto simp: edge_step_def split: if_splits)
    then show ?thesis using Cons.IH [of w1 k1] Cons.prems 1 True by simp
  next
    case False
    then have "k1 > k" using 1 by (auto simp: edge_step_def split: if_splits)
    then show ?thesis using mono by simp
  qed
qed simp

lemma edges_matched:
  assumes ne: "req \<noteq> rdy" and ab: "(a = req \<and> b = rdy) \<or> (a = rdy \<and> b = req)" and b: "b \<in> set vs"
    and us: "fold (edge_step req rdy) us s = (c1, w1, k1)" and all: "fold (edge_step req rdy) (us @ a # vs) s = (c2, w2, k2)"
  shows "k1 < k2"
proof -
  obtain c w k where 1: "edge_step req rdy a (c1, w1, k1) = (c, w, k)" by (metis prod_cases3)
  have vs: "fold (edge_step req rdy) vs (c, w, k) = (c2, w2, k2)" using us all 1 by simp
  have mono: "k \<le> k2" using edges_bounds [OF ne vs] by simp
  show ?thesis
  proof (cases "k = k1")
    case False
    then have "k1 < k" using 1 by (auto simp: edge_step_def split: if_splits)
    then show ?thesis using mono by simp
  next
    case True
    show ?thesis
    proof (cases "a = req")
      case req: True
      then have "w" "b = rdy" using 1 True ab ne by (auto simp: edge_step_def split: if_splits)
      then show ?thesis using waiting_served [OF ne, of vs c k c2 w2 k2] vs b True by simp
    next
      case req: False
      then have "c" "b = req" using 1 True ab ne by (auto simp: edge_step_def split: if_splits)
      then show ?thesis using ready_served [OF ne, of vs w k c2 w2 k2] vs b True by simp
    qed
  qed
qed

section \<open>Timers\<close>

lemma sorted_takeWhile:
  "sorted (map fst q) \<Longrightarrow> takeWhile (\<lambda>y. fst y \<le> k) q = filter (\<lambda>y. fst y \<le> k) q \<and>
    dropWhile (\<lambda>y. fst y \<le> k) q = filter (\<lambda>y. \<not> fst y \<le> k) q"
  for k :: "'a :: linorder"
proof (induction q)
  case (Cons a q)
  have "filter (\<lambda>y. fst y \<le> k) q = [] \<and> filter (\<lambda>y. \<not> fst y \<le> k) q = q" if "\<not> fst a \<le> k"
    using Cons.prems that by (auto simp: filter_empty_conv filter_id_conv)
  then show ?case using Cons by auto
qed simp

lemma multimap_insert_sort: "multimap_insert x (sort_key fst xs) = sort_key fst (xs @ [x])"
proof (rule properties_for_sort_key [symmetric])
  let ?q = "sort_key fst xs"
  have eq: "multimap_insert x ?q = filter (\<lambda>y. fst y \<le> fst x) ?q @ x # filter (\<lambda>y. \<not> fst y \<le> fst x) ?q"
    using sorted_takeWhile [of ?q "fst x"] by (simp add: multimap_insert_def)
  show "mset (multimap_insert x ?q) = mset (xs @ [x])"
    using multiset_partition [of "mset xs" "\<lambda>y. fst y \<le> fst x"] by (simp add: eq)
  show "filter (\<lambda>y. fst k = fst y) (multimap_insert x ?q) = filter (\<lambda>y. fst k = fst y) (xs @ [x])"
    if "k \<in> set (multimap_insert x ?q)" for k
  proof -
    have st: "filter (\<lambda>y. fst k = fst y) ?q = filter (\<lambda>y. fst k = fst y) xs"
      using sort_key_stable [of fst "fst k" xs] by (simp add: eq_commute)
    show ?thesis
    proof (cases "fst k \<le> fst x")
      case True
      then have "filter (\<lambda>y. fst k = fst y) (filter (\<lambda>y. fst y \<le> fst x) ?q) = filter (\<lambda>y. fst k = fst y) ?q"
        "filter (\<lambda>y. fst k = fst y) (filter (\<lambda>y. \<not> fst y \<le> fst x) ?q) = []"
        by (auto simp: filter_empty_conv intro: filter_cong)
      then show ?thesis by (auto simp: eq st filter_empty_conv)
    next
      case False
      then have "filter (\<lambda>y. fst k = fst y) (filter (\<lambda>y. fst y \<le> fst x) ?q) = []"
        "filter (\<lambda>y. fst k = fst y) (filter (\<lambda>y. \<not> fst y \<le> fst x) ?q) = filter (\<lambda>y. fst k = fst y) ?q"
        by (auto simp: filter_empty_conv intro: filter_cong)
      then show ?thesis using False by (auto simp: eq st)
    qed
  qed
  show "sorted (map fst (multimap_insert x ?q))"
    by (auto simp: eq sorted_append intro: sorted_filter)
qed

text \<open>What the timers' section of a round does to a sorted queue.\<close>

lemma fire_timers_spec:
  "timer_queue (fire_timers now q io) = dropWhile (\<lambda>y. fst y \<le> now) q \<and>
   f_added (worker_pool (fire_timers now q io))
     = f_added (worker_pool io) @ map (Some \<circ> snd) (takeWhile (\<lambda>y. fst y \<le> now) q) \<and>
   f_finished (worker_pool (fire_timers now q io)) = f_finished (worker_pool io) \<and>
   fw_pc (worker_pool (fire_timers now q io)) = fw_pc (worker_pool io) \<and>
   descs (fire_timers now q io) = descs io \<and> next_desc (fire_timers now q io) = next_desc io \<and>
   deleted_desc (fire_timers now q io) = deleted_desc io \<and> cb_deleted (fire_timers now q io) = cb_deleted io"
  by (induction now q io rule: fire_timers.induct) (auto simp: IOManager_addTask_def)

text \<open>What one call on a descriptor leaves alone.\<close>

definition extends :: "'cb io_manager \<Rightarrow> 'cb io_manager \<Rightarrow> bool" where
  "extends io io1 \<longleftrightarrow> timer_queue io1 = timer_queue io \<and> deleted_desc io1 = deleted_desc io \<and> next_desc io1 = next_desc io \<and>
     cb_deleted io1 = cb_deleted io \<and> dom (descs io1) = dom (descs io) \<and>
     (\<exists>xs. f_added (worker_pool io1) = f_added (worker_pool io) @ xs) \<and>
     f_finished (worker_pool io1) = f_finished (worker_pool io) \<and> fw_pc (worker_pool io1) = fw_pc (worker_pool io)"

lemma extends_refl [simp]: "extends io io"
  by (simp add: extends_def)

lemma extends_trans: "extends io io1 \<Longrightarrow> extends io1 io2 \<Longrightarrow> extends io io2"
  by (auto simp: extends_def)

lemma schedule_extends:
  "descs io d = Some ds \<Longrightarrow> extends io (schedule cb b (io\<lparr>descs := (descs io)(d \<mapsto> ds1)\<rparr>))"
  by (auto simp: extends_def schedule_def IOManager_addTask_def split: option.split)

lemma desc_exec_extends: "desc_exec x d io = Some io1 \<Longrightarrow> extends io io1"
  by (cases x) (auto simp: Descriptor_readWhenReady_def Descriptor_writeWhenReady_def Descriptor_readIfWaiting_def
      Descriptor_writeIfWaiting_def Let_def intro: schedule_extends)

lemma desc_exec_total: "desc_exec x d io \<noteq> None \<longleftrightarrow> descs io d \<noteq> None"
  by (cases x) (auto simp: Descriptor_readWhenReady_def Descriptor_writeWhenReady_def Descriptor_readIfWaiting_def
      Descriptor_writeIfWaiting_def)

lemma dispatch_event_cases:
  "dispatch_event ev io =
    (let e = getEvents (fst ev)
     in do {
       io1 \<leftarrow> if e AND (DP_ERROR OR DP_READ_READY) \<noteq> 0 then desc_exec ReadReady (snd ev) io else Some io;
       if e AND (DP_ERROR OR DP_WRITE_READY) \<noteq> 0 then desc_exec WriteReady (snd ev) io1 else Some io1 })"
  by (simp only: dispatch_event_def desc_exec.simps)

lemma dispatch_event_extends: "dispatch_event ev io = Some io1 \<Longrightarrow> extends io io1"
  by (auto simp: dispatch_event_cases Let_def bind_eq_Some_conv simp del: desc_exec.simps
      split: if_splits dest!: desc_exec_extends intro: extends_trans)

lemma dispatch_event_total: "descs io (snd ev) \<noteq> None \<Longrightarrow> \<exists>io1. dispatch_event ev io = Some io1"
proof -
  assume d: "descs io (snd ev) \<noteq> None"
  have "\<exists>io1. desc_exec x (snd ev) io' = Some io1 \<and> descs io1 (snd ev) \<noteq> None" if nn: "descs io' (snd ev) \<noteq> None" for x io'
  proof -
    obtain io1 where "desc_exec x (snd ev) io' = Some io1" using desc_exec_total [of x "snd ev" io'] nn by auto
    moreover from desc_exec_extends [OF this] have "descs io1 (snd ev) \<noteq> None"
      using nn by (auto simp: extends_def dom_def)
    ultimately show ?thesis by blast
  qed
  note ex = this
  obtain io1 where 1: "desc_exec ReadReady (snd ev) io = Some io1" "descs io1 (snd ev) \<noteq> None" using ex [OF d] by blast
  obtain io2 where 2: "desc_exec WriteReady (snd ev) io1 = Some io2" using ex [OF 1(2)] by blast
  obtain io3 where 3: "desc_exec WriteReady (snd ev) io = Some io3" using ex [OF d] by blast
  show ?thesis by (simp add: dispatch_event_cases Let_def 1(1) 2 3 del: desc_exec.simps)
qed

lemma dispatch_events_extends: "dispatch_events evs io = Some io1 \<Longrightarrow> extends io io1"
  by (induction evs arbitrary: io) (auto simp: bind_eq_Some_conv dest: dispatch_event_extends intro: extends_trans)

lemma dispatch_events_total: "\<forall>ev \<in> set evs. descs io (snd ev) \<noteq> None \<Longrightarrow> \<exists>io1. dispatch_events evs io = Some io1"
proof (induction evs arbitrary: io)
  case (Cons ev evs)
  obtain io1 where 1: "dispatch_event ev io = Some io1" using dispatch_event_total Cons.prems by fastforce
  have "\<forall>ev \<in> set evs. descs io1 (snd ev) \<noteq> None"
    using Cons.prems dispatch_event_extends [OF 1] by (auto simp: extends_def dom_def)
  then show ?case using Cons.IH 1 by simp
qed simp

text \<open>Disposing of descriptors.\<close>

lemma Descriptor_destroy_spec:
  "descs io d = Some ds \<Longrightarrow> \<exists>io1. Descriptor_destroy d io = Some io1 \<and> descs io1 = (descs io)(d := None) \<and>
    worker_pool io1 = worker_pool io \<and> timer_queue io1 = timer_queue io \<and> next_desc io1 = next_desc io \<and>
    deleted_desc io1 = deleted_desc io \<and> set (cb_deleted io1) = set (cb_deleted io) \<union> set_option (read_cb ds) \<union> set_option (write_cb ds)"
  by (auto simp: Descriptor_destroy_def delete_cb_def split: option.split)

lemma delete_all_spec:
  "distinct l \<Longrightarrow> \<forall>d \<in> set l. descs io d \<noteq> None \<Longrightarrow>
    \<exists>io1. delete_all l io = Some io1 \<and> descs io1 = (\<lambda>d. if d \<in> set l then None else descs io d) \<and>
      worker_pool io1 = worker_pool io \<and> timer_queue io1 = timer_queue io \<and> next_desc io1 = next_desc io \<and>
      deleted_desc io1 = deleted_desc io \<and>
      set (cb_deleted io1) = set (cb_deleted io) \<union> (\<Union>d \<in> set l. set_option (read_cb (the (descs io d))) \<union> set_option (write_cb (the (descs io d))))"
proof (induction l arbitrary: io)
  case (Cons a l)
  then obtain ds where ds: "descs io a = Some ds" by auto
  obtain io1 where 1: "Descriptor_destroy a io = Some io1" "descs io1 = (descs io)(a := None)"
    "worker_pool io1 = worker_pool io" "timer_queue io1 = timer_queue io" "next_desc io1 = next_desc io"
    "deleted_desc io1 = deleted_desc io"
    "set (cb_deleted io1) = set (cb_deleted io) \<union> set_option (read_cb ds) \<union> set_option (write_cb ds)"
    using Descriptor_destroy_spec [OF ds] by blast
  have "\<forall>d \<in> set l. descs io1 d \<noteq> None" using Cons.prems 1(2) by auto
  moreover have "(\<Union>d \<in> set l. set_option (read_cb (the (descs io1 d))) \<union> set_option (write_cb (the (descs io1 d))))
    = (\<Union>d \<in> set l. set_option (read_cb (the (descs io d))) \<union> set_option (write_cb (the (descs io d))))"
    using Cons.prems(1) 1(2) by (intro SUP_cong) auto
  ultimately show ?case using Cons.IH [of io1] Cons.prems(1) 1 ds by (auto simp: fun_eq_iff)
qed simp

section \<open>Executions of the manager\<close>

text \<open>
  Clients create descriptors, issue calls on descriptors they have not handed to
  \<open>delDescriptor\<close>, hand each descriptor over once, and add timers and tasks; the polling thread
  runs its rounds and the workers run. A round is one step here, and one whose events are for
  a deleted descriptor does not succeed; \<open>Io_Poll\<close> runs the polling thread section by section
  and shows that no such event arises.
\<close>

inductive io_step :: "nat \<Rightarrow> 'cb io_manager \<Rightarrow> 'cb io_manager \<Rightarrow> bool" for n :: nat where
  io_new: "newDescriptor fd rcb wcb io = Some (d, io1) \<Longrightarrow> io_step n io io1"
| io_call: "desc_exec x d io = Some io1 \<Longrightarrow> io_step n io io1"
| io_upcalls: "setUpCalls d rcb wcb io = Some io1 \<Longrightarrow> io_step n io io1"
| io_del: "descs io d \<noteq> None \<Longrightarrow> d \<notin> set (deleted_desc io) \<Longrightarrow> io_step n io (delDescriptor (Some d) io)"
| io_timer: "io_step n io (addTimer now dt task io)"
| io_task: "io_step n io (IOManager_addTask task io)"
| io_work: "i < n \<Longrightarrow> io_step n io (io\<lparr>worker_pool := Fast_worker i (worker_pool io)\<rparr>)"
| io_begin: "io_step n io (poll_begin io)"
| io_round: "\<not> io_stopped io \<Longrightarrow> poll_round rs now io = Some io1 \<Longrightarrow> io_step n io io1"
| io_end: "io_stopped io \<Longrightarrow> io_step n io (poll_end io)"
| io_stop: "io_step n io (snd (IOManager_stop_begin io))"
| io_stop_pool: "io_stopped io \<Longrightarrow> io_step n io (IOManager_stop_pool n io)"
| io_stop_end: "\<forall>i < n. fw_pc (worker_pool io) i = FwExit \<Longrightarrow> IOManager_stop_end io = Some io1 \<Longrightarrow> io_step n io io1"

definition io_start :: "nat \<Rightarrow> 'cb io_manager \<Rightarrow> bool" where
  "io_start n io \<longleftrightarrow> io = IOManager_new n"

definition desc_ok :: "'cb descriptor \<Rightarrow> bool" where
  "desc_ok ds \<longleftrightarrow> \<not> (can_read ds \<and> waiting_read ds) \<and> \<not> (can_write ds \<and> waiting_write ds)"

definition descs_ok :: "'cb io_manager \<Rightarrow> bool" where
  "descs_ok io \<longleftrightarrow> (\<forall>d ds. descs io d = Some ds \<longrightarrow> desc_ok ds \<and> d < next_desc io) \<and>
     distinct (deleted_desc io) \<and> (\<forall>d \<in> set (deleted_desc io). descs io d \<noteq> None)"

definition io_inv :: "nat \<Rightarrow> 'cb io_manager \<Rightarrow> bool" where
  "io_inv n io \<longleftrightarrow> descs_ok io \<and> sorted (map fst (timer_queue io)) \<and> fast_inv n (worker_pool io)"

lemma schedule_inv:
  assumes "io_inv n io" "descs io d = Some ds" "desc_ok ds1"
  shows "io_inv n (schedule cb b (io\<lparr>descs := (descs io)(d \<mapsto> ds1)\<rparr>))"
  using assms
  by (auto simp: io_inv_def descs_ok_def schedule_def IOManager_addTask_def intro: Fast_addTask_inv split: option.split)

lemma desc_exec_inv:
  assumes "io_inv n io" "desc_exec x d io = Some io1"
  shows "io_inv n io1"
proof -
  obtain ds where ds: "descs io d = Some ds" using assms(2) desc_exec_total [of x d io] by auto
  then have "desc_ok ds" using assms(1) by (auto simp: io_inv_def descs_ok_def)
  then show ?thesis
    using assms(2) ds
    by (cases x) (auto simp: Descriptor_readWhenReady_def Descriptor_writeWhenReady_def Descriptor_readIfWaiting_def
        Descriptor_writeIfWaiting_def Let_def desc_ok_def intro!: schedule_inv [OF assms(1) ds])
qed

lemma addTask_io_inv: "io_inv n io \<Longrightarrow> io_inv n (IOManager_addTask task io)"
  by (auto simp: io_inv_def descs_ok_def IOManager_addTask_def intro: Fast_addTask_inv)

lemma timers_inv: "io_inv n io \<Longrightarrow> sorted (map fst q) \<Longrightarrow> io_inv n (io\<lparr>timer_queue := q\<rparr>)"
  by (simp add: io_inv_def descs_ok_def)

lemma fire_timers_inv: "io_inv n io \<Longrightarrow> sorted (map fst q) \<Longrightarrow> io_inv n (fire_timers now q io)"
  by (induction now q io rule: fire_timers.induct) (auto intro: timers_inv addTask_io_inv)

lemma multimap_insert_sorted:
  assumes "sorted (map fst q)"
  shows "sorted (map fst (multimap_insert x q))"
proof -
  have "sort_key fst q = q" using assms by (simp add: sorted_sort_id sort_key_id_if_sorted)
  then show ?thesis using multimap_insert_sort [of x q] by simp
qed

lemma dispatch_event_inv: "io_inv n io \<Longrightarrow> dispatch_event ev io = Some io1 \<Longrightarrow> io_inv n io1"
  by (auto simp: dispatch_event_cases Let_def bind_eq_Some_conv simp del: desc_exec.simps
      split: if_splits intro: desc_exec_inv)

lemma dispatch_events_inv: "io_inv n io \<Longrightarrow> dispatch_events evs io = Some io1 \<Longrightarrow> io_inv n io1"
  by (induction evs arbitrary: io) (auto simp: bind_eq_Some_conv dest: dispatch_event_inv)

lemma collect_spec:
  assumes "io_inv n io"
  shows "\<exists>io1. collect io = Some io1 \<and> io_inv n io1 \<and>
    descs io1 = (\<lambda>d. if d \<in> set (deleted_desc io) then None else descs io d) \<and> worker_pool io1 = worker_pool io \<and>
    timer_queue io1 = timer_queue io \<and> deleted_desc io1 = [] \<and>
    set (cb_deleted io1) = set (cb_deleted io) \<union> (\<Union>d \<in> set (deleted_desc io).
      set_option (read_cb (the (descs io d))) \<union> set_option (write_cb (the (descs io d))))"
proof -
  have d: "distinct (deleted_desc io)" "\<forall>d \<in> set (deleted_desc io). descs (io\<lparr>deleted_desc := []\<rparr>) d \<noteq> None"
    using assms by (auto simp: io_inv_def descs_ok_def)
  from delete_all_spec [OF d] obtain io1 where 1: "collect io = Some io1"
    "descs io1 = (\<lambda>d. if d \<in> set (deleted_desc io) then None else descs io d)" "worker_pool io1 = worker_pool io"
    "timer_queue io1 = timer_queue io" "next_desc io1 = next_desc io" "deleted_desc io1 = []"
    "set (cb_deleted io1) = set (cb_deleted io) \<union> (\<Union>d \<in> set (deleted_desc io).
      set_option (read_cb (the (descs io d))) \<union> set_option (write_cb (the (descs io d))))"
    by (auto simp: collect_def cong: if_cong)
  then have "io_inv n io1" using assms by (auto simp: io_inv_def descs_ok_def)
  then show ?thesis using 1 by blast
qed

lemma poll_round_inv:
  assumes "io_inv n io" "poll_round rs now io = Some io1"
  shows "io_inv n io1"
proof -
  obtain evs io2 where 2: "dispatch_events evs (fire_timers now (timer_queue io) io) = Some io2" "collect io2 = Some io1"
    using assms(2) by (auto simp: poll_round_def bind_eq_Some_conv)
  have "io_inv n (fire_timers now (timer_queue io) io)" using assms(1) by (intro fire_timers_inv) (simp_all add: io_inv_def)
  then have "io_inv n io2" by (rule dispatch_events_inv [OF _ 2(1)])
  then show ?thesis using collect_spec [of n io2] 2(2) by auto
qed

lemma Fast_stop_inv: "fast_inv n s \<Longrightarrow> fast_inv n (Fast_stop k s)"
  by (induction k) (simp_all add: Fast_stop_def Fast_addTask_inv)

lemma newDescriptor_inv:
  assumes "io_inv n io" "newDescriptor fd rcb wcb io = Some (d, io1)"
  shows "io_inv n io1"
  using assms by (auto simp: newDescriptor_def setEvent_def io_inv_def descs_ok_def desc_ok_def Descriptor_new_def Let_def less_Suc_eq
      split: if_splits)

lemma delete_cb_keeps [simp]:
  "descs (delete_cb cb io) = descs io" "next_desc (delete_cb cb io) = next_desc io"
  "deleted_desc (delete_cb cb io) = deleted_desc io" "timer_queue (delete_cb cb io) = timer_queue io"
  "worker_pool (delete_cb cb io) = worker_pool io"
  by (simp_all add: delete_cb_def split: option.split)

lemma setUpCalls_inv:
  assumes "io_inv n io" "setUpCalls d rcb wcb io = Some io1"
  shows "io_inv n io1"
  using assms by (auto simp: setUpCalls_def io_inv_def descs_ok_def desc_ok_def split: if_splits)

lemma phase_inv:
  assumes "io_inv n io"
  shows "io_inv n (poll_begin io)" "io_inv n (poll_end io)" "io_inv n (snd (IOManager_stop_begin io))"
  using assms by (simp_all add: io_inv_def descs_ok_def poll_begin_def poll_end_def IOManager_stop_begin_def)

interpretation iom: transition_system "io_start n" "io_step n" "io_inv n" for n
proof unfold_locales
  show "io_inv n s" if "io_start n s" for s :: "'a io_manager"
    using that ThreadPoolFast_new_inv by (auto simp: io_start_def io_inv_def descs_ok_def IOManager_new_def)
  show "io_inv n t" if st: "io_step n s t" "io_inv n s" for s t :: "'a io_manager"
    using st
  proof cases
    case (io_timer now dt task)
    then show ?thesis
      using timers_inv [OF st(2) multimap_insert_sorted] st(2) by (simp add: addTimer_def io_inv_def)
  next
    case (io_stop_end)
    then show ?thesis using st(2) collect_spec [of n s] by (auto simp: IOManager_stop_end_def)
  next
    case (io_work i)
    then show ?thesis using st(2) Fast_worker_inv by (auto simp: io_inv_def descs_ok_def)
  next
    case io_stop_pool
    then show ?thesis using st(2) Fast_stop_inv by (auto simp: io_inv_def descs_ok_def IOManager_stop_pool_def)
  next
    case (io_del d)
    then show ?thesis using st(2) by (auto simp: io_inv_def descs_ok_def delDescriptor_def)
  qed (use st(2) in \<open>auto intro: newDescriptor_inv desc_exec_inv setUpCalls_inv addTask_io_inv poll_round_inv phase_inv\<close>)
qed

lemma poll_round_split:
  assumes "poll_round rs now io = Some io1" "io_inv n io"
  shows "\<exists>io2. extends (fire_timers now (timer_queue io) io) io2 \<and> timer_queue io1 = timer_queue io2 \<and>
    worker_pool io1 = worker_pool io2"
proof -
  obtain evs io2 where 2: "dispatch_events evs (fire_timers now (timer_queue io) io) = Some io2" "collect io2 = Some io1"
    using assms(1) by (auto simp: poll_round_def bind_eq_Some_conv)
  have "io_inv n (fire_timers now (timer_queue io) io)" using assms(2) by (intro fire_timers_inv) (simp_all add: io_inv_def)
  then have "io_inv n io2" by (rule dispatch_events_inv [OF _ 2(1)])
  then show ?thesis using collect_spec [of n io2] 2 dispatch_events_extends [OF 2(1)] by auto
qed

text \<open>A worker that has left its loop stays out of it.\<close>

lemma io_step_exit:
  assumes st: "io_step n io io1" and inv: "io_inv n io" and ex: "fw_pc (worker_pool io) i = FwExit"
  shows "fw_pc (worker_pool io1) i = FwExit"
  using st
proof cases
  case (io_call x d)
  then show ?thesis using ex desc_exec_extends [OF io_call] by (simp add: extends_def)
next
  case (io_round rs now)
  then obtain io2 where "extends (fire_timers now (timer_queue io) io) io2" "worker_pool io1 = worker_pool io2"
    using poll_round_split inv by blast
  then show ?thesis using ex fire_timers_spec [of now "timer_queue io" io] by (simp add: extends_def)
next
  case io_stop_end
  then show ?thesis using ex collect_spec [OF inv] by (auto simp: IOManager_stop_end_def)
next
  case (io_new fd rcb wcb d)
  then show ?thesis using ex by (auto simp: newDescriptor_def setEvent_def Let_def split: if_splits)
next
  case (io_upcalls d rcb wcb)
  then show ?thesis using ex by (auto simp: setUpCalls_def)
qed (use ex in \<open>simp_all add: delDescriptor_def addTimer_def IOManager_addTask_def Fast_worker_exit poll_begin_def poll_end_def
       IOManager_stop_begin_def IOManager_stop_pool_def\<close>)

section \<open>Properties\<close>

text \<open>
  C10. A descriptor neither loses nor invents readiness. Whatever the order of the requests of
  the connection and the events of the poller: the read callback is scheduled at most once for
  each request and at most once for each event; a request that is followed by an event, or
  an event that is followed by a request, leads to one more callback; the same holds of writes.
\<close>

theorem Descriptor_no_lost_event:
  fixes io :: "'cb io_manager"
  assumes "descs io d = Some (Descriptor_new fd (Some r) (Some w))" "r \<noteq> w"
  shows "\<exists>io1 io2. desc_run us d io = Some io1 \<and> desc_run (us @ a # vs) d io = Some io2 \<and>
    scheduled r io1 \<le> scheduled r io + min (count_list us ReadRequest) (count_list us ReadReady) \<and>
    scheduled w io1 \<le> scheduled w io + min (count_list us WriteRequest) (count_list us WriteReady) \<and>
    ((a = ReadRequest \<and> ReadReady \<in> set vs) \<or> (a = ReadReady \<and> ReadRequest \<in> set vs) \<longrightarrow> scheduled r io1 < scheduled r io2) \<and>
    ((a = WriteRequest \<and> WriteReady \<in> set vs) \<or> (a = WriteReady \<and> WriteRequest \<in> set vs) \<longrightarrow> scheduled w io1 < scheduled w io2)"
proof -
  let ?ds = "Descriptor_new fd (Some r) (Some w)"
  have cbs: "read_cb ?ds = Some r" "write_cb ?ds = Some w" by (simp_all add: Descriptor_new_def)
  have new: "(can_read ?ds, waiting_read ?ds, k) = (False, False, k)" "(can_write ?ds, waiting_write ?ds, k) = (False, False, k)" for k :: nat
    by (simp_all add: Descriptor_new_def)
  note run = desc_run_edges [OF assms(1) cbs assms(2), unfolded new]
  obtain io1 and ds1 :: "'cb descriptor" where 1: "desc_run us d io = Some io1"
    "(can_read ds1, waiting_read ds1, scheduled r io1) = read_edges us (False, False, scheduled r io)"
    "(can_write ds1, waiting_write ds1, scheduled w io1) = write_edges us (False, False, scheduled w io)"
    using run [of us] by blast
  obtain io2 and ds2 :: "'cb descriptor" where 2: "desc_run (us @ a # vs) d io = Some io2"
    "(can_read ds2, waiting_read ds2, scheduled r io2) = read_edges (us @ a # vs) (False, False, scheduled r io)"
    "(can_write ds2, waiting_write ds2, scheduled w io2) = write_edges (us @ a # vs) (False, False, scheduled w io)"
    using run [of "us @ a # vs"] by blast
  have ne: "ReadRequest \<noteq> ReadReady" "WriteRequest \<noteq> WriteReady" by simp_all
  have "scheduled r io1 \<le> scheduled r io + min (count_list us ReadRequest) (count_list us ReadReady)"
    "scheduled w io1 \<le> scheduled w io + min (count_list us WriteRequest) (count_list us WriteReady)"
    using edges_bounds [OF ne(1) 1(2) [symmetric]] edges_bounds [OF ne(2) 1(3) [symmetric]] by (simp_all add: min_def)
  moreover have "(a = ReadRequest \<and> ReadReady \<in> set vs) \<or> (a = ReadReady \<and> ReadRequest \<in> set vs) \<longrightarrow> scheduled r io1 < scheduled r io2"
    using edges_matched [OF ne(1) _ _ 1(2) [symmetric] 2(2) [symmetric]] by blast
  moreover have "(a = WriteRequest \<and> WriteReady \<in> set vs) \<or> (a = WriteReady \<and> WriteRequest \<in> set vs) \<longrightarrow> scheduled w io1 < scheduled w io2"
    using edges_matched [OF ne(2) _ _ 1(3) [symmetric] 2(3) [symmetric]] by blast
  ultimately show ?thesis using 1(1) 2(1) by blast
qed

definition sample_io :: "string io_manager" where
  "sample_io = snd (the (newDescriptor 7 (Some ''read'') (Some ''write'') (IOManager_new 1)))"

lemma sample_io_desc: "descs sample_io 0 = Some (Descriptor_new 7 (Some ''read'') (Some ''write''))"
  by (simp add: sample_io_def newDescriptor_def setEvent_def IOManager_new_def Let_def)

theorem Descriptor_no_lost_event_witness:
  "\<exists>io1 io2. desc_run [] 0 sample_io = Some io1 \<and> desc_run [ReadReady, WriteReady, ReadRequest] 0 sample_io = Some io2 \<and>
    scheduled ''read'' io1 < scheduled ''read'' io2"
  using Descriptor_no_lost_event [OF sample_io_desc, of "[]" ReadReady "[WriteReady, ReadRequest]"] by auto

lemma fold_addTimer:
  assumes "timer_queue io = sort_key fst q"
  shows "timer_queue (fold (\<lambda>(now, dt, task). addTimer now dt task) adds io)
      = sort_key fst (q @ map (\<lambda>(now, dt, task). (timer_due now dt, task)) adds) \<and>
    worker_pool (fold (\<lambda>(now, dt, task). addTimer now dt task) adds io) = worker_pool io \<and>
    (io_inv n io \<longrightarrow> io_inv n (fold (\<lambda>(now, dt, task). addTimer now dt task) adds io))"
  using assms
proof (induction adds arbitrary: io q)
  case (Cons a adds)
  obtain now dt task where a: "a = (now, dt, task)" by (metis prod_cases3)
  have "timer_queue (addTimer now dt task io) = sort_key fst (q @ [(timer_due now dt, task)])"
    using Cons.prems by (simp add: addTimer_def multimap_insert_sort)
  moreover have "io_inv n io \<longrightarrow> io_inv n (addTimer now dt task io)"
    using timers_inv [of n io, OF _ multimap_insert_sorted] by (simp add: addTimer_def io_inv_def)
  ultimately show ?case
    using Cons.IH [of "addTimer now dt task io" "q @ [(timer_due now dt, task)]"] a by (simp add: addTimer_def)
qed simp

text \<open>
  C33. Timers fire in the order of their due times, those with equal times in the order of the
  \<open>addTimer\<close> calls, exactly once, in the first round whose clock has reached them and not
  earlier, whatever the events of that round; the due time is exact below \<open>2 ^ 53\<close> ticks.
\<close>

theorem addTimer_fires:
  assumes inv: "io_inv n io" and empty: "timer_queue io = []"
    and io1: "io1 = fold (\<lambda>(now, dt, task). addTimer now dt task) adds io"
    and due: "due = map (\<lambda>(now, dt, task). (timer_due now dt, task)) adds"
    and round: "poll_round rs now io1 = Some io2"
  shows "timer_queue io2 = sort_key fst (filter (\<lambda>x. fst x > now) due) \<and>
    (\<exists>events. f_added (worker_pool io2)
       = f_added (worker_pool io) @ map (Some \<circ> snd) (sort_key fst (filter (\<lambda>x. fst x \<le> now) due)) @ events) \<and>
    (\<forall>t dt task. (t, dt, task) \<in> set adds \<and> t + dt < 2 ^ 53 \<longrightarrow> (t + dt, task) \<in> set due)"
proof -
  have q: "timer_queue io1 = sort_key fst due" "worker_pool io1 = worker_pool io" "io_inv n io1"
    using fold_addTimer [of io "[]" adds n] inv empty by (simp_all add: io1 due)
  have s: "sorted (map fst (sort_key fst due))" by simp
  note split = sorted_takeWhile [OF s, of now]
  have rest: "filter (\<lambda>y. \<not> fst y \<le> now) (sort_key fst due) = sort_key fst (filter (\<lambda>x. fst x > now) due)"
    and fired: "filter (\<lambda>y. fst y \<le> now) (sort_key fst due) = sort_key fst (filter (\<lambda>x. fst x \<le> now) due)"
    by (simp_all add: filter_sort not_le)
  obtain io3 where 3: "extends (fire_timers now (timer_queue io1) io1) io3" "timer_queue io2 = timer_queue io3"
    "worker_pool io2 = worker_pool io3"
    using poll_round_split [OF round q(3)] by blast
  have "timer_queue io2 = sort_key fst (filter (\<lambda>x. fst x > now) due)"
    using 3 fire_timers_spec [of now "timer_queue io1" io1] split rest by (simp add: extends_def q(1))
  moreover obtain events where "f_added (worker_pool io3)
      = f_added (worker_pool (fire_timers now (timer_queue io1) io1)) @ events"
    using 3(1) by (auto simp: extends_def)
  then have "f_added (worker_pool io2)
      = f_added (worker_pool io) @ map (Some \<circ> snd) (sort_key fst (filter (\<lambda>x. fst x \<le> now) due)) @ events"
    using 3(3) fire_timers_spec [of now "timer_queue io1" io1] split fired q by simp
  moreover have "(t + dt, task) \<in> set due" if "(t, dt, task) \<in> set adds" "t + dt < 2 ^ 53" for t dt task
    using that unfolding due by (auto simp: timer_due_def intro!: image_eqI [of _ _ "(t, dt, task)"])
  ultimately show ?thesis by blast
qed

theorem addTimer_fires_witness:
  "timer_queue (the (poll_round [] 6 (addTimer 0 5 ''b'' (addTimer 1 8 ''c'' (addTimer 0 5 ''a'' (IOManager_new 1))))))
    = [(9, ''c'')]"
proof -
  have inv: "io_inv 1 (IOManager_new 1 :: string io_manager)"
    using ThreadPoolFast_new_inv by (auto simp: io_inv_def descs_ok_def IOManager_new_def)
  let ?adds = "[(0, 5, ''a''), (1, 8, ''c''), (0, 5, ''b'')]"
  let ?io1 = "fold (\<lambda>(now, dt, task). addTimer now dt task) ?adds (IOManager_new 1)"
  have "\<exists>io2. poll_round [] 6 ?io1 = Some io2"
    using collect_spec [OF fire_timers_inv, of 1 ?io1 "timer_queue ?io1" 6] fold_addTimer [of "IOManager_new 1" "[]" ?adds 1] inv
    by (auto simp: poll_round_def IOManager_new_def)
  then obtain io2 where io2: "poll_round [] 6 ?io1 = Some io2" by blast
  have "timer_queue io2 = [(9, ''c'')]"
    using addTimer_fires [OF inv _ refl refl io2] by (simp add: IOManager_new_def timer_due_def)
  then show ?thesis using io2 by simp
qed

text \<open>
  C39. \<open>delDescriptor\<close> is not safe while a callback of the descriptor is queued: when an event has
  scheduled the read callback and the descriptor is handed over before a worker ran it, the
  next round deletes the callback although the pool still holds it and will call it.
\<close>

theorem delDescriptor_frees_queued_callback:
  assumes inv: "io_inv n io" and d: "descs io d = Some ds" "d \<notin> set (deleted_desc io)"
    and cb: "waiting_read ds" "read_cb ds = Some cb"
  shows "\<exists>io1 io2. Descriptor_readIfWaiting d io = Some io1 \<and> poll_round [] now (delDescriptor (Some d) io1) = Some io2 \<and>
    cb \<in> set (cb_deleted io2) \<and>
    Some cb \<in># (\<Sum>w < n. fast_holds (worker_pool io2) w) + mset (dispatch_queue (worker_pool io2))"
proof -
  obtain io1 where 1: "desc_exec ReadReady d io = Some io1" using desc_exec_total [of ReadReady d io] d(1) by auto
  define io2 where "io2 = delDescriptor (Some d) io1"
  have d1: "descs io1 d = Some (ds\<lparr>waiting_read := False\<rparr>)"
    "f_added (worker_pool io1) = f_added (worker_pool io) @ [Some cb]" "f_finished (worker_pool io1) = f_finished (worker_pool io)"
    "deleted_desc io1 = deleted_desc io"
    using 1 d(1) cb by (auto simp: Descriptor_readIfWaiting_def schedule_def IOManager_addTask_def Let_def)
  have "io_inv n io1" by (rule desc_exec_inv [OF inv 1])
  then have inv2: "io_inv n io2" using d(2) d1 by (auto simp: io2_def io_inv_def descs_ok_def delDescriptor_def)
  define f where "f = fire_timers now (timer_queue io2) io2"
  have f: "io_inv n f" using fire_timers_inv [OF inv2] inv2 by (simp add: f_def io_inv_def)
  note fs = fire_timers_spec [of now "timer_queue io2" io2, folded f_def]
  obtain io3 where 3: "collect f = Some io3" "io_inv n io3" "worker_pool io3 = worker_pool f"
    "set (cb_deleted io3) = set (cb_deleted f) \<union> (\<Union>d \<in> set (deleted_desc f).
      set_option (read_cb (the (descs f d))) \<union> set_option (write_cb (the (descs f d))))"
    using collect_spec [OF f] by blast
  have "d \<in> set (deleted_desc f)" "read_cb (the (descs f d)) = Some cb"
    using fs d1(1) cb by (simp_all add: io2_def delDescriptor_def)
  then have del: "cb \<in> set (cb_deleted io3)" using 3(4) by auto
  have held: "Some cb \<in># (\<Sum>w < n. fast_holds (worker_pool io3) w) + mset (dispatch_queue (worker_pool io3))"
  proof -
    let ?c = "\<lambda>xs. count (mset xs) (Some cb)"
    have "fast_inv n (worker_pool io)" "fast_inv n (worker_pool io3)" using inv 3(2) by (simp_all add: io_inv_def)
    then have "?c (f_finished (worker_pool io)) \<le> ?c (f_added (worker_pool io))" and acc: "?c (f_added (worker_pool io3))
        = ?c (f_finished (worker_pool io3)) + count ((\<Sum>w < n. fast_holds (worker_pool io3) w) + mset (dispatch_queue (worker_pool io3))) (Some cb)"
      by (simp_all add: fast_accounting)
    moreover have "?c (f_added (worker_pool io3)) > ?c (f_added (worker_pool io))"
      "?c (f_finished (worker_pool io3)) = ?c (f_finished (worker_pool io))"
      using fs d1 3(3) by (simp_all add: io2_def delDescriptor_def)
    ultimately have "0 < count ((\<Sum>w < n. fast_holds (worker_pool io3) w) + mset (dispatch_queue (worker_pool io3))) (Some cb)"
      by linarith
    then show ?thesis by (simp only: count_greater_zero_iff)
  qed
  have "poll_round [] now io2 = Some io3" using 3(1) by (simp add: poll_round_def f_def)
  then show ?thesis using 1 del held by (auto simp: io2_def)
qed

theorem delDescriptor_frees_queued_callback_witness:
  "\<exists>io0 io1 io2. Descriptor_readWhenReady 0 sample_io = Some io0 \<and> Descriptor_readIfWaiting 0 io0 = Some io1 \<and>
    poll_round [] 0 (delDescriptor (Some 0) io1) = Some io2 \<and> ''read'' \<in> set (cb_deleted io2)"
proof -
  let ?ds = "(Descriptor_new 7 (Some ''read'') (Some ''write''))\<lparr>waiting_read := True\<rparr>"
  let ?io0 = "sample_io\<lparr>descs := (descs sample_io)(0 \<mapsto> ?ds)\<rparr>"
  have "io_inv 1 (IOManager_new 1 :: string io_manager)"
    using ThreadPoolFast_new_inv by (auto simp: io_inv_def descs_ok_def IOManager_new_def)
  moreover have "newDescriptor 7 (Some ''read'') (Some ''write'') (IOManager_new 1) = Some (0, sample_io)"
    by (simp add: sample_io_def newDescriptor_def setEvent_def IOManager_new_def Let_def)
  ultimately have inv: "io_inv 1 sample_io" by (rule newDescriptor_inv)
  have 0: "Descriptor_readWhenReady 0 sample_io = Some ?io0"
    using sample_io_desc by (simp add: Descriptor_readWhenReady_def schedule_def Descriptor_new_def Let_def)
  then have "desc_exec ReadRequest 0 sample_io = Some ?io0" by simp
  then have "io_inv 1 ?io0" by (rule desc_exec_inv [OF inv])
  moreover have "0 \<notin> set (deleted_desc ?io0)"
    by (simp add: sample_io_def newDescriptor_def setEvent_def IOManager_new_def Let_def)
  moreover have "descs ?io0 0 = Some ?ds" "waiting_read ?ds" "read_cb ?ds = Some ''read''"
    by (simp_all add: Descriptor_new_def)
  ultimately show ?thesis using delDescriptor_frees_queued_callback [of 1 ?io0 0 ?ds "''read''" 0] 0 by blast
qed

end
