(* ===== verification/Io_Poll.thy ===== *)
theory Io_Poll
  imports Io_Manager
begin

text \<open>
  The polling thread of \<^verbatim>\<open>src/io_manager.cpp\<close> section by section, interleaved with the clients,
  the workers and \<open>stop\<close>. \<open>poll_move\<close> is the next step of \<open>poll\<close>: the test of \<open>stopped_\<close>,
  \<open>epoll_wait\<close>, each due timer (with \<open>m_timer_queue_\<close> held, so that \<open>addTimer\<close> waits), each
  call on a descriptor, taking the list of handed-over descriptors, and each \<open>delete\<close>;
  \<open>stop_move\<close> is the next step of \<open>stop\<close>. Both are \<open>None\<close> where the code would touch a deleted
  descriptor, and \<open>poll_move\<close> also at the \<open>exit(1)\<close> of a failed \<open>epoll_wait\<close>. \<open>pm_handed\<close> records
  the descriptors given to \<open>delDescriptor\<close>, \<open>pm_gone\<close> the deleted ones.
\<close>

section \<open>The steps of the polling thread and of stop\<close>

datatype poll_pc =
    PmOut | PmTop | PmWait
  | PmTimers "(32 word \<times> nat) list"
  | PmFire nat "(32 word \<times> nat) list"
  | PmEvents "(32 word \<times> nat) list"
  | PmSecond "32 word \<times> nat" "(32 word \<times> nat) list"
  | PmCollect
  | PmDelete "nat list"
  | PmLeave

datatype stop_pc = SpOut | SpWait | SpPool | SpJoin | SpDispose

record 'cb poll_sys =
  pm_io :: "'cb io_manager"
  pm_pc :: poll_pc
  pm_stop :: stop_pc
  pm_handed :: "nat list"
  pm_gone :: "nat list"

definition poll_sys_new :: "nat \<Rightarrow> 'cb poll_sys" where
  "poll_sys_new n = \<lparr>pm_io = IOManager_new n, pm_pc = PmOut, pm_stop = SpOut, pm_handed = [], pm_gone = []\<rparr>"

definition pm_goto :: "poll_pc \<Rightarrow> 'cb io_manager \<Rightarrow> 'cb poll_sys \<Rightarrow> 'cb poll_sys" where
  "pm_goto pc io s = s\<lparr>pm_io := io, pm_pc := pc\<rparr>"

text \<open>The two calls for one event.\<close>

definition event_read :: "32 word \<times> nat \<Rightarrow> 'cb io_manager \<Rightarrow> 'cb io_manager option" where
  "event_read ev io =
     (if getEvents (fst ev) AND (DP_ERROR OR DP_READ_READY) \<noteq> 0 then Descriptor_readIfWaiting (snd ev) io else Some io)"

definition event_write :: "32 word \<times> nat \<Rightarrow> 'cb io_manager \<Rightarrow> 'cb io_manager option" where
  "event_write ev io =
     (if getEvents (fst ev) AND (DP_ERROR OR DP_WRITE_READY) \<noteq> 0 then Descriptor_writeIfWaiting (snd ev) io else Some io)"

definition poll_delete :: "nat \<Rightarrow> 'cb poll_sys \<Rightarrow> 'cb poll_sys option" where
  "poll_delete d s = map_option (\<lambda>io. s\<lparr>pm_io := io, pm_gone := pm_gone s @ [d]\<rparr>) (Descriptor_destroy d (pm_io s))"

definition poll_move :: "epoll_result list \<Rightarrow> nat \<Rightarrow> 'cb poll_sys \<Rightarrow> 'cb poll_sys option" where
  "poll_move rs now s =
     (let io = pm_io s
      in case pm_pc s of
           PmOut \<Rightarrow> Some (pm_goto PmTop (poll_begin io) s)
         | PmTop \<Rightarrow> Some (pm_goto (if io_stopped io then PmLeave else PmWait) io s)
         | PmWait \<Rightarrow> map_option (\<lambda>evs. pm_goto (PmTimers evs) io s) (DescriptorPoller_poll rs)
         | PmTimers evs \<Rightarrow> Some (pm_goto (PmFire now evs) io s)
         | PmFire t evs \<Rightarrow>
             (case timer_queue io of
                [] \<Rightarrow> Some (pm_goto (PmEvents evs) io s)
              | (ts, task) # q \<Rightarrow>
                  if ts > t then Some (pm_goto (PmEvents evs) io s)
                  else Some (pm_goto (PmFire t evs) (IOManager_addTask task io\<lparr>timer_queue := q\<rparr>) s))
         | PmEvents [] \<Rightarrow> Some (pm_goto PmCollect io s)
         | PmEvents (ev # evs) \<Rightarrow> map_option (\<lambda>io1. pm_goto (PmSecond ev evs) io1 s) (event_read ev io)
         | PmSecond ev evs \<Rightarrow> map_option (\<lambda>io1. pm_goto (PmEvents evs) io1 s) (event_write ev io)
         | PmCollect \<Rightarrow> Some (pm_goto (PmDelete (deleted_desc io)) (io\<lparr>deleted_desc := []\<rparr>) s)
         | PmDelete [] \<Rightarrow> Some (pm_goto PmTop io s)
         | PmDelete (d # ds) \<Rightarrow> poll_delete d (s\<lparr>pm_pc := PmDelete ds\<rparr>)
         | PmLeave \<Rightarrow> Some (pm_goto PmOut (poll_end io) s))"

text \<open>
  \<open>stop\<close>: only the first call goes beyond the test of \<open>stopped_\<close>; a wait that is not over leaves the
  state as it is.
\<close>

definition stop_move :: "nat \<Rightarrow> 'cb poll_sys \<Rightarrow> 'cb poll_sys option" where
  "stop_move n s =
     (let io = pm_io s
      in case pm_stop s of
           SpOut \<Rightarrow>
             (case IOManager_stop_begin io of (go, io1) \<Rightarrow> Some (if go then s\<lparr>pm_io := io1, pm_stop := SpWait\<rparr> else s))
         | SpWait \<Rightarrow> Some (if polling io then s else s\<lparr>pm_stop := SpPool\<rparr>)
         | SpPool \<Rightarrow> Some (s\<lparr>pm_io := io\<lparr>worker_pool := Fast_stop n (worker_pool io)\<rparr>, pm_stop := SpJoin\<rparr>)
         | SpJoin \<Rightarrow> Some (if \<forall>i < n. fw_pc (worker_pool io) i = FwExit then s\<lparr>pm_stop := SpDispose\<rparr> else s)
         | SpDispose \<Rightarrow>
             (case deleted_desc io of
                [] \<Rightarrow> Some (s\<lparr>pm_stop := SpOut\<rparr>)
              | d # ds \<Rightarrow> poll_delete d (s\<lparr>pm_io := io\<lparr>deleted_desc := ds\<rparr>\<rparr>)))"

section \<open>Executions\<close>

text \<open>
  What the manager relies on. Of the kernel: \<open>epoll_wait\<close> reports descriptors that are in its set,
  and \<open>close\<close> takes a descriptor out of the set. Of the clients: a descriptor is handed over
  once, behind the \<open>close\<close> of its file (as \<open>Connection::~Connection\<close> and \<open>Acceptor::close\<close>
  do), and not while \<open>stop\<close> disposes of the list without its lock.
\<close>

definition poll_close :: "int \<Rightarrow> 'cb io_manager \<Rightarrow> 'cb io_manager" where
  "poll_close fd io = io\<lparr>poll_set := filter (\<lambda>x. fst x \<noteq> fd) (poll_set io)\<rparr>"

definition in_fire :: "poll_pc \<Rightarrow> bool" where
  "in_fire pc = (case pc of PmFire t evs \<Rightarrow> True | _ \<Rightarrow> False)"

inductive pm_step :: "nat \<Rightarrow> 'cb poll_sys \<Rightarrow> 'cb poll_sys \<Rightarrow> bool" for n :: nat where
  pm_new: "newDescriptor fd rcb wcb (pm_io s) = Some (d, io1) \<Longrightarrow> pm_step n s (s\<lparr>pm_io := io1\<rparr>)"
| pm_call: "x \<in> {ReadRequest, WriteRequest} \<Longrightarrow> desc_exec x d (pm_io s) = Some io1 \<Longrightarrow> pm_step n s (s\<lparr>pm_io := io1\<rparr>)"
| pm_upcalls: "setUpCalls d rcb wcb (pm_io s) = Some io1 \<Longrightarrow> pm_step n s (s\<lparr>pm_io := io1\<rparr>)"
| pm_close: "pm_step n s (s\<lparr>pm_io := poll_close fd (pm_io s)\<rparr>)"
| pm_del: "d < next_desc (pm_io s) \<Longrightarrow> d \<notin> set (pm_handed s) \<Longrightarrow> d \<notin> snd ` set (poll_set (pm_io s)) \<Longrightarrow>
    pm_stop s \<noteq> SpDispose \<Longrightarrow>
    pm_step n s (s\<lparr>pm_io := delDescriptor (Some d) (pm_io s), pm_handed := d # pm_handed s\<rparr>)"
| pm_timer: "\<not> in_fire (pm_pc s) \<Longrightarrow> pm_step n s (s\<lparr>pm_io := addTimer now dt task (pm_io s)\<rparr>)"
| pm_task: "pm_step n s (s\<lparr>pm_io := IOManager_addTask task (pm_io s)\<rparr>)"
| pm_work: "i < n \<Longrightarrow> pm_step n s (s\<lparr>pm_io := (pm_io s)\<lparr>worker_pool := Fast_worker i (worker_pool (pm_io s))\<rparr>\<rparr>)"
| pm_poll: "pm_pc s = PmWait \<longrightarrow> (\<forall>evs ev. DescriptorPoller_poll rs = Some evs \<and> ev \<in> set evs \<longrightarrow>
      snd ev \<in> snd ` set (poll_set (pm_io s))) \<Longrightarrow>
    poll_move rs now s = Some t \<Longrightarrow> pm_step n s t"
| pm_stop: "stop_move n s = Some t \<Longrightarrow> pm_step n s t"

definition pm_start :: "nat \<Rightarrow> 'cb poll_sys \<Rightarrow> bool" where
  "pm_start n s \<longleftrightarrow> s = poll_sys_new n"

fun pm_pending :: "poll_pc \<Rightarrow> nat set" where
  "pm_pending (PmTimers evs) = snd ` set evs"
| "pm_pending (PmFire t evs) = snd ` set evs"
| "pm_pending (PmEvents evs) = snd ` set evs"
| "pm_pending (PmSecond ev evs) = insert (snd ev) (snd ` set evs)"
| "pm_pending pc = {}"

fun to_delete :: "poll_pc \<Rightarrow> nat list" where
  "to_delete (PmDelete ds) = ds"
| "to_delete pc = []"

fun in_round :: "poll_pc \<Rightarrow> bool" where
  "in_round PmOut = False"
| "in_round PmTop = False"
| "in_round PmLeave = False"
| "in_round pc = True"

definition live :: "'cb io_manager \<Rightarrow> nat set" where
  "live io = dom (descs io)"

definition pm_inv :: "nat \<Rightarrow> 'cb poll_sys \<Rightarrow> bool" where
  "pm_inv n s \<longleftrightarrow> io_inv n (pm_io s) \<and>
     live (pm_io s) = {..<next_desc (pm_io s)} - set (pm_gone s) \<and>
     snd ` set (poll_set (pm_io s)) \<subseteq> {..<next_desc (pm_io s)} - set (pm_handed s) \<and>
     pm_pending (pm_pc s) \<subseteq> live (pm_io s) \<and>
     distinct (pm_handed s) \<and> set (pm_handed s) \<subseteq> {..<next_desc (pm_io s)} \<and>
     mset (pm_handed s) = mset (pm_gone s) + mset (deleted_desc (pm_io s)) + mset (to_delete (pm_pc s)) \<and>
     (polling (pm_io s) \<longleftrightarrow> pm_pc s \<noteq> PmOut) \<and>
     (pm_stop s \<noteq> SpOut \<longrightarrow> io_stopped (pm_io s)) \<and>
     (pm_stop s \<in> {SpPool, SpJoin, SpDispose} \<longrightarrow> \<not> in_round (pm_pc s))"

section \<open>The invariant\<close>

text \<open>What the steps that only touch callbacks, timers and the pool leave alone.\<close>

definition same_descs :: "'cb io_manager \<Rightarrow> 'cb io_manager \<Rightarrow> bool" where
  "same_descs io io1 \<longleftrightarrow> live io1 = live io \<and> next_desc io1 = next_desc io \<and> deleted_desc io1 = deleted_desc io \<and>
     poll_set io1 = poll_set io \<and> polling io1 = polling io \<and> io_stopped io1 = io_stopped io"

lemma same_descs_refl [simp]: "same_descs io io"
  by (simp add: same_descs_def)

lemma schedule_same:
  "descs io d = Some ds \<Longrightarrow> same_descs io (schedule cb b (io\<lparr>descs := (descs io)(d \<mapsto> ds1)\<rparr>))"
  by (auto simp: same_descs_def live_def schedule_def IOManager_addTask_def split: option.split)

lemma desc_exec_same: "desc_exec x d io = Some io1 \<Longrightarrow> same_descs io io1"
  by (cases x) (auto simp: Descriptor_readWhenReady_def Descriptor_writeWhenReady_def Descriptor_readIfWaiting_def
      Descriptor_writeIfWaiting_def Let_def intro: schedule_same)

lemma delete_cb_same [simp]:
  "poll_set (delete_cb cb io) = poll_set io" "polling (delete_cb cb io) = polling io"
  "io_stopped (delete_cb cb io) = io_stopped io"
  by (simp_all add: delete_cb_def split: option.split)

lemma setUpCalls_same: "setUpCalls d rcb wcb io = Some io1 \<Longrightarrow> same_descs io io1"
  by (auto simp: setUpCalls_def same_descs_def live_def split: if_splits)

lemma event_desc_exec:
  "event_read ev io = (if getEvents (fst ev) AND (DP_ERROR OR DP_READ_READY) \<noteq> 0 then desc_exec ReadReady (snd ev) io else Some io)"
  "event_write ev io = (if getEvents (fst ev) AND (DP_ERROR OR DP_WRITE_READY) \<noteq> 0 then desc_exec WriteReady (snd ev) io else Some io)"
  by (simp_all add: event_read_def event_write_def)

lemma event_total: "snd ev \<in> live io \<Longrightarrow> \<exists>io1. event_read ev io = Some io1" "snd ev \<in> live io \<Longrightarrow> \<exists>io1. event_write ev io = Some io1"
  using desc_exec_total [of ReadReady "snd ev" io] desc_exec_total [of WriteReady "snd ev" io]
  unfolding event_desc_exec by (auto simp: live_def)

lemma event_keeps:
  assumes "io_inv n io" "event_read ev io = Some io1 \<or> event_write ev io = Some io1"
  shows "io_inv n io1 \<and> same_descs io io1"
  using assms desc_exec_inv [OF assms(1)] desc_exec_same unfolding event_desc_exec by (auto split: if_splits simp del: desc_exec.simps)

lemma pm_inv_same:
  assumes "pm_inv n s" "io_inv n io1" "same_descs (pm_io s) io1"
  shows "pm_inv n (s\<lparr>pm_io := io1\<rparr>)"
  using assms by (auto simp: pm_inv_def same_descs_def)

lemma pm_goto_inv:
  assumes "pm_inv n s" "io_inv n io1" "same_descs (pm_io s) io1" "pm_pending pc \<subseteq> live (pm_io s)"
    "to_delete pc = to_delete (pm_pc s)" "pc = PmOut \<longleftrightarrow> pm_pc s = PmOut"
    "in_round pc \<longrightarrow> in_round (pm_pc s) \<or> \<not> io_stopped (pm_io s)"
  shows "pm_inv n (pm_goto pc io1 s)"
  using assms by (auto simp: pm_inv_def same_descs_def pm_goto_def)

text \<open>Deleting a descriptor that was handed over.\<close>

lemma poll_delete_inv:
  assumes inv: "pm_inv n s"
    and split: "mset (pm_handed s) = mset (pm_gone s) + add_mset d (mset (deleted_desc (pm_io u)) + mset (to_delete (pm_pc u)))"
    and u: "io_inv n (pm_io u)" "live (pm_io u) = live (pm_io s)" "next_desc (pm_io u) = next_desc (pm_io s)"
      "poll_set (pm_io u) = poll_set (pm_io s)" "polling (pm_io u) = polling (pm_io s)" "io_stopped (pm_io u) = io_stopped (pm_io s)"
      "pm_handed u = pm_handed s" "pm_gone u = pm_gone s" "pm_stop u = pm_stop s"
      "pm_pending (pm_pc u) = {}" "pm_pc u = PmOut \<longleftrightarrow> pm_pc s = PmOut" "in_round (pm_pc u) \<longrightarrow> in_round (pm_pc s)"
  shows "\<exists>t. poll_delete d u = Some t \<and> pm_inv n t"
proof -
  have s: "distinct (pm_handed s)" "set (pm_handed s) \<subseteq> {..<next_desc (pm_io s)}"
    "live (pm_io s) = {..<next_desc (pm_io s)} - set (pm_gone s)"
    "snd ` set (poll_set (pm_io s)) \<subseteq> {..<next_desc (pm_io s)} - set (pm_handed s)"
    "polling (pm_io s) \<longleftrightarrow> pm_pc s \<noteq> PmOut" "pm_stop s \<noteq> SpOut \<longrightarrow> io_stopped (pm_io s)"
    "pm_stop s \<in> {SpPool, SpJoin, SpDispose} \<longrightarrow> \<not> in_round (pm_pc s)"
    using inv by (simp_all add: pm_inv_def)
  have ml: "mset (pm_handed s) = mset (pm_gone s @ d # deleted_desc (pm_io u) @ to_delete (pm_pc u))" using split by simp
  then have dl: "distinct (pm_gone s @ d # deleted_desc (pm_io u) @ to_delete (pm_pc u))"
    and sl: "set (pm_gone s @ d # deleted_desc (pm_io u) @ to_delete (pm_pc u)) = set (pm_handed s)"
    using s(1) mset_eq_imp_distinct_iff mset_eq_setD by (metis, metis)
  have "d \<in> live (pm_io u)" using dl sl s(2,3) u(2) by auto
  then obtain ds where ds: "descs (pm_io u) d = Some ds" by (auto simp: live_def)
  obtain io1 where 1: "Descriptor_destroy d (pm_io u) = Some io1" by (simp add: Descriptor_destroy_def ds)
  have f: "descs io1 = (descs (pm_io u))(d := None)" "next_desc io1 = next_desc (pm_io u)" "deleted_desc io1 = deleted_desc (pm_io u)"
    "poll_set io1 = poll_set (pm_io u)" "polling io1 = polling (pm_io u)" "io_stopped io1 = io_stopped (pm_io u)"
    "timer_queue io1 = timer_queue (pm_io u)" "worker_pool io1 = worker_pool (pm_io u)"
    using 1 ds by (auto simp: Descriptor_destroy_def delete_cb_def split: option.splits)
  have l: "live io1 = live (pm_io s) - {d}" using f(1) u(2) by (auto simp: live_def)
  have "io_inv n io1" using u(1) f dl by (auto simp: io_inv_def descs_ok_def)
  then have "pm_inv n (u\<lparr>pm_io := io1, pm_gone := pm_gone u @ [d]\<rparr>)"
    using s u f l split by (auto simp: pm_inv_def)
  then show ?thesis using 1 by (simp add: poll_delete_def)
qed

lemma timer_same: "same_descs io (io\<lparr>timer_queue := q\<rparr>)" "same_descs io (IOManager_addTask task io)"
  "same_descs io (io\<lparr>worker_pool := p\<rparr>)"
  by (simp_all add: same_descs_def live_def IOManager_addTask_def)

lemma addTimer_keeps: "io_inv n io \<Longrightarrow> io_inv n (addTimer now dt task io) \<and> same_descs io (addTimer now dt task io)"
  using timers_inv [of n io, OF _ multimap_insert_sorted] by (simp add: addTimer_def io_inv_def timer_same)

lemma pool_keeps: "io_inv n io \<Longrightarrow> fast_inv n p \<Longrightarrow> io_inv n (io\<lparr>worker_pool := p\<rparr>)"
  by (simp add: io_inv_def descs_ok_def)

lemma fire_one_keeps:
  assumes "io_inv n io" "timer_queue io = x # q"
  shows "io_inv n (IOManager_addTask task io\<lparr>timer_queue := q\<rparr>) \<and> same_descs io (IOManager_addTask task io\<lparr>timer_queue := q\<rparr>)"
  using timers_inv [OF addTask_io_inv [OF assms(1)], of q task] assms
  by (simp add: io_inv_def same_descs_def live_def IOManager_addTask_def)

lemma poll_set_live:
  assumes "pm_inv n s"
  shows "snd ` set (poll_set (pm_io s)) \<subseteq> live (pm_io s)"
proof -
  have "set_mset (mset (pm_gone s)) \<subseteq> set_mset (mset (pm_handed s))" using assms by (auto simp: pm_inv_def)
  then have "set (pm_gone s) \<subseteq> set (pm_handed s)" by (simp only: set_mset_mset)
  then show ?thesis using assms by (auto simp: pm_inv_def)
qed

text \<open>The next step of the polling thread and of \<open>stop\<close> is always defined and keeps the invariant.\<close>

lemma poll_move_inv:
  assumes inv: "pm_inv n s" and rs: "DescriptorPoller_poll rs = Some evs"
  shows "\<exists>t. poll_move rs now s = Some t \<and>
    ((pm_pc s = PmWait \<longrightarrow> snd ` set evs \<subseteq> snd ` set (poll_set (pm_io s))) \<longrightarrow> pm_inv n t)"
proof -
  have io: "io_inv n (pm_io s)" and pend: "pm_pending (pm_pc s) \<subseteq> live (pm_io s)"
    using inv by (auto simp: pm_inv_def)
  show ?thesis
  proof (cases "pm_pc s")
    case PmOut
    then show ?thesis using inv phase_inv(1) [OF io]
      by (auto simp: Let_def poll_move_def pm_goto_def pm_inv_def poll_begin_def live_def)
  next
    case PmTop
    then show ?thesis using pm_goto_inv [OF inv io same_descs_refl] by (simp add: Let_def poll_move_def)
  next
    case PmWait
    then show ?thesis using pm_goto_inv [OF inv io same_descs_refl, of "PmTimers evs"] rs poll_set_live [OF inv]
      by (auto simp: Let_def poll_move_def)
  next
    case (PmTimers es)
    then show ?thesis using pm_goto_inv [OF inv io same_descs_refl, of "PmFire now es"] pend by (simp add: Let_def poll_move_def)
  next
    case (PmFire t es)
    have leave: "pm_inv n (pm_goto (PmEvents es) (pm_io s) s)"
      using pm_goto_inv [OF inv io same_descs_refl, of "PmEvents es"] pend PmFire by simp
    show ?thesis
    proof (cases "timer_queue (pm_io s)")
      case Nil
      then show ?thesis using leave PmFire by (simp add: Let_def poll_move_def)
    next
      case (Cons x q)
      have "pm_inv n (pm_goto (PmFire t es) (IOManager_addTask (snd x) (pm_io s)\<lparr>timer_queue := q\<rparr>) s)"
        using pm_goto_inv [OF inv] fire_one_keeps [OF io Cons] pend PmFire by simp
      then show ?thesis using leave PmFire Cons by (cases x) (simp add: Let_def poll_move_def)
    qed
  next
    case (PmEvents es)
    show ?thesis
    proof (cases es)
      case Nil
      then show ?thesis using pm_goto_inv [OF inv io same_descs_refl, of PmCollect] PmEvents by (simp add: Let_def poll_move_def)
    next
      case (Cons ev es1)
      have "snd ev \<in> live (pm_io s)" using pend PmEvents Cons by simp
      then obtain io1 where 1: "event_read ev (pm_io s) = Some io1" using event_total(1) by blast
      have k: "io_inv n io1 \<and> same_descs (pm_io s) io1" using event_keeps [OF io] 1 by blast
      have "pm_inv n (pm_goto (PmSecond ev es1) io1 s)"
        by (rule pm_goto_inv [OF inv]) (use k PmEvents Cons pend in simp_all)
      then show ?thesis using PmEvents Cons 1 by (simp add: Let_def poll_move_def)
    qed
  next
    case (PmSecond ev es)
    have "snd ev \<in> live (pm_io s)" using pend PmSecond by simp
    then obtain io1 where 1: "event_write ev (pm_io s) = Some io1" using event_total(2) by blast
    have k: "io_inv n io1 \<and> same_descs (pm_io s) io1" using event_keeps [OF io] 1 by blast
    have "pm_inv n (pm_goto (PmEvents es) io1 s)"
      by (rule pm_goto_inv [OF inv]) (use k PmSecond pend in simp_all)
    then show ?thesis using PmSecond 1 by (simp add: Let_def poll_move_def)
  next
    case PmCollect
    then show ?thesis using inv by (auto simp: Let_def poll_move_def pm_goto_def pm_inv_def live_def io_inv_def descs_ok_def)
  next
    case (PmDelete ds)
    show ?thesis
    proof (cases ds)
      case Nil
      then show ?thesis using pm_goto_inv [OF inv io same_descs_refl, of PmTop] PmDelete by (simp add: Let_def poll_move_def)
    next
      case (Cons d ds1)
      have "\<exists>t. poll_delete d (s\<lparr>pm_pc := PmDelete ds1\<rparr>) = Some t \<and> pm_inv n t"
        by (rule poll_delete_inv [OF inv]) (use inv PmDelete Cons in \<open>simp_all add: pm_inv_def\<close>)
      then show ?thesis using PmDelete Cons by (auto simp: Let_def poll_move_def)
    qed
  next
    case PmLeave
    then show ?thesis using inv phase_inv(2) [OF io]
      by (auto simp: Let_def poll_move_def pm_goto_def pm_inv_def poll_end_def live_def)
  qed
qed

lemma stop_move_inv:
  assumes inv: "pm_inv n s"
  shows "\<exists>t. stop_move n s = Some t \<and> pm_inv n t"
proof -
  have io: "io_inv n (pm_io s)" using inv by (simp add: pm_inv_def)
  show ?thesis
  proof (cases "pm_stop s")
    case SpOut
    then show ?thesis using inv phase_inv(3) [OF io]
      by (cases "io_stopped (pm_io s)") (auto simp: Let_def stop_move_def IOManager_stop_begin_def pm_inv_def live_def)
  next
    case SpPool
    have "io_inv n (pm_io s\<lparr>worker_pool := Fast_stop n (worker_pool (pm_io s))\<rparr>)"
      using pool_keeps [OF io Fast_stop_inv] io by (simp add: io_inv_def)
    from pm_inv_same [OF inv this timer_same(3)] show ?thesis using SpPool by (auto simp: Let_def stop_move_def pm_inv_def)
  next
    case SpDispose
    show ?thesis
    proof (cases "deleted_desc (pm_io s)")
      case Nil
      then show ?thesis using SpDispose inv by (auto simp: Let_def stop_move_def pm_inv_def)
    next
      case (Cons d ds)
      have "\<exists>t. poll_delete d (s\<lparr>pm_io := (pm_io s)\<lparr>deleted_desc := ds\<rparr>\<rparr>) = Some t \<and> pm_inv n t"
        by (rule poll_delete_inv [OF inv])
          (use inv Cons SpDispose in \<open>auto simp: pm_inv_def live_def io_inv_def descs_ok_def elim: in_round.elims\<close>)
      then show ?thesis using SpDispose Cons by (simp add: Let_def stop_move_def)
    qed
  qed (use inv in \<open>auto simp: Let_def stop_move_def pm_inv_def\<close>)
qed

lemma newDescriptor_pm_inv:
  assumes inv: "pm_inv n s" and new: "newDescriptor fd rcb wcb (pm_io s) = Some (d, io1)"
  shows "pm_inv n (s\<lparr>pm_io := io1\<rparr>)"
proof -
  let ?k = "next_desc (pm_io s)"
  have f: "live io1 = insert ?k (live (pm_io s))" "next_desc io1 = Suc ?k" "deleted_desc io1 = deleted_desc (pm_io s)"
    "poll_set io1 = (fd, ?k) # poll_set (pm_io s)" "polling io1 = polling (pm_io s)" "io_stopped io1 = io_stopped (pm_io s)"
    using new by (auto simp: newDescriptor_def setEvent_def Let_def live_def split: if_splits)
  have io: "io_inv n io1" using newDescriptor_inv [OF _ new] inv by (simp add: pm_inv_def)
  have "set (pm_gone s) \<subseteq> set_mset (mset (pm_handed s))" using inv by (auto simp: pm_inv_def)
  then have g: "?k \<notin> set (pm_gone s)" "?k \<notin> set (pm_handed s)" using inv by (auto simp: pm_inv_def)
  show ?thesis using inv io g by (auto simp: pm_inv_def f lessThan_Suc)
qed

lemma del_pm_inv:
  assumes inv: "pm_inv n s" and d: "d < next_desc (pm_io s)" "d \<notin> set (pm_handed s)" "d \<notin> snd ` set (poll_set (pm_io s))"
  shows "pm_inv n (s\<lparr>pm_io := delDescriptor (Some d) (pm_io s), pm_handed := d # pm_handed s\<rparr>)"
proof -
  have "mset (pm_handed s) = mset (pm_gone s @ deleted_desc (pm_io s) @ to_delete (pm_pc s))" using inv by (simp add: pm_inv_def)
  then have "set (pm_handed s) = set (pm_gone s @ deleted_desc (pm_io s) @ to_delete (pm_pc s))" by (metis mset_eq_setD)
  then have "d \<in> live (pm_io s)" "d \<notin> set (deleted_desc (pm_io s))" using inv d by (auto simp: pm_inv_def)
  then have "io_inv n (delDescriptor (Some d) (pm_io s))"
    using inv by (auto simp: pm_inv_def delDescriptor_def live_def io_inv_def descs_ok_def)
  then show ?thesis using inv d by (auto simp: pm_inv_def delDescriptor_def live_def)
qed

interpretation pmm: transition_system "pm_start n" "pm_step n" "pm_inv n" for n
proof unfold_locales
  show "pm_inv n s" if "pm_start n s" for s :: "'a poll_sys"
    using that ThreadPoolFast_new_inv
    by (auto simp: pm_start_def poll_sys_new_def pm_inv_def live_def io_inv_def descs_ok_def IOManager_new_def)
  show "pm_inv n t" if st: "pm_step n s t" "pm_inv n s" for s t :: "'a poll_sys"
  proof -
    have io: "io_inv n (pm_io s)" using st(2) by (simp add: pm_inv_def)
    note keeps = pm_inv_same [OF st(2)]
    show ?thesis
      using st(1)
    proof cases
      case (pm_close fd)
      have "io_inv n (poll_close fd (pm_io s))" using io by (simp add: poll_close_def io_inv_def descs_ok_def)
      then show ?thesis using st(2) pm_close by (auto simp: poll_close_def pm_inv_def live_def)
    next
      case (pm_work i)
      have "fast_inv n (Fast_worker i (worker_pool (pm_io s)))" using io by (intro Fast_worker_inv pm_work) (simp add: io_inv_def)
      then show ?thesis using keeps [OF pool_keeps [OF io] timer_same(3)] pm_work by simp
    next
      case (pm_poll rs now)
      show ?thesis
      proof (cases "pm_pc s = PmWait")
        case True
        then obtain es where es: "DescriptorPoller_poll rs = Some es" using pm_poll(2) by (auto simp: poll_move_def Let_def)
        then show ?thesis using poll_move_inv [OF st(2) es, of now] pm_poll by auto
      next
        case False
        then have "poll_move rs now s = poll_move [] now s" by (simp add: poll_move_def Let_def split: poll_pc.split list.split)
        then show ?thesis using poll_move_inv [OF st(2), of "[]" "[]" now] pm_poll(2) False by auto
      qed
    next
      case pm_stop
      then show ?thesis using stop_move_inv [OF st(2)] by auto
    qed (use st(2) io in \<open>auto intro: newDescriptor_pm_inv del_pm_inv keeps desc_exec_inv desc_exec_same setUpCalls_inv setUpCalls_same
           addTask_io_inv timer_same simp del: desc_exec.simps dest: addTimer_keeps\<close>)
  qed
qed

section \<open>A round of the polling thread on its own\<close>

abbreviation poll_alone :: "epoll_result list \<Rightarrow> nat \<Rightarrow> 'cb poll_sys \<Rightarrow> 'cb poll_sys \<Rightarrow> bool" where
  "poll_alone rs now \<equiv> (\<lambda>s t. poll_move rs now s = Some t)\<^sup>*\<^sup>*"

lemmas alone_step = converse_rtranclp_into_rtranclp [of "\<lambda>s t. poll_move rs now s = Some t" for rs now]

lemma fire_timers_queue: "fire_timers now q (io\<lparr>timer_queue := q1\<rparr>) = fire_timers now q io"
proof (induction now q io rule: fire_timers.induct)
  case (2 now ts task q io)
  have "IOManager_addTask task (io\<lparr>timer_queue := q1\<rparr>) = (IOManager_addTask task io)\<lparr>timer_queue := q1\<rparr>"
    by (cases io) (simp add: IOManager_addTask_def)
  then show ?case using 2 by simp
qed simp

lemma fire_alone:
  assumes "pm_pc s = PmFire t evs"
  shows "poll_alone rs now s (pm_goto (PmEvents evs) (fire_timers t (timer_queue (pm_io s)) (pm_io s)) s)"
  using assms
proof (induction "timer_queue (pm_io s)" arbitrary: s)
  case Nil
  then show ?case by (intro r_into_rtranclp) (simp add: poll_move_def Let_def pm_goto_def flip: Nil(1))
next
  case (Cons x q)
  obtain ts task where x: "x = (ts, task)" by (cases x)
  show ?case
  proof (cases "ts > t")
    case True
    then show ?thesis using Cons.prems by (intro r_into_rtranclp) (simp add: poll_move_def Let_def pm_goto_def x flip: Cons.hyps(2))
  next
    case False
    define u where "u = pm_goto (PmFire t evs) (IOManager_addTask task (pm_io s)\<lparr>timer_queue := q\<rparr>) s"
    have "poll_move rs now s = Some u"
      using False Cons.prems by (simp add: poll_move_def Let_def u_def x flip: Cons.hyps(2))
    moreover have "poll_alone rs now u (pm_goto (PmEvents evs) (fire_timers t (timer_queue (pm_io u)) (pm_io u)) u)"
      by (rule Cons.hyps(1)) (simp_all add: u_def pm_goto_def)
    ultimately show ?thesis
      using False by (simp add: u_def pm_goto_def x fire_timers_queue alone_step flip: Cons.hyps(2))
  qed
qed

lemma dispatch_event_two: "dispatch_event ev io = Option.bind (event_read ev io) (event_write ev)"
proof -
  have w: "event_write ev = (\<lambda>io. if getEvents (fst ev) AND (DP_ERROR OR DP_WRITE_READY) \<noteq> 0
      then Descriptor_writeIfWaiting (snd ev) io else Some io)"
    by (rule ext) (simp add: event_write_def)
  show ?thesis unfolding dispatch_event_def event_read_def Let_def w by (rule refl)
qed

lemma events_alone:
  assumes "pm_pc s = PmEvents evs" "dispatch_events evs (pm_io s) = Some io1"
  shows "poll_alone rs now s (pm_goto PmCollect io1 s)"
  using assms
proof (induction evs arbitrary: s)
  case Nil
  then show ?case by (intro r_into_rtranclp) (simp add: poll_move_def Let_def)
next
  case (Cons ev evs)
  obtain io2 io3 where 2: "event_read ev (pm_io s) = Some io2" "event_write ev io2 = Some io3" "dispatch_events evs io3 = Some io1"
    using Cons.prems(2) by (auto simp: dispatch_event_two bind_eq_Some_conv)
  define u v where "u = pm_goto (PmSecond ev evs) io2 s" and "v = pm_goto (PmEvents evs) io3 u"
  have "poll_move rs now s = Some u" "poll_move rs now u = Some v"
    using 2 Cons.prems(1) by (simp_all add: poll_move_def Let_def u_def v_def pm_goto_def)
  moreover have "poll_alone rs now v (pm_goto PmCollect io1 v)" by (rule Cons.IH) (simp_all add: v_def pm_goto_def 2(3))
  ultimately show ?case by (simp add: u_def v_def pm_goto_def alone_step)
qed

lemma delete_alone:
  assumes "pm_pc s = PmDelete ds" "delete_all ds (pm_io s) = Some io1"
  shows "poll_alone rs now s (pm_goto PmTop io1 (s\<lparr>pm_gone := pm_gone s @ ds\<rparr>))"
  using assms
proof (induction ds arbitrary: s)
  case Nil
  then show ?case by (intro r_into_rtranclp) (simp add: poll_move_def Let_def pm_goto_def)
next
  case (Cons d ds)
  obtain io2 where 2: "Descriptor_destroy d (pm_io s) = Some io2" "delete_all ds io2 = Some io1"
    using Cons.prems(2) by (auto simp: bind_eq_Some_conv)
  define u where "u = s\<lparr>pm_io := io2, pm_pc := PmDelete ds, pm_gone := pm_gone s @ [d]\<rparr>"
  have "poll_move rs now s = Some u" using 2 Cons.prems(1) by (simp add: poll_move_def poll_delete_def Let_def u_def)
  moreover have "poll_alone rs now u (pm_goto PmTop io1 (u\<lparr>pm_gone := pm_gone u @ ds\<rparr>))"
    by (rule Cons.IH) (simp_all add: u_def 2(2))
  ultimately show ?case by (simp add: u_def pm_goto_def alone_step)
qed

text \<open>A round that no other thread interrupts is \<open>poll_round\<close>.\<close>

lemma poll_round_alone:
  assumes "pm_pc s = PmTop" "\<not> io_stopped (pm_io s)" "poll_round rs now (pm_io s) = Some io1"
  shows "\<exists>gone. poll_alone rs now s (pm_goto PmTop io1 (s\<lparr>pm_gone := gone\<rparr>))"
proof -
  obtain evs io2 where 2: "DescriptorPoller_poll rs = Some evs"
    "dispatch_events evs (fire_timers now (timer_queue (pm_io s)) (pm_io s)) = Some io2" "collect io2 = Some io1"
    using assms(3) by (auto simp: poll_round_def bind_eq_Some_conv)
  define a where "a = pm_goto (PmFire now evs) (pm_io s) s"
  define b where "b = pm_goto (PmEvents evs) (fire_timers now (timer_queue (pm_io s)) (pm_io s)) s"
  define c where "c = pm_goto PmCollect io2 s"
  define e where "e = pm_goto (PmDelete (deleted_desc io2)) (io2\<lparr>deleted_desc := []\<rparr>) s"
  have 1: "poll_move rs now s = Some (pm_goto PmWait (pm_io s) s)" using assms by (simp add: poll_move_def Let_def)
  have 3: "poll_move rs now (pm_goto PmWait (pm_io s) s) = Some (pm_goto (PmTimers evs) (pm_io s) s)"
    "poll_move rs now (pm_goto (PmTimers evs) (pm_io s) s) = Some a" "poll_move rs now c = Some e"
    using 2(1) by (simp_all add: poll_move_def Let_def pm_goto_def a_def c_def e_def)
  have "poll_alone rs now a b" using fire_alone [of a now evs rs now] by (simp add: a_def b_def pm_goto_def)
  moreover have "poll_alone rs now b c" using events_alone [of b evs io2 rs now] 2(2) by (simp add: b_def c_def pm_goto_def)
  moreover have "poll_alone rs now e (pm_goto PmTop io1 (e\<lparr>pm_gone := pm_gone s @ deleted_desc io2\<rparr>))"
    using delete_alone [of e "deleted_desc io2" io1 rs now] 2(3) by (simp add: e_def pm_goto_def collect_def)
  ultimately have "poll_alone rs now a (pm_goto PmTop io1 (e\<lparr>pm_gone := pm_gone s @ deleted_desc io2\<rparr>))"
    using alone_step [OF 3(3)] by (meson rtranclp_trans)
  from alone_step [OF 1 alone_step [OF 3(1) alone_step [OF 3(2) this]]]
  have "poll_alone rs now s (pm_goto PmTop io1 (e\<lparr>pm_gone := pm_gone s @ deleted_desc io2\<rparr>))" .
  then show ?thesis by (auto simp: e_def pm_goto_def)
qed

text \<open>How many steps of its own the polling thread is away from the end of its round.\<close>

fun round_rank :: "nat \<Rightarrow> 'cb io_manager \<Rightarrow> poll_pc \<Rightarrow> nat" where
  "round_rank k io PmWait = 6 + 2 * k + length (timer_queue io) + length (deleted_desc io)"
| "round_rank k io (PmTimers evs) = 5 + 2 * length evs + length (timer_queue io) + length (deleted_desc io)"
| "round_rank k io (PmFire t evs) = 4 + 2 * length evs + length (timer_queue io) + length (deleted_desc io)"
| "round_rank k io (PmEvents evs) = 3 + 2 * length evs + length (deleted_desc io)"
| "round_rank k io (PmSecond ev evs) = 4 + 2 * length evs + length (deleted_desc io)"
| "round_rank k io PmCollect = 2 + length (deleted_desc io)"
| "round_rank k io (PmDelete ds) = 1 + length ds"
| "round_rank k io pc = 0"

definition list_taken :: "'cb poll_sys \<Rightarrow> bool" where
  "list_taken s \<longleftrightarrow> (case pm_pc s of PmDelete ds \<Rightarrow> deleted_desc (pm_io s) = [] | PmTop \<Rightarrow> deleted_desc (pm_io s) = [] | _ \<Rightarrow> True)"

lemma event_deleted:
  "event_read ev io = Some io1 \<Longrightarrow> deleted_desc io1 = deleted_desc io" "event_write ev io = Some io1 \<Longrightarrow> deleted_desc io1 = deleted_desc io"
  using desc_exec_same [of ReadReady "snd ev" io io1] desc_exec_same [of WriteReady "snd ev" io io1]
  unfolding event_desc_exec by (auto simp: same_descs_def split: if_splits)

lemma poll_move_rank:
  assumes "poll_move rs now s = Some u" "in_round (pm_pc s)" "DescriptorPoller_poll rs = Some evs"
  shows "round_rank (length evs) (pm_io u) (pm_pc u) < round_rank (length evs) (pm_io s) (pm_pc s) \<and>
    (in_round (pm_pc u) \<or> pm_pc u = PmTop) \<and> pm_pc u \<noteq> PmWait \<and> pm_handed u = pm_handed s \<and> (list_taken s \<longrightarrow> list_taken u)"
proof (cases "pm_pc s")
  case (PmFire t es)
  then show ?thesis
    using assms(1) by (auto simp: poll_move_def Let_def pm_goto_def list_taken_def IOManager_addTask_def split: list.splits if_splits prod.splits)
next
  case (PmEvents es)
  then show ?thesis
    using assms(1) by (cases es) (auto simp: poll_move_def Let_def pm_goto_def list_taken_def event_deleted)
next
  case (PmDelete ds)
  then show ?thesis
    using assms(1) by (cases ds)
      (auto simp: poll_move_def Let_def pm_goto_def list_taken_def poll_delete_def Descriptor_destroy_def)
qed (use assms in \<open>auto simp: poll_move_def Let_def pm_goto_def list_taken_def event_deleted\<close>)

lemma round_ends:
  assumes "pm_inv n s" "DescriptorPoller_poll rs = Some evs" "in_round (pm_pc s)"
    "pm_pc s = PmWait \<longrightarrow> snd ` set evs \<subseteq> snd ` set (poll_set (pm_io s))"
  shows "\<exists>t. poll_alone rs now s t \<and> pm_pc t = PmTop \<and> pm_inv n t \<and> pm_handed t = pm_handed s \<and>
    (list_taken s \<longrightarrow> deleted_desc (pm_io t) = [])"
  using assms
proof (induction "round_rank (length evs) (pm_io s) (pm_pc s)" arbitrary: s rule: less_induct)
  case less
  obtain u where u: "poll_move rs now s = Some u" "pm_inv n u" using poll_move_inv [OF less.prems(1,2), of now] less.prems(4) by blast
  note r = poll_move_rank [OF u(1) less.prems(3,2)]
  show ?case
  proof (cases "pm_pc u = PmTop")
    case True
    then have "poll_alone rs now s u" "list_taken s \<longrightarrow> deleted_desc (pm_io u) = []"
      using u r by (auto simp: list_taken_def)
    then show ?thesis using True r u(2) by blast
  next
    case False
    then obtain t where "poll_alone rs now u t" "pm_pc t = PmTop" "pm_inv n t" "pm_handed t = pm_handed u"
      "list_taken u \<longrightarrow> deleted_desc (pm_io t) = []"
      using less.hyps [of u] u(2) less.prems(2) r by blast
    then show ?thesis using alone_step [OF u(1)] r by auto
  qed
qed

section \<open>Properties\<close>

text \<open>
  C32. The manager in every interleaving of the sections of the polling thread with the
  clients, the workers and \<open>stop\<close>, when \<open>epoll_wait\<close> reports only descriptors in its set and each
  descriptor is handed over at most once, behind the \<open>close\<close> of its file and not while \<open>stop\<close>
  disposes of the list: the timer queue is sorted and no descriptor is both ready and waited for;
  the live descriptors are those created and not deleted; each handed-over descriptor is deleted,
  on the list or about to be deleted, exactly one of these and exactly once, and no other
  is ever deleted; the next step of the polling thread and of \<open>stop\<close> never touches a deleted
  descriptor, not even when an event's descriptor is handed over between \<open>epoll_wait\<close> and its
  event; and a round ends within finitely many steps of the polling thread, having deleted every
  descriptor that was handed over before it took the list.
\<close>

theorem IOManager_safe:
  assumes "reach (pm_start n) (pm_step n) s"
  shows "sorted (map fst (timer_queue (pm_io s))) \<and> (\<forall>d ds. descs (pm_io s) d = Some ds \<longrightarrow> desc_ok ds) \<and>
    (\<forall>d. descs (pm_io s) d \<noteq> None \<longleftrightarrow> d < next_desc (pm_io s) \<and> d \<notin> set (pm_gone s)) \<and>
    distinct (pm_handed s) \<and>
    mset (pm_handed s) = mset (pm_gone s) + mset (deleted_desc (pm_io s)) + mset (to_delete (pm_pc s)) \<and>
    (\<forall>rs evs now. DescriptorPoller_poll rs = Some evs \<longrightarrow> poll_move rs now s \<noteq> None) \<and> stop_move n s \<noteq> None \<and>
    (\<forall>rs evs now. DescriptorPoller_poll rs = Some evs \<and> in_round (pm_pc s) \<and>
       (pm_pc s = PmWait \<longrightarrow> snd ` set evs \<subseteq> snd ` set (poll_set (pm_io s))) \<longrightarrow>
       (\<exists>t. poll_alone rs now s t \<and> pm_pc t = PmTop \<and>
          ((\<forall>ds. pm_pc s \<noteq> PmDelete ds) \<longrightarrow> mset (pm_gone t) = mset (pm_handed s))))"
proof -
  have inv: "pm_inv n s" by (rule pmm.reach_invar [OF assms])
  have ends: "\<exists>t. poll_alone rs now s t \<and> pm_pc t = PmTop \<and> ((\<forall>ds. pm_pc s \<noteq> PmDelete ds) \<longrightarrow> mset (pm_gone t) = mset (pm_handed s))"
    if h: "DescriptorPoller_poll rs = Some evs" "in_round (pm_pc s)"
      "pm_pc s = PmWait \<longrightarrow> snd ` set evs \<subseteq> snd ` set (poll_set (pm_io s))" for rs evs now
  proof -
    obtain t where t: "poll_alone rs now s t" "pm_pc t = PmTop" "pm_inv n t" "pm_handed t = pm_handed s"
      "list_taken s \<longrightarrow> deleted_desc (pm_io t) = []"
      using round_ends [OF inv h, of now] by blast
    moreover have "list_taken s" if "\<forall>ds. pm_pc s \<noteq> PmDelete ds"
      using that h(2) by (auto simp: list_taken_def split: poll_pc.split)
    moreover have "mset (pm_handed t) = mset (pm_gone t) + mset (deleted_desc (pm_io t)) + mset (to_delete (pm_pc t))"
      using t(3) by (simp add: pm_inv_def)
    ultimately show ?thesis by auto
  qed
  have live: "descs (pm_io s) d \<noteq> None \<longleftrightarrow> d \<in> live (pm_io s)" for d by (auto simp: live_def)
  have moves: "\<forall>rs evs now. DescriptorPoller_poll rs = Some evs \<longrightarrow> poll_move rs now s \<noteq> None"
    using poll_move_inv [OF inv] by (metis option.distinct(1))
  have stops: "stop_move n s \<noteq> None" using stop_move_inv [OF inv] by auto
  have shape: "sorted (map fst (timer_queue (pm_io s)))" "\<forall>d ds. descs (pm_io s) d = Some ds \<longrightarrow> desc_ok ds"
    "distinct (pm_handed s)" "\<forall>d. descs (pm_io s) d \<noteq> None \<longleftrightarrow> d < next_desc (pm_io s) \<and> d \<notin> set (pm_gone s)"
    "mset (pm_handed s) = mset (pm_gone s) + mset (deleted_desc (pm_io s)) + mset (to_delete (pm_pc s))"
    unfolding live using inv by (simp_all add: pm_inv_def io_inv_def descs_ok_def)
  show ?thesis
    by (intro conjI shape moves stops) (use ends in \<open>blast\<close>)
qed

text \<open>An event for descriptor 0 has been reported; its file is closed and it is handed over before the event is dispatched.\<close>

definition sample_race :: "string poll_sys" where
  "sample_race = \<lparr>pm_io = delDescriptor (Some 0) (poll_close 7 (poll_begin sample_io)), pm_pc = PmTimers [(1, 0)],
     pm_stop = SpOut, pm_handed = [0], pm_gone = []\<rparr>"

lemma sample_race_reached: "reach (pm_start 1) (pm_step 1) sample_race"
proof -
  let ?r = "reach (pm_start 1) (pm_step 1)"
  define s1 s2 where "s1 = (poll_sys_new 1)\<lparr>pm_io := sample_io\<rparr>" and "s2 = pm_goto PmTop (poll_begin sample_io) s1"
  define s3 where "s3 = pm_goto PmWait (poll_begin sample_io) s1"
  define s4 where "s4 = pm_goto (PmTimers [(1, 0)]) (poll_begin sample_io) s1"
  define s5 where "s5 = s4\<lparr>pm_io := poll_close 7 (pm_io s4)\<rparr>"
  note def = pm_goto_def poll_sys_new_def sample_io_def newDescriptor_def setEvent_def IOManager_new_def Let_def poll_begin_def
  have "newDescriptor 7 (Some ''read'') (Some ''write'') (IOManager_new 1) = Some (0, sample_io)" by (simp add: def)
  then have "pm_step 1 (poll_sys_new 1) s1" unfolding s1_def by (intro pm_new) (simp add: poll_sys_new_def)
  then have 1: "?r s1" by (rule reach_step [OF reach_start, rotated]) (simp add: pm_start_def)
  have "poll_move [] 0 s1 = Some s2" by (simp add: poll_move_def s2_def s1_def poll_sys_new_def Let_def)
  then have 2: "?r s2" by (intro reach_step [OF 1] pm_poll) (simp_all add: s1_def poll_sys_new_def)
  have "poll_move [] 0 s2 = Some s3" by (simp add: poll_move_def s3_def s2_def s1_def def)
  then have 3: "?r s3" by (intro reach_step [OF 2] pm_poll) (simp_all add: s2_def pm_goto_def)
  have "poll_move [EpollEvents [(1, 0)]] 0 s3 = Some s4" by (simp add: poll_move_def s3_def s4_def pm_goto_def Let_def)
  then have 4: "?r s4" by (intro reach_step [OF 3] pm_poll) (simp_all add: s3_def def)
  have 5: "?r s5" unfolding s5_def by (rule reach_step [OF 4 pm_close])
  have "pm_step 1 s5 (s5\<lparr>pm_io := delDescriptor (Some 0) (pm_io s5), pm_handed := 0 # pm_handed s5\<rparr>)"
    by (rule pm_del) (simp_all add: s5_def s4_def s1_def def poll_close_def)
  moreover have "s5\<lparr>pm_io := delDescriptor (Some 0) (pm_io s5), pm_handed := 0 # pm_handed s5\<rparr> = sample_race"
    by (simp add: sample_race_def s5_def s4_def s1_def pm_goto_def poll_sys_new_def)
  ultimately show ?thesis using reach_step [OF 5] by metis
qed

theorem IOManager_safe_witness:
  "\<exists>t. poll_move [] 0 sample_race \<noteq> None \<and> poll_alone [] 0 sample_race t \<and> pm_pc t = PmTop \<and> mset (pm_gone t) = {#0#}"
proof -
  note safe = IOManager_safe [OF sample_race_reached]
  have "poll_move [] 0 sample_race \<noteq> None" using safe by simp
  moreover have "\<exists>t. poll_alone [] 0 sample_race t \<and> pm_pc t = PmTop \<and>
      ((\<forall>ds. pm_pc sample_race \<noteq> PmDelete ds) \<longrightarrow> mset (pm_gone t) = mset (pm_handed sample_race))"
    using safe by (auto simp: sample_race_def)
  ultimately show ?thesis by (auto simp: sample_race_def)
qed

end
