(* ===== verification/Hazard_Machine.thy ===== *)
theory Hazard_Machine
  imports Hazard_Pointers
begin

text \<open>
  \<^verbatim>\<open>src/hazard_pointers.hpp\<close>, interleaved: any number of threads publish hazard pointers, retire nodes and scan, with
  one access to the shared hazard pointers per step. A scan reads them slot by slot and then visits
  the retired list of its thread node by node, in the order of the hash set, which is arbitrary; other threads
  publish and scan in between. \<open>hs_handed\<close> is the set of nodes retired so far and \<open>hs_freed\<close> counts the
  deletions of each node.
\<close>

section \<open>State and steps\<close>

text \<open>Where a thread is: outside of the class, taking the snapshot, or visiting its retired list.\<close>

datatype hp_pc =
    HIdle
  | HSnap nat "nat set" \<comment> \<open>the slots read so far, and \<open>active_list\<close>\<close>
  | HReclaim "nat set" "nat list" \<comment> \<open>\<open>active_list\<close>, and the nodes not yet visited\<close>

record hp_sys =
  hs_hz :: hazard
  hs_pc :: "nat \<Rightarrow> hp_pc"
  hs_handed :: "nat set"
  hs_freed :: "nat \<Rightarrow> nat"

definition hs_new :: "nat \<Rightarrow> (nat \<Rightarrow> nat \<Rightarrow> nat) \<Rightarrow> nat \<Rightarrow> hp_sys" where
  "hs_new k junk n =
     \<lparr>hs_hz = HazardPointers_new k junk n, hs_pc = (\<lambda>_. HIdle), hs_handed = {}, hs_freed = (\<lambda>_. 0)\<rparr>"

definition hs_goto :: "nat \<Rightarrow> hp_pc \<Rightarrow> hp_sys \<Rightarrow> hp_sys" where
  "hs_goto t c s = s\<lparr>hs_pc := (hs_pc s)(t := c)\<rparr>"

definition hs_retired :: "nat \<Rightarrow> hp_sys \<Rightarrow> nat set" where
  "hs_retired t s = retired_lists (hs_hz s) ! t"

definition hs_set_retired :: "nat \<Rightarrow> nat set \<Rightarrow> hp_sys \<Rightarrow> hp_sys" where
  "hs_set_retired t R s = s\<lparr>hs_hz := (hs_hz s)\<lparr>retired_lists := (retired_lists (hs_hz s))[t := R]\<rparr>\<rparr>"

text \<open>The hazard pointer with number \<open>i\<close>, counted through the records of all threads.\<close>

definition hs_slot :: "nat \<Rightarrow> hp_sys \<Rightarrow> nat" where
  "hs_slot i s = (let k = num_ptrs (hs_hz s) in hp_recs (hs_hz s) ! (i div k) ! (i mod k))"

text \<open>\<open>retireNode\<close>: the node joins the list of the calling thread, and a scan begins if the list is long.\<close>

definition retire_enter :: "nat \<Rightarrow> nat \<Rightarrow> hp_sys \<Rightarrow> hp_sys" where
  "retire_enter t p s =
     (let R = insert p (hs_retired t s)
      in hs_goto t (if card R > MAX_RETIRED_NODES_PER_THREAD then HSnap 0 {} else HIdle)
           (hs_set_retired t R (s\<lparr>hs_handed := insert p (hs_handed s)\<rparr>)))"

text \<open>One turn of the inner loop of the snapshot.\<close>

definition snapshot_read :: "nat \<Rightarrow> nat \<Rightarrow> nat set \<Rightarrow> hp_sys \<Rightarrow> hp_sys" where
  "snapshot_read t i A s =
     hs_goto t (HSnap (Suc i) (if hs_slot i s \<noteq> 0 then insert (hs_slot i s) A else A)) s"

text \<open>One turn of the loop over the retired list: \<open>delete *it\<close> and \<open>erase\<close>, or on to the next node.\<close>

definition reclaim_visit :: "nat \<Rightarrow> nat set \<Rightarrow> nat \<Rightarrow> nat list \<Rightarrow> hp_sys \<Rightarrow> hp_sys" where
  "reclaim_visit t A p xs s =
     hs_goto t (HReclaim A xs)
       (if p \<in> A then s
        else hs_set_retired t (hs_retired t s - {p}) (s\<lparr>hs_freed := (hs_freed s)(p := Suc (hs_freed s p))\<rparr>))"

text \<open>
  The steps. The callers' duty is that a node is retired only once; it is the guard of \<open>hs_retire\<close>.
\<close>

inductive hs_step :: "hp_sys \<Rightarrow> hp_sys \<Rightarrow> bool" where
  hs_publish: "t < num_threads (hs_hz s) \<Longrightarrow> j < num_ptrs (hs_hz s) \<Longrightarrow> hs_pc s t = HIdle \<Longrightarrow>
    hs_step s (s\<lparr>hs_hz := set_hp t j p (hs_hz s)\<rparr>)"
| hs_retire: "t < num_threads (hs_hz s) \<Longrightarrow> hs_pc s t = HIdle \<Longrightarrow> p \<notin> hs_handed s \<Longrightarrow> hs_step s (retire_enter t p s)"
| hs_scan: "t < num_threads (hs_hz s) \<Longrightarrow> hs_pc s t = HIdle \<Longrightarrow> hs_step s (hs_goto t (HSnap 0 {}) s)"
| hs_read: "t < num_threads (hs_hz s) \<Longrightarrow> hs_pc s t = HSnap i A \<Longrightarrow> i < num_threads (hs_hz s) * num_ptrs (hs_hz s) \<Longrightarrow>
    hs_step s (snapshot_read t i A s)"
| hs_taken: "t < num_threads (hs_hz s) \<Longrightarrow> hs_pc s t = HSnap i A \<Longrightarrow> i = num_threads (hs_hz s) * num_ptrs (hs_hz s) \<Longrightarrow>
    distinct xs \<Longrightarrow> set xs = hs_retired t s \<Longrightarrow> hs_step s (hs_goto t (HReclaim A xs) s)"
| hs_visit: "t < num_threads (hs_hz s) \<Longrightarrow> hs_pc s t = HReclaim A (p # xs) \<Longrightarrow> hs_step s (reclaim_visit t A p xs s)"
| hs_return: "t < num_threads (hs_hz s) \<Longrightarrow> hs_pc s t = HReclaim A [] \<Longrightarrow> hs_step s (hs_goto t HIdle s)"

definition hs_start :: "nat \<Rightarrow> nat \<Rightarrow> hp_sys \<Rightarrow> bool" where
  "hs_start k n s \<longleftrightarrow> (\<exists>junk. s = hs_new k junk n)"

section \<open>The invariant\<close>

text \<open>What is known of a thread's retired list \<open>R\<close> at each point.\<close>

definition pc_ok :: "nat \<Rightarrow> nat \<Rightarrow> hp_pc \<Rightarrow> nat set \<Rightarrow> bool" where
  "pc_ok k n c R \<longleftrightarrow> finite R \<and>
     (case c of
        HIdle \<Rightarrow> card R \<le> max MAX_RETIRED_NODES_PER_THREAD (n * k)
      | HSnap i A \<Rightarrow> i \<le> n * k \<and> finite A \<and> card A \<le> i
      | HReclaim A xs \<Rightarrow> finite A \<and> card A \<le> n * k \<and> distinct xs \<and> set xs \<subseteq> R \<and> R - set xs \<subseteq> A)"

definition hs_inv :: "nat \<Rightarrow> nat \<Rightarrow> hp_sys \<Rightarrow> bool" where
  "hs_inv k n s \<longleftrightarrow> hz_shape k n (hs_hz s) \<and> (\<forall>t < n. pc_ok k n (hs_pc s t) (hs_retired t s)) \<and>
     (\<forall>t < n. \<forall>u < n. t \<noteq> u \<longrightarrow> hs_retired t s \<inter> hs_retired u s = {}) \<and>
     (\<forall>p. hs_freed s p = of_bool (p \<in> hs_handed s \<and> (\<forall>t < n. p \<notin> hs_retired t s))) \<and>
     (\<forall>t < n. hs_retired t s \<subseteq> hs_handed s)"

declare hs_inv_def [inv_defs]

lemma hs_goto_simps [simp]:
  "hs_hz (hs_goto t c s) = hs_hz s" "hs_handed (hs_goto t c s) = hs_handed s" "hs_freed (hs_goto t c s) = hs_freed s"
  "hs_pc (hs_goto t c s) = (hs_pc s)(t := c)" "hs_retired u (hs_goto t c s) = hs_retired u s"
  by (simp_all add: hs_goto_def hs_retired_def)

lemma hs_set_retired_simps [simp]:
  "hs_pc (hs_set_retired t R s) = hs_pc s" "hs_handed (hs_set_retired t R s) = hs_handed s"
  "hs_freed (hs_set_retired t R s) = hs_freed s" "hp_recs (hs_hz (hs_set_retired t R s)) = hp_recs (hs_hz s)"
  "num_ptrs (hs_hz (hs_set_retired t R s)) = num_ptrs (hs_hz s)" "num_threads (hs_hz (hs_set_retired t R s)) = num_threads (hs_hz s)"
  "hz_shape k n (hs_hz (hs_set_retired t R s)) \<longleftrightarrow> hz_shape k n (hs_hz s)"
  by (simp_all add: hs_set_retired_def hz_shape_def)

lemma hs_retired_simps [simp]:
  "hs_retired u (s\<lparr>hs_handed := H\<rparr>) = hs_retired u s" "hs_retired u (s\<lparr>hs_freed := f\<rparr>) = hs_retired u s"
  by (simp_all add: hs_retired_def)

lemma hs_retired_set:
  "hz_shape k n (hs_hz s) \<Longrightarrow> t < n \<Longrightarrow> hs_retired u (hs_set_retired t R s) = (if u = t then R else hs_retired u s)"
  by (simp add: hs_retired_def hs_set_retired_def hz_shape_def)

lemma hs_slots [simp]:
  "hs_slot i (hs_goto t c s) = hs_slot i s" "hs_slot i (hs_set_retired t R s) = hs_slot i s"
  "hs_slot i (s\<lparr>hs_handed := H\<rparr>) = hs_slot i s" "hs_slot i (s\<lparr>hs_freed := f\<rparr>) = hs_slot i s"
  by (simp_all add: hs_slot_def hs_goto_def hs_set_retired_def Let_def)

lemma hs_goto_same: "hs_pc s t = c \<Longrightarrow> hs_goto t c s = s"
  by (cases s) (simp add: hs_goto_def fun_upd_idem)

lemma hs_set_retired_same: "hs_set_retired t (hs_retired t s) s = s"
  by (cases s) (simp add: hs_set_retired_def hs_retired_def)

lemma log_frees_none [simp]: "log_frees {} f = f"
  by (simp add: log_frees_def fun_eq_iff)

lemma hs_start_inv: "hs_start k n s \<Longrightarrow> hs_inv k n s"
  by (auto simp: hs_start_def hs_inv_def hs_new_def HazardPointers_new_def hz_shape_def hs_retired_def pc_ok_def)

text \<open>A step that changes only the program point of its thread.\<close>

lemma goto_inv: "hs_inv k n s \<Longrightarrow> pc_ok k n c (hs_retired t s) \<Longrightarrow> hs_inv k n (hs_goto t c s)"
  by (simp add: hs_inv_def)

lemma pc_ok_idle_scan: "pc_ok k n c R \<Longrightarrow> pc_ok k n (HSnap 0 {}) R"
  by (simp add: pc_ok_def)

lemma pc_ok_read: "pc_ok k n (HSnap i A) R \<Longrightarrow> i < n * k \<Longrightarrow> pc_ok k n (HSnap (Suc i) (if p \<noteq> 0 then insert p A else A)) R"
  by (auto simp: pc_ok_def card_insert_if)

lemma pc_ok_return: "pc_ok k n (HReclaim A []) R \<Longrightarrow> pc_ok k n HIdle R"
  by (auto simp: pc_ok_def intro!: max.coboundedI2 dest: card_mono)

lemma retire_inv:
  assumes inv: "hs_inv k n s" and t: "t < n" and p: "p \<notin> hs_handed s" and idle: "hs_pc s t = HIdle"
  shows "hs_inv k n (retire_enter t p s)"
proof -
  let ?R = "insert p (hs_retired t s)"
  have sh: "hz_shape k n (hs_hz (s\<lparr>hs_handed := insert p (hs_handed s)\<rparr>))" using inv by (simp add: hs_inv_def)
  have fresh: "p \<notin> hs_retired u s" if "u < n" for u using inv p that by (auto simp: hs_inv_def)
  have ok: "pc_ok k n (hs_pc s t) (hs_retired t s)" using inv t by (simp add: hs_inv_def)
  let ?s = "retire_enter t p s"
  have ret: "hs_retired u ?s = (if u = t then ?R else hs_retired u s)" for u
    by (simp add: retire_enter_def Let_def hs_retired_set [OF sh t])
  have hd: "hs_handed ?s = insert p (hs_handed s)" "hs_freed ?s = hs_freed s" by (simp_all add: retire_enter_def Let_def)
  have eq: "q \<in> insert p (hs_handed s) \<and> (\<forall>u < n. q \<notin> hs_retired u ?s) \<longleftrightarrow> q \<in> hs_handed s \<and> (\<forall>u < n. q \<notin> hs_retired u s)" for q
    using t p fresh by (auto simp: ret split: if_splits)
  have "hs_freed ?s q = of_bool (q \<in> hs_handed ?s \<and> (\<forall>u < n. q \<notin> hs_retired u ?s))" for q
    unfolding hd eq using inv by (simp add: hs_inv_def)
  moreover have "pc_ok k n (if card ?R > MAX_RETIRED_NODES_PER_THREAD then HSnap 0 {} else HIdle) ?R"
    using ok by (auto simp: pc_ok_def)
  then have "pc_ok k n (hs_pc ?s u) (hs_retired u ?s)" if "u < n" for u
    using inv that unfolding ret by (auto simp: hs_inv_def retire_enter_def Let_def)
  moreover have "hz_shape k n (hs_hz ?s)" "\<forall>u < n. hs_retired u ?s \<subseteq> hs_handed ?s"
    using inv t unfolding ret by (auto simp: hs_inv_def retire_enter_def Let_def)
  ultimately show ?thesis using inv fresh by (simp add: hs_inv_def ret)
qed

lemma visit_inv:
  assumes inv: "hs_inv k n s" and t: "t < n" and pc: "hs_pc s t = HReclaim A (p # xs)"
  shows "hs_inv k n (reclaim_visit t A p xs s)"
proof (cases "p \<in> A")
  case True
  have "pc_ok k n (HReclaim A (p # xs)) (hs_retired t s)" using inv t pc by (auto simp: hs_inv_def)
  then have "pc_ok k n (HReclaim A xs) (hs_retired t s)" using True by (auto simp: pc_ok_def)
  then show ?thesis using goto_inv [OF inv] True by (simp add: reclaim_visit_def)
next
  case False
  have sh: "hz_shape k n (hs_hz (s\<lparr>hs_freed := (hs_freed s)(p := Suc (hs_freed s p))\<rparr>))" using inv by (simp add: hs_inv_def)
  have ok: "pc_ok k n (HReclaim A (p # xs)) (hs_retired t s)" using inv t pc by (auto simp: hs_inv_def)
  then have p: "p \<in> hs_retired t s" "p \<in> hs_handed s" using inv t by (auto simp: pc_ok_def hs_inv_def)
  have alone: "p \<notin> hs_retired u s" if "u < n" "u \<noteq> t" for u using inv t p that by (auto simp: hs_inv_def)
  let ?s = "reclaim_visit t A p xs s"
  have ret: "hs_retired u ?s = (if u = t then hs_retired t s - {p} else hs_retired u s)" for u
    using False by (simp add: reclaim_visit_def hs_retired_set [OF sh t])
  have hd: "hs_handed ?s = hs_handed s" "hs_freed ?s = (hs_freed s)(p := Suc (hs_freed s p))"
    using False by (simp_all add: reclaim_visit_def)
  have eq: "(\<forall>u < n. q \<notin> hs_retired u ?s) \<longleftrightarrow> q = p \<or> (\<forall>u < n. q \<notin> hs_retired u s)" for q
    using alone by (auto simp: ret split: if_splits)
  have "hs_freed s p = 0" using inv p t by (auto simp: hs_inv_def)
  then have "hs_freed ?s q = of_bool (q \<in> hs_handed ?s \<and> (\<forall>u < n. q \<notin> hs_retired u ?s))" for q
    unfolding hd eq using inv p by (simp add: hs_inv_def)
  moreover have "pc_ok k n (HReclaim A xs) (hs_retired t s - {p})" using ok by (auto simp: pc_ok_def)
  then have "pc_ok k n (hs_pc ?s u) (hs_retired u ?s)" if "u < n" for u
    using inv that False unfolding ret by (auto simp: hs_inv_def reclaim_visit_def)
  moreover have "hz_shape k n (hs_hz ?s)" "\<forall>u < n. hs_retired u ?s \<subseteq> hs_handed ?s"
    using inv False unfolding ret hd by (auto simp: hs_inv_def reclaim_visit_def)
  ultimately show ?thesis using inv by (simp add: hs_inv_def ret) blast
qed

lemma hs_step_inv:
  assumes "hs_step s s'" "hs_inv k n s"
  shows "hs_inv k n s'"
proof -
  have n: "num_threads (hs_hz s) = n" "num_ptrs (hs_hz s) = k" using assms(2) by (auto simp: hs_inv_def hz_shape_def)
  have ok: "pc_ok k n (hs_pc s t) (hs_retired t s)" if "t < n" for t using assms(2) that by (simp add: hs_inv_def)
  from assms(1) show ?thesis
  proof cases
    case (hs_publish t j p)
    have "hz_shape k n (set_hp t j p (hs_hz s))"
      using assms(2) hs_publish by (auto simp: hs_inv_def hz_shape_def set_hp_def getHPRec_def
          dest!: subsetD [OF set_update_subset_insert])
    then show ?thesis using assms(2) hs_publish(1) by (auto simp: hs_inv_def hs_retired_def set_hp_def)
  next
    case (hs_taken t i A xs)
    then have "pc_ok k n (HReclaim A xs) (hs_retired t s)" using ok [of t] n by (auto simp: pc_ok_def)
    then show ?thesis using goto_inv [OF assms(2)] hs_taken(1) by simp
  next
    case (hs_retire t p)
    then show ?thesis using retire_inv assms(2) n by simp
  next
    case (hs_scan t)
    then show ?thesis using goto_inv [OF assms(2) pc_ok_idle_scan [OF ok]] n by simp
  next
    case (hs_read t i A)
    then show ?thesis using goto_inv [OF assms(2) pc_ok_read] ok [of t] n by (simp add: snapshot_read_def)
  next
    case (hs_visit t A p xs)
    then show ?thesis using visit_inv assms(2) n by simp
  next
    case (hs_return t A)
    then show ?thesis using goto_inv [OF assms(2) pc_ok_return] ok [of t] n by simp
  qed
qed

interpretation hs: transition_system "hs_start k n" hs_step "hs_inv k n" for k n
  by unfold_locales (auto intro: hs_start_inv hs_step_inv)

section \<open>Protection\<close>

text \<open>
  The node \<open>p\<close> is in the hazard pointer with number \<open>i\<close>, and no scan under way that could delete it has passed that
  hazard pointer without seeing it.
\<close>

definition protected :: "nat \<Rightarrow> nat \<Rightarrow> nat \<Rightarrow> hp_sys \<Rightarrow> bool" where
  "protected n i p s \<longleftrightarrow> hs_freed s p = 0 \<and> (\<forall>t < n. p \<in> hs_retired t s \<longrightarrow>
     (case hs_pc s t of HIdle \<Rightarrow> True | HSnap m A \<Rightarrow> i < m \<longrightarrow> p \<in> A | HReclaim A xs \<Rightarrow> p \<in> A))"

lemma protected_start: "hs_inv k n s \<Longrightarrow> p \<notin> hs_handed s \<Longrightarrow> protected n i p s"
  by (auto simp: hs_inv_def protected_def)

lemma protected_goto:
  "protected n i p s \<Longrightarrow> (p \<in> hs_retired t s \<Longrightarrow>
     case c of HIdle \<Rightarrow> True | HSnap m A \<Rightarrow> i < m \<longrightarrow> p \<in> A | HReclaim A xs \<Rightarrow> p \<in> A) \<Longrightarrow> protected n i p (hs_goto t c s)"
  by (auto simp: protected_def)

text \<open>While the hazard pointer stays, every step keeps the protection.\<close>

lemma protected_step:
  assumes "hs_step s s'" "hs_inv k n s" "protected n i p s" "hs_slot i s = p" "p \<noteq> 0" "i < n * k"
  shows "protected n i p s'"
proof -
  have n: "num_threads (hs_hz s) = n" "num_ptrs (hs_hz s) = k" "hz_shape k n (hs_hz s)"
    using assms(2) by (auto simp: hs_inv_def hz_shape_def)
  have prot: "p \<in> hs_retired t s \<Longrightarrow> case hs_pc s t of HIdle \<Rightarrow> True | HSnap m A \<Rightarrow> i < m \<longrightarrow> p \<in> A | HReclaim A xs \<Rightarrow> p \<in> A"
    if "t < n" for t using assms(3) that by (auto simp: protected_def)
  from assms(1) show ?thesis
  proof cases
    case (hs_publish t j q)
    then show ?thesis using assms(3) by (simp add: protected_def hs_retired_def set_hp_def)
  next
    case (hs_retire t q)
    have "hs_retired u s' = (if u = t then insert q (hs_retired t s) else hs_retired u s)" for u
      using hs_retire(1,2) n by (simp add: retire_enter_def Let_def hs_retired_set [of k n])
    then show ?thesis using assms(3) hs_retire(1) by (auto simp: protected_def retire_enter_def Let_def)
  next
    case (hs_scan t)
    then show ?thesis using protected_goto [OF assms(3)] by simp
  next
    case (hs_read t m A)
    show ?thesis unfolding hs_read(1) snapshot_read_def
      by (rule protected_goto [OF assms(3)]) (use prot [of t] hs_read assms(4,5) n in \<open>auto simp: less_Suc_eq\<close>)
  next
    case (hs_taken t m A xs)
    then show ?thesis using protected_goto [OF assms(3), of t] prot [of t] assms(6) n by auto
  next
    case (hs_visit t A q xs)
    have "pc_ok k n (hs_pc s t) (hs_retired t s)" using assms(2) hs_visit(2) n by (simp add: hs_inv_def)
    then have q: "q \<in> hs_retired t s" using hs_visit(3) by (simp add: pc_ok_def)
    show ?thesis
    proof (cases "q \<in> A")
      case True
      then show ?thesis using protected_goto [OF assms(3), of t] prot [of t] hs_visit n by (auto simp: reclaim_visit_def)
    next
      case False
      then have "q \<noteq> p" using prot [of t] hs_visit q n by auto
      moreover have "hs_retired u s' = (if u = t then hs_retired t s - {q} else hs_retired u s)" for u
        using hs_visit(1,2) False n by (simp add: reclaim_visit_def hs_retired_set [of k n])
      ultimately show ?thesis using assms(3) hs_visit False by (auto simp: protected_def reclaim_visit_def)
    qed
  next
    case (hs_return t A)
    then show ?thesis using protected_goto [OF assms(3)] by simp
  qed
qed

text \<open>Executions during which the hazard pointer with number \<open>i\<close> holds \<open>p\<close>.\<close>

abbreviation holding :: "nat \<Rightarrow> nat \<Rightarrow> hp_sys \<Rightarrow> hp_sys \<Rightarrow> bool" where
  "holding i p \<equiv> (\<lambda>a b. hs_step a b \<and> hs_slot i a = p \<and> hs_slot i b = p)\<^sup>*\<^sup>*"

lemma holding_protected:
  assumes "holding i p s s'" "hs_inv k n s" "protected n i p s" "p \<noteq> 0" "i < n * k"
  shows "hs_inv k n s' \<and> protected n i p s'"
  using assms by (induction rule: rtranclp_induct) (auto intro: hs_step_inv protected_step)

section \<open>A call that runs alone\<close>

text \<open>The hazard pointers, read slot by slot, are the \<open>active_list\<close> of the sequential definition.\<close>

lemma active_slots:
  assumes "hz_shape k n (hs_hz s)"
  shows "active_list (hs_hz s) = {p. p \<noteq> 0 \<and> (\<exists>i < n * k. p = hs_slot i s)}"
proof -
  have len: "length (hp_recs (hs_hz s)) = n" "\<And>u. u < n \<Longrightarrow> length (hp_recs (hs_hz s) ! u) = k" "num_ptrs (hs_hz s) = k"
    using assms by (auto simp: hz_shape_def)
  have "p \<in> set (concat (hp_recs (hs_hz s))) \<longleftrightarrow> (\<exists>i < n * k. p = hs_slot i s)" for p
  proof
    assume "p \<in> set (concat (hp_recs (hs_hz s)))"
    then obtain u j where u: "u < n" "j < k" "p = hp_recs (hs_hz s) ! u ! j"
      using len by (auto simp: in_set_conv_nth)
    then have "u * k + j < n * k" by (metis add_less_cancel_left less_le_trans mult_Suc add.commute mult_le_mono1 Suc_leI)
    moreover have "(u * k + j) div k = u" "(u * k + j) mod k = j" using u(2) by auto
    ultimately show "\<exists>i < n * k. p = hs_slot i s" using u(3) len(3) by (intro exI [of _ "u * k + j"]) (simp add: hs_slot_def)
  next
    assume "\<exists>i < n * k. p = hs_slot i s"
    then obtain i where i: "i < n * k" "p = hs_slot i s" by blast
    then have "i div k < n" "i mod k < k" by (cases "k = 0"; simp add: less_mult_imp_div_less)+
    then show "p \<in> set (concat (hp_recs (hs_hz s)))" using i(2) len
      by (auto simp: hs_slot_def Let_def intro!: bexI [of _ "hp_recs (hs_hz s) ! (i div k)"] nth_mem)
  qed
  then show ?thesis by (auto simp: active_list_def)
qed

text \<open>The snapshot, the visits and the whole scan of a thread that is not interrupted.\<close>

lemma snapshot_alone:
  assumes "hz_shape k n (hs_hz s)" "t < n" "i + d = n * k" "hs_pc s t = HSnap i A"
  shows "hs_step\<^sup>*\<^sup>* s (hs_goto t (HSnap (n * k) (A \<union> {p. p \<noteq> 0 \<and> (\<exists>j \<ge> i. j < n * k \<and> p = hs_slot j s)})) s)"
  using assms
proof (induction d arbitrary: i A s)
  case 0
  then have "{p. p \<noteq> 0 \<and> (\<exists>j \<ge> i. j < n * k \<and> p = hs_slot j s)} = {}" "hs_goto t (HSnap (n * k) A) s = s" by (auto simp: hs_goto_same)
  then show ?case by (simp only: Un_empty_right rtranclp.rtrancl_refl)
next
  case (Suc d)
  let ?B = "if hs_slot i s \<noteq> 0 then insert (hs_slot i s) A else A" and ?s = "snapshot_read t i A s"
  have n: "num_threads (hs_hz s) = n" "num_ptrs (hs_hz s) = k" using Suc.prems(1) by (auto simp: hz_shape_def)
  have "hs_step s ?s" using Suc.prems n by (intro hs_step.hs_read) auto
  moreover have "hs_step\<^sup>*\<^sup>* ?s (hs_goto t (HSnap (n * k) (?B \<union> {p. p \<noteq> 0 \<and> (\<exists>j \<ge> Suc i. j < n * k \<and> p = hs_slot j ?s)})) ?s)"
    using Suc.prems by (intro Suc.IH) (simp_all add: snapshot_read_def)
  moreover have "?B \<union> {p. p \<noteq> 0 \<and> (\<exists>j \<ge> Suc i. j < n * k \<and> p = hs_slot j ?s)} =
      A \<union> {p. p \<noteq> 0 \<and> (\<exists>j \<ge> i. j < n * k \<and> p = hs_slot j s)}"
  proof -
    have "{i..<n * k} = insert i {Suc i..<n * k}" using Suc.prems(3) by auto
    then have "(\<exists>j \<in> {i..<n * k}. P j) \<longleftrightarrow> P i \<or> (\<exists>j \<in> {Suc i..<n * k}. P j)" for P by auto
    then have "(\<exists>j \<ge> i. j < n * k \<and> P j) \<longleftrightarrow> P i \<or> (\<exists>j \<ge> Suc i. j < n * k \<and> P j)" for P
      by (simp add: Bex_def conj_assoc)
    then show ?thesis by (auto simp: snapshot_read_def)
  qed
  moreover have "hs_goto t c ?s = hs_goto t c s" for c by (simp add: snapshot_read_def hs_goto_def)
  ultimately show ?case by (simp add: converse_rtranclp_into_rtranclp)
qed

lemma reclaim_alone:
  assumes "hz_shape k n (hs_hz s)" "t < n" "hs_pc s t = HReclaim A xs" "distinct xs"
  shows "hs_step\<^sup>*\<^sup>* s (hs_goto t HIdle (hs_set_retired t (hs_retired t s - (set xs - A)) (s\<lparr>hs_freed := log_frees (set xs - A) (hs_freed s)\<rparr>)))"
  using assms
proof (induction xs arbitrary: s)
  case Nil
  have "t < length (retired_lists (hs_hz s))" "num_threads (hs_hz s) = n" using Nil.prems by (auto simp: hz_shape_def)
  then have "hs_step s (hs_goto t HIdle s)" using Nil.prems by (auto intro: hs_return)
  then show ?case by (simp add: hs_set_retired_same)
next
  case (Cons p xs)
  let ?s = "reclaim_visit t A p xs s" and ?f = "\<lambda>F s. hs_set_retired t (hs_retired t s - F) (s\<lparr>hs_freed := log_frees F (hs_freed s)\<rparr>)"
  have n: "num_threads (hs_hz s) = n" and len: "t < length (retired_lists (hs_hz s))" using Cons.prems by (auto simp: hz_shape_def)
  have "hs_step s ?s" using Cons.prems n by (intro hs_visit) auto
  moreover have "hs_step\<^sup>*\<^sup>* ?s (hs_goto t HIdle (?f (set xs - A) ?s))"
    using Cons.prems by (intro Cons.IH) (auto simp: reclaim_visit_def)
  moreover have "hs_goto t HIdle (?f (set xs - A) ?s) = hs_goto t HIdle (?f (set (p # xs) - A) s)"
  proof (cases "p \<in> A")
    case True
    then show ?thesis by (simp add: reclaim_visit_def hs_goto_def hs_set_retired_def hs_retired_def)
  next
    case False
    have "log_frees (set xs - A) ((hs_freed s)(p := Suc (hs_freed s p))) = log_frees (insert p (set xs - A)) (hs_freed s)"
      using Cons.prems(4) by (auto simp: log_frees_def fun_eq_iff)
    then show ?thesis
      using False len by (simp add: reclaim_visit_def hs_goto_def hs_set_retired_def hs_retired_def insert_Diff_if Diff_insert2 [symmetric])
  qed
  ultimately show ?case by (simp add: converse_rtranclp_into_rtranclp)
qed

text \<open>
  So \<open>maybeFreeNodes\<close> and \<open>retireNode\<close> of the sequential definitions are what the steps of a thread do when no other thread
  interrupts them.
\<close>

lemma scan_alone:
  assumes "hz_shape k n (hs_hz s)" "t < n" "hs_pc s t = HSnap 0 {}" "finite (hs_retired t s)" "maybeFreeNodes t (hs_hz s) = (F, hz)"
  shows "hs_step\<^sup>*\<^sup>* s (hs_goto t HIdle (s\<lparr>hs_hz := hz, hs_freed := log_frees F (hs_freed s)\<rparr>))"
proof -
  let ?A = "active_list (hs_hz s)" and ?R = "hs_retired t s"
  obtain xs where xs: "distinct xs" "set xs = ?R" using finite_distinct_list [OF assms(4)] by blast
  have n: "num_threads (hs_hz s) = n" "num_ptrs (hs_hz s) = k" using assms(1) by (auto simp: hz_shape_def)
  let ?s1 = "hs_goto t (HSnap (n * k) ?A) s" and ?s2 = "hs_goto t (HReclaim ?A xs) s"
  have "hs_step\<^sup>*\<^sup>* s ?s1" using snapshot_alone [OF assms(1,2) _ assms(3)] by (simp add: active_slots [OF assms(1)])
  also have "hs_step ?s1 (hs_goto t (HReclaim ?A xs) ?s1)" using xs assms(2) n by (intro hs_taken) auto
  also have "hs_goto t (HReclaim ?A xs) ?s1 = ?s2" by (simp add: hs_goto_def)
  also have "hs_step\<^sup>*\<^sup>* ?s2 (hs_goto t HIdle (hs_set_retired t (hs_retired t ?s2 - (set xs - ?A))
      (?s2\<lparr>hs_freed := log_frees (set xs - ?A) (hs_freed ?s2)\<rparr>)))"
    using assms(1,2) xs by (intro reclaim_alone) auto
  also have "hs_goto t HIdle (hs_set_retired t (hs_retired t ?s2 - (set xs - ?A)) (?s2\<lparr>hs_freed := log_frees (set xs - ?A) (hs_freed ?s2)\<rparr>)) =
      hs_goto t HIdle (s\<lparr>hs_hz := hz, hs_freed := log_frees F (hs_freed s)\<rparr>)"
    using assms(5) xs(2) by (auto simp: hs_goto_def hs_set_retired_def hs_retired_def maybeFreeNodes_def Let_def Diff_Diff_Int)
  finally show ?thesis .
qed

lemma retire_alone:
  assumes "hz_shape k n (hs_hz s)" "t < n" "hs_pc s t = HIdle" "finite (hs_retired t s)" "p \<notin> hs_handed s"
    "retireNode t p (hs_hz s) = (F, hz)"
  shows "hs_step\<^sup>*\<^sup>* s (s\<lparr>hs_hz := hz, hs_handed := insert p (hs_handed s), hs_freed := log_frees F (hs_freed s)\<rparr>)"
proof -
  let ?R = "insert p (hs_retired t s)" and ?s = "retire_enter t p s"
  let ?last = "s\<lparr>hs_hz := hz, hs_handed := insert p (hs_handed s), hs_freed := log_frees F (hs_freed s)\<rparr>"
  have t: "t < length (retired_lists (hs_hz s))" "num_threads (hs_hz s) = n" using assms(1,2) by (auto simp: hz_shape_def)
  have idle: "hs_goto t HIdle ?last = ?last" using assms(3) by (simp add: hs_goto_same)
  have step: "hs_step s ?s" using assms t by (intro hs_retire) auto
  show ?thesis
  proof (cases "card ?R > MAX_RETIRED_NODES_PER_THREAD")
    case True
    then have F: "maybeFreeNodes t (hs_hz ?s) = (F, hz)"
      using assms(6) t by (simp add: retire_enter_def retireNode_def Let_def hs_retired_def hs_set_retired_def)
    have "hs_step\<^sup>*\<^sup>* ?s (hs_goto t HIdle (?s\<lparr>hs_hz := hz, hs_freed := log_frees F (hs_freed ?s)\<rparr>))"
      using assms(1,2,4) True t F by (intro scan_alone [of k n])
        (auto simp: retire_enter_def Let_def hs_retired_def hs_set_retired_def hz_shape_def)
    moreover have "hs_goto t HIdle (?s\<lparr>hs_hz := hz, hs_freed := log_frees F (hs_freed ?s)\<rparr>) = hs_goto t HIdle ?last"
      by (simp add: retire_enter_def Let_def hs_goto_def hs_set_retired_def)
    ultimately show ?thesis using step idle by (simp add: converse_rtranclp_into_rtranclp)
  next
    case False
    then have "?s = hs_goto t HIdle ?last"
      using assms(6) t by (auto simp: retire_enter_def retireNode_def Let_def hs_retired_def hs_set_retired_def hs_goto_def log_frees_def)
    then show ?thesis using step idle by simp
  qed
qed

section \<open>Properties\<close>

text \<open>
  C5. In every interleaving of the accesses of threads that publish hazard pointers, retire nodes (each node once) and
  scan: a node that some hazard pointer holds before the node is retired is not deleted as long as that hazard pointer keeps
  holding it, whatever the other threads do and wherever their scans are; no node is deleted twice, and none that was
  not retired; every node retired and not yet deleted is in a retired list, so that the destructor deletes exactly those; and a thread
  outside of a scan holds back at most ten nodes, or as many as there are hazard pointers if that is more.
\<close>

theorem HazardPointers_safe:
  assumes "reach (hs_start k n) hs_step s"
  shows "(\<forall>i < n * k. \<forall>p s'. p \<noteq> 0 \<and> p \<notin> hs_handed s \<and> holding i p s s' \<longrightarrow> hs_freed s' p = 0) \<and>
    (\<forall>p. hs_freed s p + of_bool (p \<in> HazardPointers_destroy (hs_hz s)) = of_bool (p \<in> hs_handed s)) \<and>
    (\<forall>t < n. hs_pc s t = HIdle \<longrightarrow> card (hs_retired t s) \<le> max 10 (n * k))"
proof (intro conjI allI impI)
  have inv: "hs_inv k n s" using assms by (rule hs.reach_invar)
  show "hs_freed s' p = 0" if "i < n * k" "p \<noteq> 0 \<and> p \<notin> hs_handed s \<and> holding i p s s'" for i p s'
    using holding_protected [of i p s s' k n] protected_start [OF inv] that inv by (auto simp: protected_def)
  show "hs_freed s p + of_bool (p \<in> HazardPointers_destroy (hs_hz s)) = of_bool (p \<in> hs_handed s)" for p
  proof -
    have "p \<in> HazardPointers_destroy (hs_hz s) \<longleftrightarrow> (\<exists>t < n. p \<in> hs_retired t s)"
      using inv by (fastforce simp: hs_inv_def hz_shape_def HazardPointers_destroy_def hs_retired_def in_set_conv_nth)
    then show ?thesis using inv by (auto simp: hs_inv_def)
  qed
  show "card (hs_retired t s) \<le> max 10 (n * k)" if "t < n" "hs_pc s t = HIdle" for t
    using inv that by (auto simp: hs_inv_def pc_ok_def MAX_RETIRED_NODES_PER_THREAD_def)
qed

text \<open>Thread 1 has published node 8; thread 0 retires it and scans.\<close>

definition hs_demo :: "nat set \<Rightarrow> nat set \<Rightarrow> hp_pc \<Rightarrow> hp_sys" where
  "hs_demo H R c = \<lparr>hs_hz = \<lparr>num_ptrs = 1, num_threads = 2, hp_recs = [[0], [8]], retired_lists = [R, {}]\<rparr>,
     hs_pc = (\<lambda>_. HIdle)(0 := c), hs_handed = H, hs_freed = (\<lambda>_. 0)\<rparr>"

lemmas hs_demo_simps = hs_demo_def hs_goto_def hs_slot_def hs_retired_def hs_set_retired_def fun_eq_iff

lemma hs_demo_reached: "reach (hs_start 1 2) hs_step (hs_demo {} {} HIdle)"
proof -
  let ?s = "hs_new 1 (\<lambda>_ _. 0) 2"
  have "hs_step ?s (?s\<lparr>hs_hz := set_hp 1 0 8 (hs_hz ?s)\<rparr>)"
    by (rule hs_publish) (simp_all add: hs_new_def HazardPointers_new_def)
  moreover have "?s\<lparr>hs_hz := set_hp 1 0 8 (hs_hz ?s)\<rparr> = hs_demo {} {} HIdle"
    by (simp add: hs_new_def HazardPointers_new_def set_hp_def getHPRec_def hs_demo_simps upt_rec numeral_2_eq_2)
  ultimately show ?thesis by (metis reach_step reach_start hs_start_def)
qed

lemma hs_demo_run: "holding 1 8 (hs_demo {} {} HIdle) (hs_demo {8} {8} (HReclaim {8} []))"
proof -
  let ?h = "\<lambda>a b. hs_step a b \<and> hs_slot 1 a = 8 \<and> hs_slot 1 b = 8"
  let ?d = "hs_demo {8} {8}"
  have slot: "hs_slot 1 (hs_demo H R c) = 8" for H R c by (simp add: hs_demo_simps)
  have "hs_step (hs_demo {} {} HIdle) (retire_enter 0 8 (hs_demo {} {} HIdle))" by (rule hs_retire) (simp_all add: hs_demo_simps)
  also have "retire_enter 0 8 (hs_demo {} {} HIdle) = ?d HIdle"
    by (simp add: retire_enter_def Let_def hs_demo_simps MAX_RETIRED_NODES_PER_THREAD_def)
  finally have 1: "?h (hs_demo {} {} HIdle) (?d HIdle)" using slot by simp
  have goto: "hs_goto 0 c' (?d c) = ?d c'" for c c' by (simp add: hs_demo_simps)
  have 2: "?h (?d HIdle) (?d (HSnap 0 {}))" using hs_scan [of 0 "?d HIdle"] slot goto by (simp add: hs_demo_simps)
  have 3: "?h (?d (HSnap 0 {})) (?d (HSnap 1 {}))"
    using hs_read [of 0 "?d (HSnap 0 {})" 0 "{}"] slot goto by (simp add: snapshot_read_def hs_demo_simps)
  have 4: "?h (?d (HSnap 1 {})) (?d (HSnap 2 {8}))"
    using hs_read [of 0 "?d (HSnap 1 {})" 1 "{}"] slot goto by (simp add: snapshot_read_def hs_demo_simps numeral_2_eq_2)
  have 5: "?h (?d (HSnap 2 {8})) (?d (HReclaim {8} [8]))"
    using hs_taken [of 0 "?d (HSnap 2 {8})" 2 "{8}" "[8]"] slot goto by (simp add: hs_demo_simps)
  have 6: "?h (?d (HReclaim {8} [8])) (?d (HReclaim {8} []))"
    using hs_visit [of 0 "?d (HReclaim {8} [8])" "{8}" 8 "[]"] slot goto by (simp add: reclaim_visit_def hs_demo_simps)
  show ?thesis by (rule converse_rtranclp_into_rtranclp, (rule 1 2 3 4 5 6))+ simp
qed

theorem HazardPointers_safe_witness:
  "hs_freed (hs_demo {8} {8} (HReclaim {8} [])) 8 = 0 \<and>
   hs_freed (hs_demo {} {} HIdle) 8 + of_bool (8 \<in> HazardPointers_destroy (hs_hz (hs_demo {} {} HIdle))) = of_bool (8 \<in> hs_handed (hs_demo {} {} HIdle)) \<and>
   card (hs_retired 0 (hs_demo {} {} HIdle)) \<le> max 10 (2 * 1)"
proof -
  note safe = HazardPointers_safe [OF hs_demo_reached]
  have "8 \<notin> hs_handed (hs_demo {} {} HIdle)" "hs_pc (hs_demo {} {} HIdle) 0 = HIdle" by (simp_all add: hs_demo_def)
  then show ?thesis using safe [THEN conjunct1, rule_format, of 1 8, OF _ conjI [OF _ conjI [OF _ hs_demo_run]]] safe by simp
qed

end
