(* ===== verification/Service_Manager.thy ===== *)
theory Service_Manager
  imports Io_Manager
begin

text \<open>
  \<^verbatim>\<open>src/acceptor.cpp\<close>, \<^verbatim>\<open>src/service_manager.cpp\<close> and the accepting side of
  \<^verbatim>\<open>src/http_service.cpp\<close> and \<^verbatim>\<open>src/kv_service.cpp\<close>. The results of the system calls are
  arguments: those of \<open>accept\<close> a function from the number of the call. \<open>None\<close> is \<open>exit(1)\<close>, a
  call through a null pointer, or a loop that never ends.
\<close>

section \<open>Acceptor\<close>

record acceptor =
  listen_fd :: int
  io_descr :: "nat option"

datatype accept_result = Accepted nat | AcceptAgain | AcceptInterrupted | AcceptAborted | AcceptFailed

definition Acceptor_new ::
  "int \<Rightarrow> bool \<Rightarrow> bool \<Rightarrow> 'cb \<Rightarrow> 'cb \<Rightarrow> 'cb io_manager \<Rightarrow> (acceptor \<times> 'cb io_manager) option" where
  "Acceptor_new socket_fd bind_ok listen_ok readUpCall writeUpCall io =
     (if socket_fd < 0 \<or> \<not> bind_ok \<or> \<not> listen_ok then None
      else map_option (\<lambda>(d, io1). (\<lparr>listen_fd = socket_fd, io_descr = Some d\<rparr>, io1))
             (newDescriptor socket_fd (Some readUpCall) (Some writeUpCall) io))"

text \<open>Closing the socket also takes it out of the poller's set.\<close>

definition Acceptor_close :: "acceptor \<Rightarrow> 'cb io_manager \<Rightarrow> acceptor \<times> 'cb io_manager" where
  "Acceptor_close a io =
     (a\<lparr>io_descr := None\<rparr>,
      delDescriptor (io_descr a) (io\<lparr>poll_set := filter (\<lambda>x. fst x \<noteq> listen_fd a) (poll_set io)\<rparr>))"

definition Acceptor_destroy :: "acceptor \<Rightarrow> 'cb io_manager \<Rightarrow> acceptor \<times> 'cb io_manager" where
  "Acceptor_destroy a io = (if io_descr a \<noteq> None then Acceptor_close a io else (a, io))"

definition startAccept :: "acceptor \<Rightarrow> 'cb io_manager \<Rightarrow> 'cb io_manager option" where
  "startAccept a io = Option.bind (io_descr a) (\<lambda>d. Descriptor_readWhenReady d io)"

partial_function (option) socketAccept :: "(nat \<Rightarrow> accept_result) \<Rightarrow> nat \<Rightarrow> (accept_result \<times> nat) option" where
  "socketAccept res k =
     (if res k = AcceptInterrupted \<or> res k = AcceptAborted then socketAccept res (Suc k) else Some (res k, Suc k))"

definition accept_fd :: "accept_result \<Rightarrow> int" where
  "accept_fd r = (case r of Accepted fd \<Rightarrow> int fd | _ \<Rightarrow> -1)"

text \<open>
  \<open>doAccept\<close>: \<open>cb\<close> is the accept callback, \<open>rearm\<close> the \<open>readWhenReady\<close> of the acceptor's
  descriptor; both act on the state of the service.
\<close>

partial_function (option) doAccept ::
  "(nat \<Rightarrow> accept_result) \<Rightarrow> (int \<Rightarrow> 'u \<Rightarrow> 'u) \<Rightarrow> ('u \<Rightarrow> 'u option) \<Rightarrow> nat \<Rightarrow> 'u \<Rightarrow> 'u option" where
  "doAccept res cb rearm k u =
     Option.bind (socketAccept res k) (\<lambda>(r, k1).
       if r = AcceptAgain then rearm u else doAccept res cb rearm k1 (cb (accept_fd r) u))"

section \<open>The services' side\<close>

text \<open>
  What \<open>acceptConnection\<close> of both services does: \<open>svc_opened\<close> are the sockets for which a server
  connection was made, and \<open>svc_stops\<close> counts the calls of the service manager's \<open>stop\<close>.
\<close>

record service_side =
  svc_stopped :: bool
  svc_opened :: "int list"
  svc_stops :: nat

definition HTTPService_stop :: "service_side \<Rightarrow> service_side" where
  "HTTPService_stop v = v\<lparr>svc_stopped := True, svc_stops := svc_stops v + 1\<rparr>"

definition HTTPService_acceptConnection :: "int \<Rightarrow> service_side \<Rightarrow> service_side" where
  "HTTPService_acceptConnection fd v =
     (if svc_stopped v then v else if fd < 0 then HTTPService_stop v else v\<lparr>svc_opened := svc_opened v @ [fd]\<rparr>)"

definition KVService_acceptConnection :: "int \<Rightarrow> service_side \<Rightarrow> service_side" where
  "KVService_acceptConnection fd v =
     (if svc_stopped v then v else if fd < 0 then HTTPService_stop v else v\<lparr>svc_opened := svc_opened v @ [fd]\<rparr>)"

section \<open>Service manager\<close>

text \<open>
  Threads \<open>0, ..., n - 1\<close> are the workers, the others are outside the pool. A caller of \<open>stop\<close> is
  at one of the points below: before the call, waiting for another caller, closing the acceptors,
  at the sections of \<open>IOManager::stop\<close>, publishing \<open>stopped_\<close>, or back from the call.
\<close>

datatype stop_pc = SmIdle | SmWait | SmClose | SmIoStop | SmIoWait | SmJoin | SmPublish | SmReturned

datatype run_pc = RunIdle | RunPoll | RunLoop | RunWait | RunReturned

record 'cb service_manager =
  sm_io :: "'cb io_manager"
  acceptors :: "acceptor list"
  sm_stop_requested :: bool
  sm_stopped :: bool
  sm_pc :: "nat \<Rightarrow> stop_pc"
  sm_run :: run_pc

definition ServiceManager_new :: "nat \<Rightarrow> 'cb service_manager" where
  "ServiceManager_new num_workers =
     \<lparr>sm_io = IOManager_new num_workers, acceptors = [], sm_stop_requested = False, sm_stopped = False,
      sm_pc = (\<lambda>_. SmIdle), sm_run = RunIdle\<rparr>"

definition registerAcceptor ::
  "int \<Rightarrow> bool \<Rightarrow> bool \<Rightarrow> 'cb \<Rightarrow> 'cb \<Rightarrow> 'cb service_manager \<Rightarrow> 'cb service_manager option" where
  "registerAcceptor fd b l rcb wcb s =
     map_option (\<lambda>(a, io). s\<lparr>sm_io := io, acceptors := acceptors s @ [a]\<rparr>) (Acceptor_new fd b l rcb wcb (sm_io s))"

fun close_all :: "acceptor list \<Rightarrow> 'cb io_manager \<Rightarrow> acceptor list \<times> 'cb io_manager" where
  "close_all [] io = ([], io)"
| "close_all (a # as) io =
     (case Acceptor_close a io of (a1, io1) \<Rightarrow> case close_all as io1 of (as1, io2) \<Rightarrow> (a1 # as1, io2))"

fun start_all :: "acceptor list \<Rightarrow> 'cb io_manager \<Rightarrow> 'cb io_manager option" where
  "start_all [] io = Some io"
| "start_all (a # as) io = Option.bind (startAccept a io) (start_all as)"

text \<open>The next step of thread \<open>t\<close> in \<open>stop\<close>; a thread that has to wait does not move.\<close>

definition joined :: "nat \<Rightarrow> nat \<Rightarrow> 'cb io_manager \<Rightarrow> bool" where
  "joined n t io \<longleftrightarrow> (\<forall>i < n. i \<noteq> t \<longrightarrow> fw_pc (worker_pool io) i = FwExit)"

definition ServiceManager_stop :: "nat \<Rightarrow> nat \<Rightarrow> 'cb service_manager \<Rightarrow> 'cb service_manager" where
  "ServiceManager_stop n t s =
     (let goto = \<lambda>p s. s\<lparr>sm_pc := (sm_pc s)(t := p)\<rparr>
      in case sm_pc s t of
           SmIdle \<Rightarrow> if sm_stop_requested s then goto SmWait s else goto SmClose (s\<lparr>sm_stop_requested := True\<rparr>)
         | SmWait \<Rightarrow> if sm_stopped s then goto SmReturned s else s
         | SmClose \<Rightarrow> (case close_all (acceptors s) (sm_io s) of
             (as, io) \<Rightarrow> goto SmIoStop (s\<lparr>sm_io := io, acceptors := as\<rparr>))
         | SmIoStop \<Rightarrow> (case IOManager_stop_begin (sm_io s) of
             (go, io) \<Rightarrow> goto (if go then SmIoWait else SmPublish) (s\<lparr>sm_io := io\<rparr>))
         | SmIoWait \<Rightarrow> if polling (sm_io s) then s else goto SmJoin (s\<lparr>sm_io := IOManager_stop_pool n (sm_io s)\<rparr>)
         | SmJoin \<Rightarrow> if joined n t (sm_io s)
             then (case IOManager_stop_end (sm_io s) of Some io \<Rightarrow> goto SmPublish (s\<lparr>sm_io := io\<rparr>) | None \<Rightarrow> s) else s
         | SmPublish \<Rightarrow> goto SmReturned (s\<lparr>sm_stopped := True\<rparr>)
         | SmReturned \<Rightarrow> goto SmIdle s)"

text \<open>The steps of \<open>run\<close>; the rounds of the polling loop are steps of the I/O manager.\<close>

definition ServiceManager_run :: "'cb service_manager \<Rightarrow> 'cb service_manager" where
  "ServiceManager_run s =
     (case sm_run s of
        RunIdle \<Rightarrow> (case start_all (acceptors s) (sm_io s) of Some io \<Rightarrow> s\<lparr>sm_io := io, sm_run := RunPoll\<rparr> | None \<Rightarrow> s)
      | RunPoll \<Rightarrow> s\<lparr>sm_io := poll_begin (sm_io s), sm_run := RunLoop\<rparr>
      | RunLoop \<Rightarrow> if io_stopped (sm_io s) then s\<lparr>sm_io := poll_end (sm_io s), sm_run := RunWait\<rparr> else s
      | RunWait \<Rightarrow> if sm_stopped s then s\<lparr>sm_run := RunReturned\<rparr> else s
      | RunReturned \<Rightarrow> s)"

definition ServiceManager_stopped :: "'cb service_manager \<Rightarrow> bool" where
  "ServiceManager_stopped s = sm_stop_requested s"

text \<open>
  The destructor after its call of \<open>stop\<close>: it deletes the acceptors and then the I/O manager, whose destructor calls \<open>stop\<close> as
  well. \<open>None\<close>: the I/O manager was not stopped, and its destructor would have to do it.
\<close>

fun destroy_acceptors :: "acceptor list \<Rightarrow> 'cb io_manager \<Rightarrow> 'cb io_manager" where
  "destroy_acceptors [] io = io"
| "destroy_acceptors (a # as) io = destroy_acceptors as (snd (Acceptor_destroy a io))"

definition IOManager_destroy :: "'cb io_manager \<Rightarrow> 'cb io_manager option" where
  "IOManager_destroy io = (case IOManager_stop_begin io of (go, io1) \<Rightarrow> if go then None else Some io1)"

definition ServiceManager_destroy :: "'cb service_manager \<Rightarrow> 'cb io_manager option" where
  "ServiceManager_destroy s = IOManager_destroy (destroy_acceptors (acceptors s) (sm_io s))"

lemma destroy_acceptors_closed: "\<forall>a \<in> set as. io_descr a = None \<Longrightarrow> destroy_acceptors as io = io"
  by (induction as) (simp_all add: Acceptor_destroy_def)

section \<open>Executions\<close>

text \<open>
  Any number of threads call \<open>stop\<close>, one thread calls \<open>run\<close>, acceptors are registered before
  \<open>run\<close>, and meanwhile the I/O manager makes any other step; nobody else hands over the
  acceptors' descriptors.
\<close>

definition accs_ok :: "acceptor list \<Rightarrow> 'cb io_manager \<Rightarrow> bool" where
  "accs_ok as io \<longleftrightarrow> distinct (filter (\<lambda>d. d \<noteq> None) (map io_descr as)) \<and>
     (\<forall>a \<in> set as. \<forall>d. io_descr a = Some d \<longrightarrow> descs io d \<noteq> None \<and> d \<notin> set (deleted_desc io))"

inductive sm_step :: "nat \<Rightarrow> 'cb service_manager \<Rightarrow> 'cb service_manager \<Rightarrow> bool" for n :: nat where
  sm_stop: "sm_step n s (ServiceManager_stop n t s)"
| sm_runs: "sm_step n s (ServiceManager_run s)"
| sm_register: "sm_run s = RunIdle \<Longrightarrow> \<not> sm_stop_requested s \<Longrightarrow> registerAcceptor fd b l rcb wcb s = Some s1 \<Longrightarrow> sm_step n s s1"
| sm_io: "io_step n (sm_io s) io \<Longrightarrow> io_stopped io = io_stopped (sm_io s) \<Longrightarrow> polling io = polling (sm_io s) \<Longrightarrow>
    accs_ok (acceptors s) io \<Longrightarrow> sm_step n s (s\<lparr>sm_io := io\<rparr>)"

definition sm_start :: "nat \<Rightarrow> 'cb service_manager \<Rightarrow> bool" where
  "sm_start n s \<longleftrightarrow> s = ServiceManager_new n"

text \<open>How far the stopping has come.\<close>

definition stop_level :: "stop_pc \<Rightarrow> nat" where
  "stop_level p = (case p of SmClose \<Rightarrow> 1 | SmIoStop \<Rightarrow> 2 | SmIoWait \<Rightarrow> 3 | SmJoin \<Rightarrow> 4 | SmPublish \<Rightarrow> 5 | _ \<Rightarrow> 0)"

definition reached :: "nat \<Rightarrow> 'cb service_manager \<Rightarrow> bool" where
  "reached k s \<longleftrightarrow> sm_stopped s \<or> (\<exists>t. k \<le> stop_level (sm_pc s t))"

definition sm_inv :: "nat \<Rightarrow> 'cb service_manager \<Rightarrow> bool" where
  "sm_inv n s \<longleftrightarrow> io_inv n (sm_io s) \<and> accs_ok (acceptors s) (sm_io s) \<and>
     (\<forall>t u. 0 < stop_level (sm_pc s t) \<and> 0 < stop_level (sm_pc s u) \<longrightarrow> t = u) \<and>
     (sm_stop_requested s \<longleftrightarrow> reached 1 s) \<and> (sm_stopped s \<longrightarrow> (\<forall>t. stop_level (sm_pc s t) = 0)) \<and>
     (\<forall>t. sm_pc s t = SmReturned \<longrightarrow> sm_stopped s) \<and> (sm_run s = RunReturned \<longrightarrow> sm_stopped s) \<and>
     (reached 2 s \<longrightarrow> (\<forall>a \<in> set (acceptors s). io_descr a = None)) \<and>
     (io_stopped (sm_io s) \<longleftrightarrow> reached 3 s) \<and>
     (\<forall>t. sm_pc s t = SmPublish \<longrightarrow> joined n t (sm_io s)) \<and> (sm_stopped s \<longrightarrow> (\<exists>t. joined n t (sm_io s)))"

lemma Acceptor_close_inv:
  assumes "io_inv n io" "accs_ok (a # as) io" "Acceptor_close a io = (a1, io1)"
  shows "io_inv n io1 \<and> accs_ok as io1 \<and> io_descr a1 = None \<and> io_stopped io1 = io_stopped io \<and>
    worker_pool io1 = worker_pool io"
proof (cases "io_descr a")
  case None
  then show ?thesis using assms by (auto simp: Acceptor_close_def delDescriptor_def io_inv_def descs_ok_def accs_ok_def)
next
  case (Some d)
  have d: "descs io d \<noteq> None" "d \<notin> set (deleted_desc io)" using assms(2) Some by (auto simp: accs_ok_def)
  have ne: "io_descr b \<noteq> Some d" if "b \<in> set as" for b using assms(2) Some that by (force simp: accs_ok_def)
  have io1: "io1 = io\<lparr>poll_set := filter (\<lambda>x. fst x \<noteq> listen_fd a) (poll_set io), deleted_desc := d # deleted_desc io\<rparr>"
    and a1: "a1 = a\<lparr>io_descr := None\<rparr>"
    using assms(3) Some by (auto simp: Acceptor_close_def delDescriptor_def)
  have "io_inv n io1" using assms(1) d by (auto simp: io1 io_inv_def descs_ok_def)
  moreover have "accs_ok as io1" using assms(2) ne Some by (auto simp: io1 accs_ok_def)
  ultimately show ?thesis by (simp add: io1 a1)
qed

lemma close_all_inv:
  assumes "io_inv n io" "accs_ok as io" "close_all as io = (as1, io1)"
  shows "io_inv n io1 \<and> (\<forall>a \<in> set as1. io_descr a = None) \<and> io_stopped io1 = io_stopped io \<and>
    worker_pool io1 = worker_pool io"
  using assms
proof (induction as arbitrary: io as1 io1)
  case (Cons a as)
  obtain a2 io2 where 2: "Acceptor_close a io = (a2, io2)" by fastforce
  obtain as3 io3 where 3: "close_all as io2 = (as3, io3)" by fastforce
  have e: "as1 = a2 # as3" "io1 = io3" using Cons.prems(3) 2 3 by auto
  have c: "io_inv n io2 \<and> accs_ok as io2 \<and> io_descr a2 = None \<and> io_stopped io2 = io_stopped io \<and> worker_pool io2 = worker_pool io"
    by (rule Acceptor_close_inv [OF Cons.prems(1,2) 2])
  then show ?case using Cons.IH [OF _ _ 3] e by auto
qed auto

lemma accs_closed: "\<forall>a \<in> set as. io_descr a = None \<Longrightarrow> accs_ok as io"
  by (auto simp: accs_ok_def filter_empty_conv)

text \<open>When one thread moves on to a point of a higher level.\<close>

lemma reached_update:
  assumes "\<And>u. u \<noteq> t \<Longrightarrow> stop_level (sm_pc s u) = 0" "\<not> sm_stopped s" "0 < k"
  shows "reached k (s\<lparr>sm_pc := (sm_pc s)(t := p)\<rparr>) \<longleftrightarrow> k \<le> stop_level p"
  using assms by (auto simp: reached_def split: if_splits)

lemma reached_same:
  "stop_level p = stop_level (sm_pc s t) \<Longrightarrow> reached k (s\<lparr>sm_pc := (sm_pc s)(t := p)\<rparr>) \<longleftrightarrow> reached k s"
  by (auto simp: reached_def)

lemma reached_fields [simp]:
  "reached k (s\<lparr>sm_io := io\<rparr>) = reached k s" "reached k (s\<lparr>acceptors := as\<rparr>) = reached k s"
  "reached k (s\<lparr>sm_run := r\<rparr>) = reached k s" "reached k (s\<lparr>sm_stop_requested := b\<rparr>) = reached k s"
  by (simp_all add: reached_def)

lemma stop_level_simps [simp]:
  "stop_level SmIdle = 0" "stop_level SmWait = 0" "stop_level SmClose = 1" "stop_level SmIoStop = 2" "stop_level SmIoWait = 3"
  "stop_level SmJoin = 4" "stop_level SmPublish = 5" "stop_level SmReturned = 0"
  by (simp_all add: stop_level_def)

text \<open>A thread that is not stopping moves among the points of level 0.\<close>

lemma sm_inv_idle:
  assumes inv: "sm_inv n s" and l: "stop_level (sm_pc s t) = 0" "stop_level p = 0" "p = SmReturned \<longrightarrow> sm_stopped s"
  shows "sm_inv n (s\<lparr>sm_pc := (sm_pc s)(t := p)\<rparr>)"
proof -
  have r: "reached k (s\<lparr>sm_pc := (sm_pc s)(t := p)\<rparr>) \<longleftrightarrow> reached k s" for k using l by (intro reached_same) simp
  have "p \<noteq> SmPublish" using l by auto
  then show ?thesis using inv l unfolding sm_inv_def r by (auto split: if_splits)
qed

lemma sm_inv_stopper:
  assumes inv: "sm_inv n s" and t: "0 < stop_level (sm_pc s t)"
  shows "u \<noteq> t \<Longrightarrow> stop_level (sm_pc s u) = 0" and "\<not> sm_stopped s" and "sm_stop_requested s"
    and "0 < k \<Longrightarrow> reached k s \<longleftrightarrow> k \<le> stop_level (sm_pc s t)"
proof -
  show other: "stop_level (sm_pc s u) = 0" if "u \<noteq> t" for u
    using inv t that unfolding sm_inv_def by (metis gr0I)
  show ns: "\<not> sm_stopped s" using inv t unfolding sm_inv_def by auto
  show "sm_stop_requested s" using inv t unfolding sm_inv_def reached_def by (metis One_nat_def Suc_leI)
  show "reached k s \<longleftrightarrow> k \<le> stop_level (sm_pc s t)" if "0 < k"
    using reached_update [of t s k "sm_pc s t"] other ns that by simp
qed

text \<open>The stopping thread moves on.\<close>

lemma sm_inv_advance:
  assumes inv: "sm_inv n s" and t: "0 < stop_level (sm_pc s t)" "0 < stop_level p"
    and io: "io_inv n io" "accs_ok as io" "2 \<le> stop_level p \<Longrightarrow> \<forall>a \<in> set as. io_descr a = None"
      "io_stopped io \<longleftrightarrow> 3 \<le> stop_level p" "p = SmPublish \<Longrightarrow> joined n t io"
  shows "sm_inv n (s\<lparr>sm_io := io, acceptors := as, sm_pc := (sm_pc s)(t := p)\<rparr>)"
proof -
  let ?s = "s\<lparr>sm_io := io, acceptors := as\<rparr>"
  note other = sm_inv_stopper(1) [OF inv t(1)] and ns = sm_inv_stopper(2) [OF inv t(1)] and rq = sm_inv_stopper(3) [OF inv t(1)]
  have r: "reached k (?s\<lparr>sm_pc := (sm_pc s)(t := p)\<rparr>) \<longleftrightarrow> k \<le> stop_level p" if "0 < k" for k
    using reached_update [of t ?s k p] other ns that by simp
  let ?t = "s\<lparr>sm_io := io, acceptors := as, sm_pc := (sm_pc s)(t := p)\<rparr>"
  have r: "reached k ?t \<longleftrightarrow> k \<le> stop_level p" if "0 < k" for k using r [OF that] by simp
  have run: "sm_run s \<noteq> RunReturned" "\<forall>u. sm_pc s u \<noteq> SmReturned" using inv ns unfolding sm_inv_def by blast+
  have pc: "p \<noteq> SmReturned" using t(2) by auto
  have 1: "\<forall>v u. 0 < stop_level (sm_pc ?t v) \<and> 0 < stop_level (sm_pc ?t u) \<longrightarrow> v = u" using other by (auto split: if_splits)
  have 2: "sm_stop_requested ?t \<longleftrightarrow> reached 1 ?t" using r [of 1] rq t(2) by simp
  have 3: "\<forall>u. sm_pc ?t u = SmReturned \<longrightarrow> sm_stopped ?t" using run pc by simp
  have 4: "reached 2 ?t \<longrightarrow> (\<forall>a \<in> set (acceptors ?t). io_descr a = None)" using r [of 2] io(3) by simp
  have 5: "io_stopped (sm_io ?t) \<longleftrightarrow> reached 3 ?t" using r [of 3] io(4) by simp
  have 6: "\<forall>u. sm_pc ?t u = SmPublish \<longrightarrow> joined n u (sm_io ?t)"
  proof (intro allI impI)
    fix u
    assume u: "sm_pc ?t u = SmPublish"
    show "joined n u (sm_io ?t)"
    proof (cases "u = t")
      case False
      then have "sm_pc s u = SmPublish" using u by simp
      then show ?thesis using other [OF False] by simp
    qed (use u io(5) in simp)
  qed
  have 7: "io_inv n (sm_io ?t)" "accs_ok (acceptors ?t) (sm_io ?t)" "sm_run ?t = RunReturned \<longrightarrow> sm_stopped ?t" using io run by simp_all
  have 8: "sm_stopped ?t \<longrightarrow> (\<forall>u. stop_level (sm_pc ?t u) = 0)" "sm_stopped ?t \<longrightarrow> (\<exists>u. joined n u (sm_io ?t))" using ns by simp_all
  show ?thesis unfolding sm_inv_def by (intro conjI 7 1 2 8 3 4 5 6)
qed

lemma delete_cb_stopped [simp]: "io_stopped (delete_cb cb io) = io_stopped io"
  by (simp add: delete_cb_def split: option.split)

lemma collect_stopped: "collect io = Some io1 \<Longrightarrow> io_stopped io1 = io_stopped io"
proof -
  have "delete_all l io' = Some io1 \<Longrightarrow> io_stopped io1 = io_stopped io'" for l io'
  proof (induction l arbitrary: io')
    case (Cons a l)
    then obtain io2 where 2: "Descriptor_destroy a io' = Some io2" "delete_all l io2 = Some io1" by (auto simp: bind_eq_Some_conv)
    then have "io_stopped io2 = io_stopped io'" by (auto simp: Descriptor_destroy_def)
    then show ?case using Cons.IH [OF 2(2)] by simp
  qed simp
  then show "collect io = Some io1 \<Longrightarrow> io_stopped io1 = io_stopped io" by (fastforce simp: collect_def)
qed

lemma sm_stop_inv:
  fixes s :: "'a service_manager"
  assumes inv: "sm_inv n s"
  shows "sm_inv n (ServiceManager_stop n t s)"
proof -
  have io: "io_inv n (sm_io s)" "accs_ok (acceptors s) (sm_io s)" using inv by (simp_all add: sm_inv_def)
  have cl: "\<forall>a \<in> set (acceptors s). io_descr a = None" if "2 \<le> stop_level (sm_pc s t)"
    using inv that unfolding sm_inv_def reached_def by blast
  have acc: "accs_ok (acceptors s) io" if "2 \<le> stop_level (sm_pc s t)" for io :: "'a io_manager"
    using cl [OF that] by (rule accs_closed)
  have ios: "io_stopped (sm_io s) \<longleftrightarrow> 3 \<le> stop_level (sm_pc s t)" if "0 < stop_level (sm_pc s t)"
    using inv sm_inv_stopper(4) [OF inv that, of 3] by (simp add: sm_inv_def)
  show ?thesis
  proof (cases "sm_pc s t")
    case SmIdle
    show ?thesis
    proof (cases "sm_stop_requested s")
      case True
      then show ?thesis using sm_inv_idle [OF inv, of t SmWait] SmIdle by (simp add: ServiceManager_stop_def Let_def)
    next
      case False
      have r1: "\<not> reached 1 s" using inv False unfolding sm_inv_def by blast
      have lev: "stop_level (sm_pc s u) = 0" for u using r1 by (auto simp: reached_def not_le)
      have ns: "\<not> sm_stopped s" using r1 by (simp add: reached_def)
      let ?t = "s\<lparr>sm_stop_requested := True, sm_pc := (sm_pc s)(t := SmClose)\<rparr>"
      have r: "reached k ?t \<longleftrightarrow> k \<le> 1" if "0 < k" for k
        using reached_update [of t "s\<lparr>sm_stop_requested := True\<rparr>" k SmClose] lev ns that by simp
      have nr: "\<not> reached 3 s" using lev ns by (simp add: reached_def)
      have pub: "sm_pc s u \<noteq> SmPublish" for u using lev [of u] by auto
      have "sm_inv n ?t"
        unfolding sm_inv_def using inv lev ns r [of 1] r [of 2] r [of 3] nr pub by (auto simp: sm_inv_def split: if_splits)
      then show ?thesis using SmIdle False by (simp add: ServiceManager_stop_def Let_def)
    qed
  next
    case SmWait
    then show ?thesis using sm_inv_idle [OF inv, of t SmReturned] inv by (auto simp: ServiceManager_stop_def Let_def)
  next
    case SmReturned
    then show ?thesis using sm_inv_idle [OF inv, of t SmIdle] by (auto simp: ServiceManager_stop_def Let_def)
  next
    case SmClose
    obtain as io1 where c: "close_all (acceptors s) (sm_io s) = (as, io1)" by fastforce
    have "io_inv n io1 \<and> (\<forall>a \<in> set as. io_descr a = None) \<and> io_stopped io1 = io_stopped (sm_io s) \<and>
      worker_pool io1 = worker_pool (sm_io s)"
      by (rule close_all_inv [OF io c])
    moreover from this have "accs_ok as io1" by (intro accs_closed) blast
    ultimately show ?thesis
      using sm_inv_advance [OF inv, of t SmIoStop io1 as] SmClose c ios
      by (simp add: ServiceManager_stop_def Let_def)
  next
    case SmIoStop
    then have "IOManager_stop_begin (sm_io s) = (True, (sm_io s)\<lparr>io_stopped := True\<rparr>)"
      using ios by (simp add: IOManager_stop_begin_def)
    then show ?thesis
      using sm_inv_advance [OF inv, of t SmIoWait "(sm_io s)\<lparr>io_stopped := True\<rparr>" "acceptors s"] SmIoStop cl acc
        phase_inv(3) [OF io(1)]
      by (simp add: ServiceManager_stop_def Let_def)
  next
    case SmIoWait
    show ?thesis
    proof (cases "polling (sm_io s)")
      case False
      have "io_inv n (IOManager_stop_pool n (sm_io s))" "io_stopped (IOManager_stop_pool n (sm_io s)) = io_stopped (sm_io s)"
        using io(1) Fast_stop_inv by (auto simp: io_inv_def descs_ok_def IOManager_stop_pool_def)
      then show ?thesis
        using sm_inv_advance [OF inv, of t SmJoin "IOManager_stop_pool n (sm_io s)" "acceptors s"] SmIoWait cl ios acc False
        by (simp add: ServiceManager_stop_def Let_def)
    qed (use SmIoWait inv in \<open>simp add: ServiceManager_stop_def\<close>)
  next
    case SmJoin
    show ?thesis
    proof (cases "joined n t (sm_io s)")
      case True
      obtain io1 where 1: "IOManager_stop_end (sm_io s) = Some io1" "io_inv n io1" "worker_pool io1 = worker_pool (sm_io s)"
        using collect_spec [OF io(1)] by (auto simp: IOManager_stop_end_def)
      have 2: "io_stopped io1 = io_stopped (sm_io s)" using 1(1) by (simp add: IOManager_stop_end_def collect_stopped)
      have 3: "joined n t io1" using True 1(3) by (simp add: joined_def)
      show ?thesis
        using sm_inv_advance [OF inv, of t SmPublish io1 "acceptors s"] SmJoin cl ios acc True 1 2 3
        by (simp add: ServiceManager_stop_def Let_def)
    qed (use SmJoin inv in \<open>simp add: ServiceManager_stop_def\<close>)
  next
    case SmPublish
    have lev: "0 < stop_level (sm_pc s t)" using SmPublish by simp
    let ?t = "s\<lparr>sm_stopped := True, sm_pc := (sm_pc s)(t := SmReturned)\<rparr>"
    have j: "joined n t (sm_io s)" using inv SmPublish unfolding sm_inv_def by blast
    have zero: "\<forall>u. stop_level (sm_pc ?t u) = 0" using sm_inv_stopper(1) [OF inv lev] by simp
    have r: "reached k ?t" for k by (simp add: reached_def)
    have nopub: "sm_pc s u \<noteq> SmPublish" if "u \<noteq> t" for u using sm_inv_stopper(1) [OF inv lev that] by auto
    have "sm_inv n ?t"
      unfolding sm_inv_def using io j zero r cl ios lev sm_inv_stopper(3) [OF inv lev] SmPublish nopub by (intro conjI) auto
    then show ?thesis using SmPublish by (simp add: ServiceManager_stop_def Let_def)
  qed
qed

lemma accs_ok_cong:
  assumes "accs_ok as io" "dom (descs io1) = dom (descs io)" "deleted_desc io1 = deleted_desc io"
  shows "accs_ok as io1"
proof -
  have "descs io1 d \<noteq> None \<longleftrightarrow> descs io d \<noteq> None" for d using assms(2) by (auto simp: dom_def set_eq_iff)
  then show ?thesis using assms(1,3) by (simp add: accs_ok_def)
qed

lemma schedule_flags [simp]: "io_stopped (schedule cb b io) = io_stopped io" "polling (schedule cb b io) = polling io"
  by (simp_all add: schedule_def IOManager_addTask_def split: option.split)

lemma readWhenReady_flags:
  "Descriptor_readWhenReady d io = Some io1 \<Longrightarrow> io_stopped io1 = io_stopped io \<and> polling io1 = polling io"
  by (auto simp: Descriptor_readWhenReady_def Let_def)

lemma start_all_inv:
  assumes "io_inv n io" "start_all as io = Some io1"
  shows "io_inv n io1 \<and> extends io io1 \<and> io_stopped io1 = io_stopped io"
  using assms
proof (induction as arbitrary: io)
  case (Cons a as)
  obtain d io2 where 2: "desc_exec ReadRequest d io = Some io2" "start_all as io2 = Some io1"
    using Cons.prems(2) by (auto simp: startAccept_def bind_eq_Some_conv)
  have "io_inv n io2" "extends io io2" "io_stopped io2 = io_stopped io"
    using desc_exec_inv [OF Cons.prems(1) 2(1)] desc_exec_extends [OF 2(1)] readWhenReady_flags 2(1) by auto
  then show ?case using Cons.IH [OF _ 2(2)] extends_trans by auto
qed simp

lemma joined_mono:
  "joined n t io \<Longrightarrow> (\<And>i. fw_pc (worker_pool io) i = FwExit \<Longrightarrow> fw_pc (worker_pool io1) i = FwExit) \<Longrightarrow> joined n t io1"
  by (simp add: joined_def)

text \<open>The I/O manager moves, the stopping does not.\<close>

lemma sm_inv_io:
  assumes inv: "sm_inv n s" and io: "io_inv n io" "accs_ok (acceptors s) io" "io_stopped io = io_stopped (sm_io s)"
    and ex: "\<And>i. fw_pc (worker_pool (sm_io s)) i = FwExit \<Longrightarrow> fw_pc (worker_pool io) i = FwExit"
    and r: "r = RunReturned \<Longrightarrow> sm_stopped s"
  shows "sm_inv n (s\<lparr>sm_io := io, sm_run := r\<rparr>)"
proof -
  have "joined n t io" if "joined n t (sm_io s)" for t using that ex by (rule joined_mono)
  then show ?thesis using inv io r by (auto simp: sm_inv_def)
qed

lemma sm_run_inv:
  assumes inv: "sm_inv n s"
  shows "sm_inv n (ServiceManager_run s)"
proof -
  have io: "io_inv n (sm_io s)" "accs_ok (acceptors s) (sm_io s)" using inv by (simp_all add: sm_inv_def)
  show ?thesis
  proof (cases "sm_run s")
    case RunIdle
    show ?thesis
    proof (cases "start_all (acceptors s) (sm_io s)")
      case (Some io1)
      then have 1: "io_inv n io1" "extends (sm_io s) io1" "io_stopped io1 = io_stopped (sm_io s)"
        using start_all_inv [OF io(1)] by blast+
      then have "accs_ok (acceptors s) io1" by (intro accs_ok_cong [OF io(2)]) (simp_all add: extends_def)
      then show ?thesis
        using sm_inv_io [OF inv 1(1) _ 1(3), of RunPoll] 1(2) RunIdle Some by (simp add: ServiceManager_run_def extends_def)
    qed (use RunIdle inv in \<open>simp add: ServiceManager_run_def\<close>)
  next
    case RunPoll
    have "accs_ok (acceptors s) (poll_begin (sm_io s))" by (rule accs_ok_cong [OF io(2)]) (simp_all add: poll_begin_def)
    then show ?thesis
      using sm_inv_io [OF inv phase_inv(1) [OF io(1)], of RunLoop] RunPoll by (simp add: ServiceManager_run_def poll_begin_def)
  next
    case RunLoop
    have "accs_ok (acceptors s) (poll_end (sm_io s))" by (rule accs_ok_cong [OF io(2)]) (simp_all add: poll_end_def)
    then show ?thesis
      using sm_inv_io [OF inv phase_inv(2) [OF io(1)], of RunWait] RunLoop inv by (simp add: ServiceManager_run_def poll_end_def)
  next
    case RunWait
    have "sm_inv n (s\<lparr>sm_io := sm_io s, sm_run := RunReturned\<rparr>)" if "sm_stopped s"
      by (rule sm_inv_io [OF inv io]) (simp_all add: that)
    then show ?thesis using RunWait inv by (simp add: ServiceManager_run_def)
  qed (use inv in \<open>simp add: ServiceManager_run_def\<close>)
qed

lemma registerAcceptor_inv:
  assumes inv: "sm_inv n s" and nr: "\<not> sm_stop_requested s" and reg: "registerAcceptor fd b l rcb wcb s = Some s1"
  shows "sm_inv n s1"
proof -
  obtain d io1 where 1: "newDescriptor fd (Some rcb) (Some wcb) (sm_io s) = Some (d, io1)"
    and s1: "s1 = s\<lparr>sm_io := io1, acceptors := acceptors s @ [\<lparr>listen_fd = fd, io_descr = Some d\<rparr>]\<rparr>"
    using reg by (auto simp: registerAcceptor_def Acceptor_new_def split: if_splits)
  have io: "io_inv n (sm_io s)" "accs_ok (acceptors s) (sm_io s)" using inv by (simp_all add: sm_inv_def)
  have io1: "io1 = (sm_io s)\<lparr>descs := (descs (sm_io s))(d \<mapsto> Descriptor_new fd (Some rcb) (Some wcb)), next_desc := Suc d,
      poll_set := (fd, d) # poll_set (sm_io s)\<rparr>" and d: "d = next_desc (sm_io s)"
    using 1 by (auto simp: newDescriptor_def setEvent_def Let_def split: if_splits)
  have fresh: "descs (sm_io s) d = None" using io(1) by (cases "descs (sm_io s) d") (auto simp: io_inv_def descs_ok_def d)
  then have nd: "d \<notin> set (deleted_desc (sm_io s))" using io(1) by (auto simp: io_inv_def descs_ok_def)
  have na: "\<forall>a \<in> set (acceptors s). io_descr a \<noteq> Some d" using io(2) fresh by (auto simp: accs_ok_def)
  then have "accs_ok (acceptors s1) io1" using io(2) nd by (force simp: s1 io1 accs_ok_def)
  moreover have "io_inv n io1" by (rule newDescriptor_inv [OF io(1) 1])
  moreover have "\<not> reached 1 s" using inv nr by (simp add: sm_inv_def)
  moreover from this have "\<not> reached 2 s" by (auto simp: reached_def not_le less_Suc_eq_le numeral_2_eq_2)
  ultimately show ?thesis using inv by (auto simp: sm_inv_def s1 io1 joined_def)
qed

interpretation sm: transition_system "sm_start n" "sm_step n" "sm_inv n" for n
proof unfold_locales
  show "sm_inv n s" if "sm_start n s" for s :: "'a service_manager"
    using that iom.start_invar [of n "IOManager_new n"]
    by (auto simp: sm_start_def sm_inv_def ServiceManager_new_def accs_ok_def reached_def io_start_def IOManager_new_def)
  show "sm_inv n t" if st: "sm_step n s t" "sm_inv n s" for s t :: "'a service_manager"
    using st
  proof cases
    case (sm_io io)
    have inv: "io_inv n (sm_io s)" using st(2) by (simp add: sm_inv_def)
    have "sm_inv n (s\<lparr>sm_io := io, sm_run := sm_run s\<rparr>)"
      by (rule sm_inv_io [OF st(2) iom.step_invar [OF sm_io(2) inv] sm_io(5,3) io_step_exit [OF sm_io(2) inv]])
        (use st(2) in \<open>simp_all add: sm_inv_def\<close>)
    then show ?thesis using sm_io(1) by simp
  qed (use st(2) in \<open>auto intro: sm_stop_inv sm_run_inv registerAcceptor_inv\<close>)
qed

section \<open>Accepting\<close>

lemma socketAccept_last:
  assumes "socketAccept res k = Some x"
  shows "k < snd x \<and> fst x = res (snd x - 1)"
proof (rule socketAccept.raw_induct [OF _ assms])
  fix rec and res :: "nat \<Rightarrow> accept_result" and k x
  assume ih: "\<And>res k x. rec res k = Some x \<Longrightarrow> k < snd x \<and> fst x = (res (snd x - 1) :: accept_result)"
    and step: "(if res k = AcceptInterrupted \<or> res k = AcceptAborted then rec res (Suc k) else Some (res k, Suc k)) = Some x"
  show "k < snd x \<and> fst x = res (snd x - 1)"
    using step ih [of res "Suc k" x] by (auto split: if_splits)
qed

text \<open>A call that was interrupted is repeated; any other result is handled.\<close>

lemma doAccept_step:
  "doAccept res cb rearm k u =
    (if res k = AcceptInterrupted \<or> res k = AcceptAborted then doAccept res cb rearm (Suc k) u
     else if res k = AcceptAgain then rearm u else doAccept res cb rearm (Suc k) (cb (accept_fd (res k)) u))"
proof -
  have "socketAccept res k = (if res k = AcceptInterrupted \<or> res k = AcceptAborted then socketAccept res (Suc k) else Some (res k, Suc k))"
    by (rule socketAccept.simps)
  then show ?thesis by (subst (1 2) doAccept.simps) (simp split: if_splits)
qed

lemma doAccept_list:
  "\<forall>i < length rs. res (k + i) = rs ! i \<Longrightarrow> AcceptAgain \<notin> set rs \<Longrightarrow> res (k + length rs) = AcceptAgain \<Longrightarrow>
    doAccept res cb rearm k u = rearm (fold (\<lambda>r. cb (accept_fd r)) (filter (\<lambda>r. r \<noteq> AcceptInterrupted \<and> r \<noteq> AcceptAborted) rs) u)"
proof (induction rs arbitrary: k u)
  case Nil
  then show ?case by (subst doAccept_step) simp
next
  case (Cons r rs)
  have r: "res k = r" using Cons.prems(1) by (metis add_0_right length_Cons nth_Cons_0 zero_less_Suc)
  have rs: "\<forall>i < length rs. res (Suc k + i) = rs ! i" using Cons.prems(1) by auto
  show ?case using Cons.IH [OF rs] Cons.prems r by (subst doAccept_step) auto
qed

lemma doAccept_returns:
  assumes "doAccept res cb rearm k u = Some v"
  shows "\<exists>j \<ge> k. res j = AcceptAgain"
proof (rule doAccept.raw_induct [of "\<lambda>res cb rearm k u v. \<exists>j \<ge> k. res j = AcceptAgain", OF _ assms])
  fix rec res k v and cb :: "int \<Rightarrow> 'a \<Rightarrow> 'a" and rearm :: "'a \<Rightarrow> 'a option" and u :: 'a
  assume ih: "\<And>res (cb :: int \<Rightarrow> 'a \<Rightarrow> 'a) rearm k u v. rec res cb rearm k u = Some v \<Longrightarrow> \<exists>j \<ge> k. res j = AcceptAgain"
    and step: "Option.bind (socketAccept res k)
      (\<lambda>(r, k1). if r = AcceptAgain then rearm u else rec res cb rearm k1 (cb (accept_fd r) u)) = Some v"
  obtain r k1 where 1: "socketAccept res k = Some (r, k1)" using step by (auto simp: bind_eq_Some_conv)
  then have k: "k < k1" "r = res (k1 - 1)" using socketAccept_last by fastforce+
  show "\<exists>j \<ge> k. res j = AcceptAgain"
  proof (cases "r = AcceptAgain")
    case True
    then show ?thesis using k by (intro exI [of _ "k1 - 1"]) auto
  next
    case False
    then have "rec res cb rearm k1 (cb (accept_fd r) u) = Some v" using step 1 by simp
    then obtain j where "j \<ge> k1" "res j = AcceptAgain" using ih by blast
    then show ?thesis using k(1) by (intro exI [of _ j]) simp
  qed
qed

definition accepted_fds :: "accept_result list \<Rightarrow> int list" where
  "accepted_fds rs = concat (map (\<lambda>r. case r of Accepted fd \<Rightarrow> [int fd] | _ \<Rightarrow> []) rs)"

lemma acceptConnection_opens:
  assumes "AcceptFailed \<notin> set rs" "AcceptAgain \<notin> set rs" "\<not> svc_stopped v"
  shows "fold (\<lambda>r. HTTPService_acceptConnection (accept_fd r)) (filter (\<lambda>r. r \<noteq> AcceptInterrupted \<and> r \<noteq> AcceptAborted) rs) v
    = v\<lparr>svc_opened := svc_opened v @ accepted_fds rs\<rparr>"
  using assms
proof (induction rs arbitrary: v)
  case (Cons r rs)
  then show ?case by (cases r) (simp_all add: HTTPService_acceptConnection_def accept_fd_def accepted_fds_def)
qed (simp add: accepted_fds_def)

lemma acceptConnection_same: "KVService_acceptConnection = HTTPService_acceptConnection"
  by (simp add: fun_eq_iff KVService_acceptConnection_def HTTPService_acceptConnection_def)

section \<open>Properties\<close>

text \<open>
  C34. \<open>doAccept\<close>: while \<open>accept\<close> ends with \<open>EAGAIN\<close> after results \<open>rs\<close>, the callback gets each
  accepted socket (and \<open>-1\<close> for each failure) once, in order, interrupted calls being
  repeated, and then the descriptor is armed again. When no call from some point on returns \<open>EAGAIN\<close>,
  as on a socket that was closed or when descriptors have run out, \<open>doAccept\<close> never returns:
  the service stops itself at the first failure and its worker spins in the loop.
\<close>

theorem doAccept_serves:
  assumes cb: "cb = HTTPService_acceptConnection \<or> cb = KVService_acceptConnection"
  shows "((\<forall>i < length rs. res (k + i) = rs ! i) \<and> AcceptAgain \<notin> set rs \<and> res (k + length rs) = AcceptAgain \<longrightarrow>
      doAccept res cb rearm k v =
        rearm (fold (\<lambda>r. cb (accept_fd r)) (filter (\<lambda>r. r \<noteq> AcceptInterrupted \<and> r \<noteq> AcceptAborted) rs) v) \<and>
      (AcceptFailed \<notin> set rs \<and> \<not> svc_stopped v \<longrightarrow>
        doAccept res cb rearm k v = rearm (v\<lparr>svc_opened := svc_opened v @ accepted_fds rs\<rparr>))) \<and>
    ((\<forall>j \<ge> k. res j \<noteq> AcceptAgain) \<longrightarrow> doAccept res cb rearm k v = None)"
proof -
  have c: "cb = HTTPService_acceptConnection" using cb acceptConnection_same by metis
  have "doAccept res cb rearm k v = None" if "\<forall>j \<ge> k. res j \<noteq> AcceptAgain"
    using doAccept_returns that by (metis not_None_eq)
  then show ?thesis using doAccept_list [of rs res k cb rearm v] acceptConnection_opens [of rs v] by (simp add: c)
qed

definition sample_accepts :: "nat \<Rightarrow> accept_result" where
  "sample_accepts j = (if j = 0 then Accepted 5 else if j = 1 then AcceptInterrupted else if j = 2 then Accepted 6 else AcceptAgain)"

theorem doAccept_serves_witness:
  "doAccept sample_accepts HTTPService_acceptConnection Some 0 \<lparr>svc_stopped = False, svc_opened = [], svc_stops = 0\<rparr>
     = Some \<lparr>svc_stopped = False, svc_opened = [5, 6], svc_stops = 0\<rparr> \<and>
   doAccept (\<lambda>_. AcceptFailed) HTTPService_acceptConnection Some 0 \<lparr>svc_stopped = False, svc_opened = [], svc_stops = 0\<rparr> = None"
proof -
  let ?v = "\<lparr>svc_stopped = False, svc_opened = [], svc_stops = 0\<rparr>"
  have "\<forall>i < 3. sample_accepts (0 + i) = [Accepted 5, AcceptInterrupted, Accepted 6] ! i"
    by (simp add: sample_accepts_def nth_Cons numeral_3_eq_3 less_Suc_eq split: nat.split)
  then show ?thesis
    using doAccept_serves [of HTTPService_acceptConnection "[Accepted 5, AcceptInterrupted, Accepted 6]" sample_accepts 0 Some ?v]
      doAccept_serves [of HTTPService_acceptConnection "[]" "\<lambda>_. AcceptFailed" 0 Some ?v]
    by (simp add: accepted_fds_def sample_accepts_def HTTPService_acceptConnection_def accept_fd_def)
qed

text \<open>
  C13. Stopping the service manager, with any number of threads calling \<open>stop\<close> at any time: at most
  one of them carries it out; whoever returns from \<open>stop\<close> or from \<open>run\<close> does so after
  it is complete: then every acceptor is closed, the polling loop is told to end, and every worker but
  the one that may itself have called \<open>stop\<close> has exited. The destructor then finds nothing left to close or to stop.
\<close>

theorem ServiceManager_stops_once:
  assumes "reach (sm_start n) (sm_step n) s"
  shows "(\<forall>t u. stop_level (sm_pc s t) > 0 \<and> stop_level (sm_pc s u) > 0 \<longrightarrow> t = u) \<and>
    (sm_run s = RunReturned \<or> (\<exists>t. sm_pc s t = SmReturned) \<longrightarrow> sm_stopped s) \<and>
    (sm_stopped s \<longrightarrow> ServiceManager_stopped s \<and> (\<forall>t. stop_level (sm_pc s t) = 0) \<and>
      (\<forall>a \<in> set (acceptors s). io_descr a = None) \<and> io_stopped (sm_io s) \<and> (\<exists>t. joined n t (sm_io s)) \<and> ServiceManager_destroy s = Some (sm_io s))"
proof -
  have inv: "sm_inv n s" by (rule sm.reach_invar [OF assms])
  have r: "reached k s" if "sm_stopped s" for k using that by (simp add: reached_def)
  have "ServiceManager_destroy s = Some (sm_io s)" if "sm_stopped s"
    using inv r [OF that] destroy_acceptors_closed [of "acceptors s" "sm_io s"]
    by (simp add: sm_inv_def ServiceManager_destroy_def IOManager_destroy_def IOManager_stop_begin_def)
  then show ?thesis using inv r by (auto simp: sm_inv_def ServiceManager_stopped_def)
qed

theorem ServiceManager_stops_once_witness:
  "sm_pc (ServiceManager_stop 0 7 (ServiceManager_new 0 :: string service_manager)) 7 = SmClose \<and>
   stop_level (sm_pc (ServiceManager_stop 0 7 (ServiceManager_new 0 :: string service_manager)) 8) = 0"
proof -
  let ?s = "ServiceManager_stop 0 7 (ServiceManager_new 0 :: string service_manager)"
  have "reach (sm_start 0) (sm_step 0) (ServiceManager_new 0 :: string service_manager)"
    by (rule reach_start) (simp add: sm_start_def)
  then have "reach (sm_start 0) (sm_step 0) ?s" by (rule reach_step) (rule sm_stop)
  from ServiceManager_stops_once [OF this]
  have "\<forall>t u. stop_level (sm_pc ?s t) > 0 \<and> stop_level (sm_pc ?s u) > 0 \<longrightarrow> t = u" by blast
  moreover have "sm_pc ?s 7 = SmClose" by (simp add: ServiceManager_stop_def ServiceManager_new_def Let_def)
  moreover from this have "stop_level (sm_pc ?s 7) > 0" by simp
  ultimately have "\<not> stop_level (sm_pc ?s 8) > 0" by (metis numeral_eq_iff semiring_norm(85,88,89))
  then show ?thesis using \<open>sm_pc ?s 7 = SmClose\<close> by simp
qed

end
