(* ===== verification/Param_Map.thy ===== *)
theory Param_Map
  imports Prelude "HOL-Library.Multiset"
begin

text \<open>
  \<^verbatim>\<open>src/param_map.cpp\<close>, the command line, and \<^verbatim>\<open>src/op_generator.cpp\<close>, the stripes of operations
  for the workers of a test. An unordered map is a map; where it is iterated, the order is an
  argument.
\<close>

section \<open>Parameters\<close>

record param_map =
  key_to_value :: "string \<rightharpoonup> string"
  key_to_description :: "string \<rightharpoonup> string"
  program_name :: string

definition addParam :: "string \<Rightarrow> string \<Rightarrow> string \<Rightarrow> param_map \<Rightarrow> bool \<times> param_map" where
  "addParam param default_string description pm =
     (if key_to_value pm param = None
      then (True, pm\<lparr>key_to_value := (key_to_value pm)(param \<mapsto> default_string),
          key_to_description := (if key_to_description pm param = None
            then (key_to_description pm)(param \<mapsto> description) else key_to_description pm)\<rparr>)
      else (False, pm))"

definition ParamMap_new :: param_map where
  "ParamMap_new =
     snd (addParam ''help'' [] ''prints the command usage message''
       \<lparr>key_to_value = Map.empty, key_to_description = Map.empty, program_name = []\<rparr>)"

definition getParam :: "string \<Rightarrow> param_map \<Rightarrow> string option" where
  "getParam param pm = key_to_value pm param"

text \<open>\<open>string::find\<close> of a character.\<close>

fun find_char :: "char \<Rightarrow> string \<Rightarrow> nat option" where
  "find_char c [] = None"
| "find_char c (x # xs) = (if x = c then Some 0 else map_option Suc (find_char c xs))"

fun parse_args :: "string list \<Rightarrow> param_map \<Rightarrow> bool \<times> param_map" where
  "parse_args [] pm = (True, pm)"
| "parse_args (param # args) pm =
     (if take 2 param \<noteq> ''--'' then (False, pm)
      else let pos = find_char CHR ''='' param
      in if pos = Some 2 then (False, pm)
         else let (name, value) = (case pos of None \<Rightarrow> (drop 2 param, [])
                                   | Some p \<Rightarrow> (take (p - 2) (drop 2 param), drop (p + 1) param))
              in if name = ''help'' then (False, pm)
                 else parse_args args (pm\<lparr>key_to_value := (key_to_value pm)(name \<mapsto> value)\<rparr>))"

fun parseArgv :: "string list \<Rightarrow> param_map \<Rightarrow> bool \<times> param_map" where
  "parseArgv (prog # args) pm = parse_args args (pm\<lparr>program_name := prog\<rparr>)"
| "parseArgv [] pm = (True, pm)"

definition printUsage :: "string list \<Rightarrow> string list \<Rightarrow> param_map \<Rightarrow> string" where
  "printUsage value_keys description_keys pm =
     ''Usage: '' @ program_name pm @ '' '' @
     concat (map (\<lambda>k. ''--'' @ k @ ''=['' @ the (key_to_value pm k) @ ''] '') value_keys) @ [CHR 10] @
     ''where '' @ [CHR 10] @
     concat (map (\<lambda>k. ''  '' @ k @ '': '' @ the (key_to_description pm k) @ [CHR 10]) description_keys)"

text \<open>How a user writes a parameter.\<close>

definition print_arg :: "string \<times> string option \<Rightarrow> string" where
  "print_arg nv = ''--'' @ fst nv @ (case snd nv of None \<Rightarrow> [] | Some v \<Rightarrow> ''='' @ v)"

definition arg_ok :: "string \<times> string option \<Rightarrow> bool" where
  "arg_ok nv \<longleftrightarrow> CHR ''='' \<notin> set (fst nv) \<and> fst nv \<noteq> ''help'' \<and> (snd nv \<noteq> None \<longrightarrow> fst nv \<noteq> [])"

definition arg_bad :: "string \<Rightarrow> bool" where
  "arg_bad a \<longleftrightarrow> take 2 a \<noteq> ''--'' \<or> take 3 a = ''--='' \<or> a = ''--help'' \<or> take 7 a = ''--help=''"

definition store_arg :: "string \<times> string option \<Rightarrow> param_map \<Rightarrow> param_map" where
  "store_arg nv pm = pm\<lparr>key_to_value := (key_to_value pm)(fst nv \<mapsto> case snd nv of None \<Rightarrow> [] | Some v \<Rightarrow> v)\<rparr>"

lemma find_char_append:
  "c \<notin> set xs \<Longrightarrow> find_char c (xs @ ys) = (case find_char c ys of None \<Rightarrow> None | Some p \<Rightarrow> Some (length xs + p))"
  by (induction xs) (auto split: option.split)

lemma find_char_None: "c \<notin> set xs \<Longrightarrow> find_char c xs = None"
  by (induction xs) auto

lemma parse_args_ok:
  assumes "arg_ok nv"
  shows "parse_args (print_arg nv # args) pm = parse_args args (store_arg nv pm)"
proof (cases "snd nv")
  case None
  then show ?thesis
    using assms find_char_None [of "CHR ''=''" "''--'' @ fst nv"] by (simp add: print_arg_def arg_ok_def store_arg_def)
next
  case (Some v)
  have "find_char CHR ''='' (''--'' @ fst nv @ ''='' @ v) = Some (2 + length (fst nv))"
    using assms find_char_append [of "CHR ''=''" "''--'' @ fst nv" "''='' @ v"] by (simp add: arg_ok_def)
  then show ?thesis using assms Some by (simp add: print_arg_def arg_ok_def store_arg_def)
qed

lemma parse_args_bad:
  assumes "arg_bad a"
  shows "parse_args (a # args) pm = (False, pm)"
proof -
  consider "take 2 a \<noteq> ''--''" | "take 3 a = ''--=''" | "a = ''--help''" | "take 7 a = ''--help=''"
    using assms unfolding arg_bad_def by blast
  then show ?thesis
  proof cases
    case 2
    then have "a = ''--='' @ drop 3 a" by (metis append_take_drop_id)
    then have "\<exists>ys. a = ''--='' @ ys" ..
    then show ?thesis by (elim exE) simp
  next
    case 4
    then have "a = ''--help='' @ drop 7 a" by (metis append_take_drop_id)
    then have "\<exists>ys. a = ''--help='' @ ys" ..
    then show ?thesis by (elim exE) simp
  qed simp_all
qed

section \<open>Stripes of operations\<close>

text \<open>The arrays are filled from index 0; \<open>random_shuffle\<close> is an argument, a permutation.\<close>

definition AscPositiveStripe :: "nat \<Rightarrow> nat \<Rightarrow> nat \<Rightarrow> int list" where
  "AscPositiveStripe num_workers me sz = map (\<lambda>i. int num_workers * int i + int me + 1) [0..<sz]"

definition DescNegativeStripe :: "nat \<Rightarrow> nat \<Rightarrow> nat \<Rightarrow> int list" where
  "DescNegativeStripe num_workers me sz = map (\<lambda>i. - (int num_workers * int i + int me + 1)) [0..<sz]"

definition ShufflePositiveStripe :: "(int list \<Rightarrow> int list) \<Rightarrow> nat \<Rightarrow> nat \<Rightarrow> nat \<Rightarrow> int list" where
  "ShufflePositiveStripe random_shuffle num_workers me sz =
     random_shuffle (map (\<lambda>i. int num_workers * int i + int me + 1) [0..<sz])"

definition ShuffleNegativeStripe :: "(int list \<Rightarrow> int list) \<Rightarrow> nat \<Rightarrow> nat \<Rightarrow> nat \<Rightarrow> int list" where
  "ShuffleNegativeStripe random_shuffle num_workers me sz =
     random_shuffle (map (\<lambda>i. - (int num_workers * int i + int me + 1)) [0..<sz])"

text \<open>The stripes of the workers partition the operations: nobody shares a value with another.\<close>

lemma stripes_disjoint:
  assumes "a < k" "b < k" "x \<in> set (AscPositiveStripe k a m)" "x \<in> set (AscPositiveStripe k b m)"
  shows "a = b"
proof -
  obtain i j where "int k * int i + int a = int k * int j + int b" using assms(3,4) by (auto simp: AscPositiveStripe_def)
  then have "k * i + a = k * j + b" by (metis of_nat_add of_nat_eq_iff of_nat_mult)
  then have "(k * i + a) mod k = (k * j + b) mod k" by simp
  then show ?thesis using assms(1,2) by simp
qed

lemma stripes_cover:
  assumes "0 < k"
  shows "(\<Union>me < k. set (AscPositiveStripe k me m)) = {1..int (k * m)}"
proof (intro equalityI subsetI)
  fix x
  assume "x \<in> (\<Union>me < k. set (AscPositiveStripe k me m))"
  then obtain i me where x: "x = int (k * i + me) + 1" "i < m" "me < k" by (auto simp: AscPositiveStripe_def)
  have "k * i + me < k * Suc i" using x(3) by simp
  also have "\<dots> \<le> k * m" using x(2) by (intro mult_le_mono2) simp
  finally have "int (k * i + me) + 1 \<le> int (k * m)" by linarith
  then show "x \<in> {1..int (k * m)}" using x(1) by simp
next
  fix x
  assume x: "x \<in> {1..int (k * m)}"
  define y where "y = nat (x - 1)"
  have "x - 1 < int (k * m)" "0 \<le> x - 1" using x by simp_all
  then have y: "x = int y + 1" "y < k * m" by (simp_all add: y_def nat_less_iff del: of_nat_mult)
  have "y div k < m" using y(2) by (simp add: less_mult_imp_div_less mult.commute)
  moreover have "x = int k * int (y div k) + int (y mod k) + 1"
    using y(1) by (metis mult_div_mod_eq of_nat_add of_nat_mult)
  ultimately show "x \<in> (\<Union>me < k. set (AscPositiveStripe k me m))"
    using assms by (auto simp: AscPositiveStripe_def intro!: bexI [of _ "y mod k"] image_eqI [of _ _ "y div k"])
qed

lemma shuffle_same_operations:
  "(\<And>xs. mset (random_shuffle xs) = mset xs) \<Longrightarrow>
    mset (ShufflePositiveStripe random_shuffle k me m) = mset (AscPositiveStripe k me m) \<and>
    mset (ShuffleNegativeStripe random_shuffle k me m) = mset (DescNegativeStripe k me m)"
  by (simp add: ShufflePositiveStripe_def ShuffleNegativeStripe_def AscPositiveStripe_def DescNegativeStripe_def)

section \<open>Properties\<close>

text \<open>
  Parsing undoes printing: parameters written as \<open>--name=value\<close> or \<open>--name\<close> are all stored, a
  later one overriding an earlier one, and the result is true; at the first argument that is
  malformed or asks for help the result is false and exactly the parameters before it are stored.
\<close>

theorem parseArgv_print:
  assumes "\<forall>nv \<in> set nvs. arg_ok nv"
  shows "parseArgv (prog # map print_arg nvs) pm = (True, fold store_arg nvs (pm\<lparr>program_name := prog\<rparr>)) \<and>
    (arg_bad a \<longrightarrow> parseArgv (prog # map print_arg nvs @ a # rest) pm = (False, fold store_arg nvs (pm\<lparr>program_name := prog\<rparr>)))"
proof -
  have "parse_args (map print_arg nvs @ xs) q = parse_args xs (fold store_arg nvs q)" for xs q
    using assms by (induction nvs arbitrary: q) (simp_all add: parse_args_ok del: parse_args.simps(2))
  from this [of "[]"] this [of "a # rest"] show ?thesis using parse_args_bad by simp
qed

theorem parseArgv_print_witness:
  "fst (parseArgv [''server'', ''--port=80'', ''--v''] ParamMap_new) \<and>
   getParam ''port'' (snd (parseArgv [''server'', ''--port=80'', ''--v''] ParamMap_new)) = Some ''80'' \<and>
   \<not> fst (parseArgv [''server'', ''--port=80'', ''--v'', ''--help'', ''x''] ParamMap_new)"
  using parseArgv_print [of "[(''port'', Some ''80''), (''v'', None)]" "''server''" ParamMap_new "''--help''" "[''x'']"]
  by (simp add: arg_ok_def arg_bad_def print_arg_def store_arg_def getParam_def)

end
