(* ===== verification/Lf_Machine.thy ===== *)
theory Lf_Machine
  imports Lock_Free_List
begin

text \<open>
  \<^verbatim>\<open>src/lock_free_list.hpp\<close> and \<^verbatim>\<open>src/hazard_pointers.hpp\<close>, interleaved: \<open>insert\<close>, \<open>remove\<close> and \<open>lookup\<close> of
  any number of threads, one access to shared memory per step. The shared memory is that of the
  sequential theory; each thread has the local variables of the calls it is in and a program
  point. An access to a deleted node sets \<open>lf_crashed\<close>. The fields after it are history: every
  value the set has had, which call made each change, when the current call of a thread began, and the
  calls that have returned, with their results and the values of the set they span.
\<close>

section \<open>State\<close>

text \<open>Where a thread is; the comments give the lines of \<^verbatim>\<open>lock_free_list.hpp\<close>.\<close>

datatype lf_pc =
    PIdle
  | LStart \<comment> \<open>217-218\<close>
  | LSetHp \<comment> \<open>221\<close>
  | LCheck \<comment> \<open>224\<close>
  | LNext \<comment> \<open>227\<close>
  | LUnlink \<comment> \<open>231\<close>
  | LRetire \<comment> \<open>234\<close>
  | LKey \<comment> \<open>238\<close>
  | LRecheck \<comment> \<open>239\<close>
  | LSwap0 \<comment> \<open>246-248\<close>
  | LSwap1 \<comment> \<open>249-252\<close>
  | IStore \<comment> \<open>167\<close>
  | ICas \<comment> \<open>168\<close>
  | IDelete \<comment> \<open>163\<close>
  | RMark \<comment> \<open>184\<close>
  | RUnlink \<comment> \<open>189\<close>
  | RRetire \<comment> \<open>190\<close>
  | PScan bool \<comment> \<open>the scan of the hazard pointers, in \<open>lookupInternal\<close> or in \<open>remove\<close>\<close>
  | PFree bool \<comment> \<open>the deletions after the scan\<close>

text \<open>What \<open>lookupInternal\<close> was called for.\<close>

datatype lf_why = ForInsert | ForRemove | ForHelp | ForLookup

record 'k lf_thread =
  th_pc :: lf_pc
  th_why :: lf_why
  th_key :: 'k
  th_prev :: cell_ref
  th_cur :: nat
  th_next :: nat
  th_cur_key :: 'k
  th_temp :: nat
  th_new :: nat
  th_slot :: nat
  th_active :: "nat set"

record ('k, 'v) lf_system =
  lf_mem :: "('k, 'v) lf_list"
  lf_threads :: "nat \<Rightarrow> 'k lf_thread"
  lf_crashed :: bool
  lf_hist :: "'k set list"
  lf_moves :: "(nat \<times> 'k set_call) list"
  lf_begun :: "nat \<Rightarrow> nat"
  lf_log :: "(nat \<times> 'k set_call \<times> bool \<times> nat \<times> nat) list"

definition lf_system_new :: "(nat \<Rightarrow> nat \<Rightarrow> nat) \<Rightarrow> (nat \<Rightarrow> 'k lf_thread) \<Rightarrow> nat \<Rightarrow> ('k, 'v) lf_system" where
  "lf_system_new junk locals n =
     \<lparr>lf_mem = LockFreeList_new junk n, lf_threads = (\<lambda>t. (locals t)\<lparr>th_pc := PIdle\<rparr>), lf_crashed = False,
      lf_hist = [{}], lf_moves = [], lf_begun = (\<lambda>_. 0), lf_log = []\<rparr>"

section \<open>Steps\<close>

definition upd_thread :: "nat \<Rightarrow> ('k lf_thread \<Rightarrow> 'k lf_thread) \<Rightarrow> ('k, 'v) lf_system \<Rightarrow> ('k, 'v) lf_system" where
  "upd_thread t f s = s\<lparr>lf_threads := (lf_threads s)(t := f (lf_threads s t))\<rparr>"

abbreviation goto_pc :: "nat \<Rightarrow> lf_pc \<Rightarrow> ('k, 'v) lf_system \<Rightarrow> ('k, 'v) lf_system" where
  "goto_pc t p \<equiv> upd_thread t (\<lambda>l. l\<lparr>th_pc := p\<rparr>)"

definition crash :: "('k, 'v) lf_system \<Rightarrow> ('k, 'v) lf_system" where
  "crash s = s\<lparr>lf_crashed := True\<rparr>"

definition call_of :: "'k lf_thread \<Rightarrow> 'k set_call" where
  "call_of l = (case th_why l of ForInsert \<Rightarrow> InsCall (th_key l) | ForLookup \<Rightarrow> MemCall (th_key l) | _ \<Rightarrow> RemCall (th_key l))"

text \<open>The call returns.\<close>

definition respond :: "nat \<Rightarrow> bool \<Rightarrow> ('k, 'v) lf_system \<Rightarrow> ('k, 'v) lf_system" where
  "respond t r s =
     goto_pc t PIdle (s\<lparr>lf_log := lf_log s @ [(t, call_of (lf_threads s t), r, lf_begun s t, length (lf_hist s) - 1)]\<rparr>)"

text \<open>The set changes.\<close>

definition record_move :: "nat \<Rightarrow> ('k set \<Rightarrow> 'k set) \<Rightarrow> ('k, 'v) lf_system \<Rightarrow> ('k, 'v) lf_system" where
  "record_move t f s =
     s\<lparr>lf_hist := lf_hist s @ [f (last (lf_hist s))], lf_moves := lf_moves s @ [(t, call_of (lf_threads s t))]\<rparr>"

definition lookup_return :: "nat \<Rightarrow> bool \<Rightarrow> ('k, 'v) lf_system \<Rightarrow> ('k, 'v) lf_system" where
  "lookup_return t found s =
     (case th_why (lf_threads s t) of
        ForLookup \<Rightarrow> respond t found s
      | ForInsert \<Rightarrow> goto_pc t (if found then IDelete else IStore) s
      | ForRemove \<Rightarrow> if found then goto_pc t RMark s else respond t False s
      | ForHelp \<Rightarrow> respond t True s)"

text \<open>\<open>while (cur != NULL)\<close> with a new value of \<open>cur\<close>.\<close>

definition loop_head :: "nat \<Rightarrow> nat \<Rightarrow> ('k, 'v) lf_system \<Rightarrow> ('k, 'v) lf_system" where
  "loop_head t cur s =
     (let s1 = upd_thread t (\<lambda>l. l\<lparr>th_cur := cur, th_pc := LSetHp\<rparr>) s
      in if cur = 0 then lookup_return t False s1 else s1)"

abbreviation set_mem :: "('k, 'v) lf_list \<Rightarrow> ('k, 'v) lf_system \<Rightarrow> ('k, 'v) lf_system" where
  "set_mem m s \<equiv> s\<lparr>lf_mem := m\<rparr>"

definition write_hp :: "nat \<Rightarrow> nat \<Rightarrow> nat \<Rightarrow> ('k, 'v) lf_system \<Rightarrow> ('k, 'v) lf_system" where
  "write_hp t j p s = set_mem ((lf_mem s)\<lparr>lf_hps := set_hp t j p (lf_hps (lf_mem s))\<rparr>) s"

definition retired :: "nat \<Rightarrow> ('k, 'v) lf_system \<Rightarrow> nat set" where
  "retired t s = retired_lists (lf_hps (lf_mem s)) ! t"

definition set_retired :: "nat \<Rightarrow> nat set \<Rightarrow> ('k, 'v) lf_system \<Rightarrow> ('k, 'v) lf_system" where
  "set_retired t R s =
     set_mem ((lf_mem s)\<lparr>lf_hps := (lf_hps (lf_mem s))\<lparr>retired_lists := (retired_lists (lf_hps (lf_mem s)))[t := R]\<rparr>\<rparr>) s"

text \<open>A compare-and-swap, and where to go on when it succeeds or fails.\<close>

definition cas_step ::
  "cell_ref \<Rightarrow> nat \<Rightarrow> nat \<Rightarrow> (('k, 'v) lf_system \<Rightarrow> ('k, 'v) lf_system) \<Rightarrow> (('k, 'v) lf_system \<Rightarrow> ('k, 'v) lf_system) \<Rightarrow>
    ('k, 'v) lf_system \<Rightarrow> ('k, 'v) lf_system" where
  "cas_step c old new ok ko s =
     (case cas_cell c old new (lf_mem s) of
        None \<Rightarrow> crash s
      | Some (True, m) \<Rightarrow> ok (set_mem m s)
      | Some (False, m) \<Rightarrow> ko s)"

text \<open>What follows \<open>retireNode\<close>: the next turn of the loop, or the end of \<open>remove\<close>.\<close>

definition after_retire :: "nat \<Rightarrow> bool \<Rightarrow> ('k, 'v) lf_system \<Rightarrow> ('k, 'v) lf_system" where
  "after_retire t in_lookup s =
     (if in_lookup then loop_head t (mp_unmark (th_next (lf_threads s t))) s else respond t True s)"

definition retire_step :: "nat \<Rightarrow> bool \<Rightarrow> ('k, 'v) lf_system \<Rightarrow> ('k, 'v) lf_system" where
  "retire_step t in_lookup s =
     (let R = insert (th_cur (lf_threads s t)) (retired t s);
          s1 = set_retired t R s
      in if card R > MAX_RETIRED_NODES_PER_THREAD
         then upd_thread t (\<lambda>l. l\<lparr>th_pc := PScan in_lookup, th_slot := 0, th_active := {}\<rparr>) s1
         else after_retire t in_lookup s1)"

text \<open>\<open>maybeFreeNodes\<close>: one hazard pointer per step, then the deletions.\<close>

definition scan_step :: "nat \<Rightarrow> bool \<Rightarrow> ('k, 'v) lf_system \<Rightarrow> ('k, 'v) lf_system" where
  "scan_step t in_lookup s =
     (let hz = lf_hps (lf_mem s); i = th_slot (lf_threads s t); p = hp_recs hz ! (i div num_ptrs hz) ! (i mod num_ptrs hz)
      in upd_thread t (\<lambda>l. l\<lparr>th_active := (if p \<noteq> 0 then insert p (th_active l) else th_active l), th_slot := Suc i,
           th_pc := (if Suc i < num_threads hz * num_ptrs hz then PScan in_lookup else PFree in_lookup)\<rparr>) s)"

definition free_step :: "nat \<Rightarrow> bool \<Rightarrow> ('k, 'v) lf_system \<Rightarrow> ('k, 'v) lf_system" where
  "free_step t in_lookup s =
     (let A = th_active (lf_threads s t)
      in case delete_nodes (retired t s - A) (lf_mem s) of
           None \<Rightarrow> crash s
         | Some m \<Rightarrow> after_retire t in_lookup (set_retired t (retired t s \<inter> A) (set_mem m s)))"

definition lf_step :: "nat \<Rightarrow> ('k :: linorder, 'v) lf_system \<Rightarrow> ('k, 'v) lf_system" where
  "lf_step t s =
     (let l = lf_threads s t; m = lf_mem s
      in case th_pc l of
           PIdle \<Rightarrow> s
         | LStart \<Rightarrow> loop_head t (lf_head m) (upd_thread t (\<lambda>l. l\<lparr>th_prev := HeadCell\<rparr>) s)
         | LSetHp \<Rightarrow> goto_pc t LCheck (write_hp t 0 (th_cur l) s)
         | LCheck \<Rightarrow> (case read_cell (th_prev l) m of None \<Rightarrow> crash s
             | Some v \<Rightarrow> goto_pc t (if v \<noteq> th_cur l then LStart else LNext) s)
         | LNext \<Rightarrow> (case lf_heap m (th_cur l) of None \<Rightarrow> crash s
             | Some n \<Rightarrow> upd_thread t (\<lambda>l. l\<lparr>th_next := lf_next n, th_pc := (if mp_isMarked (lf_next n) then LUnlink else LKey)\<rparr>) s)
         | LUnlink \<Rightarrow> cas_step (th_prev l) (th_cur l) (mp_unmark (th_next l)) (goto_pc t LRetire) (goto_pc t LStart) s
         | LRetire \<Rightarrow> retire_step t True s
         | LKey \<Rightarrow> (case lf_heap m (th_cur l) of None \<Rightarrow> crash s
             | Some n \<Rightarrow> upd_thread t (\<lambda>l. l\<lparr>th_cur_key := lf_data n, th_pc := LRecheck\<rparr>) s)
         | LRecheck \<Rightarrow> (case read_cell (th_prev l) m of None \<Rightarrow> crash s
             | Some v \<Rightarrow>
                 if v \<noteq> th_cur l then goto_pc t LStart s
                 else if th_cur_key l \<ge> th_key l then lookup_return t (th_cur_key l = th_key l) s
                 else goto_pc t LSwap0 s)
         | LSwap0 \<Rightarrow>
             (let hp = getHPRec t (lf_hps m)
              in write_hp t 0 (hp ! 1)
                   (upd_thread t (\<lambda>l. l\<lparr>th_prev := NextOf (th_cur l), th_temp := hp ! 0, th_pc := LSwap1\<rparr>) s))
         | LSwap1 \<Rightarrow> loop_head t (th_next l) (write_hp t 1 (th_temp l) s)
         | IStore \<Rightarrow> (case write_cell (NextOf (th_new l)) (th_cur l) m of None \<Rightarrow> crash s
             | Some m1 \<Rightarrow> goto_pc t ICas (set_mem m1 s))
         | ICas \<Rightarrow> cas_step (th_prev l) (th_cur l) (th_new l)
             (\<lambda>s. respond t True (record_move t (insert (th_key l)) s)) (goto_pc t LStart) s
         | IDelete \<Rightarrow> (case delete_nodes {th_new l} m of None \<Rightarrow> crash s | Some m1 \<Rightarrow> respond t False (set_mem m1 s))
         | RMark \<Rightarrow> cas_step (NextOf (th_cur l)) (th_next l) (mp_mark (th_next l))
             (\<lambda>s. goto_pc t RUnlink (record_move t (\<lambda>A. A - {th_key l}) s)) (goto_pc t LStart) s
         | RUnlink \<Rightarrow> cas_step (th_prev l) (th_cur l) (th_next l) (goto_pc t RRetire)
             (upd_thread t (\<lambda>l. l\<lparr>th_why := ForHelp, th_pc := LStart\<rparr>)) s
         | RRetire \<Rightarrow> retire_step t False s
         | PScan b \<Rightarrow> scan_step t b s
         | PFree b \<Rightarrow> free_step t b s)"

text \<open>A thread that is idle calls an operation; \<open>insert\<close> has allocated its node.\<close>

definition lf_invoke :: "nat \<Rightarrow> 'k set_call \<Rightarrow> ('k, 'v :: zero) lf_system \<Rightarrow> ('k, 'v) lf_system" where
  "lf_invoke t c s =
     (let s1 = s\<lparr>lf_begun := (lf_begun s)(t := length (lf_hist s) - 1)\<rparr>
      in case c of
           InsCall k \<Rightarrow>
             (case new_node \<lparr>lf_data = k, lf_next = 0, lf_value = 0\<rparr> (lf_mem s1) of (new, m) \<Rightarrow>
                upd_thread t (\<lambda>l. l\<lparr>th_key := k, th_why := ForInsert, th_new := new, th_pc := LStart\<rparr>) (set_mem m s1))
         | RemCall k \<Rightarrow> upd_thread t (\<lambda>l. l\<lparr>th_key := k, th_why := ForRemove, th_pc := LStart\<rparr>) s1
         | MemCall k \<Rightarrow> upd_thread t (\<lambda>l. l\<lparr>th_key := k, th_why := ForLookup, th_pc := LStart\<rparr>) s1)"

inductive lf_system_step :: "nat \<Rightarrow> ('k :: linorder, 'v :: zero) lf_system \<Rightarrow> ('k, 'v) lf_system \<Rightarrow> bool" for n :: nat where
  lf_call: "t < n \<Longrightarrow> th_pc (lf_threads s t) = PIdle \<Longrightarrow> lf_system_step n s (lf_invoke t c s)"
| lf_run: "t < n \<Longrightarrow> lf_system_step n s (lf_step t s)"

definition lf_system_start :: "nat \<Rightarrow> ('k, 'v) lf_system \<Rightarrow> bool" where
  "lf_system_start n s \<longleftrightarrow> (\<exists>junk locals. s = lf_system_new junk locals n)"

text \<open>Local variables to start a concrete run with.\<close>

definition blank_thread :: "nat lf_thread" where
  "blank_thread = \<lparr>th_pc = PIdle, th_why = ForLookup, th_key = 0, th_prev = HeadCell, th_cur = 0, th_next = 0,
     th_cur_key = 0, th_temp = 0, th_new = 0, th_slot = 0, th_active = {}\<rparr>"

end
