(* ===== verification/Lf_Invariant.thy ===== *)
theory Lf_Invariant
  imports Lf_Machine
begin

text \<open>
  The invariant of the interleaved lock-free list while no node is reclaimed: the linked nodes form a sorted chain that holds
  every shared node that is not marked, and each thread, at each of its program points, knows what
  its call will need to return. Then what a step may change for other threads, and the steps that change no node.
\<close>

section \<open>Chains of nodes\<close>

definition nkey :: "(nat \<rightharpoonup> ('k, 'v) lf_node) \<Rightarrow> nat \<Rightarrow> 'k" where
  "nkey h a = lf_data (the (h a))"

definition nnext :: "(nat \<rightharpoonup> ('k, 'v) lf_node) \<Rightarrow> nat \<Rightarrow> nat" where
  "nnext h a = lf_next (the (h a))"

text \<open>From \<open>p\<close> through the nodes \<open>as\<close>, marked or not, to \<open>q\<close>.\<close>

fun chain :: "(nat \<rightharpoonup> ('k, 'v) lf_node) \<Rightarrow> nat \<Rightarrow> nat list \<Rightarrow> nat \<Rightarrow> bool" where
  "chain h p [] q \<longleftrightarrow> p = q"
| "chain h p (a # as) q \<longleftrightarrow> p = a \<and> a \<noteq> 0 \<and> even a \<and> h a \<noteq> None \<and> chain h (mp_unmark (nnext h a)) as q"

definition lf_content :: "('k, 'v) lf_list \<Rightarrow> 'k set" where
  "lf_content m =
     {k. \<exists>ps a. chain (lf_heap m) (lf_head m) ps 0 \<and> a \<in> set ps \<and> \<not> mp_isMarked (nnext (lf_heap m) a) \<and> nkey (lf_heap m) a = k}"

definition first_node :: "nat list \<Rightarrow> nat" where
  "first_node ys = (case ys of [] \<Rightarrow> 0 | y # _ \<Rightarrow> y)"

lemma first_node_simps [simp]: "first_node [] = 0" "first_node (y # ys) = y"
  by (simp_all add: first_node_def)

lemma chain_append: "chain h p (xs @ ys) q \<longleftrightarrow> (\<exists>r. chain h p xs r \<and> chain h r ys q)"
  by (induction xs arbitrary: p) auto

lemma chain_first: "chain h p ys 0 \<Longrightarrow> p = first_node ys"
  by (cases ys) auto

lemma chain_split: "chain h p (xs @ ys) 0 \<longleftrightarrow> chain h p xs (first_node ys) \<and> chain h (first_node ys) ys 0"
proof
  assume "chain h p (xs @ ys) 0"
  then obtain r where "chain h p xs r" "chain h r ys 0" by (auto simp: chain_append)
  then show "chain h p xs (first_node ys) \<and> chain h (first_node ys) ys 0" using chain_first [of h r ys] by simp
next
  assume "chain h p xs (first_node ys) \<and> chain h (first_node ys) ys 0"
  then show "chain h p (xs @ ys) 0" unfolding chain_append by blast
qed

lemma chain_snoc: "chain h p (xs @ [a]) q \<longleftrightarrow> chain h p xs a \<and> a \<noteq> 0 \<and> even a \<and> h a \<noteq> None \<and> mp_unmark (nnext h a) = q"
  by (auto simp: chain_append)

lemma chain_unique: "chain h p xs 0 \<Longrightarrow> chain h p ys 0 \<Longrightarrow> xs = ys"
proof (induction xs arbitrary: p ys)
  case Nil
  then show ?case by (cases ys) auto
next
  case (Cons x xs)
  then show ?case by (cases ys) auto
qed

lemma chain_even: "chain h p ps 0 \<Longrightarrow> even p"
  by (cases ps) auto

lemma chain_dom: "chain h p xs q \<Longrightarrow> set xs \<subseteq> dom h"
  by (induction xs arbitrary: p) auto

lemma chain_even_nodes: "chain h p xs q \<Longrightarrow> a \<in> set xs \<Longrightarrow> even a \<and> a \<noteq> 0"
  by (induction xs arbitrary: p) auto

text \<open>Changes elsewhere, and changes that keep the links.\<close>

lemma chain_cong:
  "(\<And>a. a \<in> set xs \<Longrightarrow> h' a \<noteq> None \<longleftrightarrow> h a \<noteq> None) \<Longrightarrow>
   (\<And>a. a \<in> set xs \<Longrightarrow> mp_unmark (nnext h' a) = mp_unmark (nnext h a)) \<Longrightarrow> chain h' p xs q = chain h p xs q"
  by (induction xs arbitrary: p) (simp_all del: mp_unmark_nat)

lemma chain_upd: "a \<notin> set xs \<Longrightarrow> chain (h(a := x)) p xs q = chain h p xs q"
  by (rule chain_cong) (auto simp: nnext_def)

text \<open>Writing the last cell of a segment.\<close>

definition cell_after :: "nat list \<Rightarrow> cell_ref" where
  "cell_after xs = (if xs = [] then HeadCell else NextOf (last xs))"

lemma cell_after_simps [simp]: "cell_after [] = HeadCell" "cell_after (xs @ [a]) = NextOf a"
  by (simp_all add: cell_after_def)

lemma read_cell_after: "chain (lf_heap m) (lf_head m) xs q \<Longrightarrow> \<exists>v. read_cell (cell_after xs) m = Some v \<and> mp_unmark v = (if xs = [] then mp_unmark q else q)"
  by (cases xs rule: rev_cases) (auto simp: chain_snoc nnext_def)

lemma chain_relink:
  assumes c: "chain (lf_heap m) (lf_head m) (xs @ ys) 0" and d: "distinct (xs @ ys)"
    and w: "write_cell (cell_after xs) q m = Some m'" and q: "even q"
    and zs: "chain (lf_heap m) q zs 0" "last xs \<notin> set zs \<or> xs = []"
  shows "chain (lf_heap m') (lf_head m') (xs @ zs) 0"
proof (cases xs rule: rev_cases)
  case Nil
  then show ?thesis using w zs by auto
next
  case (snoc us a)
  have a: "a \<notin> set us" "a \<notin> set zs" using d zs(2) snoc by auto
  obtain nd where nd: "lf_heap m a = Some nd" and m': "m' = m\<lparr>lf_heap := (lf_heap m)(a \<mapsto> nd\<lparr>lf_next := q\<rparr>)\<rparr>"
    using w snoc by auto
  have "chain (lf_heap m) (lf_head m) us a" "a \<noteq> 0" "even a" using c snoc by (auto simp: chain_append)
  then show ?thesis using a zs(1) q snoc nd by (auto simp: m' chain_append chain_upd nnext_def)
qed

section \<open>The invariant\<close>

abbreviation heap_of :: "('k, 'v) lf_system \<Rightarrow> nat \<rightharpoonup> ('k, 'v) lf_node" where
  "heap_of s \<equiv> lf_heap (lf_mem s)"

text \<open>The node a thread has allocated and not yet published; every other node is shared.\<close>

definition own :: "'k lf_thread \<Rightarrow> nat \<Rightarrow> bool" where
  "own l a \<longleftrightarrow> th_pc l \<noteq> PIdle \<and> th_why l = ForInsert \<and> th_new l = a"

definition shared :: "('k, 'v) lf_system \<Rightarrow> nat \<Rightarrow> bool" where
  "shared s a \<longleftrightarrow> heap_of s a \<noteq> None \<and> (\<forall>t. \<not> own (lf_threads s t) a)"

text \<open>The linked nodes \<open>ps\<close>: sorted, shared, and all the shared nodes that are not marked.\<close>

definition list_ok :: "('k :: linorder, 'v) lf_system \<Rightarrow> nat list \<Rightarrow> bool" where
  "list_ok s ps \<longleftrightarrow>
     chain (heap_of s) (lf_head (lf_mem s)) ps 0 \<and> sorted_wrt (<) (map (nkey (heap_of s)) ps) \<and>
     (\<forall>a \<in> set ps. shared s a) \<and> (\<forall>a. shared s a \<longrightarrow> even (nnext (heap_of s) a) \<longrightarrow> a \<in> set ps)"

definition alloc_ok :: "('k, 'v) lf_system \<Rightarrow> bool" where
  "alloc_ok s \<longleftrightarrow>
     heap_of s 0 = None \<and> (\<forall>a. heap_of s a \<noteq> None \<longrightarrow> a \<le> 2 * lf_brk (lf_mem s)) \<and>
     (\<forall>t a. own (lf_threads s t) a \<longrightarrow>
        heap_of s a \<noteq> None \<and> even a \<and> a \<noteq> 0 \<and> nkey (heap_of s) a = th_key (lf_threads s t)) \<and>
     (\<forall>t u a. own (lf_threads s t) a \<longrightarrow> own (lf_threads s u) a \<longrightarrow> t = u)"

definition prev_ok :: "('k :: linorder, 'v) lf_system \<Rightarrow> cell_ref \<Rightarrow> 'k \<Rightarrow> bool" where
  "prev_ok s c k = (case c of HeadCell \<Rightarrow> True | StartCell \<Rightarrow> False | NextOf a \<Rightarrow> shared s a \<and> nkey (heap_of s) a < k)"

text \<open>At some moment of the current call the key was in the set, or was not.\<close>

definition seen :: "('k, 'v) lf_system \<Rightarrow> nat \<Rightarrow> 'k \<Rightarrow> bool \<Rightarrow> bool" where
  "seen s t k b \<longleftrightarrow> (\<exists>j. lf_begun s t \<le> j \<and> j < length (lf_hist s) \<and> (k \<in> lf_hist s ! j \<longleftrightarrow> b))"

definition thread_ok :: "('k :: linorder, 'v) lf_system \<Rightarrow> nat \<Rightarrow> 'k lf_thread \<Rightarrow> bool" where
  "thread_ok s t l =
     (let k = th_key l; cur = th_cur l; nxt = th_next l; h = heap_of s;
          at_prev = prev_ok s (th_prev l) k; at_cur = (even cur \<and> shared s cur)
      in case th_pc l of
           PIdle \<Rightarrow> True
         | LStart \<Rightarrow> True
         | LSetHp \<Rightarrow> at_prev \<and> cur \<noteq> 0 \<and> even cur
         | LCheck \<Rightarrow> at_prev \<and> cur \<noteq> 0 \<and> even cur
         | LNext \<Rightarrow> at_prev \<and> at_cur
         | LUnlink \<Rightarrow> at_prev \<and> at_cur \<and> odd nxt \<and> nnext h cur = nxt
         | LRetire \<Rightarrow> at_prev \<and> (mp_unmark nxt = 0 \<longrightarrow> seen s t k False)
         | LKey \<Rightarrow> at_prev \<and> at_cur \<and> even nxt \<and>
             (nkey h cur = k \<longrightarrow> seen s t k True) \<and> (nkey h cur < k \<and> nxt = 0 \<longrightarrow> seen s t k False)
         | LRecheck \<Rightarrow> at_prev \<and> at_cur \<and> even nxt \<and> th_cur_key l = nkey h cur \<and>
             (nkey h cur = k \<longrightarrow> seen s t k True) \<and> (nkey h cur < k \<and> nxt = 0 \<longrightarrow> seen s t k False)
         | LSwap0 \<Rightarrow> at_cur \<and> nkey h cur < k \<and> even nxt \<and> (nxt = 0 \<longrightarrow> seen s t k False)
         | LSwap1 \<Rightarrow> at_prev \<and> even nxt \<and> (nxt = 0 \<longrightarrow> seen s t k False)
         | IStore \<Rightarrow> th_why l = ForInsert \<and> at_prev \<and> even cur \<and> (cur = 0 \<or> shared s cur \<and> k < nkey h cur)
         | ICas \<Rightarrow> th_why l = ForInsert \<and> at_prev \<and> even cur \<and> (cur = 0 \<or> shared s cur \<and> k < nkey h cur) \<and>
             nnext h (th_new l) = cur
         | IDelete \<Rightarrow> th_why l = ForInsert \<and> seen s t k True
         | RMark \<Rightarrow> th_why l = ForRemove \<and> at_prev \<and> at_cur \<and> nkey h cur = k \<and> even nxt
         | RUnlink \<Rightarrow> th_why l = ForRemove \<and> at_prev \<and> at_cur \<and> even nxt \<and> nnext h cur = Suc nxt
         | RRetire \<Rightarrow> th_why l = ForRemove
         | PScan _ \<Rightarrow> False
         | PFree _ \<Rightarrow> False)"

text \<open>The changes a thread has made since its call began: the marking of a \<open>remove\<close>, once it is done.\<close>

definition moved :: "'k lf_thread \<Rightarrow> bool" where
  "moved l \<longleftrightarrow> th_why l = ForHelp \<or> th_pc l = RUnlink \<or> th_pc l = RRetire"

definition moves_since :: "nat \<Rightarrow> nat \<Rightarrow> (nat \<times> 'k set_call) list \<Rightarrow> (nat \<times> 'k set_call) list" where
  "moves_since t i ms = filter (\<lambda>m. fst m = t) (drop i ms)"

definition made_ok :: "('k, 'v) lf_system \<Rightarrow> nat \<Rightarrow> 'k lf_thread \<Rightarrow> bool" where
  "made_ok s t l \<longleftrightarrow> th_pc l \<noteq> PIdle \<longrightarrow> lf_begun s t \<le> length (lf_moves s) \<and>
     moves_since t (lf_begun s t) (lf_moves s) = (if moved l then [(t, RemCall (th_key l))] else [])"

text \<open>One change of the set is what its call is meant to do.\<close>

definition legal_move :: "'k set_call \<Rightarrow> 'k set \<Rightarrow> 'k set \<Rightarrow> bool" where
  "legal_move c A B = (case c of InsCall k \<Rightarrow> k \<notin> A \<and> B = insert k A | RemCall k \<Rightarrow> k \<in> A \<and> B = A - {k} | MemCall k \<Rightarrow> False)"

text \<open>The result of a call that changes nothing, when the set is \<open>A\<close>.\<close>

definition legal_answer :: "'k set_call \<Rightarrow> bool \<Rightarrow> 'k set \<Rightarrow> bool" where
  "legal_answer c r A = (case c of InsCall k \<Rightarrow> \<not> r \<and> k \<in> A | RemCall k \<Rightarrow> \<not> r \<and> k \<notin> A | MemCall k \<Rightarrow> r \<longleftrightarrow> k \<in> A)"

definition entry_ok :: "'k set list \<Rightarrow> (nat \<times> 'k set_call) list \<Rightarrow> nat \<times> 'k set_call \<times> bool \<times> nat \<times> nat \<Rightarrow> bool" where
  "entry_ok hist ms = (\<lambda>(t, c, r, i, j). i \<le> j \<and> j < length hist \<and>
     (let mine = filter (\<lambda>m. fst m = t) (drop i (take j ms))
      in mine = [(t, c)] \<and> r \<or> mine = [] \<and> (\<exists>x. i \<le> x \<and> x \<le> j \<and> legal_answer c r (hist ! x))))"

definition hist_ok :: "('k, 'v) lf_system \<Rightarrow> bool" where
  "hist_ok s \<longleftrightarrow> lf_hist s ! 0 = {} \<and> length (lf_hist s) = Suc (length (lf_moves s)) \<and> last (lf_hist s) = lf_content (lf_mem s) \<and>
     (\<forall>i < length (lf_moves s). legal_move (snd (lf_moves s ! i)) (lf_hist s ! i) (lf_hist s ! Suc i))"

definition log_ok :: "('k, 'v) lf_system \<Rightarrow> bool" where
  "log_ok s \<longleftrightarrow> (\<forall>e \<in> set (lf_log s). entry_ok (lf_hist s) (lf_moves s) e)"

definition lin_ok :: "nat \<Rightarrow> ('k :: linorder, 'v) lf_system \<Rightarrow> bool" where
  "lin_ok n s \<longleftrightarrow> \<not> lf_crashed s \<and> length (retired_lists (lf_hps (lf_mem s))) = n \<and> alloc_ok s \<and> (\<exists>ps. list_ok s ps) \<and>
     hist_ok s \<and> log_ok s \<and> (\<forall>t. thread_ok s t (lf_threads s t) \<and> made_ok s t (lf_threads s t))"

section \<open>The linked nodes\<close>

lemma list_okD:
  assumes "list_ok s ps"
  shows "chain (heap_of s) (lf_head (lf_mem s)) ps 0" "sorted_wrt (<) (map (nkey (heap_of s)) ps)"
    "\<And>a. a \<in> set ps \<Longrightarrow> shared s a" "\<And>a. shared s a \<Longrightarrow> even (nnext (heap_of s) a) \<Longrightarrow> a \<in> set ps"
  using assms by (auto simp: list_ok_def)

lemma list_ok_distinct: "list_ok s ps \<Longrightarrow> distinct ps"
  using sorted_wrt_less_distinct distinct_map list_okD(2) by blast

lemma list_ok_inj: "list_ok s ps \<Longrightarrow> inj_on (nkey (heap_of s)) (set ps)"
  using sorted_wrt_less_distinct distinct_map list_okD(2) by blast

lemma lf_content_eq:
  assumes "list_ok s ps"
  shows "lf_content (lf_mem s) = nkey (heap_of s) ` {a \<in> set ps. even (nnext (heap_of s) a)}"
proof -
  have "chain (heap_of s) (lf_head (lf_mem s)) qs 0 \<longleftrightarrow> qs = ps" for qs
    using list_okD(1) [OF assms] chain_unique [of "heap_of s"] by blast
  then show ?thesis unfolding lf_content_def by auto
qed

text \<open>A cell that is not marked and belongs to a node with a smaller key cuts the list in two.\<close>

lemma adjacent:
  assumes ok: "list_ok s ps" and p: "prev_ok s c k" and v: "read_cell c (lf_mem s) = Some v" "even v"
  obtains xs ys where "ps = xs @ ys" "c = cell_after xs" "v = first_node ys" "\<And>a. a \<in> set xs \<Longrightarrow> nkey (heap_of s) a < k"
proof (cases c)
  case HeadCell
  then have "v = first_node ps" using chain_first [OF list_okD(1) [OF ok]] v by simp
  then show ?thesis using that [of "[]" ps] HeadCell by simp
next
  case StartCell
  then show ?thesis using p by (simp add: prev_ok_def)
next
  case (NextOf a)
  then have a: "shared s a" "nkey (heap_of s) a < k" "nnext (heap_of s) a = v"
    using p v by (auto simp: prev_ok_def nnext_def)
  then have "a \<in> set ps" using list_okD(4) [OF ok a(1)] v by simp
  then obtain us ys where ps: "ps = us @ a # ys" by (auto simp: in_set_conv_decomp)
  have "v = first_node ys"
    using list_okD(1) [OF ok] a(3) v(2) chain_first [of "heap_of s" v ys] by (auto simp: ps chain_append)
  moreover have "nkey (heap_of s) b < k" if "b \<in> set (us @ [a])" for b
    using list_okD(2) [OF ok] that a(2) by (fastforce simp: ps sorted_wrt_append)
  ultimately show ?thesis using that [of "us @ [a]" ys] NextOf ps by simp
qed

lemma read_prev: "prev_ok s c k \<Longrightarrow> \<exists>v. read_cell c (lf_mem s) = Some v"
  by (cases c) (auto simp: prev_ok_def shared_def)

text \<open>The keys after the cut.\<close>

lemma key_after:
  assumes ok: "list_ok s (xs @ ys)" and xs: "\<And>a. a \<in> set xs \<Longrightarrow> nkey (heap_of s) a < k"
    and ys: "ys = [] \<or> k < nkey (heap_of s) (hd ys)"
  shows "k \<notin> nkey (heap_of s) ` set (xs @ ys)"
proof -
  have "k < nkey (heap_of s) a" if "a \<in> set ys" for a
    using list_okD(2) [OF ok] ys that by (cases ys) (auto simp: sorted_wrt_append dest: less_trans)
  then show ?thesis using xs by (auto simp: less_le)
qed

lemma absent_after:
  assumes "list_ok s (xs @ ys)" "\<And>a. a \<in> set xs \<Longrightarrow> nkey (heap_of s) a < k" "ys = [] \<or> k < nkey (heap_of s) (hd ys)"
  shows "k \<notin> lf_content (lf_mem s)"
  using key_after [OF assms] unfolding lf_content_eq [OF assms(1)] by blast

section \<open>Interference\<close>

text \<open>
  What a step of thread \<open>t\<close> may change for the others: shared nodes stay shared, with their keys, and with their
  links once they are marked; nodes other threads own are untouched; the history grows by changes of \<open>t\<close>.
\<close>

definition evolves :: "nat \<Rightarrow> ('k, 'v) lf_system \<Rightarrow> ('k, 'v) lf_system \<Rightarrow> bool" where
  "evolves t s s' \<longleftrightarrow>
     (\<forall>a. shared s a \<longrightarrow> shared s' a \<and> nkey (heap_of s') a = nkey (heap_of s) a \<and>
        (odd (nnext (heap_of s) a) \<longrightarrow> nnext (heap_of s') a = nnext (heap_of s) a)) \<and>
     (\<forall>u a. u \<noteq> t \<longrightarrow> own (lf_threads s u) a \<longrightarrow> heap_of s' a = heap_of s a) \<and>
     (\<forall>u. u \<noteq> t \<longrightarrow> lf_threads s' u = lf_threads s u \<and> lf_begun s' u = lf_begun s u) \<and>
     (\<exists>hs ms. lf_hist s' = lf_hist s @ hs \<and> lf_moves s' = lf_moves s @ ms \<and> (\<forall>m \<in> set ms. fst m = t))"

lemma evolvesD:
  assumes "evolves t s s'"
  shows "shared s a \<Longrightarrow> shared s' a" "shared s a \<Longrightarrow> nkey (heap_of s') a = nkey (heap_of s) a"
    "shared s a \<Longrightarrow> odd (nnext (heap_of s) a) \<Longrightarrow> nnext (heap_of s') a = nnext (heap_of s) a"
    "u \<noteq> t \<Longrightarrow> own (lf_threads s u) a \<Longrightarrow> heap_of s' a = heap_of s a"
    "u \<noteq> t \<Longrightarrow> lf_threads s' u = lf_threads s u" "u \<noteq> t \<Longrightarrow> lf_begun s' u = lf_begun s u"
  using assms unfolding evolves_def by blast+

lemma evolves_hist:
  assumes "evolves t s s'"
  obtains hs ms where "lf_hist s' = lf_hist s @ hs" "lf_moves s' = lf_moves s @ ms" "\<forall>m \<in> set ms. fst m = t"
  using assms unfolding evolves_def by blast

lemma evolves_prev: "evolves t s s' \<Longrightarrow> prev_ok s c k \<Longrightarrow> prev_ok s' c k"
  by (cases c) (auto simp: prev_ok_def evolvesD)

lemma evolves_seen:
  assumes e: "evolves t s s'" and u: "lf_begun s' u = lf_begun s u" and "seen s u k b"
  shows "seen s' u k b"
proof -
  obtain j where j: "lf_begun s u \<le> j" "j < length (lf_hist s)" "(k \<in> lf_hist s ! j) = b"
    using assms(3) by (auto simp: seen_def)
  obtain hs where "lf_hist s' = lf_hist s @ hs" using e by (rule evolves_hist)
  then show ?thesis using j u unfolding seen_def by (intro exI [of _ j]) (simp add: nth_append)
qed

lemma thread_ok_evolves:
  assumes e: "evolves t s s'" and u: "u \<noteq> t" and ok: "thread_ok s u (lf_threads s u)"
  shows "thread_ok s' u (lf_threads s u)"
proof -
  let ?l = "lf_threads s u"
  have seen: "seen s u k b \<Longrightarrow> seen s' u k b" for k b
    using evolves_seen [OF e evolvesD(6) [OF e u]] .
  have new: "nnext (heap_of s') (th_new ?l) = nnext (heap_of s) (th_new ?l)" if "th_pc ?l = ICas" "th_why ?l = ForInsert"
    using evolvesD(4) [OF e u, of "th_new ?l"] that by (simp add: own_def nnext_def)
  note stable = evolvesD(1-3) [OF e] evolves_prev [OF e] seen
  show ?thesis
    using ok new by (cases "th_pc ?l"; simp add: thread_ok_def Let_def del: mp_unmark_nat; use stable in fastforce)
qed

lemma moves_since_append: "i \<le> length ms \<Longrightarrow> moves_since t i (ms @ ms') = moves_since t i ms @ moves_since t 0 ms'"
  by (simp add: moves_since_def)

lemma made_ok_evolves:
  assumes e: "evolves t s s'" and u: "u \<noteq> t" and ok: "made_ok s u l"
  shows "made_ok s' u l"
proof -
  obtain ms where "lf_moves s' = lf_moves s @ ms" "\<forall>m \<in> set ms. fst m = t" using e by (rule evolves_hist)
  moreover from this have "moves_since u 0 ms = []" using u by (auto simp: moves_since_def filter_empty_conv)
  ultimately show ?thesis using ok evolvesD(6) [OF e u] by (auto simp: made_ok_def moves_since_append)
qed

lemma lin_ok_step:
  assumes "lin_ok n s" "evolves t s s'" "\<not> lf_crashed s'" "length (retired_lists (lf_hps (lf_mem s'))) = n"
    and "alloc_ok s'" "list_ok s' ps" "hist_ok s'" "log_ok s'"
    and "thread_ok s' t (lf_threads s' t)" "made_ok s' t (lf_threads s' t)"
  shows "lin_ok n s'"
proof -
  have "thread_ok s' u (lf_threads s' u) \<and> made_ok s' u (lf_threads s' u)" for u
  proof (cases "u = t")
    case False
    have "thread_ok s u (lf_threads s u)" "made_ok s u (lf_threads s u)" using assms(1) by (auto simp: lin_ok_def)
    then show ?thesis
      using False thread_ok_evolves [OF assms(2)] made_ok_evolves [OF assms(2)] evolvesD(5) [OF assms(2)] by simp
  qed (use assms in simp)
  then show ?thesis using assms unfolding lin_ok_def by blast
qed

section \<open>The history\<close>

lemma entry_ok_append:
  assumes "entry_ok hist ms e" "length hist = Suc (length ms)"
  shows "entry_ok (hist @ hs) (ms @ ms') e"
proof -
  obtain t c r i j where e: "e = (t, c, r, i, j)" by (cases e)
  have ij: "i \<le> j" "j < length hist" using assms by (auto simp: entry_ok_def e)
  then have "take j (ms @ ms') = take j ms" "\<And>x. x \<le> j \<Longrightarrow> (hist @ hs) ! x = hist ! x"
    using assms(2) by (auto simp: nth_append)
  then show ?thesis using assms(1) ij unfolding entry_ok_def e Let_def by auto
qed

lemma log_ok_evolves:
  assumes "evolves t s s'" "log_ok s" "hist_ok s" "lf_log s' = lf_log s @ es" "\<And>e. e \<in> set es \<Longrightarrow> entry_ok (lf_hist s') (lf_moves s') e"
  shows "log_ok s'"
proof -
  obtain hs ms where "lf_hist s' = lf_hist s @ hs" "lf_moves s' = lf_moves s @ ms" using assms(1) by (rule evolves_hist)
  then show ?thesis
    using assms(2-) entry_ok_append unfolding log_ok_def hist_ok_def by (metis Un_iff set_append)
qed

text \<open>A call that returns: what it saw, or what it changed.\<close>

lemma entry_seen:
  assumes "hist_ok s" "lf_begun s t \<le> length (lf_moves s)" "moves_since t (lf_begun s t) (lf_moves s) = []"
    and "seen s t k b" "\<And>A. (k \<in> A \<longleftrightarrow> b) \<Longrightarrow> legal_answer c r A"
  shows "entry_ok (lf_hist s) (lf_moves s) (t, c, r, lf_begun s t, length (lf_hist s) - 1)"
proof -
  obtain j where "lf_begun s t \<le> j" "j < length (lf_hist s)" "(k \<in> lf_hist s ! j) = b"
    using assms(4) by (auto simp: seen_def)
  moreover from this have "j \<le> length (lf_hist s) - 1" "legal_answer c r (lf_hist s ! j)" using assms(5) by auto
  ultimately show ?thesis using assms(1-3) unfolding entry_ok_def moves_since_def hist_ok_def by auto
qed

lemma entry_moved:
  assumes "hist_ok s" "lf_begun s t \<le> length (lf_moves s)" "moves_since t (lf_begun s t) (lf_moves s) = [(t, c)]"
  shows "entry_ok (lf_hist s) (lf_moves s) (t, c, True, lf_begun s t, length (lf_hist s) - 1)"
  using assms unfolding entry_ok_def moves_since_def hist_ok_def by auto

lemma hist_ok_last: "hist_ok s \<Longrightarrow> lf_hist s ! length (lf_moves s) = lf_content (lf_mem s)"
  unfolding hist_ok_def by (metis diff_Suc_1 last_conv_nth length_0_conv nat.distinct(1))

lemma seen_now:
  assumes "hist_ok s" "lf_begun s t \<le> length (lf_moves s)" "k \<in> lf_content (lf_mem s) \<longleftrightarrow> b"
  shows "seen s t k b"
  using assms(2,3) hist_ok_last [OF assms(1)] assms(1) unfolding seen_def hist_ok_def
  by (intro exI [of _ "length (lf_moves s)"]) simp

lemma hist_ok_move:
  assumes "hist_ok s" "lf_hist s' = lf_hist s @ [B]" "lf_moves s' = lf_moves s @ [(t, c)]"
    and "legal_move c (lf_content (lf_mem s)) B" "B = lf_content (lf_mem s')"
  shows "hist_ok s'"
  using assms(2-) hist_ok_last [OF assms(1)] assms(1) unfolding hist_ok_def
  by (auto simp: nth_append less_Suc_eq)

section \<open>Steps that leave the nodes alone\<close>

text \<open>The local variables of \<open>t\<close>, the hazard pointers and the log may change.\<close>

definition local_step :: "nat \<Rightarrow> 'k lf_thread \<Rightarrow> ('k, 'v) lf_system \<Rightarrow> ('k, 'v) lf_system \<Rightarrow> bool" where
  "local_step t l' s s' \<longleftrightarrow>
     lf_threads s' = (lf_threads s)(t := l') \<and> own l' = own (lf_threads s t) \<and> (\<forall>a. own l' a \<longrightarrow> th_key l' = th_key (lf_threads s t)) \<and>
     heap_of s' = heap_of s \<and> lf_head (lf_mem s') = lf_head (lf_mem s) \<and> lf_brk (lf_mem s') = lf_brk (lf_mem s) \<and>
     length (retired_lists (lf_hps (lf_mem s'))) = length (retired_lists (lf_hps (lf_mem s))) \<and>
     lf_crashed s' = lf_crashed s \<and> lf_hist s' = lf_hist s \<and> lf_moves s' = lf_moves s \<and> lf_begun s' = lf_begun s"

lemma local_step_frame:
  assumes "local_step t l' s s'"
  shows "shared s' = shared s" "heap_of s' = heap_of s" "lf_hist s' = lf_hist s" "lf_moves s' = lf_moves s"
    "lf_begun s' = lf_begun s" "lf_threads s' t = l'" "seen s' u = seen s u"
proof -
  have "own (lf_threads s' u) = own (lf_threads s u)" for u using assms by (auto simp: local_step_def)
  then show "shared s' = shared s" using assms by (auto simp: local_step_def shared_def fun_eq_iff)
  show "seen s' u = seen s u" using assms by (auto simp: local_step_def seen_def fun_eq_iff)
qed (use assms in \<open>simp_all add: local_step_def\<close>)

lemma local_step_evolves: "local_step t l' s s' \<Longrightarrow> evolves t s s'"
  using local_step_frame(1) [of t l' s s'] unfolding evolves_def local_step_def by simp

lemma local_step_thread: "local_step t l' s s' \<Longrightarrow> thread_ok s' u l = thread_ok s u l"
proof -
  assume st: "local_step t l' s s'"
  have "prev_ok s' c k = prev_ok s c k" for c k by (cases c) (simp_all add: prev_ok_def local_step_frame [OF st])
  then show ?thesis by (simp only: thread_ok_def local_step_frame [OF st])
qed

lemma local_step_content: "local_step t l' s s' \<Longrightarrow> lf_content (lf_mem s') = lf_content (lf_mem s)"
  by (simp add: lf_content_def local_step_def)

lemma local_step_lin:
  assumes inv: "lin_ok n s" and st: "local_step t l' s s'" and ok: "thread_ok s t l'" "made_ok s t l'"
    and log: "lf_log s' = lf_log s @ es" "\<And>e. e \<in> set es \<Longrightarrow> entry_ok (lf_hist s) (lf_moves s) e"
  shows "lin_ok n s'"
proof -
  obtain ps where ps: "list_ok s ps" using inv by (auto simp: lin_ok_def)
  have hist: "hist_ok s" using inv by (simp add: lin_ok_def)
  note frame = local_step_frame [OF st]
  have own: "own (lf_threads s' u) = own (lf_threads s u)" for u using st by (auto simp: local_step_def)
  have key: "own (lf_threads s u) a \<Longrightarrow> th_key (lf_threads s' u) = th_key (lf_threads s u)" for u a
    using st by (auto simp: local_step_def)
  have "list_ok s' ps" using ps st by (simp add: list_ok_def frame local_step_def)
  moreover have "alloc_ok s'" using inv st key unfolding alloc_ok_def lin_ok_def own frame by (simp add: local_step_def)
  moreover have "hist_ok s'" using hist by (simp add: hist_ok_def frame local_step_content [OF st])
  moreover have "log_ok s'"
    using log_ok_evolves [OF local_step_evolves [OF st] _ hist log(1)] inv log(2) by (simp add: lin_ok_def frame)
  moreover have "thread_ok s' t l'" "made_ok s' t l'"
    using ok by (simp_all add: local_step_thread [OF st] made_ok_def frame)
  ultimately show ?thesis
    using lin_ok_step [OF inv local_step_evolves [OF st]] inv st by (simp add: frame lin_ok_def local_step_def)
qed

lemma local_refl: "local_step t (lf_threads s t) s s"
  by (simp add: local_step_def)

lemma local_upd:
  assumes "local_step t l s0 s" "own (f l) = own l" "th_key (f l) = th_key l"
  shows "local_step t (f l) s0 (upd_thread t f s)"
  using assms by (simp add: local_step_def upd_thread_def)

lemma local_write_hp: "local_step t l s0 s \<Longrightarrow> local_step t l s0 (write_hp u j p s)"
  by (simp add: local_step_def write_hp_def set_hp_def)

lemma local_set_retired: "local_step t l s0 s \<Longrightarrow> local_step t l s0 (set_retired u R s)"
  by (simp add: local_step_def set_retired_def)

lemma local_log: "local_step t l s0 s \<Longrightarrow> local_step t l s0 (s\<lparr>lf_log := es\<rparr>)"
  by (simp add: local_step_def)

lemma log_simps [simp]:
  "lf_log (upd_thread t f s) = lf_log s" "lf_log (write_hp t j p s) = lf_log s" "lf_log (set_retired t R s) = lf_log s"
  by (simp_all add: upd_thread_def write_hp_def set_retired_def)

text \<open>Inside \<open>lookupInternal\<close>: the points at which the call may still return any result.\<close>

definition searching :: "lf_pc \<Rightarrow> bool" where
  "searching p \<longleftrightarrow> p \<notin> {PIdle, RUnlink, RRetire}"

lemma own_pc: "searching (th_pc l) \<Longrightarrow> p \<noteq> PIdle \<Longrightarrow> own (l\<lparr>th_pc := p\<rparr>) = own l"
  by (auto simp: own_def searching_def)

lemma made_searching:
  "made_ok s t l \<Longrightarrow> searching (th_pc l) \<Longrightarrow> searching (th_pc l') \<Longrightarrow> th_why l' = th_why l \<Longrightarrow> th_key l' = th_key l \<Longrightarrow> made_ok s t l'"
  by (auto simp: made_ok_def moved_def searching_def)

lemma respond_lin:
  assumes "lin_ok n s0" "local_step t l s0 s" "lf_log s = lf_log s0" "th_why l \<noteq> ForInsert"
    and "entry_ok (lf_hist s0) (lf_moves s0) (t, call_of l, r, lf_begun s0 t, length (lf_hist s0) - 1)"
  shows "lin_ok n (respond t r s)"
proof (rule local_step_lin [OF assms(1)])
  show "local_step t (l\<lparr>th_pc := PIdle\<rparr>) s0 (respond t r s)"
    unfolding respond_def using assms(4) by (intro local_upd [where f = "\<lambda>l. l\<lparr>th_pc := PIdle\<rparr>"] local_log assms(2)) (auto simp: own_def)
  show "thread_ok s0 t (l\<lparr>th_pc := PIdle\<rparr>)" by (simp add: thread_ok_def Let_def)
  show "made_ok s0 t (l\<lparr>th_pc := PIdle\<rparr>)" by (simp add: made_ok_def)
  show "lf_log (respond t r s) = lf_log s0 @ [(t, call_of l, r, lf_begun s0 t, length (lf_hist s0) - 1)]"
    using assms(3) by (simp add: respond_def local_step_frame [OF assms(2)])
qed (use assms(5) in simp)

lemma goto_lin:
  assumes "lin_ok n s0" "local_step t l s0 s" "lf_log s = lf_log s0" "own (f l) = own l" "th_key (f l) = th_key l"
    and "thread_ok s0 t (f l)" "made_ok s0 t (f l)"
  shows "lin_ok n (upd_thread t f s)"
  using local_step_lin [OF assms(1) local_upd [where f = f, OF assms(2,4,5)] assms(6,7), of "[]"] assms(3) by simp

lemma goto_pc_lin:
  assumes "lin_ok n s0" "local_step t l s0 s" "lf_log s = lf_log s0" "made_ok s0 t l"
    and "searching (th_pc l)" "searching p" "thread_ok s0 t (l\<lparr>th_pc := p\<rparr>)"
  shows "lin_ok n (goto_pc t p s)"
proof (rule goto_lin [OF assms(1-3), where f = "\<lambda>l. l\<lparr>th_pc := p\<rparr>"])
  show "own (l\<lparr>th_pc := p\<rparr>) = own l" using assms(5,6) by (auto simp: own_def searching_def)
  show "made_ok s0 t (l\<lparr>th_pc := p\<rparr>)" using assms(6) by (intro made_searching [OF assms(4,5)]) auto
qed (use assms(7) in simp_all)

lemma lookup_return_lin:
  assumes inv: "lin_ok n s0" and st: "local_step t l s0 s" and log: "lf_log s = lf_log s0"
    and pc: "searching (th_pc l)" and made: "made_ok s0 t l" and seen: "seen s0 t (th_key l) found"
    and ins: "\<not> found \<Longrightarrow> prev_ok s0 (th_prev l) (th_key l) \<and> even (th_cur l) \<and>
      (th_cur l = 0 \<or> shared s0 (th_cur l) \<and> th_key l < nkey (heap_of s0) (th_cur l))"
    and rem: "found \<Longrightarrow> prev_ok s0 (th_prev l) (th_key l) \<and> even (th_cur l) \<and> shared s0 (th_cur l) \<and>
      nkey (heap_of s0) (th_cur l) = th_key l \<and> even (th_next l)"
  shows "lin_ok n (lookup_return t found s)"
proof -
  have l: "lf_threads s t = l" by (rule local_step_frame(6) [OF st])
  have hist: "hist_ok s0" using inv by (simp add: lin_ok_def)
  have begun: "lf_begun s0 t \<le> length (lf_moves s0)" and moves: "moves_since t (lf_begun s0 t) (lf_moves s0) =
      (if th_why l = ForHelp then [(t, RemCall (th_key l))] else [])"
    using made pc by (auto simp: made_ok_def searching_def moved_def)
  show ?thesis
  proof (cases "th_why l")
    case ForInsert
    then have "lin_ok n (goto_pc t (if found then IDelete else IStore) s)"
      using ins seen by (intro goto_pc_lin [OF inv st log made pc]) (auto simp: searching_def thread_ok_def Let_def)
    then show ?thesis by (simp add: lookup_return_def l ForInsert)
  next
    case ForRemove
    show ?thesis
    proof (cases found)
      case True
      then have "lin_ok n (goto_pc t RMark s)"
        using rem ForRemove by (intro goto_pc_lin [OF inv st log made pc]) (auto simp: searching_def thread_ok_def Let_def)
      then show ?thesis by (simp add: lookup_return_def l ForRemove True)
    next
      case False
      have "entry_ok (lf_hist s0) (lf_moves s0) (t, call_of l, False, lf_begun s0 t, length (lf_hist s0) - 1)"
        using entry_seen [OF hist begun _ seen] moves False by (simp add: ForRemove call_of_def legal_answer_def)
      then show ?thesis using respond_lin [OF inv st log, of False] by (simp add: lookup_return_def l ForRemove False)
    qed
  next
    case ForHelp
    have "entry_ok (lf_hist s0) (lf_moves s0) (t, call_of l, True, lf_begun s0 t, length (lf_hist s0) - 1)"
      using entry_moved [OF hist begun] moves by (simp add: ForHelp call_of_def)
    then show ?thesis using respond_lin [OF inv st log, of True] by (simp add: lookup_return_def l ForHelp)
  next
    case ForLookup
    have "entry_ok (lf_hist s0) (lf_moves s0) (t, call_of l, found, lf_begun s0 t, length (lf_hist s0) - 1)"
      using entry_seen [OF hist begun _ seen] moves by (simp add: ForLookup call_of_def legal_answer_def)
    then show ?thesis using respond_lin [OF inv st log, of found] by (simp add: lookup_return_def l ForLookup)
  qed
qed

lemma loop_head_lin:
  assumes inv: "lin_ok n s0" and st: "local_step t l s0 s" and log: "lf_log s = lf_log s0"
    and pc: "searching (th_pc l)" and made: "made_ok s0 t l"
    and ok: "prev_ok s0 (th_prev l) (th_key l)" "even cur" "cur = 0 \<Longrightarrow> seen s0 t (th_key l) False"
  shows "lin_ok n (loop_head t cur s)"
proof -
  let ?f = "\<lambda>l. l\<lparr>th_cur := cur, th_pc := LSetHp\<rparr>"
  have own: "own (?f l) = own l" using pc by (auto simp: own_def searching_def)
  have st': "local_step t (?f l) s0 (upd_thread t ?f s)" by (rule local_upd [where f = ?f, OF st own]) simp
  have made': "made_ok s0 t (?f l)" by (rule made_searching [OF made pc]) (auto simp: searching_def)
  show ?thesis
  proof (cases "cur = 0")
    case True
    have "lin_ok n (lookup_return t False (upd_thread t ?f s))"
      using ok True made' by (intro lookup_return_lin [OF inv st']) (auto simp: log searching_def)
    then show ?thesis using True by (simp add: loop_head_def)
  next
    case False
    then show ?thesis unfolding loop_head_def Let_def
      using goto_lin [where f = ?f, OF inv st log own] ok made' by (simp add: thread_ok_def Let_def)
  qed
qed

end
