(* ===== verification/Lf_Linearizable.thy ===== *)
theory Lf_Linearizable
  imports Lf_Invariant
begin

text \<open>
  Every step of the interleaved lock-free list keeps the invariant, so the list is linearizable for as long as
  no thread has more than \<open>MAX_RETIRED_NODES_PER_THREAD\<close> retired nodes, that is, as long as no node is reclaimed: every
  call takes effect at one moment between its invocation and its return.
\<close>

section \<open>Each step\<close>

lemma lin_okD:
  assumes "lin_ok n s"
  shows "\<not> lf_crashed s" "length (retired_lists (lf_hps (lf_mem s))) = n" "alloc_ok s" "hist_ok s" "log_ok s"
    "thread_ok s t (lf_threads s t)" "made_ok s t (lf_threads s t)"
  using assms by (auto simp: lin_ok_def)

lemma lin_ok_list:
  assumes "lin_ok n s" obtains ps where "list_ok s ps"
  using assms by (auto simp: lin_ok_def)

lemmas lf_step_at = lf_step_def Let_def

lemma made_begun: "made_ok s t l \<Longrightarrow> th_pc l \<noteq> PIdle \<Longrightarrow> lf_begun s t \<le> length (lf_moves s)"
  by (simp add: made_ok_def)

lemma lin_LStart:
  assumes inv: "lin_ok n s" and pc: "th_pc (lf_threads s t) = LStart"
  shows "lin_ok n (lf_step t s)"
proof -
  let ?l = "lf_threads s t" and ?f = "\<lambda>l. l\<lparr>th_prev := HeadCell\<rparr>"
  obtain ps where ps: "list_ok s ps" using inv by (rule lin_ok_list)
  note hd = chain_first [OF list_okD(1) [OF ps]] chain_even [OF list_okD(1) [OF ps]]
  have st: "local_step t (?f ?l) s (upd_thread t ?f s)" by (rule local_upd [where f = ?f, OF local_refl]) (auto simp: own_def)
  have "seen s t (th_key ?l) False" if "lf_head (lf_mem s) = 0"
  proof (rule seen_now [OF lin_okD(4) [OF inv] made_begun [OF lin_okD(7) [OF inv]]])
    have "ps = []" using list_okD(1) [OF ps] that by (cases ps) auto
    then show "(th_key ?l \<in> lf_content (lf_mem s)) = False" by (simp add: lf_content_eq [OF ps])
  qed (simp add: pc)
  then have "lin_ok n (loop_head t (lf_head (lf_mem s)) (upd_thread t ?f s))"
    using hd(2) made_searching [OF lin_okD(7) [OF inv]]
    by (intro loop_head_lin [OF inv st]) (auto simp: pc searching_def prev_ok_def)
  then show ?thesis by (simp add: lf_step_at pc)
qed

lemma lin_LSetHp:
  assumes inv: "lin_ok n s" and pc: "th_pc (lf_threads s t) = LSetHp"
  shows "lin_ok n (lf_step t s)"
proof -
  have "lin_ok n (goto_pc t LCheck (write_hp t 0 (th_cur (lf_threads s t)) s))"
    using lin_okD(6) [OF inv, of t]
    by (intro goto_pc_lin [OF inv local_write_hp [OF local_refl] _ lin_okD(7) [OF inv]])
      (auto simp: pc searching_def thread_ok_def Let_def)
  then show ?thesis by (simp add: lf_step_at pc)
qed

text \<open>Going back to \<open>try_again\<close>.\<close>

lemma lin_again:
  "lin_ok n s \<Longrightarrow> searching (th_pc (lf_threads s t)) \<Longrightarrow> lin_ok n (goto_pc t LStart s)"
  by (rule goto_pc_lin [OF _ local_refl _ lin_okD(7)]) (auto simp: searching_def thread_ok_def Let_def)

lemma lin_LCheck:
  assumes inv: "lin_ok n s" and pc: "th_pc (lf_threads s t) = LCheck"
  shows "lin_ok n (lf_step t s)"
proof -
  let ?l = "lf_threads s t"
  have ok: "prev_ok s (th_prev ?l) (th_key ?l)" "th_cur ?l \<noteq> 0" "even (th_cur ?l)"
    using lin_okD(6) [OF inv, of t] by (auto simp: thread_ok_def Let_def pc)
  obtain v where v: "read_cell (th_prev ?l) (lf_mem s) = Some v" using read_prev [OF ok(1)] by blast
  obtain ps where ps: "list_ok s ps" using inv by (rule lin_ok_list)
  show ?thesis
  proof (cases "v = th_cur ?l")
    case True
    obtain xs ys where "ps = xs @ ys" "v = first_node ys" using adjacent [OF ps ok(1) v] ok(3) True by metis
    then have "v \<in> set ps" using ok(2) True by (cases ys) auto
    then have "shared s (th_cur ?l)" using list_okD(3) [OF ps] True by simp
    then have "lin_ok n (goto_pc t LNext s)"
      using ok by (intro goto_pc_lin [OF inv local_refl _ lin_okD(7) [OF inv]]) (auto simp: pc searching_def thread_ok_def Let_def)
    then show ?thesis by (simp add: lf_step_at pc v True)
  next
    case False
    then show ?thesis using lin_again [OF inv, of t] by (simp add: lf_step_at pc v searching_def)
  qed
qed

lemma shared_node: "shared s a \<Longrightarrow> \<exists>x. heap_of s a = Some x"
  by (auto simp: shared_def)

text \<open>An unmarked node is in the set; with no successor, it is the greatest.\<close>

lemma unmarked_content:
  "list_ok s ps \<Longrightarrow> shared s a \<Longrightarrow> even (nnext (heap_of s) a) \<Longrightarrow> nkey (heap_of s) a \<in> lf_content (lf_mem s)"
  by (simp add: lf_content_eq list_okD(4))

lemma last_content:
  assumes ok: "list_ok s ps" and a: "shared s a" "nnext (heap_of s) a = 0" "nkey (heap_of s) a < k"
  shows "k \<notin> lf_content (lf_mem s)"
proof -
  have p: "prev_ok s (NextOf a) k" using a by (simp add: prev_ok_def)
  have r: "read_cell (NextOf a) (lf_mem s) = Some 0" using a shared_node [OF a(1)] by (auto simp: nnext_def)
  obtain xs ys where "ps = xs @ ys" "0 = first_node ys" "\<And>b. b \<in> set xs \<Longrightarrow> nkey (heap_of s) b < k"
    using adjacent [OF ok p r even_zero] by metis
  moreover from this have "ys = []" using chain_even_nodes [OF list_okD(1) [OF ok]] by (cases ys) auto
  ultimately show ?thesis using absent_after [of s xs ys] ok by simp
qed

lemma lin_LNext:
  assumes inv: "lin_ok n s" and pc: "th_pc (lf_threads s t) = LNext"
  shows "lin_ok n (lf_step t s)"
proof -
  let ?l = "lf_threads s t"
  have ok: "prev_ok s (th_prev ?l) (th_key ?l)" "even (th_cur ?l)" "shared s (th_cur ?l)"
    using lin_okD(6) [OF inv, of t] by (auto simp: thread_ok_def Let_def pc)
  obtain x where x: "heap_of s (th_cur ?l) = Some x" using shared_node [OF ok(3)] by blast
  obtain ps where ps: "list_ok s ps" using inv by (rule lin_ok_list)
  let ?f = "\<lambda>l. l\<lparr>th_next := lf_next x, th_pc := (if mp_isMarked (lf_next x) then LUnlink else LKey)\<rparr>"
  have now: "seen s t (th_key ?l) b" if "th_key ?l \<in> lf_content (lf_mem s) \<longleftrightarrow> b" for b
    using seen_now [OF lin_okD(4) [OF inv] made_begun [OF lin_okD(7) [OF inv]] that] pc by simp
  have "seen s t (th_key ?l) True" if "even (lf_next x)" "nkey (heap_of s) (th_cur ?l) = th_key ?l"
    using unmarked_content [OF ps ok(3)] that x now by (simp add: nnext_def)
  moreover have "seen s t (th_key ?l) False" if "lf_next x = 0" "nkey (heap_of s) (th_cur ?l) < th_key ?l"
    using last_content [OF ps ok(3) _ that(2)] that x now by (simp add: nnext_def)
  ultimately have "thread_ok s t (?f ?l)" using ok x by (auto simp: thread_ok_def Let_def nnext_def)
  then have "lin_ok n (upd_thread t ?f s)"
    by (intro goto_lin [OF inv local_refl] made_searching [OF lin_okD(7) [OF inv]]) (auto simp: pc own_def searching_def)
  then show ?thesis by (simp add: lf_step_at pc x)
qed

lemma lin_LKey:
  assumes inv: "lin_ok n s" and pc: "th_pc (lf_threads s t) = LKey"
  shows "lin_ok n (lf_step t s)"
proof -
  let ?l = "lf_threads s t"
  obtain x where x: "heap_of s (th_cur ?l) = Some x"
    using lin_okD(6) [OF inv, of t] shared_node [of s "th_cur ?l"] by (auto simp: thread_ok_def Let_def pc)
  let ?f = "\<lambda>l. l\<lparr>th_cur_key := lf_data x, th_pc := LRecheck\<rparr>"
  have "thread_ok s t (?f ?l)" using lin_okD(6) [OF inv, of t] x by (auto simp: thread_ok_def Let_def pc nkey_def)
  then have "lin_ok n (upd_thread t ?f s)"
    by (intro goto_lin [OF inv local_refl] made_searching [OF lin_okD(7) [OF inv]]) (auto simp: pc own_def searching_def)
  then show ?thesis by (simp add: lf_step_at pc x)
qed

lemma lin_LRecheck:
  assumes inv: "lin_ok n s" and pc: "th_pc (lf_threads s t) = LRecheck"
  shows "lin_ok n (lf_step t s)"
proof -
  let ?l = "lf_threads s t"
  let ?k = "th_key ?l" and ?ck = "nkey (heap_of s) (th_cur ?l)"
  have ok: "prev_ok s (th_prev ?l) ?k" "even (th_cur ?l)" "shared s (th_cur ?l)" "even (th_next ?l)" "th_cur_key ?l = ?ck"
    "?ck = ?k \<Longrightarrow> seen s t ?k True" "?ck < ?k \<Longrightarrow> th_next ?l = 0 \<Longrightarrow> seen s t ?k False"
    using lin_okD(6) [OF inv, of t] by (auto simp: thread_ok_def Let_def pc)
  obtain v where v: "read_cell (th_prev ?l) (lf_mem s) = Some v" using read_prev [OF ok(1)] by blast
  obtain ps where ps: "list_ok s ps" using inv by (rule lin_ok_list)
  consider "v \<noteq> th_cur ?l" | "v = th_cur ?l" "?ck \<ge> ?k" | "v = th_cur ?l" "?ck < ?k" by force
  then show ?thesis
  proof cases
    case 1
    then show ?thesis using lin_again [OF inv, of t] by (simp add: lf_step_at pc v searching_def)
  next
    case 2
    have "seen s t ?k False" if "?k < ?ck"
    proof (rule seen_now [OF lin_okD(4) [OF inv] made_begun [OF lin_okD(7) [OF inv]]])
      obtain xs ys where "ps = xs @ ys" "v = first_node ys" "\<And>b. b \<in> set xs \<Longrightarrow> nkey (heap_of s) b < ?k"
        using adjacent [OF ps ok(1) v] ok(2) 2(1) by metis
      then show "(?k \<in> lf_content (lf_mem s)) = False"
        using absent_after [of s xs ys ?k] ps 2(1) that by (cases ys) auto
    qed (simp add: pc)
    then have "seen s t ?k (?ck = ?k)" using ok(6) 2(2) by (cases "?ck = ?k") auto
    then have "lin_ok n (lookup_return t (th_cur_key ?l = ?k) s)"
      using ok 2 by (intro lookup_return_lin [OF inv local_refl _ _ lin_okD(7) [OF inv]]) (auto simp: pc searching_def)
    then show ?thesis using 2 ok(5) by (simp add: lf_step_at pc v)
  next
    case 3
    then have "lin_ok n (goto_pc t LSwap0 s)"
      using ok by (intro goto_pc_lin [OF inv local_refl _ lin_okD(7) [OF inv]]) (auto simp: pc searching_def thread_ok_def Let_def)
    then show ?thesis using 3 ok(5) by (auto simp: lf_step_at pc v)
  qed
qed

lemma write_hp_upd: "write_hp t j p (upd_thread u f s) = upd_thread u f (write_hp t j p s)"
  by (simp add: write_hp_def upd_thread_def)

lemma lin_LSwap0:
  assumes inv: "lin_ok n s" and pc: "th_pc (lf_threads s t) = LSwap0"
  shows "lin_ok n (lf_step t s)"
proof -
  let ?l = "lf_threads s t" and ?hp = "getHPRec t (lf_hps (lf_mem s))"
  let ?f = "\<lambda>l. l\<lparr>th_prev := NextOf (th_cur l), th_temp := ?hp ! 0, th_pc := LSwap1\<rparr>"
  have "thread_ok s t (?f ?l)" using lin_okD(6) [OF inv, of t] by (auto simp: thread_ok_def Let_def pc prev_ok_def)
  then have "lin_ok n (upd_thread t ?f (write_hp t 0 (?hp ! 1) s))"
    by (intro goto_lin [OF inv local_write_hp [OF local_refl]] made_searching [OF lin_okD(7) [OF inv]])
      (auto simp: pc own_def searching_def)
  then show ?thesis by (simp add: lf_step_at pc write_hp_upd)
qed

lemma lin_LSwap1:
  assumes inv: "lin_ok n s" and pc: "th_pc (lf_threads s t) = LSwap1"
  shows "lin_ok n (lf_step t s)"
proof -
  have "lin_ok n (loop_head t (th_next (lf_threads s t)) (write_hp t 1 (th_temp (lf_threads s t)) s))"
    using lin_okD(6) [OF inv, of t]
    by (intro loop_head_lin [OF inv local_write_hp [OF local_refl] _ _ lin_okD(7) [OF inv]])
      (auto simp: pc searching_def thread_ok_def Let_def)
  then show ?thesis by (simp add: lf_step_at pc)
qed

text \<open>Retiring a node, when the list of the thread does not become too long.\<close>

lemma retired_set [simp]:
  "t < length (retired_lists (lf_hps (lf_mem s))) \<Longrightarrow> retired t (set_retired t R s) = R"
  by (simp add: retired_def set_retired_def)

lemma retired_frame [simp]:
  "retired u (upd_thread t f s) = retired u s" "retired u (s\<lparr>lf_log := es\<rparr>) = retired u s"
  by (simp_all add: retired_def upd_thread_def)

lemma retire_step_small:
  assumes "t < length (retired_lists (lf_hps (lf_mem s)))" "card (retired t (retire_step t b s)) \<le> MAX_RETIRED_NODES_PER_THREAD"
  shows "\<exists>R. retire_step t b s = after_retire t b (set_retired t R s)"
  using assms by (auto simp: retire_step_def Let_def split: if_splits)

lemma lin_retire:
  assumes inv: "lin_ok n s" and t: "t < n" and pc: "th_pc (lf_threads s t) \<in> {LRetire, RRetire}"
    and small: "card (retired t (lf_step t s)) \<le> MAX_RETIRED_NODES_PER_THREAD"
  shows "lin_ok n (lf_step t s)"
proof -
  let ?l = "lf_threads s t" and ?b = "th_pc (lf_threads s t) = LRetire"
  have step: "lf_step t s = retire_step t ?b s" using pc by (auto simp: lf_step_at)
  obtain R where R: "lf_step t s = after_retire t ?b (set_retired t R s)"
    using retire_step_small [of t s ?b] small t lin_okD(2) [OF inv] unfolding step by auto
  have l: "lf_threads (set_retired t R s) t = ?l" by (simp add: set_retired_def)
  note st = local_set_retired [OF local_refl, of t s t R]
  show ?thesis
  proof (cases ?b)
    case True
    then have "lin_ok n (loop_head t (mp_unmark (th_next ?l)) (set_retired t R s))"
      using lin_okD(6) [OF inv, of t]
      by (intro loop_head_lin [OF inv st _ _ lin_okD(7) [OF inv]]) (auto simp: searching_def thread_ok_def Let_def)
    then show ?thesis using True R by (simp add: after_retire_def l)
  next
    case False
    then have pc': "th_pc ?l = RRetire" using pc by simp
    then have why: "th_why ?l = ForRemove" using lin_okD(6) [OF inv, of t] by (simp add: thread_ok_def Let_def)
    have "entry_ok (lf_hist s) (lf_moves s) (t, call_of ?l, True, lf_begun s t, length (lf_hist s) - 1)"
      using lin_okD(7) [OF inv, of t] pc' why by (intro entry_moved [OF lin_okD(4) [OF inv]]) (auto simp: made_ok_def moved_def call_of_def)
    then show ?thesis using respond_lin [OF inv st] False R why by (simp add: after_retire_def)
  qed
qed

section \<open>Steps that write a link\<close>

lemma write_cell_frame:
  assumes "write_cell c q m = Some m'" "c \<noteq> StartCell"
  shows "nkey (lf_heap m') = nkey (lf_heap m)" "lf_heap m' a = None \<longleftrightarrow> lf_heap m a = None"
    "nnext (lf_heap m') a = (if c = NextOf a then q else nnext (lf_heap m) a)"
    "c \<noteq> NextOf a \<Longrightarrow> lf_heap m' a = lf_heap m a"
    "lf_brk m' = lf_brk m" "lf_hps m' = lf_hps m"
proof -
  have d: "c = HeadCell \<and> m' = m\<lparr>lf_head := q\<rparr> \<or>
      (\<exists>b x. c = NextOf b \<and> lf_heap m b = Some x \<and> m' = m\<lparr>lf_heap := (lf_heap m)(b \<mapsto> x\<lparr>lf_next := q\<rparr>)\<rparr>)"
    using assms by (cases c) auto
  show "nkey (lf_heap m') = nkey (lf_heap m)" using d by (auto simp: nkey_def fun_eq_iff)
  show "nnext (lf_heap m') a = (if c = NextOf a then q else nnext (lf_heap m) a)" using d by (auto simp: nnext_def split: if_splits)
  show "lf_heap m' a = None \<longleftrightarrow> lf_heap m a = None" "c \<noteq> NextOf a \<Longrightarrow> lf_heap m' a = lf_heap m a"
    using d by (auto split: if_splits)
  show "lf_brk m' = lf_brk m" "lf_hps m' = lf_hps m" using d by auto
qed

lemma write_cell_some: "read_cell c m = Some v \<Longrightarrow> \<exists>m'. write_cell c q m = Some m'"
  by (cases c) auto

lemma cas_step_eq:
  assumes "read_cell c (lf_mem s) = Some v"
  shows "cas_step c old new ok ko s =
    (if v = old then ok (set_mem (the (write_cell c new (lf_mem s))) s) else ko s)"
  using assms write_cell_some [OF assms, of new] by (auto simp: cas_step_def cas_cell_def)

lemma prev_ok_cell: "prev_ok s c k \<Longrightarrow> c \<noteq> StartCell"
  by (auto simp: prev_ok_def)

lemma cell_after_node: "cell_after xs = NextOf a \<Longrightarrow> a \<in> set xs"
  by (cases xs rule: rev_cases) auto

text \<open>The state after a write of thread \<open>t\<close>, whose own node stays its own.\<close>

definition wrote :: "nat \<Rightarrow> cell_ref \<Rightarrow> nat \<Rightarrow> ('k, 'v) lf_system \<Rightarrow> ('k, 'v) lf_system \<Rightarrow> bool" where
  "wrote t c q s s' \<longleftrightarrow> write_cell c q (lf_mem s) = Some (lf_mem s') \<and> c \<noteq> StartCell \<and>
     (\<forall>u. u \<noteq> t \<longrightarrow> lf_threads s' u = lf_threads s u) \<and> lf_crashed s' = lf_crashed s \<and> lf_begun s' = lf_begun s"

lemma wrote_frame:
  assumes "wrote t c q s s'"
  shows "nkey (heap_of s') = nkey (heap_of s)" "heap_of s' a = None \<longleftrightarrow> heap_of s a = None"
    "nnext (heap_of s') a = (if c = NextOf a then q else nnext (heap_of s) a)"
    "c \<noteq> NextOf a \<Longrightarrow> heap_of s' a = heap_of s a"
    "lf_brk (lf_mem s') = lf_brk (lf_mem s)" "lf_hps (lf_mem s') = lf_hps (lf_mem s)"
  using write_cell_frame [of c q "lf_mem s" "lf_mem s'"] assms by (auto simp: wrote_def)

lemma wrote_shared:
  assumes "wrote t c q s s'" "own (lf_threads s' t) = own (lf_threads s t)"
  shows "shared s' = shared s"
proof -
  have "own (lf_threads s' u) = own (lf_threads s u)" for u using assms by (cases "u = t") (auto simp: wrote_def)
  then show ?thesis using wrote_frame(2) [OF assms(1)] by (auto simp: shared_def fun_eq_iff)
qed

lemma wrote_evolves:
  assumes w: "wrote t c q s s'" and sh: "\<And>a. shared s a \<Longrightarrow> shared s' a" and inv: "alloc_ok s"
    and c: "c = HeadCell \<or> (\<exists>a. c = NextOf a \<and> (shared s a \<and> even (nnext (heap_of s) a) \<or> own (lf_threads s t) a))"
    and hist: "lf_hist s' = lf_hist s @ hs" "lf_moves s' = lf_moves s @ ms" "\<forall>m \<in> set ms. fst m = t"
  shows "evolves t s s'"
proof -
  have "nnext (heap_of s') a = nnext (heap_of s) a" if "shared s a" "odd (nnext (heap_of s) a)" for a
    using c that by (auto simp: wrote_frame(3) [OF w] shared_def)
  moreover have "heap_of s' a = heap_of s a" if "u \<noteq> t" "own (lf_threads s u) a" for u a
  proof (rule wrote_frame(4) [OF w])
    show "c \<noteq> NextOf a" using c that inv by (auto simp: shared_def alloc_ok_def)
  qed
  ultimately show ?thesis using w sh hist unfolding evolves_def wrote_frame(1) [OF w] by (auto simp: wrote_def)
qed

lemma wrote_alloc:
  assumes w: "wrote t c q s s'" and inv: "alloc_ok s"
    and own: "\<And>a. own (lf_threads s' t) a \<Longrightarrow> own (lf_threads s t) a \<and> th_key (lf_threads s' t) = th_key (lf_threads s t)"
  shows "alloc_ok s'"
proof -
  have "own (lf_threads s' u) a \<Longrightarrow> own (lf_threads s u) a \<and> th_key (lf_threads s' u) = th_key (lf_threads s u)" for u a
    using own w by (cases "u = t") (auto simp: wrote_def)
  then show ?thesis using inv unfolding alloc_ok_def wrote_frame(1,2,5) [OF w] by metis
qed

text \<open>Unlinking a marked node.\<close>

lemma unlink_list:
  assumes ok: "list_ok s (xs @ a # zs)" and a: "odd (nnext (heap_of s) a)" "q = mp_unmark (nnext (heap_of s) a)"
    and w: "wrote t (cell_after xs) q s s'" and r: "read_cell (cell_after xs) (lf_mem s) = Some a"
    and own: "own (lf_threads s' t) = own (lf_threads s t)"
  shows "list_ok s' (xs @ zs) \<and> lf_content (lf_mem s') = lf_content (lf_mem s)"
proof -
  note d = list_ok_distinct [OF ok] and sh = wrote_shared [OF w own] and fr = wrote_frame [OF w]
  have zs: "chain (heap_of s) q zs 0" and q: "even q"
    using list_okD(1) [OF ok] a by (auto simp: chain_append simp del: mp_unmark_nat) (simp add: mp_nat)
  have ch: "chain (heap_of s') (lf_head (lf_mem s')) (xs @ zs) 0"
  proof (rule chain_relink [OF list_okD(1) [OF ok] d _ q zs])
    show "write_cell (cell_after xs) q (lf_mem s) = Some (lf_mem s')" using w by (simp add: wrote_def)
    show "last xs \<notin> set zs \<or> xs = []" using d by (cases xs rule: rev_cases) auto
  qed
  have even_a: "even a" using chain_even_nodes [OF list_okD(1) [OF ok]] by simp
  have par: "even (nnext (heap_of s') b) = even (nnext (heap_of s) b)" for b
  proof (cases "cell_after xs = NextOf b")
    case True
    then have "nnext (heap_of s) b = a" using r by (auto simp: nnext_def)
    then show ?thesis using True q even_a by (simp add: fr(3))
  qed (simp add: fr(3))
  have "sorted_wrt (<) (map (nkey (heap_of s')) (xs @ zs))"
    using list_okD(2) [OF ok] by (simp add: fr sorted_wrt_append)
  moreover have "b \<in> set (xs @ zs)" if "shared s b" "even (nnext (heap_of s) b)" for b
    using list_okD(4) [OF ok that] a(1) that(2) by auto
  ultimately have new: "list_ok s' (xs @ zs)"
    using ch list_okD(3) [OF ok] par unfolding list_ok_def sh by auto
  moreover have "lf_content (lf_mem s') = lf_content (lf_mem s)"
    unfolding lf_content_eq [OF ok] lf_content_eq [OF new] par fr(1) using a(1) by (intro arg_cong2 [of _ _ _ _ "(`)"]) auto
  ultimately show ?thesis by blast
qed

lemma unlink_lin:
  assumes inv: "lin_ok n s" and p: "prev_ok s c k" and a: "shared s a" "even a" "odd (nnext (heap_of s) a)" "q = mp_unmark (nnext (heap_of s) a)"
    and r: "read_cell c (lf_mem s) = Some a" and w: "wrote t c q s s'" and hist: "lf_hist s' = lf_hist s" "lf_moves s' = lf_moves s" "lf_log s' = lf_log s"
    and own: "own (lf_threads s' t) = own (lf_threads s t)" "th_key (lf_threads s' t) = th_key (lf_threads s t)"
    and made: "made_ok s t (lf_threads s' t)"
    and th: "prev_ok s' c k \<Longrightarrow> (q = 0 \<Longrightarrow> k \<notin> lf_content (lf_mem s')) \<Longrightarrow> hist_ok s' \<Longrightarrow> thread_ok s' t (lf_threads s' t)"
  shows "lin_ok n s'"
proof -
  obtain ps where ps: "list_ok s ps" using inv by (rule lin_ok_list)
  obtain xs ys where xs: "ps = xs @ ys" "c = cell_after xs" "a = first_node ys" "\<And>b. b \<in> set xs \<Longrightarrow> nkey (heap_of s) b < k"
    using adjacent [OF ps p r a(2)] by metis
  have "a \<noteq> 0" using lin_okD(3) [OF inv] a(1) by (metis alloc_ok_def shared_def)
  then obtain zs where zs: "ys = a # zs" using xs(3) by (cases ys) auto
  have new: "list_ok s' (xs @ zs)" "lf_content (lf_mem s') = lf_content (lf_mem s)"
    using unlink_list [of s xs a zs q t s'] ps a w r own(1) by (auto simp: xs(1,2) zs simp del: mp_unmark_nat)
  have q: "q = first_node zs"
    using list_okD(1) [OF ps] chain_first [of "heap_of s" q zs] a(4) by (simp add: xs(1) zs chain_append del: mp_unmark_nat)
  have c: "c = HeadCell \<or> (\<exists>b. c = NextOf b \<and> (shared s b \<and> even (nnext (heap_of s) b) \<or> own (lf_threads s t) b))"
    using p r a(2) by (cases c) (auto simp: prev_ok_def nnext_def)
  have ev: "evolves t s s'"
    using wrote_shared [OF w own(1)] hist by (intro wrote_evolves [OF w _ lin_okD(3) [OF inv] c, of "[]" "[]"]) auto
  have h: "hist_ok s'" using lin_okD(4) [OF inv] by (simp add: hist_ok_def hist new(2))
  have "k \<notin> lf_content (lf_mem s')" if "q = 0"
  proof -
    have "zs = []" using that q chain_even_nodes [OF list_okD(1) [OF ps]] by (cases zs) (auto simp: xs(1) zs)
    then show ?thesis
      using absent_after [of s' xs zs k] new(1) xs(4) by (simp add: wrote_frame [OF w])
  qed
  then have "thread_ok s' t (lf_threads s' t)" using th evolves_prev [OF ev p] h by blast
  moreover have "made_ok s' t (lf_threads s' t)" using made w by (simp add: made_ok_def hist wrote_def)
  moreover have "alloc_ok s'" using wrote_alloc [OF w lin_okD(3) [OF inv]] own by simp
  moreover have "log_ok s'" using log_ok_evolves [OF ev lin_okD(5) [OF inv] lin_okD(4) [OF inv], of "[]"] hist by simp
  ultimately show ?thesis
    using lin_ok_step [OF inv ev _ _ _ new(1) h] lin_okD(1) [OF inv] lin_okD(2) [OF inv] w by (simp add: wrote_def wrote_frame(6) [OF w])
qed

text \<open>The state after the compare-and-swap of thread \<open>t\<close> on a cell that still has the expected value.\<close>

lemma wrote_upd:
  assumes "read_cell c (lf_mem s) = Some v" "c \<noteq> StartCell" "s' = upd_thread t f (set_mem (the (write_cell c q (lf_mem s))) s)"
  shows "wrote t c q s s'" "lf_threads s' t = f (lf_threads s t)" "lf_hist s' = lf_hist s" "lf_moves s' = lf_moves s"
    "lf_log s' = lf_log s" "lf_begun s' = lf_begun s"
  using assms write_cell_some [OF assms(1), of q] by (auto simp: wrote_def upd_thread_def)

lemma lin_LUnlink:
  assumes inv: "lin_ok n s" and pc: "th_pc (lf_threads s t) = LUnlink"
  shows "lin_ok n (lf_step t s)"
proof -
  let ?l = "lf_threads s t"
  let ?q = "mp_unmark (th_next ?l)"
  have ok: "prev_ok s (th_prev ?l) (th_key ?l)" "even (th_cur ?l)" "shared s (th_cur ?l)" "odd (th_next ?l)" "nnext (heap_of s) (th_cur ?l) = th_next ?l"
    using lin_okD(6) [OF inv, of t] by (auto simp: thread_ok_def Let_def pc)
  obtain v where v: "read_cell (th_prev ?l) (lf_mem s) = Some v" using read_prev [OF ok(1)] by blast
  show ?thesis
  proof (cases "v = th_cur ?l")
    case True
    define s' where "s' = upd_thread t (\<lambda>l. l\<lparr>th_pc := LRetire\<rparr>) (set_mem (the (write_cell (th_prev ?l) ?q (lf_mem s))) s)"
    note w = wrote_upd [OF v prev_ok_cell [OF ok(1)] s'_def]
    have "lin_ok n s'"
    proof (rule unlink_lin [OF inv ok(1,3,2) _ _ _ w(1,3,4,5)])
      show "made_ok s t (lf_threads s' t)" using made_searching [OF lin_okD(7) [OF inv]] by (simp add: w pc searching_def)
      show "thread_ok s' t (lf_threads s' t)" if p: "prev_ok s' (th_prev ?l) (th_key ?l)"
        and k: "?q = 0 \<Longrightarrow> th_key ?l \<notin> lf_content (lf_mem s')" and h: "hist_ok s'"
      proof -
        have "seen s' t (th_key ?l) False" if "?q = 0"
          using seen_now [OF h] k [OF that] made_begun [OF lin_okD(7) [OF inv]] by (simp add: w pc)
        then show ?thesis using p by (simp add: thread_ok_def Let_def w del: mp_unmark_nat)
      qed
    qed (use ok True v pc in \<open>auto simp: w own_def\<close>)
    then show ?thesis by (simp add: lf_step_at pc cas_step_eq [OF v] True s'_def del: mp_unmark_nat)
  next
    case False
    then show ?thesis using lin_again [OF inv, of t] by (simp add: lf_step_at pc cas_step_eq [OF v] searching_def)
  qed
qed

lemma lin_RUnlink:
  assumes inv: "lin_ok n s" and pc: "th_pc (lf_threads s t) = RUnlink"
  shows "lin_ok n (lf_step t s)"
proof -
  let ?l = "lf_threads s t"
  have ok: "prev_ok s (th_prev ?l) (th_key ?l)" "even (th_cur ?l)" "shared s (th_cur ?l)" "even (th_next ?l)"
    "nnext (heap_of s) (th_cur ?l) = Suc (th_next ?l)" "th_why ?l = ForRemove"
    using lin_okD(6) [OF inv, of t] by (auto simp: thread_ok_def Let_def pc)
  obtain v where v: "read_cell (th_prev ?l) (lf_mem s) = Some v" using read_prev [OF ok(1)] by blast
  have made: "made_ok s t (?l\<lparr>th_pc := RRetire\<rparr>)" "made_ok s t (?l\<lparr>th_why := ForHelp, th_pc := LStart\<rparr>)"
    using lin_okD(7) [OF inv, of t] by (auto simp: made_ok_def moved_def pc)
  show ?thesis
  proof (cases "v = th_cur ?l")
    case True
    define s' where "s' = upd_thread t (\<lambda>l. l\<lparr>th_pc := RRetire\<rparr>) (set_mem (the (write_cell (th_prev ?l) (th_next ?l) (lf_mem s))) s)"
    note w = wrote_upd [OF v prev_ok_cell [OF ok(1)] s'_def]
    have "lin_ok n s'"
      by (rule unlink_lin [OF inv ok(1,3,2) _ _ _ w(1,3,4,5)])
        (use ok True v pc made in \<open>auto simp: w own_def thread_ok_def Let_def\<close>)
    then show ?thesis by (simp add: lf_step_at pc cas_step_eq [OF v] True s'_def)
  next
    case False
    have "lin_ok n (upd_thread t (\<lambda>l. l\<lparr>th_why := ForHelp, th_pc := LStart\<rparr>) s)"
      using made ok(6) by (intro goto_lin [OF inv local_refl]) (auto simp: own_def pc thread_ok_def Let_def)
    then show ?thesis using False by (simp add: lf_step_at pc cas_step_eq [OF v])
  qed
qed

text \<open>Linking the new node.\<close>

lemma publish_list:
  assumes ok: "list_ok s (xs @ ys)" and b: "own (lf_threads s t) b" "nnext (heap_of s) b = first_node ys" and al: "alloc_ok s"
    and k: "k = th_key (lf_threads s t)" "\<And>a. a \<in> set xs \<Longrightarrow> nkey (heap_of s) a < k" "\<And>a. a \<in> set ys \<Longrightarrow> k < nkey (heap_of s) a"
    and w: "wrote t (cell_after xs) b s s'" and r: "read_cell (cell_after xs) (lf_mem s) = Some (first_node ys)"
    and own: "\<And>a. \<not> own (lf_threads s' t) a"
  shows "list_ok s' (xs @ b # ys) \<and> lf_content (lf_mem s') = insert k (lf_content (lf_mem s)) \<and> shared s' = (\<lambda>a. shared s a \<or> a = b)"
proof -
  note d = list_ok_distinct [OF ok] and fr = wrote_frame [OF w]
  have b': "heap_of s b \<noteq> None" "even b" "b \<noteq> 0" "nkey (heap_of s) b = k" using al b(1) k(1) by (auto simp: alloc_ok_def)
  have nb: "b \<notin> set (xs @ ys)" using list_okD(3) [OF ok] b(1) by (auto simp: shared_def)
  have sh: "shared s' = (\<lambda>a. shared s a \<or> a = b)"
  proof -
    have "own (lf_threads s' u) a \<longleftrightarrow> u \<noteq> t \<and> own (lf_threads s u) a" for u a
      using own w by (cases "u = t") (auto simp: wrote_def)
    then have "shared s' a \<longleftrightarrow> heap_of s a \<noteq> None \<and> (\<forall>u. u \<noteq> t \<longrightarrow> \<not> own (lf_threads s u) a)" for a
      by (auto simp: shared_def fr(2))
    moreover have "own (lf_threads s t) a \<longleftrightarrow> a = b" for a using b(1) by (auto simp: own_def)
    moreover have "\<not> own (lf_threads s u) b" if "u \<noteq> t" for u using al b(1) that by (auto simp: alloc_ok_def)
    ultimately have "shared s' a \<longleftrightarrow> shared s a \<or> a = b" for a
      using b'(1) unfolding shared_def by (cases "a = b") (simp, metis)
    then show ?thesis by blast
  qed
  have even_y: "even (first_node ys)" using chain_even_nodes [OF list_okD(1) [OF ok]] by (cases ys) auto
  have nx: "nnext (heap_of s') a = (if cell_after xs = NextOf a then b else nnext (heap_of s) a)" for a by (rule fr(3))
  have par: "even (nnext (heap_of s') a) = even (nnext (heap_of s) a)" for a
  proof (cases "cell_after xs = NextOf a")
    case True
    then have "nnext (heap_of s) a = first_node ys" using r by (auto simp: nnext_def)
    then show ?thesis using True b'(2) even_y by (simp add: nx)
  qed (simp add: nx)
  have "chain (heap_of s) (first_node ys) ys 0" using list_okD(1) [OF ok] by (simp add: chain_split)
  then have "chain (heap_of s) b (b # ys) 0" using b b' even_y by simp
  moreover have "last xs \<notin> set (b # ys) \<or> xs = []" using d nb by (cases xs rule: rev_cases) auto
  ultimately have ch: "chain (heap_of s') (lf_head (lf_mem s')) (xs @ b # ys) 0"
    using w b'(2) by (intro chain_relink [OF list_okD(1) [OF ok] d]) (simp_all add: wrote_def)
  have "sorted_wrt (<) (map (nkey (heap_of s')) (xs @ b # ys))"
    using list_okD(2) [OF ok] k(2,3) b'(4) by (simp add: fr(1) sorted_wrt_append)
  then have new: "list_ok s' (xs @ b # ys)"
    using ch list_okD(3,4) [OF ok] par unfolding list_ok_def sh by auto
  have "{a \<in> set (xs @ b # ys). even (nnext (heap_of s) a)} = insert b {a \<in> set (xs @ ys). even (nnext (heap_of s) a)}"
    using b(2) even_y by auto
  then have "lf_content (lf_mem s') = insert k (lf_content (lf_mem s))"
    unfolding lf_content_eq [OF ok] lf_content_eq [OF new] par fr(1) using b'(4) by simp
  then show ?thesis using new sh by blast
qed

lemma wrote_move:
  assumes "read_cell c (lf_mem s) = Some v" "c \<noteq> StartCell"
    and "s' = record_move t g (set_mem (the (write_cell c q (lf_mem s))) s)"
  shows "wrote t c q s s'" "lf_threads s' = lf_threads s" "lf_hist s' = lf_hist s @ [g (last (lf_hist s))]"
    "lf_moves s' = lf_moves s @ [(t, call_of (lf_threads s t))]" "lf_log s' = lf_log s" "lf_begun s' = lf_begun s"
  using assms write_cell_some [OF assms(1), of q] by (auto simp: wrote_def record_move_def)

lemma respond_frame:
  "lf_threads (respond t r s) = (lf_threads s)(t := (lf_threads s t)\<lparr>th_pc := PIdle\<rparr>)" "lf_hist (respond t r s) = lf_hist s"
  "lf_moves (respond t r s) = lf_moves s" "lf_begun (respond t r s) = lf_begun s" "lf_mem (respond t r s) = lf_mem s"
  "lf_log (respond t r s) = lf_log s @ [(t, call_of (lf_threads s t), r, lf_begun s t, length (lf_hist s) - 1)]"
  "lf_crashed (respond t r s) = lf_crashed s"
  by (simp_all add: respond_def upd_thread_def)

lemma lin_ICas:
  assumes inv: "lin_ok n s" and pc: "th_pc (lf_threads s t) = ICas"
  shows "lin_ok n (lf_step t s)"
proof -
  let ?l = "lf_threads s t"
  let ?k = "th_key ?l" and ?c = "th_prev ?l" and ?b = "th_new ?l"
  have ok: "prev_ok s ?c ?k" "even (th_cur ?l)" "th_cur ?l = 0 \<or> ?k < nkey (heap_of s) (th_cur ?l)"
    "nnext (heap_of s) ?b = th_cur ?l" "th_why ?l = ForInsert"
    using lin_okD(6) [OF inv, of t] by (auto simp: thread_ok_def Let_def pc)
  obtain v where v: "read_cell ?c (lf_mem s) = Some v" using read_prev [OF ok(1)] by blast
  show ?thesis
  proof (cases "v = th_cur ?l")
    case True
    define s1 where "s1 = record_move t (insert ?k) (set_mem (the (write_cell ?c ?b (lf_mem s))) s)"
    define s' where "s' = respond t True s1"
    note w1 = wrote_move [OF v prev_ok_cell [OF ok(1)] s1_def]
    have call: "call_of ?l = InsCall ?k" by (simp add: call_of_def ok(5))
    have w: "wrote t ?c ?b s s'" using w1 by (simp add: s'_def wrote_def respond_frame)
    have idle: "th_pc (lf_threads s' t) = PIdle" by (simp add: s'_def respond_frame)
    obtain ps where ps: "list_ok s ps" using inv by (rule lin_ok_list)
    obtain xs ys where xs: "ps = xs @ ys" "?c = cell_after xs" "v = first_node ys" "\<And>a. a \<in> set xs \<Longrightarrow> nkey (heap_of s) a < ?k"
      using adjacent [OF ps ok(1) v] ok(2) True by metis
    have ys: "?k < nkey (heap_of s) a" if "a \<in> set ys" for a
      using that list_okD(2) [OF ps] ok(3) True xs(3) chain_even_nodes [OF list_okD(1) [OF ps], of "hd ys"]
      by (cases ys) (auto simp: xs(1) sorted_wrt_append dest: less_trans)
    have b: "own ?l ?b" by (simp add: own_def pc ok(5))
    have new: "list_ok s' (xs @ ?b # ys)" "lf_content (lf_mem s') = insert ?k (lf_content (lf_mem s))" "shared s' = (\<lambda>a. shared s a \<or> a = ?b)"
      using publish_list [of s xs ys t ?b ?k s'] ps b ok(4) True lin_okD(3) [OF inv] xs ys w v idle by (auto simp: own_def)
    have ev: "evolves t s s'"
    proof (rule wrote_evolves [OF w _ lin_okD(3) [OF inv]])
      show "?c = HeadCell \<or> (\<exists>a. ?c = NextOf a \<and> (shared s a \<and> even (nnext (heap_of s) a) \<or> own ?l a))"
        using ok(1,2) v True by (cases ?c) (auto simp: prev_ok_def nnext_def)
      show "lf_hist s' = lf_hist s @ [insert ?k (last (lf_hist s))]" by (simp add: s'_def respond_frame w1)
      show "lf_moves s' = lf_moves s @ [(t, InsCall ?k)]" by (simp add: s'_def respond_frame w1 call)
    qed (simp_all add: new(3))
    have "?k \<notin> lf_content (lf_mem s)" using absent_after [of s xs ys ?k] ps xs(4) ys by (cases ys) (auto simp: xs(1))
    then have h: "hist_ok s'"
      using lin_okD(4) [OF inv] new(2)
      by (intro hist_ok_move [OF lin_okD(4) [OF inv], of s' "insert ?k (lf_content (lf_mem s))" t "InsCall ?k"])
        (auto simp: s'_def respond_frame w1 call legal_move_def hist_ok_def)
    have "moves_since t (lf_begun s t) (lf_moves s) = []" "lf_begun s t \<le> length (lf_moves s)"
      using lin_okD(7) [OF inv, of t] by (auto simp: made_ok_def moved_def pc ok(5))
    then have "entry_ok (lf_hist s') (lf_moves s') (t, InsCall ?k, True, lf_begun s' t, length (lf_hist s') - 1)"
      by (intro entry_moved [OF h]) (simp_all add: s'_def respond_frame w1 call moves_since_append, simp add: moves_since_def)
    then have "log_ok s'"
      by (intro log_ok_evolves [OF ev lin_okD(5) [OF inv] lin_okD(4) [OF inv]]) (auto simp: s'_def respond_frame w1 call)
    then have "lin_ok n s'"
      using lin_ok_step [OF inv ev _ _ wrote_alloc [OF w lin_okD(3) [OF inv]] new(1) h] lin_okD(1) [OF inv] lin_okD(2) [OF inv] w idle
      by (simp add: wrote_def wrote_frame(6) [OF w] own_def thread_ok_def Let_def made_ok_def)
    then show ?thesis by (simp add: lf_step_at pc cas_step_eq [OF v] True s'_def s1_def)
  next
    case False
    then show ?thesis using lin_again [OF inv, of t] by (simp add: lf_step_at pc cas_step_eq [OF v] searching_def)
  qed
qed

text \<open>Marking a node.\<close>

lemma mark_list:
  assumes ok: "list_ok s ps" and a: "shared s a" "nnext (heap_of s) a = q" "even q"
    and w: "wrote t (NextOf a) (Suc q) s s'" and own: "own (lf_threads s' t) = own (lf_threads s t)"
  shows "list_ok s' ps \<and> lf_content (lf_mem s') = lf_content (lf_mem s) - {nkey (heap_of s) a}"
proof -
  note sh = wrote_shared [OF w own] and fr = wrote_frame [OF w]
  have nx: "nnext (heap_of s') b = (if b = a then Suc q else nnext (heap_of s) b)" for b by (simp add: fr(3))
  have hd: "lf_head (lf_mem s') = lf_head (lf_mem s)" using w by (auto simp: wrote_def dest: arg_cong [of _ _ lf_head])
  have "chain (heap_of s') p ps 0 = chain (heap_of s) p ps 0" for p
    by (rule chain_cong) (simp_all add: fr(2) nx a(2,3))
  moreover have "b \<in> set ps" if "shared s b" "even (nnext (heap_of s') b)" for b
    using list_okD(4) [OF ok that(1)] that(2) a(3) by (auto simp: nx split: if_splits)
  ultimately have new: "list_ok s' ps"
    using list_okD(1-3) [OF ok] by (auto simp: list_ok_def sh hd fr(1))
  have "a \<in> set ps" using list_okD(4) [OF ok a(1)] a by simp
  moreover have "{b \<in> set ps. even (nnext (heap_of s') b)} = {b \<in> set ps. even (nnext (heap_of s) b)} - {a}"
    using a by (auto simp: nx)
  ultimately have "lf_content (lf_mem s') = lf_content (lf_mem s) - {nkey (heap_of s) a}"
    unfolding lf_content_eq [OF ok] lf_content_eq [OF new] fr(1) using list_ok_inj [OF ok] a(2,3)
    by (auto simp: inj_on_def)
  then show ?thesis using new by blast
qed

lemma lin_RMark:
  assumes inv: "lin_ok n s" and pc: "th_pc (lf_threads s t) = RMark"
  shows "lin_ok n (lf_step t s)"
proof -
  let ?l = "lf_threads s t"
  let ?k = "th_key ?l" and ?a = "th_cur ?l" and ?q = "th_next ?l"
  have ok: "prev_ok s (th_prev ?l) ?k" "even ?a" "shared s ?a" "nkey (heap_of s) ?a = ?k" "even ?q" "th_why ?l = ForRemove"
    using lin_okD(6) [OF inv, of t] by (auto simp: thread_ok_def Let_def pc)
  have v: "read_cell (NextOf ?a) (lf_mem s) = Some (nnext (heap_of s) ?a)" using shared_node [OF ok(3)] by (auto simp: nnext_def)
  show ?thesis
  proof (cases "nnext (heap_of s) ?a = ?q")
    case True
    define s1 where "s1 = record_move t (\<lambda>A. A - {?k}) (set_mem (the (write_cell (NextOf ?a) (Suc ?q) (lf_mem s))) s)"
    define s' where "s' = goto_pc t RUnlink s1"
    note w1 = wrote_move [OF v cell_ref.distinct(6) s1_def]
    have call: "call_of ?l = RemCall ?k" by (simp add: call_of_def ok(6))
    have l': "lf_threads s' t = ?l\<lparr>th_pc := RUnlink\<rparr>" by (simp add: s'_def upd_thread_def w1)
    have fr: "lf_hist s' = lf_hist s @ [last (lf_hist s) - {?k}]" "lf_moves s' = lf_moves s @ [(t, RemCall ?k)]" "lf_log s' = lf_log s" "lf_begun s' = lf_begun s"
      using w1 call by (simp_all add: s'_def upd_thread_def)
    have w: "wrote t (NextOf ?a) (Suc ?q) s s'" using w1 by (simp add: s'_def wrote_def upd_thread_def)
    have own: "own (lf_threads s' t) = own ?l" by (auto simp: l' own_def pc)
    obtain ps where ps: "list_ok s ps" using inv by (rule lin_ok_list)
    have new: "list_ok s' ps" "lf_content (lf_mem s') = lf_content (lf_mem s) - {?k}"
      using mark_list [OF ps ok(3) True ok(5) w own] ok(4) by auto
    have ev: "evolves t s s'"
      using wrote_shared [OF w own] ok(3,5) True fr by (intro wrote_evolves [OF w _ lin_okD(3) [OF inv]]) auto
    have "?k \<in> lf_content (lf_mem s)" using unmarked_content [OF ps ok(3)] ok(4,5) True by simp
    then have h: "hist_ok s'"
      using lin_okD(4) [OF inv] new(2)
      by (intro hist_ok_move [OF lin_okD(4) [OF inv] _ fr(2)]) (auto simp: fr legal_move_def hist_ok_def)
    have "moves_since t (lf_begun s t) (lf_moves s) = []" "lf_begun s t \<le> length (lf_moves s)"
      using lin_okD(7) [OF inv, of t] by (auto simp: made_ok_def moved_def pc ok(6))
    then have "made_ok s' t (lf_threads s' t)" by (auto simp: made_ok_def moved_def l' fr moves_since_append) (simp add: moves_since_def)
    moreover have "thread_ok s' t (lf_threads s' t)"
      using ok wrote_shared [OF w own] evolves_prev [OF ev ok(1)] by (simp add: thread_ok_def Let_def l' wrote_frame(3) [OF w])
    moreover have "log_ok s'"
      using log_ok_evolves [OF ev lin_okD(5) [OF inv] lin_okD(4) [OF inv], of "[]"] by (simp add: fr)
    moreover have "alloc_ok s'" using wrote_alloc [OF w lin_okD(3) [OF inv]] own l' by simp
    ultimately have "lin_ok n s'"
      using lin_ok_step [OF inv ev _ _ _ new(1) h] lin_okD(1) [OF inv] lin_okD(2) [OF inv] w by (simp add: wrote_def wrote_frame(6) [OF w])
    then show ?thesis using ok(5) by (simp add: lf_step_at pc cas_step_eq [OF v] True s'_def s1_def)
  next
    case False
    then show ?thesis using lin_again [OF inv, of t] by (simp add: lf_step_at pc cas_step_eq [OF v] searching_def)
  qed
qed

text \<open>Writing the node that is not yet linked.\<close>

lemma private_list:
  assumes ok: "list_ok s ps" and nb: "\<not> shared s b" and sh: "shared s' = shared s"
    and same: "\<And>a. a \<noteq> b \<Longrightarrow> heap_of s' a = heap_of s a" "lf_head (lf_mem s') = lf_head (lf_mem s)"
  shows "list_ok s' ps \<and> lf_content (lf_mem s') = lf_content (lf_mem s)"
proof -
  have eq: "nkey (heap_of s') a = nkey (heap_of s) a" "nnext (heap_of s') a = nnext (heap_of s) a" if "shared s a" for a
    using same(1) [of a] that nb by (cases "a = b"; simp add: nkey_def nnext_def)+
  have ps: "a \<noteq> b" if "a \<in> set ps" for a using list_okD(3) [OF ok that] nb by auto
  have "chain (heap_of s') p ps 0 = chain (heap_of s) p ps 0" for p
    using list_okD(3) [OF ok] same(1) ps by (intro chain_cong) (simp_all add: eq)
  moreover have "map (nkey (heap_of s')) ps = map (nkey (heap_of s)) ps" using eq(1) list_okD(3) [OF ok] by simp
  ultimately have new: "list_ok s' ps"
    using list_okD [OF ok] eq(2) unfolding list_ok_def sh same(2) by metis
  have "{a \<in> set ps. even (nnext (heap_of s') a)} = {a \<in> set ps. even (nnext (heap_of s) a)}"
    using eq(2) list_okD(3) [OF ok] by auto
  then have "lf_content (lf_mem s') = lf_content (lf_mem s)"
    unfolding lf_content_eq [OF ok] lf_content_eq [OF new] using eq(1) list_okD(3) [OF ok] by (auto intro!: image_cong)
  then show ?thesis using new by blast
qed

lemma own_idle [simp]: "\<not> own (l\<lparr>th_pc := PIdle\<rparr>) a"
  by (simp add: own_def)

lemma own_not_shared: "own (lf_threads s t) b \<Longrightarrow> \<not> shared s b"
  by (auto simp: shared_def)

lemma lin_IStore:
  assumes inv: "lin_ok n s" and pc: "th_pc (lf_threads s t) = IStore"
  shows "lin_ok n (lf_step t s)"
proof -
  let ?l = "lf_threads s t"
  let ?b = "th_new ?l"
  have ok: "prev_ok s (th_prev ?l) (th_key ?l)" "even (th_cur ?l)" "th_cur ?l = 0 \<or> shared s (th_cur ?l) \<and> th_key ?l < nkey (heap_of s) (th_cur ?l)"
    "th_why ?l = ForInsert"
    using lin_okD(6) [OF inv, of t] by (auto simp: thread_ok_def Let_def pc)
  have b: "own ?l ?b" by (simp add: own_def pc ok(4))
  then obtain x where x: "heap_of s ?b = Some x" using lin_okD(3) [OF inv] unfolding alloc_ok_def by blast
  then have v: "read_cell (NextOf ?b) (lf_mem s) = Some (lf_next x)" by simp
  define s' where "s' = goto_pc t ICas (set_mem (the (write_cell (NextOf ?b) (th_cur ?l) (lf_mem s))) s)"
  note w = wrote_upd [OF v cell_ref.distinct(6) s'_def]
  have own: "own (lf_threads s' t) = own ?l" by (auto simp: w own_def pc)
  note sh = wrote_shared [OF w(1) own]
  obtain ps where ps: "list_ok s ps" using inv by (rule lin_ok_list)
  have new: "list_ok s' ps" "lf_content (lf_mem s') = lf_content (lf_mem s)"
    using private_list [OF ps own_not_shared [OF b] sh] wrote_frame(4) [OF w(1)] x by (auto simp: s'_def upd_thread_def)
  have ev: "evolves t s s'" using b w by (intro wrote_evolves [OF w(1) _ lin_okD(3) [OF inv], of "[]" "[]"]) (auto simp: sh)
  have "thread_ok s' t (lf_threads s' t)"
    using ok evolves_prev [OF ev ok(1)] by (simp add: thread_ok_def Let_def w sh wrote_frame(1,3) [OF w(1)])
  moreover have "made_ok s' t (lf_threads s' t)" using lin_okD(7) [OF inv, of t] by (simp add: made_ok_def moved_def w pc)
  moreover have "hist_ok s'" using lin_okD(4) [OF inv] by (simp add: hist_ok_def w new(2))
  moreover have "log_ok s'" using log_ok_evolves [OF ev lin_okD(5) [OF inv] lin_okD(4) [OF inv], of "[]"] by (simp add: w)
  moreover have "alloc_ok s'" using wrote_alloc [OF w(1) lin_okD(3) [OF inv]] own w by simp
  ultimately have "lin_ok n s'"
    using lin_ok_step [OF inv ev _ _ _ new(1)] lin_okD(1) [OF inv] lin_okD(2) [OF inv] w(1) by (simp add: wrote_def wrote_frame(6) [OF w(1)])
  then show ?thesis using x by (simp add: lf_step_at pc s'_def)
qed

text \<open>Steps that allocate or delete the own node.\<close>

lemma private_evolves:
  assumes nb: "\<not> shared s b" "\<And>u. u \<noteq> t \<Longrightarrow> \<not> own (lf_threads s u) b" and sh: "shared s' = shared s"
    and same: "\<And>a. a \<noteq> b \<Longrightarrow> heap_of s' a = heap_of s a" "lf_hist s' = lf_hist s" "lf_moves s' = lf_moves s"
    and oth: "\<And>u. u \<noteq> t \<Longrightarrow> lf_threads s' u = lf_threads s u \<and> lf_begun s' u = lf_begun s u"
  shows "evolves t s s'"
proof -
  have "heap_of s' a = heap_of s a" if "shared s a \<or> (\<exists>u. u \<noteq> t \<and> own (lf_threads s u) a)" for a
    using same(1) [of a] nb that by (cases "a = b") auto
  then show ?thesis using same oth unfolding evolves_def sh by (auto simp: nkey_def nnext_def)
qed

lemma alloc_ok_shrink:
  assumes "alloc_ok s" "\<And>a. heap_of s' a \<noteq> None \<Longrightarrow> heap_of s a \<noteq> None" "lf_brk (lf_mem s') = lf_brk (lf_mem s)"
    and own: "\<And>u a. own (lf_threads s' u) a \<Longrightarrow> own (lf_threads s u) a \<and> heap_of s' a = heap_of s a \<and> th_key (lf_threads s' u) = th_key (lf_threads s u)"
  shows "alloc_ok s'"
  unfolding alloc_ok_def assms(3)
proof (intro conjI allI impI)
  show "heap_of s' 0 = None" "\<And>a. heap_of s' a \<noteq> None \<Longrightarrow> a \<le> 2 * lf_brk (lf_mem s)"
    using assms(1,2) unfolding alloc_ok_def by blast+
next
  fix u a
  assume "own (lf_threads s' u) a"
  note o = own [OF this]
  then show "heap_of s' a \<noteq> None" "even a" "a \<noteq> 0" using assms(1) unfolding alloc_ok_def by metis+
  show "nkey (heap_of s') a = th_key (lf_threads s' u)" using o assms(1) unfolding alloc_ok_def nkey_def by metis
next
  show "u = v" if "own (lf_threads s' u) a" "own (lf_threads s' v) a" for u v a
    using own [OF that(1)] own [OF that(2)] assms(1) unfolding alloc_ok_def by blast
qed

lemma lin_IDelete:
  assumes inv: "lin_ok n s" and pc: "th_pc (lf_threads s t) = IDelete"
  shows "lin_ok n (lf_step t s)"
proof -
  let ?l = "lf_threads s t"
  let ?b = "th_new ?l"
  have ok: "th_why ?l = ForInsert" "seen s t (th_key ?l) True" using lin_okD(6) [OF inv, of t] by (auto simp: thread_ok_def Let_def pc)
  have b: "own ?l ?b" by (simp add: own_def pc ok(1))
  note al = lin_okD(3) [OF inv] and hist = lin_okD(4) [OF inv]
  have nb: "\<not> own (lf_threads s u) ?b" if "u \<noteq> t" for u using al b that unfolding alloc_ok_def by blast
  obtain x where x: "heap_of s ?b = Some x" using al b unfolding alloc_ok_def by blast
  define s' where "s' = respond t False (set_mem ((lf_mem s)\<lparr>lf_heap := heap_of s |` (- {?b})\<rparr>) s)"
  have heap: "heap_of s' a = (if a = ?b then None else heap_of s a)" for a by (simp add: s'_def respond_frame restrict_map_def)
  have th: "lf_threads s' u = (if u = t then ?l\<lparr>th_pc := PIdle\<rparr> else lf_threads s u)" for u by (simp add: s'_def respond_frame)
  have fr: "lf_hist s' = lf_hist s" "lf_moves s' = lf_moves s" "lf_begun s' = lf_begun s" "lf_head (lf_mem s') = lf_head (lf_mem s)"
    "lf_brk (lf_mem s') = lf_brk (lf_mem s)" "lf_hps (lf_mem s') = lf_hps (lf_mem s)" "lf_crashed s' = lf_crashed s"
    by (simp_all add: s'_def respond_frame)
  have own: "own (lf_threads s' u) a \<longleftrightarrow> u \<noteq> t \<and> own (lf_threads s u) a" for u a by (simp add: th own_def)
  have "own ?l a \<longleftrightarrow> a = ?b" for a using b by (auto simp: own_def)
  then have "shared s' a = shared s a" for a unfolding shared_def own heap by (cases "a = ?b") (simp, blast, simp, metis)
  then have sh: "shared s' = shared s" by blast
  obtain ps where ps: "list_ok s ps" using inv by (rule lin_ok_list)
  have new: "list_ok s' ps" "lf_content (lf_mem s') = lf_content (lf_mem s)"
    using private_list [OF ps own_not_shared [OF b] sh] by (simp_all add: heap fr)
  have ev: "evolves t s s'" by (rule private_evolves [OF own_not_shared [OF b] nb sh]) (simp_all add: heap fr th)
  have h: "hist_ok s'" using hist by (simp add: hist_ok_def fr new(2))
  have "alloc_ok s'"
    by (rule alloc_ok_shrink [OF al]) (use nb in \<open>auto simp: own heap fr th split: if_splits\<close>)
  moreover have "entry_ok (lf_hist s) (lf_moves s) (t, InsCall (th_key ?l), False, lf_begun s t, length (lf_hist s) - 1)"
    using lin_okD(7) [OF inv, of t] ok
    by (intro entry_seen [OF hist _ _ ok(2)]) (auto simp: made_ok_def moved_def pc legal_answer_def)
  then have "log_ok s'"
    by (intro log_ok_evolves [OF ev lin_okD(5) [OF inv] hist]) (auto simp: s'_def respond_frame call_of_def ok(1))
  ultimately have "lin_ok n s'"
    using lin_ok_step [OF inv ev _ _ _ new(1) h] lin_okD(1) [OF inv] lin_okD(2) [OF inv]
    by (simp add: fr th thread_ok_def Let_def made_ok_def)
  then show ?thesis using x by (simp add: lf_step_at pc s'_def delete_nodes_def)
qed

lemma lin_invoke_read:
  assumes inv: "lin_ok n s" and pc: "th_pc (lf_threads s t) = PIdle" and why: "why \<noteq> ForInsert" "why \<noteq> ForHelp"
  shows "lin_ok n (upd_thread t (\<lambda>l. l\<lparr>th_key := k, th_why := why, th_pc := LStart\<rparr>)
    (s\<lparr>lf_begun := (lf_begun s)(t := length (lf_hist s) - 1)\<rparr>))" (is "lin_ok n ?s'")
proof -
  have own: "own (lf_threads ?s' u) = own (lf_threads s u)" for u using pc why by (auto simp: own_def upd_thread_def)
  have mem: "lf_mem ?s' = lf_mem s" by (simp add: upd_thread_def)
  have sh: "shared ?s' = shared s" unfolding fun_eq_iff shared_def own mem by blast
  obtain ps where ps: "list_ok s ps" using inv by (rule lin_ok_list)
  have ev: "evolves t s ?s'" unfolding evolves_def sh by (simp add: upd_thread_def)
  have h: "hist_ok ?s'" using lin_okD(4) [OF inv] by (simp add: hist_ok_def upd_thread_def)
  have key: "own (lf_threads s u) a \<Longrightarrow> th_key (lf_threads ?s' u) = th_key (lf_threads s u)" for u a
    using pc by (auto simp: upd_thread_def own_def)
  have "alloc_ok ?s'" using lin_okD(3) [OF inv] key unfolding alloc_ok_def own mem by simp
  moreover have "list_ok ?s' ps" using ps unfolding list_ok_def sh mem .
  moreover have "log_ok ?s'" using lin_okD(5) [OF inv] by (simp add: log_ok_def upd_thread_def)
  moreover have "thread_ok ?s' t (lf_threads ?s' t)" by (simp add: upd_thread_def thread_ok_def Let_def)
  moreover have "made_ok ?s' t (lf_threads ?s' t)"
    using lin_okD(4) [OF inv] why by (simp add: made_ok_def moved_def upd_thread_def hist_ok_def moves_since_def)
  ultimately show ?thesis
    using lin_ok_step [OF inv ev _ _ _ _ h] lin_okD(1) [OF inv] lin_okD(2) [OF inv] by (simp add: upd_thread_def)
qed

lemma lin_invoke_insert:
  assumes inv: "lin_ok n s" and pc: "th_pc (lf_threads s t) = PIdle"
  shows "lin_ok n (lf_invoke t (InsCall k) s)" (is "lin_ok n ?s'")
proof -
  note al = lin_okD(3) [OF inv] and hist = lin_okD(4) [OF inv]
  let ?b = "2 * lf_brk (lf_mem s) + 2"
  have heap: "heap_of ?s' a = (if a = ?b then Some \<lparr>lf_data = k, lf_next = 0, lf_value = 0\<rparr> else heap_of s a)" for a
    by (simp add: lf_invoke_def Let_def new_node_def upd_thread_def)
  have th: "lf_threads ?s' u = (if u = t then (lf_threads s t)\<lparr>th_key := k, th_why := ForInsert, th_new := ?b, th_pc := LStart\<rparr> else lf_threads s u)" for u
    by (simp add: lf_invoke_def Let_def new_node_def upd_thread_def)
  have fr: "lf_hist ?s' = lf_hist s" "lf_moves ?s' = lf_moves s" "lf_begun ?s' u = (if u = t then length (lf_hist s) - 1 else lf_begun s u)"
    "lf_head (lf_mem ?s') = lf_head (lf_mem s)" "lf_brk (lf_mem ?s') = Suc (lf_brk (lf_mem s))" "lf_hps (lf_mem ?s') = lf_hps (lf_mem s)"
    "lf_crashed ?s' = lf_crashed s" "lf_log ?s' = lf_log s" for u
    by (simp_all add: lf_invoke_def Let_def new_node_def upd_thread_def)
  have free: "heap_of s ?b = None" using al unfolding alloc_ok_def by (metis add_leE add_le_same_cancel1 not_numeral_le_zero)
  have own: "own (lf_threads ?s' u) a \<longleftrightarrow> u = t \<and> a = ?b \<or> own (lf_threads s u) a" for u a
    using pc by (auto simp: th own_def)
  have nb: "\<not> own (lf_threads s u) ?b" for u using al free unfolding alloc_ok_def by blast
  have "shared ?s' a = shared s a" for a unfolding shared_def own heap using free by auto
  then have sh: "shared ?s' = shared s" by blast
  have unsh: "\<not> shared s ?b" using free by (simp add: shared_def)
  obtain ps where ps: "list_ok s ps" using inv by (rule lin_ok_list)
  have new: "list_ok ?s' ps" "lf_content (lf_mem ?s') = lf_content (lf_mem s)"
    using private_list [OF ps unsh sh] by (simp_all add: heap fr)
  have ev: "evolves t s ?s'" by (rule private_evolves [OF unsh nb sh]) (simp_all add: heap fr th)
  have h: "hist_ok ?s'" using hist by (simp add: hist_ok_def fr new(2))
  have "alloc_ok ?s'" unfolding alloc_ok_def fr(5)
  proof (intro conjI allI impI)
    show "heap_of ?s' 0 = None" using al by (simp add: heap alloc_ok_def)
    show "a \<le> 2 * Suc (lf_brk (lf_mem s))" if "heap_of ?s' a \<noteq> None" for a
      using al that unfolding alloc_ok_def heap by (cases "a = ?b") force+
  next
    fix u a
    assume "own (lf_threads ?s' u) a"
    then consider "u = t" "a = ?b" | "own (lf_threads s u) a" "a \<noteq> ?b" using own nb by blast
    then show "heap_of ?s' a \<noteq> None" "even a" "a \<noteq> 0" "nkey (heap_of ?s') a = th_key (lf_threads ?s' u)"
      using al pc by (cases; auto simp: heap th nkey_def alloc_ok_def own_def)+
  next
    show "u = v" if "own (lf_threads ?s' u) a" "own (lf_threads ?s' v) a" for u v a
      using that nb al unfolding own alloc_ok_def by metis
  qed
  moreover have "log_ok ?s'" using log_ok_evolves [OF ev lin_okD(5) [OF inv] hist, of "[]"] by (simp add: fr)
  moreover have "made_ok ?s' t (lf_threads ?s' t)"
    using hist by (simp add: made_ok_def moved_def fr th hist_ok_def moves_since_def)
  ultimately show ?thesis
    using lin_ok_step [OF inv ev _ _ _ new(1) h] lin_okD(1) [OF inv] lin_okD(2) [OF inv] by (simp add: fr th thread_ok_def Let_def)
qed

lemma lin_invoke:
  assumes inv: "lin_ok n s" and pc: "th_pc (lf_threads s t) = PIdle"
  shows "lin_ok n (lf_invoke t c s)"
proof (cases c)
  case (InsCall k)
  then show ?thesis using lin_invoke_insert [OF assms] by simp
next
  case (RemCall k)
  then show ?thesis using lin_invoke_read [OF assms, of ForRemove k] by (simp add: lf_invoke_def)
next
  case (MemCall k)
  then show ?thesis using lin_invoke_read [OF assms, of ForLookup k] by (simp add: lf_invoke_def)
qed

lemma lin_run:
  assumes inv: "lin_ok n s" and t: "t < n" and small: "card (retired t (lf_step t s)) \<le> MAX_RETIRED_NODES_PER_THREAD"
  shows "lin_ok n (lf_step t s)"
proof (cases "th_pc (lf_threads s t)")
  case PIdle
  then show ?thesis using inv by (simp add: lf_step_def)
qed (use lin_okD(6) [OF inv, of t] in \<open>auto simp: thread_ok_def Let_def intro: lin_LStart lin_LSetHp lin_LCheck lin_LNext lin_LUnlink lin_LKey
  lin_LRecheck lin_LSwap0 lin_LSwap1 lin_IStore lin_ICas lin_IDelete lin_RMark lin_RUnlink lin_retire [OF inv t _ small] inv\<close>)

section \<open>Runs without reclamation\<close>

text \<open>A step after which no thread has more retired nodes than it may keep.\<close>

definition lf_bounded_step :: "nat \<Rightarrow> ('k :: linorder, 'v :: zero) lf_system \<Rightarrow> ('k, 'v) lf_system \<Rightarrow> bool" where
  "lf_bounded_step n s s' \<longleftrightarrow>
     lf_system_step n s s' \<and> (\<forall>t < n. card (retired t s') \<le> MAX_RETIRED_NODES_PER_THREAD)"

interpretation lfm: transition_system "lf_system_start n" "lf_bounded_step n" "lin_ok n" for n
proof
  fix s :: "('k :: linorder, 'v :: zero) lf_system"
  assume "lf_system_start n s"
  then obtain junk locals where s: "s = lf_system_new junk locals n" by (auto simp: lf_system_start_def)
  have "\<not> own (lf_threads s t) a" for t a by (simp add: s lf_system_new_def own_def)
  then have "alloc_ok s" "list_ok s []"
    by (simp_all add: alloc_ok_def list_ok_def shared_def) (simp_all add: s lf_system_new_def LockFreeList_new_def)
  moreover from this have "hist_ok s" by (simp add: hist_ok_def lf_content_eq) (simp add: s lf_system_new_def)
  ultimately show "lin_ok n s"
    by (auto simp: lin_ok_def log_ok_def thread_ok_def made_ok_def Let_def)
      (simp_all add: s lf_system_new_def LockFreeList_new_def HazardPointers_new_def)
next
  fix s s' :: "('k :: linorder, 'v :: zero) lf_system"
  assume "lf_bounded_step n s s'" and inv: "lin_ok n s"
  then have "lf_system_step n s s'" and small: "t < n \<Longrightarrow> card (retired t s') \<le> MAX_RETIRED_NODES_PER_THREAD" for t
    by (auto simp: lf_bounded_step_def)
  from this(1) show "lin_ok n s'"
  proof cases
    case (lf_call t c)
    then show ?thesis using lin_invoke [OF inv] by simp
  next
    case (lf_run t)
    then show ?thesis using lin_run [OF inv] small by simp
  qed
qed

section \<open>Properties\<close>

text \<open>
  C1. While no node is reclaimed, any number of threads may run \<open>insert\<close>, \<open>remove\<close> and \<open>lookup\<close>
  interleaved at the level of single memory accesses: no deleted node is ever accessed; the set goes, from the
  empty set to its present value, through changes each of which is what one call is meant to do; and
  each call that has returned either returned \<open>true\<close> and made exactly one change, between its invocation and its return,
  or made none and returned what was right for the set at some moment between its invocation and its return.
\<close>

theorem LockFreeList_linearizable:
  assumes "reach (lf_system_start n) (lf_bounded_step n) s"
  shows "\<not> lf_crashed s \<and> lf_hist s ! 0 = {} \<and> last (lf_hist s) = lf_content (lf_mem s) \<and>
    (\<forall>i < length (lf_moves s). legal_move (snd (lf_moves s ! i)) (lf_hist s ! i) (lf_hist s ! Suc i)) \<and>
    (\<forall>e \<in> set (lf_log s). entry_ok (lf_hist s) (lf_moves s) e)"
  using lfm.reach_invar [OF assms] by (simp add: lin_ok_def hist_ok_def log_ok_def)

text \<open>A lookup that starts before an insertion of the same key has taken effect, with two threads.\<close>

definition lf_demo :: "nat \<Rightarrow> (nat, nat) lf_system" where
  "lf_demo i = foldl (\<lambda>s f. f s)
     (lf_system_new (\<lambda>_ _. 0) (\<lambda>_. blank_thread) 2)
     (take i [lf_invoke 0 (InsCall 5), lf_invoke 1 (MemCall 5), lf_step 1, lf_step 0, lf_step 0, lf_step 0])"

lemmas lf_demo_run = lf_demo_def blank_thread_def lf_system_new_def LockFreeList_new_def HazardPointers_new_def lf_invoke_def new_node_def lf_step_def Let_def
  upd_thread_def loop_head_def lookup_return_def respond_def record_move_def cas_step_def cas_cell_def call_of_def

lemma lf_demo_steps:
  "lf_demo 1 = lf_invoke 0 (InsCall 5) (lf_demo 0)" "lf_demo 2 = lf_invoke 1 (MemCall 5) (lf_demo 1)"
  "lf_demo 3 = lf_step 1 (lf_demo 2)" "lf_demo 4 = lf_step 0 (lf_demo 3)" "lf_demo 5 = lf_step 0 (lf_demo 4)" "lf_demo 6 = lf_step 0 (lf_demo 5)"
  by (simp_all add: lf_demo_def)

lemma lf_demo_idle: "th_pc (lf_threads (lf_demo 0) 0) = PIdle" "th_pc (lf_threads (lf_demo 1) 1) = PIdle"
  by (simp_all add: lf_demo_run)

lemma lf_demo_retired: "i \<in> {1, 2, 3, 4, 5, 6} \<Longrightarrow> retired_lists (lf_hps (lf_mem (lf_demo i))) = [{}, {}]"
  by (elim insertE emptyE; simp add: lf_demo_run eval_nat_numeral)

lemma lf_demo_end:
  "lf_log (lf_demo 6) = [(1, MemCall 5, False, 0, 0), (0, InsCall 5, True, 0, 1)]" "lf_hist (lf_demo 6) = [{}, {5}]"
  by (simp_all add: lf_demo_run)

theorem LockFreeList_linearizable_witness:
  "lf_log (lf_demo 6) = [(1, MemCall 5, False, 0, 0), (0, InsCall 5, True, 0, 1)] \<and> lf_content (lf_mem (lf_demo 6)) = {5} \<and>
   \<not> lf_crashed (lf_demo 6)"
proof -
  have small: "\<forall>t < 2. card (retired t (lf_demo i)) \<le> MAX_RETIRED_NODES_PER_THREAD" if "i \<in> {1, 2, 3, 4, 5, 6}" for i
    using lf_demo_retired [OF that] by (auto simp: retired_def less_2_cases_iff)
  have step: "lf_system_step 2 (lf_demo 0) (lf_demo 1)" "lf_system_step 2 (lf_demo 1) (lf_demo 2)" "lf_system_step 2 (lf_demo 2) (lf_demo 3)"
    "lf_system_step 2 (lf_demo 3) (lf_demo 4)" "lf_system_step 2 (lf_demo 4) (lf_demo 5)" "lf_system_step 2 (lf_demo 5) (lf_demo 6)"
    using lf_call [of 0 2 "lf_demo 0" "InsCall 5"] lf_call [of 1 2 "lf_demo 1" "MemCall 5"] lf_run [of 1 2 "lf_demo 2"]
      lf_run [of 0 2 "lf_demo 3"] lf_run [of 0 2 "lf_demo 4"] lf_run [of 0 2 "lf_demo 5"] lf_demo_idle lf_demo_steps
    by (metis one_less_numeral_iff semiring_norm(76) zero_less_numeral)+
  have "lf_system_start 2 (lf_demo 0)" by (auto simp: lf_system_start_def lf_demo_def)
  moreover have "lf_bounded_step 2 (lf_demo 0) (lf_demo 1)" "lf_bounded_step 2 (lf_demo 1) (lf_demo 2)" "lf_bounded_step 2 (lf_demo 2) (lf_demo 3)"
    "lf_bounded_step 2 (lf_demo 3) (lf_demo 4)" "lf_bounded_step 2 (lf_demo 4) (lf_demo 5)" "lf_bounded_step 2 (lf_demo 5) (lf_demo 6)"
    unfolding lf_bounded_step_def using step small by blast+
  ultimately have "reach (lf_system_start 2) (lf_bounded_step 2) (lf_demo 6)" by (meson reach.intros)
  from LockFreeList_linearizable [OF this] show ?thesis by (simp add: lf_demo_end)
qed

end
