(* ===== verification/Lf_Alone.thy ===== *)
theory Lf_Alone
  imports Lf_Machine
begin

text \<open>
  The two models of the lock-free list agree: a thread of the interleaved machine that runs alone does, step by
  step, what the sequential functions compute in one go, and ends its call.
\<close>

section \<open>Runs of one thread\<close>

abbreviation runs :: "nat \<Rightarrow> ('k :: linorder, 'v) lf_system \<Rightarrow> ('k, 'v) lf_system \<Rightarrow> bool" where
  "runs t \<equiv> (\<lambda>s s'. s' = lf_step t s)\<^sup>*\<^sup>*"

lemma runs_step: "runs t (lf_step t s) s' \<Longrightarrow> runs t s s'"
  by (rule converse_rtranclp_into_rtranclp) auto

lemma runs_eq: "s = s' \<Longrightarrow> runs t s s'"
  by simp

text \<open>What a run of \<open>t\<close> leaves alone while its call lasts.\<close>

definition same_call :: "nat \<Rightarrow> ('k, 'v) lf_system \<Rightarrow> ('k, 'v) lf_system \<Rightarrow> bool" where
  "same_call t s s' \<longleftrightarrow>
     (\<forall>u. u \<noteq> t \<longrightarrow> lf_threads s' u = lf_threads s u) \<and> lf_crashed s' = lf_crashed s \<and> lf_hist s' = lf_hist s \<and>
     lf_moves s' = lf_moves s \<and> lf_begun s' = lf_begun s \<and> lf_log s' = lf_log s \<and>
     th_key (lf_threads s' t) = th_key (lf_threads s t) \<and> th_why (lf_threads s' t) = th_why (lf_threads s t) \<and>
     th_new (lf_threads s' t) = th_new (lf_threads s t)"

lemma same_call_refl [simp]: "same_call t s s"
  by (simp add: same_call_def)

lemma same_call_trans: "same_call t s s1 \<Longrightarrow> same_call t s1 s2 \<Longrightarrow> same_call t s s2"
  by (simp add: same_call_def)

section \<open>Retiring\<close>

lemma mod_slot:
  fixes k n :: nat
  shows "i < n * k \<Longrightarrow> i div k < n \<and> i mod k < k"
  by (metis less_mult_imp_div_less mod_less_divisor mult_0_right not_less_zero zero_less_iff_neq_zero)

text \<open>The hazard pointers from slot \<open>i\<close> on.\<close>

definition from_slot :: "hazard \<Rightarrow> nat \<Rightarrow> nat set" where
  "from_slot hz i =
     (\<lambda>j. hp_recs hz ! (j div num_ptrs hz) ! (j mod num_ptrs hz)) ` {i..<num_threads hz * num_ptrs hz} - {0}"

lemma from_slot_step:
  assumes "i < num_threads hz * num_ptrs hz"
  shows "from_slot hz i = ({hp_recs hz ! (i div num_ptrs hz) ! (i mod num_ptrs hz)} - {0}) \<union> from_slot hz (Suc i)"
proof -
  have "{i..<num_threads hz * num_ptrs hz} = insert i {Suc i..<num_threads hz * num_ptrs hz}" using assms by auto
  then show ?thesis by (auto simp: from_slot_def)
qed

lemma from_slot_all:
  assumes "hz_shape k n hz"
  shows "from_slot hz 0 = active_list hz"
proof -
  have sh: "num_ptrs hz = k" "num_threads hz = n" "length (hp_recs hz) = n" "\<forall>r \<in> set (hp_recs hz). length r = k"
    using assms by (auto simp: hz_shape_def)
  let ?f = "\<lambda>j. hp_recs hz ! (j div k) ! (j mod k)"
  have "?f i \<in> set (concat (hp_recs hz))" if "i < n * k" for i
    using mod_slot [OF that] sh nth_mem [of "i div k" "hp_recs hz"] by (auto intro!: bexI [of _ "hp_recs hz ! (i div k)"])
  moreover have "p \<in> ?f ` {0..<n * k}" if p: "p \<in> set (concat (hp_recs hz))" for p
  proof -
    obtain r where r: "r \<in> set (hp_recs hz)" "p \<in> set r" using p by auto
    then obtain i where i: "i < n" "r = hp_recs hz ! i" using sh(3) by (metis in_set_conv_nth)
    obtain j where j: "j < k" "p = r ! j" using r sh(4) by (metis in_set_conv_nth)
    have "Suc i * k \<le> n * k" using i(1) by (intro mult_le_mono1) simp
    then have "k * i + j < n * k" using j(1) by (simp add: mult.commute)
    moreover have "p = ?f (k * i + j)" using i j by simp
    ultimately show ?thesis by (intro image_eqI [where x = "k * i + j"]) auto
  qed
  ultimately have "set (concat (hp_recs hz)) = ?f ` {0..<n * k}" by (auto simp del: set_concat)
  then show ?thesis unfolding from_slot_def active_list_def sh(1,2) by blast
qed

text \<open>The thread is the same but for its place in the scan.\<close>

definition same_ctx :: "nat \<Rightarrow> ('k, 'v) lf_system \<Rightarrow> ('k, 'v) lf_system \<Rightarrow> bool" where
  "same_ctx t s s' \<longleftrightarrow> same_call t s s' \<and> th_prev (lf_threads s' t) = th_prev (lf_threads s t) \<and>
     th_cur (lf_threads s' t) = th_cur (lf_threads s t) \<and> th_next (lf_threads s' t) = th_next (lf_threads s t)"

lemma same_ctx_trans: "same_ctx t s s1 \<Longrightarrow> same_ctx t s1 s2 \<Longrightarrow> same_ctx t s s2"
  by (simp add: same_ctx_def same_call_def)

lemma scan_runs:
  assumes "th_pc (lf_threads s t) = PScan b" "th_slot (lf_threads s t) = i"
    and "i < num_threads (lf_hps (lf_mem s)) * num_ptrs (lf_hps (lf_mem s))"
  shows "\<exists>s'. runs t s s' \<and> same_ctx t s s' \<and> lf_mem s' = lf_mem s \<and> th_pc (lf_threads s' t) = PFree b \<and>
    th_active (lf_threads s' t) = th_active (lf_threads s t) \<union> from_slot (lf_hps (lf_mem s)) i"
  using assms
proof (induction "num_threads (lf_hps (lf_mem s)) * num_ptrs (lf_hps (lf_mem s)) - i" arbitrary: i s)
  case 0
  then show ?case by simp
next
  case (Suc d)
  let ?s1 = "lf_step t s" and ?hz = "lf_hps (lf_mem s)"
  let ?n = "num_threads ?hz * num_ptrs ?hz"
  have s1: "lf_mem ?s1 = lf_mem s" "same_ctx t s ?s1" "th_slot (lf_threads ?s1 t) = Suc i"
      "th_pc (lf_threads ?s1 t) = (if Suc i < ?n then PScan b else PFree b)"
      "th_active (lf_threads ?s1 t) = th_active (lf_threads s t) \<union> ({hp_recs ?hz ! (i div num_ptrs ?hz) ! (i mod num_ptrs ?hz)} - {0})"
    using Suc.prems by (auto simp: lf_step_def Let_def scan_step_def upd_thread_def same_ctx_def same_call_def)
  note split = from_slot_step [OF Suc.prems(3)]
  have d: "d = ?n - Suc i" using Suc.hyps(2) by simp
  show ?case
  proof (cases "Suc i < ?n")
    case True
    obtain s' where s': "runs t ?s1 s'" "same_ctx t ?s1 s'" "lf_mem s' = lf_mem s" "th_pc (lf_threads s' t) = PFree b"
        "th_active (lf_threads s' t) = th_active (lf_threads ?s1 t) \<union> from_slot ?hz (Suc i)"
      using Suc.hyps(1) [of ?s1 "Suc i"] d True unfolding s1(1,3,4) by auto
    have "th_active (lf_threads s' t) = th_active (lf_threads s t) \<union> from_slot ?hz i"
      unfolding s'(5) s1(5) split by (simp add: Un_assoc)
    then show ?thesis using runs_step [OF s'(1)] same_ctx_trans [OF s1(2) s'(2)] s'(3,4) by blast
  next
    case False
    then have "from_slot ?hz (Suc i) = {}" by (simp add: from_slot_def)
    then show ?thesis using runs_step [OF runs_eq [OF refl]] s1 False split by (intro exI [of _ ?s1]) simp
  qed
qed

text \<open>The machine's \<open>retireNode\<close> is that of the sequential model.\<close>

lemma retire_split:
  assumes ret: "retire t c m = Some m'" and R: "R = insert c (retired_lists (lf_hps m) ! t)" "card R > MAX_RETIRED_NODES_PER_THREAD"
    and t: "t < length (retired_lists (lf_hps m))"
    and m2: "m2 = m\<lparr>lf_hps := (lf_hps m)\<lparr>retired_lists := (retired_lists (lf_hps m))[t := R]\<rparr>\<rparr>" and A: "A = active_list (lf_hps m2)"
  shows "\<exists>m3. delete_nodes (R - A) m2 = Some m3 \<and>
    m' = m3\<lparr>lf_hps := (lf_hps m3)\<lparr>retired_lists := (retired_lists (lf_hps m3))[t := R \<inter> A]\<rparr>\<rparr>"
proof -
  have "retireNode t c (lf_hps m) = (R - A, (lf_hps m2)\<lparr>retired_lists := (retired_lists (lf_hps m2))[t := R \<inter> A]\<rparr>)"
    using R t unfolding A by (simp add: retireNode_def maybeFreeNodes_def Let_def active_list_def m2)
  then have "delete_nodes (R - A) (m\<lparr>lf_hps := (lf_hps m2)\<lparr>retired_lists := (retired_lists (lf_hps m2))[t := R \<inter> A]\<rparr>\<rparr>) = Some m'"
    using ret by (simp add: retire_def)
  moreover have "lf_heap m2 = lf_heap m" by (simp add: m2)
  ultimately show ?thesis unfolding delete_nodes_def by (simp split: if_splits) (cases m, auto simp: m2)
qed

lemma retire_runs:
  assumes hz: "hz_shape 2 n (lf_hps (lf_mem s))" "t < n" and ret: "retire t (th_cur (lf_threads s t)) (lf_mem s) = Some m'"
  shows "\<exists>s'. runs t (retire_step t b s) (after_retire t b s') \<and> same_ctx t s s' \<and> lf_mem s' = m'"
proof -
  let ?R = "insert (th_cur (lf_threads s t)) (retired t s)"
  let ?s1 = "set_retired t ?R s"
  have len: "t < length (retired_lists (lf_hps (lf_mem s)))" using hz by (simp add: hz_shape_def)
  show ?thesis
  proof (cases "card ?R > MAX_RETIRED_NODES_PER_THREAD")
    case False
    then have "retire_step t b s = after_retire t b ?s1" by (simp add: retire_step_def Let_def)
    moreover have "lf_mem ?s1 = m'"
      using ret False len by (simp add: retire_def retireNode_def Let_def retired_def set_retired_def delete_nodes_def restrict_map_def)
    ultimately show ?thesis by (auto simp: same_ctx_def same_call_def set_retired_def intro!: exI [of _ ?s1])
  next
    case True
    let ?s2 = "upd_thread t (\<lambda>l. l\<lparr>th_pc := PScan b, th_slot := 0, th_active := {}\<rparr>) ?s1"
    have s2: "retire_step t b s = ?s2" using True by (simp add: retire_step_def Let_def)
    have sh: "hz_shape 2 n (lf_hps (lf_mem ?s2))" using hz by (simp add: set_retired_def upd_thread_def hz_shape_def)
    obtain s3 where s3: "runs t ?s2 s3" "same_ctx t ?s2 s3" "lf_mem s3 = lf_mem ?s2" "th_pc (lf_threads s3 t) = PFree b"
        "th_active (lf_threads s3 t) = active_list (lf_hps (lf_mem ?s2))"
      using scan_runs [of ?s2 t b 0] from_slot_all [OF sh] sh hz(2) by (auto simp: hz_shape_def upd_thread_def)
    let ?A = "active_list (lf_hps (lf_mem ?s2))"
    have hz2: "lf_mem ?s2 = (lf_mem s)\<lparr>lf_hps := (lf_hps (lf_mem s))\<lparr>retired_lists := (retired_lists (lf_hps (lf_mem s)))[t := ?R]\<rparr>\<rparr>"
      by (simp add: set_retired_def upd_thread_def)
    obtain m where m: "delete_nodes (?R - ?A) (lf_mem ?s2) = Some m"
        "m' = m\<lparr>lf_hps := (lf_hps m)\<lparr>retired_lists := (retired_lists (lf_hps m))[t := ?R \<inter> ?A]\<rparr>\<rparr>"
      using retire_split [OF ret _ True len hz2 refl, unfolded retired_def, OF refl] unfolding retired_def by blast
    define s4 where "s4 = set_retired t (?R \<inter> ?A) (set_mem m s3)"
    have ret3: "retired t s3 = ?R" using len by (simp add: retired_def s3(3)) (simp add: set_retired_def upd_thread_def)
    have "lf_step t s3 = after_retire t b s4"
      using m(1) by (simp add: lf_step_def Let_def s3(4) free_step_def ret3 s3(3,5) s4_def)
    then have "runs t ?s2 (after_retire t b s4)" by (intro rtranclp.rtrancl_into_rtrancl [OF s3(1)]) (rule sym)
    moreover have "same_ctx t s s4"
      using s3(2) by (simp add: same_ctx_def same_call_def s4_def set_retired_def upd_thread_def)
    moreover have "lf_mem s4 = m'" by (simp add: s4_def set_retired_def m(2))
    ultimately show ?thesis unfolding s2 by blast
  qed
qed

section \<open>Searching\<close>

text \<open>
  A thread at the head of the loop of \<open>lookupInternal\<close> gets to the point where the search returns, with the result \<open>r\<close> of
  the sequential model.
\<close>

definition looks :: "nat \<Rightarrow> nat \<Rightarrow> 'k :: linorder \<Rightarrow> cell_ref \<Rightarrow> nat \<Rightarrow> ('k, 'v) lf_list \<Rightarrow> bool \<times> lookup_context \<times> ('k, 'v) lf_list \<Rightarrow> bool" where
  "looks t n key prev cur m = (\<lambda>(found, ctx, m').
     \<forall>s. lf_mem s = m \<longrightarrow> th_key (lf_threads s t) = key \<longrightarrow> th_prev (lf_threads s t) = prev \<longrightarrow> hz_shape 2 n (lf_hps m) \<longrightarrow>
       (\<exists>s'. runs t (loop_head t cur s) (lookup_return t found s') \<and> same_call t s s' \<and> lf_mem s' = m' \<and> hz_shape 2 n (lf_hps m') \<and>
          th_prev (lf_threads s' t) = ctx_prev ctx \<and> th_cur (lf_threads s' t) = ctx_cur ctx \<and>
          (found \<longrightarrow> th_next (lf_threads s' t) = ctx_next ctx)))"

definition turn :: "nat \<Rightarrow> nat \<Rightarrow> ('k :: linorder, 'v) lf_system \<Rightarrow> nat \<Rightarrow> ('k, 'v) lf_system \<Rightarrow> bool" where
  "turn t cur s cur1 s1 \<longleftrightarrow> runs t (loop_head t cur s) (loop_head t cur1 s1) \<and> same_call t s s1"

lemma looks_turn:
  fixes m :: "('k :: linorder, 'v) lf_list"
  assumes "looks t n key prev1 cur1 m1 r"
    and "\<And>s. lf_mem s = m \<Longrightarrow> th_key (lf_threads s t) = key \<Longrightarrow> th_prev (lf_threads s t) = prev \<Longrightarrow> hz_shape 2 n (lf_hps m) \<Longrightarrow>
      \<exists>s1. turn t cur s cur1 s1 \<and> lf_mem s1 = m1 \<and> th_prev (lf_threads s1 t) = prev1 \<and> hz_shape 2 n (lf_hps m1)"
  shows "looks t n key prev cur m r"
proof -
  obtain found ctx m' where r: "r = (found, ctx, m')" by (cases r)
  show ?thesis
    unfolding looks_def r prod.case
  proof (intro allI impI)
    fix s :: "('k, 'v) lf_system"
    assume s: "lf_mem s = m" "th_key (lf_threads s t) = key" "th_prev (lf_threads s t) = prev" "hz_shape 2 n (lf_hps m)"
    obtain s1 where s1: "turn t cur s cur1 s1" "lf_mem s1 = m1" "th_prev (lf_threads s1 t) = prev1" "hz_shape 2 n (lf_hps m1)"
      using assms(2) [OF s] by blast
    have key: "th_key (lf_threads s1 t) = key" using s1(1) s(2) by (simp add: turn_def same_call_def)
    obtain s' where s': "runs t (loop_head t cur1 s1) (lookup_return t found s')" "same_call t s1 s'" "lf_mem s' = m'" "hz_shape 2 n (lf_hps m')"
        "th_prev (lf_threads s' t) = ctx_prev ctx" "th_cur (lf_threads s' t) = ctx_cur ctx" "found \<longrightarrow> th_next (lf_threads s' t) = ctx_next ctx"
      using assms(1) s1(2-4) key unfolding looks_def r prod.case by blast
    have "runs t (loop_head t cur s) (lookup_return t found s')" using s1(1) s'(1) unfolding turn_def by (meson rtranclp_trans)
    moreover have "same_call t s s'" using s1(1) s'(2) unfolding turn_def by (blast intro: same_call_trans)
    ultimately show "\<exists>s'. runs t (loop_head t cur s) (lookup_return t found s') \<and> same_call t s s' \<and> lf_mem s' = m' \<and> hz_shape 2 n (lf_hps m') \<and>
        th_prev (lf_threads s' t) = ctx_prev ctx \<and> th_cur (lf_threads s' t) = ctx_cur ctx \<and> (found \<longrightarrow> th_next (lf_threads s' t) = ctx_next ctx)"
      using s'(3-7) by blast
  qed
qed

lemma looks_null:
  fixes m :: "('k :: linorder, 'v) lf_list"
  shows "looks t n key prev 0 m (False, \<lparr>ctx_prev = prev, ctx_cur = 0, ctx_next = nxt\<rparr>, m)"
proof -
  have "loop_head t 0 s = lookup_return t False (upd_thread t (\<lambda>l. l\<lparr>th_cur := 0, th_pc := LSetHp\<rparr>) s)" for s :: "('k, 'v) lf_system"
    by (simp add: loop_head_def)
  moreover have "same_call t s (upd_thread t (\<lambda>l. l\<lparr>th_cur := 0, th_pc := LSetHp\<rparr>) s)" for s :: "('k, 'v) lf_system"
    by (simp add: same_call_def upd_thread_def)
  ultimately show ?thesis
    unfolding looks_def prod.case
    by (auto simp: upd_thread_def intro!: exI [of _ "upd_thread t (\<lambda>l. l\<lparr>th_cur := 0, th_pc := LSetHp\<rparr>) (s :: ('k, 'v) lf_system)" for s])
qed

text \<open>The first two steps of a turn publish the pointer.\<close>

definition published :: "nat \<Rightarrow> nat \<Rightarrow> ('k, 'v) lf_system \<Rightarrow> ('k, 'v) lf_system" where
  "published t cur s = goto_pc t LCheck (write_hp t 0 cur (upd_thread t (\<lambda>l. l\<lparr>th_cur := cur, th_pc := LSetHp\<rparr>) s))"

lemma runs_published:
  assumes "cur \<noteq> 0" shows "runs t (loop_head t cur s) (published t cur s)"
proof -
  have "lf_step t (loop_head t cur s) = published t cur s"
    using assms by (simp add: lf_step_def Let_def loop_head_def published_def upd_thread_def)
  then show ?thesis by (metis (mono_tags, lifting) r_into_rtranclp)
qed

lemma published_simps [simp]:
  "lf_mem (published t cur s) = (lf_mem s)\<lparr>lf_hps := set_hp t 0 cur (lf_hps (lf_mem s))\<rparr>"
  "lf_threads (published t cur s) t = (lf_threads s t)\<lparr>th_cur := cur, th_pc := LCheck\<rparr>" "same_call t s (published t cur s)"
  by (simp_all add: published_def upd_thread_def write_hp_def same_call_def)

text \<open>Back to \<open>try_again\<close>.\<close>

lemma runs_again:
  "th_pc (lf_threads s t) = LStart \<Longrightarrow>
    runs t s (loop_head t (lf_head (lf_mem s)) (upd_thread t (\<lambda>l. l\<lparr>th_prev := HeadCell\<rparr>) s))"
  by (rule runs_step) (simp add: lf_step_def Let_def)

lemma again_turn:
  assumes "runs t (loop_head t cur s) (goto_pc t LStart s1)" "same_call t s s1"
  shows "\<exists>s2. turn t cur s (lf_head (lf_mem s1)) s2 \<and> lf_mem s2 = lf_mem s1 \<and> th_prev (lf_threads s2 t) = HeadCell"
proof -
  let ?s2 = "upd_thread t (\<lambda>l. l\<lparr>th_prev := HeadCell\<rparr>) (goto_pc t LStart s1)"
  have "runs t (goto_pc t LStart s1) (loop_head t (lf_head (lf_mem s1)) ?s2)"
    using runs_again [of "goto_pc t LStart s1" t] by (simp add: upd_thread_def)
  then have "runs t (loop_head t cur s) (loop_head t (lf_head (lf_mem s1)) ?s2)" using assms(1) by (meson rtranclp_trans)
  moreover have "same_call t s ?s2" using assms(2) by (simp add: same_call_def upd_thread_def)
  ultimately show ?thesis by (intro exI [of _ ?s2]) (simp add: turn_def upd_thread_def)
qed

text \<open>The state after \<open>next = cur->next\<close>, when \<open>prev\<close> still points to \<open>cur\<close>.\<close>

definition loaded :: "nat \<Rightarrow> nat \<Rightarrow> nat \<Rightarrow> ('k, 'v) lf_system \<Rightarrow> ('k, 'v) lf_system" where
  "loaded t cur nxt s =
     upd_thread t (\<lambda>l. l\<lparr>th_next := nxt, th_pc := (if mp_isMarked nxt then LUnlink else LKey)\<rparr>) (goto_pc t LNext (published t cur s))"

lemma runs_last: "runs t s s1 \<Longrightarrow> lf_step t s1 = s2 \<Longrightarrow> runs t s s2"
  by (rule rtranclp.rtrancl_into_rtrancl) auto

lemma runs_loaded:
  assumes "cur \<noteq> 0" "read_cell (th_prev (lf_threads s t)) (lf_mem s) = Some cur" "lf_heap (lf_mem s) cur = Some x"
  shows "runs t (loop_head t cur s) (loaded t cur (lf_next x) s)"
proof -
  have "runs t (loop_head t cur s) (goto_pc t LNext (published t cur s))"
    using assms by (intro runs_last [OF runs_published [OF assms(1)]]) (simp add: lf_step_def Let_def)
  then show ?thesis
    by (rule runs_last) (use assms in \<open>simp add: lf_step_def Let_def loaded_def upd_thread_def\<close>)
qed

lemma loaded_simps [simp]:
  "lf_mem (loaded t cur nxt s) = (lf_mem s)\<lparr>lf_hps := set_hp t 0 cur (lf_hps (lf_mem s))\<rparr>"
  "lf_threads (loaded t cur nxt s) t =
     (lf_threads s t)\<lparr>th_cur := cur, th_next := nxt, th_pc := (if mp_isMarked nxt then LUnlink else LKey)\<rparr>"
  "same_call t s (loaded t cur nxt s)"
  using published_simps(3) [of t s cur] by (simp_all add: loaded_def upd_thread_def same_call_def)

lemma hz_shape_set_hp: "hz_shape k n hz \<Longrightarrow> hz_shape k n (set_hp t j p hz)"
  using hz_rel_set_hp unfolding hz_rel_def by blast

lemma hz_shape_retire: "retire t p m = Some m' \<Longrightarrow> hz_shape k n (lf_hps m) \<Longrightarrow> hz_shape k n (lf_hps m')"
  by (auto simp: retire_def retireNode_def maybeFreeNodes_def Let_def delete_nodes_def hz_shape_def split: if_splits)

lemma turn_unlink:
  assumes s: "lf_mem s = m" "th_prev (lf_threads s t) = prev" and sh: "hz_shape 2 n (lf_hps m)" "t < n"
    and cur: "cur \<noteq> 0" "read_cell prev m = Some cur" "lf_heap m cur = Some x" "mp_isMarked (lf_next x)"
    and cas: "write_cell prev (mp_unmark (lf_next x)) (m\<lparr>lf_hps := set_hp t 0 cur (lf_hps m)\<rparr>) = Some m2" and ret: "retire t cur m2 = Some m3"
  shows "\<exists>s1. turn t cur s (mp_unmark (lf_next x)) s1 \<and> lf_mem s1 = m3 \<and> th_prev (lf_threads s1 t) = prev \<and> hz_shape 2 n (lf_hps m3)"
proof -
  let ?s1 = "loaded t cur (lf_next x) s"
  let ?s2 = "goto_pc t LRetire (set_mem m2 ?s1)"
  have "lf_step t ?s1 = ?s2" using s cur cas by (simp add: lf_step_def Let_def cas_step_def cas_cell_def)
  then have r2: "runs t (loop_head t cur s) ?s2" by (rule runs_last [OF runs_loaded, rotated -1]) (use s cur in simp_all)
  have sh2: "hz_shape 2 n (lf_hps m2)" using cas hz_shape_set_hp [OF sh(1), of t 0 cur] by (cases prev) auto
  have c2: "same_call t s ?s2" "th_cur (lf_threads ?s2 t) = cur" "th_prev (lf_threads ?s2 t) = prev"
      "th_next (lf_threads ?s2 t) = lf_next x" "lf_mem ?s2 = m2" "th_pc (lf_threads ?s2 t) = LRetire"
    using loaded_simps(3) [of t s cur "lf_next x"] s by (auto simp: upd_thread_def same_call_def)
  obtain s3 where s3: "runs t (retire_step t True ?s2) (after_retire t True s3)" "same_ctx t ?s2 s3" "lf_mem s3 = m3"
    using retire_runs [of n ?s2 t m3 True, unfolded c2(2,5), OF sh2 sh(2) ret] by blast
  have "runs t ?s2 (after_retire t True s3)" by (rule runs_step) (use s3(1) c2(6) in \<open>simp add: lf_step_def Let_def\<close>)
  moreover have "after_retire t True s3 = loop_head t (mp_unmark (lf_next x)) s3" using s3(2) c2(4) by (simp add: after_retire_def same_ctx_def)
  ultimately have "runs t (loop_head t cur s) (loop_head t (mp_unmark (lf_next x)) s3)" by (intro rtranclp_trans [OF r2]) (simp only:)
  moreover have "same_call t s s3" using s3(2) c2(1) unfolding same_ctx_def by (blast intro: same_call_trans)
  ultimately show ?thesis using s3 c2(3) hz_shape_retire [OF ret sh2] by (auto simp: turn_def same_ctx_def)
qed

text \<open>An unmarked node: the key is read and \<open>prev\<close> is read again.\<close>

lemma runs_recheck:
  assumes "cur \<noteq> 0" "read_cell (th_prev (lf_threads s t)) (lf_mem s) = Some cur" "lf_heap (lf_mem s) cur = Some x" "\<not> mp_isMarked (lf_next x)"
  shows "runs t (loop_head t cur s) (upd_thread t (\<lambda>l. l\<lparr>th_cur_key := lf_data x, th_pc := LRecheck\<rparr>) (loaded t cur (lf_next x) s))"
  by (rule runs_last [OF runs_loaded [OF assms(1-3)]]) (use assms in \<open>simp add: lf_step_def Let_def\<close>)

lemma looks_stop:
  fixes m :: "('k :: linorder, 'v) lf_list"
  assumes cur: "cur \<noteq> 0" "read_cell prev m = Some cur" "lf_heap m cur = Some x" "\<not> mp_isMarked (lf_next x)" "lf_data x \<ge> key"
  shows "looks t n key prev cur m (lf_data x = key, \<lparr>ctx_prev = prev, ctx_cur = cur, ctx_next = lf_next x\<rparr>, m\<lparr>lf_hps := set_hp t 0 cur (lf_hps m)\<rparr>)"
  unfolding looks_def prod.case
proof (intro allI impI)
  fix s :: "('k, 'v) lf_system"
  assume s: "lf_mem s = m" "th_key (lf_threads s t) = key" "th_prev (lf_threads s t) = prev" and sh: "hz_shape 2 n (lf_hps m)"
  let ?s2 = "upd_thread t (\<lambda>l. l\<lparr>th_cur_key := lf_data x, th_pc := LRecheck\<rparr>) (loaded t cur (lf_next x) s)"
  have "lf_step t ?s2 = lookup_return t (lf_data x = key) ?s2" using s cur by (simp add: lf_step_def Let_def upd_thread_def)
  then have "runs t (loop_head t cur s) (lookup_return t (lf_data x = key) ?s2)"
    by (rule runs_last [OF runs_recheck, rotated -1]) (use s cur in simp_all)
  moreover have "same_call t s ?s2" using loaded_simps(3) [of t s cur "lf_next x"] by (auto simp: upd_thread_def same_call_def)
  moreover have "lf_mem ?s2 = m\<lparr>lf_hps := set_hp t 0 cur (lf_hps m)\<rparr>" "th_prev (lf_threads ?s2 t) = prev" "th_cur (lf_threads ?s2 t) = cur"
      "th_next (lf_threads ?s2 t) = lf_next x"
    using s by (simp_all add: upd_thread_def)
  ultimately show "\<exists>s'. runs t (loop_head t cur s) (lookup_return t (lf_data x = key) s') \<and> same_call t s s' \<and>
      lf_mem s' = m\<lparr>lf_hps := set_hp t 0 cur (lf_hps m)\<rparr> \<and> hz_shape 2 n (lf_hps (m\<lparr>lf_hps := set_hp t 0 cur (lf_hps m)\<rparr>)) \<and>
      th_prev (lf_threads s' t) = ctx_prev \<lparr>ctx_prev = prev, ctx_cur = cur, ctx_next = lf_next x\<rparr> \<and>
      th_cur (lf_threads s' t) = ctx_cur \<lparr>ctx_prev = prev, ctx_cur = cur, ctx_next = lf_next x\<rparr> \<and>
      (lf_data x = key \<longrightarrow> th_next (lf_threads s' t) = ctx_next \<lparr>ctx_prev = prev, ctx_cur = cur, ctx_next = lf_next x\<rparr>)"
    using hz_shape_set_hp [OF sh] by (intro exI [of _ ?s2]) (simp add: upd_thread_def)
qed

text \<open>A smaller key: the state between the two writes of the swap, then the next turn.\<close>

definition half_swapped :: "nat \<Rightarrow> nat \<Rightarrow> ('k, 'v) lf_node \<Rightarrow> ('k, 'v) lf_system \<Rightarrow> ('k, 'v) lf_system" where
  "half_swapped t cur x s =
     (let hp = getHPRec t (set_hp t 0 cur (lf_hps (lf_mem s)))
      in write_hp t 0 (hp ! 1) (upd_thread t (\<lambda>l. l\<lparr>th_prev := NextOf (th_cur l), th_temp := hp ! 0, th_pc := LSwap1\<rparr>)
           (goto_pc t LSwap0 (upd_thread t (\<lambda>l. l\<lparr>th_cur_key := lf_data x, th_pc := LRecheck\<rparr>) (loaded t cur (lf_next x) s)))))"

lemma half_swapped_simps:
  "lf_mem (half_swapped t cur x s) = (lf_mem s)\<lparr>lf_hps :=
     set_hp t 0 (getHPRec t (set_hp t 0 cur (lf_hps (lf_mem s))) ! 1) (set_hp t 0 cur (lf_hps (lf_mem s)))\<rparr>"
  "th_pc (lf_threads (half_swapped t cur x s) t) = LSwap1" "th_prev (lf_threads (half_swapped t cur x s) t) = NextOf cur"
  "th_temp (lf_threads (half_swapped t cur x s) t) = getHPRec t (set_hp t 0 cur (lf_hps (lf_mem s))) ! 0"
  "th_next (lf_threads (half_swapped t cur x s) t) = lf_next x" "same_call t s (half_swapped t cur x s)"
  using loaded_simps(3) [of t s cur "lf_next x"] by (simp_all add: half_swapped_def Let_def upd_thread_def write_hp_def same_call_def)

lemma runs_half_swapped:
  assumes cur: "cur \<noteq> 0" "read_cell (th_prev (lf_threads s t)) (lf_mem s) = Some cur" "lf_heap (lf_mem s) cur = Some x" "\<not> mp_isMarked (lf_next x)"
    and less: "lf_data x < th_key (lf_threads s t)"
  shows "runs t (loop_head t cur s) (half_swapped t cur x s)"
proof -
  let ?s2 = "upd_thread t (\<lambda>l. l\<lparr>th_cur_key := lf_data x, th_pc := LRecheck\<rparr>) (loaded t cur (lf_next x) s)"
  have "lf_step t ?s2 = goto_pc t LSwap0 ?s2" using cur less by (auto simp: lf_step_def Let_def upd_thread_def)
  with runs_recheck [OF cur] have "runs t (loop_head t cur s) (goto_pc t LSwap0 ?s2)" by (rule runs_last)
  then show ?thesis by (rule runs_last) (simp add: lf_step_def Let_def upd_thread_def half_swapped_def)
qed

lemma turn_swap:
  assumes s: "lf_mem s = m" "th_key (lf_threads s t) = key" "th_prev (lf_threads s t) = prev" and sh: "hz_shape 2 n (lf_hps m)"
    and cur: "cur \<noteq> 0" "read_cell prev m = Some cur" "lf_heap m cur = Some x" "\<not> mp_isMarked (lf_next x)" "lf_data x < key"
    and m1: "m1 = m\<lparr>lf_hps := swap_hp t (set_hp t 0 cur (lf_hps m))\<rparr>"
  shows "\<exists>s1. turn t cur s (lf_next x) s1 \<and> lf_mem s1 = m1 \<and> th_prev (lf_threads s1 t) = NextOf cur \<and> hz_shape 2 n (lf_hps m1)"
proof -
  let ?s4 = "half_swapped t cur x s"
  let ?s5 = "write_hp t 1 (th_temp (lf_threads ?s4 t)) ?s4"
  have "runs t (loop_head t cur s) ?s4" by (rule runs_half_swapped) (use s cur in simp_all)
  then have "runs t (loop_head t cur s) (loop_head t (lf_next x) ?s5)"
    by (rule runs_last) (simp add: lf_step_def Let_def half_swapped_simps)
  moreover have "lf_mem ?s5 = m1" "th_prev (lf_threads ?s5 t) = NextOf cur" "same_call t s ?s5"
    using s half_swapped_simps(3) [of t cur x s] half_swapped_simps(6) [of t s cur x]
    by (simp_all add: m1 write_hp_def swap_hp_def Let_def half_swapped_simps(1,4) same_call_def)
  moreover have "hz_shape 2 n (lf_hps m1)" using sh by (simp add: m1 swap_hp_def Let_def hz_shape_set_hp)
  ultimately show ?thesis by (auto simp: turn_def)
qed

lemma looks_again:
  fixes m :: "('k :: linorder, 'v) lf_list"
  assumes cur: "cur \<noteq> 0" "read_cell prev m = Some v" "v \<noteq> cur" and m1: "m1 = m\<lparr>lf_hps := set_hp t 0 cur (lf_hps m)\<rparr>"
    and rec: "looks t n key HeadCell (lf_head m1) m1 r"
  shows "looks t n key prev cur m r"
proof (rule looks_turn [OF rec])
  fix s :: "('k, 'v) lf_system"
  assume s: "lf_mem s = m" "th_prev (lf_threads s t) = prev" "hz_shape 2 n (lf_hps m)"
  have mem: "lf_mem (published t cur s) = m1" using s(1) by (simp add: m1)
  have "runs t (loop_head t cur s) (goto_pc t LStart (published t cur s))"
    by (rule runs_last [OF runs_published [OF cur(1)]]) (use s cur in \<open>simp add: lf_step_def Let_def\<close>)
  from again_turn [OF this published_simps(3), unfolded mem]
  show "\<exists>s1. turn t cur s (lf_head m1) s1 \<and> lf_mem s1 = m1 \<and> th_prev (lf_threads s1 t) = HeadCell \<and> hz_shape 2 n (lf_hps m1)"
    using s(3) by (auto simp: m1 hz_shape_set_hp)
qed

text \<open>Whatever the sequential loop returns, the machine returns too.\<close>

lemma looks_loop:
  fixes m :: "('k :: linorder, 'v) lf_list"
  assumes "lookup_loop t HeadCell key prev cur nxt m = Some r" "t < n"
  shows "looks t n key prev cur m r"
proof -
  have "start = HeadCell \<Longrightarrow> t < n \<Longrightarrow> looks t n key prev cur m r" if "lookup_loop t start key prev cur nxt m = Some r" for start
  proof (rule lookup_loop.raw_induct [of "\<lambda>t start key prev cur nxt m r. start = HeadCell \<longrightarrow> t < n \<longrightarrow> looks t n key prev cur m r",
        OF _ that, rule_format], goal_cases)
    case (1 rec t start key prev cur nxt m r)
    note ih = 1(3) and step = 1(4) and start = 1(5) and t = 1(6)
    let ?m1 = "m\<lparr>lf_hps := set_hp t 0 cur (lf_hps m)\<rparr>"
    have rec: "rec t start key prev' cur' nxt' m' = Some r \<Longrightarrow> looks t n key prev' cur' m' r" for prev' cur' nxt' m'
      using ih start t by blast
    show ?case
    proof (cases "cur = 0")
      case True
      then have "r = (False, \<lparr>ctx_prev = prev, ctx_cur = 0, ctx_next = nxt\<rparr>, m)" using step by simp
      then show ?thesis using True looks_null by metis
    next
      case False
      then obtain v where v: "read_cell prev m = Some v" using step by (cases "read_cell prev m") auto
      show ?thesis
      proof (cases "v = cur")
        case v': False
        then have "looks t n key HeadCell (lf_head ?m1) ?m1 r" using step False v start by (intro rec) simp
        from looks_again [OF False v v' refl this] show ?thesis .
      next
        case True
        then obtain x where x: "lf_heap m cur = Some x" using step False v by (cases "lf_heap m cur") auto
        note cur = False v [unfolded True] x
        show ?thesis
        proof (cases "mp_isMarked (lf_next x)")
          case marked: True
          let ?q = "mp_unmark (lf_next x)"
          obtain m2 where m2: "write_cell prev ?q ?m1 = Some m2" using v by (cases prev) auto
          then obtain m3 where m3: "retire t cur m2 = Some m3" "rec t start key prev ?q (lf_next x) m3 = Some r"
            using step cur marked by (cases "retire t cur m2") (auto simp: cas_cell_def simp del: mp_unmark_nat)
          show ?thesis
            by (rule looks_turn [OF rec [OF m3(2)]], rule turn_unlink [OF _ _ _ t cur marked m2 m3(1)])
        next
          case unmarked: False
          show ?thesis
          proof (cases "lf_data x \<ge> key")
            case True
            then have "r = (lf_data x = key, \<lparr>ctx_prev = prev, ctx_cur = cur, ctx_next = lf_next x\<rparr>, ?m1)"
              using step cur unmarked by simp
            then show ?thesis using looks_stop [OF cur unmarked True] by simp
          next
            case less: False
            let ?m2 = "m\<lparr>lf_hps := swap_hp t (set_hp t 0 cur (lf_hps m))\<rparr>"
            have "rec t start key (NextOf cur) (lf_next x) (lf_next x) ?m2 = Some r" using step cur unmarked less by simp
            from looks_turn [OF rec [OF this]] show ?thesis
              using turn_swap [OF _ _ _ _ cur unmarked, of _ t key n ?m2] less by (simp add: not_le)
          qed
        qed
      qed
    qed
  qed
  then show ?thesis using assms by blast
qed

lemma lookupInternal_runs:
  assumes "lookupInternal t HeadCell (th_key (lf_threads s t)) (lf_mem s) = Some (found, ctx, m')" "t < n"
    and "hz_shape 2 n (lf_hps (lf_mem s))" "th_pc (lf_threads s t) = LStart"
  shows "\<exists>s'. runs t s (lookup_return t found s') \<and> same_call t s s' \<and> lf_mem s' = m' \<and> hz_shape 2 n (lf_hps m') \<and>
    th_prev (lf_threads s' t) = ctx_prev ctx \<and> th_cur (lf_threads s' t) = ctx_cur ctx \<and>
    (found \<longrightarrow> th_next (lf_threads s' t) = ctx_next ctx)"
proof -
  let ?s1 = "upd_thread t (\<lambda>l. l\<lparr>th_prev := HeadCell\<rparr>) s"
  have s1: "lf_mem ?s1 = lf_mem s" "th_key (lf_threads ?s1 t) = th_key (lf_threads s t)" "th_prev (lf_threads ?s1 t) = HeadCell" "same_call t s ?s1"
    by (simp_all add: upd_thread_def same_call_def)
  have "looks t n (th_key (lf_threads s t)) HeadCell (lf_head (lf_mem s)) (lf_mem s) (found, ctx, m')"
    using assms(1,2) by (intro looks_loop) (auto simp: lookupInternal_def)
  then obtain s' where s': "runs t (loop_head t (lf_head (lf_mem s)) ?s1) (lookup_return t found s')" "same_call t ?s1 s'" "lf_mem s' = m'"
      "hz_shape 2 n (lf_hps m')" "th_prev (lf_threads s' t) = ctx_prev ctx" "th_cur (lf_threads s' t) = ctx_cur ctx"
      "found \<longrightarrow> th_next (lf_threads s' t) = ctx_next ctx"
    using s1(1-3) assms(3) unfolding looks_def prod.case by blast
  have "runs t s (lookup_return t found s')" by (rule rtranclp_trans [OF runs_again [OF assms(4)] s'(1)])
  then show ?thesis using same_call_trans [OF s1(4) s'(2)] s'(3-7) by blast
qed

section \<open>Calls\<close>

text \<open>A run within a call of \<open>t\<close>, and one to its end.\<close>

definition along :: "nat \<Rightarrow> ('k, 'v) lf_system \<Rightarrow> ('k, 'v) lf_system \<Rightarrow> bool" where
  "along t s s' \<longleftrightarrow> (\<forall>u. u \<noteq> t \<longrightarrow> lf_threads s' u = lf_threads s u) \<and> lf_crashed s' = lf_crashed s \<and> lf_log s' = lf_log s \<and>
     call_of (lf_threads s' t) = call_of (lf_threads s t)"

definition call_done :: "nat \<Rightarrow> 'k set_call \<Rightarrow> bool \<Rightarrow> ('k, 'v) lf_system \<Rightarrow> ('k, 'v) lf_system \<Rightarrow> bool" where
  "call_done t c r s s' \<longleftrightarrow> (\<forall>u. u \<noteq> t \<longrightarrow> lf_threads s' u = lf_threads s u) \<and> lf_crashed s' = lf_crashed s \<and>
     th_pc (lf_threads s' t) = PIdle \<and> (\<exists>i j. lf_log s' = lf_log s @ [(t, c, r, i, j)])"

lemma call_of_pc [simp]: "call_of (l\<lparr>th_pc := p\<rparr>) = call_of l"
  by (cases "th_why l") (simp_all add: call_of_def)

lemma same_call_along: "same_call t s s' \<Longrightarrow> along t s s'"
  by (cases "th_why (lf_threads s t)") (simp_all add: same_call_def along_def call_of_def)

lemma along_trans: "along t s s1 \<Longrightarrow> along t s1 s2 \<Longrightarrow> along t s s2"
  by (simp add: along_def)

lemma along_done: "along t s s1 \<Longrightarrow> call_done t c r s1 s2 \<Longrightarrow> call_done t c r s s2"
  by (auto simp: along_def call_done_def)

lemma respond_done: "along t s s1 \<Longrightarrow> call_of (lf_threads s t) = c \<Longrightarrow> call_done t c r s (respond t r s1)"
  by (auto simp: along_def call_done_def respond_def upd_thread_def)

lemma respond_mem [simp]: "lf_mem (respond t r s) = lf_mem s"
  by (simp add: respond_def upd_thread_def)

lemma lookup_runs:
  assumes "LockFreeList_lookup t (th_key (lf_threads s t)) (lf_mem s) = Some (r, m')" "t < n" "hz_shape 2 n (lf_hps (lf_mem s))"
    and pc: "th_pc (lf_threads s t) = LStart" and why: "th_why (lf_threads s t) = ForLookup"
  shows "\<exists>s'. runs t s s' \<and> lf_mem s' = m' \<and> call_done t (MemCall (th_key (lf_threads s t))) r s s'"
proof -
  obtain ctx where "lookupInternal t HeadCell (th_key (lf_threads s t)) (lf_mem s) = Some (r, ctx, m')"
    using assms(1) by (auto simp: LockFreeList_lookup_def)
  then obtain s' where s': "runs t s (lookup_return t r s')" "same_call t s s'" "lf_mem s' = m'"
    using lookupInternal_runs [OF _ assms(2,3) pc] by blast
  have "lookup_return t r s' = respond t r s'" using s'(2) why by (simp add: lookup_return_def same_call_def)
  then show ?thesis
    using s' respond_done [OF same_call_along [OF s'(2)], of "MemCall (th_key (lf_threads s t))" r] why
    by (intro exI [of _ "respond t r s'"]) (simp add: call_of_def)
qed

lemma insert_loop_runs:
  fixes m :: "('k :: linorder, 'v) lf_list"
  assumes "insert_loop t HeadCell key new m = Some (ins, a, m')" "t < n"
  shows "\<forall>s. lf_mem s = m \<longrightarrow> th_key (lf_threads s t) = key \<longrightarrow> th_new (lf_threads s t) = new \<longrightarrow> th_why (lf_threads s t) = ForInsert \<longrightarrow>
    th_pc (lf_threads s t) = LStart \<longrightarrow> hz_shape 2 n (lf_hps m) \<longrightarrow>
    (\<exists>s'. runs t s s' \<and> lf_mem s' = m' \<and> call_done t (InsCall key) ins s s')"
proof -
  let ?P = "\<lambda>t start key new m r. start = HeadCell \<longrightarrow> t < n \<longrightarrow> (\<forall>s :: ('k, 'v) lf_system.
    lf_mem s = m \<longrightarrow> th_key (lf_threads s t) = key \<longrightarrow> th_new (lf_threads s t) = new \<longrightarrow> th_why (lf_threads s t) = ForInsert \<longrightarrow>
    th_pc (lf_threads s t) = LStart \<longrightarrow> hz_shape 2 n (lf_hps m) \<longrightarrow>
    (\<exists>s'. runs t s s' \<and> lf_mem s' = snd (snd r) \<and> call_done t (InsCall key) (fst r) s s'))"
  have "?P t HeadCell key new m (ins, a, m')"
  proof (rule insert_loop.raw_induct [of ?P, OF _ assms(1)], intro impI allI, goal_cases)
    case (1 rec t start key new m r s)
    note ih = 1(1) and step = 1(2) and start = 1(3) and t = 1(4) and s = 1(5-10)
    obtain found ctx m1 where look: "lookupInternal t HeadCell key m = Some (found, ctx, m1)" using step start by (auto simp: bind_eq_Some_conv)
    obtain s1 where s1: "runs t s (lookup_return t found s1)" "same_call t s s1" "lf_mem s1 = m1" "hz_shape 2 n (lf_hps m1)"
        "th_prev (lf_threads s1 t) = ctx_prev ctx" "th_cur (lf_threads s1 t) = ctx_cur ctx"
      using lookupInternal_runs [of t s found ctx m1 n] look t s by auto
    have l1: "th_key (lf_threads s1 t) = key" "th_new (lf_threads s1 t) = new" "th_why (lf_threads s1 t) = ForInsert"
      using s1(2) s by (auto simp: same_call_def)
    have call: "call_of (lf_threads s t) = InsCall key" using s by (simp add: call_of_def)
    show ?case
    proof (cases found)
      case True
      then obtain m2 where m2: "delete_nodes {new} m1 = Some m2" "r = (False, ctx_cur ctx, m2)"
        using step look start by (auto simp: bind_eq_Some_conv)
      let ?s2 = "set_mem m2 (goto_pc t IDelete s1)"
      have "lookup_return t found s1 = goto_pc t IDelete s1" using l1 True by (simp add: lookup_return_def)
      then have "runs t s (respond t False ?s2)"
        using s1(3) m2(1) l1 by (intro runs_last [OF s1(1)]) (simp add: lf_step_def Let_def upd_thread_def)
      moreover have "along t s ?s2" using same_call_along [OF s1(2)] by (simp add: along_def upd_thread_def)
      from respond_done [OF this call] have "call_done t (InsCall key) False s (respond t False ?s2)" .
      ultimately show ?thesis using m2(2) by (intro exI [of _ "respond t False ?s2"]) simp
    next
      case False
      obtain m2 ok m3 where m2: "write_cell (NextOf new) (ctx_cur ctx) m1 = Some m2" "cas_cell (ctx_prev ctx) (ctx_cur ctx) new m2 = Some (ok, m3)"
        "(if ok then Some (True, new, m3) else rec t start key new m3) = Some r"
        using step look start False by (auto simp: bind_eq_Some_conv)
      let ?s2 = "goto_pc t ICas (set_mem m2 (goto_pc t IStore s1))"
      have "lookup_return t found s1 = goto_pc t IStore s1" using l1 False by (simp add: lookup_return_def)
      then have r2: "runs t s ?s2"
        using s1(3,6) m2(1) l1 by (intro runs_last [OF s1(1)]) (auto simp: lf_step_def Let_def upd_thread_def)
      have a2: "along t s ?s2" using same_call_along [OF s1(2)] by (simp add: along_def upd_thread_def)
      show ?thesis
      proof (cases ok)
        case True
        let ?s3 = "record_move t (insert key) (set_mem m3 ?s2)"
        have "runs t s (respond t True ?s3)"
          using s1(5,6) m2(2) l1 True by (intro runs_last [OF r2]) (simp add: lf_step_def Let_def upd_thread_def cas_step_def)
        moreover have "along t s ?s3" using a2 by (simp add: along_def record_move_def)
        from respond_done [OF this call] have "call_done t (InsCall key) True s (respond t True ?s3)" .
        moreover have "lf_mem ?s3 = m3" by (simp add: record_move_def)
        ultimately show ?thesis using m2(3) True by (intro exI [of _ "respond t True ?s3"]) auto
      next
        case ko: False
        let ?s3 = "goto_pc t LStart ?s2"
        have r3: "runs t s ?s3"
          using s1(5,6) m2(2) l1 ko by (intro runs_last [OF r2]) (simp add: lf_step_def Let_def upd_thread_def cas_step_def)
        have a3: "along t s ?s3" using a2 by (simp add: along_def upd_thread_def)
        have m3: "m3 = m2" using m2(2) ko by (auto simp: cas_cell_def bind_eq_Some_conv split: if_splits)
        have l3: "lf_mem ?s3 = m3" "th_key (lf_threads ?s3 t) = key" "th_new (lf_threads ?s3 t) = new" "th_why (lf_threads ?s3 t) = ForInsert"
            "th_pc (lf_threads ?s3 t) = LStart"
          using l1 m3 by (simp_all add: upd_thread_def)
        have "hz_shape 2 n (lf_hps m3)" "rec t start key new m3 = Some r" using m2(1,3) ko m3 s1(4) by auto
        then obtain s' where "runs t ?s3 s'" "lf_mem s' = snd (snd r)" "call_done t (InsCall key) (fst r) ?s3 s'"
          using ih [rule_format, of t start key new m3 r ?s3] l3 start t by blast
        then show ?thesis using rtranclp_trans [OF r3] along_done [OF a3] by blast
      qed
    qed
  qed
  then show ?thesis using assms(2) by simp
qed

text \<open>The physical deletion at the end of \<open>remove\<close>.\<close>

lemma remove_tail_runs:
  assumes r2: "runs t s s2" and a2: "along t s s2" and call: "call_of (lf_threads s t) = RemCall key"
    and l2: "th_prev (lf_threads s2 t) = ctx_prev ctx" "th_cur (lf_threads s2 t) = ctx_cur ctx" "th_next (lf_threads s2 t) = ctx_next ctx"
      "lf_mem s2 = m2" "th_pc (lf_threads s2 t) = RUnlink" "th_key (lf_threads s2 t) = key" "th_why (lf_threads s2 t) = ForRemove"
    and cas: "cas_cell (ctx_prev ctx) (ctx_cur ctx) (ctx_next ctx) m2 = Some (unl, m3)"
    and res: "(if unl then retire t (ctx_cur ctx) m3 \<bind> (\<lambda>s4. Some (True, s4))
      else lookupInternal t HeadCell key m3 \<bind> (\<lambda>(_, _, s4). Some (True, s4))) = Some r"
    and sh3: "hz_shape 2 n (lf_hps m3)" "t < n"
  shows "\<exists>s'. runs t s s' \<and> lf_mem s' = snd r \<and> call_done t (RemCall key) (fst r) s s'"
proof (cases unl)
  case True
  then obtain m4 where m4: "retire t (ctx_cur ctx) m3 = Some m4" "r = (True, m4)" using res by (auto simp: bind_eq_Some_conv)
  let ?s3 = "goto_pc t RRetire (set_mem m3 s2)"
  have "runs t s ?s3" using l2 cas True by (intro runs_last [OF r2]) (simp add: lf_step_def Let_def cas_step_def)
  then have r3: "runs t s (retire_step t False ?s3)" by (rule runs_last) (simp add: lf_step_def Let_def upd_thread_def)
  have c3: "th_cur (lf_threads ?s3 t) = ctx_cur ctx" "lf_mem ?s3 = m3" using l2 by (simp_all add: upd_thread_def)
  obtain s4 where s4: "runs t (retire_step t False ?s3) (after_retire t False s4)" "same_ctx t ?s3 s4" "lf_mem s4 = m4"
    using retire_runs [of n ?s3 t m4 False, unfolded c3, OF sh3 m4(1)] by blast
  have "along t s ?s3" using a2 by (simp add: along_def upd_thread_def)
  then have "along t s s4" using s4(2) same_call_along along_trans unfolding same_ctx_def by blast
  from respond_done [OF this call] have "call_done t (RemCall key) True s (respond t True s4)" .
  moreover have "runs t s (respond t True s4)" using rtranclp_trans [OF r3 s4(1)] by (simp add: after_retire_def)
  ultimately show ?thesis using s4(3) m4(2) by (intro exI [of _ "respond t True s4"]) simp
next
  case False
  then obtain found ctx' m4 where m4: "lookupInternal t HeadCell key m3 = Some (found, ctx', m4)" "r = (True, m4)"
    using res by (auto simp: bind_eq_Some_conv)
  have m3: "m3 = m2" using cas False by (auto simp: cas_cell_def bind_eq_Some_conv split: if_splits)
  let ?s3 = "upd_thread t (\<lambda>l. l\<lparr>th_why := ForHelp, th_pc := LStart\<rparr>) s2"
  have r3: "runs t s ?s3" using l2 cas False by (intro runs_last [OF r2]) (simp add: lf_step_def Let_def cas_step_def)
  have a3: "along t s ?s3" using a2 l2(6,7) by (simp add: along_def upd_thread_def call_of_def)
  obtain s4 where s4: "runs t ?s3 (lookup_return t found s4)" "same_call t ?s3 s4" "lf_mem s4 = m4"
    using lookupInternal_runs [of t ?s3 found ctx' m4 n] m4(1) l2(4,6) m3 sh3 by (auto simp: upd_thread_def)
  have "lookup_return t found s4 = respond t True s4" using s4(2) by (simp add: lookup_return_def same_call_def upd_thread_def)
  then have "runs t s (respond t True s4)" using rtranclp_trans [OF r3 s4(1)] by simp
  moreover have "call_done t (RemCall key) True s (respond t True s4)"
    by (rule respond_done [OF along_trans [OF a3 same_call_along [OF s4(2)]] call])
  ultimately show ?thesis using s4(3) m4(2) by (intro exI [of _ "respond t True s4"]) simp
qed

lemma remove_loop_runs:
  fixes m :: "('k :: linorder, 'v) lf_list"
  assumes "remove_loop t HeadCell key m = Some (ok, m')" "t < n"
  shows "\<forall>s. lf_mem s = m \<longrightarrow> th_key (lf_threads s t) = key \<longrightarrow> th_why (lf_threads s t) = ForRemove \<longrightarrow>
    th_pc (lf_threads s t) = LStart \<longrightarrow> hz_shape 2 n (lf_hps m) \<longrightarrow>
    (\<exists>s'. runs t s s' \<and> lf_mem s' = m' \<and> call_done t (RemCall key) ok s s')"
proof -
  let ?P = "\<lambda>t start key m r. start = HeadCell \<longrightarrow> t < n \<longrightarrow> (\<forall>s :: ('k, 'v) lf_system.
    lf_mem s = m \<longrightarrow> th_key (lf_threads s t) = key \<longrightarrow> th_why (lf_threads s t) = ForRemove \<longrightarrow>
    th_pc (lf_threads s t) = LStart \<longrightarrow> hz_shape 2 n (lf_hps m) \<longrightarrow>
    (\<exists>s'. runs t s s' \<and> lf_mem s' = snd r \<and> call_done t (RemCall key) (fst r) s s'))"
  have "?P t HeadCell key m (ok, m')"
  proof (rule remove_loop.raw_induct [of ?P, OF _ assms(1)], intro impI allI, goal_cases)
    case (1 rec t start key m r s)
    note ih = 1(1) and step = 1(2) and start = 1(3) and t = 1(4) and s = 1(5-9)
    obtain found ctx m1 where look: "lookupInternal t HeadCell key m = Some (found, ctx, m1)" using step start by (auto simp: bind_eq_Some_conv)
    obtain s1 where s1: "runs t s (lookup_return t found s1)" "same_call t s s1" "lf_mem s1 = m1" "hz_shape 2 n (lf_hps m1)"
        "th_prev (lf_threads s1 t) = ctx_prev ctx" "th_cur (lf_threads s1 t) = ctx_cur ctx" "found \<longrightarrow> th_next (lf_threads s1 t) = ctx_next ctx"
      using lookupInternal_runs [of t s found ctx m1 n] look t s by auto
    have l1: "th_key (lf_threads s1 t) = key" "th_why (lf_threads s1 t) = ForRemove" using s1(2) s by (auto simp: same_call_def)
    have call: "call_of (lf_threads s t) = RemCall key" using s by (simp add: call_of_def)
    note a1 = same_call_along [OF s1(2)]
    show ?case
    proof (cases found)
      case False
      then have "lookup_return t found s1 = respond t False s1" "r = (False, m1)"
        using l1 step look start by (auto simp: lookup_return_def bind_eq_Some_conv)
      then show ?thesis using s1(1,3) respond_done [OF a1 call, of False] by (intro exI [of _ "respond t False s1"]) simp
    next
      case True
      let ?c = "NextOf (ctx_cur ctx)"
      obtain marked m2 where m2: "cas_cell ?c (ctx_next ctx) (mp_mark (ctx_next ctx)) m1 = Some (marked, m2)"
        using step look start True by (auto simp: bind_eq_Some_conv)
      have ret: "lookup_return t found s1 = goto_pc t RMark s1" using l1 True by (simp add: lookup_return_def)
      show ?thesis
      proof (cases marked)
        case ko: False
        let ?s2 = "goto_pc t LStart (goto_pc t RMark s1)"
        have r2: "runs t s ?s2"
          using s1(3,6,7) ret m2 ko True by (intro runs_last [OF s1(1)]) (simp add: lf_step_def Let_def upd_thread_def cas_step_def)
        have a2: "along t s ?s2" using a1 by (simp add: along_def upd_thread_def)
        have m1: "m2 = m1" using m2 ko by (auto simp: cas_cell_def bind_eq_Some_conv split: if_splits)
        have l2: "lf_mem ?s2 = m2" "th_key (lf_threads ?s2 t) = key" "th_why (lf_threads ?s2 t) = ForRemove" "th_pc (lf_threads ?s2 t) = LStart"
          using l1 m1 s1(3) by (simp_all add: upd_thread_def)
        have "hz_shape 2 n (lf_hps m2)" "rec t start key m2 = Some r" using step look start True m2 ko m1 s1(4) by auto
        then obtain s' where "runs t ?s2 s'" "lf_mem s' = snd r" "call_done t (RemCall key) (fst r) ?s2 s'"
          using ih [rule_format, of t start key m2 r ?s2] l2 start t by blast
        then show ?thesis using rtranclp_trans [OF r2] along_done [OF a2] by blast
      next
        case marked: True
        let ?s2 = "goto_pc t RUnlink (record_move t (\<lambda>A. A - {key}) (set_mem m2 (goto_pc t RMark s1)))"
        have r2: "runs t s ?s2"
          using s1(3,6,7) ret m2 marked True l1 by (intro runs_last [OF s1(1)]) (simp add: lf_step_def Let_def upd_thread_def cas_step_def)
        have a2: "along t s ?s2" using a1 by (simp add: along_def upd_thread_def record_move_def)
        have sh2: "hz_shape 2 n (lf_hps m2)"
          using m2 s1(4) by (auto simp: cas_cell_def bind_eq_Some_conv split: if_splits)
        have l2: "th_prev (lf_threads ?s2 t) = ctx_prev ctx" "th_cur (lf_threads ?s2 t) = ctx_cur ctx" "th_next (lf_threads ?s2 t) = ctx_next ctx"
            "lf_mem ?s2 = m2" "th_pc (lf_threads ?s2 t) = RUnlink" "th_key (lf_threads ?s2 t) = key" "th_why (lf_threads ?s2 t) = ForRemove"
          using s1(5-7) True l1 by (simp_all add: upd_thread_def record_move_def)
        obtain unl m3 where m3: "cas_cell (ctx_prev ctx) (ctx_cur ctx) (ctx_next ctx) m2 = Some (unl, m3)"
            "(if unl then retire t (ctx_cur ctx) m3 \<bind> (\<lambda>s4. Some (True, s4))
              else lookupInternal t start key m3 \<bind> (\<lambda>(_, _, s4). Some (True, s4))) = Some r"
          using step look start True m2 marked by (auto simp: bind_eq_Some_conv)
        have sh3: "hz_shape 2 n (lf_hps m3)"
          using m3(1) sh2 by (cases "ctx_prev ctx") (auto simp: cas_cell_def bind_eq_Some_conv split: if_splits)
        show ?thesis
          by (rule remove_tail_runs [OF r2 a2 call l2 m3(1) _ sh3 t]) (use m3(2) start in \<open>auto split: if_splits\<close>)
      qed
    qed
  qed
  then show ?thesis using assms(2) by simp
qed

text \<open>The call as the sequential model runs it.\<close>

definition sequential_call :: "nat \<Rightarrow> 'k :: linorder set_call \<Rightarrow> ('k, 'v :: zero) lf_list \<Rightarrow> (bool \<times> ('k, 'v) lf_list) option" where
  "sequential_call t c m =
     (case c of InsCall k \<Rightarrow> LockFreeList_insert t k m | RemCall k \<Rightarrow> LockFreeList_remove t k m | MemCall k \<Rightarrow> LockFreeList_lookup t k m)"

lemma invoke_done: "call_done t c r (lf_invoke t c' s) s' \<Longrightarrow> call_done t c r s s'"
  by (cases c') (auto simp: call_done_def lf_invoke_def Let_def upd_thread_def new_node_def)

lemma call_runs:
  fixes s :: "('k :: linorder, 'v :: zero) lf_system"
  assumes "sequential_call t c (lf_mem s) = Some (r, m')" "t < n" "hz_shape 2 n (lf_hps (lf_mem s))"
  shows "\<exists>s'. runs t (lf_invoke t c s) s' \<and> lf_mem s' = m' \<and> call_done t c r s s'"
proof -
  let ?s = "lf_invoke t c s"
  have "\<exists>s'. runs t ?s s' \<and> lf_mem s' = m' \<and> call_done t c r ?s s'"
  proof (cases c)
    case (InsCall k)
    obtain new m1 where new: "new_node \<lparr>lf_data = k, lf_next = 0, lf_value = 0\<rparr> (lf_mem s) = (new, m1)" by fastforce
    obtain a where "insert_loop t HeadCell k new m1 = Some (r, a, m')"
      using assms(1) InsCall new by (auto simp: sequential_call_def LockFreeList_insert_def)
    note run = insert_loop_runs [OF this assms(2), rule_format, of ?s]
    have l: "lf_mem ?s = m1" "th_key (lf_threads ?s t) = k" "th_new (lf_threads ?s t) = new" "th_why (lf_threads ?s t) = ForInsert"
      "th_pc (lf_threads ?s t) = LStart"
      using new InsCall by (auto simp: lf_invoke_def Let_def upd_thread_def)
    have "hz_shape 2 n (lf_hps m1)" using new assms(3) by (auto simp: new_node_def Let_def)
    from run [OF l this, folded InsCall] show ?thesis .
  next
    case (RemCall k)
    have l: "lf_mem ?s = lf_mem s" "th_key (lf_threads ?s t) = k" "th_why (lf_threads ?s t) = ForRemove" "th_pc (lf_threads ?s t) = LStart"
      using RemCall by (auto simp: lf_invoke_def Let_def upd_thread_def)
    have "remove_loop t HeadCell k (lf_mem s) = Some (r, m')"
      using assms(1) RemCall by (simp add: sequential_call_def LockFreeList_remove_def)
    note run = remove_loop_runs [OF this assms(2), rule_format, of ?s]
    from run [OF l assms(3), folded RemCall] show ?thesis .
  next
    case (MemCall k)
    have "lf_mem ?s = lf_mem s" "th_key (lf_threads ?s t) = k" "th_why (lf_threads ?s t) = ForLookup" "th_pc (lf_threads ?s t) = LStart"
      using MemCall by (auto simp: lf_invoke_def Let_def upd_thread_def)
    then show ?thesis using lookup_runs [of t ?s r m' n] assms MemCall by (simp add: sequential_call_def)
  qed
  then show ?thesis using invoke_done by blast
qed

lemma runs_power: "runs t s s' \<Longrightarrow> \<exists>k. s' = (lf_step t ^^ k) s"
proof (induction rule: rtranclp_induct)
  case base
  show ?case by (rule exI [of _ 0]) simp
next
  case (step s1 s2)
  then obtain k where "s1 = (lf_step t ^^ k) s" by blast
  then show ?case using step(2) by (intro exI [of _ "Suc k"]) simp
qed

lemma lf_inv_shape: "lf_inv n m \<Longrightarrow> hz_shape 2 n (lf_hps m)"
  by (auto simp: lf_inv_def lf_core_def hp_inv_def Let_def)

lemma sequential_law:
  assumes "lf_inv n m" "t < n"
  shows "\<exists>r m'. sequential_call t c m = Some (r, m') \<and> lf_inv n m' \<and> set_spec [(t, c)] (lf_keys m) = ([r], lf_keys m')"
proof (cases c)
  case (InsCall k)
  then show ?thesis using LockFreeList_insert_law [OF assms(1), of t k] by (auto simp: sequential_call_def)
next
  case (RemCall k)
  then show ?thesis using LockFreeList_remove_law [OF assms, of k] by (auto simp: sequential_call_def)
next
  case (MemCall k)
  then show ?thesis using LockFreeList_lookup_law [OF assms(1), of t k] by (auto simp: sequential_call_def)
qed

section \<open>Properties\<close>

text \<open>
  C18. A call always ends when its thread runs alone, from any state in which the list is
  between calls: after finitely many steps the thread has returned, the memory is what the sequential model computes, the
  result and the new set are those of the mathematical set, and no other thread was touched.
\<close>

theorem LockFreeList_call_ends:
  fixes s :: "('k :: linorder, 'v :: zero) lf_system"
  assumes "lf_inv n (lf_mem s)" "t < n"
  shows "\<exists>k r. let s' = (lf_step t ^^ k) (lf_invoke t c s)
    in th_pc (lf_threads s' t) = PIdle \<and> sequential_call t c (lf_mem s) = Some (r, lf_mem s') \<and>
      set_spec [(t, c)] (lf_keys (lf_mem s)) = ([r], lf_keys (lf_mem s')) \<and> lf_inv n (lf_mem s') \<and>
      (\<exists>i j. lf_log s' = lf_log s @ [(t, c, r, i, j)]) \<and> lf_crashed s' = lf_crashed s \<and>
      (\<forall>u. u \<noteq> t \<longrightarrow> lf_threads s' u = lf_threads s u)"
proof -
  obtain r m' where m': "sequential_call t c (lf_mem s) = Some (r, m')" "lf_inv n m'" "set_spec [(t, c)] (lf_keys (lf_mem s)) = ([r], lf_keys m')"
    using sequential_law [OF assms] by blast
  obtain s' where s': "runs t (lf_invoke t c s) s'" "lf_mem s' = m'" "call_done t c r s s'"
    using call_runs [OF m'(1) assms(2) lf_inv_shape [OF assms(1)]] by blast
  obtain k where "s' = (lf_step t ^^ k) (lf_invoke t c s)" using runs_power [OF s'(1)] by blast
  then show ?thesis using m' s'(2,3) unfolding Let_def call_done_def by blast
qed

theorem LockFreeList_call_ends_witness:
  "\<exists>k i j s'. s' = (lf_step 1 ^^ k) (lf_invoke 1 (InsCall (5 :: nat)) (lf_system_new (\<lambda>_ _. 0) (\<lambda>_. blank_thread) 2 :: (nat, nat) lf_system)) \<and>
    lf_keys (lf_mem s') = {5} \<and> lf_log s' = [(1, InsCall 5, True, i, j)]"
proof -
  let ?s = "lf_system_new (\<lambda>_ _. 0) (\<lambda>_. blank_thread) 2 :: (nat, nat) lf_system"
  have mem: "lf_mem ?s = LockFreeList_new (\<lambda>_ _. 0) 2" "lf_log ?s = []" by (simp_all add: lf_system_new_def)
  show ?thesis
    using LockFreeList_call_ends [of 2 ?s 1 "InsCall 5"] unfolding mem Let_def
    by (auto simp: LockFreeList_new_inv)
qed

end
