(* ===== verification/Lf_Reclaim.thy ===== *)
theory Lf_Reclaim
  imports Lf_Alone
begin

text \<open>
  What reclamation does to the lock-free list. The two writes that swap the hazard pointers in \<open>lookupInternal\<close> leave, for
  a moment, no hazard pointer on the node the search stands on. A scan by another thread in that moment deletes the node, and the
  search then reads its \<open>next\<close> field.
\<close>

section \<open>Calls at the front of the list\<close>

lemma delete_nodes_empty: "delete_nodes {} m = Some m"
  by (simp add: delete_nodes_def restrict_map_def)

lemma insert_empty:
  assumes "lf_head m = 0" "b = 2 * lf_brk m + 2"
  shows "LockFreeList_insert t k m =
    Some (True, m\<lparr>lf_heap := (lf_heap m)(b \<mapsto> \<lparr>lf_data = k, lf_next = 0, lf_value = 0\<rparr>), lf_head := b, lf_brk := lf_brk m + 1\<rparr>)"
  using assms unfolding LockFreeList_insert_def new_node_def Let_def prod.case
  by (subst insert_loop.simps) (simp add: lookupInternal_def lookup_loop.simps cas_cell_def)

lemma insert_front:
  assumes "lf_head m = a" "a \<noteq> 0" "lf_heap m a = Some x" "even (lf_next x)" "k < lf_data x" "a \<noteq> b" "b = 2 * lf_brk m + 2"
  shows "LockFreeList_insert t k m =
    Some (True, m\<lparr>lf_heap := (lf_heap m)(b \<mapsto> \<lparr>lf_data = k, lf_next = a, lf_value = 0\<rparr>), lf_head := b,
      lf_hps := set_hp t 0 a (lf_hps m), lf_brk := lf_brk m + 1\<rparr>)"
  using assms unfolding LockFreeList_insert_def new_node_def Let_def prod.case
  by (subst insert_loop.simps)
    (auto simp: lookupInternal_def cas_cell_def lookup_loop_turn [of a HeadCell _ x _ t])

lemma remove_front:
  assumes "lf_head m = b" "b \<noteq> 0" "lf_heap m b = Some x" "even (lf_next x)" "lf_data x = k"
  shows "LockFreeList_remove t k m =
    map_option (\<lambda>m'. (True, m')) (retire t b (m\<lparr>lf_hps := set_hp t 0 b (lf_hps m),
      lf_heap := (lf_heap m)(b \<mapsto> x\<lparr>lf_next := Suc (lf_next x)\<rparr>), lf_head := lf_next x\<rparr>))"
proof -
  have "lookupInternal t HeadCell k m =
      Some (True, \<lparr>ctx_prev = HeadCell, ctx_cur = b, ctx_next = lf_next x\<rparr>, m\<lparr>lf_hps := set_hp t 0 b (lf_hps m)\<rparr>)"
    using assms by (simp add: lookupInternal_def lookup_loop_turn [of b HeadCell m x _ t])
  then show ?thesis
    unfolding LockFreeList_remove_def using assms
    by (subst remove_loop.simps) (simp add: cas_cell_def, simp add: map_option_case bind_split split: option.split)
qed

section \<open>Reaching a state\<close>

abbreviation lf_reach :: "('k :: linorder, 'v :: zero) lf_system \<Rightarrow> bool" where
  "lf_reach \<equiv> reach (lf_system_start 2) (lf_system_step 2)"

lemma step_reach: "lf_reach s \<Longrightarrow> t < 2 \<Longrightarrow> lf_reach (lf_step t s)"
  by (rule reach_step) (auto intro: lf_run)

lemma call_step: "lf_reach s \<Longrightarrow> th_pc (lf_threads s t) = PIdle \<Longrightarrow> t < 2 \<Longrightarrow> lf_reach (lf_invoke t c s)"
  by (rule reach_step) (auto intro: lf_call)

text \<open>Executions in which only thread \<open>t\<close> makes steps: it calls operations, and its calls go on.\<close>

abbreviation moves_of :: "nat \<Rightarrow> ('k :: linorder, 'v :: zero) lf_system \<Rightarrow> ('k, 'v) lf_system \<Rightarrow> bool" where
  "moves_of t \<equiv> (\<lambda>s s'. th_pc (lf_threads s t) = PIdle \<and> (\<exists>c. s' = lf_invoke t c s) \<or> s' = lf_step t s)\<^sup>*\<^sup>*"

lemma runs_moves: "runs t s s' \<Longrightarrow> moves_of t s s'"
  by (rule mono_rtranclp [rule_format]) auto

lemma moves_reach: "moves_of t s s' \<Longrightarrow> t < 2 \<Longrightarrow> lf_reach s \<Longrightarrow> lf_reach s'"
  by (induction rule: rtranclp_induct) (auto intro: step_reach call_step)

text \<open>A whole call, and what it leaves as it is.\<close>

definition called :: "nat \<Rightarrow> ('k :: linorder, 'v :: zero) lf_system \<Rightarrow> ('k, 'v) lf_system \<Rightarrow> bool" where
  "called t s s' \<longleftrightarrow> moves_of t s s' \<and> th_pc (lf_threads s' t) = PIdle \<and>
     (\<forall>u. u \<noteq> t \<longrightarrow> lf_threads s' u = lf_threads s u) \<and> lf_crashed s' = lf_crashed s"

lemma called_trans: "called t s s1 \<Longrightarrow> called t s1 s2 \<Longrightarrow> called t s s2"
  by (auto simp: called_def intro: rtranclp_trans)

lemma call_moves:
  assumes "th_pc (lf_threads s t) = PIdle" "t < 2" "hz_shape 2 2 (lf_hps (lf_mem s))" "sequential_call t c (lf_mem s) = Some (r, m')"
  obtains s' where "called t s s'" "lf_mem s' = m'"
proof -
  obtain s' where s': "runs t (lf_invoke t c s) s'" "lf_mem s' = m'" "call_done t c r s s'"
    using call_runs [OF assms(4,2,3)] by blast
  have "moves_of t s s'"
    using assms(1) by (intro converse_rtranclp_into_rtranclp [OF _ runs_moves [OF s'(1)]]) blast
  then show ?thesis using that s'(2,3) by (auto simp: call_done_def called_def)
qed

section \<open>Rounds of insertion and removal\<close>

text \<open>
  Node 2, with key 3, is linked; thread 1 has retired the nodes \<open>R\<close>, node 4 among them, to which no hazard pointer of thread 0 points.
\<close>

definition ready :: "nat set \<Rightarrow> (nat, nat) lf_list \<Rightarrow> bool" where
  "ready R m \<longleftrightarrow> hz_shape 2 2 (lf_hps m) \<and> lf_head m = 2 \<and> 2 \<le> lf_brk m \<and>
     lf_heap m 2 = Some \<lparr>lf_data = 3, lf_next = 0, lf_value = 0\<rparr> \<and> retired_lists (lf_hps m) ! 1 = R \<and> finite R \<and>
     (\<forall>a \<in> R. lf_heap m a \<noteq> None \<and> a \<le> 2 * lf_brk m) \<and> 4 \<in> R \<and> 2 \<notin> R \<and> 4 \<notin> set (hp_recs (lf_hps m) ! 0) \<and> hp_recs (lf_hps m) ! 1 ! 1 \<noteq> 4"

text \<open>The memory after thread 1 has inserted 1 and unlinked the node again, before it is retired.\<close>

definition unlinked_again :: "(nat, nat) lf_list \<Rightarrow> (nat, nat) lf_list" where
  "unlinked_again m =
     (let b = 2 * lf_brk m + 2
      in m\<lparr>lf_heap := (lf_heap m)(b \<mapsto> \<lparr>lf_data = 1, lf_next = 3, lf_value = 0\<rparr>), lf_brk := lf_brk m + 1,
           lf_hps := set_hp 1 0 b (set_hp 1 0 2 (lf_hps m))\<rparr>)"

lemma round_calls:
  assumes "ready R m" "b = 2 * lf_brk m + 2" "retire 1 b (unlinked_again m) = Some m2"
  shows "\<exists>m1. sequential_call 1 (InsCall 1) m = Some (True, m1) \<and> hz_shape 2 2 (lf_hps m1) \<and>
    sequential_call 1 (RemCall 1) m1 = Some (True, m2)"
proof -
  define m1 where "m1 = m\<lparr>lf_heap := (lf_heap m)(b \<mapsto> \<lparr>lf_data = 1, lf_next = 2, lf_value = 0\<rparr>), lf_head := b,
      lf_hps := set_hp 1 0 2 (lf_hps m), lf_brk := lf_brk m + 1\<rparr>"
  have r: "lf_head m = 2" "lf_heap m 2 = Some \<lparr>lf_data = 3, lf_next = 0, lf_value = 0\<rparr>" "2 \<le> lf_brk m" "hz_shape 2 2 (lf_hps m)"
    using assms(1) by (auto simp: ready_def)
  have "LockFreeList_insert 1 1 m = Some (True, m1)"
    unfolding m1_def using r assms(2) by (intro insert_front [where x = "\<lparr>lf_data = 3, lf_next = 0, lf_value = 0\<rparr>"]) auto
  moreover have "m1\<lparr>lf_hps := set_hp 1 0 b (lf_hps m1), lf_heap := (lf_heap m1)(b \<mapsto> \<lparr>lf_data = 1, lf_next = 3, lf_value = 0\<rparr>), lf_head := 2\<rparr> =
      unlinked_again m"
    using r by (cases m) (simp add: m1_def unlinked_again_def Let_def assms(2))
  then have "LockFreeList_remove 1 1 m1 = Some (True, m2)"
    using remove_front [of m1 b "\<lparr>lf_data = 1, lf_next = 2, lf_value = 0\<rparr>" 1 1] assms(2,3) by (simp add: m1_def)
  ultimately show ?thesis using r(4) by (auto simp: sequential_call_def m1_def hz_shape_set_hp)
qed

lemma unlinked_again_simps:
  assumes "ready R m" "b = 2 * lf_brk m + 2"
  shows "lf_head (unlinked_again m) = 2" "lf_brk (unlinked_again m) = lf_brk m + 1"
    "lf_heap (unlinked_again m) = (lf_heap m)(b \<mapsto> \<lparr>lf_data = 1, lf_next = 3, lf_value = 0\<rparr>)"
    "retired_lists (lf_hps (unlinked_again m)) = retired_lists (lf_hps m)" "hz_shape 2 2 (lf_hps (unlinked_again m))"
    "hp_recs (lf_hps (unlinked_again m)) = [hp_recs (lf_hps m) ! 0, [b, hp_recs (lf_hps m) ! 1 ! 1]]"
proof -
  have sh: "hz_shape 2 2 (lf_hps m)" using assms(1) by (simp add: ready_def)
  then have len: "length (hp_recs (lf_hps m)) = 2" "length (hp_recs (lf_hps m) ! 1) = 2" by (auto simp: hz_shape_def)
  show "lf_head (unlinked_again m) = 2" "lf_brk (unlinked_again m) = lf_brk m + 1"
    "lf_heap (unlinked_again m) = (lf_heap m)(b \<mapsto> \<lparr>lf_data = 1, lf_next = 3, lf_value = 0\<rparr>)"
    "retired_lists (lf_hps (unlinked_again m)) = retired_lists (lf_hps m)"
    using assms by (auto simp: unlinked_again_def Let_def ready_def set_hp_def)
  show "hz_shape 2 2 (lf_hps (unlinked_again m))" using sh by (simp add: unlinked_again_def Let_def hz_shape_set_hp)
  have "hp_recs (lf_hps (unlinked_again m)) = (hp_recs (lf_hps m))[1 := (hp_recs (lf_hps m) ! 1)[0 := b]]"
    using len assms(2) by (simp add: unlinked_again_def Let_def set_hp_def getHPRec_def)
  also have "\<dots> = [hp_recs (lf_hps m) ! 0, [b, hp_recs (lf_hps m) ! 1 ! 1]]"
    using len by (intro nth_equalityI) (auto simp: less_Suc_eq nth_list_update numeral_2_eq_2 intro!: nth_equalityI)
  finally show "hp_recs (lf_hps (unlinked_again m)) = [hp_recs (lf_hps m) ! 0, [b, hp_recs (lf_hps m) ! 1 ! 1]]" .
qed

lemma retired_free: "ready R m \<Longrightarrow> b = 2 * lf_brk m + 2 \<Longrightarrow> b \<notin> R \<and> b \<noteq> 4 \<and> b \<noteq> 2"
  by (fastforce simp: ready_def)

text \<open>While the list is short the node is only added to it.\<close>

lemma round_ready:
  assumes "ready R m" "b = 2 * lf_brk m + 2" "card R < MAX_RETIRED_NODES_PER_THREAD"
  obtains m2 where "retire 1 b (unlinked_again m) = Some m2" "ready (insert b R) m2"
proof -
  note u = unlinked_again_simps [OF assms(1,2)] and b = retired_free [OF assms(1,2)]
  have r: "finite R" "retired_lists (lf_hps m) ! 1 = R" "hz_shape 2 2 (lf_hps m)" using assms(1) by (auto simp: ready_def)
  let ?hz = "(lf_hps (unlinked_again m))\<lparr>retired_lists := (retired_lists (lf_hps m))[1 := insert b R]\<rparr>"
  have len: "length (retired_lists (lf_hps m)) = 2" using r(3) by (simp add: hz_shape_def)
  have "card (insert b R) \<le> MAX_RETIRED_NODES_PER_THREAD" using assms(3) r(1) b by simp
  then have "retireNode 1 b (lf_hps (unlinked_again m)) = ({}, ?hz)"
    using r(2) len by (simp add: retireNode_def Let_def u)
  then have "retire 1 b (unlinked_again m) = Some ((unlinked_again m)\<lparr>lf_hps := ?hz\<rparr>)"
    by (simp add: retire_def delete_nodes_empty)
  moreover have "ready (insert b R) ((unlinked_again m)\<lparr>lf_hps := ?hz\<rparr>)"
    using assms(1) u b len unfolding ready_def by (auto simp: hz_shape_def assms(2))
  ultimately show ?thesis by (rule that)
qed

text \<open>One node more, and node 4 is deleted.\<close>

lemma round_frees:
  assumes "ready R m" "b = 2 * lf_brk m + 2" "card R = MAX_RETIRED_NODES_PER_THREAD"
  obtains m2 where "retire 1 b (unlinked_again m) = Some m2" "lf_heap m2 4 = None" "hz_shape 2 2 (lf_hps m2)" "lf_head m2 = 2"
proof -
  note u = unlinked_again_simps [OF assms(1,2)] and b = retired_free [OF assms(1,2)]
  have r: "finite R" "retired_lists (lf_hps m) ! 1 = R" "hz_shape 2 2 (lf_hps m)" "4 \<in> R" "\<forall>a \<in> R. lf_heap m a \<noteq> None"
    using assms(1) by (auto simp: ready_def)
  have len: "length (retired_lists (lf_hps m)) = 2" using r(3) by (simp add: hz_shape_def)
  obtain F hz where F: "retireNode 1 b (lf_hps (unlinked_again m)) = (F, hz)" by fastforce
  have card: "card (insert b R) > MAX_RETIRED_NODES_PER_THREAD" using assms(3) r(1) b by simp
  have "4 \<notin> active_list (lf_hps (unlinked_again m))" using assms(1) b by (auto simp: active_list_def u ready_def)
  then have F4: "4 \<in> F" "F \<subseteq> insert b R" and hz: "hz_shape 2 2 hz"
    using F card r(2,4) len u(5) by (auto simp: retireNode_def maybeFreeNodes_def Let_def u(4) active_list_def hz_shape_def)
  have "\<forall>p \<in> F. lf_heap (unlinked_again m) p \<noteq> None" using F4(2) r(5) by (auto simp: u)
  then have "retire 1 b (unlinked_again m) = Some ((unlinked_again m)\<lparr>lf_hps := hz, lf_heap := lf_heap (unlinked_again m) |` (- F)\<rparr>)"
    unfolding retire_def F prod.case by (simp add: delete_nodes_def)
  then show ?thesis using that F4(1) hz u(1) by simp
qed

section \<open>The run\<close>

text \<open>One more round of thread 1.\<close>

lemma round_moves:
  assumes "th_pc (lf_threads s 1) = PIdle" "ready R (lf_mem s)" "retire 1 (2 * lf_brk (lf_mem s) + 2) (unlinked_again (lf_mem s)) = Some m2"
  obtains s' where "called 1 s s'" "lf_mem s' = m2"
proof -
  obtain m1 where m1: "sequential_call 1 (InsCall 1) (lf_mem s) = Some (True, m1)" "hz_shape 2 2 (lf_hps m1)"
      "sequential_call 1 (RemCall 1) m1 = Some (True, m2)"
    using round_calls [OF assms(2) refl assms(3)] by blast
  have sh: "hz_shape 2 2 (lf_hps (lf_mem s))" using assms(2) by (simp add: ready_def)
  obtain s1 where s1: "called 1 s s1" "lf_mem s1 = m1" using call_moves [OF assms(1) _ sh m1(1)] by auto
  obtain s2 where "called 1 s1 s2" "lf_mem s2 = m2"
    using call_moves [of s1 1, OF _ _ _ m1(3) [folded s1(2)]] m1(2) s1 by (auto simp: called_def)
  then show ?thesis using that called_trans [OF s1(1)] by blast
qed

lemma rounds_moves:
  assumes "th_pc (lf_threads s 1) = PIdle" "ready R (lf_mem s)" "card R \<le> n" "n \<le> MAX_RETIRED_NODES_PER_THREAD"
  shows "\<exists>s' R'. called 1 s s' \<and> ready R' (lf_mem s') \<and> card R' = n"
  using assms
proof (induction "n - card R" arbitrary: s R)
  case 0
  then show ?case by (intro exI [of _ s] exI [of _ R]) (simp add: called_def)
next
  case (Suc d)
  let ?b = "2 * lf_brk (lf_mem s) + 2"
  have "card R < MAX_RETIRED_NODES_PER_THREAD" using Suc.hyps(2) Suc.prems(4) by simp
  then obtain m2 where m2: "retire 1 ?b (unlinked_again (lf_mem s)) = Some m2" "ready (insert ?b R) m2"
    using round_ready [OF Suc.prems(2) refl] by blast
  obtain s1 where s1: "called 1 s s1" "lf_mem s1 = m2" using round_moves [OF Suc.prems(1,2) m2(1)] .
  have "finite R" using Suc.prems(2) by (simp add: ready_def)
  then have "card (insert ?b R) = Suc (card R)" using retired_free [OF Suc.prems(2) refl] by simp
  then have "\<exists>s' R'. called 1 s1 s' \<and> ready R' (lf_mem s') \<and> card R' = n"
    using Suc.hyps(2) Suc.prems(4) s1 m2(2) by (intro Suc.hyps(1) [of "insert ?b R"]) (simp_all add: called_def)
  then show ?case using called_trans [OF s1(1)] by blast
qed

text \<open>Thread 0 goes on once the node it stands on is gone: its third step from here is the test of \<open>*prev\<close>.\<close>

lemma stalled_crash:
  assumes st: "th_pc (lf_threads s 0) = LSwap1" "th_prev (lf_threads s 0) = NextOf p" "th_next (lf_threads s 0) \<noteq> 0"
    and "lf_heap (lf_mem s) p = None" "\<not> lf_crashed s" "s' = lf_step 0 (lf_step 0 s)"
  shows "th_pc (lf_threads s' 0) = LCheck" "th_prev (lf_threads s' 0) = NextOf p" "\<not> lf_crashed s'"
    "read_cell (NextOf p) (lf_mem s') = None" "lf_step 0 s' = crash s'"
proof -
  let ?l = "(lf_threads s 0)\<lparr>th_cur := th_next (lf_threads s 0), th_pc := LSetHp\<rparr>"
  define s1 where "s1 = upd_thread 0 (\<lambda>l. l\<lparr>th_cur := th_next (lf_threads s 0), th_pc := LSetHp\<rparr>) (write_hp 0 1 (th_temp (lf_threads s 0)) s)"
  have s1: "lf_step 0 s = s1" "lf_threads s1 0 = ?l" "lf_heap (lf_mem s1) = lf_heap (lf_mem s)" "\<not> lf_crashed s1"
    using st assms(5) by (simp_all add: s1_def lf_step_def Let_def loop_head_def upd_thread_def write_hp_def)
  have s2: "lf_threads s' 0 = ?l\<lparr>th_pc := LCheck\<rparr>" "lf_heap (lf_mem s') = lf_heap (lf_mem s)" "\<not> lf_crashed s'"
    using s1 by (simp_all add: assms(6) lf_step_def Let_def upd_thread_def write_hp_def)
  then show "th_pc (lf_threads s' 0) = LCheck" "th_prev (lf_threads s' 0) = NextOf p" "\<not> lf_crashed s'"
    "read_cell (NextOf p) (lf_mem s') = None" "lf_step 0 s' = crash s'"
    using st(2) assms(4) by (simp_all add: lf_step_def Let_def)
qed

text \<open>Two insertions by thread 1, and thread 0 searches for 2.\<close>

definition node_of :: "nat \<Rightarrow> nat \<Rightarrow> (nat, nat) lf_node" where
  "node_of k q = \<lparr>lf_data = k, lf_next = q, lf_value = 0\<rparr>"

definition two_nodes :: "(nat, nat) lf_list" where
  "two_nodes = \<lparr>lf_heap = [2 \<mapsto> node_of 3 0, 4 \<mapsto> node_of 1 2], lf_head = 4, lf_start = 0,
     lf_hps = \<lparr>num_ptrs = 2, num_threads = 2, hp_recs = [[0, 0], [2, 0]], retired_lists = [{}, {}]\<rparr>, lf_brk = 2\<rparr>"

lemma two_nodes_reached:
  obtains s :: "(nat, nat) lf_system" where "lf_reach s" "lf_mem s = two_nodes" "th_pc (lf_threads s 0) = PIdle" "th_pc (lf_threads s 1) = PIdle"
    "\<not> lf_crashed s"
proof -
  let ?m0 = "LockFreeList_new (\<lambda>_ _. 0) 2 :: (nat, nat) lf_list"
  let ?s0 = "lf_system_new (\<lambda>_ _. 0) (\<lambda>_. blank_thread) 2 :: (nat, nat) lf_system"
  have s0: "lf_reach ?s0" "lf_mem ?s0 = ?m0" "th_pc (lf_threads ?s0 u) = PIdle" "\<not> lf_crashed ?s0" for u
    by (auto intro!: reach_start simp: lf_system_start_def lf_system_new_def)
  define m1 where "m1 = ?m0\<lparr>lf_heap := [2 \<mapsto> node_of 3 0], lf_head := 2, lf_brk := 1\<rparr>"
  have sh: "hz_shape 2 2 (lf_hps ?m0)" "hz_shape 2 2 (lf_hps m1)" using lf_inv_shape [OF LockFreeList_new_inv(1)] by (auto simp: m1_def)
  have c1: "sequential_call 1 (InsCall 3) ?m0 = Some (True, m1)"
    using insert_empty [of ?m0 2 1 3] by (simp add: sequential_call_def m1_def node_of_def LockFreeList_new_def)
  obtain s1 where s1: "called 1 ?s0 s1" "lf_mem s1 = m1"
    using call_moves [OF s0(3) _ _ c1 [folded s0(2)]] sh s0(2) by auto
  have "LockFreeList_insert 1 1 m1 = Some (True, m1\<lparr>lf_heap := (lf_heap m1)(4 \<mapsto> \<lparr>lf_data = 1, lf_next = 2, lf_value = 0\<rparr>), lf_head := 4,
      lf_hps := set_hp 1 0 2 (lf_hps m1), lf_brk := lf_brk m1 + 1\<rparr>)"
    by (rule insert_front [where x = "node_of 3 0"]) (simp_all add: m1_def node_of_def)
  also have "m1\<lparr>lf_heap := (lf_heap m1)(4 \<mapsto> \<lparr>lf_data = 1, lf_next = 2, lf_value = 0\<rparr>), lf_head := 4,
      lf_hps := set_hp 1 0 2 (lf_hps m1), lf_brk := lf_brk m1 + 1\<rparr> = two_nodes"
    by (simp add: m1_def two_nodes_def LockFreeList_new_def HazardPointers_new_def set_hp_def getHPRec_def node_of_def upt_rec numeral_2_eq_2)
  finally have c2: "sequential_call 1 (InsCall 1) m1 = Some (True, two_nodes)" by (simp add: sequential_call_def)
  obtain s2 where s2: "called 1 s1 s2" "lf_mem s2 = two_nodes"
    using call_moves [of s1 1, OF _ _ _ c2 [folded s1(2)]] sh s1 by (auto simp: called_def)
  have c: "called 1 ?s0 s2" using called_trans [OF s1(1) s2(1)] .
  then have "lf_reach s2" using moves_reach [of 1 ?s0 s2] s0(1) by (simp add: called_def)
  moreover have "th_pc (lf_threads s2 0) = PIdle" "th_pc (lf_threads s2 1) = PIdle" "\<not> lf_crashed s2"
    using c s0 by (auto simp: called_def)
  ultimately show ?thesis using that s2(2) by blast
qed

text \<open>Thread 0 between the two writes of its swap, standing on node 4.\<close>

definition between_writes :: "nat \<Rightarrow> (nat, nat) lf_system \<Rightarrow> bool" where
  "between_writes p s \<longleftrightarrow> th_pc (lf_threads s 0) = LSwap1 \<and> th_prev (lf_threads s 0) = NextOf p \<and> th_temp (lf_threads s 0) = p \<and>
     p \<notin> set (getHPRec 0 (lf_hps (lf_mem s))) \<and> lf_heap (lf_mem s) p \<noteq> None \<and> \<not> lf_crashed s"

lemma stalled_reached:
  obtains s where "lf_reach s" "between_writes 4 s" "lf_mem s = two_nodes" "th_next (lf_threads s 0) = 2" "th_pc (lf_threads s 1) = PIdle"
proof -
  obtain s :: "(nat, nat) lf_system" where s: "lf_reach s" "lf_mem s = two_nodes" "th_pc (lf_threads s 0) = PIdle" "th_pc (lf_threads s 1) = PIdle"
      "\<not> lf_crashed s"
    using two_nodes_reached .
  let ?s1 = "lf_invoke 0 (MemCall 2) s"
  let ?s2 = "upd_thread 0 (\<lambda>l. l\<lparr>th_prev := HeadCell\<rparr>) ?s1"
  have s1: "lf_mem ?s1 = two_nodes" "th_pc (lf_threads ?s1 0) = LStart" "th_key (lf_threads ?s1 0) = 2"
    using s(2) by (simp_all add: lf_invoke_def Let_def upd_thread_def)
  have s2: "lf_mem ?s2 = two_nodes" "th_key (lf_threads ?s2 0) = 2" "th_prev (lf_threads ?s2 0) = HeadCell" "lf_threads ?s2 1 = lf_threads s 1"
      "lf_crashed ?s2 = lf_crashed s"
    using s1 s(2) by (simp_all add: upd_thread_def lf_invoke_def Let_def)
  let ?s3 = "half_swapped 0 4 (node_of 1 2) ?s2"
  have "runs 0 ?s1 (loop_head 0 4 ?s2)" using runs_again [OF s1(2)] by (simp add: s1(1) two_nodes_def)
  moreover have "runs 0 (loop_head 0 4 ?s2) ?s3"
    by (rule runs_half_swapped) (simp_all add: s2 two_nodes_def node_of_def)
  ultimately have "runs 0 ?s1 ?s3" by (rule rtranclp_trans)
  moreover have "lf_reach ?s1" using call_step [OF s(1,3)] by simp
  ultimately have "lf_reach ?s3" by (intro moves_reach [OF runs_moves, of 0 ?s1 ?s3]) simp_all
  moreover have keep: "lf_threads ?s3 1 = lf_threads s 1" "lf_crashed ?s3 = lf_crashed s"
    using half_swapped_simps(6) [of 0 ?s2 4 "node_of 1 2"] s2(4,5) by (simp_all add: same_call_def)
  moreover have mem: "lf_mem ?s3 = two_nodes"
    by (simp add: half_swapped_simps s2(1)) (simp add: two_nodes_def set_hp_def getHPRec_def)
  moreover have "between_writes 4 ?s3"
    unfolding between_writes_def half_swapped_simps(2-5) mem s2(1) keep(2)
    using s(5) by (simp add: two_nodes_def set_hp_def getHPRec_def node_of_def)
  ultimately show ?thesis using that s(4) by (simp add: half_swapped_simps node_of_def)
qed

lemma ready_reached:
  assumes "lf_mem s = two_nodes" "th_pc (lf_threads s 1) = PIdle"
  obtains s' where "called 1 s s'" "ready {4} (lf_mem s')"
proof -
  define m where "m = two_nodes\<lparr>lf_hps := \<lparr>num_ptrs = 2, num_threads = 2, hp_recs = [[0, 0], [4, 0]], retired_lists = [{}, {4}]\<rparr>,
      lf_heap := [2 \<mapsto> node_of 3 0, 4 \<mapsto> node_of 1 3], lf_head := 2\<rparr>"
  have "LockFreeList_remove 1 1 two_nodes = Some (True, m)"
    by (subst remove_front [where b = 4 and x = "node_of 1 2"])
      (simp_all add: two_nodes_def m_def node_of_def retire_def retireNode_def Let_def set_hp_def getHPRec_def MAX_RETIRED_NODES_PER_THREAD_def delete_nodes_empty)
  then have c: "sequential_call 1 (RemCall 1) (lf_mem s) = Some (True, m)" by (simp add: sequential_call_def assms(1))
  have "hz_shape 2 2 (lf_hps (lf_mem s))" by (simp add: assms(1) two_nodes_def hz_shape_def)
  from call_moves [OF assms(2) _ this c] obtain s' where s': "called 1 s s'" "lf_mem s' = m" by auto
  moreover have "ready {4} (lf_mem s')" by (simp add: s'(2) ready_def m_def two_nodes_def node_of_def hz_shape_def)
  ultimately show ?thesis using that by blast
qed

section \<open>Properties\<close>

text \<open>
  C4. Two threads suffice for a use after free, and the two writes that swap the hazard pointers are what lets it happen. There is a run of the
  interleaved list from its construction to a state in which thread 0 is in \<open>lookupInternal\<close> between these two writes:
  \<open>prev\<close> points into the node \<open>p\<close>, which is allocated, and no hazard pointer of thread 0 holds \<open>p\<close> (only the local
  variable \<open>temp\<close> does). From there steps of thread 1 alone lead to a state in which \<open>p\<close> is deleted, without any invalid access. The next
  two steps of thread 0, the second of these writes and \<open>hp[0] = cur\<close>, bring it to the test \<open>*prev != cur\<close>, which reads the \<open>next\<close> field of the deleted node.
\<close>

theorem LockFreeList_use_after_free:
  "\<exists>s0 s1 s2 p. reach (lf_system_start 2) (lf_system_step 2) s0 \<and>
     th_pc (lf_threads s0 0) = LSwap1 \<and> th_prev (lf_threads s0 0) = NextOf p \<and> th_temp (lf_threads s0 0) = p \<and>
     p \<notin> set (getHPRec 0 (lf_hps (lf_mem s0))) \<and> lf_heap (lf_mem s0) p \<noteq> None \<and>
     moves_of 1 s0 s1 \<and> lf_threads s1 0 = lf_threads s0 0 \<and> lf_heap (lf_mem s1) p = None \<and> \<not> lf_crashed s1 \<and>
     s2 = lf_step 0 (lf_step 0 s1) \<and> \<not> lf_crashed s2 \<and> th_pc (lf_threads s2 0) = LCheck \<and> th_prev (lf_threads s2 0) = NextOf p \<and>
     read_cell (NextOf p) (lf_mem (s2 :: (nat, nat) lf_system)) = None \<and> lf_crashed (lf_step 0 s2)"
proof -
  obtain s0 where s0: "lf_reach s0" "between_writes 4 s0" "lf_mem s0 = two_nodes" "th_next (lf_threads s0 0) = 2" "th_pc (lf_threads s0 1) = PIdle"
    using stalled_reached .
  obtain s where s: "called 1 s0 s" "ready {4} (lf_mem s)" using ready_reached [OF s0(3,5)] .
  obtain s' R where s': "called 1 s s'" "ready R (lf_mem s')" "card R = MAX_RETIRED_NODES_PER_THREAD"
    using rounds_moves [OF _ s(2), of MAX_RETIRED_NODES_PER_THREAD] s(1) by (auto simp: MAX_RETIRED_NODES_PER_THREAD_def called_def)
  obtain m where m: "retire 1 (2 * lf_brk (lf_mem s') + 2) (unlinked_again (lf_mem s')) = Some m" "lf_heap m 4 = None"
    using round_frees [OF s'(2) refl s'(3)] .
  obtain s1 where s1: "called 1 s' s1" "lf_mem s1 = m" using round_moves [OF _ s'(2) m(1)] s'(1) by (auto simp: called_def)
  have c: "called 1 s0 s1" using called_trans [OF called_trans [OF s(1) s'(1)] s1(1)] .
  have b: "th_pc (lf_threads s1 0) = LSwap1" "th_prev (lf_threads s1 0) = NextOf 4" "th_next (lf_threads s1 0) \<noteq> 0" "\<not> lf_crashed s1"
      "lf_heap (lf_mem s1) 4 = None"
    using c s0(2,4) s1(2) m(2) by (auto simp: called_def between_writes_def)
  note crash = stalled_crash [OF b(1-3,5,4) refl]
  show ?thesis
    by (rule exI [of _ s0], rule exI [of _ s1], rule exI [of _ "lf_step 0 (lf_step 0 s1)"], rule exI [of _ 4])
      (use s0(1,2) c b crash in \<open>auto simp: between_writes_def called_def crash_def\<close>)
qed

end
