(* ===== verification/Callback.thy ===== *)
theory Callback
  imports Prelude
begin

text \<open>
  \<^verbatim>\<open>src/callback_instances.hpp\<close>: objects that hold a member function, the object to call it on and the arguments bound
  so far, and live on the heap. The classes \<open>CallableOnce_n_k\<close> and \<open>CallableMany_n_k\<close>, for a function of \<open>n\<close> arguments of which
  \<open>k\<close> are bound, differ in these numbers; a \<open>CallableOnce\<close> deletes itself after its call. What the called functions do
  is an argument, and may change everything, the callbacks included.
\<close>

section \<open>The classes\<close>

datatype callable_kind = CallableOnce | CallableMany

record ('f, 'o, 'v) callback =
  cb_kind :: callable_kind
  target_func :: 'f
  target_obj :: 'o
  cb_binds :: "'v list"
  cb_args :: nat

definition cb_once :: "('f, 'o, 'v) callback \<Rightarrow> bool" where
  "cb_once c \<longleftrightarrow> cb_kind c = CallableOnce"

definition Callable_0_0 :: "callable_kind \<Rightarrow> 'f \<Rightarrow> 'o \<Rightarrow> ('f, 'o, 'v) callback" where
  "Callable_0_0 kind f obj = \<lparr>cb_kind = kind, target_func = f, target_obj = obj, cb_binds = [], cb_args = 0\<rparr>"

definition Callable_1_0 :: "callable_kind \<Rightarrow> 'f \<Rightarrow> 'o \<Rightarrow> ('f, 'o, 'v) callback" where
  "Callable_1_0 kind f obj = \<lparr>cb_kind = kind, target_func = f, target_obj = obj, cb_binds = [], cb_args = 1\<rparr>"

definition Callable_1_1 :: "callable_kind \<Rightarrow> 'f \<Rightarrow> 'o \<Rightarrow> 'v \<Rightarrow> ('f, 'o, 'v) callback" where
  "Callable_1_1 kind f obj bind1 = \<lparr>cb_kind = kind, target_func = f, target_obj = obj, cb_binds = [bind1], cb_args = 0\<rparr>"

definition Callable_2_0 :: "callable_kind \<Rightarrow> 'f \<Rightarrow> 'o \<Rightarrow> ('f, 'o, 'v) callback" where
  "Callable_2_0 kind f obj = \<lparr>cb_kind = kind, target_func = f, target_obj = obj, cb_binds = [], cb_args = 2\<rparr>"

definition Callable_2_1 :: "callable_kind \<Rightarrow> 'f \<Rightarrow> 'o \<Rightarrow> 'v \<Rightarrow> ('f, 'o, 'v) callback" where
  "Callable_2_1 kind f obj bind1 = \<lparr>cb_kind = kind, target_func = f, target_obj = obj, cb_binds = [bind1], cb_args = 1\<rparr>"

definition Callable_2_2 :: "callable_kind \<Rightarrow> 'f \<Rightarrow> 'o \<Rightarrow> 'v \<Rightarrow> 'v \<Rightarrow> ('f, 'o, 'v) callback" where
  "Callable_2_2 kind f obj bind1 bind2 =
     \<lparr>cb_kind = kind, target_func = f, target_obj = obj, cb_binds = [bind1, bind2], cb_args = 0\<rparr>"

definition Callable_3_0 :: "callable_kind \<Rightarrow> 'f \<Rightarrow> 'o \<Rightarrow> ('f, 'o, 'v) callback" where
  "Callable_3_0 kind f obj = \<lparr>cb_kind = kind, target_func = f, target_obj = obj, cb_binds = [], cb_args = 3\<rparr>"

definition Callable_3_1 :: "callable_kind \<Rightarrow> 'f \<Rightarrow> 'o \<Rightarrow> 'v \<Rightarrow> ('f, 'o, 'v) callback" where
  "Callable_3_1 kind f obj bind1 = \<lparr>cb_kind = kind, target_func = f, target_obj = obj, cb_binds = [bind1], cb_args = 2\<rparr>"

definition Callable_3_2 :: "callable_kind \<Rightarrow> 'f \<Rightarrow> 'o \<Rightarrow> 'v \<Rightarrow> 'v \<Rightarrow> ('f, 'o, 'v) callback" where
  "Callable_3_2 kind f obj bind1 bind2 =
     \<lparr>cb_kind = kind, target_func = f, target_obj = obj, cb_binds = [bind1, bind2], cb_args = 1\<rparr>"

definition Callable_3_3 :: "callable_kind \<Rightarrow> 'f \<Rightarrow> 'o \<Rightarrow> 'v \<Rightarrow> 'v \<Rightarrow> 'v \<Rightarrow> ('f, 'o, 'v) callback" where
  "Callable_3_3 kind f obj bind1 bind2 bind3 =
     \<lparr>cb_kind = kind, target_func = f, target_obj = obj, cb_binds = [bind1, bind2, bind3], cb_args = 0\<rparr>"

section \<open>Creation, call and deletion\<close>

text \<open>The rest of the program's state is \<open>cb_world\<close>.\<close>

record ('f, 'o, 'v, 'w) cb_store =
  cb_heap :: "nat \<rightharpoonup> ('f, 'o, 'v) callback"
  cb_brk :: nat
  cb_world :: 'w

type_synonym ('f, 'o, 'v, 'w, 'r) cb_target =
  "'f \<Rightarrow> 'o \<Rightarrow> 'v list \<Rightarrow> ('f, 'o, 'v, 'w) cb_store \<Rightarrow> ('r \<times> ('f, 'o, 'v, 'w) cb_store) option"

definition makeCallable :: "('f, 'o, 'v) callback \<Rightarrow> ('f, 'o, 'v, 'w) cb_store \<Rightarrow> nat \<times> ('f, 'o, 'v, 'w) cb_store" where
  "makeCallable c s = (cb_brk s, s\<lparr>cb_heap := (cb_heap s)(cb_brk s \<mapsto> c), cb_brk := Suc (cb_brk s)\<rparr>)"

definition cb_delete :: "nat \<Rightarrow> ('f, 'o, 'v, 'w) cb_store \<Rightarrow> ('f, 'o, 'v, 'w) cb_store option" where
  "cb_delete p s = (case cb_heap s p of None \<Rightarrow> None | Some _ \<Rightarrow> Some (s\<lparr>cb_heap := (cb_heap s)(p := None)\<rparr>))"

text \<open>\<open>operator()\<close>: \<open>None\<close> is the call of a deleted callback, a second deletion, or a failure of the target.\<close>

definition callback_call ::
  "('f, 'o, 'v, 'w, 'r) cb_target \<Rightarrow> nat \<Rightarrow> 'v list \<Rightarrow> ('f, 'o, 'v, 'w) cb_store \<Rightarrow> ('r \<times> ('f, 'o, 'v, 'w) cb_store) option" where
  "callback_call run p args s =
     do {
       c \<leftarrow> cb_heap s p;
       if length args \<noteq> cb_args c then None
       else do {
         (ret, s1) \<leftarrow> run (target_func c) (target_obj c) (cb_binds c @ args) s;
         if cb_once c then do { s2 \<leftarrow> cb_delete p s1; Some (ret, s2) } else Some (ret, s1) } }"

text \<open>Bound arguments come first, in order; those of the call follow.\<close>

lemma bind_same: "x \<bind> (\<lambda>(r, s). Some (r, s)) = x"
  by (cases x) auto

lemma CallableMany_applies:
  "cb_heap s p = Some (Callable_0_0 CallableMany f obj) \<Longrightarrow> callback_call run p [] s = run f obj [] s"
  "cb_heap s p = Some (Callable_1_0 CallableMany f obj) \<Longrightarrow> callback_call run p [a] s = run f obj [a] s"
  "cb_heap s p = Some (Callable_1_1 CallableMany f obj a) \<Longrightarrow> callback_call run p [] s = run f obj [a] s"
  "cb_heap s p = Some (Callable_2_0 CallableMany f obj) \<Longrightarrow> callback_call run p [a, b] s = run f obj [a, b] s"
  "cb_heap s p = Some (Callable_2_1 CallableMany f obj a) \<Longrightarrow> callback_call run p [b] s = run f obj [a, b] s"
  "cb_heap s p = Some (Callable_2_2 CallableMany f obj a b) \<Longrightarrow> callback_call run p [] s = run f obj [a, b] s"
  "cb_heap s p = Some (Callable_3_0 CallableMany f obj) \<Longrightarrow> callback_call run p [a, b, c] s = run f obj [a, b, c] s"
  "cb_heap s p = Some (Callable_3_1 CallableMany f obj a) \<Longrightarrow> callback_call run p [b, c] s = run f obj [a, b, c] s"
  "cb_heap s p = Some (Callable_3_2 CallableMany f obj a b) \<Longrightarrow> callback_call run p [c] s = run f obj [a, b, c] s"
  "cb_heap s p = Some (Callable_3_3 CallableMany f obj a b c) \<Longrightarrow> callback_call run p [] s = run f obj [a, b, c] s"
  by (simp_all add: callback_call_def cb_once_def bind_same Callable_0_0_def Callable_1_0_def Callable_1_1_def Callable_2_0_def Callable_2_1_def
      Callable_2_2_def Callable_3_0_def Callable_3_1_def Callable_3_2_def Callable_3_3_def)

section \<open>Queues of tasks\<close>

text \<open>
  The way the pools, threads and event loop use callbacks: a client makes a call-once callback without free
  arguments and queues it; later it is taken from the queue and called, and its target may queue more (\<open>spawn\<close>).
\<close>

definition push_task :: "('f, 'o, 'v) callback \<Rightarrow> ('f, 'o, 'v, nat list) cb_store \<Rightarrow> ('f, 'o, 'v, nat list) cb_store" where
  "push_task c s = (case makeCallable c s of (p, s1) \<Rightarrow> s1\<lparr>cb_world := cb_world s1 @ [p]\<rparr>)"

definition task_target :: "('f \<Rightarrow> 'o \<Rightarrow> 'v list \<Rightarrow> ('f, 'o, 'v) callback list) \<Rightarrow> ('f, 'o, 'v, nat list, unit) cb_target" where
  "task_target spawn f obj vs s = Some ((), fold push_task (spawn f obj vs) s)"

definition is_task :: "('f, 'o, 'v) callback \<Rightarrow> bool" where
  "is_task c \<longleftrightarrow> cb_once c \<and> cb_args c = 0"

definition tasks_only :: "('f \<Rightarrow> 'o \<Rightarrow> 'v list \<Rightarrow> ('f, 'o, 'v) callback list) \<Rightarrow> 'f \<Rightarrow> 'o \<Rightarrow> 'v list \<Rightarrow> ('f, 'o, 'v) callback list" where
  "tasks_only spawn f obj vs = filter is_task (spawn f obj vs)"

inductive task_step ::
  "('f \<Rightarrow> 'o \<Rightarrow> 'v list \<Rightarrow> ('f, 'o, 'v) callback list) \<Rightarrow> ('f, 'o, 'v, nat list) cb_store \<Rightarrow> ('f, 'o, 'v, nat list) cb_store \<Rightarrow> bool"
  for spawn :: "'f \<Rightarrow> 'o \<Rightarrow> 'v list \<Rightarrow> ('f, 'o, 'v) callback list" where
  submit: "is_task c \<Longrightarrow> task_step spawn s (push_task c s)"
| run_task: "cb_world s = p # ps \<Longrightarrow> callback_call (task_target spawn) p [] (s\<lparr>cb_world := ps\<rparr>) = Some ((), s') \<Longrightarrow> task_step spawn s s'"

definition task_start :: "('f, 'o, 'v, nat list) cb_store \<Rightarrow> bool" where
  "task_start s \<longleftrightarrow> cb_heap s = Map.empty \<and> cb_world s = []"

definition task_inv :: "nat list \<Rightarrow> ('f, 'o, 'v, nat list) cb_store \<Rightarrow> bool" where
  "task_inv held s \<longleftrightarrow> distinct (held @ cb_world s) \<and> dom (cb_heap s) = set (held @ cb_world s) \<and>
     (\<forall>p c. cb_heap s p = Some c \<longrightarrow> is_task c \<and> p < cb_brk s)"

lemma push_task_inv: "task_inv held s \<Longrightarrow> is_task c \<Longrightarrow> task_inv held (push_task c s)"
proof -
  assume inv: "task_inv held s" and c: "is_task c"
  then have fresh: "cb_brk s \<notin> set (held @ cb_world s)" by (force simp: task_inv_def)
  have "dom (cb_heap (push_task c s)) = insert (cb_brk s) (dom (cb_heap s))" "cb_world (push_task c s) = cb_world s @ [cb_brk s]"
    by (auto simp: push_task_def makeCallable_def)
  moreover have "is_task d \<and> p < cb_brk (push_task c s)" if "cb_heap (push_task c s) p = Some d" for p d
    using inv c that by (auto simp: task_inv_def push_task_def makeCallable_def less_Suc_eq split: if_splits)
  ultimately show ?thesis using inv fresh unfolding task_inv_def by simp
qed

lemma push_tasks_inv: "task_inv held s \<Longrightarrow> (\<And>c. c \<in> set cs \<Longrightarrow> is_task c) \<Longrightarrow> task_inv held (fold push_task cs s)"
  by (induction cs arbitrary: s) (auto simp: push_task_inv)

text \<open>The task at the front can be called, and is gone afterwards.\<close>

lemma run_task_ok:
  assumes inv: "task_inv [] s" and q: "cb_world s = p # ps" and spawn: "\<And>f obj vs c. c \<in> set (spawn f obj vs) \<Longrightarrow> is_task c"
  shows "\<exists>c s1. cb_heap s p = Some c \<and> s1 = fold push_task (spawn (target_func c) (target_obj c) (cb_binds c)) (s\<lparr>cb_world := ps\<rparr>) \<and>
    callback_call (task_target spawn) p [] (s\<lparr>cb_world := ps\<rparr>) = Some ((), s1\<lparr>cb_heap := (cb_heap s1)(p := None)\<rparr>) \<and>
    task_inv [] (s1\<lparr>cb_heap := (cb_heap s1)(p := None)\<rparr>)"
proof -
  obtain c where c: "cb_heap s p = Some c" "is_task c" using inv q by (force simp: task_inv_def)
  let ?s1 = "fold push_task (spawn (target_func c) (target_obj c) (cb_binds c)) (s\<lparr>cb_world := ps\<rparr>)"
  have "task_inv [p] (s\<lparr>cb_world := ps\<rparr>)" using inv q by (simp add: task_inv_def)
  then have inv1: "task_inv [p] ?s1" using spawn by (intro push_tasks_inv)
  then obtain c1 where "cb_heap ?s1 p = Some c1" by (force simp: task_inv_def)
  then have "callback_call (task_target spawn) p [] (s\<lparr>cb_world := ps\<rparr>) = Some ((), ?s1\<lparr>cb_heap := (cb_heap ?s1)(p := None)\<rparr>)"
    using c by (simp add: callback_call_def task_target_def is_task_def cb_delete_def)
  moreover have "task_inv [] (?s1\<lparr>cb_heap := (cb_heap ?s1)(p := None)\<rparr>)" using inv1 by (auto simp: task_inv_def)
  ultimately show ?thesis using c(1) by blast
qed

interpretation task: transition_system task_start "task_step (tasks_only spawn)" "task_inv []" for spawn
proof
  show "task_inv [] s" if "task_start s" for s :: "('a, 'b, 'c, nat list) cb_store" using that by (simp add: task_start_def task_inv_def)
next
  fix s t :: "('a, 'b, 'c, nat list) cb_store"
  assume "task_step (tasks_only spawn) s t" and inv: "task_inv [] s"
  then show "task_inv [] t"
  proof cases
    case (submit c)
    then show ?thesis using push_task_inv [OF inv] by simp
  next
    case (run_task p ps)
    then show ?thesis using run_task_ok [OF inv run_task(1), of "tasks_only spawn"] by (auto simp: tasks_only_def)
  qed
qed

text \<open>The tasks a target queues come last, in order.\<close>

lemma push_tasks_queue:
  "cb_world (fold push_task cs s) = cb_world s @ [cb_brk s..<cb_brk s + length cs] \<and> cb_brk (fold push_task cs s) = cb_brk s + length cs \<and>
   (\<forall>p < cb_brk s. cb_heap (fold push_task cs s) p = cb_heap s p) \<and>
   map (cb_heap (fold push_task cs s)) [cb_brk s..<cb_brk s + length cs] = map Some cs"
proof (induction cs arbitrary: s)
  case (Cons c cs)
  have s1: "cb_world (push_task c s) = cb_world s @ [cb_brk s]" "cb_brk (push_task c s) = Suc (cb_brk s)"
      "cb_heap (push_task c s) = (cb_heap s)(cb_brk s \<mapsto> c)"
    by (simp_all add: push_task_def makeCallable_def)
  have up: "[cb_brk s..<cb_brk s + length (c # cs)] = cb_brk s # [Suc (cb_brk s)..<Suc (cb_brk s) + length cs]"
    by (subst upt_conv_Cons) (simp_all del: upt_Suc)
  show ?case using Cons.IH [of "push_task c s"] unfolding up by (simp add: s1)
qed simp

section \<open>Properties\<close>

text \<open>
  C20. Callbacks that are made call-once, queued, and called when they come to the front, whatever
  tasks the called functions queue in turn: the callback at the front of the queue is alive and its call goes through; its target is
  run on the bound arguments and the tasks it makes are queued last, in order; afterwards the callback is deleted, so that
  calling it again is an access to a deleted object. The live callbacks are exactly the queued ones: none is lost, and none
  is left once the queue is empty.
\<close>

theorem Callback_runs_once:
  fixes s :: "('f, 'o, 'v, nat list) cb_store"
  assumes "reach task_start (task_step (tasks_only spawn)) s"
  shows "dom (cb_heap s) = set (cb_world s) \<and> distinct (cb_world s) \<and>
    (\<forall>p ps. cb_world s = p # ps \<longrightarrow>
      (\<exists>c s1 qs. cb_heap s p = Some c \<and> callback_call (task_target (tasks_only spawn)) p [] (s\<lparr>cb_world := ps\<rparr>) = Some ((), s1) \<and>
        cb_world s1 = ps @ qs \<and> map (cb_heap s1) qs = map Some (tasks_only spawn (target_func c) (target_obj c) (cb_binds c)) \<and>
        cb_heap s1 p = None \<and> callback_call (task_target (tasks_only spawn)) p [] s1 = None))"
proof -
  have inv: "task_inv [] s" by (rule task.reach_invar [OF assms])
  have "\<exists>c s1 qs. cb_heap s p = Some c \<and> callback_call (task_target (tasks_only spawn)) p [] (s\<lparr>cb_world := ps\<rparr>) = Some ((), s1) \<and>
      cb_world s1 = ps @ qs \<and> map (cb_heap s1) qs = map Some (tasks_only spawn (target_func c) (target_obj c) (cb_binds c)) \<and>
      cb_heap s1 p = None \<and> callback_call (task_target (tasks_only spawn)) p [] s1 = None" if q: "cb_world s = p # ps" for p ps
  proof -
    obtain c s1 where c: "cb_heap s p = Some c" "s1 = fold push_task (tasks_only spawn (target_func c) (target_obj c) (cb_binds c)) (s\<lparr>cb_world := ps\<rparr>)"
        "callback_call (task_target (tasks_only spawn)) p [] (s\<lparr>cb_world := ps\<rparr>) = Some ((), s1\<lparr>cb_heap := (cb_heap s1)(p := None)\<rparr>)"
      using run_task_ok [OF inv q, of "tasks_only spawn"] by (auto simp: tasks_only_def)
    let ?cs = "tasks_only spawn (target_func c) (target_obj c) (cb_binds c)"
    let ?qs = "[cb_brk s..<cb_brk s + length ?cs]"
    have w: "cb_world s1 = ps @ ?qs" "map (cb_heap s1) ?qs = map Some ?cs"
      using push_tasks_queue [of ?cs "s\<lparr>cb_world := ps\<rparr>"] c(2) by simp_all
    have "p < cb_brk s" using inv c(1) by (auto simp: task_inv_def)
    then have "map ((cb_heap s1)(p := None)) ?qs = map (cb_heap s1) ?qs" by (intro map_cong) auto
    then have "map (cb_heap (s1\<lparr>cb_heap := (cb_heap s1)(p := None)\<rparr>)) ?qs = map Some ?cs" using w(2) by simp
    moreover have "cb_world (s1\<lparr>cb_heap := (cb_heap s1)(p := None)\<rparr>) = ps @ ?qs" "cb_heap (s1\<lparr>cb_heap := (cb_heap s1)(p := None)\<rparr>) p = None"
        "callback_call (task_target (tasks_only spawn)) p [] (s1\<lparr>cb_heap := (cb_heap s1)(p := None)\<rparr>) = None"
      using w(1) by (simp_all add: callback_call_def)
    ultimately show ?thesis using c(1,3) by blast
  qed
  then show ?thesis using inv unfolding task_inv_def by simp
qed

text \<open>A task that was bound to two arguments and queues one more.\<close>

definition cb_demo :: "(string, nat, nat, nat list) cb_store" where
  "cb_demo = push_task (Callable_2_2 CallableOnce ''f'' 0 7 8) \<lparr>cb_heap = Map.empty, cb_brk = 0, cb_world = []\<rparr>"

theorem Callback_runs_once_witness:
  "\<exists>s1 qs. callback_call (task_target (tasks_only (\<lambda>f obj vs. if f = ''f'' then [Callable_1_1 CallableOnce ''g'' obj (hd vs)] else []))) 0 []
     (cb_demo\<lparr>cb_world := []\<rparr>) = Some ((), s1) \<and> cb_world s1 = qs \<and> map (cb_heap s1) qs = [Some (Callable_1_1 CallableOnce ''g'' 0 7)] \<and> cb_heap s1 0 = None"
proof -
  let ?spawn = "\<lambda>f obj vs. if f = ''f'' then [Callable_1_1 CallableOnce ''g'' obj (hd vs)] else [] :: (string, nat, nat) callback list"
  let ?s0 = "\<lparr>cb_heap = Map.empty, cb_brk = 0, cb_world = []\<rparr> :: (string, nat, nat, nat list) cb_store"
  have "task_step (tasks_only ?spawn) ?s0 cb_demo"
    unfolding cb_demo_def by (rule submit) (simp add: is_task_def Callable_2_2_def cb_once_def)
  moreover have "task_start ?s0" by (simp add: task_start_def)
  ultimately have "reach task_start (task_step (tasks_only ?spawn)) cb_demo" by (meson reach.intros)
  from Callback_runs_once [OF this] show ?thesis
    by (auto simp: cb_demo_def push_task_def makeCallable_def tasks_only_def is_task_def Callable_2_2_def Callable_1_1_def cb_once_def)
qed

end
