(* ===== verification/Thread_Local.thy ===== *)
theory Thread_Local
  imports Prelude
begin

text \<open>
  \<^verbatim>\<open>src/thread_local.hpp\<close>: a value per thread, kept behind a \<open>pthread\<close> key. The key maps each thread to the address of its
  instance of \<open>T\<close>, which is allocated when the thread first uses it; what a new instance holds is an argument, by its
  address. A thread that exits has its instance deleted.
\<close>

section \<open>State and operations\<close>

record 'v thread_local =
  tl_key :: "nat \<rightharpoonup> nat"
  tl_heap :: "nat \<rightharpoonup> 'v"
  tl_brk :: nat

definition ThreadLocal_new :: "'v thread_local" where
  "ThreadLocal_new = \<lparr>tl_key = Map.empty, tl_heap = Map.empty, tl_brk = 0\<rparr>"

definition getLocalState :: "(nat \<Rightarrow> 'v) \<Rightarrow> nat \<Rightarrow> 'v thread_local \<Rightarrow> nat \<times> 'v thread_local" where
  "getLocalState fresh t s =
     (case tl_key s t of
        Some a \<Rightarrow> (a, s)
      | None \<Rightarrow> (let a = tl_brk s
                 in (a, s\<lparr>tl_key := (tl_key s)(t \<mapsto> a), tl_heap := (tl_heap s)(a \<mapsto> fresh a), tl_brk := Suc a\<rparr>)))"

definition tl_getVal :: "(nat \<Rightarrow> 'v) \<Rightarrow> nat \<Rightarrow> 'v thread_local \<Rightarrow> ('v \<times> 'v thread_local) option" where
  "tl_getVal fresh t s = (case getLocalState fresh t s of (a, s1) \<Rightarrow> map_option (\<lambda>v. (v, s1)) (tl_heap s1 a))"

definition tl_setVal :: "(nat \<Rightarrow> 'v) \<Rightarrow> nat \<Rightarrow> 'v \<Rightarrow> 'v thread_local \<Rightarrow> 'v thread_local option" where
  "tl_setVal fresh t v s =
     (case getLocalState fresh t s of (a, s1) \<Rightarrow>
        if tl_heap s1 a = None then None else Some (s1\<lparr>tl_heap := (tl_heap s1)(a \<mapsto> v)\<rparr>))"

definition tl_getAddr :: "(nat \<Rightarrow> 'v) \<Rightarrow> nat \<Rightarrow> 'v thread_local \<Rightarrow> nat \<times> 'v thread_local" where
  "tl_getAddr fresh t s = getLocalState fresh t s"

text \<open>The exit of a thread runs \<open>destroyLocalKey\<close> on its value, if it has one.\<close>

definition destroyLocalKey :: "nat \<Rightarrow> 'v thread_local \<Rightarrow> 'v thread_local option" where
  "destroyLocalKey a s = (if tl_heap s a = None then None else Some (s\<lparr>tl_heap := (tl_heap s)(a := None)\<rparr>))"

definition tl_exit :: "nat \<Rightarrow> 'v thread_local \<Rightarrow> 'v thread_local option" where
  "tl_exit t s =
     (case tl_key s t of
        None \<Rightarrow> Some s
      | Some a \<Rightarrow> destroyLocalKey a (s\<lparr>tl_key := (tl_key s)(t := None)\<rparr>))"

section \<open>The specification\<close>

datatype 'v tl_op = GetVal | SetVal 'v | StoreAt 'v | Exit

text \<open>\<open>StoreAt\<close> is a write through the pointer \<open>getAddr\<close> returns. An operation yields the value read, if any.\<close>

definition tl_do :: "(nat \<Rightarrow> 'v) \<Rightarrow> nat \<Rightarrow> 'v tl_op \<Rightarrow> 'v thread_local \<Rightarrow> ('v option \<times> 'v thread_local) option" where
  "tl_do fresh t p s =
     (case p of
        GetVal \<Rightarrow> map_option (\<lambda>(v, s1). (Some v, s1)) (tl_getVal fresh t s)
      | SetVal v \<Rightarrow> map_option (\<lambda>s1. (None, s1)) (tl_setVal fresh t v s)
      | StoreAt v \<Rightarrow>
          (case tl_getAddr fresh t s of (a, s1) \<Rightarrow>
             if tl_heap s1 a = None then None else Some (None, s1\<lparr>tl_heap := (tl_heap s1)(a \<mapsto> v)\<rparr>))
      | Exit \<Rightarrow> map_option (\<lambda>s1. (None, s1)) (tl_exit t s))"

fun tl_run :: "(nat \<Rightarrow> 'v) \<Rightarrow> (nat \<times> 'v tl_op) list \<Rightarrow> 'v thread_local \<Rightarrow> ('v option list \<times> 'v thread_local) option" where
  "tl_run fresh [] s = Some ([], s)"
| "tl_run fresh ((t, p) # ps) s =
     do { (r, s1) \<leftarrow> tl_do fresh t p s; (rs, s2) \<leftarrow> tl_run fresh ps s1; Some (r # rs, s2) }"

text \<open>One variable per thread; a thread that has none yet, or has exited, gets the next new instance.\<close>

fun tl_spec :: "(nat \<Rightarrow> 'v) \<Rightarrow> (nat \<times> 'v tl_op) list \<Rightarrow> (nat \<rightharpoonup> 'v) \<Rightarrow> nat \<Rightarrow> 'v option list \<times> (nat \<rightharpoonup> 'v)" where
  "tl_spec fresh [] m k = ([], m)"
| "tl_spec fresh ((t, p) # ps) m k =
     (let (m1, k1) = (if p \<noteq> Exit \<and> m t = None then (m(t \<mapsto> fresh k), Suc k) else (m, k));
          (r, m2) = (case p of GetVal \<Rightarrow> (m1 t, m1) | SetVal v \<Rightarrow> (None, m1(t \<mapsto> v)) | StoreAt v \<Rightarrow> (None, m1(t \<mapsto> v)) | Exit \<Rightarrow> (None, m1(t := None)));
          (rs, m3) = tl_spec fresh ps m2 k1
      in (r # rs, m3))"

definition tl_inv :: "'v thread_local \<Rightarrow> bool" where
  "tl_inv s \<longleftrightarrow> (\<forall>t u a. tl_key s t = Some a \<longrightarrow> tl_key s u = Some a \<longrightarrow> t = u) \<and>
     (\<forall>a. tl_heap s a \<noteq> None \<longleftrightarrow> (\<exists>t. tl_key s t = Some a)) \<and> (\<forall>a. tl_heap s a \<noteq> None \<longrightarrow> a < tl_brk s)"

definition tl_abs :: "'v thread_local \<Rightarrow> nat \<rightharpoonup> 'v" where
  "tl_abs s t = (case tl_key s t of None \<Rightarrow> None | Some a \<Rightarrow> tl_heap s a)"

lemma tl_invD:
  assumes "tl_inv s"
  shows "tl_key s t = Some a \<Longrightarrow> tl_key s u = Some a \<Longrightarrow> t = u" "tl_key s t = Some a \<Longrightarrow> \<exists>v. tl_heap s a = Some v"
    "tl_heap s a = Some v \<Longrightarrow> a < tl_brk s" "tl_heap s a = Some v \<Longrightarrow> \<exists>t. tl_key s t = Some a"
  using assms unfolding tl_inv_def by blast+

lemma tl_other: "tl_inv s \<Longrightarrow> tl_key s t = Some a \<Longrightarrow> u \<noteq> t \<Longrightarrow> tl_key s u \<noteq> Some a"
  using tl_invD(1) by blast

lemma getLocalState_cases:
  assumes inv: "tl_inv s" and st: "getLocalState fresh t s = (a, s1)"
  shows "tl_inv s1 \<and> tl_key s1 t = Some a \<and> (\<exists>v. tl_heap s1 a = Some v) \<and>
    (tl_abs s1, tl_brk s1) = (if tl_abs s t = None then ((tl_abs s)(t \<mapsto> fresh (tl_brk s)), Suc (tl_brk s)) else (tl_abs s, tl_brk s))"
proof (cases "tl_key s t")
  case None
  have free: "tl_heap s (tl_brk s) = None" using tl_invD(3) [OF inv] by (metis less_irrefl option.exhaust)
  then have nokey: "tl_key s u \<noteq> Some (tl_brk s)" for u using tl_invD(2) [OF inv] by force
  have s1: "a = tl_brk s" "s1 = s\<lparr>tl_key := (tl_key s)(t \<mapsto> a), tl_heap := (tl_heap s)(a \<mapsto> fresh a), tl_brk := Suc a\<rparr>"
    using st None by (auto simp: getLocalState_def Let_def)
  have "tl_inv s1" unfolding tl_inv_def
  proof (intro conjI allI impI)
    show "u = v" if "tl_key s1 u = Some b" "tl_key s1 v = Some b" for u v b
      using that tl_invD(1) [OF inv] nokey by (auto simp: s1 split: if_splits)
    show "b < tl_brk s1" if "tl_heap s1 b \<noteq> None" for b
      using that tl_invD(3) [OF inv] by (auto simp: s1 less_Suc_eq split: if_splits)
    show "tl_heap s1 b \<noteq> None \<longleftrightarrow> (\<exists>u. tl_key s1 u = Some b)" for b
      using tl_invD(2) [OF inv] tl_invD(4) [OF inv] None by (cases "b = a") (auto simp: s1 split: if_splits, metis option.distinct(1))
  qed
  moreover have "tl_abs s1 u = ((tl_abs s)(t \<mapsto> fresh (tl_brk s))) u" for u
    using None nokey [of u] by (cases "u = t"; cases "tl_key s u") (auto simp: tl_abs_def s1)
  then have "tl_abs s1 = (tl_abs s)(t \<mapsto> fresh (tl_brk s))" by (rule ext)
  moreover have "tl_abs s t = None" using None by (simp add: tl_abs_def)
  ultimately show ?thesis by (simp add: s1)
next
  case (Some b)
  then have "s1 = s" "a = b" "tl_abs s t \<noteq> None" using st tl_invD(2) [OF inv Some] by (auto simp: getLocalState_def tl_abs_def)
  then show ?thesis using inv Some tl_invD(2) [OF inv Some] by simp
qed

lemma store_abs:
  assumes inv: "tl_inv s" and a: "tl_key s t = Some a"
  shows "tl_inv (s\<lparr>tl_heap := (tl_heap s)(a \<mapsto> v)\<rparr>) \<and> tl_abs (s\<lparr>tl_heap := (tl_heap s)(a \<mapsto> v)\<rparr>) = (tl_abs s)(t \<mapsto> v)"
proof
  obtain w where w: "tl_heap s a = Some w" using tl_invD(2) [OF inv a] by blast
  show "tl_inv (s\<lparr>tl_heap := (tl_heap s)(a \<mapsto> v)\<rparr>)" using inv a w unfolding tl_inv_def by auto
  show "tl_abs (s\<lparr>tl_heap := (tl_heap s)(a \<mapsto> v)\<rparr>) = (tl_abs s)(t \<mapsto> v)"
  proof (rule ext)
    fix u
    show "tl_abs (s\<lparr>tl_heap := (tl_heap s)(a \<mapsto> v)\<rparr>) u = ((tl_abs s)(t \<mapsto> v)) u"
      using a tl_other [OF inv a, of u] by (cases "u = t") (auto simp: tl_abs_def split: option.split)
  qed
qed

lemma exit_abs:
  assumes inv: "tl_inv s"
  shows "\<exists>s1. tl_exit t s = Some s1 \<and> tl_inv s1 \<and> tl_abs s1 = (tl_abs s)(t := None) \<and> tl_brk s1 = tl_brk s"
proof (cases "tl_key s t")
  case None
  then have "tl_abs s t = None" by (simp add: tl_abs_def)
  then show ?thesis using None inv by (auto simp: tl_exit_def fun_eq_iff)
next
  case (Some a)
  obtain v where v: "tl_heap s a = Some v" using tl_invD(2) [OF inv Some] by blast
  let ?s1 = "s\<lparr>tl_key := (tl_key s)(t := None), tl_heap := (tl_heap s)(a := None)\<rparr>"
  have "tl_inv ?s1" unfolding tl_inv_def
  proof (intro conjI allI impI)
    show "u = w" if "tl_key ?s1 u = Some b" "tl_key ?s1 w = Some b" for u w b
      using that tl_invD(1) [OF inv, of u b w] by (simp split: if_splits)
    show "tl_heap ?s1 b \<noteq> None \<longleftrightarrow> (\<exists>u. tl_key ?s1 u = Some b)" for b
    proof (cases "b = a")
      case True
      then show ?thesis using tl_other [OF inv Some] by auto
    next
      case False
      then have "tl_key ?s1 u = Some b \<longleftrightarrow> tl_key s u = Some b" for u using Some by (cases "u = t") auto
      then show ?thesis using False inv by (simp add: tl_inv_def)
    qed
    show "b < tl_brk ?s1" if "tl_heap ?s1 b \<noteq> None" for b using that inv by (auto simp: tl_inv_def split: if_splits)
  qed
  moreover have "tl_abs ?s1 u = ((tl_abs s)(t := None)) u" for u
    using Some tl_other [OF inv Some, of u] by (cases "u = t") (auto simp: tl_abs_def split: option.split)
  then have "tl_abs ?s1 = (tl_abs s)(t := None)" by (rule ext)
  ultimately show ?thesis using Some v by (auto simp: tl_exit_def destroyLocalKey_def)
qed

lemma tl_do_abs:
  assumes inv: "tl_inv s"
  shows "\<exists>r s1. tl_do fresh t p s = Some (r, s1) \<and> tl_inv s1 \<and>
    (\<forall>ps. tl_spec fresh ((t, p) # ps) (tl_abs s) (tl_brk s) =
      (case tl_spec fresh ps (tl_abs s1) (tl_brk s1) of (rs, m) \<Rightarrow> (r # rs, m)))"
proof (cases "p = Exit")
  case True
  then show ?thesis using exit_abs [OF inv, of t] by (auto simp: tl_do_def split: prod.split)
next
  case False
  obtain a s1 where st: "getLocalState fresh t s = (a, s1)" by fastforce
  obtain v where s1: "tl_inv s1" "tl_key s1 t = Some a" "tl_heap s1 a = Some v"
      "(tl_abs s1, tl_brk s1) = (if tl_abs s t = None then ((tl_abs s)(t \<mapsto> fresh (tl_brk s)), Suc (tl_brk s)) else (tl_abs s, tl_brk s))"
    using getLocalState_cases [OF inv st] by blast
  have val: "tl_abs s1 t = Some v" using s1(2,3) by (simp add: tl_abs_def)
  note store = store_abs [OF s1(1,2)]
  show ?thesis
  proof (cases p)
    case GetVal
    then show ?thesis using s1 val by (auto simp: tl_do_def tl_getVal_def st s1(4) [symmetric] split: prod.split)
  next
    case (SetVal w)
    then show ?thesis using s1 store [of w] by (auto simp: tl_do_def tl_setVal_def st s1(4) [symmetric] split: prod.split)
  next
    case (StoreAt w)
    then show ?thesis using s1 store [of w] by (auto simp: tl_do_def tl_getAddr_def st s1(4) [symmetric] split: prod.split)
  qed (use False in simp)
qed

lemma tl_run_abs:
  "tl_inv s \<Longrightarrow> \<exists>s1. tl_run fresh ps s = Some (fst (tl_spec fresh ps (tl_abs s) (tl_brk s)), s1) \<and> tl_inv s1 \<and>
    tl_abs s1 = snd (tl_spec fresh ps (tl_abs s) (tl_brk s))"
proof (induction ps arbitrary: s)
  case (Cons x ps)
  obtain t p where x: "x = (t, p)" by (cases x)
  obtain r s1 where s1: "tl_do fresh t p s = Some (r, s1)" "tl_inv s1"
      "tl_spec fresh ((t, p) # ps) (tl_abs s) (tl_brk s) = (case tl_spec fresh ps (tl_abs s1) (tl_brk s1) of (rs, m) \<Rightarrow> (r # rs, m))"
    using tl_do_abs [OF Cons.prems, of fresh t p] by blast
  obtain rs m where rs: "tl_spec fresh ps (tl_abs s1) (tl_brk s1) = (rs, m)" by fastforce
  show ?case using Cons.IH [OF s1(2)] s1(1) unfolding x s1(3) rs by auto
qed simp

section \<open>Properties\<close>

text \<open>
  C21. Threads that read, write, store through the address and exit, in any order, on a new \<open>ThreadLocal\<close>: no
  access to a deleted instance happens, every read yields what the same thread last wrote or, when it wrote nothing since it
  started, what its new instance held, whatever the other threads do; there is one live instance per thread that
  used the variable and has not exited, and none is shared.
\<close>

theorem ThreadLocal_private:
  "\<exists>s. tl_run fresh ps ThreadLocal_new = Some (fst (tl_spec fresh ps Map.empty 0), s) \<and> tl_abs s = snd (tl_spec fresh ps Map.empty 0) \<and>
    inj_on (tl_key s) (dom (tl_key s)) \<and> dom (tl_key s) = dom (tl_abs s) \<and> dom (tl_heap s) = ran (tl_key s)"
proof -
  have new: "tl_inv (ThreadLocal_new :: 'a thread_local)" "tl_abs (ThreadLocal_new :: 'a thread_local) = Map.empty" "tl_brk (ThreadLocal_new :: 'a thread_local) = 0"
    by (auto simp: ThreadLocal_new_def tl_inv_def tl_abs_def fun_eq_iff)
  obtain s where s: "tl_run fresh ps ThreadLocal_new = Some (fst (tl_spec fresh ps Map.empty 0), s)" "tl_inv s" "tl_abs s = snd (tl_spec fresh ps Map.empty 0)"
    using tl_run_abs [OF new(1), of fresh ps] unfolding new(2,3) by blast
  have "inj_on (tl_key s) (dom (tl_key s))" using tl_invD(1) [OF s(2)] by (auto simp: inj_on_def)
  moreover have "dom (tl_key s) = dom (tl_abs s)"
    using tl_invD(2) [OF s(2)] by (auto simp: tl_abs_def dom_def split: option.splits)
  moreover have "dom (tl_heap s) = ran (tl_key s)" using s(2) by (auto simp: tl_inv_def ran_def dom_def)
  ultimately show ?thesis using s(1,3) by blast
qed

end
