(* ===== verification/Sync_Send.thy ===== *)
theory Sync_Send
  imports Prelude
begin

text \<open>
  The synchronous \<open>send\<close> of \<^verbatim>\<open>src/http_connection.cpp\<close> and \<^verbatim>\<open>src/kv_connection.cpp\<close>, with the \<open>Mutex\<close>, \<open>ConditionVar\<close> and
  \<open>Notification\<close> of \<^verbatim>\<open>src/lock.hpp\<close>: any number of threads send requests over one connection and wait, each on a \<open>Notification\<close>
  of its own, for the callback that the I/O thread calls with the response. One step per operation on a mutex, a condition
  variable or a shared variable. Waiting on a condition variable may end without a signal, as \<open>pthread_cond_wait\<close> may.
  An access to a deleted \<open>Notification\<close> sets \<open>sy_fault\<close>.
\<close>

section \<open>Notifications\<close>

datatype sync_thread = IoThread | Sender nat

record notification =
  n_owner :: "sync_thread option"
  n_sleep :: "nat set"
  notified :: bool

definition Notification_new :: notification where
  "Notification_new = \<lparr>n_owner = None, n_sleep = {}, notified = False\<rparr>"

text \<open>\<open>Mutex::lock\<close> is possible when no thread holds the mutex.\<close>

definition n_lock :: "sync_thread \<Rightarrow> notification \<Rightarrow> notification option" where
  "n_lock t n = (if n_owner n = None then Some (n\<lparr>n_owner := Some t\<rparr>) else None)"

definition n_unlock :: "notification \<Rightarrow> notification" where
  "n_unlock n = n\<lparr>n_owner := None\<rparr>"

definition cv_wait :: "nat \<Rightarrow> notification \<Rightarrow> notification" where
  "cv_wait u n = n\<lparr>n_owner := None, n_sleep := insert u (n_sleep n)\<rparr>"

definition n_set :: "bool \<Rightarrow> notification \<Rightarrow> notification" where
  "n_set b n = n\<lparr>notified := b\<rparr>"

section \<open>The threads\<close>

text \<open>Program points of \<open>send\<close>, and of the I/O thread within \<open>handleResponse\<close>, \<open>receiveInternal\<close> and \<open>notify\<close>.\<close>

datatype send_pc = SIdle | SAsync | SLock | STest | SSleep | SRelock | SUnlock | SDelete

datatype 'r io_pc = IoIdle | IoStore nat nat 'r | IoLock nat | IoSet nat | IoSignal nat | IoUnlock nat

text \<open>
  \<open>response_cbs_\<close> as the arguments bound by each callback: the notification and whose variable receives the response. \<open>sy_wire\<close> holds
  the requests written and not yet answered, \<open>sy_req\<close> and \<open>sy_n\<close> the locals of \<open>send\<close>; \<open>sy_log\<close> the calls that returned.
\<close>

record ('q, 'r) sync =
  sy_heap :: "nat \<rightharpoonup> notification"
  sy_brk :: nat
  sy_cbs :: "(nat \<times> nat) list"
  sy_wire :: "'q list"
  sy_pc :: "nat \<Rightarrow> send_pc"
  sy_n :: "nat \<Rightarrow> nat"
  sy_req :: "nat \<Rightarrow> 'q"
  sy_resp :: "nat \<Rightarrow> 'r option"
  sy_io :: "'r io_pc"
  sy_log :: "(nat \<times> 'q \<times> 'r option) list"
  sy_fault :: bool

definition send_goto :: "nat \<Rightarrow> send_pc \<Rightarrow> ('q, 'r) sync \<Rightarrow> ('q, 'r) sync" where
  "send_goto u p s = s\<lparr>sy_pc := (sy_pc s)(u := p)\<rparr>"

definition set_n :: "nat \<Rightarrow> notification \<Rightarrow> ('q, 'r) sync \<Rightarrow> ('q, 'r) sync" where
  "set_n a n s = s\<lparr>sy_heap := (sy_heap s)(a \<mapsto> n)\<rparr>"

definition sync_fault :: "('q, 'r) sync \<Rightarrow> ('q, 'r) sync" where
  "sync_fault s = s\<lparr>sy_fault := True\<rparr>"

text \<open>The call up to \<open>new Notification\<close>.\<close>

definition send_begin :: "nat \<Rightarrow> 'q \<Rightarrow> ('q, 'r) sync \<Rightarrow> ('q, 'r) sync" where
  "send_begin u q s =
     send_goto u SAsync (s\<lparr>sy_heap := (sy_heap s)(sy_brk s \<mapsto> Notification_new), sy_brk := Suc (sy_brk s),
       sy_n := (sy_n s)(u := sy_brk s), sy_req := (sy_req s)(u := q)\<rparr>)"

text \<open>A step of a sender; \<open>None\<close> when it cannot go on: it waits for a mutex or sleeps.\<close>

definition send_step :: "nat \<Rightarrow> ('q, 'r) sync \<Rightarrow> ('q, 'r) sync option" where
  "send_step u s =
     (case sy_pc s u of
        SIdle \<Rightarrow> None
      | SAsync \<Rightarrow> Some (send_goto u SLock (s\<lparr>sy_cbs := sy_cbs s @ [(sy_n s u, u)], sy_wire := sy_wire s @ [sy_req s u]\<rparr>))
      | SSleep \<Rightarrow> None
      | p \<Rightarrow>
          (case sy_heap s (sy_n s u) of
             None \<Rightarrow> Some (sync_fault s)
           | Some n \<Rightarrow>
               (case p of
                  STest \<Rightarrow> if notified n then Some (send_goto u SUnlock s) else Some (send_goto u SSleep (set_n (sy_n s u) (cv_wait u n) s))
                | SUnlock \<Rightarrow> Some (send_goto u SDelete (set_n (sy_n s u) (n_unlock n) s))
                | SDelete \<Rightarrow> Some (send_goto u SIdle (s\<lparr>sy_heap := (sy_heap s)(sy_n s u := None),
                    sy_log := sy_log s @ [(u, sy_req s u, sy_resp s u)]\<rparr>))
                | _ \<Rightarrow> map_option (\<lambda>n1. send_goto u STest (set_n (sy_n s u) n1 s)) (n_lock (Sender u) n))))"

text \<open>A sleeping thread wakes up: it was signalled, or not.\<close>

definition send_wake :: "nat \<Rightarrow> ('q, 'r) sync \<Rightarrow> ('q, 'r) sync" where
  "send_wake u s =
     (case sy_heap s (sy_n s u) of
        None \<Rightarrow> sync_fault s
      | Some n \<Rightarrow> send_goto u SRelock (set_n (sy_n s u) (n\<lparr>n_sleep := n_sleep n - {u}\<rparr>) s))"

text \<open>The I/O thread; the server answers the first request on the wire, \<open>signal\<close> wakes one sleeper if there is one.\<close>

inductive receive_step :: "('q \<Rightarrow> 'r) \<Rightarrow> ('q, 'r) sync \<Rightarrow> ('q, 'r) sync \<Rightarrow> bool" for answer :: "'q \<Rightarrow> 'r" where
  io_pop: "sy_io s = IoIdle \<Longrightarrow> sy_wire s = q # qs \<Longrightarrow> sy_cbs s = (n, u) # cbs \<Longrightarrow>
    receive_step answer s (s\<lparr>sy_wire := qs, sy_cbs := cbs, sy_io := IoStore n u (answer q)\<rparr>)"
| io_drop: "sy_io s = IoIdle \<Longrightarrow> sy_wire s = q # qs \<Longrightarrow> sy_cbs s = [] \<Longrightarrow> receive_step answer s (s\<lparr>sy_wire := qs\<rparr>)"
| io_store: "sy_io s = IoStore n u r \<Longrightarrow> receive_step answer s (s\<lparr>sy_resp := (sy_resp s)(u := Some r), sy_io := IoLock n\<rparr>)"
| io_lock: "sy_io s = IoLock a \<Longrightarrow> sy_heap s a = Some n \<Longrightarrow> n_lock IoThread n = Some n1 \<Longrightarrow>
    receive_step answer s ((set_n a n1 s)\<lparr>sy_io := IoSet a\<rparr>)"
| io_set: "sy_io s = IoSet a \<Longrightarrow> sy_heap s a = Some n \<Longrightarrow> receive_step answer s ((set_n a (n_set True n) s)\<lparr>sy_io := IoSignal a\<rparr>)"
| io_signal: "sy_io s = IoSignal a \<Longrightarrow> sy_heap s a = Some n \<Longrightarrow> u \<in> n_sleep n \<Longrightarrow>
    receive_step answer s ((send_wake u s)\<lparr>sy_io := IoUnlock a\<rparr>)"
| io_signal_none: "sy_io s = IoSignal a \<Longrightarrow> sy_heap s a = Some n \<Longrightarrow> n_sleep n = {} \<Longrightarrow> receive_step answer s (s\<lparr>sy_io := IoUnlock a\<rparr>)"
| io_unlock: "sy_io s = IoUnlock a \<Longrightarrow> sy_heap s a = Some n \<Longrightarrow> receive_step answer s ((set_n a (n_unlock n) s)\<lparr>sy_io := IoIdle\<rparr>)"
| io_bad: "sy_io s \<in> {IoLock a, IoSet a, IoSignal a, IoUnlock a} \<Longrightarrow> sy_heap s a = None \<Longrightarrow> receive_step answer s (sync_fault s)"

inductive sync_step :: "('q \<Rightarrow> 'r) \<Rightarrow> ('q, 'r) sync \<Rightarrow> ('q, 'r) sync \<Rightarrow> bool" for answer :: "'q \<Rightarrow> 'r" where
  sync_call: "sy_pc s u = SIdle \<Longrightarrow> sync_step answer s (send_begin u q s)"
| sync_send: "send_step u s = Some s' \<Longrightarrow> sync_step answer s s'"
| sync_spurious: "sy_pc s u = SSleep \<Longrightarrow> sync_step answer s (send_wake u s)"
| sync_io: "receive_step answer s s' \<Longrightarrow> sync_step answer s s'"

definition sync_start :: "('q, 'r) sync \<Rightarrow> bool" where
  "sync_start s \<longleftrightarrow> sy_heap s = Map.empty \<and> sy_cbs s = [] \<and> sy_wire s = [] \<and> (\<forall>u. sy_pc s u = SIdle) \<and>
     sy_io s = IoIdle \<and> sy_log s = [] \<and> \<not> sy_fault s"

definition sync_initial :: "'q \<Rightarrow> ('q, 'r) sync" where
  "sync_initial q = \<lparr>sy_heap = Map.empty, sy_brk = 0, sy_cbs = [], sy_wire = [], sy_pc = (\<lambda>_. SIdle), sy_n = (\<lambda>_. 0), sy_req = (\<lambda>_. q),
     sy_resp = (\<lambda>_. None), sy_io = IoIdle, sy_log = [], sy_fault = False\<rparr>"

section \<open>The invariant\<close>

text \<open>How far the I/O thread is with the notification \<open>a\<close>.\<close>

datatype io_phase = PNone | PStore | PLock | PSet | PSignal | PUnlock

fun io_node :: "'r io_pc \<Rightarrow> nat option" where
  "io_node IoIdle = None"
| "io_node (IoStore a u r) = Some a"
| "io_node (IoLock a) = Some a"
| "io_node (IoSet a) = Some a"
| "io_node (IoSignal a) = Some a"
| "io_node (IoUnlock a) = Some a"

fun io_phase_of :: "'r io_pc \<Rightarrow> io_phase" where
  "io_phase_of IoIdle = PNone"
| "io_phase_of (IoStore a u r) = PStore"
| "io_phase_of (IoLock a) = PLock"
| "io_phase_of (IoSet a) = PSet"
| "io_phase_of (IoSignal a) = PSignal"
| "io_phase_of (IoUnlock a) = PUnlock"

definition io_at :: "('q, 'r) sync \<Rightarrow> nat \<Rightarrow> io_phase" where
  "io_at s a = (if io_node (sy_io s) = Some a then io_phase_of (sy_io s) else PNone)"

text \<open>What a sender's own variables, its notification and the two threads' progress say of each other.\<close>

definition view_ok :: "('q \<Rightarrow> 'r) \<Rightarrow> nat \<Rightarrow> send_pc \<Rightarrow> notification \<Rightarrow> bool \<Rightarrow> io_phase \<Rightarrow> 'r option \<Rightarrow> 'q \<Rightarrow> bool" where
  "view_ok answer u pc n inq ph resp req \<longleftrightarrow>
     n_owner n = (if pc \<in> {STest, SUnlock} then Some (Sender u) else if ph \<in> {PSet, PSignal, PUnlock} then Some IoThread else None) \<and>
     (pc \<in> {STest, SUnlock} \<longrightarrow> ph \<notin> {PSet, PSignal, PUnlock}) \<and> n_sleep n = (if pc = SSleep then {u} else {}) \<and>
     (notified n \<longleftrightarrow> pc \<noteq> SAsync \<and> \<not> inq \<and> ph \<notin> {PStore, PLock, PSet}) \<and>
     (inq \<longrightarrow> ph = PNone \<and> pc \<noteq> SAsync) \<and> (pc = SAsync \<longrightarrow> ph = PNone) \<and>
     (notified n \<or> ph \<in> {PLock, PSet} \<longrightarrow> resp = Some (answer req)) \<and>
     (pc \<in> {SUnlock, SDelete} \<longrightarrow> notified n \<and> ph = PNone) \<and> (pc = SSleep \<and> notified n \<longrightarrow> ph = PSignal)"

definition sender_ok :: "('q \<Rightarrow> 'r) \<Rightarrow> ('q, 'r) sync \<Rightarrow> nat \<Rightarrow> bool" where
  "sender_ok answer s u \<longleftrightarrow> sy_pc s u = SIdle \<or>
     (\<exists>n. sy_heap s (sy_n s u) = Some n \<and> sy_n s u < sy_brk s \<and>
        view_ok answer u (sy_pc s u) n ((sy_n s u, u) \<in> set (sy_cbs s)) (io_at s (sy_n s u)) (sy_resp s u) (sy_req s u))"

definition sync_ok :: "('q \<Rightarrow> 'r) \<Rightarrow> ('q, 'r) sync \<Rightarrow> bool" where
  "sync_ok answer s \<longleftrightarrow> \<not> sy_fault s \<and> (\<forall>u. sender_ok answer s u) \<and>
     (\<forall>u v. sy_pc s u \<noteq> SIdle \<longrightarrow> sy_pc s v \<noteq> SIdle \<longrightarrow> sy_n s u = sy_n s v \<longrightarrow> u = v) \<and>
     distinct (sy_cbs s) \<and> (\<forall>a u. (a, u) \<in> set (sy_cbs s) \<longrightarrow> sy_pc s u \<noteq> SIdle \<and> sy_n s u = a) \<and>
     sy_wire s = map (\<lambda>(a, u). sy_req s u) (sy_cbs s) \<and>
     (\<forall>a. io_node (sy_io s) = Some a \<longrightarrow> (\<exists>u. sy_pc s u \<noteq> SIdle \<and> sy_n s u = a)) \<and>
     (\<forall>a u r. sy_io s = IoStore a u r \<longrightarrow> sy_pc s u \<noteq> SIdle \<and> sy_n s u = a \<and> r = answer (sy_req s u)) \<and>
     (\<forall>u q r. (u, q, r) \<in> set (sy_log s) \<longrightarrow> r = Some (answer q))"

lemma sync_okD:
  assumes "sync_ok answer s"
  shows "\<not> sy_fault s" "sender_ok answer s u" "sy_pc s u \<noteq> SIdle \<Longrightarrow> sy_pc s v \<noteq> SIdle \<Longrightarrow> sy_n s u = sy_n s v \<Longrightarrow> u = v"
    "distinct (sy_cbs s)" "(a, u) \<in> set (sy_cbs s) \<Longrightarrow> sy_pc s u \<noteq> SIdle \<and> sy_n s u = a"
    "sy_wire s = map (\<lambda>(a, u). sy_req s u) (sy_cbs s)" "io_node (sy_io s) = Some a \<Longrightarrow> \<exists>u. sy_pc s u \<noteq> SIdle \<and> sy_n s u = a"
    "sy_io s = IoStore a u r \<Longrightarrow> sy_pc s u \<noteq> SIdle \<and> sy_n s u = a \<and> r = answer (sy_req s u)"
    "(u, q, r') \<in> set (sy_log s) \<Longrightarrow> r' = Some (answer q)"
proof -
  note inv = assms [unfolded sync_ok_def]
  show "\<not> sy_fault s" "sender_ok answer s u" "distinct (sy_cbs s)" "sy_wire s = map (\<lambda>(a, u). sy_req s u) (sy_cbs s)" using inv by simp_all
  have uniq: "\<forall>u v. sy_pc s u \<noteq> SIdle \<longrightarrow> sy_pc s v \<noteq> SIdle \<longrightarrow> sy_n s u = sy_n s v \<longrightarrow> u = v"
    and cbs: "\<forall>a u. (a, u) \<in> set (sy_cbs s) \<longrightarrow> sy_pc s u \<noteq> SIdle \<and> sy_n s u = a"
    and node: "\<forall>a. io_node (sy_io s) = Some a \<longrightarrow> (\<exists>u. sy_pc s u \<noteq> SIdle \<and> sy_n s u = a)"
    and store: "\<forall>a u r. sy_io s = IoStore a u r \<longrightarrow> sy_pc s u \<noteq> SIdle \<and> sy_n s u = a \<and> r = answer (sy_req s u)"
    and log: "\<forall>u q r. (u, q, r) \<in> set (sy_log s) \<longrightarrow> r = Some (answer q)"
    using inv by - (elim conjE, assumption)+
  show "sy_pc s u \<noteq> SIdle \<Longrightarrow> sy_pc s v \<noteq> SIdle \<Longrightarrow> sy_n s u = sy_n s v \<Longrightarrow> u = v" by (rule uniq [rule_format])
  show "(a, u) \<in> set (sy_cbs s) \<Longrightarrow> sy_pc s u \<noteq> SIdle \<and> sy_n s u = a" by (rule cbs [rule_format])
  show "io_node (sy_io s) = Some a \<Longrightarrow> \<exists>u. sy_pc s u \<noteq> SIdle \<and> sy_n s u = a" by (rule node [rule_format])
  show "sy_io s = IoStore a u r \<Longrightarrow> sy_pc s u \<noteq> SIdle \<and> sy_n s u = a \<and> r = answer (sy_req s u)" by (rule store [rule_format])
  show "(u, q, r') \<in> set (sy_log s) \<Longrightarrow> r' = Some (answer q)" by (rule log [rule_format])
qed

lemma active_node:
  assumes "sync_ok answer s" "sy_pc s u \<noteq> SIdle"
  obtains n where "sy_heap s (sy_n s u) = Some n" "sy_n s u < sy_brk s"
    "view_ok answer u (sy_pc s u) n ((sy_n s u, u) \<in> set (sy_cbs s)) (io_at s (sy_n s u)) (sy_resp s u) (sy_req s u)"
  using sync_okD(2) [OF assms(1), of u] assms(2) unfolding sender_ok_def by blast

text \<open>A step that concerns the sender \<open>u\<close> and its notification only.\<close>

lemma sync_ok_step:
  assumes inv: "sync_ok answer s" and u: "sender_ok answer s' u" and fault: "\<not> sy_fault s'"
    and oth: "\<And>v. v \<noteq> u \<Longrightarrow> sy_pc s v \<noteq> SIdle \<Longrightarrow> sy_heap s' (sy_n s v) = sy_heap s (sy_n s v) \<and> io_at s' (sy_n s v) = io_at s (sy_n s v) \<and>
        ((sy_n s v, v) \<in> set (sy_cbs s') \<longleftrightarrow> (sy_n s v, v) \<in> set (sy_cbs s)) \<and> sy_resp s' v = sy_resp s v"
    and loc: "\<And>v. v \<noteq> u \<Longrightarrow> sy_pc s' v = sy_pc s v \<and> sy_n s' v = sy_n s v \<and> sy_req s' v = sy_req s v"
    and uniq: "\<And>v. v \<noteq> u \<Longrightarrow> sy_pc s v \<noteq> SIdle \<Longrightarrow> sy_pc s' u \<noteq> SIdle \<Longrightarrow> sy_n s' u \<noteq> sy_n s v" and brk: "sy_brk s \<le> sy_brk s'"
    and cbs: "distinct (sy_cbs s')" "\<And>a v. (a, v) \<in> set (sy_cbs s') \<Longrightarrow> sy_pc s' v \<noteq> SIdle \<and> sy_n s' v = a"
      "sy_wire s' = map (\<lambda>(a, v). sy_req s' v) (sy_cbs s')"
    and io: "\<And>a. io_node (sy_io s') = Some a \<Longrightarrow> \<exists>v. sy_pc s' v \<noteq> SIdle \<and> sy_n s' v = a"
      "\<And>a v r. sy_io s' = IoStore a v r \<Longrightarrow> sy_pc s' v \<noteq> SIdle \<and> sy_n s' v = a \<and> r = answer (sy_req s' v)"
    and log: "\<And>v q r. (v, q, r) \<in> set (sy_log s') \<Longrightarrow> r = Some (answer q)"
  shows "sync_ok answer s'"
proof -
  have "sender_ok answer s' v" for v
  proof (cases "v = u \<or> sy_pc s v = SIdle")
    case True
    then show ?thesis using u loc [of v] by (cases "v = u") (auto simp: sender_ok_def)
  next
    case False
    then have v: "v \<noteq> u" "sy_pc s v \<noteq> SIdle" by auto
    obtain n where "sy_heap s (sy_n s v) = Some n" "sy_n s v < sy_brk s"
        "view_ok answer v (sy_pc s v) n ((sy_n s v, v) \<in> set (sy_cbs s)) (io_at s (sy_n s v)) (sy_resp s v) (sy_req s v)"
      using active_node [OF inv v(2)] .
    then show ?thesis using loc [OF v(1)] oth [OF v] brk by (simp add: sender_ok_def)
  qed
  moreover have "v = w" if "sy_pc s' v \<noteq> SIdle" "sy_pc s' w \<noteq> SIdle" "sy_n s' v = sy_n s' w" for v w
  proof (rule ccontr)
    assume ne: "v \<noteq> w"
    consider "v = u" "w \<noteq> u" | "w = u" "v \<noteq> u" | "v \<noteq> u" "w \<noteq> u" using ne by blast
    then show False
    proof cases
      case 1
      then show ?thesis using that uniq [of w] loc [of w] by simp
    next
      case 2
      then show ?thesis using that uniq [of v] loc [of v] by simp
    next
      case 3
      then show ?thesis using that ne loc [of v] loc [of w] sync_okD(3) [OF inv, of v w] by simp
    qed
  qed
  ultimately show ?thesis unfolding sync_ok_def using fault cbs io log by blast
qed

text \<open>A step inside the call of \<open>u\<close>, by \<open>u\<close> itself or by the I/O thread that serves it.\<close>

lemma sync_ok_local:
  assumes inv: "sync_ok answer s" and act: "sy_pc s u \<noteq> SIdle" "p \<noteq> SIdle"
    and io: "i = sy_io s \<or> io_node (sy_io s) = Some (sy_n s u) \<and> io_node i \<in> {None, Some (sy_n s u)} \<and> io_phase_of i \<noteq> PStore"
    and resp: "\<forall>v. v \<noteq> u \<longrightarrow> resp v = sy_resp s v"
    and view: "view_ok answer u p n ((sy_n s u, u) \<in> set (sy_cbs s)) (if io_node i = Some (sy_n s u) then io_phase_of i else PNone) (resp u) (sy_req s u)"
  shows "sync_ok answer (s\<lparr>sy_heap := (sy_heap s)(sy_n s u \<mapsto> n), sy_pc := (sy_pc s)(u := p), sy_resp := resp, sy_io := i\<rparr>)"
    (is "sync_ok answer ?s")
proof (rule sync_ok_step [OF inv, of ?s u])
  have n0: "sy_n s u < sy_brk s" using active_node [OF inv act(1)] by blast
  have other: "sy_n s v \<noteq> sy_n s u" if "v \<noteq> u" "sy_pc s v \<noteq> SIdle" for v using sync_okD(3) [OF inv that(2) act(1)] that(1) by blast
  show "sender_ok answer ?s u" using n0 view by (cases "io_node i = Some (sy_n s u)") (simp_all add: sender_ok_def io_at_def)
  show "\<not> sy_fault ?s" using sync_okD(1) [OF inv] by simp
  fix v
  show "v \<noteq> u \<Longrightarrow> sy_pc ?s v = sy_pc s v \<and> sy_n ?s v = sy_n s v \<and> sy_req ?s v = sy_req s v" by simp
  assume v: "v \<noteq> u" "sy_pc s v \<noteq> SIdle"
  have "io_at ?s (sy_n s v) = io_at s (sy_n s v)" using io other [OF v] by (auto simp: io_at_def)
  then show "sy_heap ?s (sy_n s v) = sy_heap s (sy_n s v) \<and> io_at ?s (sy_n s v) = io_at s (sy_n s v) \<and>
        ((sy_n s v, v) \<in> set (sy_cbs ?s) \<longleftrightarrow> (sy_n s v, v) \<in> set (sy_cbs s)) \<and> sy_resp ?s v = sy_resp s v"
    using other [OF v] resp v by simp
  show "sy_n ?s u \<noteq> sy_n s v" using other [OF v] by simp
next
  have pc: "sy_pc ?s v \<noteq> SIdle \<longleftrightarrow> sy_pc s v \<noteq> SIdle" for v using act by simp
  fix a v r
  show "(a, v) \<in> set (sy_cbs ?s) \<Longrightarrow> sy_pc ?s v \<noteq> SIdle \<and> sy_n ?s v = a" using sync_okD(5) [OF inv] pc by simp
  show "io_node (sy_io ?s) = Some a \<Longrightarrow> \<exists>v. sy_pc ?s v \<noteq> SIdle \<and> sy_n ?s v = a" using sync_okD(7) [OF inv] io act by auto
  show "sy_pc ?s v \<noteq> SIdle \<and> sy_n ?s v = a \<and> r = answer (sy_req ?s v)" if "sy_io ?s = IoStore a v r"
  proof -
    have "sy_io s = IoStore a v r" using that io by auto
    then show ?thesis using sync_okD(8) [OF inv] act by simp
  qed
next
  show "sy_brk s \<le> sy_brk ?s" by simp
  show "distinct (sy_cbs ?s)" using sync_okD(4) [OF inv] by simp
  show "sy_wire ?s = map (\<lambda>(a, v). sy_req ?s v) (sy_cbs ?s)" using sync_okD(6) [OF inv] by simp
  show "\<And>v q r. (v, q, r) \<in> set (sy_log ?s) \<Longrightarrow> r = Some (answer q)" using sync_okD(9) [OF inv] by simp
qed

text \<open>The same, for a state given by its fields.\<close>

lemma sync_ok_localI:
  assumes "sync_ok answer s" "sy_pc s u \<noteq> SIdle" "p \<noteq> SIdle"
    and "i = sy_io s \<or> io_node (sy_io s) = Some (sy_n s u) \<and> io_node i \<in> {None, Some (sy_n s u)} \<and> io_phase_of i \<noteq> PStore"
    and "\<forall>v. v \<noteq> u \<longrightarrow> resp v = sy_resp s v"
    and "view_ok answer u p n ((sy_n s u, u) \<in> set (sy_cbs s)) (if io_node i = Some (sy_n s u) then io_phase_of i else PNone) (resp u) (sy_req s u)"
    and "s' = s\<lparr>sy_heap := (sy_heap s)(sy_n s u \<mapsto> n), sy_pc := (sy_pc s)(u := p), sy_resp := resp, sy_io := i\<rparr>"
  shows "sync_ok answer s'"
  using sync_ok_local [OF assms(1-6)] assms(7) by simp

section \<open>The steps keep the invariant\<close>

lemmas send_defs = send_goto_def set_n_def n_lock_def n_unlock_def cv_wait_def n_set_def

lemma sync_ok_begin:
  assumes inv: "sync_ok answer s" and idle: "sy_pc s u = SIdle"
  shows "sync_ok answer (send_begin u q s)" (is "sync_ok answer ?s")
proof (rule sync_ok_step [OF inv, of ?s u])
  have node: "sy_n s v < sy_brk s" if "sy_pc s v \<noteq> SIdle" for v using active_node [OF inv that] by blast
  have cbs: "v \<noteq> u \<and> a < sy_brk s" if "(a, v) \<in> set (sy_cbs s)" for a v using sync_okD(5) [OF inv that] node [of v] idle by auto
  have io: "io_node (sy_io s) = Some a \<Longrightarrow> a < sy_brk s" for a using sync_okD(7) [OF inv] node by blast
  have at: "io_node (sy_io s) \<noteq> Some (sy_brk s)" using io [of "sy_brk s"] by auto
  have new: "(sy_brk s, u) \<notin> set (sy_cbs s)" using cbs by blast
  show "sender_ok answer ?s u" using at new
    by (simp add: sender_ok_def send_begin_def send_goto_def view_ok_def Notification_new_def io_at_def)
  show "\<not> sy_fault ?s" using sync_okD(1) [OF inv] by (simp add: send_begin_def send_goto_def)
  fix v
  show "v \<noteq> u \<Longrightarrow> sy_pc ?s v = sy_pc s v \<and> sy_n ?s v = sy_n s v \<and> sy_req ?s v = sy_req s v" by (simp add: send_begin_def send_goto_def)
  assume v: "v \<noteq> u" "sy_pc s v \<noteq> SIdle"
  show "sy_heap ?s (sy_n s v) = sy_heap s (sy_n s v) \<and> io_at ?s (sy_n s v) = io_at s (sy_n s v) \<and>
        ((sy_n s v, v) \<in> set (sy_cbs ?s) \<longleftrightarrow> (sy_n s v, v) \<in> set (sy_cbs s)) \<and> sy_resp ?s v = sy_resp s v"
    using node [OF v(2)] by (simp add: send_begin_def send_goto_def io_at_def)
  show "sy_n ?s u \<noteq> sy_n s v" using node [OF v(2)] by (simp add: send_begin_def send_goto_def)
next
  have cbs: "v \<noteq> u" if "(a, v) \<in> set (sy_cbs s)" for a v using sync_okD(5) [OF inv that] idle by auto
  fix a v r
  show "(a, v) \<in> set (sy_cbs ?s) \<Longrightarrow> sy_pc ?s v \<noteq> SIdle \<and> sy_n ?s v = a"
    using sync_okD(5) [OF inv, of a v] cbs by (auto simp: send_begin_def send_goto_def)
  show "\<exists>v. sy_pc ?s v \<noteq> SIdle \<and> sy_n ?s v = a" if at: "io_node (sy_io ?s) = Some a"
  proof -
    obtain w where "sy_pc s w \<noteq> SIdle" "sy_n s w = a" using sync_okD(7) [OF inv, of a] at by (auto simp: send_begin_def send_goto_def)
    then show ?thesis using idle by (intro exI [of _ w]) (auto simp: send_begin_def send_goto_def)
  qed
  show "sy_io ?s = IoStore a v r \<Longrightarrow> sy_pc ?s v \<noteq> SIdle \<and> sy_n ?s v = a \<and> r = answer (sy_req ?s v)"
    using sync_okD(8) [OF inv, of a v r] idle by (auto simp: send_begin_def send_goto_def)
  show "sy_wire ?s = map (\<lambda>(a, v). sy_req ?s v) (sy_cbs ?s)"
    using sync_okD(6) [OF inv] cbs by (auto simp: send_begin_def send_goto_def)
next
  show "sy_brk s \<le> sy_brk ?s" by (simp add: send_begin_def send_goto_def)
  show "distinct (sy_cbs ?s)" using sync_okD(4) [OF inv] by (simp add: send_begin_def send_goto_def)
  show "\<And>v q r. (v, q, r) \<in> set (sy_log ?s) \<Longrightarrow> r = Some (answer q)" using sync_okD(9) [OF inv] by (auto simp: send_begin_def send_goto_def)
qed

lemma sync_ok_async:
  assumes inv: "sync_ok answer s" and pc: "sy_pc s u = SAsync"
  shows "sync_ok answer (send_goto u SLock (s\<lparr>sy_cbs := sy_cbs s @ [(sy_n s u, u)], sy_wire := sy_wire s @ [sy_req s u]\<rparr>))"
    (is "sync_ok answer ?s")
proof (rule sync_ok_step [OF inv, of ?s u])
  obtain n where n: "sy_heap s (sy_n s u) = Some n" "sy_n s u < sy_brk s"
      "view_ok answer u (sy_pc s u) n ((sy_n s u, u) \<in> set (sy_cbs s)) (io_at s (sy_n s u)) (sy_resp s u) (sy_req s u)"
    using active_node [OF inv] pc by (metis send_pc.distinct(1))
  have new: "(sy_n s u, u) \<notin> set (sy_cbs s)" using n(3) pc by (simp add: view_ok_def)
  have other: "sy_n s v \<noteq> sy_n s u" if "v \<noteq> u" "sy_pc s v \<noteq> SIdle" for v using sync_okD(3) [OF inv that(2), of u] that(1) pc by auto
  show "sender_ok answer ?s u" using n pc new by (auto simp: sender_ok_def send_goto_def view_ok_def io_at_def)
  show "\<not> sy_fault ?s" using sync_okD(1) [OF inv] by (simp add: send_goto_def)
  show "distinct (sy_cbs ?s)" using sync_okD(4) [OF inv] new by (simp add: send_goto_def)
  fix v
  show "v \<noteq> u \<Longrightarrow> sy_pc ?s v = sy_pc s v \<and> sy_n ?s v = sy_n s v \<and> sy_req ?s v = sy_req s v" by (simp add: send_goto_def)
  assume v: "v \<noteq> u" "sy_pc s v \<noteq> SIdle"
  show "sy_heap ?s (sy_n s v) = sy_heap s (sy_n s v) \<and> io_at ?s (sy_n s v) = io_at s (sy_n s v) \<and>
        ((sy_n s v, v) \<in> set (sy_cbs ?s) \<longleftrightarrow> (sy_n s v, v) \<in> set (sy_cbs s)) \<and> sy_resp ?s v = sy_resp s v"
    using v by (simp add: send_goto_def io_at_def)
  show "sy_n ?s u \<noteq> sy_n s v" using other [OF v] by (simp add: send_goto_def)
next
  fix a v r
  show "(a, v) \<in> set (sy_cbs ?s) \<Longrightarrow> sy_pc ?s v \<noteq> SIdle \<and> sy_n ?s v = a"
    using sync_okD(5) [OF inv, of a v] by (auto simp: send_goto_def)
  show "io_node (sy_io ?s) = Some a \<Longrightarrow> \<exists>v. sy_pc ?s v \<noteq> SIdle \<and> sy_n ?s v = a"
    using sync_okD(7) [OF inv, of a] by (auto simp: send_goto_def)
  show "sy_io ?s = IoStore a v r \<Longrightarrow> sy_pc ?s v \<noteq> SIdle \<and> sy_n ?s v = a \<and> r = answer (sy_req ?s v)"
    using sync_okD(8) [OF inv, of a v r] by (auto simp: send_goto_def)
next
  show "sy_brk s \<le> sy_brk ?s" by (simp add: send_goto_def)
  show "sy_wire ?s = map (\<lambda>(a, v). sy_req ?s v) (sy_cbs ?s)" using sync_okD(6) [OF inv] by (simp add: send_goto_def)
  show "\<And>v q r. (v, q, r) \<in> set (sy_log ?s) \<Longrightarrow> r = Some (answer q)" using sync_okD(9) [OF inv] by (auto simp: send_goto_def)
qed

lemma sync_ok_delete:
  assumes inv: "sync_ok answer s" and pc: "sy_pc s u = SDelete"
  shows "sync_ok answer (send_goto u SIdle (s\<lparr>sy_heap := (sy_heap s)(sy_n s u := None), sy_log := sy_log s @ [(u, sy_req s u, sy_resp s u)]\<rparr>))"
    (is "sync_ok answer ?s")
proof (rule sync_ok_step [OF inv, of ?s u])
  obtain n where "view_ok answer u (sy_pc s u) n ((sy_n s u, u) \<in> set (sy_cbs s)) (io_at s (sy_n s u)) (sy_resp s u) (sy_req s u)"
    using active_node [OF inv] pc by (metis send_pc.distinct(13))
  then have done_u: "(sy_n s u, u) \<notin> set (sy_cbs s)" "io_at s (sy_n s u) = PNone" "sy_resp s u = Some (answer (sy_req s u))"
    using pc by (auto simp: view_ok_def)
  have other: "sy_n s v \<noteq> sy_n s u" if "v \<noteq> u" "sy_pc s v \<noteq> SIdle" for v using sync_okD(3) [OF inv that(2), of u] that(1) pc by auto
  have cbs: "v \<noteq> u" if "(a, v) \<in> set (sy_cbs s)" for a v using sync_okD(5) [OF inv that] that done_u(1) by auto
  have io: "io_node (sy_io s) \<noteq> Some (sy_n s u)" using done_u(2) by (cases "sy_io s") (auto simp: io_at_def split: if_splits)
  show "sender_ok answer ?s u" by (simp add: sender_ok_def send_goto_def)
  show "\<not> sy_fault ?s" using sync_okD(1) [OF inv] by (simp add: send_goto_def)
  show "\<And>v q r. (v, q, r) \<in> set (sy_log ?s) \<Longrightarrow> r = Some (answer q)"
    using sync_okD(9) [OF inv] done_u(3) by (auto simp: send_goto_def)
  fix v
  show "v \<noteq> u \<Longrightarrow> sy_pc ?s v = sy_pc s v \<and> sy_n ?s v = sy_n s v \<and> sy_req ?s v = sy_req s v" by (simp add: send_goto_def)
  fix a r
  show "(a, v) \<in> set (sy_cbs ?s) \<Longrightarrow> sy_pc ?s v \<noteq> SIdle \<and> sy_n ?s v = a"
    using sync_okD(5) [OF inv, of a v] cbs by (auto simp: send_goto_def)
  show "\<exists>v. sy_pc ?s v \<noteq> SIdle \<and> sy_n ?s v = a" if at: "io_node (sy_io ?s) = Some a"
  proof -
    obtain w where "sy_pc s w \<noteq> SIdle" "sy_n s w = a" using sync_okD(7) [OF inv, of a] at by (auto simp: send_goto_def)
    then show ?thesis using at io by (intro exI [of _ w]) (auto simp: send_goto_def)
  qed
  show "sy_io ?s = IoStore a v r \<Longrightarrow> sy_pc ?s v \<noteq> SIdle \<and> sy_n ?s v = a \<and> r = answer (sy_req ?s v)"
    using sync_okD(8) [OF inv, of a v r] io by (auto simp: send_goto_def)
  assume v: "v \<noteq> u" "sy_pc s v \<noteq> SIdle"
  show "sy_heap ?s (sy_n s v) = sy_heap s (sy_n s v) \<and> io_at ?s (sy_n s v) = io_at s (sy_n s v) \<and>
        ((sy_n s v, v) \<in> set (sy_cbs ?s) \<longleftrightarrow> (sy_n s v, v) \<in> set (sy_cbs s)) \<and> sy_resp ?s v = sy_resp s v"
    using other [OF v] by (simp add: send_goto_def io_at_def)
next
  show "\<And>v. sy_pc ?s u \<noteq> SIdle \<Longrightarrow> sy_n ?s u \<noteq> sy_n s v" by (simp add: send_goto_def)
  show "sy_brk s \<le> sy_brk ?s" "distinct (sy_cbs ?s)" "sy_wire ?s = map (\<lambda>(a, v). sy_req ?s v) (sy_cbs ?s)"
    using sync_okD(4,6) [OF inv] by (simp_all add: send_goto_def)
qed

lemmas phase_simps = view_ok_def send_defs

lemma n_lock_Some: "n_lock t n = Some n1 \<longleftrightarrow> n_owner n = None \<and> n1 = n\<lparr>n_owner := Some t\<rparr>"
  by (auto simp: n_lock_def)

lemma view_wake:
  assumes "view_ok answer u SSleep n inq ph resp req" "ph' = ph \<or> ph = PSignal \<and> ph' = PUnlock"
  shows "view_ok answer u SRelock (n\<lparr>n_sleep := n_sleep n - {u}\<rparr>) inq ph' resp req"
  using assms by (cases ph) (auto simp: phase_simps)

lemma view_test:
  assumes "view_ok answer u STest n inq ph resp req"
  shows "notified n \<Longrightarrow> view_ok answer u SUnlock n inq ph resp req" "\<not> notified n \<Longrightarrow> view_ok answer u SSleep (cv_wait u n) inq ph resp req"
  using assms by (cases ph; auto simp: phase_simps)+

lemma view_lock:
  assumes "view_ok answer u p n inq ph resp req" "p \<in> {SLock, SRelock}" "n_lock (Sender u) n = Some n1"
  shows "view_ok answer u STest n1 inq ph resp req"
  using assms by (cases ph) (auto simp: phase_simps split: if_splits)

lemma view_unlock:
  assumes "view_ok answer u SUnlock n inq ph resp req"
  shows "view_ok answer u SDelete (n_unlock n) inq ph resp req"
  using assms by (cases ph) (auto simp: phase_simps)

lemma view_io:
  assumes v: "view_ok answer u p n inq ph resp req"
  shows "ph = PStore \<Longrightarrow> view_ok answer u p n inq PLock (Some (answer req)) req"
    "ph = PLock \<Longrightarrow> n_lock IoThread n = Some n1 \<Longrightarrow> view_ok answer u p n1 inq PSet resp req"
    "ph = PSet \<Longrightarrow> view_ok answer u p (n_set True n) inq PSignal resp req"
    "ph = PSignal \<Longrightarrow> n_sleep n = {} \<Longrightarrow> view_ok answer u p n inq PUnlock resp req"
    "ph = PUnlock \<Longrightarrow> view_ok answer u p (n_unlock n) inq PNone resp req"
proof -
  show "ph = PStore \<Longrightarrow> view_ok answer u p n inq PLock (Some (answer req)) req" using v by (cases p) (simp_all add: phase_simps)
  show "ph = PLock \<Longrightarrow> n_lock IoThread n = Some n1 \<Longrightarrow> view_ok answer u p n1 inq PSet resp req"
    using v by (cases p) (simp_all add: n_lock_Some view_ok_def)
  show "ph = PSet \<Longrightarrow> view_ok answer u p (n_set True n) inq PSignal resp req" using v by (cases p) (simp_all add: phase_simps)
  show "ph = PSignal \<Longrightarrow> n_sleep n = {} \<Longrightarrow> view_ok answer u p n inq PUnlock resp req" using v by (cases p) (simp_all add: phase_simps)
  show "ph = PUnlock \<Longrightarrow> view_ok answer u p (n_unlock n) inq PNone resp req" using v by (cases p) (simp_all add: phase_simps, blast)
qed

text \<open>A step of the I/O thread serves one sender, whose notification the other senders do not share.\<close>

lemma io_serves:
  assumes inv: "sync_ok answer s" and io: "io_node (sy_io s) = Some a"
  obtains u n where "sy_pc s u \<noteq> SIdle" "sy_n s u = a" "sy_heap s a = Some n"
    "view_ok answer u (sy_pc s u) n ((sy_n s u, u) \<in> set (sy_cbs s)) (io_phase_of (sy_io s)) (sy_resp s u) (sy_req s u)"
proof -
  obtain u where u: "sy_pc s u \<noteq> SIdle" "sy_n s u = a" using sync_okD(7) [OF inv io] by blast
  show ?thesis using active_node [OF inv u(1)] that [OF u] u(2) io by (metis io_at_def)
qed

lemma sync_ok_send_step:
  assumes inv: "sync_ok answer s" and step: "send_step u s = Some s'"
  shows "sync_ok answer s'"
proof (cases "sy_pc s u \<in> {SIdle, SAsync, SSleep}")
  case True
  then show ?thesis using step sync_ok_async [OF inv] by (auto simp: send_step_def)
next
  case False
  then have act: "sy_pc s u \<noteq> SIdle" by simp
  obtain n where n: "sy_heap s (sy_n s u) = Some n" "sy_n s u < sy_brk s"
      "view_ok answer u (sy_pc s u) n ((sy_n s u, u) \<in> set (sy_cbs s)) (io_at s (sy_n s u)) (sy_resp s u) (sy_req s u)"
    using active_node [OF inv act] .
  have keep: "sync_ok answer (send_goto u p (set_n (sy_n s u) n1 s))"
    if h: "p \<noteq> SIdle" "view_ok answer u p n1 ((sy_n s u, u) \<in> set (sy_cbs s)) (io_at s (sy_n s u)) (sy_resp s u) (sy_req s u)" for p n1
    by (rule sync_ok_localI [OF inv act h(1), of "sy_io s" "sy_resp s" n1]) (use h(2) in \<open>simp_all add: send_defs io_at_def\<close>)
  have same: "set_n (sy_n s u) n s = s" using n(1) by (simp add: set_n_def fun_upd_idem)
  show ?thesis
  proof (cases "sy_pc s u")
    case STest
    then show ?thesis
      using step n keep [of SUnlock n] keep [of SSleep "cv_wait u n"] view_test [OF n(3) [unfolded STest]] same
      by (auto simp: send_step_def split: if_splits)
  next
    case SUnlock
    then show ?thesis using step n(1) keep [of SDelete "n_unlock n"] view_unlock [OF n(3) [unfolded SUnlock]] by (simp add: send_step_def)
  next
    case SDelete
    then show ?thesis using step n(1) sync_ok_delete [OF inv SDelete] by (simp add: send_step_def)
  next
    case SLock
    then obtain n1 where "n_lock (Sender u) n = Some n1" "s' = send_goto u STest (set_n (sy_n s u) n1 s)"
      using step n(1) by (auto simp: send_step_def)
    then show ?thesis using keep [of STest n1] view_lock [OF n(3), of n1] SLock by simp
  next
    case SRelock
    then obtain n1 where "n_lock (Sender u) n = Some n1" "s' = send_goto u STest (set_n (sy_n s u) n1 s)"
      using step n(1) by (auto simp: send_step_def)
    then show ?thesis using keep [of STest n1] view_lock [OF n(3), of n1] SRelock by simp
  qed (use False in simp_all)
qed

lemma sync_ok_wake:
  assumes inv: "sync_ok answer s" and pc: "sy_pc s u = SSleep" and i: "i = sy_io s \<or> sy_io s = IoSignal (sy_n s u) \<and> i = IoUnlock (sy_n s u)"
  shows "sync_ok answer ((send_wake u s)\<lparr>sy_io := i\<rparr>)"
proof -
  have act: "sy_pc s u \<noteq> SIdle" using pc by simp
  obtain n where n: "sy_heap s (sy_n s u) = Some n" "sy_n s u < sy_brk s"
      "view_ok answer u (sy_pc s u) n ((sy_n s u, u) \<in> set (sy_cbs s)) (io_at s (sy_n s u)) (sy_resp s u) (sy_req s u)"
    using active_node [OF inv act] .
  show ?thesis
  proof (rule sync_ok_localI [OF inv act, of SRelock i "sy_resp s" "n\<lparr>n_sleep := n_sleep n - {u}\<rparr>"])
    show "view_ok answer u SRelock (n\<lparr>n_sleep := n_sleep n - {u}\<rparr>) ((sy_n s u, u) \<in> set (sy_cbs s))
        (if io_node i = Some (sy_n s u) then io_phase_of i else PNone) (sy_resp s u) (sy_req s u)"
      by (rule view_wake [OF n(3) [unfolded pc]]) (use i in \<open>auto simp: io_at_def\<close>)
  qed (use n i in \<open>auto simp: send_wake_def send_defs\<close>)
qed

lemma view_sleep: "view_ok answer u p n inq ph resp req \<Longrightarrow> n_sleep n = (if p = SSleep then {u} else {})"
  unfolding view_ok_def by (elim conjE)

lemma view_pop: "view_ok answer u p n True PNone resp req \<Longrightarrow> view_ok answer u p n False PStore resp req"
  by (cases p) (simp_all add: view_ok_def, blast+)

lemma sync_ok_pop:
  assumes inv: "sync_ok answer s" and io: "sy_io s = IoIdle" "sy_wire s = q # qs" "sy_cbs s = (a, u) # cbs"
  shows "sync_ok answer (s\<lparr>sy_wire := qs, sy_cbs := cbs, sy_io := IoStore a u (answer q)\<rparr>)" (is "sync_ok answer ?s")
proof (rule sync_ok_step [OF inv, of ?s u])
  have u: "sy_pc s u \<noteq> SIdle" "sy_n s u = a" using sync_okD(5) [OF inv, of a u] io(3) by auto
  have wire: "q = sy_req s u" "qs = map (\<lambda>(a, u). sy_req s u) cbs" using sync_okD(6) [OF inv] io by auto
  have dist: "distinct cbs" "(a, u) \<notin> set cbs" using sync_okD(4) [OF inv] io(3) by auto
  obtain n where n: "sy_heap s (sy_n s u) = Some n" "sy_n s u < sy_brk s"
      "view_ok answer u (sy_pc s u) n ((sy_n s u, u) \<in> set (sy_cbs s)) (io_at s (sy_n s u)) (sy_resp s u) (sy_req s u)"
    using active_node [OF inv u(1)] .
  have other: "sy_n s v \<noteq> a" if "v \<noteq> u" "sy_pc s v \<noteq> SIdle" for v using sync_okD(3) [OF inv that(2) u(1)] that(1) u(2) by auto
  have "view_ok answer u (sy_pc s u) n False PStore (sy_resp s u) (sy_req s u)"
    by (rule view_pop) (use n(3) io u(2) in \<open>simp add: io_at_def\<close>)
  then show "sender_ok answer ?s u" using n u dist by (simp add: sender_ok_def io_at_def)
  show "distinct (sy_cbs ?s)" "sy_wire ?s = map (\<lambda>(a, v). sy_req ?s v) (sy_cbs ?s)" using dist wire by simp_all
  fix b v r
  show "(b, v) \<in> set (sy_cbs ?s) \<Longrightarrow> sy_pc ?s v \<noteq> SIdle \<and> sy_n ?s v = b" using sync_okD(5) [OF inv, of b v] io(3) by simp
  show "io_node (sy_io ?s) = Some b \<Longrightarrow> \<exists>v. sy_pc ?s v \<noteq> SIdle \<and> sy_n ?s v = b" using u by auto
  show "sy_io ?s = IoStore b v r \<Longrightarrow> sy_pc ?s v \<noteq> SIdle \<and> sy_n ?s v = b \<and> r = answer (sy_req ?s v)" using u wire(1) by auto
  show "v \<noteq> u \<Longrightarrow> sy_pc ?s v = sy_pc s v \<and> sy_n ?s v = sy_n s v \<and> sy_req ?s v = sy_req s v" by simp
  assume v: "v \<noteq> u" "sy_pc s v \<noteq> SIdle"
  show "sy_heap ?s (sy_n s v) = sy_heap s (sy_n s v) \<and> io_at ?s (sy_n s v) = io_at s (sy_n s v) \<and>
        ((sy_n s v, v) \<in> set (sy_cbs ?s) \<longleftrightarrow> (sy_n s v, v) \<in> set (sy_cbs s)) \<and> sy_resp ?s v = sy_resp s v"
    using other [OF v] io v by (auto simp: io_at_def)
  show "sy_n ?s u \<noteq> sy_n s v" using other [OF v] u by simp
next
  show "\<not> sy_fault ?s" using sync_okD(1) [OF inv] by simp
  show "sy_brk s \<le> sy_brk ?s" by simp
  show "\<And>v q r. (v, q, r) \<in> set (sy_log ?s) \<Longrightarrow> r = Some (answer q)" using sync_okD(9) [OF inv] by simp
qed

text \<open>Whom \<open>signal\<close> wakes.\<close>

lemma signal_sleeper:
  assumes inv: "sync_ok answer s" and sig: "sy_io s = IoSignal a" "sy_heap s a = Some n" "v \<in> n_sleep n"
  shows "sy_pc s v = SSleep \<and> sy_n s v = a"
proof -
  have at: "io_node (sy_io s) = Some a" using sig(1) by simp
  obtain u n0 where u: "sy_pc s u \<noteq> SIdle" "sy_n s u = a" "sy_heap s a = Some n0"
      "view_ok answer u (sy_pc s u) n0 ((sy_n s u, u) \<in> set (sy_cbs s)) (io_phase_of (sy_io s)) (sy_resp s u) (sy_req s u)"
    using io_serves [OF inv at] .
  have "v \<in> (if sy_pc s u = SSleep then {u} else {})" using view_sleep [OF u(4)] u(3) sig(2,3) by simp
  then show ?thesis using u(2) by (simp split: if_splits)
qed

text \<open>What the I/O thread does to the notification it serves, as seen by the sender that waits on it.\<close>

lemma sync_ok_io_local:
  assumes inv: "sync_ok answer s" and at: "io_node (sy_io s) = Some a" "sy_heap s a = Some n" "io_node i \<in> {None, Some a}" "io_phase_of i \<noteq> PStore"
    and view: "\<forall>u p inq resp req. view_ok answer u p n inq (io_phase_of (sy_io s)) resp req \<longrightarrow> view_ok answer u p n1 inq (io_phase_of i) resp req"
  shows "sync_ok answer (s\<lparr>sy_heap := (sy_heap s)(a \<mapsto> n1), sy_io := i\<rparr>)"
proof -
  obtain u n0 where u: "sy_pc s u \<noteq> SIdle" "sy_n s u = a" "sy_heap s a = Some n0"
      "view_ok answer u (sy_pc s u) n0 ((sy_n s u, u) \<in> set (sy_cbs s)) (io_phase_of (sy_io s)) (sy_resp s u) (sy_req s u)"
    using io_serves [OF inv at(1)] .
  have n0: "n0 = n" using u(3) at(2) by simp
  have none: "io_node i = None \<Longrightarrow> io_phase_of i = PNone" by (cases i) simp_all
  have "view_ok answer u (sy_pc s u) n1 ((sy_n s u, u) \<in> set (sy_cbs s)) (if io_node i = Some (sy_n s u) then io_phase_of i else PNone)
      (sy_resp s u) (sy_req s u)"
    using view [rule_format, OF u(4) [unfolded n0]] at(3) none u(2) by auto
  then show ?thesis using sync_ok_local [OF inv u(1,1), of i "sy_resp s" n1] u(2) at by simp
qed

lemma sync_ok_io_step:
  assumes inv: "sync_ok answer s" and step: "receive_step answer s s'"
  shows "sync_ok answer s'"
  using step
proof cases
  case (io_pop q qs n u cbs)
  then show ?thesis using sync_ok_pop [OF inv] by simp
next
  case (io_drop q qs)
  then show ?thesis using sync_okD(6) [OF inv] by simp
next
  case (io_store a u r)
  have u: "sy_pc s u \<noteq> SIdle" "sy_n s u = a" "r = answer (sy_req s u)" using sync_okD(8) [OF inv io_store(2)] by simp_all
  obtain n where n: "sy_heap s (sy_n s u) = Some n" "sy_n s u < sy_brk s"
      "view_ok answer u (sy_pc s u) n ((sy_n s u, u) \<in> set (sy_cbs s)) (io_at s (sy_n s u)) (sy_resp s u) (sy_req s u)"
    using active_node [OF inv u(1)] .
  have "view_ok answer u (sy_pc s u) n ((sy_n s u, u) \<in> set (sy_cbs s)) PLock (Some (answer (sy_req s u))) (sy_req s u)"
    by (rule view_io(1) [OF n(3)]) (use io_store(2) u(2) in \<open>simp add: io_at_def\<close>)
  then show ?thesis using sync_ok_local [OF inv u(1,1), of "IoLock a" "(sy_resp s)(u := Some r)" n] io_store n(1) u by (simp add: fun_upd_idem)
next
  case (io_lock a n n1)
  then show ?thesis using sync_ok_io_local [OF inv, of a n "IoSet a" n1] view_io(2) [where answer = answer, OF _ refl io_lock(4)] by (simp add: set_n_def)
next
  case (io_set a n)
  then show ?thesis using sync_ok_io_local [OF inv, of a n "IoSignal a" "n_set True n"] view_io(3) [where answer = answer] by (simp add: set_n_def)
next
  case (io_signal a n v)
  have "sy_pc s v = SSleep" "sy_n s v = a" using signal_sleeper [OF inv io_signal(2-4)] by simp_all
  then show ?thesis using sync_ok_wake [OF inv, of v "IoUnlock a"] io_signal(1,2) by simp
next
  case (io_signal_none a n)
  have "s' = s\<lparr>sy_heap := (sy_heap s)(a \<mapsto> n), sy_io := IoUnlock a\<rparr>" using io_signal_none(1,3) by (simp add: fun_upd_idem)
  then show ?thesis using sync_ok_io_local [OF inv, of a n "IoUnlock a" n] view_io(4) [where answer = answer, OF _ refl io_signal_none(4)] io_signal_none(2,3) by simp
next
  case (io_unlock a n)
  then show ?thesis using sync_ok_io_local [OF inv, of a n IoIdle "n_unlock n"] view_io(5) [where answer = answer] by (simp add: set_n_def)
next
  case (io_bad a)
  then have "io_node (sy_io s) = Some a" by auto
  then show ?thesis using io_serves [OF inv, of a] io_bad(3) by (metis option.distinct(1))
qed

interpretation sync: transition_system sync_start "sync_step answer" "sync_ok answer" for answer
proof (unfold_locales, goal_cases)
  case (1 s)
  then show ?case by (auto simp: sync_start_def sync_ok_def sender_ok_def)
next
  case (2 s t)
  from 2(1) show ?case
  proof cases
    case (sync_call u q)
    then show ?thesis using sync_ok_begin [OF 2(2)] by simp
  next
    case (sync_send u)
    then show ?thesis using sync_ok_send_step [OF 2(2)] by simp
  next
    case (sync_spurious u)
    have "sync_ok answer ((send_wake u s)\<lparr>sy_io := sy_io s\<rparr>)" using sync_ok_wake [OF 2(2) sync_spurious(2)] by simp
    moreover have "(send_wake u s)\<lparr>sy_io := sy_io s\<rparr> = send_wake u s"
      by (simp add: send_wake_def sync_fault_def send_defs split: option.split)
    ultimately show ?thesis using sync_spurious(1) by simp
  next
    case sync_io
    then show ?thesis using sync_ok_io_step [OF 2(2)] by simp
  qed
qed

section \<open>No lost wake-up\<close>

text \<open>The I/O thread is stopped only by a sender that holds the mutex, and that sender can go on.\<close>

lemma io_can_step:
  assumes inv: "sync_ok answer s" and io: "sy_io s \<noteq> IoIdle"
  shows "(\<exists>s'. receive_step answer s s') \<or> (\<exists>u s'. send_step u s = Some s')"
proof (cases "sy_io s")
  case (IoStore a u r)
  then show ?thesis using receive_step.io_store [OF IoStore, of answer] by blast
next
  case (IoLock a)
  then have at: "io_node (sy_io s) = Some a" by simp
  obtain u n where u: "sy_pc s u \<noteq> SIdle" "sy_n s u = a" "sy_heap s a = Some n"
      "view_ok answer u (sy_pc s u) n ((sy_n s u, u) \<in> set (sy_cbs s)) (io_phase_of (sy_io s)) (sy_resp s u) (sy_req s u)"
    using io_serves [OF inv at] .
  show ?thesis
  proof (cases "sy_pc s u \<in> {STest, SUnlock}")
    case True
    then have "\<exists>s'. send_step u s = Some s'" using u by (auto simp: send_step_def)
    then show ?thesis by blast
  next
    case False
    then have "n_lock IoThread n = Some (n\<lparr>n_owner := Some IoThread\<rparr>)" using u(4) IoLock by (simp add: view_ok_def n_lock_def)
    then show ?thesis using receive_step.io_lock [OF IoLock u(3)] by blast
  qed
next
  case (IoSignal a)
  then have at: "io_node (sy_io s) = Some a" by simp
  obtain u n where "sy_heap s a = Some n" using io_serves [OF inv at] by blast
  then show ?thesis using receive_step.io_signal [OF IoSignal] receive_step.io_signal_none [OF IoSignal] by blast
qed (use io receive_step.io_set receive_step.io_unlock receive_step.io_bad in \<open>(cases "sy_heap s (the (io_node (sy_io s)))"; fastforce)+\<close>)

text \<open>A sender whose notification is set can go on once the I/O thread is idle.\<close>

lemma sender_can_step:
  assumes inv: "sync_ok answer s" and io: "sy_io s = IoIdle" "sy_cbs s = []" and act: "sy_pc s u \<noteq> SIdle"
  shows "\<exists>s'. send_step u s = Some s'"
proof -
  obtain n where n: "sy_heap s (sy_n s u) = Some n" "sy_n s u < sy_brk s"
      "view_ok answer u (sy_pc s u) n ((sy_n s u, u) \<in> set (sy_cbs s)) (io_at s (sy_n s u)) (sy_resp s u) (sy_req s u)"
    using active_node [OF inv act] .
  have at: "io_at s (sy_n s u) = PNone" using io by (simp add: io_at_def)
  show ?thesis using n(3) act io(2) at n(1) by (cases "sy_pc s u") (auto simp: send_step_def view_ok_def n_lock_def)
qed

lemma sync_progress:
  assumes inv: "sync_ok answer s" and act: "sy_pc s u \<noteq> SIdle"
  shows "(\<exists>s'. receive_step answer s s') \<or> (\<exists>v s'. send_step v s = Some s')"
proof (cases "sy_io s = IoIdle")
  case True
  show ?thesis
  proof (cases "sy_cbs s")
    case Nil
    then show ?thesis using sender_can_step [OF inv True Nil act] by blast
  next
    case (Cons c cbs)
    then show ?thesis using sync_okD(6) [OF inv] receive_step.io_pop [OF True, of "sy_req s (snd c)" _ "fst c" "snd c" cbs] by (cases c) auto
  qed
next
  case False
  then show ?thesis by (rule io_can_step [OF inv])
qed

section \<open>Every call returns\<close>

text \<open>The threads' own steps: no new call, and no wake-up but by \<open>signal\<close>.\<close>

inductive sync_work :: "('q \<Rightarrow> 'r) \<Rightarrow> ('q, 'r) sync \<Rightarrow> ('q, 'r) sync \<Rightarrow> bool" for answer :: "'q \<Rightarrow> 'r" where
  work_send: "send_step u s = Some s' \<Longrightarrow> sync_work answer s s'"
| work_io: "receive_step answer s s' \<Longrightarrow> sync_work answer s s'"

lemma sync_work_step: "sync_work answer s t \<Longrightarrow> sync_step answer s t"
  by (cases rule: sync_work.cases) (auto intro: sync_step.intros)

text \<open>A bound on the steps that are left: a signal may send its sleeper round the loop once more.\<close>

fun send_weight :: "send_pc \<Rightarrow> nat" where
  "send_weight SIdle = 0"
| "send_weight SDelete = 1"
| "send_weight SUnlock = 2"
| "send_weight SSleep = 4"
| "send_weight STest = 5"
| "send_weight SLock = 6"
| "send_weight SRelock = 6"
| "send_weight SAsync = 20"

fun sync_io_weight :: "'r io_pc \<Rightarrow> nat" where
  "sync_io_weight IoIdle = 0"
| "sync_io_weight (IoUnlock a) = 1"
| "sync_io_weight (IoSignal a) = 4"
| "sync_io_weight (IoSet a) = 5"
| "sync_io_weight (IoLock a) = 6"
| "sync_io_weight (IoStore a u r) = 7"

definition sync_left :: "nat set \<Rightarrow> ('q, 'r) sync \<Rightarrow> nat" where
  "sync_left U s = (\<Sum>u\<in>U. send_weight (sy_pc s u)) + 8 * length (sy_cbs s) + sync_io_weight (sy_io s)"

lemma sum_send_weight:
  assumes "finite U" "u \<in> U"
  shows "(\<Sum>v\<in>U. send_weight ((pc(u := p)) v)) + send_weight (pc u) = (\<Sum>v\<in>U. send_weight (pc v)) + send_weight p"
proof -
  have "(\<Sum>v\<in>U. send_weight ((pc(u := p)) v)) = send_weight p + (\<Sum>v\<in>U - {u}. send_weight (pc v))"
    using assms by (subst sum.remove [of U u]) (auto intro: sum.cong)
  moreover have "(\<Sum>v\<in>U. send_weight (pc v)) = send_weight (pc u) + (\<Sum>v\<in>U - {u}. send_weight (pc v))"
    using assms by (rule sum.remove)
  ultimately show ?thesis by simp
qed

lemma send_step_left:
  assumes inv: "sync_ok answer s" and step: "send_step u s = Some t" and U: "finite U" "u \<in> U"
  shows "sync_left U t < sync_left U s"
proof -
  have act: "sy_pc s u \<noteq> SIdle" using step by (auto simp: send_step_def)
  obtain n where "sy_heap s (sy_n s u) = Some n" using active_node [OF inv act] by blast
  then obtain p where p: "sy_pc t = (sy_pc s)(u := p)" "sy_io t = sy_io s"
      "send_weight p + 8 * length (sy_cbs t) < send_weight (sy_pc s u) + 8 * length (sy_cbs s)"
    using step by (cases "sy_pc s u") (auto simp: send_step_def send_defs split: if_splits)
  then show ?thesis using sum_send_weight [OF U, of "sy_pc s" p] by (simp add: sync_left_def)
qed

lemma io_step_left:
  assumes inv: "sync_ok answer s" and step: "receive_step answer s t" and U: "finite U" "\<And>u. sy_pc s u \<noteq> SIdle \<Longrightarrow> u \<in> U"
  shows "sync_left U t < sync_left U s"
  using step
proof cases
  case (io_signal a n u)
  have u: "sy_pc s u = SSleep" "sy_n s u = a" using signal_sleeper [OF inv io_signal(2-4)] by simp_all
  have "sy_pc t = (sy_pc s)(u := SRelock)" "sy_cbs t = sy_cbs s" "sy_io t = IoUnlock a"
    using io_signal(1,3) u(2) by (simp_all add: send_wake_def send_defs)
  then show ?thesis using sum_send_weight [OF U(1) U(2) [of u], of "sy_pc s" SRelock] u io_signal(2) by (simp add: sync_left_def)
next
  case (io_drop q qs)
  then show ?thesis using sync_okD(6) [OF inv] by simp
next
  case (io_bad a)
  then have "io_node (sy_io s) = Some a" by auto
  then show ?thesis using io_serves [OF inv, of a] io_bad(3) by (metis option.distinct(1))
qed (simp_all add: sync_left_def send_defs)

lemma work_idle:
  assumes inv: "sync_ok answer s" and work: "sync_work answer s t" and idle: "sy_pc s u = SIdle"
  shows "sy_pc t u = SIdle"
  using work
proof cases
  case (work_send v)
  then show ?thesis using idle
    by (cases "v = u") (auto simp: send_step_def send_defs sync_fault_def split: send_pc.splits option.splits if_splits)
next
  case work_io
  then show ?thesis
  proof cases
    case (io_signal a n v)
    then show ?thesis using signal_sleeper [OF inv io_signal(2-4)] idle by (auto simp: send_wake_def send_defs)
  qed (use idle in \<open>simp_all add: send_defs sync_fault_def\<close>)
qed

lemma io_step_sender:
  assumes "receive_step answer s t"
  shows "sy_req t = sy_req s \<and> sy_log t = sy_log s \<and> (sy_pc s u \<noteq> SIdle \<longrightarrow> sy_pc t u \<noteq> SIdle)"
  using assms by cases (auto simp: send_wake_def send_defs sync_fault_def split: option.split)

lemma send_step_sender:
  assumes "send_step v s = Some t" "sy_pc s u \<noteq> SIdle"
  shows "set (sy_log s) \<subseteq> set (sy_log t) \<and> (sy_pc t u \<noteq> SIdle \<and> sy_req t u = sy_req s u \<or> (u, sy_req s u, sy_resp s u) \<in> set (sy_log t))"
proof (cases "sy_heap s (sy_n s v)")
  case None
  then show ?thesis using assms by (cases "sy_pc s v") (auto simp: send_step_def send_defs sync_fault_def split: if_splits)
next
  case (Some n)
  then show ?thesis using assms by (cases "sy_pc s v") (auto simp: send_step_def send_defs split: if_splits)
qed

lemma send_step_log: "send_step v s = Some t \<Longrightarrow> set (sy_log s) \<subseteq> set (sy_log t)"
  by (cases "sy_heap s (sy_n s v)"; cases "sy_pc s v") (auto simp: send_step_def send_defs sync_fault_def split: if_splits)

text \<open>A call in progress stays in progress with its request, or has returned with an answer.\<close>

definition call_kept :: "('q \<Rightarrow> 'r) \<Rightarrow> nat \<Rightarrow> 'q \<Rightarrow> ('q, 'r) sync \<Rightarrow> bool" where
  "call_kept answer u q t \<longleftrightarrow> sy_pc t u \<noteq> SIdle \<and> sy_req t u = q \<or> (u, q, Some (answer q)) \<in> set (sy_log t)"

lemma work_kept:
  assumes inv: "sync_ok answer s" "sync_ok answer t" and work: "sync_work answer s t" and kept: "call_kept answer u q s"
  shows "call_kept answer u q t"
  using work
proof cases
  case (work_send v)
  show ?thesis
  proof (cases "(u, q, Some (answer q)) \<in> set (sy_log s)")
    case True
    then show ?thesis using send_step_log [OF work_send] by (auto simp: call_kept_def)
  next
    case False
    then have u: "sy_pc s u \<noteq> SIdle" "sy_req s u = q" using kept by (auto simp: call_kept_def)
    have logged: "sy_resp s u = Some (answer q)" if "(u, q, sy_resp s u) \<in> set (sy_log t)" using sync_okD(9) [OF inv(2) that] .
    then show ?thesis using send_step_sender [OF work_send u(1)] u(2) by (auto simp: call_kept_def)
  qed
next
  case work_io
  then show ?thesis using io_step_sender [OF work_io, of u] kept by (auto simp: call_kept_def)
qed

lemma works_kept:
  assumes "(sync_work answer)\<^sup>*\<^sup>* s t" "sync_ok answer s" "call_kept answer u q s"
  shows "sync_ok answer t \<and> call_kept answer u q t"
  using assms(1)
proof (induction rule: rtranclp_induct)
  case base
  then show ?case using assms by simp
next
  case (step y z)
  then have "sync_ok answer z" using sync.step_invar [OF sync_work_step] by blast
  then show ?case using work_kept [OF _ _ step(2)] step(3) by blast
qed

lemma active_finite:
  assumes "reach sync_start (sync_step answer) s"
  shows "finite {u. sy_pc s u \<noteq> SIdle}"
  using assms
proof (induction rule: reach.induct)
  case (reach_start s)
  then show ?case by (simp add: sync_start_def)
next
  case (reach_step s t)
  have inv: "sync_ok answer s" by (rule sync.reach_invar [OF reach_step(1)])
  have work: "{u. sy_pc t u \<noteq> SIdle} \<subseteq> {u. sy_pc s u \<noteq> SIdle}" if "sync_work answer s t" using work_idle [OF inv that] by auto
  from reach_step(2) show ?case
  proof cases
    case (sync_call u q)
    then have "{u. sy_pc t u \<noteq> SIdle} \<subseteq> insert u {u. sy_pc s u \<noteq> SIdle}" by (auto simp: send_begin_def send_goto_def)
    then show ?thesis using reach_step(3) by (meson finite.insertI finite_subset)
  next
    case (sync_send u)
    then show ?thesis using work [OF work_send] reach_step(3) finite_subset by blast
  next
    case (sync_spurious u)
    then have "{u. sy_pc t u \<noteq> SIdle} \<subseteq> insert u {u. sy_pc s u \<noteq> SIdle}"
      by (auto simp: send_wake_def send_defs sync_fault_def split: option.splits if_splits)
    then show ?thesis using reach_step(3) by (meson finite.insertI finite_subset)
  next
    case sync_io
    then show ?thesis using work [OF work_io] reach_step(3) finite_subset by blast
  qed
qed

lemma works_bounded:
  assumes "(sync_work answer ^^ j) s t" "sync_ok answer s" "finite U" "\<And>u. sy_pc s u \<noteq> SIdle \<Longrightarrow> u \<in> U"
  shows "j + sync_left U t \<le> sync_left U s"
  using assms
proof (induction j arbitrary: s)
  case (Suc j)
  obtain y where y: "sync_work answer s y" "(sync_work answer ^^ j) y t" using Suc.prems(1) by (metis relpowp_Suc_D2)
  have "sync_left U y < sync_left U s" using y(1)
  proof cases
    case (work_send u)
    have "sy_pc s u \<noteq> SIdle" using work_send by (auto simp: send_step_def)
    then show ?thesis using send_step_left [OF Suc.prems(2) work_send Suc.prems(3)] Suc.prems(4) by blast
  next
    case work_io
    then show ?thesis using io_step_left [OF Suc.prems(2) _ Suc.prems(3)] Suc.prems(4) by blast
  qed
  moreover have "sync_ok answer y" by (rule sync.step_invar [OF sync_work_step [OF y(1)] Suc.prems(2)])
  moreover have "u \<in> U" if "sy_pc y u \<noteq> SIdle" for u using work_idle [OF Suc.prems(2) y(1)] that Suc.prems(4) by blast
  ultimately show ?case using Suc.IH [OF y(2) _ Suc.prems(3)] by fastforce
qed simp

text \<open>
  C19. Any number of threads call the synchronous \<open>send\<close> on one connection, and the server answers the requests in order. In every
  state they reach no thread has used a deleted \<open>Notification\<close> and every call that returned has the answer to its own request.
  The threads then take a bounded number of steps before all wait, and when none can go on every call in progress has
  returned, with its own answer: no wake-up is lost.
\<close>

theorem send_returns_answer:
  assumes "reach sync_start (sync_step answer) s"
  shows "\<not> sy_fault s \<and> (\<forall>u q r. (u, q, r) \<in> set (sy_log s) \<longrightarrow> r = Some (answer q)) \<and>
    (\<exists>k. \<forall>j t. (sync_work answer ^^ j) s t \<longrightarrow> j \<le> k) \<and>
    (\<forall>t u. (sync_work answer)\<^sup>*\<^sup>* s t \<longrightarrow> (\<nexists>t'. sync_work answer t t') \<longrightarrow> sy_pc s u \<noteq> SIdle \<longrightarrow>
       sy_pc t u = SIdle \<and> (u, sy_req s u, Some (answer (sy_req s u))) \<in> set (sy_log t))"
proof (intro conjI allI impI)
  have inv: "sync_ok answer s" by (rule sync.reach_invar [OF assms])
  show "\<not> sy_fault s" by (rule sync_okD(1) [OF inv])
  show "(u, q, r) \<in> set (sy_log s) \<Longrightarrow> r = Some (answer q)" for u q r by (rule sync_okD(9) [OF inv])
  have "j \<le> sync_left {u. sy_pc s u \<noteq> SIdle} s" if "(sync_work answer ^^ j) s t" for j t
    using works_bounded [OF that inv active_finite [OF assms]] by simp
  then show "\<exists>k. \<forall>j t. (sync_work answer ^^ j) s t \<longrightarrow> j \<le> k" by blast
  fix t u
  assume run: "(sync_work answer)\<^sup>*\<^sup>* s t" "\<nexists>t'. sync_work answer t t'" and act: "sy_pc s u \<noteq> SIdle"
  have t: "sync_ok answer t" "call_kept answer u (sy_req s u) t"
    using works_kept [OF run(1) inv, of u "sy_req s u"] act by (simp_all add: call_kept_def)
  show idle: "sy_pc t u = SIdle" using sync_progress [OF t(1)] run(2) sync_work.intros by metis
  show "(u, sy_req s u, Some (answer (sy_req s u))) \<in> set (sy_log t)" using t(2) idle by (simp add: call_kept_def)
qed

lemma bounded_run_ends:
  assumes "\<forall>j t. (R ^^ j) s t \<longrightarrow> j \<le> k"
  shows "\<exists>t. R\<^sup>*\<^sup>* s t \<and> (\<nexists>t'. R t t')"
proof (rule ccontr)
  assume stuck: "\<not> (\<exists>t. R\<^sup>*\<^sup>* s t \<and> (\<nexists>t'. R t t'))"
  have "\<exists>t. (R ^^ j) s t" for j
  proof (induction j)
    case (Suc j)
    then obtain t where t: "(R ^^ j) s t" by blast
    then obtain t' where "R t t'" using stuck relpowp_imp_rtranclp [OF t] by blast
    then show ?case using t by auto
  qed simp
  then obtain t where "(R ^^ Suc k) s t" by blast
  then show False using assms by (metis Suc_n_not_le_n)
qed

text \<open>One call, run to its end.\<close>

lemma send_returns_answer_witness:
  "\<exists>t. (sync_work Suc)\<^sup>*\<^sup>* (send_begin 3 (5::nat) (sync_initial 0)) t \<and> sy_pc t 3 = SIdle \<and> (3, 5, Some 6) \<in> set (sy_log t)"
proof -
  let ?s = "send_begin 3 (5::nat) (sync_initial 0) :: (nat, nat) sync"
  have "reach sync_start (sync_step Suc) ?s"
  proof (rule reach_step)
    show "reach sync_start (sync_step Suc) (sync_initial (0::nat))" by (rule reach_start) (simp add: sync_start_def sync_initial_def)
    show "sync_step Suc (sync_initial 0) ?s" by (rule sync_call) (simp add: sync_initial_def)
  qed
  note r = send_returns_answer [OF this, THEN conjunct2, THEN conjunct2]
  obtain k where "\<forall>j t. (sync_work Suc ^^ j) ?s t \<longrightarrow> j \<le> k" using r by blast
  from bounded_run_ends [OF this] obtain t where t: "(sync_work Suc)\<^sup>*\<^sup>* ?s t" "\<nexists>t'. sync_work Suc t t'" by blast
  have "sy_pc ?s 3 \<noteq> SIdle" "sy_req ?s 3 = 5" by (simp_all add: send_begin_def send_goto_def)
  with r [THEN conjunct2, rule_format, OF t, of 3] t(1) show ?thesis by auto
qed

end
