(* ===== verification/Service_Connect.thy ===== *)
theory Service_Connect
  imports Client_Connection
begin

text \<open>
  Connecting through a service, \<^verbatim>\<open>src/http_service.cpp\<close> and \<^verbatim>\<open>src/kv_service.cpp\<close>: \<open>asyncConnect\<close>, and the synchronous \<open>connect\<close>, whose
  callback stores the connection and notifies. \<open>stopped\<close> is the service manager's answer; \<open>fd\<close>, \<open>res\<close> and \<open>so_error\<close> are what
  \<open>socket\<close>, \<open>connect\<close> and \<open>getsockopt\<close> return, and \<open>ready\<close> whether the descriptor becomes writable later, and then with which \<open>SO_ERROR\<close>.
\<close>

section \<open>Operations\<close>

datatype 'c connect_start = NoConnection | NullDescriptor | Connecting 'c

definition HTTPService_asyncConnect :: "bool \<Rightarrow> int \<Rightarrow> errno option \<Rightarrow> bool \<Rightarrow> io_write list \<Rightarrow> 'cb client connect_start" where
  "HTTPService_asyncConnect stopped fd res so_error ws =
     (if stopped then NoConnection
      else case HTTPClient_connect fd res so_error (Client_new ws) of None \<Rightarrow> NullDescriptor | Some s \<Rightarrow> Connecting s)"

definition KVService_asyncConnect :: "bool \<Rightarrow> int \<Rightarrow> errno option \<Rightarrow> bool \<Rightarrow> io_write list \<Rightarrow> 'cb client connect_start" where
  "KVService_asyncConnect stopped fd res so_error ws =
     (if stopped then NoConnection
      else case KVClient_connect fd res so_error (Client_new ws) of None \<Rightarrow> NullDescriptor | Some s \<Rightarrow> Connecting s)"

text \<open>
  What the caller of \<open>connect\<close> sees: it waits for ever, the process dereferences the null descriptor, or the call returns the
  connection that the callback stored.
\<close>

datatype 'c connect_result = WaitsForever | NullDeref | Returns 'c

text \<open>\<open>wait\<close> returns once the callback, \<open>connectInternal\<close>, has notified.\<close>

definition connect_wait :: "(bool \<Rightarrow> 'cb client \<Rightarrow> 'cb client option) \<Rightarrow> bool option \<Rightarrow> 'cb client connect_start \<Rightarrow> 'cb client connect_result" where
  "connect_wait on_writable ready r =
     (case r of
        NoConnection \<Rightarrow> WaitsForever
      | NullDescriptor \<Rightarrow> NullDeref
      | Connecting s \<Rightarrow>
          if connect_calls s \<noteq> [] then Returns s
          else if write_waits (cl_conn s) = 0 then WaitsForever
          else case ready of
                 None \<Rightarrow> WaitsForever
               | Some e \<Rightarrow>
                   (case on_writable e s of
                      None \<Rightarrow> NullDeref
                    | Some s1 \<Rightarrow> if connect_calls s1 \<noteq> [] then Returns s1 else WaitsForever))"

definition HTTPService_connect ::
    "bool \<Rightarrow> int \<Rightarrow> errno option \<Rightarrow> bool \<Rightarrow> bool option \<Rightarrow> io_write list \<Rightarrow> 'cb client connect_result" where
  "HTTPService_connect stopped fd res so_error ready ws =
     connect_wait HTTPClient_doConnect ready (HTTPService_asyncConnect stopped fd res so_error ws)"

definition KVClient_doConnect :: "bool \<Rightarrow> 'cb client \<Rightarrow> 'cb client option" where
  "KVClient_doConnect so_error s =
     map_option (\<lambda>(c, calls). s\<lparr>cl_conn := c, connect_calls := calls\<rparr>)
       (doConnect so_error KVClient_connDone (cl_conn s) (connect_calls s))"

definition KVService_connect ::
    "bool \<Rightarrow> int \<Rightarrow> errno option \<Rightarrow> bool \<Rightarrow> bool option \<Rightarrow> io_write list \<Rightarrow> 'cb client connect_result" where
  "KVService_connect stopped fd res so_error ready ws =
     connect_wait KVClient_doConnect ready (KVService_asyncConnect stopped fd res so_error ws)"

section \<open>What connect returns\<close>

text \<open>The connection is usable: established, read by the I/O manager and held by the reference of its reader.\<close>

definition usable :: "'cb client \<Rightarrow> bool" where
  "usable s \<longleftrightarrow> conn_ok (cl_conn s) \<and> io_desc (cl_conn s) \<and> \<not> deleted (cl_conn s) \<and> \<not> faulted (cl_conn s) \<and> refs (cl_conn s) = 1 \<and> read_waits (cl_conn s) = 1 \<and> connect_calls s = [True]"

text \<open>The connection is in error and the \<open>release\<close> that follows the callback has deleted it.\<close>

definition dangling :: "'cb client \<Rightarrow> bool" where
  "dangling s \<longleftrightarrow> \<not> conn_ok (cl_conn s) \<and> deleted (cl_conn s) \<and> connect_calls s = [False]"

lemma KVService_connect_eq: "KVService_connect stopped fd res so_error ready ws = HTTPService_connect stopped fd res so_error ready ws"
  unfolding KVService_connect_def HTTPService_connect_def KVService_asyncConnect_def HTTPService_asyncConnect_def
    KVClient_doConnect_def HTTPClient_doConnect_def KVClient_connect_def HTTPClient_connect_def KVClient_connDone_def HTTPClient_connDone_def
  by simp

lemmas connect_simps = HTTPService_connect_def HTTPService_asyncConnect_def HTTPClient_connect_def HTTPClient_doConnect_def
  startConnect_def doConnect_def HTTPClient_connDone_def connect_wait_def Client_new_def Connection_client_def Let_def conn_ok_def
  startRead_def readWhenReady_def writeWhenReady_def acquire_def touch_def release_def Connection_destroy_def usable_def dangling_def

text \<open>A connection that \<open>connect\<close> returned and that is \<open>ok()\<close> is usable, empty, and has the socket it was given.\<close>

lemma connect_ok:
  assumes "HTTPService_connect stopped fd res so_error ready ws = Returns s" "conn_ok (cl_conn s)"
  shows "usable s" "in_buf (cl_conn s) = Buffer_new" "out_buf (cl_conn s) = Buffer_new" "\<not> writing (cl_conn s)" "sock_writes (cl_conn s) = ws"
    "sock_sent (cl_conn s) = []" "response_cbs s = []" "delivered s = []"
proof -
  have "usable s \<and> in_buf (cl_conn s) = Buffer_new \<and> out_buf (cl_conn s) = Buffer_new \<and> \<not> writing (cl_conn s) \<and> sock_writes (cl_conn s) = ws \<and>
    sock_sent (cl_conn s) = [] \<and> response_cbs s = [] \<and> delivered s = []"
  proof (cases "stopped \<or> fd < 0")
    case True
    then show ?thesis using assms(1) by (cases stopped) (simp_all add: connect_simps)
  next
    case False
    then have run: "\<not> stopped" "\<not> fd < 0" by simp_all
    show ?thesis
    proof (cases res)
      case None
      then show ?thesis using run assms by (cases so_error) (auto simp: connect_simps)
    next
      case (Some e)
      then show ?thesis using run assms by (cases e; cases ready; cases "the ready") (auto simp: connect_simps)
    qed
  qed
  then show "usable s" "in_buf (cl_conn s) = Buffer_new" "out_buf (cl_conn s) = Buffer_new" "\<not> writing (cl_conn s)" "sock_writes (cl_conn s) = ws"
    "sock_sent (cl_conn s) = []" "response_cbs s = []" "delivered s = []" by simp_all
qed

text \<open>
  C40. The synchronous \<open>connect\<close> of both services returns a usable connection exactly when the service runs, a socket was made,
  the connection was being established and then succeeded. It returns a connection that the \<open>release\<close> after the callback deletes whenever the connection
  attempt fails, at once or later, although the caller is to own it and look at its error. It waits for ever when the
  service is stopped, when no socket can be made and when the peer never answers.
\<close>

theorem Service_connect_outcome:
  "(KVService_connect stopped fd res so_error ready ws :: 'cb client connect_result) = HTTPService_connect stopped fd res so_error ready ws \<and>
   (case (HTTPService_connect stopped fd res so_error ready ws :: 'cb client connect_result) of
      WaitsForever \<Rightarrow> stopped \<or> fd < 0 \<or> (res = Some EINPROGRESS \<or> res = Some EINTR) \<and> ready = None
    | NullDeref \<Rightarrow> \<not> stopped \<and> 0 \<le> fd \<and> res = None \<and> \<not> so_error
    | Returns s \<Rightarrow> \<not> stopped \<and> 0 \<le> fd \<and>
        (if (res = Some EINPROGRESS \<or> res = Some EINTR) \<and> ready = Some False then usable s else dangling s))" (is "?kv \<and> ?http")
proof
  show ?kv by (rule KVService_connect_eq)
  show ?http
  proof (cases "stopped \<or> fd < 0")
    case True
    then show ?thesis by (cases stopped) (simp_all add: connect_simps)
  next
    case False
    then have run: "\<not> stopped" "\<not> fd < 0" by simp_all
    show ?thesis
    proof (cases res)
      case None
      then show ?thesis using run by (cases so_error) (simp_all add: connect_simps)
    next
      case (Some e)
      then show ?thesis using run by (cases e; cases ready; cases "the ready") (simp_all add: connect_simps)
    qed
  qed
qed

end
