(* ===== verification/Thread_Registry.thy ===== *)
theory Thread_Registry
  imports Prelude
begin

text \<open>
  Threads: \<open>makeThread\<close> and \<open>threadFunction\<close> of \<^verbatim>\<open>src/thread.cpp\<close> and the singleton \<open>ThreadRegistry\<close> of
  \<^verbatim>\<open>src/thread_registry.cpp\<close>. The registry's operations run under its mutex and are one step each. \<open>pthread_create\<close> may fail and may
  give a new thread the identifier of one that has ended; an identifier is in use by one thread at a time.
\<close>

section \<open>The registry\<close>

record thread_registry =
  thread_ids :: "nat set"

definition ThreadRegistry_new :: thread_registry where
  "ThreadRegistry_new = \<lparr>thread_ids = {}\<rparr>"

definition registerThread :: "nat \<Rightarrow> thread_registry \<Rightarrow> bool \<times> thread_registry" where
  "registerThread tid r = (tid \<notin> thread_ids r, r\<lparr>thread_ids := insert tid (thread_ids r)\<rparr>)"

definition unregisterThread :: "nat \<Rightarrow> thread_registry \<Rightarrow> bool \<times> thread_registry" where
  "unregisterThread tid r = (tid \<in> thread_ids r, r\<lparr>thread_ids := thread_ids r - {tid}\<rparr>)"

text \<open>\<open>tids\<close> is cleared first, so its old contents do not matter.\<close>

definition getAllThreadIDs :: "thread_registry \<Rightarrow> nat set \<Rightarrow> nat set" where
  "getAllThreadIDs r tids = {} \<union> thread_ids r"

section \<open>Threads\<close>

text \<open>Program points of \<open>threadFunction\<close>; \<open>TFree\<close>: no thread has the identifier.\<close>

datatype 'b thread_pc = TFree | TInstance 'b | TRegister 'b | TCall 'b | TUnregister

text \<open>\<open>th_made\<close> lists the bodies given to \<open>makeThread\<close>, \<open>th_runs\<close> those called; \<open>th_results\<close> what the registry returned.\<close>

record 'b threads =
  th_instance :: "thread_registry option"
  th_pc :: "nat \<Rightarrow> 'b thread_pc"
  th_made :: "'b list"
  th_runs :: "(nat \<times> 'b) list"
  th_results :: "bool list"
  th_exit :: bool

text \<open>\<open>instance\<close>: \<open>pthread_once\<close> runs \<open>init\<close> for the first caller only.\<close>

definition registry_instance :: "'b threads \<Rightarrow> 'b threads" where
  "registry_instance s = (case th_instance s of None \<Rightarrow> s\<lparr>th_instance := Some ThreadRegistry_new\<rparr> | Some r \<Rightarrow> s)"

text \<open>The result of \<open>pthread_create\<close> is the new identifier, or \<open>None\<close> when it fails: \<open>LOG (FATAL)\<close> then ends the process.\<close>

definition makeThread :: "'b \<Rightarrow> nat option \<Rightarrow> 'b threads \<Rightarrow> 'b threads" where
  "makeThread body created s =
     (case created of
        None \<Rightarrow> s\<lparr>th_exit := True\<rparr>
      | Some tid \<Rightarrow> s\<lparr>th_pc := (th_pc s)(tid := TInstance body), th_made := th_made s @ [body]\<rparr>)"

definition threadFunction :: "nat \<Rightarrow> 'b threads \<Rightarrow> 'b threads" where
  "threadFunction tid s =
     (case th_pc s tid of
        TFree \<Rightarrow> s
      | TInstance b \<Rightarrow> (registry_instance s)\<lparr>th_pc := (th_pc s)(tid := TRegister b)\<rparr>
      | TRegister b \<Rightarrow>
          let (ok, r) = registerThread tid (the (th_instance s))
          in s\<lparr>th_instance := Some r, th_results := th_results s @ [ok], th_pc := (th_pc s)(tid := TCall b)\<rparr>
      | TCall b \<Rightarrow> s\<lparr>th_runs := th_runs s @ [(tid, b)], th_pc := (th_pc s)(tid := TUnregister)\<rparr>
      | TUnregister \<Rightarrow>
          let (ok, r) = unregisterThread tid (the (th_instance s))
          in s\<lparr>th_instance := Some r, th_results := th_results s @ [ok], th_pc := (th_pc s)(tid := TFree)\<rparr>)"

inductive thread_step :: "'b threads \<Rightarrow> 'b threads \<Rightarrow> bool" where
  thread_make: "\<not> th_exit s \<Longrightarrow> (\<And>tid. created = Some tid \<Longrightarrow> th_pc s tid = TFree) \<Longrightarrow> thread_step s (makeThread body created s)"
| thread_run: "\<not> th_exit s \<Longrightarrow> th_pc s tid \<noteq> TFree \<Longrightarrow> thread_step s (threadFunction tid s)"

definition thread_start :: "'b threads \<Rightarrow> bool" where
  "thread_start s \<longleftrightarrow> th_instance s = None \<and> (\<forall>tid. th_pc s tid = TFree) \<and> th_made s = [] \<and> th_runs s = [] \<and> th_results s = [] \<and> \<not> th_exit s"

section \<open>The invariant\<close>

fun is_registered :: "'b thread_pc \<Rightarrow> bool" where
  "is_registered (TCall b) = True"
| "is_registered TUnregister = True"
| "is_registered _ = False"

fun pending_body :: "'b thread_pc \<Rightarrow> 'b option" where
  "pending_body (TInstance b) = Some b"
| "pending_body (TRegister b) = Some b"
| "pending_body (TCall b) = Some b"
| "pending_body _ = None"

definition registered_ids :: "'b threads \<Rightarrow> nat set" where
  "registered_ids s = (case th_instance s of None \<Rightarrow> {} | Some r \<Rightarrow> thread_ids r)"

definition thread_inv :: "'b threads \<Rightarrow> bool" where
  "thread_inv s \<longleftrightarrow>
     registered_ids s = {tid. is_registered (th_pc s tid)} \<and>
     (\<forall>tid. th_instance s = None \<longrightarrow> th_pc s tid = TFree \<or> (\<exists>b. th_pc s tid = TInstance b)) \<and>
     set (th_results s) \<subseteq> {True} \<and> finite {tid. th_pc s tid \<noteq> TFree} \<and>
     (\<forall>b. count_list (th_made s) b = count_list (map snd (th_runs s)) b + card {tid. pending_body (th_pc s tid) = Some b})"

lemma thread_invD:
  assumes "thread_inv s"
  shows "registered_ids s = {tid. is_registered (th_pc s tid)}"
    "th_instance s = None \<Longrightarrow> th_pc s tid = TFree \<or> (\<exists>b. th_pc s tid = TInstance b)"
    "set (th_results s) \<subseteq> {True}" "finite {tid. th_pc s tid \<noteq> TFree}"
    "count_list (th_made s) b = count_list (map snd (th_runs s)) b + card {tid. pending_body (th_pc s tid) = Some b}"
  using assms unfolding thread_inv_def by (elim conjE; blast)+

text \<open>The number of threads that still have to call \<open>b\<close>, when one thread moves.\<close>

lemma card_pending:
  assumes fin: "finite {t. pc t \<noteq> TFree}"
  shows "card {t. pending_body ((pc(tid := p)) t) = Some b} + (if pending_body (pc tid) = Some b then 1 else 0) =
    card {t. pending_body (pc t) = Some b} + (if pending_body p = Some b then 1 else 0)"
proof -
  let ?A = "{t. t \<noteq> tid \<and> pending_body (pc t) = Some b}"
  have "{t. pending_body (pc t) = Some b} \<subseteq> {t. pc t \<noteq> TFree}" by auto
  then have finA: "finite ?A" using fin by (auto intro: finite_subset)
  have new: "{t. pending_body ((pc(tid := p)) t) = Some b} = (if pending_body p = Some b then insert tid ?A else ?A)" by auto
  have old: "{t. pending_body (pc t) = Some b} = (if pending_body (pc tid) = Some b then insert tid ?A else ?A)" by auto
  show ?thesis unfolding new old using finA by simp
qed

lemma finite_moved: "finite {t. pc t \<noteq> TFree} \<Longrightarrow> finite {t. (pc(tid := p)) t \<noteq> TFree}"
  by (rule finite_subset [of _ "insert tid {t. pc t \<noteq> TFree}"]) auto

lemma thread_inv_moved:
  assumes inv: "thread_inv s" and pc: "th_pc s' = (th_pc s)(tid := p)"
    and ids: "registered_ids s' = (if is_registered p then insert tid (registered_ids s) else registered_ids s - {tid})"
    and inst: "th_instance s' = None \<Longrightarrow> th_instance s = None \<and> (\<exists>b. p = TInstance b)" and res: "set (th_results s') \<subseteq> {True}"
    and count: "\<And>b. count_list (th_made s') b + count_list (map snd (th_runs s)) b + (if pending_body (th_pc s tid) = Some b then 1 else 0) =
      count_list (th_made s) b + count_list (map snd (th_runs s')) b + (if pending_body p = Some b then 1 else 0)"
  shows "thread_inv s'"
  unfolding thread_inv_def
proof (intro conjI allI impI)
  show "registered_ids s' = {t. is_registered (th_pc s' t)}" using thread_invD(1) [OF inv] ids pc by (auto split: if_splits)
  show "set (th_results s') \<subseteq> {True}" by (rule res)
  show "finite {t. th_pc s' t \<noteq> TFree}" unfolding pc by (rule finite_moved [OF thread_invD(4) [OF inv]])
  show "th_pc s' t = TFree \<or> (\<exists>b. th_pc s' t = TInstance b)" if "th_instance s' = None" for t
    using inst [OF that] thread_invD(2) [OF inv, of t] pc by auto
  show "count_list (th_made s') b = count_list (map snd (th_runs s')) b + card {t. pending_body (th_pc s' t) = Some b}" for b
    using count [of b] thread_invD(5) [OF inv, of b] card_pending [OF thread_invD(4) [OF inv], of tid p b] unfolding pc by linarith
qed

lemma thread_inv_make:
  assumes "thread_inv s" "\<And>tid. created = Some tid \<Longrightarrow> th_pc s tid = TFree"
  shows "thread_inv (makeThread body created s)"
proof (cases created)
  case None
  then show ?thesis using assms(1) by (simp add: makeThread_def thread_inv_def registered_ids_def)
next
  case (Some tid)
  then have free: "th_pc s tid = TFree" by (rule assms(2))
  then have "tid \<notin> registered_ids s" using thread_invD(1) [OF assms(1)] by simp
  then show ?thesis
    using free thread_invD(3) [OF assms(1)] Some
    by (intro thread_inv_moved [OF assms(1), of _ tid "TInstance body"]) (auto simp: makeThread_def registered_ids_def split: option.split)
qed

lemma thread_inv_run:
  assumes inv: "thread_inv s" and "th_pc s tid \<noteq> TFree"
  shows "thread_inv (threadFunction tid s)"
proof -
  have reg: "tid \<in> registered_ids s \<longleftrightarrow> is_registered (th_pc s tid)" using thread_invD(1) [OF inv] by blast
  have res: "set (th_results s) \<subseteq> {True}" by (rule thread_invD(3) [OF inv])
  have inst: "\<exists>r. th_instance s = Some r" if "\<nexists>b. th_pc s tid = TInstance b"
    using thread_invD(2) [OF inv, of tid] that assms(2) by auto
  note simps = threadFunction_def registered_ids_def registerThread_def unregisterThread_def Let_def
  show ?thesis
  proof (cases "th_pc s tid")
    case (TInstance b)
    then show ?thesis using reg res
      by (intro thread_inv_moved [OF inv, of _ tid "TRegister b"])
         (auto simp: simps registry_instance_def ThreadRegistry_new_def split: option.splits)
  next
    case (TRegister b)
    then show ?thesis using reg res inst by (intro thread_inv_moved [OF inv, of _ tid "TCall b"]) (auto simp: simps)
  next
    case (TCall b)
    then show ?thesis using reg res inst by (intro thread_inv_moved [OF inv, of _ tid TUnregister]) (auto simp: simps)
  next
    case TUnregister
    then show ?thesis using reg res inst by (intro thread_inv_moved [OF inv, of _ tid TFree]) (auto simp: simps)
  qed (use assms(2) in simp)
qed

interpretation registry: transition_system thread_start thread_step thread_inv
proof
  fix s t :: "'b threads"
  show "thread_start s \<Longrightarrow> thread_inv s" by (simp add: thread_start_def thread_inv_def registered_ids_def)
  show "thread_step s t \<Longrightarrow> thread_inv s \<Longrightarrow> thread_inv t"
    by (cases rule: thread_step.cases) (auto intro: thread_inv_make thread_inv_run)
qed

text \<open>
  C22. However threads are created and scheduled, \<open>getAllThreadIDs\<close> gives exactly the threads that are between their registration
  and its removal, whose bodies are running, no registration meets an identifier already there and no removal a missing one,
  and when all threads have ended the registry is empty and each body given to \<open>makeThread\<close> has been called
  exactly as often as it was given.
\<close>

theorem ThreadRegistry_exact:
  assumes "reach thread_start thread_step s"
  shows "(\<forall>r tids. th_instance s = Some r \<longrightarrow> getAllThreadIDs r tids = {tid. is_registered (th_pc s tid)}) \<and> False \<notin> set (th_results s) \<and>
    ((\<forall>tid. th_pc s tid = TFree) \<longrightarrow> registered_ids s = {} \<and> (\<forall>b. count_list (th_made s) b = count_list (map snd (th_runs s)) b))"
proof -
  have inv: "thread_inv s" by (rule registry.reach_invar [OF assms])
  show ?thesis using thread_invD(1,3,5) [OF inv] by (auto simp: getAllThreadIDs_def registered_ids_def)
qed

definition threads_initial :: "'b threads" where
  "threads_initial = \<lparr>th_instance = None, th_pc = (\<lambda>_. TFree), th_made = [], th_runs = [], th_results = [], th_exit = False\<rparr>"

lemma reach_run: "reach thread_start thread_step s \<Longrightarrow> \<not> th_exit s \<Longrightarrow> th_pc s tid \<noteq> TFree \<Longrightarrow> reach thread_start thread_step (threadFunction tid s)"
  by (rule reach_step, assumption, rule thread_run)

lemma ThreadRegistry_exact_witness:
  "\<exists>s :: nat threads. th_instance s = Some \<lparr>thread_ids = {7}\<rparr> \<and> {7} = {tid. is_registered (th_pc s tid)} \<and> th_results s = [True]"
proof -
  let ?made = "makeThread (9::nat) (Some 7) threads_initial"
  let ?s = "threadFunction 7 (threadFunction 7 ?made)"
  have "reach thread_start thread_step ?made"
  proof (rule reach_step [of _ _ threads_initial])
    show "reach thread_start thread_step (threads_initial :: nat threads)" by (rule reach_start) (simp add: thread_start_def threads_initial_def)
    show "thread_step threads_initial ?made" by (rule thread_make) (simp_all add: threads_initial_def)
  qed
  then have "reach thread_start thread_step ?s"
    by (intro reach_run) (simp_all add: threadFunction_def makeThread_def registry_instance_def threads_initial_def)
  moreover have "th_instance ?s = Some \<lparr>thread_ids = {7}\<rparr>" "th_results ?s = [True]"
    by (simp_all add: threadFunction_def makeThread_def registry_instance_def threads_initial_def registerThread_def ThreadRegistry_new_def)
  ultimately have "{7} = {tid. is_registered (th_pc ?s tid)}" using ThreadRegistry_exact [of ?s] by (auto simp: getAllThreadIDs_def)
  then show ?thesis using \<open>th_instance ?s = _\<close> \<open>th_results ?s = _\<close> by blast
qed

end
