(* ===== verification/Signal_Handler.thy ===== *)
theory Signal_Handler
  imports Thread_Registry Connection Http_Response
begin

text \<open>
  The handler of fatal signals, \<^verbatim>\<open>src/signal_handler.cpp\<close>: it prints the stack of the thread that received the signal, makes every
  other registered thread print its own by sending it \<open>SIGUSR1\<close> and waiting on a semaphore, and raises the signal again
  with its default action. The stack of each thread, as \<open>backtrace_symbols_fd\<close> prints it, and the threads that still run and so
  take \<open>SIGUSR1\<close> are parameters; \<open>write\<close> returns the results of a script.
\<close>

section \<open>State\<close>

datatype disposition = SigDfl | FatalHandler | DumpHandler

record signals =
  sg_out :: string
  sg_writes :: "io_write list"
  sg_errno :: errno
  sg_in_progress :: bool
  sg_sem :: "nat option"
  sg_killed :: "nat list"
  sg_raised :: "nat list"
  sg_segv :: disposition
  sg_usr1 :: disposition

text \<open>A handler runs to its end or waits for ever.\<close>

datatype 'a handler_run = Blocked 'a | Finished 'a

fun and_then :: "'a handler_run \<Rightarrow> ('a \<Rightarrow> 'a handler_run) \<Rightarrow> 'a handler_run" where
  "and_then (Blocked s) f = Blocked s"
| "and_then (Finished s) f = f s"

section \<open>Operations\<close>

text \<open>\<open>write\<close> is repeated when it wrote nothing and \<open>errno\<close> is \<open>EINTR\<close>; a partial write is not continued.\<close>

fun rawWrite_loop :: "string \<Rightarrow> io_write list \<Rightarrow> signals \<Rightarrow> signals handler_run" where
  "rawWrite_loop msg [] s = Blocked (s\<lparr>sg_writes := []\<rparr>)"
| "rawWrite_loop msg (WDone n # ws) s =
     (let s1 = s\<lparr>sg_out := sg_out s @ take n msg, sg_writes := ws\<rparr>
      in if n = 0 \<and> sg_errno s = EINTR then rawWrite_loop msg ws s1 else Finished s1)"
| "rawWrite_loop msg (WErr e # ws) s =
     (let s1 = s\<lparr>sg_errno := e, sg_writes := ws\<rparr> in if e = EINTR then rawWrite_loop msg ws s1 else Finished s1)"

text \<open>The first \<open>len\<close> bytes of a C string, which a null byte ends.\<close>

definition rawWrite :: "string \<Rightarrow> nat \<Rightarrow> signals \<Rightarrow> signals handler_run" where
  "rawWrite msg len s = rawWrite_loop (take len (msg @ [CHR 0x00])) (sg_writes s) s"

definition MAX_NUM_FRAMES :: nat where
  "MAX_NUM_FRAMES = 16"

definition MAX_ENTRY_SIZE :: nat where
  "MAX_ENTRY_SIZE = 256"

definition start_backtrace :: string where
  "start_backtrace = ''==== start backtrace ===='' @ [CHR 0x0A]"

definition end_backtrace :: string where
  "end_backtrace = ''==== end backtrace ===='' @ [CHR 0x0A]"

definition no_backtrace :: string where
  "no_backtrace = ''Could not get stack trace'' @ [CHR 0x0A]"

definition symbol_lines :: "string list \<Rightarrow> string" where
  "symbol_lines fs = concat (map (\<lambda>f. f @ [CHR 0x0A]) fs)"

text \<open>The frames are those of the calling thread.\<close>

definition printStackTrace :: "string list \<Rightarrow> signals \<Rightarrow> signals handler_run" where
  "printStackTrace stack s =
     and_then (rawWrite start_backtrace 27 s) (\<lambda>s1.
       let frames = take MAX_NUM_FRAMES stack;
           num_frames = length frames
       in and_then (if 1 < num_frames then Finished (s1\<lparr>sg_out := sg_out s1 @ symbol_lines (take (num_frames - 2) (drop 2 frames))\<rparr>)
                    else rawWrite no_backtrace 27 s1)
            (rawWrite end_backtrace 25))"

definition dumpStackHandler :: "string list \<Rightarrow> signals \<Rightarrow> signals handler_run" where
  "dumpStackHandler stack s = and_then (printStackTrace stack s) (\<lambda>s1. Finished (s1\<lparr>sg_sem := map_option Suc (sg_sem s1)\<rparr>))"

definition sem_wait :: "signals \<Rightarrow> signals handler_run" where
  "sem_wait s = (case sg_sem s of Some (Suc k) \<Rightarrow> Finished (s\<lparr>sg_sem := Some k\<rparr>) | _ \<Rightarrow> Blocked s)"

text \<open>A thread takes \<open>SIGUSR1\<close> while the sender waits; one that has ended does not.\<close>

definition pthread_kill :: "(nat \<Rightarrow> bool) \<Rightarrow> (nat \<Rightarrow> string list) \<Rightarrow> nat \<Rightarrow> signals \<Rightarrow> signals handler_run" where
  "pthread_kill runs stack tid s =
     (let s1 = s\<lparr>sg_killed := sg_killed s @ [tid]\<rparr>
      in if runs tid \<and> sg_usr1 s1 = DumpHandler then dumpStackHandler (stack tid) s1 else Finished s1)"

fun dump_others :: "(nat \<Rightarrow> bool) \<Rightarrow> (nat \<Rightarrow> string list) \<Rightarrow> nat \<Rightarrow> nat list \<Rightarrow> signals \<Rightarrow> signals handler_run" where
  "dump_others runs stack my_tid [] s = Finished s"
| "dump_others runs stack my_tid (tid # tids) s =
     (if tid \<noteq> my_tid then and_then (and_then (pthread_kill runs stack tid s) sem_wait) (dump_others runs stack my_tid tids)
      else dump_others runs stack my_tid tids s)"

text \<open>
  \<open>tids\<close> lists the registered threads in the order of the set's iterator. The signal is blocked
  while its handler runs, so a \<open>raise\<close> only makes it pending and the handler goes on.
\<close>

definition got_signal :: "nat \<Rightarrow> string" where
  "got_signal sig = ''Got signal '' @ show_nat sig @ [CHR 0x0A]"

definition fatalSignalHandler ::
    "(nat \<Rightarrow> bool) \<Rightarrow> (nat \<Rightarrow> string list) \<Rightarrow> nat \<Rightarrow> nat list \<Rightarrow> nat \<Rightarrow> signals \<Rightarrow> signals handler_run" where
  "fatalSignalHandler runs stack my_tid tids sig s0 =
     (let s = (if sg_in_progress s0 then s0\<lparr>sg_raised := sg_raised s0 @ [sig]\<rparr> else s0)\<lparr>sg_in_progress := True\<rparr>;
          entry = take (MAX_ENTRY_SIZE - 1) (got_signal sig);
          size = length (got_signal sig)
      in and_then (rawWrite entry size s) (\<lambda>s1.
           and_then (printStackTrace (stack my_tid) s1) (\<lambda>s2.
             and_then (dump_others runs stack my_tid tids s2) (\<lambda>s3.
               Finished (s3\<lparr>sg_sem := None, sg_segv := SigDfl, sg_raised := sg_raised s3 @ [sig]\<rparr>)))))"

text \<open>The results say which of the calls succeed; \<open>None\<close> when the process exits.\<close>

definition installSignalHandler :: "bool \<Rightarrow> bool \<Rightarrow> bool \<Rightarrow> signals \<Rightarrow> signals option" where
  "installSignalHandler sem_ok segv_ok usr1_ok s =
     (if \<not> sem_ok then None
      else let s1 = s\<lparr>sg_sem := Some 0\<rparr>
           in if \<not> segv_ok then None
              else let s2 = s1\<lparr>sg_segv := FatalHandler\<rparr>
                   in if \<not> usr1_ok then None else Some (s2\<lparr>sg_usr1 := DumpHandler\<rparr>))"

section \<open>Complete traces\<close>

text \<open>
  The results of \<open>write\<close> that end a \<open>rawWrite\<close> in any case: some bytes were written, or an error
  other than an interrupt. A script has at least \<open>k\<close> of them left; and in a script of full writes
  \<open>write\<close> is only ever interrupted or complete.
\<close>

fun ends_write :: "io_write \<Rightarrow> bool" where
  "ends_write (WDone n) = (0 < n)"
| "ends_write (WErr e) = (e \<noteq> EINTR)"

definition enough_writes :: "nat \<Rightarrow> io_write list \<Rightarrow> bool" where
  "enough_writes k ws \<longleftrightarrow> k \<le> length (filter ends_write ws)"

definition full_writes :: "io_write list \<Rightarrow> bool" where
  "full_writes ws \<longleftrightarrow> set ws \<subseteq> {WErr EINTR, WDone 300}"

text \<open>What printing one trace writes: the lengths given to \<open>rawWrite\<close> include the null byte of each literal.\<close>

definition trace_block :: "string list \<Rightarrow> string" where
  "trace_block stack =
     start_backtrace @ [CHR 0x00] @
     (let frames = take MAX_NUM_FRAMES stack
      in if 1 < length frames then symbol_lines (drop 2 frames) else no_backtrace @ [CHR 0x00]) @
     end_backtrace @ [CHR 0x00]"

text \<open>
  From \<open>s\<close> to \<open>t\<close> only output was written, \<open>k\<close> ending results are left, and if the writes are
  full the output is exactly \<open>out\<close>.
\<close>

definition sg_wrote :: "nat \<Rightarrow> string \<Rightarrow> signals \<Rightarrow> signals \<Rightarrow> bool" where
  "sg_wrote k out s t \<longleftrightarrow> (\<exists>ws e w. enough_writes k ws \<and> (full_writes (sg_writes s) \<longrightarrow> full_writes ws \<and> w = out) \<and>
     t = s\<lparr>sg_out := sg_out s @ w, sg_writes := ws, sg_errno := e\<rparr>)"

lemma sg_wroteD:
  assumes "sg_wrote k out s t"
  shows "enough_writes k (sg_writes t)" "full_writes (sg_writes s) \<Longrightarrow> full_writes (sg_writes t) \<and> sg_out t = sg_out s @ out" "sg_in_progress t = sg_in_progress s" "sg_sem t = sg_sem s"
    "sg_killed t = sg_killed s" "sg_raised t = sg_raised s" "sg_segv t = sg_segv s" "sg_usr1 t = sg_usr1 s"
  using assms by (auto simp: sg_wrote_def)

lemma sg_wroteI:
  "enough_writes k ws \<Longrightarrow> (full_writes (sg_writes s) \<Longrightarrow> full_writes ws \<and> w = out) \<Longrightarrow>
    sg_wrote k out s (s\<lparr>sg_out := sg_out s @ w, sg_writes := ws, sg_errno := e\<rparr>)"
  by (auto simp: sg_wrote_def)

lemma sg_wrote_trans: "sg_wrote j a s t \<Longrightarrow> sg_wrote k b t u \<Longrightarrow> sg_wrote k (a @ b) s u"
  unfolding sg_wrote_def by fastforce

lemma sg_wrote_killed:
  assumes "sg_wrote k out s t"
  shows "sg_wrote k out (s\<lparr>sg_killed := xs\<rparr>) (t\<lparr>sg_killed := xs\<rparr>)"
proof -
  obtain ws e w where "enough_writes k ws" "full_writes (sg_writes s) \<longrightarrow> full_writes ws \<and> w = out"
    "t = s\<lparr>sg_out := sg_out s @ w, sg_writes := ws, sg_errno := e\<rparr>"
    using assms unfolding sg_wrote_def by blast
  then show ?thesis unfolding sg_wrote_def by (intro exI [of _ ws] exI [of _ e] exI [of _ w]) simp
qed

lemma rawWrite_loop_ok:
  assumes "enough_writes (Suc k) ws" "length msg \<le> 300"
  shows "\<exists>ws' e w. enough_writes k ws' \<and> (full_writes ws \<longrightarrow> full_writes ws' \<and> w = msg) \<and>
    rawWrite_loop msg ws s = Finished (s\<lparr>sg_out := sg_out s @ w, sg_writes := ws', sg_errno := e\<rparr>)"
  using assms
proof (induction ws arbitrary: s)
  case Nil
  then show ?case by (simp add: enough_writes_def)
next
  case (Cons w ws)
  have less: "enough_writes k ws" using Cons.prems(1) by (auto simp: enough_writes_def split: if_splits)
  show ?case
  proof (cases w)
    case (WErr e)
    show ?thesis
    proof (cases "e = EINTR")
      case True
      then have "enough_writes (Suc k) ws" using Cons.prems(1) WErr by (simp add: enough_writes_def)
      from Cons.IH [OF this Cons.prems(2), of "s\<lparr>sg_errno := EINTR, sg_writes := ws\<rparr>"]
      show ?thesis using WErr True by (auto simp: Let_def full_writes_def)
    next
      case False
      then show ?thesis using WErr less
        by (intro exI [of _ ws] exI [of _ e] exI [of _ "[]"]) (simp add: Let_def full_writes_def)
    qed
  next
    case (WDone m)
    show ?thesis
    proof (cases "m = 0 \<and> sg_errno s = EINTR")
      case True
      then have "enough_writes (Suc k) ws" using Cons.prems(1) WDone by (simp add: enough_writes_def)
      from Cons.IH [OF this Cons.prems(2), of "s\<lparr>sg_writes := ws\<rparr>"]
      show ?thesis using WDone True by (auto simp: Let_def full_writes_def)
    next
      case False
      have "rawWrite_loop msg (w # ws) s = Finished (s\<lparr>sg_out := sg_out s @ take m msg, sg_writes := ws, sg_errno := sg_errno s\<rparr>)"
        using WDone False by (auto simp: Let_def)
      then show ?thesis using WDone less Cons.prems(2)
        by (intro exI [of _ ws] exI [of _ "sg_errno s"] exI [of _ "take m msg"]) (simp add: full_writes_def)
    qed
  qed
qed

lemma rawWrite_ok:
  assumes "enough_writes (Suc k) (sg_writes s)" "len \<le> 300" "out = take len (msg @ [CHR 0x00])"
  shows "\<exists>t. rawWrite msg len s = Finished t \<and> sg_wrote k out s t"
proof -
  have "length out \<le> 300" using assms(2,3) by simp
  from rawWrite_loop_ok [OF assms(1) this, of s] obtain ws' e w where
    "enough_writes k ws'" "full_writes (sg_writes s) \<longrightarrow> full_writes ws' \<and> w = out"
    "rawWrite_loop out (sg_writes s) s = Finished (s\<lparr>sg_out := sg_out s @ w, sg_writes := ws', sg_errno := e\<rparr>)" by blast
  then show ?thesis unfolding rawWrite_def assms(3) [symmetric] using sg_wroteI by blast
qed

lemma printStackTrace_ok:
  assumes "enough_writes (3 + k) (sg_writes s)"
  shows "\<exists>t. printStackTrace stack s = Finished t \<and> sg_wrote k (trace_block stack) s t"
proof -
  let ?frames = "take MAX_NUM_FRAMES stack"
  let ?mid = "if 1 < length ?frames then symbol_lines (drop 2 ?frames) else no_backtrace @ [CHR 0x00]"
  have w3: "enough_writes (Suc (2 + k)) (sg_writes s)" using assms by (simp add: numeral_3_eq_3)
  obtain s1 where 1: "rawWrite start_backtrace 27 s = Finished s1" "sg_wrote (2 + k) (start_backtrace @ [CHR 0x00]) s s1"
    using rawWrite_ok [OF w3, of 27 "start_backtrace @ [CHR 0x00]" start_backtrace] by (auto simp: start_backtrace_def)
  have w2: "enough_writes (Suc (Suc k)) (sg_writes s1)" using sg_wroteD(1) [OF 1(2)] by simp
  have "\<exists>s2. (if 1 < length ?frames then Finished (s1\<lparr>sg_out := sg_out s1 @ symbol_lines (take (length ?frames - 2) (drop 2 ?frames))\<rparr>)
      else rawWrite no_backtrace 27 s1) = Finished s2 \<and> sg_wrote (Suc k) ?mid s1 s2"
  proof (cases "1 < length ?frames")
    case True
    have "sg_wrote (Suc k) (symbol_lines (drop 2 ?frames)) s1 (s1\<lparr>sg_out := sg_out s1 @ symbol_lines (drop 2 ?frames)\<rparr>)"
      unfolding sg_wrote_def
      by (rule exI [of _ "sg_writes s1"], rule exI [of _ "sg_errno s1"], rule exI [of _ "symbol_lines (drop 2 ?frames)"])
        (use w2 in \<open>simp add: enough_writes_def\<close>)
    then show ?thesis using True by simp
  next
    case False
    have "\<exists>t. rawWrite no_backtrace 27 s1 = Finished t \<and> sg_wrote (Suc k) (no_backtrace @ [CHR 0x00]) s1 t"
      by (rule rawWrite_ok [OF w2]) (simp_all add: no_backtrace_def)
    then show ?thesis unfolding if_not_P [OF False] .
  qed
  then obtain s2 where 2: "(if 1 < length ?frames then Finished (s1\<lparr>sg_out := sg_out s1 @ symbol_lines (take (length ?frames - 2) (drop 2 ?frames))\<rparr>)
      else rawWrite no_backtrace 27 s1) = Finished s2" "sg_wrote (Suc k) ?mid s1 s2" by blast
  obtain s3 where 3: "rawWrite end_backtrace 25 s2 = Finished s3" "sg_wrote k (end_backtrace @ [CHR 0x00]) s2 s3"
    using rawWrite_ok [OF sg_wroteD(1) [OF 2(2)], of 25 "end_backtrace @ [CHR 0x00]" end_backtrace] by (auto simp: end_backtrace_def)
  have "sg_wrote k (trace_block stack) s s3"
    using sg_wrote_trans [OF sg_wrote_trans [OF 1(2) 2(2)] 3(2)] by (simp add: trace_block_def Let_def)
  moreover have "printStackTrace stack s = Finished s3"
    unfolding printStackTrace_def 1(1) and_then.simps Let_def 2(1) 3(1) ..
  ultimately show ?thesis by blast
qed

text \<open>One round of the handshake: the thread prints its trace and the semaphore is back at zero.\<close>

lemma dump_one_ok:
  assumes "enough_writes (3 + k) (sg_writes s)" "runs tid" "sg_usr1 s = DumpHandler" "sg_sem s = Some 0"
  shows "\<exists>t. and_then (pthread_kill runs stack tid s) sem_wait = Finished t \<and>
    sg_wrote k (trace_block (stack tid)) (s\<lparr>sg_killed := sg_killed s @ [tid]\<rparr>) t"
proof -
  let ?s = "s\<lparr>sg_killed := sg_killed s @ [tid]\<rparr>"
  have "enough_writes (3 + k) (sg_writes ?s)" using assms(1) by simp
  from printStackTrace_ok [OF this, of "stack tid"] obtain t where
    t: "printStackTrace (stack tid) ?s = Finished t" "sg_wrote k (trace_block (stack tid)) ?s t" by blast
  have sem: "sg_sem t = Some 0" using sg_wroteD(4) [OF t(2)] assms(4) by simp
  have "and_then (pthread_kill runs stack tid s) sem_wait = Finished (t\<lparr>sg_sem := Some 0\<rparr>)"
    using assms(2,3) sem t(1) by (simp add: pthread_kill_def dumpStackHandler_def sem_wait_def Let_def)
  moreover have "t\<lparr>sg_sem := Some 0\<rparr> = t" using sem by simp
  ultimately show ?thesis using t(2) by simp
qed

lemma dump_others_ok:
  assumes "enough_writes (3 * length tids + k) (sg_writes s)" "\<forall>tid \<in> set tids. tid \<noteq> me \<longrightarrow> runs tid" "sg_usr1 s = DumpHandler" "sg_sem s = Some 0"
  shows "\<exists>t. dump_others runs stack me tids s = Finished t \<and>
    sg_wrote k (concat (map (trace_block \<circ> stack) (filter (\<lambda>tid. tid \<noteq> me) tids))) (s\<lparr>sg_killed := sg_killed s @ filter (\<lambda>tid. tid \<noteq> me) tids\<rparr>) t"
  using assms
proof (induction tids arbitrary: s)
  case Nil
  then have "sg_wrote k [] s (s\<lparr>sg_out := sg_out s @ [], sg_writes := sg_writes s, sg_errno := sg_errno s\<rparr>)"
    by (intro sg_wroteI) simp_all
  then show ?case by simp
next
  case (Cons tid tids)
  have less: "enough_writes (3 + (3 * length tids + k)) (sg_writes s)" using Cons.prems(1) by (simp add: algebra_simps)
  show ?case
  proof (cases "tid = me")
    case True
    have "enough_writes (3 * length tids + k) (sg_writes s)" using less by (simp add: enough_writes_def)
    from Cons.IH [OF this] Cons.prems(2-4) True show ?thesis by simp
  next
    case False
    obtain t where t: "and_then (pthread_kill runs stack tid s) sem_wait = Finished t"
        "sg_wrote (3 * length tids + k) (trace_block (stack tid)) (s\<lparr>sg_killed := sg_killed s @ [tid]\<rparr>) t"
      using dump_one_ok [OF less _ Cons.prems(3,4), of runs tid stack] Cons.prems(2) False by auto
    have "sg_usr1 t = DumpHandler" "sg_sem t = Some 0" "\<forall>tid \<in> set tids. tid \<noteq> me \<longrightarrow> runs tid"
      using sg_wroteD [OF t(2)] Cons.prems(2-4) by auto
    from Cons.IH [OF sg_wroteD(1) [OF t(2)] this(3,1,2)] obtain u where
      u: "dump_others runs stack me tids t = Finished u"
        "sg_wrote k (concat (map (trace_block \<circ> stack) (filter (\<lambda>tid. tid \<noteq> me) tids))) (t\<lparr>sg_killed := sg_killed t @ filter (\<lambda>tid. tid \<noteq> me) tids\<rparr>) u"
      by blast
    have "sg_wrote (3 * length tids + k) (trace_block (stack tid)) (s\<lparr>sg_killed := sg_killed s @ tid # filter (\<lambda>tid. tid \<noteq> me) tids\<rparr>)
        (t\<lparr>sg_killed := sg_killed t @ filter (\<lambda>tid. tid \<noteq> me) tids\<rparr>)"
      using sg_wrote_killed [OF t(2), of "sg_killed t @ filter (\<lambda>tid. tid \<noteq> me) tids"] sg_wroteD(5) [OF t(2)] by simp
    from sg_wrote_trans [OF this u(2)] show ?thesis using t(1) u(1) False by (auto simp: comp_def)
  qed
qed

lemma dump_others_blocked:
  assumes "enough_writes (3 * length tids + k) (sg_writes s)" "\<exists>tid \<in> set tids. tid \<noteq> me \<and> \<not> runs tid" "sg_usr1 s = DumpHandler" "sg_sem s = Some 0"
  shows "\<exists>t. dump_others runs stack me tids s = Blocked t \<and> sg_raised t = sg_raised s"
  using assms
proof (induction tids arbitrary: s)
  case (Cons tid tids)
  have less: "enough_writes (3 + (3 * length tids + k)) (sg_writes s)" using Cons.prems(1) by (simp add: algebra_simps)
  consider "tid = me" | "tid \<noteq> me" "\<not> runs tid" | "tid \<noteq> me" "runs tid" by blast
  then show ?case
  proof cases
    case 1
    have "enough_writes (3 * length tids + k) (sg_writes s)" using less by (simp add: enough_writes_def)
    from Cons.IH [OF this _ Cons.prems(3,4)] Cons.prems(2) 1 show ?thesis by simp
  next
    case 2
    then show ?thesis using Cons.prems(4) by (simp add: pthread_kill_def sem_wait_def Let_def)
  next
    case 3
    obtain t where t: "and_then (pthread_kill runs stack tid s) sem_wait = Finished t"
        "sg_wrote (3 * length tids + k) (trace_block (stack tid)) (s\<lparr>sg_killed := sg_killed s @ [tid]\<rparr>) t"
      using dump_one_ok [OF less _ Cons.prems(3,4), of runs tid stack] 3(2) by auto
    have "\<exists>tid \<in> set tids. tid \<noteq> me \<and> \<not> runs tid" using Cons.prems(2) 3 by auto
    moreover have "sg_usr1 t = DumpHandler" "sg_sem t = Some 0" "sg_raised t = sg_raised s" using sg_wroteD [OF t(2)] Cons.prems(3,4) by simp_all
    ultimately show ?thesis using Cons.IH [OF sg_wroteD(1) [OF t(2)]] t(1) 3 by simp
  qed
qed simp

lemma handler_front:
  assumes w: "enough_writes (4 + k) (sg_writes s)" and len: "length (got_signal sig) < MAX_ENTRY_SIZE"
  shows "\<exists>t. and_then (rawWrite (take (MAX_ENTRY_SIZE - 1) (got_signal sig)) (length (got_signal sig)) s) (printStackTrace stack) = Finished t \<and>
    sg_wrote k (got_signal sig @ trace_block stack) s t"
proof -
  have w1: "enough_writes (Suc (3 + k)) (sg_writes s)" using w by (simp add: eval_nat_numeral)
  have "\<exists>t. rawWrite (take (MAX_ENTRY_SIZE - 1) (got_signal sig)) (length (got_signal sig)) s = Finished t \<and> sg_wrote (3 + k) (got_signal sig) s t"
    by (rule rawWrite_ok [OF w1]) (use len in \<open>simp_all add: MAX_ENTRY_SIZE_def\<close>)
  then obtain t where t: "rawWrite (take (MAX_ENTRY_SIZE - 1) (got_signal sig)) (length (got_signal sig)) s = Finished t" "sg_wrote (3 + k) (got_signal sig) s t" by blast
  obtain u where u: "printStackTrace stack t = Finished u" "sg_wrote k (trace_block stack) t u" using printStackTrace_ok [OF sg_wroteD(1) [OF t(2)]] by blast
  show ?thesis using t(1) u(1) sg_wrote_trans [OF t(2) u(2)] by simp
qed

lemma and_then_assoc: "and_then m (\<lambda>x. and_then (f x) g) = and_then (and_then m f) g"
  by (cases m) simp_all

text \<open>
  C23. After \<open>installSignalHandler\<close>, whatever \<open>write\<close> returns (short writes and errors too, as long as
  it is not interrupted for ever): if every other registered thread still runs, the handler of a fatal
  signal sends \<open>SIGUSR1\<close> to each of them exactly once and the signal is raised again with its default
  action; and if \<open>write\<close> is only ever interrupted or complete, the standard error gets the trace of the
  crashing thread and then that of each other one, complete and not mixed with another's. If a thread
  that is still in the registry has ended, the handler waits for its trace for ever and the signal is
  not raised again.
\<close>

theorem fatalSignalHandler_dumps_all:
  assumes install: "installSignalHandler True True True s0 = Some s" and fresh: "sg_raised s0 = []" "sg_killed s0 = []" "sg_out s0 = []" "\<not> sg_in_progress s0"
    and writes: "enough_writes (3 * length tids + 4) (sg_writes s0)" and len: "length (got_signal sig) < MAX_ENTRY_SIZE"
    and tids: "distinct tids" "set tids = getAllThreadIDs r {}"
  shows "if \<forall>tid \<in> thread_ids r - {me}. runs tid
    then \<exists>t others. fatalSignalHandler runs stack me tids sig s = Finished t \<and> sg_killed t = others \<and> distinct others \<and> set others = thread_ids r - {me} \<and>
      (full_writes (sg_writes s0) \<longrightarrow> sg_out t = got_signal sig @ concat (map (trace_block \<circ> stack) (me # others))) \<and> sg_raised t = [sig] \<and> sg_segv t = SigDfl \<and> sg_sem t = None
    else \<exists>t. fatalSignalHandler runs stack me tids sig s = Blocked t \<and> sg_raised t = []"
proof -
  let ?s = "s\<lparr>sg_in_progress := True\<rparr>" and ?others = "filter (\<lambda>tid. tid \<noteq> me) tids"
  have s: "s = s0\<lparr>sg_sem := Some 0, sg_segv := FatalHandler, sg_usr1 := DumpHandler\<rparr>" using install by (simp add: installSignalHandler_def Let_def)
  have ids: "set tids = thread_ids r" using tids(2) by (simp add: getAllThreadIDs_def)
  have w: "enough_writes (4 + 3 * length tids) (sg_writes ?s)" using writes s by (simp add: add.commute)
  obtain t where t: "and_then (rawWrite (take (MAX_ENTRY_SIZE - 1) (got_signal sig)) (length (got_signal sig)) ?s) (printStackTrace (stack me)) = Finished t"
      "sg_wrote (3 * length tids) (got_signal sig @ trace_block (stack me)) ?s t"
    using handler_front [OF w len, of "stack me"] by blast
  have cw: "enough_writes (3 * length tids + 0) (sg_writes t)" and sem: "sg_usr1 t = DumpHandler" "sg_sem t = Some 0"
    using sg_wroteD [OF t(2)] s by simp_all
  have run: "fatalSignalHandler runs stack me tids sig s = and_then (dump_others runs stack me tids t)
      (\<lambda>s3. Finished (s3\<lparr>sg_sem := None, sg_segv := SigDfl, sg_raised := sg_raised s3 @ [sig]\<rparr>))"
    using s fresh(4) t(1) by (simp add: fatalSignalHandler_def Let_def and_then_assoc)
  show ?thesis
  proof (cases "\<forall>tid \<in> thread_ids r - {me}. runs tid")
    case True
    then have "\<forall>tid \<in> set tids. tid \<noteq> me \<longrightarrow> runs tid" using ids by auto
    from dump_others_ok [OF cw this sem, of stack] obtain u where
      u: "dump_others runs stack me tids t = Finished u" "sg_wrote 0 (concat (map (trace_block \<circ> stack) ?others)) (t\<lparr>sg_killed := sg_killed t @ ?others\<rparr>) u" by blast
    have "sg_killed u = ?others" "sg_raised u = []" "full_writes (sg_writes s0) \<longrightarrow> sg_out u = got_signal sig @ concat (map (trace_block \<circ> stack) (me # ?others))"
      using sg_wroteD [OF u(2)] sg_wroteD [OF t(2)] s fresh by simp_all
    then have "\<exists>t others. fatalSignalHandler runs stack me tids sig s = Finished t \<and> sg_killed t = others \<and> distinct others \<and> set others = thread_ids r - {me} \<and>
      (full_writes (sg_writes s0) \<longrightarrow> sg_out t = got_signal sig @ concat (map (trace_block \<circ> stack) (me # others))) \<and> sg_raised t = [sig] \<and> sg_segv t = SigDfl \<and> sg_sem t = None"
      using run u(1) ids tids(1) by (intro exI [of _ "u\<lparr>sg_sem := None, sg_segv := SigDfl, sg_raised := sg_raised u @ [sig]\<rparr>"] exI [of _ ?others]) auto
    then show ?thesis unfolding if_P [OF True] .
  next
    case False
    then have "\<exists>tid \<in> set tids. tid \<noteq> me \<and> \<not> runs tid" using ids by auto
    from dump_others_blocked [OF cw this sem, of stack] obtain u where "dump_others runs stack me tids t = Blocked u" "sg_raised u = sg_raised t" by blast
    then have "\<exists>t. fatalSignalHandler runs stack me tids sig s = Blocked t \<and> sg_raised t = []" using run sg_wroteD(6) [OF t(2)] s fresh by simp
    then show ?thesis unfolding if_not_P [OF False] .
  qed
qed

definition signals_fresh :: "io_write list \<Rightarrow> signals" where
  "signals_fresh ws = \<lparr>sg_out = [], sg_writes = ws, sg_errno = EOTHER, sg_in_progress = False, sg_sem = None, sg_killed = [], sg_raised = [],
     sg_segv = SigDfl, sg_usr1 = SigDfl\<rparr>"

lemma fatalSignalHandler_dumps_all_witness:
  "\<exists>t. fatalSignalHandler (\<lambda>tid. tid \<noteq> 2) (\<lambda>tid. []) 1 [1, 2] 11
     ((signals_fresh (WErr EINTR # replicate 10 (WDone 300)))\<lparr>sg_sem := Some 0, sg_segv := FatalHandler, sg_usr1 := DumpHandler\<rparr>) = Blocked t \<and> sg_raised t = []"
proof -
  let ?s0 = "signals_fresh (WErr EINTR # replicate 10 (WDone 300))"
  have install: "installSignalHandler True True True ?s0 = Some (?s0\<lparr>sg_sem := Some 0, sg_segv := FatalHandler, sg_usr1 := DumpHandler\<rparr>)"
    by (simp add: installSignalHandler_def Let_def)
  have w: "enough_writes (3 * length [1, 2 :: nat] + 4) (sg_writes ?s0)" by (simp add: enough_writes_def signals_fresh_def eval_nat_numeral)
  have len: "length (got_signal 11) < MAX_ENTRY_SIZE" by (simp add: got_signal_def MAX_ENTRY_SIZE_def show_nat.simps)
  have "set [1, 2 :: nat] = getAllThreadIDs \<lparr>thread_ids = {1, 2}\<rparr> {}" by (simp add: getAllThreadIDs_def)
  from fatalSignalHandler_dumps_all [OF install _ _ _ _ w len _ this, of 1 "\<lambda>tid. tid \<noteq> 2" "\<lambda>tid. []"]
  show ?thesis by (simp add: signals_fresh_def)
qed

end
