(* ===== verification/Lock_Tester.thy ===== *)
theory Lock_Tester
  imports Mcs_Lock
begin

text \<open>
  The program that uses the locks, \<open>LockTester\<close> of \<^verbatim>\<open>src/lock_benchmark.cpp\<close>: threads add to one unprotected counter inside
  the critical section of a lock, reading and writing it in separate steps, and \<open>Increments\<close> compares the result with the
  expected number. The lock is any that excludes; both spin locks are.
\<close>

section \<open>The program\<close>

text \<open>
  \<open>lt_lock\<close> is the state of the lock. Of each thread: \<open>lt_left\<close> its argument \<open>increments\<close>, \<open>lt_i\<close> the counter of the inner loop, and
  \<open>lt_reg\<close> the value of \<open>requests_\<close> it has read and not yet written back. The counters are unbounded integers; the code's are 32-bit
  ones, so that the model is about runs in which the total stays below \<open>2 ^ 31\<close>.
\<close>

record 's lock_tester =
  lt_lock :: 's
  requests :: int
  lt_left :: "nat \<Rightarrow> int"
  lt_i :: "nat \<Rightarrow> nat"
  lt_reg :: "nat \<Rightarrow> int option"

definition LockTester_start :: "'s \<Rightarrow> int \<Rightarrow> 's lock_tester" where
  "LockTester_start l increments =
     \<lparr>lt_lock = l, requests = 0, lt_left = (\<lambda>_. increments), lt_i = (\<lambda>_. 0), lt_reg = (\<lambda>_. None)\<rparr>"

text \<open>
  \<open>test\<close>, as run by the threads below \<open>n\<close>: \<open>move i\<close> is thread \<open>i\<close>'s next step inside \<open>lock\<close> or \<open>unlock\<close>, \<open>critical\<close> and \<open>idle\<close> tell where
  it is. A thread whose increments are used up and that is outside the lock has ended.
\<close>

inductive tester_step ::
    "(nat \<Rightarrow> 's \<Rightarrow> 's) \<Rightarrow> ('s \<Rightarrow> nat \<Rightarrow> bool) \<Rightarrow> ('s \<Rightarrow> nat \<Rightarrow> bool) \<Rightarrow> nat \<Rightarrow> nat \<Rightarrow> 's lock_tester \<Rightarrow> 's lock_tester \<Rightarrow> bool"
  for move :: "nat \<Rightarrow> 's \<Rightarrow> 's" and critical idle :: "'s \<Rightarrow> nat \<Rightarrow> bool" and n incstep :: nat where
  test_lock: "i < n \<Longrightarrow> \<not> critical (lt_lock s) i \<Longrightarrow> 0 < lt_left s i \<or> \<not> idle (lt_lock s) i \<Longrightarrow>
    tester_step move critical idle n incstep s (s\<lparr>lt_lock := move i (lt_lock s)\<rparr>)"
| test_read: "i < n \<Longrightarrow> critical (lt_lock s) i \<Longrightarrow> lt_i s i < incstep \<Longrightarrow> lt_reg s i = None \<Longrightarrow>
    tester_step move critical idle n incstep s (s\<lparr>lt_left := (lt_left s)(i := lt_left s i - 1), lt_reg := (lt_reg s)(i \<mapsto> requests s)\<rparr>)"
| test_write: "i < n \<Longrightarrow> critical (lt_lock s) i \<Longrightarrow> lt_reg s i = Some r \<Longrightarrow>
    tester_step move critical idle n incstep s
      (s\<lparr>requests := r + 1, lt_reg := (lt_reg s)(i := None), lt_i := (lt_i s)(i := lt_i s i + 1)\<rparr>)"
| test_unlock: "i < n \<Longrightarrow> critical (lt_lock s) i \<Longrightarrow> lt_i s i = incstep \<Longrightarrow> lt_reg s i = None \<Longrightarrow>
    tester_step move critical idle n incstep s (s\<lparr>lt_lock := move i (lt_lock s), lt_i := (lt_i s)(i := 0)\<rparr>)"

text \<open>After \<open>join\<close>.\<close>

definition all_joined :: "('s \<Rightarrow> nat \<Rightarrow> bool) \<Rightarrow> nat \<Rightarrow> 's lock_tester \<Rightarrow> bool" where
  "all_joined idle n s \<longleftrightarrow> (\<forall>i<n. lt_left s i \<le> 0 \<and> idle (lt_lock s) i)"

text \<open>The message of \<open>Increments\<close> when the count is wrong.\<close>

definition tasks_not_finished :: "int \<Rightarrow> nat \<Rightarrow> 's lock_tester \<Rightarrow> bool" where
  "tasks_not_finished incs n s \<longleftrightarrow> requests s \<noteq> incs * int n"

section \<open>What any lock gives\<close>

text \<open>What a thread has written so far.\<close>

definition written :: "int \<Rightarrow> 's lock_tester \<Rightarrow> nat \<Rightarrow> int" where
  "written incs s i = incs - lt_left s i - (if lt_reg s i = None then 0 else 1)"

text \<open>\<open>busy\<close>: the thread is inside \<open>lock\<close> or the critical section. It came there with increments left.\<close>

definition tester_inv :: "('s \<Rightarrow> nat \<Rightarrow> bool) \<Rightarrow> ('s \<Rightarrow> nat \<Rightarrow> bool) \<Rightarrow> int \<Rightarrow> nat \<Rightarrow> nat \<Rightarrow> 's lock_tester \<Rightarrow> bool" where
  "tester_inv critical busy incs n incstep s \<longleftrightarrow>
     requests s = (\<Sum>i<n. written incs s i) \<and>
     (\<forall>i r. lt_reg s i = Some r \<longrightarrow> r = requests s \<and> critical (lt_lock s) i \<and> lt_i s i < incstep) \<and>
     (\<forall>i. \<not> critical (lt_lock s) i \<longrightarrow> lt_i s i = 0) \<and>
     (\<forall>i. busy (lt_lock s) i \<longrightarrow> incs - written incs s i + int (lt_i s i) > 0) \<and>
     (\<forall>i. lt_i s i \<le> incstep \<and> int incstep dvd written incs s i - int (lt_i s i) \<and> written incs s i < incs + int incstep)"

lemma tester_invI:
  assumes "requests s = (\<Sum>i<n. written incs s i)"
    and "\<And>i r. lt_reg s i = Some r \<Longrightarrow> r = requests s \<and> critical (lt_lock s) i \<and> lt_i s i < incstep"
    and "\<And>i. \<not> critical (lt_lock s) i \<Longrightarrow> lt_i s i = 0"
    and "\<And>i. busy (lt_lock s) i \<Longrightarrow> incs - written incs s i + int (lt_i s i) > 0"
    and "\<And>i. lt_i s i \<le> incstep \<and> int incstep dvd written incs s i - int (lt_i s i) \<and> written incs s i < incs + int incstep"
  shows "tester_inv critical busy incs n incstep s"
  using assms unfolding tester_inv_def by blast

lemma tester_invD:
  assumes "tester_inv critical busy incs n incstep s"
  shows "requests s = (\<Sum>i<n. written incs s i)"
    and "lt_reg s i = Some r \<Longrightarrow> r = requests s \<and> critical (lt_lock s) i \<and> lt_i s i < incstep"
    and "\<not> critical (lt_lock s) i \<Longrightarrow> lt_i s i = 0"
    and "busy (lt_lock s) i \<Longrightarrow> incs - written incs s i + int (lt_i s i) > 0"
    and "lt_i s i \<le> incstep" "int incstep dvd written incs s i - int (lt_i s i)" "written incs s i < incs + int incstep"
  using assms unfolding tester_inv_def by blast+

lemma sum_written_upd:
  assumes "i < n" "\<And>j. j \<noteq> i \<Longrightarrow> written incs t j = written incs s j"
  shows "(\<Sum>j<n. written incs t j) = (\<Sum>j<n. written incs s j) + (written incs t i - written incs s i)"
proof -
  have "(\<Sum>j<n. written incs t j) = written incs t i + (\<Sum>j\<in>{..<n} - {i}. written incs t j)" using assms(1) by (subst sum.remove [of _ i]) auto
  moreover have "(\<Sum>j<n. written incs s j) = written incs s i + (\<Sum>j\<in>{..<n} - {i}. written incs s j)" using assms(1) by (subst sum.remove [of _ i]) auto
  moreover have "(\<Sum>j\<in>{..<n} - {i}. written incs t j) = (\<Sum>j\<in>{..<n} - {i}. written incs s j)" using assms(2) by (intro sum.cong) auto
  ultimately show ?thesis by simp
qed

locale excluding_lock = mutual_exclusion start step invar critical
  for start :: "'s \<Rightarrow> bool" and step :: "'s \<Rightarrow> 's \<Rightarrow> bool" and invar :: "'s \<Rightarrow> bool" and critical :: "'s \<Rightarrow> nat \<Rightarrow> bool" +
  fixes move :: "nat \<Rightarrow> 's \<Rightarrow> 's" and idle busy :: "'s \<Rightarrow> nat \<Rightarrow> bool"
  assumes move_step: "step s (move i s)"
    and move_other: "j \<noteq> i \<Longrightarrow> critical (move i s) j = critical s j" "j \<noteq> i \<Longrightarrow> busy (move i s) j = busy s j"
    and move_enters: "busy (move i s) i \<Longrightarrow> idle s i \<or> busy s i \<and> \<not> critical s i"
    and critical_busy: "critical s i \<Longrightarrow> busy s i"
    and idle_outside: "idle s i \<Longrightarrow> \<not> busy s i"
    and start_idle: "start s \<Longrightarrow> idle s i"
begin

text \<open>A step of thread \<open>i\<close> concerns what \<open>i\<close> has written only, and nobody else holds a value of the counter meanwhile.\<close>

lemma tester_keeps:
  assumes lock: "invar (lt_lock s)" and inv: "tester_inv critical busy incs n incstep s"
    and step: "tester_step move critical idle n incstep s t"
  shows "tester_inv critical busy incs n incstep t"
  using step
proof cases
  case (test_lock i)
  have w: "written incs t j = written incs s j" for j using test_lock(1) by (simp add: written_def)
  have noreg: "lt_reg s i = None" using tester_invD(2) [OF inv, of i] test_lock(3) by (cases "lt_reg s i") auto
  have noi: "lt_i s i = 0" by (rule tester_invD(3) [OF inv test_lock(3)])
  show ?thesis
  proof (rule tester_invI)
    show "requests t = (\<Sum>j<n. written incs t j)" using tester_invD(1) [OF inv] w test_lock(1) by simp
    show "r = requests t \<and> critical (lt_lock t) j \<and> lt_i t j < incstep" if "lt_reg t j = Some r" for j r
      using tester_invD(2) [OF inv, of j r] that noreg move_other(1) [of j i] test_lock(1) by (cases "j = i") auto
    show "lt_i t j = 0" if "\<not> critical (lt_lock t) j" for j
      using tester_invD(3) [OF inv, of j] that noi move_other(1) [of j i] test_lock(1) by (cases "j = i") auto
    show "incs - written incs t j + int (lt_i t j) > 0" if b: "busy (lt_lock t) j" for j
    proof (cases "j = i")
      case True
      then have "0 < lt_left s i \<or> busy (lt_lock s) i" using move_enters [of i "lt_lock s"] b test_lock by auto
      then show ?thesis using tester_invD(4) [OF inv, of i] True w test_lock(1) noreg noi by (auto simp: written_def)
    next
      case False
      then show ?thesis using tester_invD(4) [OF inv, of j] b w move_other(2) [OF False] test_lock(1) by simp
    qed
    show "lt_i t j \<le> incstep \<and> int incstep dvd written incs t j - int (lt_i t j) \<and> written incs t j < incs + int incstep" for j
      using tester_invD(5-7) [OF inv, of j] w test_lock(1) by simp
  qed
next
  case (test_read i)
  have w: "written incs t j = written incs s j" for j using test_read(1,5) by (auto simp: written_def)
  show ?thesis
  proof (rule tester_invI)
    show "requests t = (\<Sum>j<n. written incs t j)" using tester_invD(1) [OF inv] w test_read(1) by simp
    show "r = requests t \<and> critical (lt_lock t) j \<and> lt_i t j < incstep" if "lt_reg t j = Some r" for j r
      using tester_invD(2) [OF inv, of j r] that test_read by (cases "j = i") auto
  qed (use tester_invD(3-7) [OF inv] w test_read(1) in auto)
next
  case (test_write i r)
  have r: "r = requests s" "lt_i s i < incstep" using tester_invD(2) [OF inv test_write(4)] by simp_all
  have other: "lt_reg s j = None" if "j \<noteq> i" for j
    using tester_invD(2) [OF inv, of j] one_critical [OF lock test_write(3), of j] that by (cases "lt_reg s j") auto
  have w: "written incs t i = written incs s i + 1" "\<And>j. j \<noteq> i \<Longrightarrow> written incs t j = written incs s j"
    using test_write(1,4) by (auto simp: written_def)
  have b: "incs - written incs s i + int (lt_i s i) > 0" by (rule tester_invD(4) [OF inv critical_busy [OF test_write(3)]])
  show ?thesis
  proof (rule tester_invI)
    show "requests t = (\<Sum>j<n. written incs t j)"
      using sum_written_upd [OF test_write(2) w(2)] w(1) tester_invD(1) [OF inv] r test_write(1) by simp
    show "v = requests t \<and> critical (lt_lock t) j \<and> lt_i t j < incstep" if "lt_reg t j = Some v" for j v
      using that other [of j] test_write(1) by (auto split: if_splits)
    show "lt_i t j = 0" if "\<not> critical (lt_lock t) j" for j
      using tester_invD(3) [OF inv, of j] that test_write(1,3) by (auto split: if_splits)
    show "incs - written incs t j + int (lt_i t j) > 0" if "busy (lt_lock t) j" for j
      using tester_invD(4) [OF inv, of j] that b w test_write(1) by (cases "j = i") auto
    show "lt_i t j \<le> incstep \<and> int incstep dvd written incs t j - int (lt_i t j) \<and> written incs t j < incs + int incstep" for j
      using tester_invD(5-7) [OF inv, of j] b r(2) w test_write(1) by (cases "j = i") auto
  qed
next
  case (test_unlock i)
  have w: "written incs t j = written incs s j" for j using test_unlock(1) by (simp add: written_def)
  have left: "\<not> busy (move i (lt_lock s)) i"
    using move_enters [of i "lt_lock s"] idle_outside [of "lt_lock s" i] critical_busy [OF test_unlock(3)] test_unlock(3) by blast
  show ?thesis
  proof (rule tester_invI)
    show "requests t = (\<Sum>j<n. written incs t j)" using tester_invD(1) [OF inv] w test_unlock(1) by simp
    show "r = requests t \<and> critical (lt_lock t) j \<and> lt_i t j < incstep" if "lt_reg t j = Some r" for j r
      using tester_invD(2) [OF inv, of j r] that move_other(1) [of j i] test_unlock(1,5) by (cases "j = i") auto
    show "lt_i t j = 0" if "\<not> critical (lt_lock t) j" for j
      using tester_invD(3) [OF inv, of j] that move_other(1) [of j i] test_unlock(1) by (cases "j = i") auto
    show "incs - written incs t j + int (lt_i t j) > 0" if "busy (lt_lock t) j" for j
      using tester_invD(4) [OF inv, of j] that left w move_other(2) [of j i] test_unlock(1) by (cases "j = i") auto
    show "lt_i t j \<le> incstep \<and> int incstep dvd written incs t j - int (lt_i t j) \<and> written incs t j < incs + int incstep" for j
    proof (cases "j = i")
      case True
      have "int incstep dvd written incs s i - int incstep" using tester_invD(6) [OF inv, of i] test_unlock(4) by simp
      from dvd_add [OF this dvd_refl] have "int incstep dvd written incs s i" by simp
      then show ?thesis using True tester_invD(7) [OF inv, of i] w test_unlock(1) by simp
    next
      case False
      then show ?thesis using tester_invD(5-7) [OF inv, of j] w test_unlock(1) by simp
    qed
  qed
qed

lemma tester_lock_step:
  assumes "tester_step move critical idle n incstep s t" "invar (lt_lock s)"
  shows "invar (lt_lock t)"
  using assms(1) by cases (use assms(2) step_invar [OF move_step] in auto)

lemma tester_start:
  assumes "start l" "0 \<le> incs" "0 < incstep"
  shows "invar l \<and> tester_inv critical busy incs n incstep (LockTester_start l incs)"
proof
  show "invar l" by (rule start_invar [OF assms(1)])
  have "\<not> busy l i" for i using idle_outside [OF start_idle [OF assms(1)]] .
  then show "tester_inv critical busy incs n incstep (LockTester_start l incs)"
    using assms(2,3) by (intro tester_invI) (auto simp: LockTester_start_def written_def)
qed

lemma tester_reach:
  assumes "reach (\<lambda>s. \<exists>l. start l \<and> s = LockTester_start l incs) (tester_step move critical idle n incstep) s" "0 \<le> incs" "0 < incstep"
  shows "invar (lt_lock s) \<and> tester_inv critical busy incs n incstep s"
  using assms(1)
proof (induction rule: reach.induct)
  case (reach_start s)
  then obtain l where "start l" "s = LockTester_start l incs" by blast
  then show ?case using tester_start [OF _ assms(2,3)] by (auto simp: LockTester_start_def)
next
  case (reach_step s t)
  then show ?case using tester_keeps [OF _ _ reach_step(2)] tester_lock_step [OF reach_step(2)] by blast
qed

text \<open>The count after all threads have ended: each thread does whole rounds until its increments are used up.\<close>

lemma tester_count:
  assumes inv: "tester_inv critical busy incs n incstep s" and step: "0 < incstep" and joined: "all_joined idle n s"
  shows "requests s = int n * (int incstep * ((incs + int incstep - 1) div int incstep))"
proof -
  have "written incs s i = int incstep * ((incs + int incstep - 1) div int incstep)" if "i < n" for i
  proof -
    have "lt_left s i \<le> 0" "idle (lt_lock s) i" using joined that by (simp_all add: all_joined_def)
    moreover from this(2) have out: "\<not> critical (lt_lock s) i" using idle_outside critical_busy by blast
    moreover have "lt_i s i = 0" "lt_reg s i = None" using tester_invD(2,3) [OF inv, of i] out by (auto, cases "lt_reg s i") auto
    ultimately have w: "incs \<le> written incs s i" "int incstep dvd written incs s i" "written incs s i < incs + int incstep"
      using tester_invD(6,7) [OF inv, of i] by (simp_all add: written_def)
    then obtain k where k: "written incs s i = int incstep * k" by blast
    have "(incs + int incstep - 1) div int incstep = k"
      using w(1,3) step unfolding k by (intro int_div_pos_eq [of _ _ _ "incs + int incstep - 1 - int incstep * k"]) auto
    then show ?thesis using k by simp
  qed
  then show ?thesis using tester_invD(1) [OF inv] by simp
qed

text \<open>So the benchmark's own check succeeds exactly when a round divides the increments.\<close>

lemma tester_check:
  assumes "requests s = int n * (int incstep * ((incs + int incstep - 1) div int incstep))" "0 < incstep" "0 < n" "0 \<le> incs"
  shows "tasks_not_finished incs n s \<longleftrightarrow> \<not> int incstep dvd incs"
proof -
  have "int incstep * ((incs + int incstep - 1) div int incstep) = incs \<longleftrightarrow> int incstep dvd incs"
  proof
    assume "int incstep dvd incs"
    then obtain k where k: "incs = int incstep * k" by blast
    have "(incs + int incstep - 1) div int incstep = k" using assms(2) unfolding k by (intro int_div_pos_eq [of _ _ _ "int incstep - 1"]) auto
    then show "int incstep * ((incs + int incstep - 1) div int incstep) = incs" using k by simp
  qed (metis dvd_triv_left)
  then show ?thesis using assms(1,3) by (simp add: tasks_not_finished_def mult.commute)
qed

end

section \<open>Both spin locks\<close>

definition spin_idle :: "spinlock \<Rightarrow> nat \<Rightarrow> bool" where
  "spin_idle s i \<longleftrightarrow> sl_pc s i = SlIdle"

definition spin_critical :: "spinlock \<Rightarrow> nat \<Rightarrow> bool" where
  "spin_critical s i \<longleftrightarrow> sl_pc s i = SlCritical"

interpretation spin_test: excluding_lock spin_start spin_step spin_inv spin_critical Spinlock_step spin_idle "\<lambda>s i. sl_pc s i \<noteq> SlIdle"
proof unfold_locales
  show "spin_critical s i \<Longrightarrow> spin_critical s j \<Longrightarrow> i = j" if "spin_inv s" for s i j using spin.one_critical [OF that] by (simp add: spin_critical_def)
  show "spin_step s (Spinlock_step i s)" for s i by (auto simp: spin_step_def)
  show "spin_critical (Spinlock_step i s) j = spin_critical s j" "(sl_pc (Spinlock_step i s) j \<noteq> SlIdle) = (sl_pc s j \<noteq> SlIdle)" if "j \<noteq> i" for s i j
    using that by (cases "sl_pc s i"; simp add: spin_critical_def Spinlock_step_def test_and_set_def)+
  show "spin_idle s i \<or> sl_pc s i \<noteq> SlIdle \<and> \<not> spin_critical s i" if "sl_pc (Spinlock_step i s) i \<noteq> SlIdle" for s i
    using that by (cases "sl_pc s i") (simp_all add: spin_idle_def spin_critical_def Spinlock_step_def)
qed (auto simp: spin_critical_def spin_idle_def spin_start_def Spinlock_new_def)

definition mcs_idle :: "mcs \<Rightarrow> nat \<Rightarrow> bool" where
  "mcs_idle s i \<longleftrightarrow> mc_pc s i = McIdle"

definition mcs_critical :: "mcs \<Rightarrow> nat \<Rightarrow> bool" where
  "mcs_critical s i \<longleftrightarrow> mc_pc s i = McCritical"

definition mcs_leaving :: "mcs \<Rightarrow> nat \<Rightarrow> bool" where
  "mcs_leaving s i \<longleftrightarrow> mc_pc s i = McReadNext \<or> mc_pc s i = McCas \<or> mc_pc s i = McAwaitNext \<or> mc_pc s i = McHandOver"

text \<open>The next step of a thread, in \<open>lock\<close> or in \<open>unlock\<close>.\<close>

definition Spinlock_mcs_step :: "nat \<Rightarrow> mcs \<Rightarrow> mcs" where
  "Spinlock_mcs_step i s = (if mcs_critical s i \<or> mcs_leaving s i then mcs_unlock_step i s else mcs_lock_step i s)"

interpretation mcs_test: excluding_lock mcs_start mcs_step mcs_inv mcs_critical Spinlock_mcs_step mcs_idle "\<lambda>s i. \<not> mcs_idle s i \<and> \<not> mcs_leaving s i"
proof unfold_locales
  show "mcs_critical s i \<Longrightarrow> mcs_critical s j \<Longrightarrow> i = j" if "mcs_inv s" for s i j using mcs.one_critical [OF that] by (simp add: mcs_critical_def)
  show "mcs_step s (Spinlock_mcs_step i s)" for s i by (auto simp: mcs_step_def Spinlock_mcs_step_def)
  have other: "mc_pc (Spinlock_mcs_step i s) j = mc_pc s j" if "j \<noteq> i" for s i j
    using that by (cases "mc_pc s i") (auto simp: Spinlock_mcs_step_def mcs_critical_def mcs_leaving_def mcs_lock_step_def mcs_unlock_step_def goto_def split: option.split)
  show "mcs_critical (Spinlock_mcs_step i s) j = mcs_critical s j"
      "(\<not> mcs_idle (Spinlock_mcs_step i s) j \<and> \<not> mcs_leaving (Spinlock_mcs_step i s) j) = (\<not> mcs_idle s j \<and> \<not> mcs_leaving s j)" if "j \<noteq> i" for s i j
    using other [OF that, of s] by (simp_all add: mcs_critical_def mcs_idle_def mcs_leaving_def)
  show "mcs_idle s i \<or> (\<not> mcs_idle s i \<and> \<not> mcs_leaving s i) \<and> \<not> mcs_critical s i"
    if "\<not> mcs_idle (Spinlock_mcs_step i s) i \<and> \<not> mcs_leaving (Spinlock_mcs_step i s) i" for s i
    using that by (cases "mc_pc s i")
      (auto simp: Spinlock_mcs_step_def mcs_critical_def mcs_leaving_def mcs_idle_def mcs_unlock_step_def goto_def split: option.splits if_splits)
qed (auto simp: mcs_critical_def mcs_idle_def mcs_leaving_def mcs_start_def Spinlock_mcs_new_def)

text \<open>The machines of the two benchmarks.\<close>

definition spin_tester :: "nat \<Rightarrow> nat \<Rightarrow> spinlock lock_tester \<Rightarrow> spinlock lock_tester \<Rightarrow> bool" where
  "spin_tester n incstep = tester_step Spinlock_step spin_critical spin_idle n incstep"

definition mcs_tester :: "nat \<Rightarrow> nat \<Rightarrow> mcs lock_tester \<Rightarrow> mcs lock_tester \<Rightarrow> bool" where
  "mcs_tester n incstep = tester_step Spinlock_mcs_step mcs_critical mcs_idle n incstep"

text \<open>
  C24. The lock benchmark with \<open>n\<close> threads on either spin lock, in every interleaving of the lock's accesses with the separate
  reads and writes of the shared counter: when all threads have ended, no addition was lost. The counter is \<open>n\<close> times the increments
  rounded up to whole rounds, so the benchmark reports an error exactly when a round does not divide the increments. (The total is one that the code's
  32-bit counter can hold.)
\<close>

theorem LockTester_counts:
  assumes "0 < incstep" "0 \<le> incs" "0 < n"
    and "reach (\<lambda>s. \<exists>l. spin_start l \<and> s = LockTester_start l incs) (spin_tester n incstep) s" "all_joined spin_idle n s"
    and "reach (\<lambda>s. \<exists>l. mcs_start l \<and> s = LockTester_start l incs) (mcs_tester n incstep) t" "all_joined mcs_idle n t"
  shows "requests s = int n * (int incstep * ((incs + int incstep - 1) div int incstep)) \<and> requests t = requests s \<and>
    (tasks_not_finished incs n s \<longleftrightarrow> \<not> int incstep dvd incs) \<and> (tasks_not_finished incs n t \<longleftrightarrow> \<not> int incstep dvd incs)"
proof -
  have s: "requests s = int n * (int incstep * ((incs + int incstep - 1) div int incstep))"
    using spin_test.tester_count [OF _ assms(1,5)] spin_test.tester_reach [OF assms(4) [unfolded spin_tester_def] assms(2,1)] by blast
  have t: "requests t = int n * (int incstep * ((incs + int incstep - 1) div int incstep))"
    using mcs_test.tester_count [OF _ assms(1,7)] mcs_test.tester_reach [OF assms(6) [unfolded mcs_tester_def] assms(2,1)] by blast
  show ?thesis using s t spin_test.tester_check [OF s assms(1,3,2)] mcs_test.tester_check [OF t assms(1,3,2)] by simp
qed

text \<open>One thread that adds one.\<close>

lemma lock_moves:
  assumes "reach start (tester_step move critical idle n incstep) s" "i < n" "0 < lt_left s i"
    and "\<forall>j<k. \<not> critical ((move i ^^ j) (lt_lock s)) i"
  shows "reach start (tester_step move critical idle n incstep) (s\<lparr>lt_lock := (move i ^^ k) (lt_lock s)\<rparr>)"
  using assms(4)
proof (induction k)
  case 0
  then show ?case using assms(1) by simp
next
  case (Suc k)
  let ?s = "s\<lparr>lt_lock := (move i ^^ k) (lt_lock s)\<rparr>"
  have "tester_step move critical idle n incstep ?s (?s\<lparr>lt_lock := move i (lt_lock ?s)\<rparr>)"
    by (rule test_lock [OF assms(2)]) (use assms(3) Suc.prems in simp_all)
  then show ?case using reach_step [OF Suc.IH, of "?s\<lparr>lt_lock := move i (lt_lock ?s)\<rparr>"] Suc.prems by simp
qed

lemma lock_round:
  assumes r: "reach start (tester_step move critical idle n 1) s" and i: "i < n" "critical (lt_lock s) i" "lt_i s i = 0" "lt_reg s i = None"
  shows "reach start (tester_step move critical idle n 1)
    (s\<lparr>lt_lock := move i (lt_lock s), requests := requests s + 1, lt_left := (lt_left s)(i := lt_left s i - 1)\<rparr>)" (is "reach _ _ ?end")
proof -
  let ?loaded = "s\<lparr>lt_left := (lt_left s)(i := lt_left s i - 1), lt_reg := (lt_reg s)(i \<mapsto> requests s)\<rparr>"
  let ?stored = "?loaded\<lparr>requests := requests s + 1, lt_reg := (lt_reg ?loaded)(i := None), lt_i := (lt_i ?loaded)(i := lt_i ?loaded i + 1)\<rparr>"
  have "tester_step move critical idle n 1 s ?loaded" by (rule test_read) (use i in simp_all)
  with r have "reach start (tester_step move critical idle n 1) ?loaded" by (rule reach_step)
  moreover have "tester_step move critical idle n 1 ?loaded ?stored" by (rule test_write) (use i in simp_all)
  ultimately have "reach start (tester_step move critical idle n 1) ?stored" by (rule reach_step)
  moreover have "tester_step move critical idle n 1 ?stored (?stored\<lparr>lt_lock := move i (lt_lock ?stored), lt_i := (lt_i ?stored)(i := 0)\<rparr>)"
    by (rule test_unlock) (use i in simp_all)
  ultimately have "reach start (tester_step move critical idle n 1) (?stored\<lparr>lt_lock := move i (lt_lock ?stored), lt_i := (lt_i ?stored)(i := 0)\<rparr>)"
    by (rule reach_step)
  moreover have "?stored\<lparr>lt_lock := move i (lt_lock ?stored), lt_i := (lt_i ?stored)(i := 0)\<rparr> = ?end" using i by (simp add: fun_upd_idem)
  ultimately show ?thesis by simp
qed

lemma spin_demo:
  "\<exists>s. reach (\<lambda>s. \<exists>l. spin_start l \<and> s = LockTester_start l 1) (spin_tester 1 1) s \<and> all_joined spin_idle 1 s"
proof -
  let ?start = "\<lambda>s. \<exists>l. spin_start l \<and> s = LockTester_start l 1"
  let ?s = "LockTester_start Spinlock_new 1"
  let ?l = "(Spinlock_step 0 ^^ 3) Spinlock_new"
  have "reach ?start (tester_step Spinlock_step spin_critical spin_idle 1 1) ?s" by (rule reach_start) (auto simp: spin_start_def)
  then have "reach ?start (tester_step Spinlock_step spin_critical spin_idle 1 1) (?s\<lparr>lt_lock := (Spinlock_step 0 ^^ 3) (lt_lock ?s)\<rparr>)"
    by (rule lock_moves) (auto simp: LockTester_start_def less_Suc_eq numeral_3_eq_3 spin_critical_def Spinlock_step_def Spinlock_new_def)
  moreover have "spin_critical ?l 0" by (simp add: numeral_3_eq_3 spin_critical_def Spinlock_step_def Spinlock_new_def test_and_set_def)
  ultimately have "reach ?start (tester_step Spinlock_step spin_critical spin_idle 1 1)
      (?s\<lparr>lt_lock := Spinlock_step 0 ?l, requests := 1, lt_left := (lt_left ?s)(0 := 0)\<rparr>)"
    using lock_round [of ?start Spinlock_step spin_critical spin_idle 1 "?s\<lparr>lt_lock := ?l\<rparr>" 0] by (simp add: LockTester_start_def)
  moreover have "all_joined spin_idle 1 (?s\<lparr>lt_lock := Spinlock_step 0 ?l, requests := 1, lt_left := (lt_left ?s)(0 := 0)\<rparr>)"
    using \<open>spin_critical ?l 0\<close> by (simp add: all_joined_def spin_idle_def spin_critical_def Spinlock_step_def [of 0 ?l])
  ultimately show ?thesis unfolding spin_tester_def by blast
qed

lemma mcs_demo:
  "\<exists>s. reach (\<lambda>s. \<exists>l. mcs_start l \<and> s = LockTester_start l 1) (mcs_tester 1 1) s \<and> all_joined mcs_idle 1 s"
proof -
  let ?start = "\<lambda>s. \<exists>l. mcs_start l \<and> s = LockTester_start l 1" and ?step = "tester_step Spinlock_mcs_step mcs_critical mcs_idle 1 1"
  let ?s = "LockTester_start Spinlock_mcs_new 1"
  let ?l = "Spinlock_mcs_new\<lparr>mc_tail := Some 0, mc_pc := (\<lambda>_. McIdle)(0 := McCritical)\<rparr>"
  note simps = Spinlock_mcs_step_def mcs_critical_def mcs_leaving_def mcs_idle_def mcs_lock_step_def mcs_unlock_step_def goto_def Spinlock_mcs_new_def
  have l: "(Spinlock_mcs_step 0 ^^ 3) Spinlock_mcs_new = ?l" by (simp add: numeral_3_eq_3 simps)
  have "reach ?start ?step ?s" by (rule reach_start) (auto simp: mcs_start_def)
  then have "reach ?start ?step (?s\<lparr>lt_lock := (Spinlock_mcs_step 0 ^^ 3) (lt_lock ?s)\<rparr>)"
    by (rule lock_moves) (auto simp: LockTester_start_def less_Suc_eq numeral_3_eq_3 simps)
  then have r: "reach ?start ?step (?s\<lparr>lt_lock := ?l\<rparr>)" using l by (simp add: LockTester_start_def)
  define u where "u = ?s\<lparr>lt_lock := Spinlock_mcs_step 0 ?l, requests := 1, lt_left := (lt_left ?s)(0 := 0)\<rparr>"
  have u: "reach ?start ?step u"
    using lock_round [OF r, of 0] by (simp add: LockTester_start_def simps u_def)
  define v where "v = u\<lparr>lt_lock := Spinlock_mcs_step 0 (lt_lock u)\<rparr>"
  have "reach ?start ?step v" unfolding v_def by (rule reach_step [OF u], rule test_lock) (simp_all add: u_def simps)
  then have "reach ?start ?step (v\<lparr>lt_lock := Spinlock_mcs_step 0 (lt_lock v)\<rparr>)"
    by (rule reach_step, intro test_lock) (simp_all add: u_def v_def simps)
  moreover have "all_joined mcs_idle 1 (v\<lparr>lt_lock := Spinlock_mcs_step 0 (lt_lock v)\<rparr>)" by (simp add: all_joined_def u_def v_def simps)
  ultimately show ?thesis unfolding mcs_tester_def by blast
qed

theorem LockTester_counts_witness:
  "\<exists>s t. all_joined spin_idle 1 s \<and> all_joined mcs_idle 1 t \<and> requests s = 1 \<and> requests t = 1 \<and> \<not> tasks_not_finished 1 1 s"
proof -
  obtain s t where "reach (\<lambda>s. \<exists>l. spin_start l \<and> s = LockTester_start l 1) (spin_tester 1 1) s" "all_joined spin_idle 1 s"
      "reach (\<lambda>s. \<exists>l. mcs_start l \<and> s = LockTester_start l 1) (mcs_tester 1 1) t" "all_joined mcs_idle 1 t"
    using spin_demo mcs_demo by blast
  from LockTester_counts [OF _ _ _ this] this(2,4) show ?thesis by (intro exI [of _ s] exI [of _ t]) simp
qed

end
