(* ===== verification/Client_Loop.thy ===== *)
theory Client_Loop
  imports Client_Connection
begin

text \<open>
  The load generators of \<^verbatim>\<open>src/client_async.cpp\<close> and \<^verbatim>\<open>src/kv_benchmark.cpp\<close>: a \<open>Client\<close> sends a request, and each response makes it
  schedule the next one, by a timer or a task. Reader, writer and each scheduled request hold a reference of the connection;
  the operations on the connection are those of \<open>Connection\<close> and \<open>Client_Connection\<close>. Using a deleted connection sets \<open>lp_fault\<close>.
\<close>

section \<open>State and operations\<close>

text \<open>\<open>lp_pending\<close> counts the requests scheduled, \<open>lp_leaked\<close> the references acquired for requests that were not scheduled after all.\<close>

record client_loop =
  lp_client :: "unit client"
  lp_pending :: nat
  lp_counter :: nat
  lp_leaked :: nat
  lp_fault :: bool

abbreviation lp_conn :: "client_loop \<Rightarrow> connection" where
  "lp_conn s \<equiv> cl_conn (lp_client s)"

definition set_conn :: "connection \<Rightarrow> client_loop \<Rightarrow> client_loop" where
  "set_conn c s = s\<lparr>lp_client := (lp_client s)\<lparr>cl_conn := c\<rparr>\<rparr>"

definition on_conn :: "(client_loop \<Rightarrow> client_loop) \<Rightarrow> client_loop \<Rightarrow> client_loop" where
  "on_conn f s = (if deleted (lp_conn s) then s\<lparr>lp_fault := True\<rparr> else f s)"

definition conn_acquire :: "client_loop \<Rightarrow> client_loop" where
  "conn_acquire = on_conn (\<lambda>s. set_conn (acquire (lp_conn s)) s)"

definition conn_release :: "client_loop \<Rightarrow> client_loop" where
  "conn_release = on_conn (\<lambda>s. set_conn (release (lp_conn s)) s)"

definition doRequest :: "request \<Rightarrow> client_loop \<Rightarrow> client_loop" where
  "doRequest r s = conn_release (on_conn (\<lambda>s. if \<not> conn_ok (lp_conn s) then s else s\<lparr>lp_client := HTTPClient_asyncSend r () (lp_client s)\<rparr>) s)"

definition client_start :: "request \<Rightarrow> client_loop \<Rightarrow> client_loop" where
  "client_start r = on_conn (\<lambda>s. if \<not> conn_ok (lp_conn s) then s else doRequest r (conn_acquire s))"

definition requestDone :: "client_loop \<Rightarrow> client_loop" where
  "requestDone = on_conn (\<lambda>s. if \<not> conn_ok (lp_conn s) then s else (let s1 = conn_acquire s in s1\<lparr>lp_pending := lp_pending s1 + 1\<rparr>))"

text \<open>The benchmark counts the responses, and schedules nothing once the I/O manager is stopped.\<close>

definition kv_requestDone :: "bool \<Rightarrow> client_loop \<Rightarrow> client_loop" where
  "kv_requestDone stopped =
     on_conn (\<lambda>s. if \<not> conn_ok (lp_conn s) then s
       else (let s1 = conn_acquire s;
                 s2 = s1\<lparr>lp_counter := lp_counter s1 + 1\<rparr>
             in if \<not> stopped then s2\<lparr>lp_pending := lp_pending s2 + 1\<rparr> else s2\<lparr>lp_leaked := lp_leaked s2 + 1\<rparr>))"

text \<open>The fixed requests of the two programs.\<close>

definition async_request :: request where
  "async_request = \<lparr>req_method = ''GET'', req_address = ''/index.html'', req_version = ''HTTP/1.1''\<rparr>"

definition bench_request :: request where
  "bench_request = \<lparr>req_method = ''GET'', req_address = ''/12'', req_version = ''KV/1.1''\<rparr>"

text \<open>The methods of the benchmark's client.\<close>

definition bench_doRequest :: "client_loop \<Rightarrow> client_loop" where
  "bench_doRequest = doRequest bench_request"

definition bench_start :: "client_loop \<Rightarrow> client_loop" where
  "bench_start = on_conn (\<lambda>s. if \<not> conn_ok (lp_conn s) then s else bench_doRequest (conn_acquire s))"

lemma bench_is_loop: "bench_start = client_start bench_request"
  unfolding bench_start_def client_start_def bench_doRequest_def ..

section \<open>The connection's side\<close>

text \<open>
  What \<open>doRead\<close> does to the references and the callbacks: the waiting reader wakes, hands each response to the callback, waits again unless the
  connection ended, and releases. How many responses there are and whether it waits again is left open (\<open>Connection\<close> and \<open>Client_Connection\<close>
  have the loop with its bytes), so that every run of \<open>doRead\<close> is one of these steps.
\<close>

definition reader_step :: "(client_loop \<Rightarrow> client_loop) list \<Rightarrow> bool \<Rightarrow> client_loop \<Rightarrow> client_loop" where
  "reader_step dones again s =
     (let s1 = on_conn (\<lambda>s. set_conn ((lp_conn s)\<lparr>read_waits := read_waits (lp_conn s) - 1\<rparr>) s) s;
          s2 = fold (\<lambda>f. f) dones s1;
          s3 = (if again then on_conn (\<lambda>s. set_conn (readWhenReady (acquire (lp_conn s))) s) s2 else s2)
      in conn_release s3)"

definition writer_step :: "client_loop \<Rightarrow> client_loop" where
  "writer_step = on_conn (\<lambda>s. set_conn (doWrite ((lp_conn s)\<lparr>write_waits := write_waits (lp_conn s) - 1\<rparr>)) s)"

text \<open>The end of \<open>doConnect\<close> when the connection was established: \<open>startRead\<close>, the callback \<open>start\<close>, \<open>release\<close>.\<close>

definition loop_connected :: "request \<Rightarrow> connection \<Rightarrow> client_loop" where
  "loop_connected r c =
     conn_release (client_start r
       \<lparr>lp_client = \<lparr>cl_conn = startRead c, response_cbs = [], delivered = [], connect_calls = []\<rparr>,
        lp_pending = 0, lp_counter = 0, lp_leaked = 0, lp_fault = False\<rparr>)"

definition loop_start :: "request \<Rightarrow> client_loop \<Rightarrow> bool" where
  "loop_start r s \<longleftrightarrow> (\<exists>c. conn_inv c \<and> conn_ok c \<and> conn_live c \<and> refs c = 1 \<and> read_waits c = 0 \<and> write_waits c = 0 \<and> s = loop_connected r c)"

inductive loop_step :: "request \<Rightarrow> client_loop \<Rightarrow> client_loop \<Rightarrow> bool" for r :: request where
  loop_read: "0 < read_waits (lp_conn s) \<Longrightarrow> set dones \<subseteq> {requestDone, kv_requestDone True, kv_requestDone False} \<Longrightarrow> loop_step r s (reader_step dones again s)"
| loop_write: "0 < write_waits (lp_conn s) \<Longrightarrow> loop_step r s (writer_step s)"
| loop_timer: "0 < lp_pending s \<Longrightarrow> loop_step r s (doRequest r (s\<lparr>lp_pending := lp_pending s - 1\<rparr>))"

section \<open>References\<close>

text \<open>
  \<open>k\<close> is the number of references held by the code that is running: every other one belongs to a waiting reader or writer, a
  scheduled request, or is leaked.
\<close>

definition loop_inv :: "nat \<Rightarrow> client_loop \<Rightarrow> bool" where
  "loop_inv k s \<longleftrightarrow> conn_inv (lp_conn s) \<and> \<not> lp_fault s \<and>
     refs (lp_conn s) = int (k + read_waits (lp_conn s) + write_waits (lp_conn s) + lp_pending s + lp_leaked s) \<and>
     (deleted (lp_conn s) \<longleftrightarrow> refs (lp_conn s) = 0) \<and> \<not> faulted (lp_conn s) \<and> (deleted (lp_conn s) \<or> io_desc (lp_conn s))"

lemma alive: "loop_inv (Suc k) s \<Longrightarrow> \<not> deleted (lp_conn s)"
  by (simp add: loop_inv_def)

lemma alive_live: "loop_inv (Suc k) s \<Longrightarrow> conn_live (lp_conn s)"
  by (auto simp: loop_inv_def conn_live_def)

lemma on_conn_live: "\<not> deleted (lp_conn s) \<Longrightarrow> on_conn f s = f s"
  by (simp add: on_conn_def)

lemma acquire_inv:
  assumes "loop_inv (Suc k) s"
  shows "loop_inv (Suc (Suc k)) (conn_acquire s)" "lp_pending (conn_acquire s) = lp_pending s" "lp_leaked (conn_acquire s) = lp_leaked s"
  using assms alive [OF assms] by (simp_all add: conn_acquire_def on_conn_def set_conn_def acquire_def touch_def loop_inv_def conn_inv_def)

lemma release_inv:
  assumes "loop_inv (Suc k) s"
  shows "loop_inv k (conn_release s)"
  using assms alive [OF assms]
  by (simp add: conn_release_def on_conn_def set_conn_def release_def touch_def Connection_destroy_def loop_inv_def conn_inv_def Let_def)

lemma doRequest_inv:
  assumes inv: "loop_inv (Suc k) s" and buf: "\<And>b. buf_ok b \<Longrightarrow> buf_ok (Request_toBuffer r b)"
  shows "loop_inv k (doRequest r s)"
proof -
  let ?c = "(lp_conn s)\<lparr>out_buf := Request_toBuffer r (out_buf (lp_conn s))\<rparr>"
  let ?s = "s\<lparr>lp_client := HTTPClient_asyncSend r () (lp_client s)\<rparr>"
  note live = alive [OF inv]
  have c: "conn_inv ?c" "conn_live ?c"
    using inv alive_live [OF inv] buf by (simp_all add: loop_inv_def conn_inv_def conn_live_def)
  have conn: "lp_conn ?s = startWrite ?c" by (simp add: HTTPClient_asyncSend_def Let_def)
  have "refs (startWrite ?c) - int (write_waits (startWrite ?c)) = refs (lp_conn s) - int (write_waits (lp_conn s))"
      "read_waits (startWrite ?c) = read_waits (lp_conn s)" using startWrite_inv [OF c(1)] by (simp_all add: same_input_def)
  then have "loop_inv (Suc k) ?s"
    using startWrite_inv [OF c(1)] startWrite_live [OF c] inv unfolding loop_inv_def conn conn_live_def by auto
  then have "loop_inv (Suc k) (if \<not> conn_ok (lp_conn s) then s else ?s)" using inv by simp
  then show ?thesis using release_inv live by (simp add: doRequest_def on_conn_live)
qed

lemma requestDone_inv:
  assumes inv: "loop_inv (Suc k) s" and f: "f \<in> {requestDone, kv_requestDone True, kv_requestDone False}"
  shows "loop_inv (Suc k) (f s)"
proof -
  note a = acquire_inv [OF inv]
  have p: "loop_inv (Suc k) ((conn_acquire s)\<lparr>lp_pending := lp_pending (conn_acquire s) + 1\<rparr>)"
      "loop_inv (Suc k) ((conn_acquire s)\<lparr>lp_counter := n, lp_pending := lp_pending (conn_acquire s) + 1\<rparr>)"
      "loop_inv (Suc k) ((conn_acquire s)\<lparr>lp_counter := n, lp_leaked := lp_leaked (conn_acquire s) + 1\<rparr>)" for n
    using a(1) by (auto simp: loop_inv_def)
  show ?thesis using f p inv alive [OF inv] by (auto simp: requestDone_def kv_requestDone_def on_conn_def Let_def)
qed

lemma requestDones_inv:
  assumes "loop_inv (Suc k) s" "set dones \<subseteq> {requestDone, kv_requestDone True, kv_requestDone False}"
  shows "loop_inv (Suc k) (fold (\<lambda>f. f) dones s)"
  using assms by (induction dones arbitrary: s) (simp_all add: requestDone_inv)

lemma reader_inv:
  assumes inv: "loop_inv 0 s" and wait: "0 < read_waits (lp_conn s)" and dones: "set dones \<subseteq> {requestDone, kv_requestDone True, kv_requestDone False}"
  shows "loop_inv 0 (reader_step dones again s)"
proof -
  have live: "\<not> deleted (lp_conn s)" using inv wait by (simp add: loop_inv_def)
  let ?s1 = "set_conn ((lp_conn s)\<lparr>read_waits := read_waits (lp_conn s) - 1\<rparr>) s" and ?s2 = "fold (\<lambda>f. f) dones"
  have "loop_inv 1 ?s1" using inv wait by (auto simp: loop_inv_def set_conn_def conn_inv_def)
  then have 2: "loop_inv (Suc 0) (?s2 ?s1)" using requestDones_inv [of 0 ?s1 dones] dones by simp
  have 3: "loop_inv (Suc 0) (set_conn (readWhenReady (acquire (lp_conn (?s2 ?s1)))) (?s2 ?s1))"
    using 2 alive_live [OF 2] by (simp add: conn_live_def loop_inv_def set_conn_def readWhenReady_def acquire_def touch_def conn_inv_def)
  show ?thesis using release_inv [OF 2] release_inv [OF 3] live alive [OF 2] by (simp add: reader_step_def on_conn_live Let_def)
qed

lemma writer_inv:
  assumes inv: "loop_inv 0 s" and wait: "0 < write_waits (lp_conn s)"
  shows "loop_inv 0 (writer_step s)"
proof -
  let ?c = "(lp_conn s)\<lparr>write_waits := write_waits (lp_conn s) - 1\<rparr>" and ?d = "doWrite_loop ((lp_conn s)\<lparr>write_waits := write_waits (lp_conn s) - 1\<rparr>)"
  have live: "\<not> deleted (lp_conn s)" using inv wait by (simp add: loop_inv_def)
  have "conn_inv ?c" using inv by (simp add: loop_inv_def conn_inv_def)
  note w = doWrite_loop_inv [OF this]
  have "loop_inv 1 (set_conn ?d s)"
    using w inv wait live by (auto simp: loop_inv_def set_conn_def same_input_def conn_live_def)
  then have "loop_inv 0 (conn_release (set_conn ?d s))" using release_inv [of 0 "set_conn ?d s"] by simp
  moreover have "conn_release (set_conn ?d s) = writer_step s"
    using w live by (simp add: conn_release_def writer_step_def on_conn_live set_conn_def doWrite_def)
  ultimately show ?thesis by simp
qed

lemma start_inv:
  assumes c: "conn_inv c" "conn_ok c" "conn_live c" "refs c = 1" "read_waits c = 0" "write_waits c = 0" and buf: "\<And>b. buf_ok b \<Longrightarrow> buf_ok (Request_toBuffer r b)"
  shows "loop_inv 0 (loop_connected r c)"
proof -
  let ?s = "\<lparr>lp_client = \<lparr>cl_conn = startRead c, response_cbs = [], delivered = [], connect_calls = []\<rparr>,
        lp_pending = 0, lp_counter = 0, lp_leaked = 0, lp_fault = False\<rparr>"
  have s: "loop_inv (Suc 0) ?s" using c by (simp add: loop_inv_def startRead_def readWhenReady_def acquire_def touch_def conn_inv_def conn_live_def)
  have "loop_inv (Suc 0) (doRequest r (conn_acquire ?s))" by (rule doRequest_inv [OF acquire_inv(1) [OF s] buf])
  then have "loop_inv (Suc 0) (client_start r ?s)" using s alive [OF s] by (simp add: client_start_def on_conn_live)
  from release_inv [OF this] show ?thesis by (simp add: loop_connected_def)
qed

lemma requests_ok: "request_ok async_request" "request_ok bench_request"
  by (auto simp: request_ok_def async_request_def bench_request_def field_ok_def word_char_def SP_def CR_def)

lemma loop_ts:
  assumes r: "request_ok r"
  shows "transition_system (loop_start r) (loop_step r) (loop_inv 0)"
proof
  note buf = Request_toBuffer_bytes(2) [OF r]
  show "loop_inv 0 s" if "loop_start r s" for s using that start_inv [OF _ _ _ _ _ _ buf] by (auto simp: loop_start_def)
  show "loop_inv 0 t" if step: "loop_step r s t" and inv: "loop_inv 0 s" for s t
    using step
  proof cases
    case (loop_read dones again)
    then show ?thesis using reader_inv [OF inv] by simp
  next
    case loop_write
    then show ?thesis using writer_inv [OF inv] by simp
  next
    case loop_timer
    then have "loop_inv (Suc 0) (s\<lparr>lp_pending := lp_pending s - 1\<rparr>)" using inv by (auto simp: loop_inv_def)
    then show ?thesis using doRequest_inv [OF _ buf] loop_timer(1) by simp
  qed
qed

interpretation async_loop: transition_system "loop_start async_request" "loop_step async_request" "loop_inv 0"
  by (rule loop_ts [OF requests_ok(1)])

interpretation bench_loop: transition_system "loop_start bench_request" "loop_step bench_request" "loop_inv 0"
  by (rule loop_ts [OF requests_ok(2)])

text \<open>
  C25. The load generators, with responses, writes and scheduled requests in any order, on a connection that was established: no operation ever uses a deleted connection or a null descriptor, and the
  connection is deleted exactly when no reader and no writer waits, no request is scheduled and no reference was leaked, which
  only the benchmark does, by one for each response that arrives when the I/O manager is stopped.
\<close>

theorem client_loop_references:
  assumes "reach (loop_start async_request) (loop_step async_request) s \<or> reach (loop_start bench_request) (loop_step bench_request) s"
  shows "\<not> lp_fault s \<and> \<not> faulted (lp_conn s) \<and> (deleted (lp_conn s) \<longleftrightarrow>
    read_waits (lp_conn s) = 0 \<and> write_waits (lp_conn s) = 0 \<and> lp_pending s = 0 \<and> lp_leaked s = 0)"
proof -
  have "loop_inv 0 s" using assms async_loop.reach_invar bench_loop.reach_invar by blast
  then have f: "\<not> lp_fault s" "\<not> faulted (lp_conn s)" and d: "deleted (lp_conn s) \<longleftrightarrow>
      int (read_waits (lp_conn s)) + int (write_waits (lp_conn s)) + int (lp_pending s) + int (lp_leaked s) = 0" by (simp_all add: loop_inv_def)
  show ?thesis unfolding d using f by auto
qed

theorem client_loop_references_witness:
  "\<not> lp_fault (loop_connected async_request ((Connection_client [WDone 9, WErr EAGAIN])\<lparr>io_desc := True, refs := 1, closed := False\<rparr>))"
proof -
  let ?c = "(Connection_client [WDone 9, WErr EAGAIN])\<lparr>io_desc := True, refs := 1, closed := False\<rparr>"
  have "loop_start async_request (loop_connected async_request ?c)"
    unfolding loop_start_def by (rule exI [of _ ?c]) (simp add: Connection_client_def conn_inv_def conn_live_def conn_ok_def Buffer_new_ok)
  then have "reach (loop_start async_request) (loop_step async_request) (loop_connected async_request ?c)" by (rule reach_start)
  then show ?thesis using client_loop_references [of "loop_connected async_request ?c"] by blast
qed

end
