(* ===== verification/Logging.thy ===== *)
theory Logging
  imports Complex_Main Http_Response
begin

text \<open>
  The log, \<^verbatim>\<open>src/log_message.cpp\<close> and \<^verbatim>\<open>src/log_writer.cpp\<close>, and the timer of \<^verbatim>\<open>src/timer.hpp\<close>. A message is built in a stream
  of its own and written in one section under the writer's mutex, so that a call of \<open>LOG\<close> is one step. Whether \<open>fopen\<close>
  succeeds is an argument of each write.
\<close>

section \<open>Messages\<close>

datatype severity = NORMAL | WARNING | ERROR | FATAL

definition severity_label :: "severity \<Rightarrow> char" where
  "severity_label v = (case v of NORMAL \<Rightarrow> CHR '' '' | WARNING \<Rightarrow> CHR ''W'' | ERROR \<Rightarrow> CHR ''E'' | FATAL \<Rightarrow> CHR ''F'')"

record log_message =
  msg_stream :: string
  msg_severity :: severity

definition LogMessage_new :: "string \<Rightarrow> nat \<Rightarrow> severity \<Rightarrow> log_message" where
  "LogMessage_new file line v =
     \<lparr>msg_stream = [severity_label v] @ '' '' @ file @ '':'' @ show_nat line @ '' '', msg_severity = v\<rparr>"

text \<open>Streaming a value appends its text.\<close>

definition msg_append :: "string \<Rightarrow> log_message \<Rightarrow> log_message" where
  "msg_append text m = m\<lparr>msg_stream := msg_stream m @ text\<rparr>"

section \<open>The writer\<close>

text \<open>\<open>log_file\<close> is the contents of the log file once it is open. The writer itself is made by the first call of \<open>instance\<close>.\<close>

record log_state =
  log_instance :: bool
  log_file :: "string option"
  exit_on_fatal :: bool
  has_fatal_message :: bool
  exited :: bool

definition LogWriter_instance :: "log_state \<Rightarrow> log_state" where
  "LogWriter_instance w = (if log_instance w then w else w\<lparr>log_instance := True, log_file := None\<rparr>)"

definition createFile :: "bool \<Rightarrow> log_state \<Rightarrow> bool \<times> log_state" where
  "createFile fopen_ok w = (if fopen_ok then (True, w\<lparr>log_file := Some []\<rparr>) else (False, w\<lparr>log_file := None\<rparr>))"

definition LogWriter_write :: "bool \<Rightarrow> string \<Rightarrow> log_state \<Rightarrow> log_state" where
  "LogWriter_write fopen_ok msg w =
     (let (ok, w1) = (if log_file w = None then createFile fopen_ok w else (True, w))
      in if \<not> ok then w1 else w1\<lparr>log_file := map_option (\<lambda>c. c @ msg) (log_file w1)\<rparr>)"

definition LogMessage_flush :: "bool \<Rightarrow> log_message \<Rightarrow> log_state \<Rightarrow> log_message \<times> log_state" where
  "LogMessage_flush fopen_ok m w =
     (let m1 = msg_append [CHR 0x0A] m in (m1, LogWriter_write fopen_ok (msg_stream m1) (LogWriter_instance w)))"

definition LogMessage_destroy :: "bool \<Rightarrow> log_message \<Rightarrow> log_state \<Rightarrow> log_state" where
  "LogMessage_destroy fopen_ok m w =
     (let w1 = snd (LogMessage_flush fopen_ok m w)
      in if msg_severity m = FATAL
         then if exit_on_fatal w1 then w1\<lparr>exited := True\<rparr> else w1\<lparr>has_fatal_message := True\<rparr>
         else w1)"

text \<open>\<open>LOG(v) << text\<close>: a temporary that is destroyed at the end of the statement. Nothing runs after \<open>exit\<close>.\<close>

record log_call =
  lc_file :: string
  lc_line :: nat
  lc_severity :: severity
  lc_text :: string
  lc_fopen :: bool

definition LOG :: "log_call \<Rightarrow> log_state \<Rightarrow> log_state" where
  "LOG c w =
     (if exited w then w
      else LogMessage_destroy (lc_fopen c) (msg_append (lc_text c) (LogMessage_new (lc_file c) (lc_line c) (lc_severity c))) w)"

definition log_fresh :: "bool \<Rightarrow> log_state" where
  "log_fresh on_fatal = \<lparr>log_instance = False, log_file = None, exit_on_fatal = on_fatal, has_fatal_message = False, exited = False\<rparr>"

section \<open>The contents of the log\<close>

definition log_line :: "log_call \<Rightarrow> string" where
  "log_line c = [severity_label (lc_severity c)] @ '' '' @ lc_file c @ '':'' @ show_nat (lc_line c) @ '' '' @ lc_text c @ [CHR 0x0A]"

text \<open>The calls up to the one that ends the process.\<close>

fun until_fatal :: "bool \<Rightarrow> log_call list \<Rightarrow> log_call list" where
  "until_fatal on_fatal [] = []"
| "until_fatal on_fatal (c # cs) = c # (if on_fatal \<and> lc_severity c = FATAL then [] else until_fatal on_fatal cs)"

text \<open>The calls from the first that could open the file.\<close>

definition since_open :: "log_call list \<Rightarrow> log_call list" where
  "since_open cs = dropWhile (\<lambda>c. \<not> lc_fopen c) cs"

lemma LOG_effect:
  assumes "\<not> exited w"
  shows "log_file (LOG c w) = (case (if log_instance w then log_file w else None) of
      None \<Rightarrow> if lc_fopen c then Some (log_line c) else None | Some t \<Rightarrow> Some (t @ log_line c))"
    "log_instance (LOG c w)" "exit_on_fatal (LOG c w) = exit_on_fatal w"
    "exited (LOG c w) \<longleftrightarrow> exit_on_fatal w \<and> lc_severity c = FATAL"
    "has_fatal_message (LOG c w) \<longleftrightarrow> has_fatal_message w \<or> \<not> exit_on_fatal w \<and> lc_severity c = FATAL"
  using assms
  by (auto simp: LOG_def LogMessage_destroy_def LogMessage_flush_def LogWriter_write_def LogWriter_instance_def createFile_def
      msg_append_def LogMessage_new_def log_line_def Let_def split: option.split)

lemma LOGs_exited: "exited w \<Longrightarrow> fold LOG cs w = w"
  by (induction cs) (simp_all add: LOG_def)

lemma LOGs_open:
  assumes "log_instance w" "log_file w = Some t" "\<not> exited w"
  shows "log_file (fold LOG cs w) = Some (t @ concat (map log_line (until_fatal (exit_on_fatal w) cs)))"
  using assms
proof (induction cs arbitrary: w t)
  case (Cons c cs)
  have c: "log_file (LOG c w) = Some (t @ log_line c)" "log_instance (LOG c w)" "exit_on_fatal (LOG c w) = exit_on_fatal w"
    using LOG_effect(1-3) [OF Cons.prems(3)] Cons.prems(1,2) by simp_all
  show ?case
  proof (cases "exited (LOG c w)")
    case True
    then show ?thesis using LOGs_exited [OF True] c LOG_effect(4) [OF Cons.prems(3), of c] by simp
  next
    case False
    then show ?thesis using Cons.IH [OF c(2,1) False] c(3) LOG_effect(4) [OF Cons.prems(3), of c] by auto
  qed
qed simp

lemma LOGs_closed:
  assumes "log_instance w \<longrightarrow> log_file w = None" "\<not> exited w"
  shows "log_file (if cs = [] then LogWriter_instance w else fold LOG cs w) =
    (case since_open (until_fatal (exit_on_fatal w) cs) of [] \<Rightarrow> None | ds \<Rightarrow> Some (concat (map log_line ds)))"
  using assms
proof (induction cs arbitrary: w)
  case Nil
  then show ?case by (simp add: LogWriter_instance_def since_open_def)
next
  case (Cons c cs)
  note eff = LOG_effect [OF Cons.prems(2), of c]
  have opened: "log_file (LOG c w) = (if lc_fopen c then Some (log_line c) else None)" using eff(1) Cons.prems(1) by simp
  consider "exited (LOG c w)" | "\<not> exited (LOG c w)" "lc_fopen c" | "\<not> exited (LOG c w)" "\<not> lc_fopen c" by blast
  then show ?case
  proof cases
    case 1
    then show ?thesis using LOGs_exited [OF 1] eff(4) opened by (simp add: since_open_def)
  next
    case 2
    then show ?thesis using LOGs_open [OF eff(2) _ 2(1), of "log_line c" cs] opened eff(3,4) by (auto simp: since_open_def)
  next
    case 3
    then have "log_file (LOG c w) = None" using opened by simp
    then have "log_file (if cs = [] then LogWriter_instance (LOG c w) else fold LOG cs (LOG c w)) =
        (case since_open (until_fatal (exit_on_fatal w) cs) of [] \<Rightarrow> None | ds \<Rightarrow> Some (concat (map log_line ds)))"
      using Cons.IH [OF _ 3(1)] eff(3) by simp
    moreover have "LogWriter_instance (LOG c w) = LOG c w" using eff(2) by (simp add: LogWriter_instance_def)
    ultimately show ?thesis using 3 eff(4) by (auto simp: since_open_def split: if_splits)
  qed
qed

text \<open>
  Any sequence of \<open>LOG\<close> statements, by any threads, leaves in the log exactly one line for each, in order, from the first
  one that could open the file up to the first fatal one if fatal messages end the process; otherwise no file is there.
\<close>

theorem LOG_appends_lines:
  assumes "cs \<noteq> []"
  shows "log_file (fold LOG cs (log_fresh on_fatal)) =
    (case since_open (until_fatal on_fatal cs) of [] \<Rightarrow> None | ds \<Rightarrow> Some (concat (map log_line ds)))"
  using LOGs_closed [of "log_fresh on_fatal" cs] assms by (simp add: log_fresh_def)

section \<open>The timer\<close>

text \<open>Seconds and microseconds, as \<open>gettimeofday\<close> gives them; the sum of the doubles is a rational number here.\<close>

record timer =
  start_sec :: int
  start_usec :: int
  end_sec :: int
  end_usec :: int

definition Timer_reset :: timer where
  "Timer_reset = \<lparr>start_sec = 0, start_usec = 0, end_sec = 0, end_usec = 0\<rparr>"

definition Timer_start :: "int \<Rightarrow> int \<Rightarrow> timer \<Rightarrow> timer" where
  "Timer_start sec usec t = t\<lparr>start_sec := sec, start_usec := usec\<rparr>"

definition Timer_end :: "int \<Rightarrow> int \<Rightarrow> timer \<Rightarrow> timer" where
  "Timer_end sec usec t = t\<lparr>end_sec := sec, end_usec := usec\<rparr>"

definition elapsed :: "timer \<Rightarrow> rat" where
  "elapsed t =
     (if end_usec t < start_usec t
      then of_int (end_sec t - 1 - start_sec t) + of_int (end_usec t + 1000000 - start_usec t) / 1000000
      else of_int (end_sec t - start_sec t) + of_int (end_usec t - start_usec t) / 1000000)"

text \<open>The borrow of a second does not change the difference.\<close>

lemma elapsed_difference:
  "elapsed (Timer_end s1 u1 (Timer_start s0 u0 Timer_reset)) = of_int ((s1 * 1000000 + u1) - (s0 * 1000000 + u0)) / 1000000"
  by (simp add: elapsed_def Timer_end_def Timer_start_def Timer_reset_def field_simps)

end
