(* ===== verification/Fd_Stream.thy ===== *)
theory Fd_Stream
  imports Prelude
begin

text \<open>
  \<^verbatim>\<open>src/child_process.cpp\<close> and \<^verbatim>\<open>src/ifdstream.hpp\<close>, with which a test reads the standard error of a child process: \<open>ChildProcess\<close>
  with its pipe, and \<open>fdinbuf\<close>, a stream buffer over a file descriptor that keeps up to four characters for putting back. What
  \<open>pipe\<close>, \<open>fork\<close> and the coming calls of \<open>read\<close> return are arguments.
\<close>

section \<open>Child processes\<close>

datatype fork_result = ForkFails | InChild | InParent nat

datatype pipe_end = ReadEnd | WriteEnd

text \<open>\<open>cp_open\<close> are the descriptors of the pipe that the process holds, \<open>cp_stderr\<close> whether its standard error is the pipe.\<close>

record child_process =
  child_pid :: int
  cp_open :: "pipe_end set"
  cp_stderr :: bool
  cb_ran :: bool

definition ChildProcess_new :: child_process where
  "ChildProcess_new = \<lparr>child_pid = -1, cp_open = {}, cp_stderr = False, cb_ran = False\<rparr>"

definition ChildProcess_start :: "bool \<Rightarrow> fork_result \<Rightarrow> child_process \<Rightarrow> bool \<times> child_process" where
  "ChildProcess_start pipe_ok fork p =
     (if \<not> pipe_ok then (False, p)
      else let p1 = p\<lparr>cp_open := {ReadEnd, WriteEnd}\<rparr>
           in case fork of
                ForkFails \<Rightarrow> (False, p1\<lparr>child_pid := -1\<rparr>)
              | InChild \<Rightarrow>
                  let p2 = p1\<lparr>child_pid := 0, cp_open := cp_open p1 - {ReadEnd}\<rparr>;
                      p3 = p2\<lparr>cp_stderr := True, cp_open := cp_open p2 - {WriteEnd}\<rparr>
                  in (True, p3\<lparr>cb_ran := True\<rparr>)
              | InParent pid \<Rightarrow> (True, p1\<lparr>child_pid := int pid, cp_open := cp_open p1 - {WriteEnd}\<rparr>))"

text \<open>\<open>wait\<close> returns what \<open>waitpid\<close> returns, the process, and not the status it stores.\<close>

definition ChildProcess_wait :: "(int \<Rightarrow> int \<times> int) \<Rightarrow> child_process \<Rightarrow> int" where
  "ChildProcess_wait waitpid p = (case waitpid (child_pid p) of (res, status) \<Rightarrow> res)"

text \<open>
  The parent reads the pipe and only it does, the child writes to it and only it does; but when \<open>fork\<close> fails both ends stay open. In
  the child \<open>start\<close> returns as well, after the callback.
\<close>

lemma ChildProcess_ends:
  "ChildProcess_start True (InParent pid) ChildProcess_new = (True, p) \<Longrightarrow> cp_open p = {ReadEnd} \<and> \<not> cp_stderr p \<and> \<not> cb_ran p"
  "ChildProcess_start True InChild ChildProcess_new = (True, c) \<Longrightarrow> cp_open c = {} \<and> cp_stderr c \<and> cb_ran c"
  "snd (ChildProcess_start True ForkFails ChildProcess_new) = q \<Longrightarrow> cp_open q = {ReadEnd, WriteEnd}"
  by (auto simp: ChildProcess_start_def ChildProcess_new_def Let_def)

section \<open>The stream buffer\<close>

definition pbSize :: nat where "pbSize = 4"

definition bufSize :: nat where "bufSize = 1024"

text \<open>\<open>fd_reads\<close>: what the coming calls of \<open>read\<close> find; an empty string is the end of the file, or an error.\<close>

record fdinbuf =
  fb_buffer :: "char list"
  eback :: nat
  gptr :: nat
  egptr :: nat
  fd_reads :: "string list"

definition fdinbuf_new :: "char list \<Rightarrow> string list \<Rightarrow> fdinbuf" where
  "fdinbuf_new junk reads = \<lparr>fb_buffer = junk, eback = pbSize, gptr = pbSize, egptr = pbSize, fd_reads = reads\<rparr>"

text \<open>\<open>read\<close> returns at most as much as there is room for, and leaves the rest.\<close>

definition fd_read :: "nat \<Rightarrow> string list \<Rightarrow> string \<times> string list" where
  "fd_read n rs =
     (case rs of [] \<Rightarrow> ([], []) | r # rs' \<Rightarrow> (take n r, if length r \<le> n then rs' else drop n r # rs'))"

text \<open>Writing \<open>cs\<close> into the array at \<open>i\<close>, as \<open>memmove\<close> and \<open>read\<close> do.\<close>

definition put_at :: "nat \<Rightarrow> char list \<Rightarrow> char list \<Rightarrow> char list" where
  "put_at i cs b = take i b @ cs @ drop (i + length cs) b"

definition underflow :: "fdinbuf \<Rightarrow> char option \<times> fdinbuf" where
  "underflow b =
     (if gptr b < egptr b then (Some (fb_buffer b ! gptr b), b)
      else let numPutback = min (gptr b - eback b) pbSize;
               kept = take numPutback (drop (gptr b - numPutback) (fb_buffer b));
               b1 = b\<lparr>fb_buffer := put_at (pbSize - numPutback) kept (fb_buffer b)\<rparr>;
               (new, rs) = fd_read bufSize (fd_reads b1);
               b2 = b1\<lparr>fb_buffer := put_at pbSize new (fb_buffer b1), fd_reads := rs\<rparr>
           in if new = [] then (None, b2)
              else let b3 = b2\<lparr>eback := pbSize - numPutback, gptr := pbSize, egptr := pbSize + length new\<rparr>
                   in (Some (fb_buffer b3 ! gptr b3), b3))"

text \<open>What the stream classes do with it: take the next character, and put the last one back.\<close>

definition sbumpc :: "fdinbuf \<Rightarrow> char option \<times> fdinbuf" where
  "sbumpc b =
     (case underflow b of
        (None, b1) \<Rightarrow> (None, b1)
      | (Some c, b1) \<Rightarrow> (Some c, b1\<lparr>gptr := gptr b1 + 1\<rparr>))"

definition sungetc :: "fdinbuf \<Rightarrow> (char \<times> fdinbuf) option" where
  "sungetc b = (if eback b < gptr b then Some (fb_buffer b ! (gptr b - 1), b\<lparr>gptr := gptr b - 1\<rparr>) else None)"

section \<open>The characters of the descriptor, in order\<close>

text \<open>\<open>past\<close> are the characters read so far, \<open>rest\<close> the contents of the descriptor that are still to come.\<close>

definition fd_inv :: "string \<Rightarrow> string \<Rightarrow> fdinbuf \<Rightarrow> bool" where
  "fd_inv past rest b \<longleftrightarrow>
     length (fb_buffer b) = pbSize + bufSize \<and> eback b \<le> gptr b \<and> gptr b \<le> egptr b \<and> egptr b \<le> pbSize + bufSize \<and> pbSize \<le> egptr b \<and>
     eback b \<le> pbSize \<and> gptr b - eback b \<le> length past \<and>
     take (gptr b - eback b) (drop (eback b) (fb_buffer b)) = drop (length past - (gptr b - eback b)) past \<and>
     rest = take (egptr b - gptr b) (drop (gptr b) (fb_buffer b)) @ concat (fd_reads b) \<and> [] \<notin> set (fd_reads b)"

lemma fd_invD:
  assumes "fd_inv past rest b"
  shows "length (fb_buffer b) = pbSize + bufSize" "eback b \<le> gptr b" "gptr b \<le> egptr b" "egptr b \<le> pbSize + bufSize" "pbSize \<le> egptr b" "eback b \<le> pbSize"
    "gptr b - eback b \<le> length past" "take (gptr b - eback b) (drop (eback b) (fb_buffer b)) = drop (length past - (gptr b - eback b)) past"
    "rest = take (egptr b - gptr b) (drop (gptr b) (fb_buffer b)) @ concat (fd_reads b)" "[] \<notin> set (fd_reads b)"
  using assms unfolding fd_inv_def by - (elim conjE, assumption)+

lemma put_at_props:
  assumes "i + length cs \<le> length b"
  shows "length (put_at i cs b) = length b" "take (length cs) (drop i (put_at i cs b)) = cs" "take i (put_at i cs b) = take i b"
    "drop (i + length cs) (put_at i cs b) = drop (i + length cs) b"
  using assms by (simp_all add: put_at_def)

text \<open>A character that is in the buffer.\<close>

lemma sbumpc_buffered:
  assumes inv: "fd_inv past rest b" and in_buf: "gptr b < egptr b"
  shows "\<exists>c rest'. rest = c # rest' \<and> sbumpc b = (Some c, b\<lparr>gptr := gptr b + 1\<rparr>) \<and> fd_inv (past @ [c]) rest' (b\<lparr>gptr := gptr b + 1\<rparr>)"
proof -
  note d = fd_invD [OF inv]
  let ?c = "fb_buffer b ! gptr b" and ?n = "gptr b - eback b"
  have len: "gptr b < length (fb_buffer b)" using in_buf d(1,4) by simp
  have "drop (gptr b) (fb_buffer b) = ?c # drop (gptr b + 1) (fb_buffer b)" using Cons_nth_drop_Suc [OF len] by simp
  then have rest: "rest = ?c # take (egptr b - (gptr b + 1)) (drop (gptr b + 1) (fb_buffer b)) @ concat (fd_reads b)"
  proof -
    have "egptr b - gptr b = Suc (egptr b - (gptr b + 1))" using in_buf by simp
    then show ?thesis using d(9) \<open>drop (gptr b) (fb_buffer b) = _\<close> by simp
  qed
  have "?n < length (drop (eback b) (fb_buffer b))" using len d(2) by simp
  then have "take (Suc ?n) (drop (eback b) (fb_buffer b)) = take ?n (drop (eback b) (fb_buffer b)) @ [?c]"
    using d(2) by (simp add: take_Suc_conv_app_nth)
  then have putback: "take (gptr b + 1 - eback b) (drop (eback b) (fb_buffer b)) = drop (length (past @ [?c]) - (gptr b + 1 - eback b)) (past @ [?c])"
    using d(2,7,8) by (simp add: Suc_diff_le)
  have "fd_inv (past @ [?c]) (take (egptr b - (gptr b + 1)) (drop (gptr b + 1) (fb_buffer b)) @ concat (fd_reads b)) (b\<lparr>gptr := gptr b + 1\<rparr>)"
    unfolding fd_inv_def using d in_buf putback by (auto simp: Suc_diff_le)
  moreover have "sbumpc b = (Some ?c, b\<lparr>gptr := gptr b + 1\<rparr>)" using in_buf by (simp add: sbumpc_def underflow_def)
  ultimately show ?thesis using rest by blast
qed

text \<open>Filling the buffer keeps what was read, up to four characters, before the new data.\<close>

lemma underflow_refill:
  assumes inv: "fd_inv past rest b" and at_end: "gptr b = egptr b" and more: "rest \<noteq> []"
  shows "\<exists>b'. fd_inv past rest b' \<and> gptr b' < egptr b' \<and> gptr b' - eback b' = min (gptr b - eback b) pbSize \<and> sbumpc b = sbumpc b'"
proof -
  note d = fd_invD [OF inv]
  have rest: "rest = concat (fd_reads b)" using d(9) at_end by simp
  then obtain r rs where reads: "fd_reads b = r # rs" "r \<noteq> []" using more d(10) by (cases "fd_reads b") auto
  define num where "num = min (gptr b - eback b) pbSize"
  define kept where "kept = take num (drop (gptr b - num) (fb_buffer b))"
  define new where "new = take bufSize r"
  define rs' where "rs' = (if length r \<le> bufSize then rs else drop bufSize r # rs)"
  define b1 where "b1 = put_at (pbSize - num) kept (fb_buffer b)"
  define b2 where "b2 = put_at pbSize new b1"
  let ?b = "b\<lparr>fb_buffer := b2, fd_reads := rs', eback := pbSize - num, gptr := pbSize, egptr := pbSize + length new\<rparr>"
  have num: "num \<le> pbSize" "num \<le> gptr b - eback b" by (simp_all add: num_def)
  have k: "length kept = num" using num d(1,2,3,4) by (simp add: kept_def)
  have n: "new \<noteq> []" "length new \<le> bufSize" using reads(2) by (simp_all add: new_def bufSize_def)
  have l1: "length b1 = pbSize + bufSize" "take num (drop (pbSize - num) b1) = kept"
    using put_at_props(1,2) [of "pbSize - num" kept "fb_buffer b"] k num d(1) by (simp_all add: b1_def)
  have l2: "length b2 = pbSize + bufSize" "take (length new) (drop pbSize b2) = new" "take pbSize b2 = take pbSize b1"
    using put_at_props(1-3) [of pbSize new b1] l1(1) n(2) by (simp_all add: b2_def)
  have "take num (drop (pbSize - num) b2) = drop (pbSize - num) (take pbSize b2)" using num by (simp add: drop_take)
  also have "\<dots> = take num (drop (pbSize - num) b1)" using num by (simp add: l2(3) drop_take)
  finally have putback: "take num (drop (pbSize - num) b2) = kept" using l1(2) by simp
  have "kept = drop (gptr b - eback b - num) (take (gptr b - eback b) (drop (eback b) (fb_buffer b)))"
    using num d(2) by (simp add: kept_def drop_take)
  also have "\<dots> = drop (gptr b - eback b - num + (length past - (gptr b - eback b))) past" unfolding d(8) by simp
  also have "gptr b - eback b - num + (length past - (gptr b - eback b)) = length past - num" using num(2) d(7) by simp
  finally have kept: "kept = drop (length past - num) past" .
  have cat: "rest = new @ concat rs'" using rest reads(1) by (auto simp: new_def rs'_def append_take_drop_id [symmetric] simp del: append_take_drop_id)
  have ne: "[] \<notin> set rs'" using d(10) reads by (auto simp: rs'_def)
  have "fd_inv past rest ?b" unfolding fd_inv_def using l2(1,2) n num putback kept cat ne d(7) by simp
  moreover have "underflow b = (Some (b2 ! pbSize), ?b)"
    using reads n(1) at_end by (simp add: underflow_def fd_read_def Let_def new_def rs'_def b2_def b1_def kept_def num_def)
  then have "sbumpc b = sbumpc ?b" using n(1) by (simp add: sbumpc_def underflow_def)
  ultimately show ?thesis using n(1) num by (intro exI [of _ ?b]) (simp add: num_def)
qed

lemma sbumpc_step:
  assumes inv: "fd_inv past rest b"
  shows "rest = [] \<and> fst (sbumpc b) = None \<or>
    (\<exists>c rest' b'. rest = c # rest' \<and> sbumpc b = (Some c, b') \<and> fd_inv (past @ [c]) rest' b' \<and> min (gptr b - eback b) pbSize < gptr b' - eback b')"
proof (cases "gptr b < egptr b")
  case True
  then show ?thesis using sbumpc_buffered [OF inv True] fd_invD(2) [OF inv] by (auto simp: Suc_diff_le)
next
  case False
  then have at_end: "gptr b = egptr b" using fd_invD(3) [OF inv] by simp
  show ?thesis
  proof (cases "rest = []")
    case True
    then have "fd_reads b = []" using fd_invD(9,10) [OF inv] by (cases "fd_reads b") auto
    then have "fst (sbumpc b) = None" using at_end by (simp add: sbumpc_def underflow_def fd_read_def Let_def)
    then show ?thesis using True by simp
  next
    case more: False
    obtain b' where b': "fd_inv past rest b'" "gptr b' < egptr b'" "gptr b' - eback b' = min (gptr b - eback b) pbSize" "sbumpc b = sbumpc b'"
      using underflow_refill [OF inv at_end more] by blast
    then show ?thesis using sbumpc_buffered [OF b'(1,2)] fd_invD(2) [OF b'(1)] by (auto simp: Suc_diff_le)
  qed
qed

lemma sungetc_step:
  assumes inv: "fd_inv past rest b" and room: "eback b < gptr b"
  shows "\<exists>c past' b'. past = past' @ [c] \<and> sungetc b = Some (c, b') \<and> fd_inv past' (c # rest) b' \<and> gptr b' - eback b' = gptr b - eback b - 1"
proof -
  note d = fd_invD [OF inv]
  let ?n = "gptr b - eback b" and ?b = "b\<lparr>gptr := gptr b - 1\<rparr>" and ?c = "fb_buffer b ! (gptr b - 1)"
  have len: "gptr b - 1 < length (fb_buffer b)" using d(1,3,4) room by simp
  obtain past' c where past: "past = past' @ [c]" using room d(7) by (cases past rule: rev_exhaust) auto
  have n: "?n = Suc (?n - 1)" using room by simp
  have "take (Suc (?n - 1)) (drop (eback b) (fb_buffer b)) = take (?n - 1) (drop (eback b) (fb_buffer b)) @ [?c]"
    using len room by (subst take_Suc_conv_app_nth) simp_all
  then have "take (?n - 1) (drop (eback b) (fb_buffer b)) @ [?c] = drop (length past - ?n) past" using d(8) n by simp
  also have "\<dots> = drop (length past' - (?n - 1)) past' @ [c]" using past d(7) n by (cases ?n) auto
  finally have eq: "take (?n - 1) (drop (eback b) (fb_buffer b)) = drop (length past' - (?n - 1)) past'" "?c = c" by simp_all
  have front: "take (egptr b - (gptr b - 1)) (drop (gptr b - 1) (fb_buffer b)) = c # take (egptr b - gptr b) (drop (gptr b) (fb_buffer b))"
  proof -
    have "drop (gptr b - 1) (fb_buffer b) = c # drop (gptr b) (fb_buffer b)" using Cons_nth_drop_Suc [OF len] eq(2) room by simp
    moreover have "egptr b - (gptr b - 1) = Suc (egptr b - gptr b)" using d(3) room by simp
    ultimately show ?thesis by simp
  qed
  have "fd_inv past' (c # rest) ?b" unfolding fd_inv_def using d eq(1) front past room by auto
  then show ?thesis using past eq(2) room by (simp add: sungetc_def)
qed

section \<open>Properties\<close>

text \<open>Reading \<open>k\<close> characters, and putting \<open>k\<close> back.\<close>

fun bump_n :: "nat \<Rightarrow> fdinbuf \<Rightarrow> char option list \<times> fdinbuf" where
  "bump_n 0 b = ([], b)"
| "bump_n (Suc k) b = (let (c, b1) = sbumpc b; (cs, b2) = bump_n k b1 in (c # cs, b2))"

fun unget_n :: "nat \<Rightarrow> fdinbuf \<Rightarrow> (string \<times> fdinbuf) option" where
  "unget_n 0 b = Some ([], b)"
| "unget_n (Suc k) b =
     (case sungetc b of None \<Rightarrow> None | Some (c, b1) \<Rightarrow> map_option (\<lambda>(cs, b2). (cs @ [c], b2)) (unget_n k b1))"

lemma bump_n_reads:
  assumes "fd_inv past rest b" "k \<le> length rest"
  shows "\<exists>b'. bump_n k b = (map Some (take k rest), b') \<and> fd_inv (past @ take k rest) (drop k rest) b' \<and> min (gptr b - eback b + k) pbSize \<le> gptr b' - eback b'"
  using assms
proof (induction k arbitrary: past rest b)
  case 0
  then show ?case by simp
next
  case (Suc k)
  obtain c rest' b1 where c: "rest = c # rest'" "sbumpc b = (Some c, b1)" "fd_inv (past @ [c]) rest' b1" "min (gptr b - eback b) pbSize < gptr b1 - eback b1"
    using sbumpc_step [OF Suc.prems(1)] Suc.prems(2) by auto
  obtain b2 where "bump_n k b1 = (map Some (take k rest'), b2)" "fd_inv (past @ [c] @ take k rest') (drop k rest') b2"
      "min (gptr b1 - eback b1 + k) pbSize \<le> gptr b2 - eback b2"
    using Suc.IH [OF c(3)] Suc.prems(2) c(1) by auto
  then show ?case using c by (auto simp: Let_def)
qed

lemma unget_n_restores:
  assumes "fd_inv past rest b" "k \<le> gptr b - eback b"
  shows "\<exists>b'. unget_n k b = Some (drop (length past - k) past, b') \<and> fd_inv (take (length past - k) past) (drop (length past - k) past @ rest) b'"
  using assms
proof (induction k arbitrary: past rest b)
  case 0
  then show ?case by simp
next
  case (Suc k)
  obtain c past' b1 where c: "past = past' @ [c]" "sungetc b = Some (c, b1)" "fd_inv past' (c # rest) b1" "gptr b1 - eback b1 = gptr b - eback b - 1"
    using sungetc_step [OF Suc.prems(1)] Suc.prems(2) by (metis Suc_le_lessD less_nat_zero_code zero_less_diff neq0_conv)
  obtain b2 where "unget_n k b1 = Some (drop (length past' - k) past', b2)" "fd_inv (take (length past' - k) past') (drop (length past' - k) past' @ c # rest) b2"
    using Suc.IH [OF c(3)] Suc.prems(2) c(4) by (metis Suc_le_D Suc_le_mono diff_Suc_1)
  then show ?case using c(1,2) by simp
qed

lemma fdinbuf_new_inv:
  assumes "length junk = pbSize + bufSize" "[] \<notin> set reads"
  shows "fd_inv [] (concat reads) (fdinbuf_new junk reads)"
  using assms by (simp add: fd_inv_def fdinbuf_new_def)

text \<open>
  A new \<open>fdinbuf\<close> on a descriptor delivers exactly the bytes of the descriptor, in order, however \<open>read\<close> cuts them, and then the end of the
  file. Up to four of the characters read can be put back at any point before the end; reading then goes on with them.
\<close>

theorem fdinbuf_streams:
  assumes "length junk = pbSize + bufSize" "[] \<notin> set reads" "k \<le> length (concat reads)" "j \<le> min k pbSize"
  shows "\<exists>b b'. bump_n k (fdinbuf_new junk reads) = (map Some (take k (concat reads)), b) \<and>
    unget_n j b = Some (drop (k - j) (take k (concat reads)), b') \<and>
    (\<exists>b''. bump_n (length (concat reads) - k + j) b' = (map Some (drop (k - j) (concat reads)), b'') \<and> fst (sbumpc b'') = None)"
proof -
  let ?all = "concat reads"
  obtain b where b: "bump_n k (fdinbuf_new junk reads) = (map Some (take k ?all), b)" "fd_inv (take k ?all) (drop k ?all) b" "min k pbSize \<le> gptr b - eback b"
    using bump_n_reads [OF fdinbuf_new_inv [OF assms(1,2)] assms(3)] by (auto simp: fdinbuf_new_def)
  have j: "j \<le> gptr b - eback b" by (rule order_trans [OF assms(4) b(3)])
  have "k - j \<le> k" "j \<le> k" using assms(4) by simp_all
  obtain b' where b': "unget_n j b = Some (drop (length (take k ?all) - j) (take k ?all), b')"
      "fd_inv (take (length (take k ?all) - j) (take k ?all)) (drop (length (take k ?all) - j) (take k ?all) @ drop k ?all) b'"
    using unget_n_restores [OF b(2) j] by blast
  have len: "length (take k ?all) = k" using assms(3) by simp
  have "take k ?all @ drop k ?all = ?all" by (rule append_take_drop_id)
  then have rest: "drop (k - j) (take k ?all) @ drop k ?all = drop (k - j) ?all" using len \<open>k - j \<le> k\<close> by (metis diff_is_0_eq drop_0 drop_append)
  have inv': "fd_inv (take (k - j) (take k ?all)) (drop (k - j) ?all) b'" using b'(2) unfolding len rest .
  have l: "length ?all - k + j = length (drop (k - j) ?all)" using assms(3) \<open>j \<le> k\<close> by simp
  obtain b'' where b'': "bump_n (length ?all - k + j) b' = (map Some (take (length ?all - k + j) (drop (k - j) ?all)), b'')"
      "fd_inv (take (k - j) (take k ?all) @ take (length ?all - k + j) (drop (k - j) ?all)) (drop (length ?all - k + j) (drop (k - j) ?all)) b''"
    using bump_n_reads [OF inv', of "length ?all - k + j"] l by auto
  have "drop (length ?all - k + j) (drop (k - j) ?all) = []" unfolding l by simp
  then have "fst (sbumpc b'') = None" using sbumpc_step [OF b''(2)] by force
  moreover have "take (length ?all - k + j) (drop (k - j) ?all) = drop (k - j) ?all" unfolding l by simp
  then have "bump_n (length ?all - k + j) b' = (map Some (drop (k - j) ?all), b'')" using b''(1) by simp
  ultimately show ?thesis using b(1) b'(1) [unfolded len] by blast
qed

theorem fdinbuf_streams_witness:
  "\<exists>b b'. bump_n 5 (fdinbuf_new (replicate 1028 CHR ''x'') [''abc'', ''def'']) = (map Some ''abcde'', b) \<and> unget_n 4 b = Some (''bcde'', b')"
  using fdinbuf_streams [of "replicate 1028 CHR ''x''" "[''abc'', ''def'']" 5 4] by (auto simp: pbSize_def bufSize_def)

text \<open>
  After the end of the file this fails: the characters for putting back have been moved within the buffer, but its pointers stay. Of
  the six characters read here the last two are put back as \<open>ff\<close> and not as \<open>ef\<close>.
\<close>

lemma fdinbuf_putback_after_eof:
  "let b = snd (bump_n 7 (fdinbuf_new (replicate 1028 CHR ''x'') [''abcde'', ''f''])) in map_option fst (unget_n 2 b) = Some ''ff''"
  by code_simp

end
