(* ===== verification/Spec2Isabelle.thy ===== *)
theory Spec2Isabelle
  imports Circular_Buffer Buffer_Transfer List_Set Lock_Free_Hash_Table Http_Response Connection
    Request_Stats Kv_Server Http_Server Client_Connection Mcs_Lock Thread_Barrier Thread_Pool
    Io_Poll Hazard_Machine Service_Manager Param_Map Lf_Linearizable Lf_Reclaim Callback Thread_Local Sync_Send
    Service_Connect Thread_Registry Signal_Handler Lock_Tester Client_Loop Logging Fd_Stream
begin

text \<open>
  A verification library for the C++ sources of a multicore programming course: a streaming
  buffer, an HTTP parser, sets and maps (coarse-grained, lock-free with hazard pointers), locks,
  thread pools, an event loop, and an HTTP and a key-value server and client built from them.

  \<^bold>\<open>The program.\<close> \<^verbatim>\<open>ServiceManager\<close> owns an \<^verbatim>\<open>IOManager\<close> and the \<^verbatim>\<open>Acceptor\<close>s. The I/O manager's
  polling thread turns readiness of sockets into tasks of a \<^verbatim>\<open>ThreadPoolFast\<close>; a task runs
  \<^verbatim>\<open>doRead\<close> or \<^verbatim>\<open>doWrite\<close> of a \<^verbatim>\<open>Connection\<close>, which moves bytes between the socket and two
  \<^verbatim>\<open>Buffer\<close>s. \<^verbatim>\<open>readDone\<close> of the server connections parses requests with \<^verbatim>\<open>Parser\<close> and answers
  from \<^verbatim>\<open>FileCache\<close> or \<^verbatim>\<open>LockFreeHashTable\<close>, counting in \<^verbatim>\<open>RequestStats\<close>; the clients parse
  responses and hand them to callbacks. The remaining classes are the course's synchronisation exercises.

  \<^bold>\<open>Theories\<close>, each with the definitions of its component in the order of the code, its
  invariant, and its properties at the end:

  \<^item> \<open>Prelude\<close>: unsigned subtraction, exceptions as values, reachable states; the interfaces
    \<open>transition_system\<close> (a step relation with an invariant), \<open>overwriting_queue\<close> and \<open>set_adt\<close>.
  \<^item> \<open>Circular_Buffer\<close> (\<^verbatim>\<open>src/circular_buffer.cpp\<close>): refines the overwriting queue, for as long as no
    read finds it empty.
  \<^item> \<open>Buffer\<close>, \<open>Buffer_Stream\<close>, \<open>Buffer_Transfer\<close>, \<open>Buffer_Iterator\<close> (\<^verbatim>\<open>src/buffer.cpp\<close>): the
    buffer as a list of chunks with a read and a write position; the interface \<open>byte_stream\<close>,
    what \<open>appendFrom\<close> and \<open>copyFrom\<close> do, and the iterator.
  \<^item> \<open>Http_Parser\<close>, \<open>Http_Response\<close> (\<^verbatim>\<open>src/http_parser.cpp\<close>, \<^verbatim>\<open>src/http_request.cpp\<close>): the parser over
    the iterator and a grammar over strings that it recognises; printing and parsing back.
  \<^item> \<open>List_Set\<close> (\<^verbatim>\<open>src/list_set.cpp\<close>): a linked list in a heap where a freed cell is gone.
  \<^item> \<open>Markable_Pointer\<close>, \<open>Hazard_Pointers\<close>, \<open>Lock_Free_List\<close>, \<open>Split_Order\<close>, \<open>Lock_Free_Hash_Table\<close>
    (\<^verbatim>\<open>src/markable_pointer.hpp\<close>, \<^verbatim>\<open>src/hazard_pointers.hpp\<close>, \<^verbatim>\<open>src/lock_free_list.hpp\<close>,
    \<^verbatim>\<open>src/lock_free_hash_table.cpp\<close>): mark bits on 64-bit words, hazard pointers, and the list and the table, with whole operations as steps.
  \<^item> \<open>Hazard_Machine\<close> (\<^verbatim>\<open>src/hazard_pointers.hpp\<close>): publishing, retiring and scanning by any number of threads, one access per step: which
    nodes a scan spares, whoever publishes while it runs; a scan on its own is the function of \<open>Hazard_Pointers\<close>.
  \<^item> \<open>Lf_Machine\<close>, \<open>Lf_Invariant\<close>, \<open>Lf_Linearizable\<close>, \<open>Lf_Alone\<close>, \<open>Lf_Reclaim\<close> (the same files): \<open>insert\<close>, \<open>remove\<close>
    and \<open>lookup\<close> of any number of threads with one shared access per step; linearizability while no node is reclaimed, agreement
    with the sequential model for a thread that runs alone, and the use after free that reclamation makes possible.
  \<^item> \<open>Spin_Lock\<close>, \<open>Mcs_Lock\<close>, \<open>Thread_Barrier\<close>, \<open>Thread_Pool\<close> (\<^verbatim>\<open>src/spinlock.hpp\<close>,
    \<^verbatim>\<open>src/spinlock_mcs.hpp\<close>, \<^verbatim>\<open>src/thread_barrier.hpp\<close>, \<^verbatim>\<open>src/thread_pool_normal.cpp\<close>,
    \<^verbatim>\<open>src/thread_pool_fast.cpp\<close>): one step per shared access (locks, barrier) or per section under
    the mutex (pools), with the threads' program counters in the state; the interface
    \<open>mutual_exclusion\<close> extends \<open>transition_system\<close>.
  \<^item> \<open>Io_Manager\<close>, \<open>Service_Manager\<close> (\<^verbatim>\<open>src/io_manager.cpp\<close>, \<^verbatim>\<open>src/descriptor_poller_epoll.cpp\<close>,
    \<^verbatim>\<open>src/acceptor.cpp\<close>, \<^verbatim>\<open>src/service_manager.cpp\<close>, the accepting side of \<^verbatim>\<open>src/http_service.cpp\<close> and
    \<^verbatim>\<open>src/kv_service.cpp\<close>): descriptors and timers on the model of the fast pool, and starting and stopping.
  \<^item> \<open>Io_Poll\<close> (\<^verbatim>\<open>src/io_manager.cpp\<close>): the polling thread and \<open>stop\<close> section by section, interleaved with clients that create, close and hand over
    descriptors: what is deleted when. A round that nobody interrupts is the function of \<open>Io_Manager\<close>.
  \<^item> \<open>Connection\<close>, \<open>Request_Stats\<close>, \<open>File_Cache\<close> (\<^verbatim>\<open>src/connection.cpp\<close>, \<^verbatim>\<open>src/request_stats.cpp\<close>,
    \<^verbatim>\<open>src/file_cache.cpp\<close>): sockets as lists of the results of the coming calls, ticks as 64-bit
    counters with the double arithmetic written out, the cache with \<open>pin\<close> cut where it releases its lock.
  \<^item> \<open>Message_Loop\<close>, \<open>Server_Base\<close>, \<open>Kv_Server\<close>, \<open>Http_Server\<close>, \<open>Client_Connection\<close>
    (\<^verbatim>\<open>src/kv_connection.cpp\<close>, \<^verbatim>\<open>src/http_connection.cpp\<close>): the interface \<open>message_loop\<close> says what a loop
    over parsed messages does to a byte string; the four \<open>readDone\<close> loops interpret it.
  \<^item> \<open>Sync_Send\<close>, \<open>Service_Connect\<close> (\<^verbatim>\<open>src/lock.hpp\<close>, \<^verbatim>\<open>src/http_connection.cpp\<close>, \<^verbatim>\<open>src/http_service.cpp\<close> and their key-value
    twins): the synchronous \<open>send\<close> of many threads with its mutex and condition variable step by step, and the synchronous \<open>connect\<close>.
  \<^item> \<open>Callback\<close>, \<open>Thread_Local\<close>, \<open>Thread_Registry\<close>, \<open>Signal_Handler\<close> (\<^verbatim>\<open>src/callback_instances.hpp\<close>, \<^verbatim>\<open>src/thread_local.hpp\<close>,
    \<^verbatim>\<open>src/thread.cpp\<close>, \<^verbatim>\<open>src/thread_registry.cpp\<close>, \<^verbatim>\<open>src/signal_handler.cpp\<close>): callbacks on the heap, a variable per thread, the
    life of a thread, and the traces printed on a crash.
  \<^item> \<open>Lock_Tester\<close>, \<open>Client_Loop\<close> (\<^verbatim>\<open>src/lock_benchmark.cpp\<close>, \<^verbatim>\<open>src/client_async.cpp\<close>, \<^verbatim>\<open>src/kv_benchmark.cpp\<close>): programs that use
    the components: a counter under any lock of the interface \<open>excluding_lock\<close>, and a client that sends request after request.
  \<^item> \<open>Logging\<close>, \<open>Fd_Stream\<close> (\<^verbatim>\<open>src/log_writer.cpp\<close>, \<^verbatim>\<open>src/log_message.cpp\<close>, \<^verbatim>\<open>src/timer.hpp\<close>, \<^verbatim>\<open>src/child_process.cpp\<close>,
    \<^verbatim>\<open>src/ifdstream.hpp\<close>): the log, elapsed time, child processes and a stream buffer over a descriptor.
  \<^item> \<open>Param_Map\<close> (\<^verbatim>\<open>src/param_map.cpp\<close>, \<^verbatim>\<open>src/op_generator.cpp\<close>): the command line and the stripes of
    test operations.
  \<^item> This theory: a conversation of the key-value client with the server.

  \<^bold>\<open>State and operations.\<close> A class is a record, a method a function from the record to the result
  and the new record; objects reached through pointers live in a map from addresses, and reading a
  freed one gives \<open>None\<close>. Exceptions of the parser are values of a sum type. What the code gets
  from outside (system calls, the clock, the file system, the order of an unordered map, random
  numbers) is an argument.

  \<^bold>\<open>What is shown.\<close> Refinement of an abstract data type for every container; equivalence of both
  parsers with their grammars; mutual exclusion, queueing and progress of the locks; that
  barrier rounds do not mix; that pools run every task once and drain; that descriptors lose no
  event, timers fire in order, no deleted descriptor is touched, and stopping happens once; that hazard pointers keep a node alive that
  was published before it was retired; the answers of the servers and the
  deliveries of the clients for any number of pipelined messages; that a synchronous \<open>send\<close> returns its own answer and no wake-up
  is lost; that call-once callbacks are called once and freed; that the locks protect a counter and the clients hold their
  references; and the behaviour
  at the places where the code fails: reading an empty circular buffer, appending an exhausted
  buffer, a lone carriage return, keys the hash table loses, a write of nothing, files larger
  than a block, a lasting \<open>accept\<close> error, a descriptor deleted with a callback queued, a scan of the hazard pointers that misses a
  node in use, a failed \<open>connect\<close> that returns a deleted connection, and a crash while a registered thread has ended.

  \<^bold>\<open>Fuel and loops.\<close> The parsers and the \<open>readDone\<close> loops take fuel; each theorem about them assumes
  only that it exceeds the number of unread bytes, and concludes that they return. Loops of the
  lock-free structures and of \<open>doAccept\<close> are partial functions with \<open>None\<close> for not returning; that they
  return is part of the theorems. All other loops are total functions.

  \<^bold>\<open>Bounds.\<close> Sizes are natural numbers with the wrap-around of unsigned subtraction; keys are 32-bit
  words; the counters of \<open>Request_Stats\<close> are kept modulo \<open>2 ^ 32\<close>; those of \<open>Lock_Tester\<close> are unbounded; indices of the circular buffer stay below the number of slots, which is positive. The
  locks and pools are for sequentially consistent memory.

  \<^bold>\<open>Not modelled.\<close> Interleaving inside the operations of the lock-free hash table (its operations run one after the other, on any
  threads; those of the list are interleaved access by access); weak memory. Outside
  the synchronous \<open>send\<close>, a section under a mutex is one step (a call on a descriptor with the \<open>addTask\<close> behind it, too), and a worker that waits on
  a condition variable is one that cannot move. Delays of timers are whole numbers of ticks. The files of the cache keep their sizes while it runs.
  Readers and writers locks only wrap pthread calls; the main functions
  and the other benchmarks only start the components and print; the unit test framework is macros.
\<close>

section \<open>A key-value conversation\<close>

lemma show_nat_length: "length (show_nat n) \<le> Suc n"
proof (induction n rule: show_nat.induct)
  case (1 n)
  then show ?case by (subst show_nat.simps) (auto simp: le_Suc_eq)
qed

lemma kv_value_short: "length (show_nat (unat (v :: key))) < 2 ^ 64"
proof -
  have "unat v < 2 ^ 32" using unsigned_less [of v, where 'a = nat] by simp
  then show ?thesis using show_nat_length [of "unat v"] by simp
qed

lemma kv_reply_message: "concat (kv_reply (Some v)) = ok_message (show_nat (unat v))"
  by (simp add: kv_reply_def ok_message_def Let_def)

text \<open>The client: each send goes out at once when the socket accepts bytes, and the connection stays in use.\<close>

lemma asyncSend_facts:
  assumes "drained (length (request_text (kv_get k)) + j) (cl_conn c)" "conn_live (cl_conn c)"
  shows "drained j (cl_conn (KVClient_asyncSend (kv_get k) cb c))" "conn_live (cl_conn (KVClient_asyncSend (kv_get k) cb c))"
    "sock_sent (cl_conn (KVClient_asyncSend (kv_get k) cb c)) = sock_sent (cl_conn c) @ request_text (kv_get k)"
    "response_cbs (KVClient_asyncSend (kv_get k) cb c) = response_cbs c @ [cb]" "delivered (KVClient_asyncSend (kv_get k) cb c) = delivered c"
proof -
  let ?b = "Request_toBuffer (kv_get k) (out_buf (cl_conn c))"
  let ?c = "(cl_conn c)\<lparr>out_buf := ?b\<rparr>"
  have conn: "cl_conn (KVClient_asyncSend (kv_get k) cb c) = startWrite ?c" by (simp add: KVClient_asyncSend_def Let_def)
  have b: "request_text (kv_get k) \<noteq> []" "buf_ok ?b" "buf_bytes ?b = request_text (kv_get k)"
    using assms(1) Request_toBuffer_bytes [OF kv_get_ok] by (auto simp: drained_def conn_inv_def request_text_def)
  show "drained j (cl_conn (KVClient_asyncSend (kv_get k) cb c))"
    "sock_sent (cl_conn (KVClient_asyncSend (kv_get k) cb c)) = sock_sent (cl_conn c) @ request_text (kv_get k)"
    unfolding conn using drained_write [OF assms(1) b] by simp_all
  have "conn_inv ?c" "conn_live ?c" using assms b by (auto simp: drained_def conn_inv_def conn_live_def)
  then show "conn_live (cl_conn (KVClient_asyncSend (kv_get k) cb c))" unfolding conn by (rule startWrite_live)
  show "response_cbs (KVClient_asyncSend (kv_get k) cb c) = response_cbs c @ [cb]" "delivered (KVClient_asyncSend (kv_get k) cb c) = delivered c"
    by (simp_all add: KVClient_asyncSend_def Let_def)
qed

definition kv_gets :: "key list \<Rightarrow> string" where
  "kv_gets ks = concat (map (\<lambda>k. request_text (kv_get k)) ks)"

lemma asyncSends:
  assumes "length cbs = length ks" "drained (length (kv_gets ks)) (cl_conn c)" "conn_live (cl_conn c)"
  shows "let c1 = fold (\<lambda>(k, cb). KVClient_asyncSend (kv_get k) cb) (zip ks cbs) c
    in sock_sent (cl_conn c1) = sock_sent (cl_conn c) @ kv_gets ks \<and> conn_live (cl_conn c1) \<and> drained 0 (cl_conn c1) \<and>
      response_cbs c1 = response_cbs c @ cbs \<and> delivered c1 = delivered c"
  using assms
proof (induction cbs ks arbitrary: c rule: list_induct2)
  case (Cons cb cbs k ks)
  have "drained (length (request_text (kv_get k)) + length (kv_gets ks)) (cl_conn c)" using Cons.prems(1) by (simp add: kv_gets_def)
  note a = asyncSend_facts [OF this Cons.prems(2), of cb]
  show ?case using Cons.IH [OF a(1,2)] a by (simp add: Let_def kv_gets_def)
qed (simp add: kv_gets_def)

text \<open>The server: its answers to gets.\<close>

definition kv_values :: "(key \<rightharpoonup> key) \<Rightarrow> key list \<Rightarrow> string" where
  "kv_values M ks = concat (map (\<lambda>k. concat (kv_reply (M k))) ks)"

lemma kv_answers_gets: "\<exists>v'. kv_answers e M (map KvGet ks) v = (map (\<lambda>k. kv_reply (M k)) ks, v')"
proof (induction ks arbitrary: v)
  case (Cons k ks)
  show ?case using Cons.IH [of "the (count_request e v)"] by (auto simp: kv_answer_def)
qed simp

lemma kv_reply_ne: "concat (kv_reply r) \<noteq> []"
  by (cases r) (simp_all add: kv_reply_def ok_lines_def crlf_def Let_def)

lemma KV_answers_gets:
  assumes inv: "kv_inv e n M s" and conn: "conn_live (kv_conn s)" "drained (length (kv_values M ks)) (kv_conn s)" and ks: "\<forall>k \<in> set ks. ht_key k"
    and f: "length (kv_gets ks) < f"
  shows "\<exists>s1. KV_readDone e junk f (kv_set_in (buffer_of (kv_gets ks)) s) = Some (True, s1) \<and> conn_live (kv_conn s1) \<and>
    sock_sent (kv_conn s1) = sock_sent (kv_conn s) @ kv_values M ks"
proof -
  let ?s = "kv_set_in (buffer_of (kv_gets ks)) s" and ?ms = "map (\<lambda>k. (kv_get k, [] :: string list, KvGet k)) ks" and ?lss = "map (\<lambda>k. kv_reply (M k)) ks"
  have i: "kv_inv e n M ?s" using inv by (simp add: kv_inv_def conn_inv_def set_in_buf_def)
  have m: "\<forall>m \<in> set ?ms. kv_asks m" using ks kv_get_ok by (auto simp: kv_asks_def kv_address_def) (simp add: kv_get_def)
  have bytes: "buf_bytes (in_buf (kv_conn ?s)) = concat (map kv_text ?ms) @ []"
    by (simp add: kv_gets_def kv_text_def comp_def full_request_plain)
  have len: "length (buf_bytes (in_buf (kv_conn ?s))) < f" "buf_clean (in_buf (kv_conn ?s))" using f by simp_all
  obtain v where v: "kv_answers e M (map (\<lambda>(r, hs, q). q) ?ms) (kv_srv ?s) = (?lss, v)"
    using kv_answers_gets [of e M ks "kv_srv s"] by (auto simp: comp_def)
  obtain b t where r: "KV_readDone e junk f ?s =
      Some (True, kv_set_in b (?s\<lparr>kv_conn := fold answer ?lss (kv_conn ?s), kv_table := t, kv_srv := v\<rparr>))"
    using KV_readDone_incomplete [OF i len(2) m bytes len(1) v gr_nils(1), of junk] by blast
  have d: "drained (length (concat (map concat ?lss)) + 0) (kv_conn ?s)" "conn_inv (kv_conn ?s)" "conn_live (kv_conn ?s)"
    using conn i by (auto simp: drained_def kv_values_def comp_def set_in_buf_def conn_inv_def conn_live_def kv_inv_def)
  have "sock_sent (fold answer ?lss (kv_conn ?s)) = sock_sent (kv_conn s) @ kv_values M ks"
    using answers_drained [OF d(1)] kv_reply_ne by (simp add: kv_values_def comp_def) (simp add: set_in_buf_def)
  moreover have "conn_live (fold answer ?lss (kv_conn ?s))" using answers_live [OF d(2,3)] .
  ultimately show ?thesis using r by (simp add: set_in_buf_def conn_live_def)
qed

text \<open>
  C2. A conversation between a key-value client and a server, over sockets that take at least one byte per call and a network that delivers
  the bytes sent in order. The client is one that the service's \<open>connect\<close> returned in a good state; it sends any number of get requests, pipelined, for
  keys of the table (keys for which the hash table is a map). All the bytes of the requests are sent. The server, a connection in use with nothing left to send, gets exactly these bytes: its \<open>readDone\<close>
  answers all of them and sends all its answers. The client's \<open>readDone\<close> on the bytes the server sent
  calls each callback exactly once, in the order of the sends, with a response whose body
  is the decimal value the table holds for its key. Neither connection is deleted or uses a null descriptor on the way.
\<close>

theorem KV_end_to_end:
  assumes connect: "KVService_connect stopped fd res so_error established ws = Returns c0" "conn_ok (cl_conn c0)"
    and client: "accepting (length (kv_gets ks)) ws"
    and server: "kv_inv e n M s" "conn_live (kv_conn s)" "drained (length (kv_values M ks)) (kv_conn s)" "sock_sent (kv_conn s) = []"
    and ks: "\<forall>k \<in> set ks. ht_key k \<and> M k \<noteq> None" "length cbs = length ks"
    and c1: "c1 = fold (\<lambda>(k, cb). KVClient_asyncSend (kv_get k) cb) (zip ks cbs) c0"
    and f1: "length (sock_sent (cl_conn c1)) < f1"
  shows "conn_live (cl_conn c1) \<and> sock_sent (cl_conn c1) = kv_gets ks \<and>
    (\<exists>s1. KV_readDone e junk f1 (kv_set_in (buffer_of (sock_sent (cl_conn c1))) s) = Some (True, s1) \<and> conn_live (kv_conn s1) \<and>
      (\<forall>f2 > length (sock_sent (kv_conn s1)).
        \<exists>c2. KVClient_readDone f2 (cl_set_in (buffer_of (sock_sent (kv_conn s1))) c1) = Some (True, c2) \<and> conn_live (cl_conn c2) \<and>
          response_cbs c2 = [] \<and> delivered c2 = zip cbs (map (\<lambda>k. ok_response (show_nat (unat (the (M k))))) ks)))"
proof -
  let ?vals = "map (\<lambda>k. show_nat (unat (the (M k)))) ks"
  note c0 = connect_ok [OF connect(1) [unfolded KVService_connect_eq] connect(2)]
  have "conn_live (cl_conn c0)" "drained (length (kv_gets ks)) (cl_conn c0)"
    using c0 client by (auto simp: usable_def conn_live_def drained_def conn_inv_def Buffer_new_ok Buffer_new_wf)
  from asyncSends [OF ks(2) this(2,1)] have c: "sock_sent (cl_conn c1) = kv_gets ks" "conn_live (cl_conn c1)" "response_cbs c1 = cbs" "delivered c1 = []"
    using c0 by (simp_all add: c1 Let_def)
  have keys: "\<forall>k \<in> set ks. ht_key k" using ks(1) by blast
  have "length (kv_gets ks) < f1" using f1 c(1) by simp
  then obtain s1 where s1: "KV_readDone e junk f1 (kv_set_in (buffer_of (kv_gets ks)) s) = Some (True, s1)" "conn_live (kv_conn s1)"
    "sock_sent (kv_conn s1) = kv_values M ks"
    using KV_answers_gets [OF server(1-3) keys, of f1 junk] server(4) by auto
  have "concat (kv_reply (M k)) = ok_message (show_nat (unat (the (M k))))" if k: "k \<in> set ks" for k
  proof -
    obtain v where "M k = Some v" using ks(1) k by blast
    then show ?thesis by (simp only: option.sel kv_reply_message)
  qed
  then have o: "sock_sent (kv_conn s1) = concat (map ok_message ?vals)"
    unfolding s1(3) kv_values_def by (intro arg_cong [of _ _ concat]) (simp cong: map_cong)
  have "\<exists>c2. KVClient_readDone f2 (cl_set_in (buffer_of (sock_sent (kv_conn s1))) c1) = Some (True, c2) \<and> conn_live (cl_conn c2) \<and>
      response_cbs c2 = [] \<and> delivered c2 = zip cbs (map (\<lambda>k. ok_response (show_nat (unat (the (M k))))) ks)"
    if f2: "length (sock_sent (kv_conn s1)) < f2" for f2
  proof -
    let ?c = "cl_set_in (buffer_of (concat (map ok_message ?vals))) c1"
    have "\<exists>c2. HTTPClient_readDone f2 ?c = Some (True, c2) \<and> delivered c2 = delivered ?c @ zip (response_cbs ?c) (map ok_response ?vals) \<and>
        response_cbs c2 = drop (length ?vals) (response_cbs ?c) \<and> buf_bytes (in_buf (cl_conn c2)) = [] \<and> (\<exists>b. cl_conn c2 = set_in_buf b (cl_conn ?c))"
      using f2 o ks(2) c kv_value_short gr_nils(2)
      by (intro client_delivers) (auto simp: set_in_buf_def)
    then obtain c2 b where "HTTPClient_readDone f2 ?c = Some (True, c2)" "delivered c2 = delivered ?c @ zip (response_cbs ?c) (map ok_response ?vals)"
      "response_cbs c2 = drop (length ?vals) (response_cbs ?c)" "cl_conn c2 = set_in_buf b (cl_conn ?c)" by blast
    then show ?thesis using ks(2) c o by (auto simp: KVClient_readDone_eq comp_def set_in_buf_def conn_live_def)
  qed
  then show ?thesis using s1(1,2) c(1,2) by auto
qed

theorem KV_end_to_end_witness:
  "\<exists>e s s1 c0 c1 c2. KVService_connect False 7 (Some EINPROGRESS) False (Some False) (replicate 100 (WDone 9)) = Returns c0 \<and>
    c1 = KVClient_asyncSend (kv_get 7) ''second'' (KVClient_asyncSend (kv_get 7) ''first'' c0) \<and>
    KV_readDone e 0 200 (kv_set_in (buffer_of (sock_sent (cl_conn c1))) s) = Some (True, s1) \<and>
    KVClient_readDone (Suc (length (sock_sent (kv_conn s1)))) (cl_set_in (buffer_of (sock_sent (kv_conn s1))) c1) = Some (True, c2) \<and>
    delivered c2 = [(''first'', ok_response ''42''), (''second'', ok_response ''42'')]"
proof -
  obtain t where t: "ht_abs 1 t [7 \<mapsto> 42]" using kv_demo_table by blast
  let ?e = "\<lparr>env_tps = 1000, env_me = 0, env_ticks = \<lambda>i. 5\<rparr>" and ?ks = "[7, 7] :: key list" and ?M = "[7 \<mapsto> 42] :: key \<rightharpoonup> key"
  let ?s = "KVServerConnection_new 5 (replicate 500 (WDone 9)) t \<lparr>srv_stats = RequestStats_new 1 (\<lambda>i j. 0), stop_requested = False, clock_reads = 0\<rparr>"
  obtain c0 :: "string client" where c0: "KVService_connect False 7 (Some EINPROGRESS) False (Some False) (replicate 100 (WDone 9)) = Returns c0"
    "conn_ok (cl_conn c0)" unfolding KVService_connect_eq by (simp add: connect_simps)
  let ?c1 = "KVClient_asyncSend (kv_get 7) ''second'' (KVClient_asyncSend (kv_get 7) ''first'' c0)"
  have "kv_values ?M ?ks = ok_message (show_nat 42) @ ok_message (show_nat 42)" by (simp add: kv_values_def kv_reply_message)
  moreover have n42: "show_nat 42 = ''42''" by code_simp
  ultimately have len: "length (kv_gets ?ks) \<le> 100" "length (kv_values ?M ?ks) \<le> 500"
    by (simp_all add: kv_gets_def request_text_def kv_get_def show_nat.simps ok_message_def ok_lines_def ok_headers_def crlf_def)
  have inv: "kv_inv ?e 1 ?M ?s" "conn_live (kv_conn ?s)" "drained (length (kv_values ?M ?ks)) (kv_conn ?s)" "sock_sent (kv_conn ?s) = []"
    using t len(2) by (simp_all add: kv_inv_def conn_inv_def conn_live_def drained_def accepting_def KVServerConnection_new_def startRead_def readWhenReady_def
        acquire_def touch_def Connection_server_def Buffer_new_ok Buffer_new_wf RequestStats_new_def)
  have acc: "accepting (length (kv_gets ?ks)) (replicate 100 (WDone 9))" using len(1) by (simp add: accepting_def)
  have k: "\<forall>k \<in> set ?ks. ht_key k \<and> ?M k \<noteq> None"
    using well_bucketed_small [of 7] by (simp add: ht_key_def)
  have c: "?c1 = fold (\<lambda>(k, cb). KVClient_asyncSend (kv_get k) cb) (zip ?ks [''first'', ''second'']) c0" by simp
  have d: "conn_live (cl_conn c0)" "drained (length (kv_gets ?ks)) (cl_conn c0)" "sock_sent (cl_conn c0) = []"
    using connect_ok [OF c0(1) [unfolded KVService_connect_eq] c0(2)] acc
    by (auto simp: usable_def conn_live_def drained_def conn_inv_def Buffer_new_ok Buffer_new_wf)
  then have "length (sock_sent (cl_conn ?c1)) < 200"
    using asyncSends [of "[''first'', ''second'']" ?ks c0] len(1) by (simp add: Let_def)
  from KV_end_to_end [OF c0 acc inv k _ c this, of 0] obtain s1 where
    s1: "KV_readDone ?e 0 200 (kv_set_in (buffer_of (sock_sent (cl_conn ?c1))) ?s) = Some (True, s1)"
    "\<forall>f2 > length (sock_sent (kv_conn s1)).
      \<exists>c2. KVClient_readDone f2 (cl_set_in (buffer_of (sock_sent (kv_conn s1))) ?c1) = Some (True, c2) \<and> conn_live (cl_conn c2) \<and> response_cbs c2 = [] \<and>
        delivered c2 = zip [''first'', ''second''] (map (\<lambda>k. ok_response (show_nat (unat (the (?M k))))) ?ks)"
    by auto
  then obtain c2 where "KVClient_readDone (Suc (length (sock_sent (kv_conn s1)))) (cl_set_in (buffer_of (sock_sent (kv_conn s1))) ?c1) = Some (True, c2)"
    "delivered c2 = [(''first'', ok_response ''42''), (''second'', ok_response ''42'')]"
    using s1(2) [rule_format, of "Suc (length (sock_sent (kv_conn s1)))"] n42 by auto
  then show ?thesis using s1(1) c0(1) by blast
qed

end
